(* ===== verification/Cmd_Prelude.thy ===== *)
theory Cmd_Prelude
  imports Main "HOL-Library.Word" "HOL-Library.Signed_Division"
begin

text \<open>
  What the components share: the C conventions for integers and characters, the collections
  of simplification rules the component proofs use, and generic lemmas on lists and options.
\<close>

named_theorems cmd_simps \<open>unfolding rules of small source helpers\<close>

subsection \<open>C integers\<close>

text \<open>Conversion to a 32-bit int keeps the low 32 bits, read as two's complement.\<close>

definition c_int :: "int \<Rightarrow> int" where
  "c_int x = sint (word_of_int x :: 32 word)"

lemma c_int_id: "- (2 ^ 31) \<le> x \<Longrightarrow> x < 2 ^ 31 \<Longrightarrow> c_int x = x"
  unfolding c_int_def by (subst sint_sbintrunc') (simp add: signed_take_bit_int_eq_self)

lemma c_int_range: "- (2 ^ 31) \<le> c_int x \<and> c_int x < 2 ^ 31"
  using sint_ge [of "word_of_int x :: 32 word"] sint_lt [of "word_of_int x :: 32 word"]
  by (simp add: c_int_def)


type_synonym octet = "8 word"
type_synonym u32 = "32 word"

subsection \<open>Wide characters in the C locale\<close>

text \<open>
  wchar_t and wint_t are 32-bit signed integers; the values that occur are the out-of-band
  values -1 and -2 and character codes. The classification functions are those of the C
  locale: the ASCII classes, false on every other code. \<open>Rune\<close> is the class iswrune tests.
\<close>

type_synonym wchar = int

datatype wctype =
    Alnum | Alpha | Blank | Cntrl | Digit | Graph | Lower | Print | Punct | Space | Upper
  | Xdigit | Rune

definition iswupper :: "wchar \<Rightarrow> bool" where "iswupper c = (65 \<le> c \<and> c \<le> 90)"
definition iswlower :: "wchar \<Rightarrow> bool" where "iswlower c = (97 \<le> c \<and> c \<le> 122)"
definition iswdigit :: "wchar \<Rightarrow> bool" where "iswdigit c = (48 \<le> c \<and> c \<le> 57)"
definition iswalpha :: "wchar \<Rightarrow> bool" where "iswalpha c = (iswupper c \<or> iswlower c)"
definition iswrune :: "wchar \<Rightarrow> bool" where "iswrune c = (0 \<le> c \<and> c \<le> 127)"

definition towupper :: "wchar \<Rightarrow> wchar" where "towupper c = (if iswlower c then c - 32 else c)"
definition towlower :: "wchar \<Rightarrow> wchar" where "towlower c = (if iswupper c then c + 32 else c)"

fun iswctype :: "wchar \<Rightarrow> wctype \<Rightarrow> bool" where
  "iswctype c Alnum = (iswalpha c \<or> iswdigit c)"
| "iswctype c Alpha = iswalpha c"
| "iswctype c Blank = (c = 9 \<or> c = 32)"
| "iswctype c Cntrl = (0 \<le> c \<and> c \<le> 31 \<or> c = 127)"
| "iswctype c Digit = iswdigit c"
| "iswctype c Graph = (33 \<le> c \<and> c \<le> 126)"
| "iswctype c Lower = iswlower c"
| "iswctype c Print = (32 \<le> c \<and> c \<le> 126)"
| "iswctype c Punct = (33 \<le> c \<and> c \<le> 126 \<and> \<not> (iswalpha c \<or> iswdigit c))"
| "iswctype c Space = (9 \<le> c \<and> c \<le> 13 \<or> c = 32)"
| "iswctype c Upper = iswupper c"
| "iswctype c Xdigit = (iswdigit c \<or> 65 \<le> c \<and> c \<le> 70 \<or> 97 \<le> c \<and> c \<le> 102)"
| "iswctype c Rune = iswrune c"

lemmas wctype_defs =
  iswupper_def iswlower_def iswdigit_def iswalpha_def iswrune_def towupper_def towlower_def

subsection \<open>Lists\<close>

lemma split_unique_by_cmp:
  fixes cmp :: "'a \<Rightarrow> int"
  assumes "l @ a # r = l' @ b # r'" and "cmp a = 0"
    and "\<forall>x \<in> set l. cmp x > 0" and "\<forall>x \<in> set l'. cmp x > 0" and "\<forall>x \<in> set r'. cmp x < 0"
  shows "l' = l \<and> b = a \<and> r' = r"
proof -
  have "a \<in> set (l' @ b # r')" using assms(1) by (metis in_set_conv_decomp)
  then have "b = a" using assms(2,4,5) by auto
  have "takeWhile (\<lambda>x. cmp x > 0) (l @ a # r) = l"
    using assms(2,3) by (simp add: takeWhile_tail)
  moreover have "takeWhile (\<lambda>x. cmp x > 0) (l' @ b # r') = l'"
    using assms(2,4) \<open>b = a\<close> by (simp add: takeWhile_tail)
  ultimately have "l' = l" using assms(1) by simp
  with assms(1) \<open>b = a\<close> show ?thesis by simp
qed


lemma break_at:
  assumes "c \<notin> set xs"
  shows "takeWhile (\<lambda>x. x \<noteq> c) (xs @ c # ys) = xs" and "dropWhile (\<lambda>x. x \<noteq> c) (xs @ c # ys) = c # ys"
  using assms by (induction xs) auto

subsection \<open>Errors\<close>

text \<open>The rest of a computation is skipped after an error.\<close>

definition bind_result :: "'e + 'a \<Rightarrow> ('a \<Rightarrow> 'e + 'b) \<Rightarrow> 'e + 'b" where
  "bind_result r f = (case r of Inl e \<Rightarrow> Inl e | Inr a \<Rightarrow> f a)"

lemma bind_result_simps [simp]: "bind_result (Inl e) f = Inl e" "bind_result (Inr a) f = f a"
  by (simp_all add: bind_result_def)

lemma bind_result_Inr: "bind_result r f = Inr b \<longleftrightarrow> (\<exists>a. r = Inr a \<and> f a = Inr b)"
  by (cases r) auto

lemma bind_result_Inl: "bind_result r f = Inl e \<longleftrightarrow> r = Inl e \<or> (\<exists>a. r = Inr a \<and> f a = Inl e)"
  by (cases r) auto

lemma bind_result_cong [fundef_cong]:
  "r = r' \<Longrightarrow> (\<And>a. r' = Inr a \<Longrightarrow> f a = f' a) \<Longrightarrow> bind_result r f = bind_result r' f'"
  by (cases r') auto

subsection \<open>C strings\<close>

text \<open>
  A C string is the list of its bytes before the terminating NUL. \<open>code\<close> is the value of a
  byte as an unsigned char; a pointer into a string is the rest of the string it points to.
\<close>

definition code :: "char \<Rightarrow> int" where "code c = of_char c"

lemma code_bounds: "0 \<le> code c" "code c < 256"
proof -
  have "code c = code c mod 256" by (simp add: code_def)
  then show "0 \<le> code c" "code c < 256" by (metis pos_mod_sign pos_mod_bound zero_less_numeral)+
qed

abbreviation BSLASH :: char where "BSLASH \<equiv> CHR 0x5C"
abbreviation NL :: char where "NL \<equiv> CHR 0x0A"

definition isdigit :: "char \<Rightarrow> bool" where "isdigit c = iswdigit (code c)"
definition isalpha :: "char \<Rightarrow> bool" where "isalpha c = iswalpha (code c)"
definition isalnum :: "char \<Rightarrow> bool" where "isalnum c = iswctype (code c) Alnum"
definition isspace :: "char \<Rightarrow> bool" where "isspace c = iswctype (code c) Space"

definition is_prefix :: "string \<Rightarrow> string \<Rightarrow> bool" where
  "is_prefix p s \<longleftrightarrow> take (length p) s = p"

text \<open>strtol with base 0: white space, a sign, a 0x or 0 prefix, digits; the value saturates
  at the bounds of a 64-bit long. The second component is where the scan ended, the whole
  string when no number was found.\<close>

definition digit_val :: "char \<Rightarrow> int" where
  "digit_val c = (let x = code c in
     if iswdigit x then x - 48 else if iswlower x then x - 87 else if iswupper x then x - 55 else 99)"

fun scan_digits :: "int \<Rightarrow> int \<Rightarrow> string \<Rightarrow> int \<times> string" where
  "scan_digits b acc [] = (acc, [])"
| "scan_digits b acc (c # cs) =
     (if digit_val c < b then scan_digits b (acc * b + digit_val c) cs else (acc, c # cs))"

definition clamp_long :: "int \<Rightarrow> int" where
  "clamp_long x = max (- (2 ^ 63)) (min (2 ^ 63 - 1) x)"

definition strip_sign :: "string \<Rightarrow> bool \<times> string" where
  "strip_sign s = (case s of [] \<Rightarrow> (False, [])
     | c # cs \<Rightarrow> if c = CHR ''-'' then (True, cs) else if c = CHR ''+'' then (False, cs) else (False, s))"

definition strip_base :: "string \<Rightarrow> int \<times> string" where
  "strip_base s =
     (if (is_prefix ''0x'' s \<or> is_prefix ''0X'' s) \<and> drop 2 s \<noteq> [] \<and> digit_val (hd (drop 2 s)) < 16
      then (16, drop 2 s) else if is_prefix ''0'' s then (8, s) else (10, s))"

definition strtol0 :: "string \<Rightarrow> int \<times> string" where
  "strtol0 s =
     (let (neg, s2) = strip_sign (dropWhile isspace s); (b, s3) = strip_base s2 in
      if s3 \<noteq> [] \<and> digit_val (hd s3) < b then
        (let (v, r) = scan_digits b 0 s3 in (clamp_long (if neg then - v else v), r))
      else (0, s))"

lemma scan_digits_length: "length (snd (scan_digits b acc s)) \<le> length s"
  by (induction b acc s rule: scan_digits.induct) auto

lemma strip_length: "length (snd (strip_sign s)) \<le> length s" "length (snd (strip_base s)) \<le> length s"
  by (auto simp: strip_sign_def strip_base_def split: list.splits)

lemma strtol0_length: "length (snd (strtol0 s)) \<le> length s"
proof -
  obtain neg s2 where s2: "strip_sign (dropWhile isspace s) = (neg, s2)" by (metis surj_pair)
  obtain b s3 where s3: "strip_base s2 = (b, s3)" by (metis surj_pair)
  have "length s3 \<le> length s"
    using strip_length(1) [of "dropWhile isspace s"] strip_length(2) [of s2] length_dropWhile_le [of isspace s]
    by (simp add: s2 s3)
  then show ?thesis
    using scan_digits_length [of b 0 s3] by (auto simp: strtol0_def s2 s3 split: prod.split)
qed

end
