(* ===== verification/Splay.thy ===== *)
theory Splay
  imports Cmd_Prelude "HOL-Library.Tree"
begin

text \<open>
  The top-down splay loop that tr uses twice: cset_splay in text_cmds/tr/cset.c and
  cmap_splay in text_cmds/tr/cmap.c are the same loop over different node comparisons.
  The C loop keeps a dummy node N and two pointers l and r into the trees that hang off
  N: every node linked through l becomes the right child of the previous one, every node
  linked through r the left child of the previous one. The model keeps the linked nodes
  as two lists, the most recently linked node first: an entry of the left list is a node
  whose right child is still open, an entry of the right list a node whose left child is
  open. The three assignments after the loop close the open children, which is what
  \<open>close_left\<close> and \<open>close_right\<close> do.
\<close>

type_synonym 'a left_spine = "('a tree \<times> 'a) list"
type_synonym 'a right_spine = "('a \<times> 'a tree) list"

fun close_left :: "'a left_spine \<Rightarrow> 'a tree \<Rightarrow> 'a tree" where
  "close_left [] x = x"
| "close_left ((l, a) # ls) x = close_left ls (Node l a x)"

fun close_right :: "'a right_spine \<Rightarrow> 'a tree \<Rightarrow> 'a tree" where
  "close_right [] x = x"
| "close_right ((a, r) # rs) x = close_right rs (Node x a r)"

text \<open>
  \<open>cmp n\<close> is the comparison of the searched character with node \<open>n\<close>: negative when the
  character lies before the node, positive when it lies behind it. The rotations are the
  zig-zig steps of the loop body.
\<close>

definition rotate_right :: "('a \<Rightarrow> int) \<Rightarrow> 'a tree \<Rightarrow> 'a \<Rightarrow> 'a tree \<Rightarrow> 'a tree" where
  "rotate_right cmp lt a rt =
     (case lt of
        Node yl y yr \<Rightarrow> if cmp y < 0 then Node yl y (Node yr a rt) else Node lt a rt
      | Leaf \<Rightarrow> Node lt a rt)"

definition rotate_left :: "('a \<Rightarrow> int) \<Rightarrow> 'a tree \<Rightarrow> 'a \<Rightarrow> 'a tree \<Rightarrow> 'a tree" where
  "rotate_left cmp lt a rt =
     (case rt of
        Node yl y yr \<Rightarrow> if cmp y > 0 then Node (Node lt a yl) y yr else Node lt a rt
      | Leaf \<Rightarrow> Node lt a rt)"

lemma size_rotate_right [simp]: "size (rotate_right cmp lt a rt) = Suc (size lt + size rt)"
  by (simp add: rotate_right_def split: tree.splits)

lemma size_rotate_left [simp]: "size (rotate_left cmp lt a rt) = Suc (size lt + size rt)"
  by (simp add: rotate_left_def split: tree.splits)

function splay_loop ::
  "('a \<Rightarrow> int) \<Rightarrow> 'a tree \<Rightarrow> 'a left_spine \<Rightarrow> 'a right_spine \<Rightarrow> 'a tree \<times> 'a left_spine \<times> 'a right_spine"
where
  "splay_loop cmp Leaf ls rs = (Leaf, ls, rs)"
| "splay_loop cmp (Node lt a rt) ls rs =
     (if cmp a < 0 then
        (case rotate_right cmp lt a rt of
           Node l b r \<Rightarrow>
             if l = Leaf then (Node l b r, ls, rs)
             else splay_loop cmp l ls ((b, r) # rs)
         | Leaf \<Rightarrow> (Leaf, ls, rs))
      else if cmp a > 0 then
        (case rotate_left cmp lt a rt of
           Node l b r \<Rightarrow>
             if r = Leaf then (Node l b r, ls, rs)
             else splay_loop cmp r ((l, b) # ls) rs
         | Leaf \<Rightarrow> (Leaf, ls, rs))
      else (Node lt a rt, ls, rs))"
  by pat_completeness auto
termination
proof (relation "measure (\<lambda>(cmp, t, ls, rs). size t)", goal_cases)
  case (2 cmp lt a rt ls rs l b r)
  then have "size (Node l b r) = Suc (size lt + size rt)"
    by (metis size_rotate_right)
  then show ?case by simp
next
  case (3 cmp lt a rt ls rs l b r)
  then have "size (Node l b r) = Suc (size lt + size rt)"
    by (metis size_rotate_left)
  then show ?case by simp
qed simp

definition topdown_splay :: "('a \<Rightarrow> int) \<Rightarrow> 'a tree \<Rightarrow> 'a tree" where
  "topdown_splay cmp t =
     (case splay_loop cmp t [] [] of
        (Node lt a rt, ls, rs) \<Rightarrow> Node (close_left ls lt) a (close_right rs rt)
      | (Leaf, ls, rs) \<Rightarrow> Leaf)"


subsection \<open>The loop keeps the inorder sequence\<close>

definition left_seq :: "'a left_spine \<Rightarrow> 'a list" where
  "left_seq ls = concat (map (\<lambda>(l, a). inorder l @ [a]) (rev ls))"

definition right_seq :: "'a right_spine \<Rightarrow> 'a list" where
  "right_seq rs = concat (map (\<lambda>(a, r). a # inorder r) rs)"

lemma left_seq_simps [simp]:
  "left_seq [] = []" "left_seq ((l, a) # ls) = left_seq ls @ inorder l @ [a]"
  by (simp_all add: left_seq_def)

lemma right_seq_simps [simp]:
  "right_seq [] = []" "right_seq ((a, r) # rs) = a # inorder r @ right_seq rs"
  by (simp_all add: right_seq_def)

lemma inorder_close_left [simp]: "inorder (close_left ls x) = left_seq ls @ inorder x"
  by (induction ls x rule: close_left.induct) auto

lemma inorder_close_right [simp]: "inorder (close_right rs x) = inorder x @ right_seq rs"
  by (induction rs x rule: close_right.induct) auto

lemma inorder_rotate [simp]:
  "inorder (rotate_right cmp lt a rt) = inorder lt @ a # inorder rt"
  "inorder (rotate_left cmp lt a rt) = inorder lt @ a # inorder rt"
  by (auto simp: rotate_right_def rotate_left_def split: tree.splits)

lemma rotate_not_Leaf [simp]:
  "rotate_right cmp lt a rt \<noteq> Leaf" "rotate_left cmp lt a rt \<noteq> Leaf"
  by (auto simp: rotate_right_def rotate_left_def split: tree.splits)

lemma rotate_root:
  "rotate_right cmp lt a rt = Node l b r \<Longrightarrow> cmp a < 0 \<Longrightarrow> cmp b < 0"
  "rotate_left cmp lt a rt = Node l b r \<Longrightarrow> cmp a > 0 \<Longrightarrow> cmp b > 0"
  by (auto simp: rotate_right_def rotate_left_def split: tree.splits if_splits)

lemma inorder_rotate_right_Node:
  assumes "rotate_right cmp lt a rt = Node l b r"
  shows "inorder lt @ a # inorder rt = inorder l @ b # inorder r"
  using inorder_rotate(1) [of cmp lt a rt] by (simp add: assms)

lemma inorder_rotate_left_Node:
  assumes "rotate_left cmp lt a rt = Node l b r"
  shows "inorder lt @ a # inorder rt = inorder l @ b # inorder r"
  using inorder_rotate(2) [of cmp lt a rt] by (simp add: assms)

definition spine_seq :: "'a tree \<times> 'a left_spine \<times> 'a right_spine \<Rightarrow> 'a list" where
  "spine_seq s = (case s of (t, ls, rs) \<Rightarrow> left_seq ls @ inorder t @ right_seq rs)"

text \<open>
  The three ways a loop iteration goes, and the induction over the iterations that every
  fact about the loop uses.
\<close>

declare splay_loop.simps(2) [simp del]

lemma splay_loop_neg:
  "cmp a < 0 \<Longrightarrow> rotate_right cmp lt a rt = Node l b r \<Longrightarrow>
   splay_loop cmp (Node lt a rt) ls rs =
     (if l = Leaf then (Node l b r, ls, rs) else splay_loop cmp l ls ((b, r) # rs))"
  by (simp add: splay_loop.simps(2))

lemma splay_loop_pos:
  "cmp a > 0 \<Longrightarrow> rotate_left cmp lt a rt = Node l b r \<Longrightarrow>
   splay_loop cmp (Node lt a rt) ls rs =
     (if r = Leaf then (Node l b r, ls, rs) else splay_loop cmp r ((l, b) # ls) rs)"
  by (simp add: splay_loop.simps(2))

lemma splay_loop_zero: "cmp a = 0 \<Longrightarrow> splay_loop cmp (Node lt a rt) ls rs = (Node lt a rt, ls, rs)"
  by (simp add: splay_loop.simps(2))

lemma splay_loop_induct [case_names Leaf Neg Pos Zero]:
  assumes Leaf: "\<And>ls rs. P Leaf ls rs"
    and Neg: "\<And>lt a rt l b r ls rs. cmp a < 0 \<Longrightarrow> rotate_right cmp lt a rt = Node l b r \<Longrightarrow>
      cmp b < 0 \<Longrightarrow> inorder lt @ a # inorder rt = inorder l @ b # inorder r \<Longrightarrow>
      (l \<noteq> Leaf \<Longrightarrow> P l ls ((b, r) # rs)) \<Longrightarrow> P (Node lt a rt) ls rs"
    and Pos: "\<And>lt a rt l b r ls rs. cmp a > 0 \<Longrightarrow> rotate_left cmp lt a rt = Node l b r \<Longrightarrow>
      cmp b > 0 \<Longrightarrow> inorder lt @ a # inorder rt = inorder l @ b # inorder r \<Longrightarrow>
      (r \<noteq> Leaf \<Longrightarrow> P r ((l, b) # ls) rs) \<Longrightarrow> P (Node lt a rt) ls rs"
    and Zero: "\<And>lt a rt ls rs. cmp a = 0 \<Longrightarrow> P (Node lt a rt) ls rs"
  shows "P t ls rs"
proof (induction t arbitrary: ls rs rule: measure_induct_rule [where f = size])
  case (less t)
  show ?case
  proof (cases t)
    case Leaf
    then show ?thesis using assms(1) by simp
  next
    case (Node lt a rt)
    consider (neg) "cmp a < 0" | (pos) "cmp a > 0" | (zero) "cmp a = 0" by linarith
    then show ?thesis
    proof cases
      case neg
      obtain l b r where rot: "rotate_right cmp lt a rt = Node l b r"
        by (metis rotate_not_Leaf(1) tree.exhaust)
      have "size l < size t" using size_rotate_right [of cmp lt a rt] rot Node by simp
      then show ?thesis
        using Neg [OF neg rot rotate_root(1) [OF rot neg] inorder_rotate_right_Node [OF rot]]
          less.IH Node by blast
    next
      case pos
      obtain l b r where rot: "rotate_left cmp lt a rt = Node l b r"
        by (metis rotate_not_Leaf(2) tree.exhaust)
      have "size r < size t" using size_rotate_left [of cmp lt a rt] rot Node by simp
      then show ?thesis
        using Pos [OF pos rot rotate_root(2) [OF rot pos] inorder_rotate_left_Node [OF rot]]
          less.IH Node by blast
    next
      case zero
      then show ?thesis using Zero Node by simp
    qed
  qed
qed

lemmas splay_loop_steps = splay_loop_neg splay_loop_pos splay_loop_zero

lemma spine_seq_splay_loop:
  "spine_seq (splay_loop cmp t ls rs) = left_seq ls @ inorder t @ right_seq rs"
  by (induction t ls rs rule: splay_loop_induct [where cmp = cmp])
    (simp_all add: splay_loop_steps spine_seq_def)

lemma splay_loop_Leaf_iff: "fst (splay_loop cmp t ls rs) = Leaf \<longleftrightarrow> t = Leaf"
  by (induction t ls rs rule: splay_loop_induct [where cmp = cmp]) (auto simp: splay_loop_steps)

lemma topdown_splay_Leaf [simp]: "topdown_splay cmp Leaf = Leaf"
  by (simp add: topdown_splay_def)

lemma topdown_splay_Leaf_iff [simp]: "topdown_splay cmp t = Leaf \<longleftrightarrow> t = Leaf"
  using splay_loop_Leaf_iff [of cmp t "[]" "[]"]
  by (cases "splay_loop cmp t [] []") (auto simp: topdown_splay_def split: tree.splits)

lemma inorder_topdown_splay [simp]: "inorder (topdown_splay cmp t) = inorder t"
proof -
  obtain u ls rs where s: "splay_loop cmp t [] [] = (u, ls, rs)" by (cases "splay_loop cmp t [] []")
  then have "left_seq ls @ inorder u @ right_seq rs = inorder t" and "u = Leaf \<longleftrightarrow> t = Leaf"
    using spine_seq_splay_loop [of cmp t "[]" "[]"] splay_loop_Leaf_iff [of cmp t "[]" "[]"]
    by (simp_all add: spine_seq_def)
  then show ?thesis by (cases u) (simp_all add: topdown_splay_def s)
qed

subsection \<open>The root after splaying\<close>

text \<open>
  \<open>cut cmp xs\<close>: along \<open>xs\<close> the comparison changes from positive through at most one zero
  to negative, which is what a search tree ordered by disjoint keys guarantees.
\<close>

definition cut :: "('a \<Rightarrow> int) \<Rightarrow> 'a list \<Rightarrow> bool" where
  "cut cmp xs = sorted_wrt (\<lambda>x y. cmp x > 0 \<or> cmp y < 0) xs"

lemma cut_append:
  "cut cmp (xs @ ys) \<longleftrightarrow> cut cmp xs \<and> cut cmp ys \<and> (\<forall>x \<in> set xs. \<forall>y \<in> set ys. cmp x > 0 \<or> cmp y < 0)"
  by (simp add: cut_def sorted_wrt_append)

lemma cut_Cons:
  "cut cmp (x # ys) \<longleftrightarrow> cut cmp ys \<and> (\<forall>y \<in> set ys. cmp x > 0 \<or> cmp y < 0)"
  by (auto simp: cut_def)

lemma cut_Nil [simp]: "cut cmp []"
  by (simp add: cut_def)

lemma cut_split_neg:
  "cut cmp (xs @ a # ys) \<Longrightarrow> cmp a < 0 \<Longrightarrow> \<forall>y \<in> set ys. cmp y < 0"
  by (force simp: cut_append cut_Cons)

lemma cut_split_pos:
  "cut cmp (xs @ a # ys) \<Longrightarrow> cmp a > 0 \<Longrightarrow> \<forall>x \<in> set xs. cmp x > 0"
  by (force simp: cut_append cut_Cons)

lemma cut_split_zero:
  "cut cmp (xs @ a # ys) \<Longrightarrow> cmp a = 0 \<Longrightarrow>
    (\<forall>x \<in> set xs. cmp x > 0) \<and> (\<forall>y \<in> set ys. cmp y < 0)"
  by (force simp: cut_append cut_Cons)

definition parted :: "('a \<Rightarrow> int) \<Rightarrow> 'a tree \<Rightarrow> bool" where
  "parted cmp t = (case t of Leaf \<Rightarrow> True
     | Node l a r \<Rightarrow> (\<forall>x \<in> set_tree l. cmp x > 0) \<and> (\<forall>x \<in> set_tree r. cmp x < 0))"

definition parted_state :: "('a \<Rightarrow> int) \<Rightarrow> 'a tree \<times> 'a left_spine \<times> 'a right_spine \<Rightarrow> bool" where
  "parted_state cmp s = (case s of (t, ls, rs) \<Rightarrow>
     parted cmp t \<and> (\<forall>x \<in> set (left_seq ls). cmp x > 0) \<and> (\<forall>x \<in> set (right_seq rs). cmp x < 0))"

lemma splay_loop_parted:
  assumes "cut cmp (inorder t)"
    and "\<forall>x \<in> set (left_seq ls). cmp x > 0" and "\<forall>x \<in> set (right_seq rs). cmp x < 0"
  shows "parted_state cmp (splay_loop cmp t ls rs)"
  using assms
proof (induction t ls rs rule: splay_loop_induct [where cmp = cmp])
  case (Leaf ls rs)
  then show ?case by (simp add: parted_state_def parted_def)
next
  case (Neg lt a rt l b r ls rs)
  have cut: "cut cmp (inorder l @ b # inorder r)" using Neg.prems(1) Neg.hyps(4) by simp
  have r: "\<forall>y \<in> set (b # inorder r). cmp y < 0"
    using cut_split_neg [OF cut Neg.hyps(3)] Neg.hyps(3) by simp
  have "parted_state cmp (splay_loop cmp l ls ((b, r) # rs))" if "l \<noteq> Leaf"
    by (rule Neg.IH [OF that]) (use cut r Neg.prems in \<open>auto simp: cut_append\<close>)
  then show ?case
    using r Neg.prems(2,3) by (simp add: splay_loop_neg [OF Neg.hyps(1,2)] parted_state_def parted_def)
next
  case (Pos lt a rt l b r ls rs)
  have cut: "cut cmp (inorder l @ b # inorder r)" using Pos.prems(1) Pos.hyps(4) by simp
  have l: "\<forall>y \<in> set (inorder l @ [b]). cmp y > 0"
    using cut_split_pos [OF cut Pos.hyps(3)] Pos.hyps(3) by simp
  have "parted_state cmp (splay_loop cmp r ((l, b) # ls) rs)" if "r \<noteq> Leaf"
    by (rule Pos.IH [OF that]) (use cut l Pos.prems in \<open>auto simp: cut_append cut_Cons\<close>)
  then show ?case
    using l Pos.prems(2,3) by (simp add: splay_loop_pos [OF Pos.hyps(1,2)] parted_state_def parted_def)
next
  case (Zero lt a rt ls rs)
  then show ?case
    using cut_split_zero [of cmp "inorder lt" a "inorder rt"]
    by (simp add: splay_loop_zero parted_state_def parted_def)
qed

text \<open>
  After splaying, the nodes left of the root lie before the searched character and the
  nodes right of it lie behind, whether or not the root itself matches.
\<close>

lemma topdown_splay_parted:
  assumes "cut cmp (inorder t)"
  shows "parted cmp (topdown_splay cmp t)"
proof -
  obtain u ls rs where s: "splay_loop cmp t [] [] = (u, ls, rs)" by (cases "splay_loop cmp t [] []")
  have "parted_state cmp (u, ls, rs)"
    using splay_loop_parted [of cmp t "[]" "[]"] assms s by simp
  then show ?thesis
    by (auto simp: topdown_splay_def s parted_state_def parted_def split: tree.splits
        simp flip: set_inorder)
qed

lemma topdown_splay_split:
  assumes "t \<noteq> Leaf" and "cut cmp (inorder t)"
  obtains l a r where "topdown_splay cmp t = Node l a r"
    and "inorder t = inorder l @ a # inorder r"
    and "\<forall>x \<in> set (inorder l). cmp x > 0" and "\<forall>x \<in> set (inorder r). cmp x < 0"
proof -
  obtain l a r where n: "topdown_splay cmp t = Node l a r"
    using assms(1) by (metis topdown_splay_Leaf_iff tree.exhaust)
  moreover have "inorder t = inorder l @ a # inorder r"
    using inorder_topdown_splay [of cmp t] n by simp
  moreover have "parted cmp (Node l a r)" using topdown_splay_parted [OF assms(2)] n by simp
  ultimately show ?thesis using that by (simp add: parted_def)
qed

end
