(* ===== verification/Tr_Loops.thy ===== *)
theory Tr_Loops
  imports Cmd_Prelude
begin

text \<open>
  The input loops of tr's main (text_cmds/tr/tr.c) and the interfaces they rely on. A loop
  reads characters until WEOF (here: the list of characters read), queries a character set
  or a character map, and writes characters. A query may reorganise the structure it is
  asked of, so it returns the structure beside its answer and the loops thread it. The
  locales state what the loops need of a set and of a map; \<open>Cset\<close> and \<open>Cmap\<close> provide it.
\<close>

abbreviation OOBCH :: wchar where "OOBCH \<equiv> - 1"

fun delete_loop :: "('s \<Rightarrow> wchar \<Rightarrow> bool \<times> 's) \<Rightarrow> 's \<Rightarrow> wchar list \<Rightarrow> wchar list" where
  "delete_loop qin s [] = []"
| "delete_loop qin s (ch # chs) =
     (let (b, s') = qin s ch in
      if \<not> b then ch # delete_loop qin s' chs else delete_loop qin s' chs)"

fun squeeze_loop :: "('s \<Rightarrow> wchar \<Rightarrow> bool \<times> 's) \<Rightarrow> 's \<Rightarrow> wchar \<Rightarrow> wchar list \<Rightarrow> wchar list" where
  "squeeze_loop qin s lastch [] = []"
| "squeeze_loop qin s lastch (ch # chs) =
     (if lastch \<noteq> ch then ch # squeeze_loop qin s ch chs
      else (let (b, s') = qin s ch in
            if \<not> b then ch # squeeze_loop qin s' ch chs else squeeze_loop qin s' lastch chs))"

fun delete_squeeze_loop ::
  "('d \<Rightarrow> wchar \<Rightarrow> bool \<times> 'd) \<Rightarrow> 'd \<Rightarrow> ('s \<Rightarrow> wchar \<Rightarrow> bool \<times> 's) \<Rightarrow> 's \<Rightarrow> wchar \<Rightarrow> wchar list \<Rightarrow> wchar list"
where
  "delete_squeeze_loop din d qin s lastch [] = []"
| "delete_squeeze_loop din d qin s lastch (ch # chs) =
     (let (del, d') = din d ch in
      if del then delete_squeeze_loop din d' qin s lastch chs
      else if lastch \<noteq> ch then ch # delete_squeeze_loop din d' qin s ch chs
      else (let (b, s') = qin s ch in
            if \<not> b then ch # delete_squeeze_loop din d' qin s' ch chs
            else delete_squeeze_loop din d' qin s' lastch chs))"

text \<open>The mapping of one input character: under -C only characters of the locale are mapped.\<close>

definition map_char :: "('m \<Rightarrow> wchar \<Rightarrow> wchar \<times> 'm) \<Rightarrow> 'm \<Rightarrow> bool \<Rightarrow> wchar \<Rightarrow> wchar \<times> 'm" where
  "map_char look m Cflag ch = (if \<not> Cflag \<or> iswrune ch then look m ch else (ch, m))"

fun translate_loop :: "('m \<Rightarrow> wchar \<Rightarrow> wchar \<times> 'm) \<Rightarrow> 'm \<Rightarrow> bool \<Rightarrow> wchar list \<Rightarrow> wchar list" where
  "translate_loop look m Cflag [] = []"
| "translate_loop look m Cflag (ch # chs) =
     (let (ch', m') = map_char look m Cflag ch
      in ch' # translate_loop look m' Cflag chs)"

fun translate_squeeze_loop ::
  "('m \<Rightarrow> wchar \<Rightarrow> wchar \<times> 'm) \<Rightarrow> 'm \<Rightarrow> bool \<Rightarrow> ('s \<Rightarrow> wchar \<Rightarrow> bool \<times> 's) \<Rightarrow> 's \<Rightarrow> wchar \<Rightarrow> wchar list \<Rightarrow> wchar list"
where
  "translate_squeeze_loop look m Cflag qin s lastch [] = []"
| "translate_squeeze_loop look m Cflag qin s lastch (ch0 # chs) =
     (let (ch, m') = map_char look m Cflag ch0 in
      if lastch \<noteq> ch then ch # translate_squeeze_loop look m' Cflag qin s ch chs
      else (let (b, s') = qin s ch in
            if \<not> b then ch # translate_squeeze_loop look m' Cflag qin s' ch chs
            else translate_squeeze_loop look m' Cflag qin s' lastch chs))"

subsection \<open>Squeezing, abstractly\<close>

text \<open>Repetitions of a character of \<open>S\<close> collapse to one occurrence.\<close>

fun squeeze :: "'a set \<Rightarrow> 'a list \<Rightarrow> 'a list" where
  "squeeze S [] = []"
| "squeeze S [x] = [x]"
| "squeeze S (x # y # zs) =
     (if x = y \<and> x \<in> S then squeeze S (y # zs) else x # squeeze S (y # zs))"

lemma squeeze_UNIV: "squeeze UNIV xs = remdups_adj xs"
  by (induction xs rule: remdups_adj.induct) auto

lemma squeeze_Cons_hd: "\<exists>ys. squeeze S (x # xs) = x # ys"
  by (induction xs arbitrary: x) auto

lemma squeeze_remdups_adj: "remdups_adj (squeeze S xs) = remdups_adj xs"
proof (induction S xs rule: squeeze.induct)
  case (3 S x y zs)
  then show ?case
    using squeeze_Cons_hd [of S y zs] by (auto split: if_splits)
qed auto

lemma squeeze_distinct_adj:
  "successively (\<lambda>x y. x = y \<longrightarrow> x \<notin> S) (squeeze S xs)"
proof (induction S xs rule: squeeze.induct)
  case (3 S x y zs)
  then show ?case
    using squeeze_Cons_hd [of S y zs] by (auto simp: successively_Cons split: if_splits)
qed auto

text \<open>The same function with the previously written character carried along.\<close>

fun squeeze_from :: "'a set \<Rightarrow> 'a \<Rightarrow> 'a list \<Rightarrow> 'a list" where
  "squeeze_from S z [] = []"
| "squeeze_from S z (x # xs) = (if z = x \<and> x \<in> S then squeeze_from S z xs else x # squeeze_from S x xs)"

lemma squeeze_from_Cons: "z # squeeze_from S z xs = squeeze S (z # xs)"
  by (induction xs arbitrary: z) auto

lemma squeeze_from_eq: "z \<notin> set xs \<Longrightarrow> squeeze_from S z xs = squeeze S xs"
  by (cases xs) (auto simp: squeeze_from_Cons)

text \<open>The character function a map induces under the -C flag.\<close>

definition trans_char :: "(wchar \<Rightarrow> wchar) \<Rightarrow> bool \<Rightarrow> wchar \<Rightarrow> wchar" where
  "trans_char f Cflag c = (if \<not> Cflag \<or> iswrune c then f c else c)"

subsection \<open>Interfaces\<close>

locale char_set =
  fixes qin :: "'s \<Rightarrow> wchar \<Rightarrow> bool \<times> 's"
    and chars :: "'s \<Rightarrow> wchar set"
    and invar :: "'s \<Rightarrow> bool"
  assumes qin_result: "invar s \<Longrightarrow> 0 \<le> ch \<Longrightarrow> fst (qin s ch) \<longleftrightarrow> ch \<in> chars s"
    and qin_chars: "invar s \<Longrightarrow> chars (snd (qin s ch)) = chars s"
    and qin_invar: "invar s \<Longrightarrow> invar (snd (qin s ch))"
begin

lemma qin_step:
  assumes "invar s" "0 \<le> ch" "qin s ch = (b, s')"
  shows "b \<longleftrightarrow> ch \<in> chars s" "chars s' = chars s" "invar s'"
  using qin_result qin_chars qin_invar assms by (metis fst_conv snd_conv)+

lemma delete_loop_filter:
  "invar s \<Longrightarrow> \<forall>c \<in> set xs. 0 \<le> c \<Longrightarrow> delete_loop qin s xs = filter (\<lambda>c. c \<notin> chars s) xs"
proof (induction xs arbitrary: s)
  case (Cons x xs)
  obtain e s' where s: "qin s x = (e, s')" by (cases "qin s x")
  show ?case using Cons qin_step [OF Cons.prems(1) _ s] by (simp add: s)
qed simp

lemma squeeze_loop_from:
  "invar s \<Longrightarrow> \<forall>c \<in> set xs. 0 \<le> c \<Longrightarrow> squeeze_loop qin s z xs = squeeze_from (chars s) z xs"
proof (induction xs arbitrary: s z)
  case (Cons x xs)
  obtain e s' where s: "qin s x = (e, s')" by (cases "qin s x")
  show ?case using Cons qin_step [OF Cons.prems(1) _ s] by (simp add: s)
qed simp

lemma squeeze_loop_squeeze:
  assumes "invar s" "\<forall>c \<in> set xs. 0 \<le> c"
  shows "squeeze_loop qin s OOBCH xs = squeeze (chars s) xs"
proof -
  have "OOBCH \<notin> set xs" using assms(2) by force
  then show ?thesis by (simp add: squeeze_loop_from assms squeeze_from_eq)
qed

end

locale two_char_sets = del: char_set din dchars dinvar + sqz: char_set qin chars invar
  for din :: "'d \<Rightarrow> wchar \<Rightarrow> bool \<times> 'd" and dchars :: "'d \<Rightarrow> wchar set" and dinvar :: "'d \<Rightarrow> bool"
    and qin :: "'s \<Rightarrow> wchar \<Rightarrow> bool \<times> 's" and chars :: "'s \<Rightarrow> wchar set" and invar :: "'s \<Rightarrow> bool"
begin

lemma delete_squeeze_loop_from:
  "dinvar d \<Longrightarrow> invar s \<Longrightarrow> \<forall>c \<in> set xs. 0 \<le> c \<Longrightarrow>
   delete_squeeze_loop din d qin s z xs = squeeze_from (chars s) z (filter (\<lambda>c. c \<notin> dchars d) xs)"
proof (induction xs arbitrary: d s z)
  case (Cons x xs)
  obtain b d' where d: "din d x = (b, d')" by (cases "din d x")
  obtain e s' where s: "qin s x = (e, s')" by (cases "qin s x")
  note D = del.qin_step [OF Cons.prems(1) _ d] and S = sqz.qin_step [OF Cons.prems(2) _ s]
  show ?case using Cons D S by (simp add: d s)
qed simp

lemma delete_squeeze_loop_spec:
  assumes "dinvar d" "invar s" "\<forall>c \<in> set xs. 0 \<le> c"
  shows "delete_squeeze_loop din d qin s OOBCH xs = squeeze (chars s) (filter (\<lambda>c. c \<notin> dchars d) xs)"
proof -
  have "OOBCH \<notin> set (filter (\<lambda>c. c \<notin> dchars d) xs)" using assms(3) by force
  then show ?thesis by (simp add: delete_squeeze_loop_from assms squeeze_from_eq)
qed

end

locale char_map =
  fixes look :: "'m \<Rightarrow> wchar \<Rightarrow> wchar \<times> 'm"
    and mapping :: "'m \<Rightarrow> wchar \<Rightarrow> wchar"
    and minvar :: "'m \<Rightarrow> bool"
  assumes look_result: "minvar m \<Longrightarrow> 0 \<le> ch \<Longrightarrow> fst (look m ch) = mapping m ch"
    and look_mapping: "minvar m \<Longrightarrow> mapping (snd (look m ch)) = mapping m"
    and look_invar: "minvar m \<Longrightarrow> minvar (snd (look m ch))"
begin

lemma look_step:
  assumes "minvar m" "0 \<le> ch" "look m ch = (c, m')"
  shows "c = mapping m ch" "mapping m' = mapping m" "minvar m'"
  using look_result look_mapping look_invar assms by (metis fst_conv snd_conv)+

lemma map_char_step:
  assumes "minvar m" "0 \<le> ch" "map_char look m Cflag ch = (c, m')"
  shows "c = trans_char (mapping m) Cflag ch" "mapping m' = mapping m" "minvar m'"
  using look_step [of m ch] assms by (auto simp: map_char_def trans_char_def split: if_splits)

lemma translate_loop_map:
  "minvar m \<Longrightarrow> \<forall>c \<in> set xs. 0 \<le> c \<Longrightarrow> translate_loop look m Cflag xs = map (trans_char (mapping m) Cflag) xs"
proof (induction xs arbitrary: m)
  case (Cons x xs)
  obtain c m' where m: "map_char look m Cflag x = (c, m')" by (cases "map_char look m Cflag x")
  show ?case using Cons map_char_step [OF Cons.prems(1) _ m] by (simp add: m)
qed simp

end

locale char_map_set = char_map look mapping minvar + char_set qin chars invar
  for look :: "'m \<Rightarrow> wchar \<Rightarrow> wchar \<times> 'm" and mapping :: "'m \<Rightarrow> wchar \<Rightarrow> wchar" and minvar :: "'m \<Rightarrow> bool"
    and qin :: "'s \<Rightarrow> wchar \<Rightarrow> bool \<times> 's" and chars :: "'s \<Rightarrow> wchar set" and invar :: "'s \<Rightarrow> bool"
begin

lemma translate_squeeze_loop_from:
  "minvar m \<Longrightarrow> invar s \<Longrightarrow> \<forall>c \<in> set xs. 0 \<le> c \<Longrightarrow> \<forall>c \<in> set (map (trans_char (mapping m) Cflag) xs). 0 \<le> c \<Longrightarrow>
   translate_squeeze_loop look m Cflag qin s z xs = squeeze_from (chars s) z (map (trans_char (mapping m) Cflag) xs)"
proof (induction xs arbitrary: m s z)
  case (Cons x xs)
  obtain c m' where m: "map_char look m Cflag x = (c, m')" by (cases "map_char look m Cflag x")
  obtain e s' where s: "qin s c = (e, s')" by (cases "qin s c")
  have M: "c = trans_char (mapping m) Cflag x" "mapping m' = mapping m" "minvar m'"
    using map_char_step [OF Cons.prems(1) _ m] Cons.prems(3) by simp_all
  have S: "e \<longleftrightarrow> c \<in> chars s" "chars s' = chars s" "invar s'"
    using qin_step [OF Cons.prems(2) _ s] Cons.prems(4) M(1) by simp_all
  show ?case using Cons S M by (simp add: m s [unfolded M(1)])
qed simp

lemma translate_squeeze_loop_spec:
  assumes "minvar m" "invar s" "\<forall>c \<in> set xs. 0 \<le> c" "\<forall>c \<in> set (map (trans_char (mapping m) Cflag) xs). 0 \<le> c"
  shows "translate_squeeze_loop look m Cflag qin s OOBCH xs = squeeze (chars s) (map (trans_char (mapping m) Cflag) xs)"
proof -
  have "OOBCH \<notin> set (map (trans_char (mapping m) Cflag) xs)" using assms(4) by force
  then show ?thesis by (simp add: translate_squeeze_loop_from assms squeeze_from_eq)
qed

end

end
