(* ===== verification/Cset.thy ===== *)
theory Cset
  imports Splay Tr_Loops
begin

text \<open>
  Character sets of tr: text_cmds/tr/cset.c and cset.h. A set is a splay tree of disjoint
  character ranges, a list of character classes and an inversion flag, with a cache for the
  first 256 codes. Every query splays the tree, so a query returns the new set beside its
  answer. \<open>mem\<close> says whether the one malloc a call makes succeeds. The assertions of
  cset_splay and cset_delete are part of the model: \<open>None\<close> is a failed assertion.
\<close>

record csnode =
  csn_min :: wchar
  csn_max :: wchar

record csclass =
  csc_type :: wctype
  csc_invert :: bool

record cset =
  cs_cache :: "bool list"
  cs_havecache :: bool
  cs_classes :: "csclass list"
  cs_root :: "csnode tree"
  cs_invert :: bool

abbreviation CS_CACHE_SIZE :: nat where "CS_CACHE_SIZE \<equiv> 256"

text \<open>The cache of a fresh set is uninitialised memory; it is not read before it is filled.\<close>

definition cset_alloc :: "bool list \<Rightarrow> bool \<Rightarrow> cset option" where
  "cset_alloc junk mem =
     (if mem then Some \<lparr>cs_cache = junk, cs_havecache = False, cs_classes = [],
                        cs_root = Leaf, cs_invert = False\<rparr>
      else None)"

definition cset_rangecmp :: "csnode \<Rightarrow> wchar \<Rightarrow> int" where
  "cset_rangecmp t ch = (if ch < csn_min t then -1 else if ch > csn_max t then 1 else 0)"

definition cset_splay :: "csnode tree \<Rightarrow> wchar \<Rightarrow> csnode tree" where
  "cset_splay t ch = topdown_splay (\<lambda>n. cset_rangecmp n ch) t"

definition cset_delete :: "csnode tree \<Rightarrow> wchar \<Rightarrow> csnode tree option" where
  "cset_delete t ch =
     (case cset_splay t ch of
        Leaf \<Rightarrow> None
      | Node l a r \<Rightarrow>
          if cset_rangecmp a ch \<noteq> 0 then None
          else if l = Leaf then Some r
          else (case cset_splay l ch of
                  Node xl x xr \<Rightarrow> Some (Node xl x r)
                | Leaf \<Rightarrow> None))"

text \<open>The two coalescing steps at the end of cset_add, on the new node and one subtree.\<close>

definition coalesce_left :: "csnode tree \<Rightarrow> csnode \<Rightarrow> (csnode tree \<times> csnode) option" where
  "coalesce_left lt n =
     (if lt = Leaf then Some (lt, n)
      else (case cset_splay lt (csn_min n - 1) of
              Leaf \<Rightarrow> None
            | Node l a r \<Rightarrow>
                if csn_max a = csn_min n - 1 then
                  (case cset_delete (Node l a r) (csn_min a) of
                     None \<Rightarrow> None
                   | Some lt' \<Rightarrow> Some (lt', n\<lparr>csn_min := csn_min a\<rparr>))
                else Some (Node l a r, n)))"

definition coalesce_right :: "csnode tree \<Rightarrow> csnode \<Rightarrow> (csnode tree \<times> csnode) option" where
  "coalesce_right rt n =
     (if rt = Leaf then Some (rt, n)
      else (case cset_splay rt (csn_max n + 1) of
              Leaf \<Rightarrow> None
            | Node l a r \<Rightarrow>
                if csn_min a = csn_max n + 1 then
                  (case cset_delete (Node l a r) (csn_min a) of
                     None \<Rightarrow> None
                   | Some rt' \<Rightarrow> Some (rt', n\<lparr>csn_max := csn_max a\<rparr>))
                else Some (Node l a r, n)))"

definition cset_add :: "bool \<Rightarrow> cset \<Rightarrow> wchar \<Rightarrow> (bool \<times> cset) option" where
  "cset_add mem cs0 ch =
     (let cs = cs0\<lparr>cs_havecache := False\<rparr>; n = \<lparr>csn_min = ch, csn_max = ch\<rparr> in
      if cs_root cs = Leaf then
        Some (if mem then (True, cs\<lparr>cs_root := Node Leaf n Leaf\<rparr>) else (False, cs))
      else (case cset_splay (cs_root cs) ch of
              Leaf \<Rightarrow> None
            | Node l a r \<Rightarrow>
                if cset_rangecmp a ch = 0 then Some (True, cs\<lparr>cs_root := Node l a r\<rparr>)
                else if \<not> mem then Some (False, cs\<lparr>cs_root := Node l a r\<rparr>)
                else
                  (let (nl, nr) = (if cset_rangecmp a ch < 0 then (l, Node Leaf a r)
                                   else (Node l a Leaf, r)) in
                   case coalesce_left nl n of
                     None \<Rightarrow> None
                   | Some (nl', n') \<Rightarrow>
                       (case coalesce_right nr n' of
                          None \<Rightarrow> None
                        | Some (nr', n'') \<Rightarrow> Some (True, cs\<lparr>cs_root := Node nl' n'' nr'\<rparr>)))))"

fun class_hit :: "csclass list \<Rightarrow> wchar \<Rightarrow> bool" where
  "class_hit [] ch = False"
| "class_hit (csc # cscs) ch =
     (if csc_invert csc \<noteq> iswctype ch (csc_type csc) then True else class_hit cscs ch)"

definition cset_in_hard :: "cset \<Rightarrow> wchar \<Rightarrow> bool \<times> cset" where
  "cset_in_hard cs ch =
     (if class_hit (cs_classes cs) ch then (cs_invert cs \<noteq> True, cs)
      else (case cset_splay (cs_root cs) ch of
              Node l a r \<Rightarrow>
                (cs_invert cs \<noteq> (cset_rangecmp a ch = 0), cs\<lparr>cs_root := Node l a r\<rparr>)
            | Leaf \<Rightarrow> (cs_invert cs \<noteq> False, cs)))"

text \<open>The loop of cset_cache: one query per code, each on the tree the last one left.\<close>

fun cset_cache_loop :: "cset \<Rightarrow> wchar list \<Rightarrow> bool list \<times> cset" where
  "cset_cache_loop cs [] = ([], cs)"
| "cset_cache_loop cs (i # is) =
     (let (b, cs') = cset_in_hard cs i; (bs, cs'') = cset_cache_loop cs' is in (b # bs, cs''))"

definition cset_cache :: "cset \<Rightarrow> cset" where
  "cset_cache cs =
     (let (bs, cs') = cset_cache_loop cs (map int [0..<CS_CACHE_SIZE])
      in cs'\<lparr>cs_cache := bs, cs_havecache := True\<rparr>)"

definition cset_invert :: "cset \<Rightarrow> cset" where
  "cset_invert cs = cs\<lparr>cs_invert := (cs_invert cs \<noteq> True), cs_havecache := False\<rparr>"

definition cset_addclass :: "bool \<Rightarrow> cset \<Rightarrow> wctype \<Rightarrow> bool \<Rightarrow> bool \<times> cset" where
  "cset_addclass mem cs type invt =
     (if mem then
        (True, cs\<lparr>cs_classes := \<lparr>csc_type = type, csc_invert = invt\<rparr> # cs_classes cs,
                  cs_havecache := False\<rparr>)
      else (False, cs))"

definition cset_in :: "cset \<Rightarrow> wchar \<Rightarrow> bool \<times> cset" where
  "cset_in cs ch =
     (if ch < int CS_CACHE_SIZE \<and> cs_havecache cs then (cs_cache cs ! nat ch, cs)
      else cset_in_hard cs ch)"


subsection \<open>Abstraction and invariant\<close>

definition range_chars :: "csnode \<Rightarrow> wchar set" where
  "range_chars n = {csn_min n..csn_max n}"

definition seq_chars :: "csnode list \<Rightarrow> wchar set" where
  "seq_chars ns = (\<Union>n \<in> set ns. range_chars n)"

text \<open>
  Ranges are non-empty, in order, and separated by at least one character: no two stored
  ranges touch, so the representation is the coarsest one.
\<close>

definition ranges_ok :: "csnode list \<Rightarrow> bool" where
  "ranges_ok ns \<longleftrightarrow> sorted_wrt (\<lambda>a b. csn_max a + 1 < csn_min b) ns \<and> (\<forall>n \<in> set ns. csn_min n \<le> csn_max n)"

definition cset_chars :: "cset \<Rightarrow> wchar set" where
  "cset_chars cs = {c. cs_invert cs \<noteq> (class_hit (cs_classes cs) c \<or> c \<in> seq_chars (inorder (cs_root cs)))}"

definition cset_inv :: "cset \<Rightarrow> bool" where
  "cset_inv cs \<longleftrightarrow> ranges_ok (inorder (cs_root cs)) \<and>
     (cs_havecache cs \<longrightarrow> length (cs_cache cs) = CS_CACHE_SIZE \<and>
       (\<forall>i < CS_CACHE_SIZE. cs_cache cs ! i \<longleftrightarrow> int i \<in> cset_chars cs))"

lemma seq_chars_simps [simp]:
  "seq_chars [] = {}" "seq_chars (n # ns) = range_chars n \<union> seq_chars ns"
  "seq_chars (xs @ ys) = seq_chars xs \<union> seq_chars ys"
  by (auto simp: seq_chars_def)

lemma ranges_ok_append:
  "ranges_ok (xs @ ys) \<longleftrightarrow> ranges_ok xs \<and> ranges_ok ys \<and>
     (\<forall>x \<in> set xs. \<forall>y \<in> set ys. csn_max x + 1 < csn_min y)"
  by (auto simp: ranges_ok_def sorted_wrt_append)

lemma ranges_ok_Cons:
  "ranges_ok (x # ys) \<longleftrightarrow> csn_min x \<le> csn_max x \<and> ranges_ok ys \<and> (\<forall>y \<in> set ys. csn_max x + 1 < csn_min y)"
  by (auto simp: ranges_ok_def)

lemma ranges_ok_Nil [simp]: "ranges_ok []"
  by (simp add: ranges_ok_def)

lemma ranges_ok_le: "ranges_ok ns \<Longrightarrow> n \<in> set ns \<Longrightarrow> csn_min n \<le> csn_max n"
  by (simp add: ranges_ok_def)

lemma rangecmp_pos: "csn_min n \<le> csn_max n \<Longrightarrow> cset_rangecmp n ch > 0 \<longleftrightarrow> csn_max n < ch"
  by (auto simp: cset_rangecmp_def)

lemma rangecmp_neg: "cset_rangecmp n ch < 0 \<longleftrightarrow> ch < csn_min n"
  by (simp add: cset_rangecmp_def)

lemma rangecmp_zero: "cset_rangecmp n ch = 0 \<longleftrightarrow> ch \<in> range_chars n"
  by (auto simp: cset_rangecmp_def range_chars_def)

lemma ranges_ok_cut: "ranges_ok ns \<Longrightarrow> cut (\<lambda>n. cset_rangecmp n ch) ns"
  by (induction ns) (force simp: cut_Cons ranges_ok_Cons cset_rangecmp_def)+

lemma inorder_cset_splay [simp]: "inorder (cset_splay t ch) = inorder t"
  by (simp add: cset_splay_def)

text \<open>What splaying a well-formed tree gives, in terms of the ranges.\<close>

lemma cset_splay_split:
  assumes "t \<noteq> Leaf" and "ranges_ok (inorder t)"
  obtains l a r where "cset_splay t ch = Node l a r"
    and "inorder t = inorder l @ a # inorder r"
    and "\<forall>x \<in> set (inorder l). csn_max x < ch" and "\<forall>x \<in> set (inorder r). ch < csn_min x"
proof -
  obtain l a r where s: "topdown_splay (\<lambda>n. cset_rangecmp n ch) t = Node l a r"
    and i: "inorder t = inorder l @ a # inorder r"
    and "\<forall>x \<in> set (inorder l). cset_rangecmp x ch > 0" "\<forall>x \<in> set (inorder r). cset_rangecmp x ch < 0"
    using topdown_splay_split [OF assms(1) ranges_ok_cut [OF assms(2), of ch]] .
  moreover have "ranges_ok (inorder l)" using assms(2) i by (simp add: ranges_ok_append)
  ultimately show ?thesis using that by (auto simp: cset_splay_def rangecmp_pos rangecmp_neg ranges_ok_le)
qed

lemma not_in_lower_ranges: "\<forall>x \<in> set ns. csn_max x < ch \<Longrightarrow> ch \<notin> seq_chars ns"
  by (force simp: seq_chars_def range_chars_def)

lemma not_in_upper_ranges: "\<forall>x \<in> set ns. ch < csn_min x \<Longrightarrow> ch \<notin> seq_chars ns"
  by (force simp: seq_chars_def range_chars_def)

subsection \<open>Deletion and coalescing\<close>

lemma cset_delete_correct:
  assumes ok: "ranges_ok (inorder t)" and i: "inorder t = ls @ a # rs"
  obtains t' where "cset_delete t (csn_min a) = Some t'" and "inorder t' = ls @ rs"
proof -
  let ?cmp = "\<lambda>n. cset_rangecmp n (csn_min a)"
  have a: "csn_min a \<le> csn_max a" using ok i by (simp add: ranges_ok_append ranges_ok_Cons)
  have "t \<noteq> Leaf" using i by auto
  then obtain l b r where s: "cset_splay t (csn_min a) = Node l b r"
    and j: "inorder t = inorder l @ b # inorder r"
    and l: "\<forall>x \<in> set (inorder l). csn_max x < csn_min a"
    and r: "\<forall>x \<in> set (inorder r). csn_min a < csn_min x"
    using cset_splay_split [OF _ ok] by metis
  have zero: "?cmp a = 0" using a by (simp add: cset_rangecmp_def)
  have pos: "\<forall>x \<in> set ls. ?cmp x > 0"
    using cut_split_zero [of ?cmp ls a rs] ranges_ok_cut [OF ok, of "csn_min a"] zero i by simp
  have okl: "ranges_ok (inorder l)" using ok j by (simp add: ranges_ok_append)
  have "inorder l = ls \<and> b = a \<and> inorder r = rs"
    using i j zero pos l r okl
    by (intro split_unique_by_cmp [where cmp = ?cmp]) (auto simp: rangecmp_pos rangecmp_neg ranges_ok_le)
  then have eq: "inorder l = ls" "b = a" "inorder r = rs" by auto
  show ?thesis
  proof (cases "l = Leaf")
    case True
    then have "cset_delete t (csn_min a) = Some r" using s eq zero by (simp add: cset_delete_def)
    then show ?thesis using that eq True by simp
  next
    case False
    then obtain xl x xr where x: "cset_splay l (csn_min a) = Node xl x xr"
      and k: "inorder l = inorder xl @ x # inorder xr"
      and xr: "\<forall>y \<in> set (inorder xr). csn_min a < csn_min y"
      using cset_splay_split [OF _ okl] by metis
    have "csn_min y \<le> csn_max y \<and> csn_max y < csn_min a" if "y \<in> set (inorder xr)" for y
      using l k okl that by (simp add: ranges_ok_le)
    then have "inorder xr = []"
      using xr by (metis list.set_intros(1) neq_Nil_conv not_le order.strict_trans)
    then have "cset_delete t (csn_min a) = Some (Node xl x r)" "inorder (Node xl x r) = ls @ rs"
      using s x k eq zero False by (auto simp: cset_delete_def)
    then show ?thesis using that by blast
  qed
qed


lemma coalesce_left_correct:
  assumes ok: "ranges_ok (inorder t)" and n: "csn_min n \<le> csn_max n"
    and before: "\<forall>x \<in> set (inorder t). csn_max x < csn_min n"
  obtains t' n' where "coalesce_left t n = Some (t', n')" and "csn_max n' = csn_max n"
    and "ranges_ok (inorder t' @ [n'])"
    and "seq_chars (inorder t' @ [n']) = seq_chars (inorder t @ [n])"
proof (cases "t = Leaf")
  case True
  with that [of t n] n show ?thesis by (simp add: coalesce_left_def ranges_ok_Cons)
next
  case False
  then obtain l a r where s: "cset_splay t (csn_min n - 1) = Node l a r"
    and i: "inorder t = inorder l @ a # inorder r"
    and r: "\<forall>x \<in> set (inorder r). csn_min n - 1 < csn_min x"
    using cset_splay_split [OF _ ok] by metis
  have "inorder r = []"
  proof (rule ccontr)
    assume "inorder r \<noteq> []"
    then obtain y where y: "y \<in> set (inorder r)" by (meson last_in_set)
    then have "y \<in> set (inorder t)" using i by simp
    with before r y ranges_ok_le [OF ok] show False by fastforce
  qed
  with i have i': "inorder t = inorder l @ a # []" by simp
  have ok': "ranges_ok (inorder l @ [a])" using ok i' by simp
  have a: "csn_min a \<le> csn_max a" "csn_max a < csn_min n"
    using ok' before i' by (auto simp: ranges_ok_append ranges_ok_Cons)
  show ?thesis
  proof (cases "csn_max a = csn_min n - 1")
    case True
    obtain t' where t': "cset_delete (Node l a r) (csn_min a) = Some t'" "inorder t' = inorder l @ []"
      using cset_delete_correct [of "Node l a r" "inorder l" a "[]"] ok' \<open>inorder r = []\<close> by auto
    have "coalesce_left t n = Some (t', n\<lparr>csn_min := csn_min a\<rparr>)"
      using \<open>t \<noteq> Leaf\<close> s True t' by (simp add: coalesce_left_def)
    moreover have "seq_chars (inorder t' @ [n\<lparr>csn_min := csn_min a\<rparr>]) = seq_chars (inorder t @ [n])"
      using i' t' True a n by (auto simp: range_chars_def)
    ultimately show ?thesis
      using that [of t' "n\<lparr>csn_min := csn_min a\<rparr>"] ok' t' a n True
      by (simp add: ranges_ok_append ranges_ok_Cons)
  next
    case gap: False
    have "coalesce_left t n = Some (Node l a r, n)"
      using \<open>t \<noteq> Leaf\<close> s gap by (simp add: coalesce_left_def)
    moreover have "\<forall>x \<in> set (inorder t). csn_max x + 1 < csn_min n"
      using ok' a gap i' by (force simp: ranges_ok_append ranges_ok_Cons)
    ultimately show ?thesis
      using that [of "Node l a r" n] ok i' n \<open>inorder r = []\<close>
      by (simp add: ranges_ok_append ranges_ok_Cons)
  qed
qed

lemma coalesce_right_correct:
  assumes ok: "ranges_ok (inorder t)" and n: "csn_min n \<le> csn_max n"
    and behind: "\<forall>x \<in> set (inorder t). csn_max n < csn_min x"
  obtains t' n' where "coalesce_right t n = Some (t', n')" and "csn_min n' = csn_min n"
    and "ranges_ok (n' # inorder t')"
    and "seq_chars (n' # inorder t') = seq_chars (n # inorder t)"
proof (cases "t = Leaf")
  case True
  with that [of t n] n show ?thesis by (simp add: coalesce_right_def ranges_ok_Cons)
next
  case False
  then obtain l a r where s: "cset_splay t (csn_max n + 1) = Node l a r"
    and i: "inorder t = inorder l @ a # inorder r"
    and l: "\<forall>x \<in> set (inorder l). csn_max x < csn_max n + 1"
    using cset_splay_split [OF _ ok] by metis
  have "inorder l = []"
  proof (rule ccontr)
    assume "inorder l \<noteq> []"
    then obtain y where y: "y \<in> set (inorder l)" by (meson last_in_set)
    then have "y \<in> set (inorder t)" using i by simp
    with behind l y ranges_ok_le [OF ok] show False by fastforce
  qed
  with i have i': "inorder t = [] @ a # inorder r" by simp
  have ok': "ranges_ok (a # inorder r)" using ok i' by simp
  have a: "csn_min a \<le> csn_max a" "csn_max n < csn_min a"
    using ok' behind i' by (auto simp: ranges_ok_Cons)
  show ?thesis
  proof (cases "csn_min a = csn_max n + 1")
    case True
    obtain t' where t': "cset_delete (Node l a r) (csn_min a) = Some t'" "inorder t' = [] @ inorder r"
      using cset_delete_correct [of "Node l a r" "[]" a "inorder r"] ok' \<open>inorder l = []\<close> by auto
    have "coalesce_right t n = Some (t', n\<lparr>csn_max := csn_max a\<rparr>)"
      using \<open>t \<noteq> Leaf\<close> s True t' by (simp add: coalesce_right_def)
    moreover have "seq_chars (n\<lparr>csn_max := csn_max a\<rparr> # inorder t') = seq_chars (n # inorder t)"
      using i' t' True a n by (auto simp: range_chars_def)
    ultimately show ?thesis
      using that [of t' "n\<lparr>csn_max := csn_max a\<rparr>"] ok' t' a n True
      by (simp add: ranges_ok_Cons)
  next
    case gap: False
    have "coalesce_right t n = Some (Node l a r, n)"
      using \<open>t \<noteq> Leaf\<close> s gap by (simp add: coalesce_right_def)
    moreover have "\<forall>x \<in> set (inorder t). csn_max n + 1 < csn_min x"
      using ok' a gap i' by (force simp: ranges_ok_Cons)
    ultimately show ?thesis
      using that [of "Node l a r" n] ok i' n \<open>inorder l = []\<close> by (simp add: ranges_ok_Cons)
  qed
qed

subsection \<open>Adding a character\<close>

text \<open>A new single-character node between a left and a right tree that do not hold it.\<close>

lemma coalesce_both_correct:
  assumes "ranges_ok (inorder nl)" and "ranges_ok (inorder nr)"
    and "\<forall>x \<in> set (inorder nl). csn_max x < ch" and "\<forall>x \<in> set (inorder nr). ch < csn_min x"
  obtains nl' n' nr' n'' where
    "coalesce_left nl \<lparr>csn_min = ch, csn_max = ch\<rparr> = Some (nl', n')"
    and "coalesce_right nr n' = Some (nr', n'')"
    and "ranges_ok (inorder (Node nl' n'' nr'))"
    and "seq_chars (inorder (Node nl' n'' nr')) = insert ch (seq_chars (inorder nl) \<union> seq_chars (inorder nr))"
proof -
  let ?n = "\<lparr>csn_min = ch, csn_max = ch\<rparr>"
  obtain nl' n' where l: "coalesce_left nl ?n = Some (nl', n')" "csn_max n' = ch"
    "ranges_ok (inorder nl' @ [n'])" "seq_chars (inorder nl' @ [n']) = seq_chars (inorder nl @ [?n])"
    using coalesce_left_correct [OF assms(1), of ?n] assms(3) by auto
  have "csn_min n' \<le> csn_max n'" using l(3) by (simp add: ranges_ok_append ranges_ok_Cons)
  then obtain nr' n'' where r: "coalesce_right nr n' = Some (nr', n'')" "csn_min n'' = csn_min n'"
    "ranges_ok (n'' # inorder nr')" "seq_chars (n'' # inorder nr') = seq_chars (n' # inorder nr)"
    using coalesce_right_correct [OF assms(2), of n'] assms(4) l(2) by auto
  have "ranges_ok (inorder (Node nl' n'' nr'))"
    using l(3) r(2,3) by (fastforce simp: ranges_ok_append ranges_ok_Cons)
  moreover have "seq_chars (inorder (Node nl' n'' nr')) =
      insert ch (seq_chars (inorder nl) \<union> seq_chars (inorder nr))"
  proof -
    have "seq_chars (inorder nl') \<union> range_chars n' = insert ch (seq_chars (inorder nl))"
      using l(4) by (auto simp: range_chars_def)
    then show ?thesis using r(4) by auto
  qed
  ultimately show ?thesis using that l r by blast
qed

lemma cset_add_root:
  assumes ok: "ranges_ok (inorder (cs_root cs))"
  obtains b t where "cset_add mem cs ch = Some (b, cs\<lparr>cs_havecache := False, cs_root := t\<rparr>)"
    and "ranges_ok (inorder t)"
    and "seq_chars (inorder t) = (if b then insert ch else id) (seq_chars (inorder (cs_root cs)))"
    and "mem \<Longrightarrow> b"
proof (cases "cs_root cs = Leaf")
  case True
  then show ?thesis
    using that [of mem "if mem then Node Leaf \<lparr>csn_min = ch, csn_max = ch\<rparr> Leaf else Leaf"]
    by (auto simp: cset_add_def Let_def ranges_ok_Cons range_chars_def)
next
  case False
  then obtain l a r where s: "cset_splay (cs_root cs) ch = Node l a r"
    and i: "inorder (cs_root cs) = inorder l @ a # inorder r"
    and l: "\<forall>x \<in> set (inorder l). csn_max x < ch" and r: "\<forall>x \<in> set (inorder r). ch < csn_min x"
    using cset_splay_split [OF _ ok] by metis
  show ?thesis
  proof (cases "cset_rangecmp a ch = 0 \<or> \<not> mem")
    case True
    have "ch \<in> seq_chars (inorder (cs_root cs))" if "cset_rangecmp a ch = 0"
      using that i by (simp add: rangecmp_zero)
    then show ?thesis
      using that [of "cset_rangecmp a ch = 0" "Node l a r"] True \<open>cs_root cs \<noteq> Leaf\<close> s i ok
      by (auto simp: cset_add_def Let_def insert_absorb)
  next
    case new: False
    let ?nl = "if cset_rangecmp a ch < 0 then l else Node l a Leaf"
    let ?nr = "if cset_rangecmp a ch < 0 then Node Leaf a r else r"
    have a: "csn_min a \<le> csn_max a" using ok i by (simp add: ranges_ok_append ranges_ok_Cons)
    have side: "ch < csn_min a \<or> csn_max a < ch" using new by (auto simp: rangecmp_zero range_chars_def)
    have "ranges_ok (inorder ?nl)" "ranges_ok (inorder ?nr)"
      "\<forall>x \<in> set (inorder ?nl). csn_max x < ch" "\<forall>x \<in> set (inorder ?nr). ch < csn_min x"
      using ok i l r a side by (auto simp: ranges_ok_append ranges_ok_Cons rangecmp_neg)
    then obtain nl' n' nr' n'' where c:
      "coalesce_left ?nl \<lparr>csn_min = ch, csn_max = ch\<rparr> = Some (nl', n')"
      "coalesce_right ?nr n' = Some (nr', n'')" "ranges_ok (inorder (Node nl' n'' nr'))"
      "seq_chars (inorder (Node nl' n'' nr')) = insert ch (seq_chars (inorder ?nl) \<union> seq_chars (inorder ?nr))"
      by (rule coalesce_both_correct)
    have "cset_add mem cs ch = Some (True, cs\<lparr>cs_havecache := False, cs_root := Node nl' n'' nr'\<rparr>)"
      using new \<open>cs_root cs \<noteq> Leaf\<close> s c(1,2) by (auto simp: cset_add_def Let_def split: if_splits)
    moreover have "seq_chars (inorder ?nl) \<union> seq_chars (inorder ?nr) = seq_chars (inorder (cs_root cs))"
      using i by auto
    ultimately show ?thesis using that [of True "Node nl' n'' nr'"] c(3,4) by simp
  qed
qed


subsection \<open>Queries and the cache\<close>

lemma cset_in_hard_correct:
  assumes "ranges_ok (inorder (cs_root cs))"
  obtains t where "cset_in_hard cs ch = (ch \<in> cset_chars cs, cs\<lparr>cs_root := t\<rparr>)"
    and "inorder t = inorder (cs_root cs)"
proof (cases "class_hit (cs_classes cs) ch \<or> cs_root cs = Leaf")
  case True
  then show ?thesis
    using that [of "cs_root cs"] by (auto simp: cset_in_hard_def cset_chars_def cset_splay_def)
next
  case False
  then obtain l a r where s: "cset_splay (cs_root cs) ch = Node l a r"
    and i: "inorder (cs_root cs) = inorder l @ a # inorder r"
    and l: "\<forall>x \<in> set (inorder l). csn_max x < ch" and r: "\<forall>x \<in> set (inorder r). ch < csn_min x"
    using cset_splay_split [OF _ assms] by metis
  then have "ch \<in> seq_chars (inorder (cs_root cs)) \<longleftrightarrow> ch \<in> range_chars a"
    using not_in_lower_ranges [OF l] not_in_upper_ranges [OF r] by auto
  then show ?thesis
    using that [of "Node l a r"] False s i by (auto simp: cset_in_hard_def cset_chars_def rangecmp_zero)
qed

lemma cset_chars_root_cong:
  "inorder t = inorder (cs_root cs) \<Longrightarrow> cset_chars (cs\<lparr>cs_root := t\<rparr>) = cset_chars cs"
  by (simp add: cset_chars_def)

lemma cset_cache_loop_correct:
  assumes "ranges_ok (inorder (cs_root cs))"
  obtains t where "cset_cache_loop cs is = (map (\<lambda>i. i \<in> cset_chars cs) is, cs\<lparr>cs_root := t\<rparr>)"
    and "inorder t = inorder (cs_root cs)"
  using assms
proof (induction "is" arbitrary: cs thesis)
  case Nil
  show ?case by (rule Nil.prems(1) [of "cs_root cs"]) simp_all
next
  case (Cons i "is")
  obtain t where t: "cset_in_hard cs i = (i \<in> cset_chars cs, cs\<lparr>cs_root := t\<rparr>)"
    and it: "inorder t = inorder (cs_root cs)"
    using cset_in_hard_correct [OF Cons.prems(2)] by blast
  obtain u where "cset_cache_loop (cs\<lparr>cs_root := t\<rparr>) is =
      (map (\<lambda>i. i \<in> cset_chars (cs\<lparr>cs_root := t\<rparr>)) is, (cs\<lparr>cs_root := t\<rparr>)\<lparr>cs_root := u\<rparr>)"
    and "inorder u = inorder (cs_root (cs\<lparr>cs_root := t\<rparr>))"
    using Cons.IH [of "cs\<lparr>cs_root := t\<rparr>"] Cons.prems(2) it by auto
  then show ?case using Cons.prems(1) [of u] t it by (simp add: cset_chars_root_cong)
qed

lemma cset_cache_correct:
  assumes "cset_inv cs"
  shows "cset_inv (cset_cache cs)" and "cset_chars (cset_cache cs) = cset_chars cs"
    and "cs_havecache (cset_cache cs)"
proof -
  obtain t where t: "cset_cache_loop cs (map int [0..<CS_CACHE_SIZE]) =
      (map (\<lambda>i. i \<in> cset_chars cs) (map int [0..<CS_CACHE_SIZE]), cs\<lparr>cs_root := t\<rparr>)"
    and it: "inorder t = inorder (cs_root cs)"
    using cset_cache_loop_correct assms unfolding cset_inv_def by blast
  define bs where "bs = map (\<lambda>i. i \<in> cset_chars cs) (map int [0..<CS_CACHE_SIZE])"
  have bs: "length bs = CS_CACHE_SIZE" "\<And>i. i < CS_CACHE_SIZE \<Longrightarrow> bs ! i \<longleftrightarrow> int i \<in> cset_chars cs"
    unfolding bs_def by (simp_all only: length_map length_upt nth_map nth_upt) simp
  have eq: "cset_cache cs = cs\<lparr>cs_root := t, cs_cache := bs, cs_havecache := True\<rparr>"
    by (simp only: cset_cache_def t Let_def prod.case bs_def)
  have same: "cset_chars (cs\<lparr>cs_root := t, cs_cache := bs, cs_havecache := True\<rparr>) = cset_chars cs"
    using it by (simp add: cset_chars_def)
  show "cset_chars (cset_cache cs) = cset_chars cs" using eq same by simp
  show "cs_havecache (cset_cache cs)" using eq by simp
  show "cset_inv (cset_cache cs)"
    unfolding eq cset_inv_def same using assms it bs by (simp add: cset_inv_def)
qed

lemma cset_inv_update_root:
  assumes "cset_inv cs" and "inorder t = inorder (cs_root cs)"
  shows "cset_inv (cs\<lparr>cs_root := t\<rparr>)"
  using assms by (simp add: cset_inv_def cset_chars_root_cong)

text \<open>The set operations tr uses satisfy the interface the input loops rely on.\<close>

lemma cset_in_correct:
  assumes "cset_inv cs"
  shows "0 \<le> ch \<Longrightarrow> fst (cset_in cs ch) \<longleftrightarrow> ch \<in> cset_chars cs"
    and "cset_chars (snd (cset_in cs ch)) = cset_chars cs"
    and "cset_inv (snd (cset_in cs ch))"
proof -
  obtain t where t: "cset_in_hard cs ch = (ch \<in> cset_chars cs, cs\<lparr>cs_root := t\<rparr>)"
    and it: "inorder t = inorder (cs_root cs)"
    using cset_in_hard_correct assms unfolding cset_inv_def by blast
  have hit: "cs_cache cs ! nat ch \<longleftrightarrow> ch \<in> cset_chars cs" if "0 \<le> ch" "ch < int CS_CACHE_SIZE" "cs_havecache cs"
  proof -
    have "nat ch < CS_CACHE_SIZE" using that by linarith
    then show ?thesis using assms that unfolding cset_inv_def by (metis int_nat_eq)
  qed
  show "0 \<le> ch \<Longrightarrow> fst (cset_in cs ch) \<longleftrightarrow> ch \<in> cset_chars cs"
    using hit t by (auto simp: cset_in_def)
  show "cset_chars (snd (cset_in cs ch)) = cset_chars cs"
    using t it by (simp add: cset_in_def cset_chars_root_cong)
  show "cset_inv (snd (cset_in cs ch))"
    using t it assms by (simp add: cset_in_def cset_inv_update_root)
qed

interpretation tr_set: char_set cset_in cset_chars cset_inv
  by unfold_locales (simp_all add: cset_in_correct)

interpretation tr_sets: two_char_sets cset_in cset_chars cset_inv cset_in cset_chars cset_inv
  by unfold_locales

subsection \<open>Updates\<close>

lemma cset_alloc_correct:
  assumes "cset_alloc junk mem = Some cs"
  shows "cset_inv cs" and "cset_chars cs = {}" and "cs_invert cs = False" and "cs_classes cs = []"
  using assms by (auto simp: cset_alloc_def cset_inv_def cset_chars_def split: if_splits)

lemma cset_add_correct:
  assumes "cset_inv cs"
  obtains b cs' where "cset_add mem cs ch = Some (b, cs')" and "mem \<longrightarrow> b" and "cset_inv cs'"
    and "cs_invert cs' = cs_invert cs" and "cs_classes cs' = cs_classes cs"
    and "\<not> cs_invert cs \<longrightarrow> cset_chars cs' = (if b then insert ch (cset_chars cs) else cset_chars cs)"
    and "cs_invert cs \<longrightarrow> cset_chars cs' = (if b then cset_chars cs - {ch} else cset_chars cs)"
proof -
  obtain b t where add: "cset_add mem cs ch = Some (b, cs\<lparr>cs_havecache := False, cs_root := t\<rparr>)"
    and t: "ranges_ok (inorder t)" "mem \<longrightarrow> b"
      "seq_chars (inorder t) = (if b then insert ch else id) (seq_chars (inorder (cs_root cs)))"
    using cset_add_root assms unfolding cset_inv_def by metis
  show ?thesis
    by (rule that [OF add]) (use t in \<open>auto simp: cset_inv_def cset_chars_def\<close>)
qed

lemma cset_invert_correct:
  assumes "cset_inv cs"
  shows "cset_inv (cset_invert cs)" and "cset_chars (cset_invert cs) = - cset_chars cs"
  using assms by (auto simp: cset_inv_def cset_invert_def cset_chars_def)

lemma cset_addclass_correct:
  assumes "cset_inv cs" and "cset_addclass mem cs ty iv = (b, cs')"
  shows "cset_inv cs'" and "b = mem"
    and "\<not> cs_invert cs \<Longrightarrow> b \<Longrightarrow> cset_chars cs' = cset_chars cs \<union> {c. iv \<noteq> iswctype c ty}"
    and "cs_invert cs' = cs_invert cs"
  using assms by (auto simp: cset_inv_def cset_addclass_def cset_chars_def split: if_splits)


subsection \<open>Correctness\<close>

text \<open>
  C29. cset_add on a well-formed set never fails an assertion, keeps the ranges sorted,
  disjoint and coalesced, and adds exactly the given character (removes it, when the set is
  inverted); only a failed allocation leaves the set as it was.
\<close>

theorem cset_add_refines:
  assumes "cset_inv cs"
  shows "\<exists>b cs'. cset_add mem cs ch = Some (b, cs') \<and> (mem \<longrightarrow> b) \<and> cset_inv cs' \<and>
    cset_chars cs' = (if \<not> b then cset_chars cs
      else if cs_invert cs then cset_chars cs - {ch} else insert ch (cset_chars cs))"
  using cset_add_correct [OF assms, of mem ch] by (metis (full_types))

text \<open>
  The cache is transparent: on a cached set the fast query answers what the tree search
  answers on the set that was cached, for every character.
\<close>

theorem cset_cache_transparent:
  assumes "cset_inv cs" and "0 \<le> ch"
  shows "fst (cset_in (cset_cache cs) ch) = fst (cset_in_hard cs ch)"
proof -
  have "fst (cset_in_hard cs ch) \<longleftrightarrow> ch \<in> cset_chars cs"
    using cset_in_hard_correct [of cs ch] assms(1) unfolding cset_inv_def by (metis fst_conv)
  then show ?thesis
    using cset_in_correct(1) [OF cset_cache_correct(1) [OF assms(1)] assms(2)] cset_cache_correct(2) [OF assms(1)]
    by simp
qed

text \<open>A set that holds \<open>a\<close> and \<open>c\<close>: adding \<open>b\<close> merges the two ranges into one.\<close>

definition example_cset :: cset where
  "example_cset = \<lparr>cs_cache = [], cs_havecache = False, cs_classes = [],
     cs_root = Node (Node Leaf \<lparr>csn_min = 97, csn_max = 97\<rparr> Leaf) \<lparr>csn_min = 99, csn_max = 99\<rparr> Leaf,
     cs_invert = False\<rparr>"

lemma example_cset_inv: "cset_inv example_cset"
  by (simp add: cset_inv_def example_cset_def ranges_ok_def)

theorem cset_add_refines_witness:
  "\<exists>b cs'. cset_add True example_cset 98 = Some (b, cs') \<and> b \<and> cset_inv cs' \<and>
    cset_chars cs' = insert 98 (cset_chars example_cset)"
proof -
  have "\<not> cs_invert example_cset" by (simp add: example_cset_def)
  then show ?thesis using cset_add_refines [OF example_cset_inv, of True 98] by auto
qed

theorem cset_cache_transparent_witness:
  "fst (cset_in (cset_cache example_cset) 99) = fst (cset_in_hard example_cset 99) \<and>
   fst (cset_in_hard example_cset 99)"
  using cset_cache_transparent [OF example_cset_inv, of 99]
  by (simp add: cset_in_hard_def example_cset_def cset_splay_def topdown_splay_def
      splay_loop_steps cset_rangecmp_def)

end
