(* ===== verification/Cmap.thy ===== *)
theory Cmap
  imports Splay Tr_Loops
begin

text \<open>
  Character maps of tr: text_cmds/tr/cmap.c and cmap.h. A map is a splay tree of
  (from, to) nodes, a default for characters without a node, the least and the greatest
  mapped character, and a cache for the first 128 codes. \<open>mem\<close> says whether the one
  malloc of a call succeeds.
\<close>

record cmapnode =
  cmn_from :: wchar
  cmn_to :: wchar

record cmap =
  cm_cache :: "wchar list"
  cm_havecache :: bool
  cm_root :: "cmapnode tree"
  cm_def :: wchar
  cm_min :: wchar
  cm_max :: wchar

abbreviation CM_CACHE_SIZE :: nat where "CM_CACHE_SIZE \<equiv> 128"
abbreviation CM_DEF_SELF :: wchar where "CM_DEF_SELF \<equiv> - 2"

definition cmap_alloc :: "wchar list \<Rightarrow> bool \<Rightarrow> cmap option" where
  "cmap_alloc junk mem =
     (if mem then Some \<lparr>cm_cache = junk, cm_havecache = False, cm_root = Leaf,
                        cm_def = CM_DEF_SELF, cm_min = 0, cm_max = 0\<rparr>
      else None)"

definition cmap_cmp :: "cmapnode \<Rightarrow> wchar \<Rightarrow> int" where
  "cmap_cmp t ch = (if ch < cmn_from t then -1 else if ch > cmn_from t then 1 else 0)"

definition cmap_splay :: "cmapnode tree \<Rightarrow> wchar \<Rightarrow> cmapnode tree" where
  "cmap_splay t ch = topdown_splay (\<lambda>n. cmap_cmp n ch) t"

definition cmap_add :: "bool \<Rightarrow> cmap \<Rightarrow> wchar \<Rightarrow> wchar \<Rightarrow> bool \<times> cmap" where
  "cmap_add mem cm0 from to =
     (let cm = cm0\<lparr>cm_havecache := False\<rparr>; n = \<lparr>cmn_from = from, cmn_to = to\<rparr> in
      case cmap_splay (cm_root cm) from of
        Leaf \<Rightarrow>
          if mem then (True, cm\<lparr>cm_root := Node Leaf n Leaf, cm_min := from, cm_max := from\<rparr>)
          else (False, cm)
      | Node l a r \<Rightarrow>
          if cmn_from a = from then (True, cm\<lparr>cm_root := Node l (a\<lparr>cmn_to := to\<rparr>) r\<rparr>)
          else if \<not> mem then (False, cm\<lparr>cm_root := Node l a r\<rparr>)
          else
            (True, cm\<lparr>cm_root := (if from < cmn_from a then Node l n (Node Leaf a r)
                                   else Node (Node l a Leaf) n r),
                      cm_min := (if from < cm_min cm then from else cm_min cm),
                      cm_max := (if from > cm_max cm then from else cm_max cm)\<rparr>))"

definition cmap_lookup_hard :: "cmap \<Rightarrow> wchar \<Rightarrow> wchar \<times> cmap" where
  "cmap_lookup_hard cm ch =
     (let dflt = (if cm_def cm = CM_DEF_SELF then ch else cm_def cm) in
      case cmap_splay (cm_root cm) ch of
        Leaf \<Rightarrow> (dflt, cm)
      | Node l a r \<Rightarrow>
          (if cmn_from a = ch then cmn_to a else dflt, cm\<lparr>cm_root := Node l a r\<rparr>))"

fun cmap_cache_loop :: "cmap \<Rightarrow> wchar list \<Rightarrow> wchar list \<times> cmap" where
  "cmap_cache_loop cm [] = ([], cm)"
| "cmap_cache_loop cm (ch # chs) =
     (let (c, cm') = cmap_lookup_hard cm ch; (cs, cm'') = cmap_cache_loop cm' chs in (c # cs, cm''))"

definition cmap_cache :: "cmap \<Rightarrow> cmap" where
  "cmap_cache cm =
     (let (cs, cm') = cmap_cache_loop cm (map int [0..<CM_CACHE_SIZE])
      in cm'\<lparr>cm_cache := cs, cm_havecache := True\<rparr>)"

definition cmap_default :: "cmap \<Rightarrow> wchar \<Rightarrow> wchar \<times> cmap" where
  "cmap_default cm def = (cm_def cm, cm\<lparr>cm_def := def, cm_havecache := False\<rparr>)"

definition cmap_lookup :: "cmap \<Rightarrow> wchar \<Rightarrow> wchar \<times> cmap" where
  "cmap_lookup cm from =
     (if from < int CM_CACHE_SIZE \<and> cm_havecache cm then (cm_cache cm ! nat from, cm)
      else cmap_lookup_hard cm from)"

subsection \<open>Abstraction and invariant\<close>

definition nodes_map :: "cmapnode list \<Rightarrow> wchar \<Rightarrow> wchar option" where
  "nodes_map ns = map_of (map (\<lambda>n. (cmn_from n, cmn_to n)) ns)"

definition nodes_ok :: "cmapnode list \<Rightarrow> bool" where
  "nodes_ok ns = sorted_wrt (\<lambda>a b. cmn_from a < cmn_from b) ns"

definition cmap_fun :: "cmap \<Rightarrow> wchar \<Rightarrow> wchar" where
  "cmap_fun cm c = (case nodes_map (inorder (cm_root cm)) c of
     Some c' \<Rightarrow> c' | None \<Rightarrow> if cm_def cm = CM_DEF_SELF then c else cm_def cm)"

definition cmap_dom :: "cmap \<Rightarrow> wchar set" where
  "cmap_dom cm = cmn_from ` set (inorder (cm_root cm))"

definition cmap_inv :: "cmap \<Rightarrow> bool" where
  "cmap_inv cm \<longleftrightarrow> nodes_ok (inorder (cm_root cm)) \<and>
     (cm_root cm \<noteq> Leaf \<longrightarrow> cm_min cm \<in> cmap_dom cm \<and> cm_max cm \<in> cmap_dom cm \<and>
        (\<forall>c \<in> cmap_dom cm. cm_min cm \<le> c \<and> c \<le> cm_max cm)) \<and>
     (cm_havecache cm \<longrightarrow> length (cm_cache cm) = CM_CACHE_SIZE \<and>
       (\<forall>i < CM_CACHE_SIZE. cm_cache cm ! i = cmap_fun cm (int i)))"

lemma nodes_map_simps [simp]:
  "nodes_map [] = Map.empty" "nodes_map (n # ns) = (nodes_map ns)(cmn_from n \<mapsto> cmn_to n)"
  "nodes_map (xs @ ys) = nodes_map ys ++ nodes_map xs"
  by (auto simp: nodes_map_def)

lemma nodes_ok_append:
  "nodes_ok (xs @ ys) \<longleftrightarrow> nodes_ok xs \<and> nodes_ok ys \<and> (\<forall>x \<in> set xs. \<forall>y \<in> set ys. cmn_from x < cmn_from y)"
  by (simp add: nodes_ok_def sorted_wrt_append)

lemma nodes_ok_Cons: "nodes_ok (x # ys) \<longleftrightarrow> nodes_ok ys \<and> (\<forall>y \<in> set ys. cmn_from x < cmn_from y)"
  by (auto simp: nodes_ok_def)

lemma nodes_ok_Nil [simp]: "nodes_ok []"
  by (simp add: nodes_ok_def)

lemma cmap_cmp_simps [simp]:
  "cmap_cmp n ch > 0 \<longleftrightarrow> cmn_from n < ch" "cmap_cmp n ch < 0 \<longleftrightarrow> ch < cmn_from n"
  by (simp_all add: cmap_cmp_def)

lemma nodes_ok_cut: "nodes_ok ns \<Longrightarrow> cut (\<lambda>n. cmap_cmp n ch) ns"
  by (induction ns) (force simp: cut_Cons nodes_ok_Cons)+

lemma cmap_splay_Leaf [simp]: "cmap_splay Leaf ch = Leaf"
  by (simp add: cmap_splay_def)

lemma cmap_splay_split:
  assumes "t \<noteq> Leaf" and "nodes_ok (inorder t)"
  obtains l a r where "cmap_splay t ch = Node l a r"
    and "inorder t = inorder l @ a # inorder r"
    and "\<forall>x \<in> set (inorder l). cmn_from x < ch" and "\<forall>x \<in> set (inorder r). ch < cmn_from x"
  using topdown_splay_split [OF assms(1) nodes_ok_cut [OF assms(2), of ch]]
  by (metis (no_types, lifting) cmap_cmp_simps cmap_splay_def)

lemma nodes_map_outside:
  "\<forall>x \<in> set ns. cmn_from x \<noteq> c \<Longrightarrow> nodes_map ns c = None"
  by (auto simp: nodes_map_def map_of_eq_None_iff)

subsection \<open>Lookup and the cache\<close>

lemma cmap_lookup_hard_correct:
  assumes ok: "nodes_ok (inorder (cm_root cm))"
  obtains t where "cmap_lookup_hard cm ch = (cmap_fun cm ch, cm\<lparr>cm_root := t\<rparr>)"
    and "inorder t = inorder (cm_root cm)"
proof (cases "cm_root cm = Leaf")
  case True
  then show ?thesis using that [of "cm_root cm"] by (simp add: cmap_lookup_hard_def cmap_fun_def)
next
  case False
  then obtain l a r where s: "cmap_splay (cm_root cm) ch = Node l a r"
    and i: "inorder (cm_root cm) = inorder l @ a # inorder r"
    and l: "\<forall>x \<in> set (inorder l). cmn_from x < ch" and r: "\<forall>x \<in> set (inorder r). ch < cmn_from x"
    using cmap_splay_split [OF _ ok] by metis
  have "nodes_map (inorder l) ch = None" "nodes_map (inorder r) ch = None"
    using l r by (force intro!: nodes_map_outside)+
  then have "nodes_map (inorder (cm_root cm)) ch = (if cmn_from a = ch then Some (cmn_to a) else None)"
    using i by (simp add: map_add_def)
  then show ?thesis
    using that [of "Node l a r"] s i by (auto simp: cmap_lookup_hard_def cmap_fun_def Let_def)
qed

lemma cmap_fun_root_cong:
  "inorder t = inorder (cm_root cm) \<Longrightarrow> cmap_fun (cm\<lparr>cm_root := t\<rparr>) = cmap_fun cm"
  by (auto simp: cmap_fun_def fun_eq_iff split: option.split)

lemma cmap_inv_root_cong:
  assumes "cmap_inv cm" and "inorder t = inorder (cm_root cm)"
  shows "cmap_inv (cm\<lparr>cm_root := t\<rparr>)"
proof -
  have "t = Leaf \<longleftrightarrow> cm_root cm = Leaf"
    using assms(2) by (metis inorder.simps(1) eq_inorder_Nil)
  then show ?thesis using assms by (simp add: cmap_inv_def cmap_fun_root_cong cmap_dom_def)
qed

lemma cmap_cache_loop_correct:
  assumes "nodes_ok (inorder (cm_root cm))"
  obtains t where "cmap_cache_loop cm chs = (map (cmap_fun cm) chs, cm\<lparr>cm_root := t\<rparr>)"
    and "inorder t = inorder (cm_root cm)"
  using assms
proof (induction chs arbitrary: cm thesis)
  case Nil
  show ?case by (rule Nil.prems(1) [of "cm_root cm"]) simp_all
next
  case (Cons i chs)
  obtain t where t: "cmap_lookup_hard cm i = (cmap_fun cm i, cm\<lparr>cm_root := t\<rparr>)"
    and it: "inorder t = inorder (cm_root cm)"
    using cmap_lookup_hard_correct [OF Cons.prems(2)] by blast
  obtain u where "cmap_cache_loop (cm\<lparr>cm_root := t\<rparr>) chs =
      (map (cmap_fun (cm\<lparr>cm_root := t\<rparr>)) chs, (cm\<lparr>cm_root := t\<rparr>)\<lparr>cm_root := u\<rparr>)"
    and "inorder u = inorder (cm_root (cm\<lparr>cm_root := t\<rparr>))"
    using Cons.IH [of "cm\<lparr>cm_root := t\<rparr>"] Cons.prems(2) it by auto
  then show ?case using Cons.prems(1) [of u] t it by (simp add: cmap_fun_root_cong)
qed

lemma cmap_cache_correct:
  assumes "cmap_inv cm"
  shows "cmap_inv (cmap_cache cm)" and "cmap_fun (cmap_cache cm) = cmap_fun cm"
proof -
  obtain t where t: "cmap_cache_loop cm (map int [0..<CM_CACHE_SIZE]) =
      (map (cmap_fun cm) (map int [0..<CM_CACHE_SIZE]), cm\<lparr>cm_root := t\<rparr>)"
    and it: "inorder t = inorder (cm_root cm)"
    using cmap_cache_loop_correct assms unfolding cmap_inv_def by blast
  define cs where "cs = map (cmap_fun cm) (map int [0..<CM_CACHE_SIZE])"
  have cs: "length cs = CM_CACHE_SIZE" "\<And>i. i < CM_CACHE_SIZE \<Longrightarrow> cs ! i = cmap_fun cm (int i)"
    unfolding cs_def by (simp_all only: length_map length_upt nth_map nth_upt) simp
  have eq: "cmap_cache cm = cm\<lparr>cm_root := t, cm_cache := cs, cm_havecache := True\<rparr>"
    by (simp only: cmap_cache_def t Let_def prod.case cs_def)
  have same: "cmap_fun (cm\<lparr>cm_root := t, cm_cache := cs, cm_havecache := True\<rparr>) = cmap_fun cm"
    using it by (auto simp: cmap_fun_def fun_eq_iff split: option.split)
  have "cmap_inv (cm\<lparr>cm_root := t\<rparr>)" by (rule cmap_inv_root_cong [OF assms it])
  then show "cmap_inv (cmap_cache cm)"
    unfolding eq cmap_inv_def same using cs by (simp add: cmap_inv_def cmap_dom_def)
  show "cmap_fun (cmap_cache cm) = cmap_fun cm" using eq same by simp
qed

lemma cmap_lookup_correct:
  assumes "cmap_inv cm"
  shows "0 \<le> ch \<Longrightarrow> fst (cmap_lookup cm ch) = cmap_fun cm ch"
    and "cmap_fun (snd (cmap_lookup cm ch)) = cmap_fun cm"
    and "cmap_inv (snd (cmap_lookup cm ch))"
proof -
  obtain t where t: "cmap_lookup_hard cm ch = (cmap_fun cm ch, cm\<lparr>cm_root := t\<rparr>)"
    and it: "inorder t = inorder (cm_root cm)"
    using cmap_lookup_hard_correct assms unfolding cmap_inv_def by blast
  have hit: "cm_cache cm ! nat ch = cmap_fun cm ch" if "0 \<le> ch" "ch < int CM_CACHE_SIZE" "cm_havecache cm"
  proof -
    have "nat ch < CM_CACHE_SIZE" using that by linarith
    then show ?thesis using assms that unfolding cmap_inv_def by (metis int_nat_eq)
  qed
  show "0 \<le> ch \<Longrightarrow> fst (cmap_lookup cm ch) = cmap_fun cm ch"
    using hit t by (auto simp: cmap_lookup_def)
  show "cmap_fun (snd (cmap_lookup cm ch)) = cmap_fun cm"
    using t it by (simp add: cmap_lookup_def cmap_fun_root_cong)
  show "cmap_inv (snd (cmap_lookup cm ch))"
    using t it assms by (simp add: cmap_lookup_def cmap_inv_root_cong)
qed

interpretation tr_map: char_map cmap_lookup cmap_fun cmap_inv
  by unfold_locales (simp_all add: cmap_lookup_correct)

subsection \<open>Updates\<close>

lemma cmap_alloc_correct:
  assumes "cmap_alloc junk mem = Some cm"
  shows "cmap_inv cm" and "cmap_fun cm = id" and "cmap_dom cm = {}"
  using assms by (auto simp: cmap_alloc_def cmap_inv_def cmap_fun_def cmap_dom_def split: if_splits)

lemma cmap_default_correct:
  assumes "cmap_inv cm"
  shows "cmap_inv (snd (cmap_default cm d))" and "fst (cmap_default cm d) = cm_def cm"
    and "cmap_fun (snd (cmap_default cm d)) c =
      (if c \<in> cmap_dom cm then cmap_fun cm c else if d = CM_DEF_SELF then c else d)"
proof -
  have "nodes_map (inorder (cm_root cm)) c = None \<longleftrightarrow> c \<notin> cmap_dom cm"
    by (force simp: nodes_map_def cmap_dom_def map_of_eq_None_iff image_image)
  then show "cmap_fun (snd (cmap_default cm d)) c =
      (if c \<in> cmap_dom cm then cmap_fun cm c else if d = CM_DEF_SELF then c else d)"
    by (auto simp: cmap_default_def cmap_fun_def split: option.splits)
qed (use assms in \<open>simp_all add: cmap_default_def cmap_inv_def cmap_dom_def\<close>)


lemma cmap_add_tree:
  assumes ok: "nodes_ok (inorder (cm_root cm))"
  obtains b t where "fst (cmap_add mem cm from to) = b"
    and "cm_root (snd (cmap_add mem cm from to)) = t" and "mem \<Longrightarrow> b"
    and "nodes_ok (inorder t)"
    and "nodes_map (inorder t) =
      (if b then (nodes_map (inorder (cm_root cm)))(from \<mapsto> to) else nodes_map (inorder (cm_root cm)))"
    and "cmn_from ` set (inorder t) =
      (if b then insert from (cmap_dom cm) else cmap_dom cm)"
proof (cases "cm_root cm = Leaf")
  case True
  then show ?thesis
    using that [of mem "if mem then Node Leaf \<lparr>cmn_from = from, cmn_to = to\<rparr> Leaf else Leaf"]
    by (auto simp: cmap_add_def Let_def nodes_ok_Cons cmap_dom_def)
next
  case False
  then obtain l a r where s: "cmap_splay (cm_root cm) from = Node l a r"
    and i: "inorder (cm_root cm) = inorder l @ a # inorder r"
    and l: "\<forall>x \<in> set (inorder l). cmn_from x < from" and r: "\<forall>x \<in> set (inorder r). from < cmn_from x"
    using cmap_splay_split [OF _ ok] by metis
  let ?n = "\<lparr>cmn_from = from, cmn_to = to\<rparr>"
  let ?t = "if cmn_from a = from then Node l (a\<lparr>cmn_to := to\<rparr>) r else if \<not> mem then Node l a r
    else if from < cmn_from a then Node l ?n (Node Leaf a r) else Node (Node l a Leaf) ?n r"
  have out: "nodes_map (inorder l) from = None" "nodes_map (inorder r) from = None"
    using l r by (force intro!: nodes_map_outside)+
  have "nodes_ok (inorder ?t)"
    using ok i l r by (force simp: nodes_ok_append nodes_ok_Cons)
  moreover have "nodes_map (inorder ?t) = (if cmn_from a = from \<or> mem
      then (nodes_map (inorder (cm_root cm)))(from \<mapsto> to) else nodes_map (inorder (cm_root cm)))"
    using i out by (auto simp: fun_eq_iff map_add_def split: option.split)
  moreover have "cmn_from ` set (inorder ?t) = (if cmn_from a = from \<or> mem
      then insert from (cmap_dom cm) else cmap_dom cm)"
    using i by (auto simp: cmap_dom_def)
  ultimately show ?thesis
    using that [of "cmn_from a = from \<or> mem" ?t] s by (simp add: cmap_add_def Let_def)
qed

definition bounds_of :: "wchar \<Rightarrow> wchar \<Rightarrow> wchar set \<Rightarrow> bool" where
  "bounds_of lo hi D \<longleftrightarrow> lo \<in> D \<and> hi \<in> D \<and> (\<forall>c \<in> D. lo \<le> c \<and> c \<le> hi)"

lemma bounds_of_insert:
  "bounds_of lo hi D \<Longrightarrow>
   bounds_of (if c < lo then c else lo) (if c > hi then c else hi) (insert c D)"
  by (fastforce simp: bounds_of_def)

lemma cmap_inv_bounds:
  "cmap_inv cm \<longleftrightarrow> nodes_ok (inorder (cm_root cm)) \<and>
     (cm_root cm \<noteq> Leaf \<longrightarrow> bounds_of (cm_min cm) (cm_max cm) (cmap_dom cm)) \<and>
     (cm_havecache cm \<longrightarrow> length (cm_cache cm) = CM_CACHE_SIZE \<and>
       (\<forall>i < CM_CACHE_SIZE. cm_cache cm ! i = cmap_fun cm (int i)))"
  by (simp add: cmap_inv_def bounds_of_def)

text \<open>The least and the greatest mapped character are kept up to date.\<close>

lemma cmap_add_min_max:
  assumes "cm_root cm \<noteq> Leaf" and "bounds_of (cm_min cm) (cm_max cm) (cmap_dom cm)"
    and "nodes_ok (inorder (cm_root cm))" and add: "cmap_add mem cm from to = (b, cm')"
  shows "cm_min cm' = (if b \<and> from < cm_min cm then from else cm_min cm)"
    and "cm_max cm' = (if b \<and> from > cm_max cm then from else cm_max cm)"
proof -
  obtain l a r where s: "cmap_splay (cm_root cm) from = Node l a r"
    and i: "inorder (cm_root cm) = inorder l @ a # inorder r"
    using cmap_splay_split [OF assms(1,3)] by metis
  have "cmn_from a \<in> cmap_dom cm" unfolding cmap_dom_def i by simp
  then have "cm_min cm \<le> cmn_from a \<and> cmn_from a \<le> cm_max cm" using assms(2) by (simp add: bounds_of_def)
  then show "cm_min cm' = (if b \<and> from < cm_min cm then from else cm_min cm)"
    and "cm_max cm' = (if b \<and> from > cm_max cm then from else cm_max cm)"
    using s add by (auto simp: cmap_add_def Let_def split: if_splits)
qed

lemma cmap_add_bounds:
  assumes inv: "cmap_inv cm" and add: "cmap_add mem cm from to = (b, cm')"
    and dom: "cmap_dom cm' = (if b then insert from (cmap_dom cm) else cmap_dom cm)"
    and ne: "cm_root cm' \<noteq> Leaf"
  shows "bounds_of (cm_min cm') (cm_max cm') (cmap_dom cm')"
proof (cases "cm_root cm = Leaf")
  case True
  then show ?thesis
    using add ne by (auto simp: cmap_add_def Let_def cmap_dom_def bounds_of_def split: if_splits)
next
  case False
  have old: "bounds_of (cm_min cm) (cm_max cm) (cmap_dom cm)" and ok: "nodes_ok (inorder (cm_root cm))"
    using inv False by (simp_all add: cmap_inv_bounds)
  show ?thesis
    using bounds_of_insert [OF old, of "from"] old dom cmap_add_min_max [OF False old ok add]
    by (cases b) simp_all
qed

lemma cmap_add_correct:
  assumes inv: "cmap_inv cm" and add: "cmap_add mem cm from to = (b, cm')"
  shows "cmap_inv cm'" and "mem \<longrightarrow> b" and "cm_def cm' = cm_def cm"
    and "cmap_fun cm' = (if b then (cmap_fun cm)(from := to) else cmap_fun cm)"
    and "cmap_dom cm' = (if b then insert from (cmap_dom cm) else cmap_dom cm)"
proof -
  have ok: "nodes_ok (inorder (cm_root cm))" using inv by (simp add: cmap_inv_def)
  obtain t where t: "cm_root cm' = t" "mem \<longrightarrow> b" "nodes_ok (inorder t)"
    "nodes_map (inorder t) =
      (if b then (nodes_map (inorder (cm_root cm)))(from \<mapsto> to) else nodes_map (inorder (cm_root cm)))"
    "cmn_from ` set (inorder t) = (if b then insert from (cmap_dom cm) else cmap_dom cm)"
    using cmap_add_tree [OF ok, of mem "from" to] add by (metis fst_conv snd_conv)
  have nc: "\<not> cm_havecache cm'" "cm_def cm' = cm_def cm"
    using add by (auto simp: cmap_add_def Let_def split: tree.splits if_splits)
  show "mem \<longrightarrow> b" "cm_def cm' = cm_def cm" using t(2) nc(2) by auto
  show dom: "cmap_dom cm' = (if b then insert from (cmap_dom cm) else cmap_dom cm)"
    using t(1,5) by (simp add: cmap_dom_def)
  show "cmap_inv cm'"
    using t(1,3) nc(1) cmap_add_bounds [OF inv add dom] by (simp add: cmap_inv_bounds)
  show "cmap_fun cm' = (if b then (cmap_fun cm)(from := to) else cmap_fun cm)"
    using t(1,4) nc(2) by (auto simp: cmap_fun_def fun_eq_iff split: option.split)
qed


subsection \<open>Correctness\<close>

text \<open>
  C30. cmap_add on a well-formed map keeps it well formed (search order, least and greatest
  mapped character) and changes the mapping of exactly the given character; only a failed
  allocation for a new character leaves the mapping as it was.
\<close>

theorem cmap_add_refines:
  assumes "cmap_inv cm"
  shows "\<exists>b cm'. cmap_add mem cm from to = (b, cm') \<and> (mem \<longrightarrow> b) \<and> cmap_inv cm' \<and>
    cmap_fun cm' = (if b then (cmap_fun cm)(from := to) else cmap_fun cm)"
  using cmap_add_correct [OF assms, of mem "from" to] by (metis surj_pair)

text \<open>
  The cache is transparent: on a cached map the fast lookup gives what the tree search
  gives on the map that was cached.
\<close>

theorem cmap_cache_transparent:
  assumes "cmap_inv cm" and "0 \<le> ch"
  shows "fst (cmap_lookup (cmap_cache cm) ch) = fst (cmap_lookup_hard cm ch)"
proof -
  have "fst (cmap_lookup_hard cm ch) = cmap_fun cm ch"
    using cmap_lookup_hard_correct [of cm ch] assms(1) unfolding cmap_inv_def by (metis fst_conv)
  then show ?thesis
    using cmap_lookup_correct(1) [OF cmap_cache_correct(1) [OF assms(1)] assms(2)] cmap_cache_correct(2) [OF assms(1)]
    by simp
qed

definition example_cmap :: cmap where
  "example_cmap = \<lparr>cm_cache = [], cm_havecache = False,
     cm_root = Node Leaf \<lparr>cmn_from = 97, cmn_to = 120\<rparr> Leaf, cm_def = CM_DEF_SELF, cm_min = 97, cm_max = 97\<rparr>"

lemma example_cmap_inv: "cmap_inv example_cmap"
  by (simp add: cmap_inv_def example_cmap_def nodes_ok_def cmap_dom_def)

theorem cmap_add_refines_witness:
  "\<exists>cm'. cmap_add True example_cmap 98 121 = (True, cm') \<and> cmap_inv cm' \<and>
    cmap_fun cm' = (cmap_fun example_cmap)(98 := 121)"
  using cmap_add_refines [OF example_cmap_inv, of True 98 121] by auto

theorem cmap_cache_transparent_witness:
  "fst (cmap_lookup (cmap_cache example_cmap) 97) = 120"
  using cmap_cache_transparent [OF example_cmap_inv, of 97]
  by (simp add: cmap_lookup_hard_def example_cmap_def cmap_splay_def topdown_splay_def
      splay_loop_steps cmap_cmp_def)

end
