(* ===== verification/Tr_Str.thy ===== *)
theory Tr_Str
  imports Tr_Loops
begin

text \<open>
  The string scanner of tr: text_cmds/tr/str.c and the STR structure of extern.h, in the C
  locale (MB_CUR_MAX is 1, mbrtowc reads one byte and yields its value, strcoll compares
  bytes). \<open>str\<close> is the rest of the user's string. A scanner that looks behind the
  terminating NUL reads the bytes that follow it in memory, which are the field \<open>past\<close>.
  errx and errc are values of \<open>tr_error\<close>. \<open>coll\<close> gives the primary collation weight of a
  character (the library function __collate_lookup_l, -1 when it has none); the weight cache
  of genequiv holds the same values. The class names are those of POSIX and rune; the other
  names Darwin adds (ideogram, number, phonogram, special) are left out.
\<close>

abbreviation NCHARS_SB :: int where "NCHARS_SB \<equiv> 256"

datatype tr_error =
    Usage
  | EILSEQ
  | UnknownClass string
  | MisplacedEquiv
  | MisplacedAsterisk
  | IllegalCount
  | EmptyString2
  | NoMemory
  | AssertionFailed
  | BufferOverrun

datatype STR_which = STRING1 | STRING2

datatype STR_state =
    EOS | INFINITE | NORMAL | RANGE | SEQUENCE | CCLASS | CCLASS_UPPER | CCLASS_LOWER | SET

record STR_t =
  which :: STR_which
  state :: STR_state
  cnt :: int
  lastch :: wchar
  cclass :: wctype
  equiv :: "wchar list"
  cset_list :: "wchar list"
  str :: string
  past :: string

definition STR_init :: "STR_which \<Rightarrow> string \<Rightarrow> string \<Rightarrow> STR_t" where
  "STR_init w s p =
     \<lparr>which = w, state = NORMAL, cnt = 0, lastch = OOBCH, cclass = Alnum,
      equiv = [0, OOBCH] @ replicate 254 0, cset_list = [], str = s, past = p\<rparr>"

text \<open>charcoll: one-byte strings compared by strcoll; a zero byte gives the empty string.\<close>

definition charcoll :: "int \<Rightarrow> int \<Rightarrow> int" where
  "charcoll a b = a mod 256 - b mod 256"

text \<open>backslash: \<open>str\<close> stands at the backslash.\<close>

fun octal_digits :: "nat \<Rightarrow> int \<Rightarrow> string \<Rightarrow> nat \<times> int \<times> string" where
  "octal_digits c val [] = (c, val, [])"
| "octal_digits c val (ch # chs) =
     (if \<not> isdigit ch \<or> code ch > 55 then (c, val, ch # chs)
      else if Suc c = 3 then (3, val * 8 + code ch - 48, chs)
      else octal_digits (Suc c) (val * 8 + code ch - 48) chs)"

definition escape_code :: "char \<Rightarrow> int" where
  "escape_code ch =
     (if ch = CHR ''a'' then 7 else if ch = CHR ''b'' then 8 else if ch = CHR ''f'' then 12
      else if ch = CHR ''n'' then 10 else if ch = CHR ''r'' then 13 else if ch = CHR ''t'' then 9
      else if ch = CHR ''v'' then 11 else code ch)"

definition backslash :: "STR_t \<Rightarrow> int \<times> bool \<times> STR_t" where
  "backslash s =
     (let (c, val, rest) = octal_digits 0 0 (tl (str s)) in
      if c \<noteq> 0 then (val, True, s\<lparr>str := rest\<rparr>)
      else case rest of
             [] \<Rightarrow> (92, False, s\<lparr>str := [], state := EOS\<rparr>)
           | ch # chs \<Rightarrow> (escape_code ch, False, s\<lparr>str := chs\<rparr>))"

definition wctype_of :: "string \<Rightarrow> wctype option" where
  "wctype_of name = map_of
     [(''alnum'', Alnum), (''alpha'', Alpha), (''blank'', Blank), (''cntrl'', Cntrl),
      (''digit'', Digit), (''graph'', Graph), (''lower'', Lower), (''print'', Print),
      (''punct'', Punct), (''space'', Space), (''upper'', Upper), (''xdigit'', Xdigit),
      (''rune'', Rune)] name"

text \<open>nextwctype: the next character of the class, -1 behind the last one.\<close>

definition nextwctype :: "wchar \<Rightarrow> wctype \<Rightarrow> wchar" where
  "nextwctype ch ty = (case filter (\<lambda>c. iswctype c ty) [ch + 1..127] of [] \<Rightarrow> -1 | c # _ \<Rightarrow> c)"

definition genclass :: "STR_t \<Rightarrow> string \<Rightarrow> tr_error + STR_t" where
  "genclass s name =
     (case wctype_of name of
        None \<Rightarrow> Inl (UnknownClass name)
      | Some ty \<Rightarrow>
          Inr (s\<lparr>cclass := ty, cnt := 0, lastch := -1,
                 state := (if name = ''upper'' then CCLASS_UPPER
                           else if name = ''lower'' then CCLASS_LOWER else CCLASS)\<rparr>))"

text \<open>The loop of genequiv stores the characters of equal weight behind \<open>equiv[0]\<close> and ends
  with OOBCH; the array has 256 entries.\<close>

definition genequiv_fill :: "(wchar \<Rightarrow> int) \<Rightarrow> wchar list \<Rightarrow> tr_error + wchar list" where
  "genequiv_fill coll eq =
     (let tprim = coll (hd eq) in
      if tprim = -1 then Inr eq
      else (let ms = filter (\<lambda>i. coll i \<noteq> -1 \<and> coll i = tprim) [1..NCHARS_SB - 1];
                new = hd eq # ms @ [OOBCH] in
            if length new > length eq then Inl BufferOverrun
            else Inr (new @ drop (length new) eq)))"

definition genequiv :: "(wchar \<Rightarrow> int) \<Rightarrow> STR_t \<Rightarrow> tr_error + STR_t" where
  "genequiv coll s =
     (case (case str s of
              [] \<Rightarrow> Inl EILSEQ
            | c # cs \<Rightarrow>
                (let (ch, s1) = (if c = BSLASH then (let (v, _, s') = backslash s in (v, s'))
                                 else (code c, s\<lparr>str := cs\<rparr>)) in
                 if str s1 = [] \<or> hd (str s1) \<noteq> CHR ''='' then Inl MisplacedEquiv
                 else Inr (s1\<lparr>equiv := ch # tl (equiv s1), str := drop 2 (str s1)\<rparr>))) of
        Inl e \<Rightarrow> Inl e
      | Inr s1 \<Rightarrow>
          (case genequiv_fill coll (equiv s1) of
             Inl e \<Rightarrow> Inl e
           | Inr eq \<Rightarrow> Inr (s1\<lparr>equiv := eq, cnt := 0, state := SET, cset_list := eq\<rparr>)))"

definition genseq :: "STR_t \<Rightarrow> tr_error + STR_t" where
  "genseq s0 =
     (let s1 = (case str s0 of
                  [] \<Rightarrow> s0\<lparr>lastch := 0\<rparr>
                | c # cs \<Rightarrow> if c = BSLASH then (let (v, _, s') = backslash s0 in s'\<lparr>lastch := v\<rparr>)
                            else s0\<lparr>lastch := code c, str := cs\<rparr>) in
      case str s1 of
        [] \<Rightarrow> Inl MisplacedAsterisk
      | a # rest \<Rightarrow>
          if a \<noteq> CHR ''*'' then Inl MisplacedAsterisk
          else
            (let s2 = s1\<lparr>str := rest\<rparr> in
             case (case rest of
                     [] \<Rightarrow> Inl IllegalCount
                   | c # cs \<Rightarrow>
                       if c = BSLASH then (let (v, _, s') = backslash s2 in Inr (s'\<lparr>cnt := v\<rparr>))
                       else if c = CHR '']'' then Inr (s2\<lparr>cnt := 0, str := cs\<rparr>)
                       else if isdigit c then
                         (let (v, ep) = strtol0 rest in
                          if ep \<noteq> [] \<and> hd ep = CHR '']'' then Inr (s2\<lparr>cnt := c_int v, str := tl ep\<rparr>)
                          else Inl IllegalCount)
                       else Inl IllegalCount) of
               Inl e \<Rightarrow> Inl e
             | Inr s3 \<Rightarrow> Inr (s3\<lparr>state := (if cnt s3 \<noteq> 0 then SEQUENCE else INFINITE)\<rparr>)))"

text \<open>genrange: \<open>str\<close> stands at the dash; the result says whether a range was found.\<close>

definition genrange :: "STR_t \<Rightarrow> bool \<Rightarrow> bool \<times> STR_t" where
  "genrange s was_octal =
     (let s1 = s\<lparr>str := tl (str s)\<rparr>;
          (stopval, octal, s2) =
            (case str s1 of
               [] \<Rightarrow> (0, False, s1)
             | c # cs \<Rightarrow> if c = BSLASH then backslash s1 else (code c, False, s1\<lparr>str := cs\<rparr>)) in
      if octal \<or> was_octal then
        (if stopval < lastch s2 then (False, s2\<lparr>str := str s\<rparr>)
         else (True, s2\<lparr>cnt := stopval - lastch s2 + 1, state := RANGE, lastch := lastch s2 - 1\<rparr>))
      else if charcoll stopval (lastch s2) < 0 then (False, s2\<lparr>str := str s\<rparr>)
      else
        (let p = filter (\<lambda>c. charcoll c (lastch s2) \<ge> 0 \<and> charcoll c stopval \<le> 0) [0..NCHARS_SB - 1];
             p' = (if length p > 1 then sort_key (\<lambda>c. c mod 256) p else p)
         in (True, s2\<lparr>cset_list := p' @ [OOBCH], cnt := 0, state := SET\<rparr>)))"

definition strchr :: "string \<Rightarrow> char \<Rightarrow> string option" where
  "strchr s c = (case dropWhile (\<lambda>x. x \<noteq> c) s of [] \<Rightarrow> None | r \<Rightarrow> Some r)"

definition strpbrk :: "string \<Rightarrow> string \<Rightarrow> string option" where
  "strpbrk s cs = (case dropWhile (\<lambda>x. x \<notin> set cs) s of [] \<Rightarrow> None | r \<Rightarrow> Some r)"

text \<open>
  The label repeat of bracket. \<open>str + 2\<close> lies behind the terminator when the string is a
  single bracket, and the search then runs over the following memory.
\<close>

definition bracket_repeat :: "STR_t \<Rightarrow> tr_error + bool \<times> STR_t" where
  "bracket_repeat s =
     (let from = (if length (str s) \<ge> 2 then drop 2 (str s) else past s) in
      case strpbrk from ''*]'' of
        None \<Rightarrow> Inr (False, s)
      | Some p \<Rightarrow>
          if hd p \<noteq> CHR ''*'' \<or> strchr p CHR '']'' = None then Inr (False, s)
          else (case genseq (s\<lparr>str := tl (str s)\<rparr>) of
                  Inl e \<Rightarrow> Inl e
                | Inr s' \<Rightarrow> Inr (True, s')))"

text \<open>For classes and equivalences, \<open>body\<close> is the text from \<open>str + 2\<close> to the bracket
  that closes it; the test on \<open>p - 1\<close> and \<open>p - str < 4\<close> asks for a body of at least two
  characters that ends in the marker. The test on \<open>p - 1\<close> alone also sees the opening marker.\<close>

definition bracket :: "(wchar \<Rightarrow> int) \<Rightarrow> STR_t \<Rightarrow> tr_error + bool \<times> STR_t" where
  "bracket coll s =
     (let body = takeWhile (\<lambda>x. x \<noteq> CHR '']'') (drop 2 (str s)) in
      if length (str s) \<ge> 2 \<and> str s ! 1 = CHR '':'' then
        (case strchr (drop 2 (str s)) CHR '']'' of
           None \<Rightarrow> Inr (False, s)
         | Some p \<Rightarrow>
             if str s ! (length body + 1) \<noteq> CHR '':'' \<or> length body + 2 < 4 then bracket_repeat s
             else (case genclass (s\<lparr>str := drop 2 (str s)\<rparr>) (butlast body) of
                     Inl e \<Rightarrow> Inl e
                   | Inr s' \<Rightarrow> Inr (True, s'\<lparr>str := tl p\<rparr>)))
      else if length (str s) \<ge> 2 \<and> str s ! 1 = CHR ''='' then
        (case strchr (drop 2 (str s)) CHR '']'' of
           None \<Rightarrow> Inr (False, s)
         | Some p \<Rightarrow>
             if str s ! (length body + 1) \<noteq> CHR ''='' \<or> length body + 2 < 4 then bracket_repeat s
             else (case genequiv coll (s\<lparr>str := drop 2 (str s)\<rparr>) of
                     Inl e \<Rightarrow> Inl e
                   | Inr s' \<Rightarrow> Inr (True, s')))
      else bracket_repeat s)"

text \<open>
  The NORMAL case of next on a non-empty string. The answer says whether next is called
  again (\<open>True\<close>) or returns 1 with \<open>lastch\<close> set (\<open>False\<close>).
\<close>

definition start_range :: "STR_t \<Rightarrow> bool \<Rightarrow> bool \<times> STR_t" where
  "start_range s is_octal =
     (if str s \<noteq> [] \<and> hd (str s) = CHR ''-'' then genrange s is_octal else (False, s))"

definition next_normal :: "(wchar \<Rightarrow> int) \<Rightarrow> STR_t \<Rightarrow> char \<Rightarrow> string \<Rightarrow> tr_error + bool \<times> STR_t" where
  "next_normal coll s c cs =
     (if c = BSLASH then
        (let (v, oct, s') = backslash s in Inr (start_range (s'\<lparr>lastch := v\<rparr>) oct))
      else if c = CHR ''['' then
        (case bracket coll s of
           Inl e \<Rightarrow> Inl e
         | Inr (True, s') \<Rightarrow> Inr (True, s')
         | Inr (False, s') \<Rightarrow> Inr (start_range (s'\<lparr>lastch := code c, str := cs\<rparr>) False))
      else Inr (start_range (s\<lparr>lastch := code c, str := cs\<rparr>) False))"


subsection \<open>Every scanning step consumes input\<close>

lemma octal_digits_length: "length (snd (snd (octal_digits c v s))) \<le> length s"
  by (induction c v s rule: octal_digits.induct) (auto intro: le_SucI)

lemma backslash_length:
  "str s \<noteq> [] \<Longrightarrow> backslash s = (v, oct, s') \<Longrightarrow> length (str s') < length (str s)"
  using octal_digits_length [of 0 0 "tl (str s)"]
  by (cases "str s") (auto simp: backslash_def Let_def split: prod.splits list.splits if_splits)

lemma genrange_length:
  assumes "genrange s oct = (b, s')"
  shows "length (str s') \<le> length (str s)"
proof (cases "tl (str s)")
  case Nil
  then show ?thesis using assms by (auto simp: genrange_def Let_def split: if_splits)
next
  case (Cons c cs)
  obtain v o' s2 where b: "backslash (s\<lparr>str := tl (str s)\<rparr>) = (v, o', s2)" by (metis prod_cases3)
  have "length (str s2) < length (tl (str s))"
    using backslash_length [OF _ b] Cons by simp
  moreover have "Suc (length cs) \<le> length (str s)"
    using Cons by (metis length_Cons length_tl diff_le_self)
  ultimately show ?thesis
    using assms Cons b by (auto simp: genrange_def Let_def split: if_splits)
qed

lemma start_range_length: "start_range s oct = (b, s') \<Longrightarrow> length (str s') \<le> length (str s)"
  by (auto simp: start_range_def split: if_splits dest: genrange_length)

lemma genseq_length:
  assumes "genseq s = Inr s'"
  shows "length (str s') < length (str s)"
proof -
  define s1 where "s1 = (case str s of [] \<Rightarrow> s\<lparr>lastch := 0\<rparr>
     | c # cs \<Rightarrow> if c = BSLASH then (let (v, _, s') = backslash s in s'\<lparr>lastch := v\<rparr>)
                 else s\<lparr>lastch := code c, str := cs\<rparr>)"
  have s1: "length (str s1) \<le> length (str s)"
    unfolding s1_def using backslash_length [of s]
    by (auto split: list.splits prod.splits intro: less_imp_le)
  show ?thesis
  proof (cases "str s1")
    case Nil
    then show ?thesis using assms by (simp add: genseq_def s1_def [symmetric])
  next
    case (Cons a rest)
    obtain v o' s3 where b: "backslash (s1\<lparr>str := rest\<rparr>) = (v, o', s3)" by (metis prod_cases3)
    have b': "rest \<noteq> [] \<Longrightarrow> length (str s3) < length rest" using backslash_length [OF _ b] by simp
    obtain w ep where e: "strtol0 rest = (w, ep)" by (metis surj_pair)
    have e': "length ep \<le> length rest" using strtol0_length [of rest] e by simp
    show ?thesis
      using assms Cons s1 b b' e e'
      by (auto simp: genseq_def s1_def [symmetric] Let_def split: if_splits list.splits)
  qed
qed

lemma genequiv_length:
  assumes "genequiv coll s = Inr s'"
  shows "length (str s') < length (str s)"
proof (cases "str s")
  case Nil
  then show ?thesis using assms by (simp add: genequiv_def)
next
  case (Cons c cs)
  obtain v o' s1 where b: "backslash s = (v, o', s1)" by (metis prod_cases3)
  have "length (str s1) < length (str s)" using backslash_length [OF _ b] Cons by simp
  then show ?thesis
    using assms Cons b by (auto simp: genequiv_def Let_def split: if_splits sum.splits)
qed

lemma bracket_repeat_length:
  assumes "bracket_repeat s = Inr (b, s')"
  shows "b \<Longrightarrow> length (str s') < length (str s)" and "\<not> b \<Longrightarrow> s' = s"
  using assms genseq_length [of "s\<lparr>str := tl (str s)\<rparr>"]
  by (fastforce simp: bracket_repeat_def Let_def split: option.splits if_splits sum.splits)+

lemma strchr_length: "strchr s c = Some p \<Longrightarrow> length (tl p) < length s"
  using length_dropWhile_le [of "\<lambda>x. x \<noteq> c" s]
  by (cases "dropWhile (\<lambda>x. x \<noteq> c) s") (auto simp: strchr_def)

lemma genclass_str: "genclass s name = Inr s' \<Longrightarrow> str s' = str s"
  by (auto simp: genclass_def split: option.splits)

lemma bracket_length:
  assumes "bracket coll s = Inr (b, s')"
  shows "b \<Longrightarrow> length (str s') < length (str s)" and "\<not> b \<Longrightarrow> s' = s"
  using assms bracket_repeat_length [of s b s'] genequiv_length [of coll "s\<lparr>str := drop 2 (str s)\<rparr>"]
    strchr_length [of "drop 2 (str s)"]
  by (fastforce simp: bracket_def Let_def split: option.splits if_splits sum.splits)+

lemma next_normal_length:
  assumes "next_normal coll s c cs = Inr (b, s')" and "str s = c # cs"
  shows "length (str s') < length (str s)"
proof -
  obtain v o' s1 where b: "backslash s = (v, o', s1)" by (metis prod_cases3)
  have b': "length (str s1) < length (str s)" using backslash_length [OF _ b] assms(2) by simp
  have plain: "length (str s') < length (str s)"
    if "start_range (s\<lparr>lastch := code c, str := cs\<rparr>) False = (b, s')"
    using start_range_length [OF that] assms(2) by simp
  have esc: "length (str s') < length (str s)"
    if "start_range (s1\<lparr>lastch := v\<rparr>) o' = (b, s')"
    using start_range_length [OF that] b' by simp
  show ?thesis
    using assms(1) b plain esc bracket_length [of coll s]
    by (auto simp: next_normal_def Let_def split: if_splits sum.splits bool.splits)
qed

subsection \<open>The scanner\<close>

text \<open>
  next: \<open>Inr (True, s)\<close> is the return value 1 with the character in \<open>lastch\<close>,
  \<open>Inr (False, s)\<close> the return value 0. The recursion ends because every step from NORMAL
  shortens the string and every other state only falls back to NORMAL.
\<close>

function (sequential) next_ch :: "(wchar \<Rightarrow> int) \<Rightarrow> STR_t \<Rightarrow> tr_error + bool \<times> STR_t" where
  "next_ch coll s =
     (case state s of
        EOS \<Rightarrow> Inr (False, s)
      | INFINITE \<Rightarrow> Inr (True, if str s = [] then s\<lparr>state := NORMAL\<rparr> else s)
      | NORMAL \<Rightarrow>
          (case str s of
             [] \<Rightarrow> Inr (False, s\<lparr>state := EOS\<rparr>)
           | c # cs \<Rightarrow>
               (case next_normal coll s c cs of
                  Inl e \<Rightarrow> Inl e
                | Inr (True, s') \<Rightarrow> next_ch coll s'
                | Inr (False, s') \<Rightarrow> Inr (True, s')))
      | RANGE \<Rightarrow>
          if cnt s = 0 then next_ch coll (s\<lparr>cnt := cnt s - 1, state := NORMAL\<rparr>)
          else Inr (True, s\<lparr>cnt := cnt s - 1, lastch := lastch s + 1\<rparr>)
      | SEQUENCE \<Rightarrow>
          if cnt s = 0 then next_ch coll (s\<lparr>cnt := cnt s - 1, state := NORMAL\<rparr>)
          else Inr (True, s\<lparr>cnt := cnt s - 1\<rparr>)
      | SET \<Rightarrow>
          (let ch = cset_list s ! nat (cnt s); s' = s\<lparr>cnt := cnt s + 1\<rparr> in
           if ch = OOBCH then next_ch coll (s'\<lparr>state := NORMAL\<rparr>)
           else Inr (True, s'\<lparr>lastch := ch\<rparr>))
      | _ \<Rightarrow>
          (let s' = s\<lparr>cnt := cnt s + 1\<rparr>; ch = nextwctype (lastch s) (cclass s) in
           if ch = -1 then next_ch coll (s'\<lparr>state := NORMAL\<rparr>)
           else Inr (True, s'\<lparr>lastch := ch\<rparr>)))"
  by pat_completeness auto
termination
  by (relation "measures [\<lambda>(coll, s). length (str s), \<lambda>(coll, s). if state s = NORMAL then 0 else 1]")
    (auto dest: next_normal_length)

declare next_ch.simps [simp del]


subsection \<open>The characters a string stands for\<close>

text \<open>The characters successive calls of next deliver until it returns 0.\<close>

inductive yields :: "(wchar \<Rightarrow> int) \<Rightarrow> STR_t \<Rightarrow> wchar list \<Rightarrow> STR_t \<Rightarrow> bool" for coll where
  yields_stop: "next_ch coll s = Inr (False, s') \<Longrightarrow> yields coll s [] s'"
| yields_step: "next_ch coll s = Inr (True, s1) \<Longrightarrow> yields coll s1 cs s' \<Longrightarrow>
    yields coll s (lastch s1 # cs) s'"

lemma yields_next_cong:
  "next_ch coll s = next_ch coll t \<Longrightarrow> yields coll t cs s' \<Longrightarrow> yields coll s cs s'"
  by (erule yields.cases) (auto intro: yields.intros)

text \<open>The scanner delivers \<open>cs\<close> and stops; it then stays stopped and keeps the last
  character it delivered, which the caller goes on using.\<close>

definition scan_ok :: "(wchar \<Rightarrow> int) \<Rightarrow> STR_t \<Rightarrow> wchar list \<Rightarrow> bool" where
  "scan_ok coll s cs \<longleftrightarrow> (\<exists>s'. yields coll s cs s' \<and> state s' = EOS \<and> lastch s' = last (lastch s # cs))"

lemma scan_ok_step:
  assumes "next_ch coll s = Inr (True, s1)" and "scan_ok coll s1 cs"
  shows "scan_ok coll s (lastch s1 # cs)"
proof -
  obtain s' where s': "yields coll s1 cs s'" "state s' = EOS" "lastch s' = last (lastch s1 # cs)"
    using assms(2) by (auto simp: scan_ok_def)
  have "lastch s' = last (lastch s # lastch s1 # cs)" using s'(3) by simp
  then show ?thesis using yields_step [OF assms(1) s'(1)] s'(2) unfolding scan_ok_def by blast
qed

lemma scan_ok_cong:
  assumes "next_ch coll s = next_ch coll t" and "scan_ok coll t cs" and "lastch t = lastch s \<or> cs \<noteq> []"
  shows "scan_ok coll s cs"
proof -
  obtain s' where s': "yields coll t cs s'" "state s' = EOS" "lastch s' = last (lastch t # cs)"
    using assms(2) by (auto simp: scan_ok_def)
  have "lastch s' = last (lastch s # cs)" using s'(3) assms(3) by auto
  then show ?thesis using yields_next_cong [OF assms(1) s'(1)] s'(2) unfolding scan_ok_def by blast
qed

definition scans :: "(wchar \<Rightarrow> int) \<Rightarrow> string \<Rightarrow> wchar list \<Rightarrow> bool" where
  "scans coll r cs \<longleftrightarrow> (\<forall>s. state s = NORMAL \<longrightarrow> str s = r \<longrightarrow> length (equiv s) = 256 \<longrightarrow> scan_ok coll s cs)"

lemma scansD: "scans coll r cs \<Longrightarrow> state s = NORMAL \<Longrightarrow> str s = r \<Longrightarrow> length (equiv s) = 256 \<Longrightarrow> scan_ok coll s cs"
  by (simp add: scans_def)

lemma scans_next:
  assumes "scans coll (str t) cs" and "state t = NORMAL" and "next_ch coll s = next_ch coll t"
    and "lastch t = lastch s" and "length (equiv t) = 256"
  shows "scan_ok coll s cs"
  using scan_ok_cong [OF assms(3) scansD [OF assms(1,2) refl assms(5)]] assms(4) by simp

lemma scan_SEQUENCE:
  assumes "scans coll (str s) cs" "length (equiv s) = 256"
  shows "state s = SEQUENCE \<Longrightarrow> cnt s = int n \<Longrightarrow> scan_ok coll s (replicate n (lastch s) @ cs)"
  using assms
proof (induction n arbitrary: s)
  case 0
  let ?t = "s\<lparr>cnt := cnt s - 1, state := NORMAL\<rparr>"
  have "next_ch coll s = next_ch coll ?t" using 0 by (subst next_ch.simps) simp
  then show ?case using scans_next [of coll ?t cs s] 0 by simp
next
  case (Suc n)
  let ?t = "s\<lparr>cnt := cnt s - 1\<rparr>"
  have n: "next_ch coll s = Inr (True, ?t)" using Suc.prems by (subst next_ch.simps) simp
  have "scan_ok coll ?t (replicate n (lastch ?t) @ cs)"
    using Suc.prems by (intro Suc.IH) simp_all
  then show ?case using scan_ok_step [OF n] by simp
qed

lemma scan_SET:
  assumes "scans coll (str s) cs" "length (equiv s) = 256"
  shows "state s = SET \<Longrightarrow> cset_list s = xs @ ys @ OOBCH # zs \<Longrightarrow> cnt s = int (length xs) \<Longrightarrow>
    OOBCH \<notin> set ys \<Longrightarrow> scan_ok coll s (ys @ cs)"
  using assms
proof (induction ys arbitrary: s xs)
  case Nil
  let ?t = "s\<lparr>cnt := cnt s + 1, state := NORMAL\<rparr>"
  have "next_ch coll s = next_ch coll ?t" using Nil by (subst next_ch.simps) (simp add: Let_def)
  then show ?case using scans_next [of coll ?t cs s] Nil by simp
next
  case (Cons y ys)
  let ?t = "s\<lparr>cnt := cnt s + 1, lastch := y\<rparr>"
  have n: "next_ch coll s = Inr (True, ?t)"
    using Cons.prems by (subst next_ch.simps) (auto simp: Let_def nth_append)
  have "scan_ok coll ?t (ys @ cs)"
    using Cons.prems by (intro Cons.IH [of _ "xs @ [y]"]) simp_all
  then show ?case using scan_ok_step [OF n] by simp
qed

lemma nextwctype_next:
  assumes "nextwctype ch ty \<noteq> -1"
  shows "filter (\<lambda>c. iswctype c ty) [ch + 1..127] =
    nextwctype ch ty # filter (\<lambda>c. iswctype c ty) [nextwctype ch ty + 1..127]" and "ch < nextwctype ch ty"
proof -
  have "nextwctype ch ty \<noteq> -1 \<longrightarrow> filter (\<lambda>c. iswctype c ty) [ch + 1..127] =
    nextwctype ch ty # filter (\<lambda>c. iswctype c ty) [nextwctype ch ty + 1..127] \<and> ch < nextwctype ch ty"
  proof (induction "nat (127 - ch)" arbitrary: ch rule: less_induct)
    case less
    show ?case
    proof (cases "ch + 1 \<le> 127")
      case True
      have up: "[ch + 1..127] = (ch + 1) # [ch + 1 + 1..127]" using True by (rule upto_rec1)
      show ?thesis
      proof (cases "iswctype (ch + 1) ty")
        case True
        then show ?thesis by (simp add: nextwctype_def up)
      next
        case False
        then have "nextwctype ch ty = nextwctype (ch + 1) ty" by (simp add: nextwctype_def up)
        then show ?thesis using less [of "ch + 1"] True False up by auto
      qed
    qed (simp add: nextwctype_def)
  qed
  then show "filter (\<lambda>c. iswctype c ty) [ch + 1..127] =
    nextwctype ch ty # filter (\<lambda>c. iswctype c ty) [nextwctype ch ty + 1..127]" "ch < nextwctype ch ty"
    using assms by simp_all
qed

lemma nextwctype_end:
  assumes "nextwctype ch ty = -1" and "-1 \<le> ch"
  shows "filter (\<lambda>c. iswctype c ty) [ch + 1..127] = []"
proof (cases "filter (\<lambda>c. iswctype c ty) [ch + 1..127]")
  case (Cons d ds)
  then have "d \<in> set [ch + 1..127]" by (metis filter_is_subset list.set_intros(1) subsetD)
  moreover have "d = -1" using assms(1) Cons by (simp add: nextwctype_def)
  ultimately show ?thesis using assms(2) by simp
qed

abbreviation class_states :: "STR_state set" where
  "class_states \<equiv> {CCLASS, CCLASS_UPPER, CCLASS_LOWER}"

lemma next_ch_class:
  "state s \<in> class_states \<Longrightarrow> next_ch coll s =
     (if nextwctype (lastch s) (cclass s) = -1 then next_ch coll (s\<lparr>cnt := cnt s + 1, state := NORMAL\<rparr>)
      else Inr (True, s\<lparr>cnt := cnt s + 1, lastch := nextwctype (lastch s) (cclass s)\<rparr>))"
  by (subst next_ch.simps) (auto simp: Let_def)

lemma scan_class:
  assumes "scans coll (str s) cs" and "state s \<in> class_states" and "-1 \<le> lastch s" and "length (equiv s) = 256"
  shows "scan_ok coll s (filter (\<lambda>c. iswctype c (cclass s)) [lastch s + 1..127] @ cs)"
  using assms
proof (induction "nat (127 - lastch s)" arbitrary: s rule: less_induct)
  case less
  let ?c = "nextwctype (lastch s) (cclass s)"
  show ?case
  proof (cases "?c = -1")
    case True
    let ?t = "s\<lparr>cnt := cnt s + 1, state := NORMAL\<rparr>"
    have "next_ch coll s = next_ch coll ?t" using next_ch_class less.prems(2) True by simp
    then show ?thesis
      using scans_next [of coll ?t cs s] less.prems nextwctype_end [OF True less.prems(3)] by simp
  next
    case False
    let ?t = "s\<lparr>cnt := cnt s + 1, lastch := ?c\<rparr>"
    note c = nextwctype_next [OF False]
    have "?c \<in> set [lastch s + 1..127]" using c(1) by (metis filter_is_subset list.set_intros(1) subsetD)
    then have dec: "nat (127 - lastch ?t) < nat (127 - lastch s)" "-1 \<le> lastch ?t"
      using c(2) less.prems(3) by simp_all
    have n: "next_ch coll s = Inr (True, ?t)" using next_ch_class less.prems(2) False by simp
    have "scan_ok coll ?t (filter (\<lambda>c. iswctype c (cclass ?t)) [lastch ?t + 1..127] @ cs)"
      using less.hyps [OF dec(1)] less.prems dec(2) by simp
    then show ?thesis using scan_ok_step [OF n] c(1) by simp
  qed
qed


subsection \<open>The string language\<close>

text \<open>
  What tr(1) documents of its strings, as a relation between a string and the characters it
  stands for. An element is a character, an escape or an octal code of one to three digits; the flag
  says that it is octal. A string is made of elements, ranges between elements, classes, equivalents
  and, in string2 only, counted repetitions of an element and, at its end, an open one, whose character the
  caller goes on using. The equivalents of an element are the characters of its collation weight, when it has one.
\<close>

definition no_dash :: "string \<Rightarrow> bool" where
  "no_dash r \<longleftrightarrow> r = [] \<or> hd r \<noteq> CHR ''-''"

definition isoctal :: "char \<Rightarrow> bool" where
  "isoctal c \<longleftrightarrow> 48 \<le> code c \<and> code c \<le> 55"

definition octal_value :: "string \<Rightarrow> int" where
  "octal_value ds = foldl (\<lambda>v d. v * 8 + (code d - 48)) 0 ds"

inductive tr_elem :: "string \<Rightarrow> string \<Rightarrow> wchar \<Rightarrow> bool \<Rightarrow> bool" where
  elem_char: "c \<noteq> BSLASH \<Longrightarrow> tr_elem [c] r (code c) False"
| elem_escape: "\<not> isoctal c \<Longrightarrow> tr_elem [BSLASH, c] r (escape_code c) False"
| elem_octal: "ds \<noteq> [] \<Longrightarrow> \<forall>d \<in> set ds. isoctal d \<Longrightarrow> length ds = 3 \<or> length ds < 3 \<and> (r = [] \<or> \<not> isoctal (hd r)) \<Longrightarrow>
    tr_elem (BSLASH # ds) r (octal_value ds) True"

inductive tr_lang :: "(wchar \<Rightarrow> int) \<Rightarrow> STR_which \<Rightarrow> string \<Rightarrow> wchar list \<Rightarrow> bool" for coll w where
  lang_nil: "tr_lang coll w [] []"
| lang_elem: "tr_lang coll w r cs \<Longrightarrow> tr_elem t r v oct \<Longrightarrow> t \<noteq> ''['' \<Longrightarrow> no_dash r \<Longrightarrow> tr_lang coll w (t @ r) (v # cs)"
| lang_range: "tr_lang coll w r cs \<Longrightarrow> tr_elem a (CHR ''-'' # b @ r) v oct \<Longrightarrow> a \<noteq> ''['' \<Longrightarrow> tr_elem b r u oct' \<Longrightarrow> v \<le> u \<Longrightarrow>
    tr_lang coll w (a @ CHR ''-'' # b @ r) ([v..u] @ cs)"
| lang_class: "tr_lang coll w r cs \<Longrightarrow> wctype_of name = Some ty \<Longrightarrow>
    tr_lang coll w (''[:'' @ name @ '':]'' @ r) (filter (\<lambda>c. iswctype c ty) [0..127] @ cs)"
| lang_equiv: "tr_lang coll w r cs \<Longrightarrow> tr_elem t (''=]'' @ r) v oct \<Longrightarrow> CHR '']'' \<notin> set t \<Longrightarrow> coll v \<noteq> -1 \<Longrightarrow>
    length (filter (\<lambda>c. coll c = coll v) [1..255]) \<le> 254 \<Longrightarrow>
    tr_lang coll w (''[='' @ t @ ''=]'' @ r) (v # filter (\<lambda>c. coll c = coll v) [1..255] @ cs)"
| lang_count: "w = STRING2 \<Longrightarrow> tr_lang coll w r cs \<Longrightarrow> tr_elem t (CHR ''*'' # ds @ CHR '']'' # r) v oct \<Longrightarrow> set (tl t) \<inter> set ''*]'' = {} \<Longrightarrow>
    ds \<noteq> [] \<Longrightarrow> \<forall>d \<in> set ds. isdigit d \<Longrightarrow> strtol0 (ds @ CHR '']'' # r) = (int n, CHR '']'' # r) \<Longrightarrow> 0 < n \<Longrightarrow> n < 2 ^ 31 \<Longrightarrow>
    tr_lang coll w (CHR ''['' # t @ CHR ''*'' # ds @ CHR '']'' # r) (replicate n v @ cs)"
| lang_repeat: "w = STRING2 \<Longrightarrow> tr_elem t (CHR ''*'' # ds @ '']'') v oct \<Longrightarrow> set (tl t) \<inter> set ''*]'' = {} \<Longrightarrow>
    \<forall>d \<in> set ds. isdigit d \<Longrightarrow> ds = [] \<or> strtol0 (ds @ '']'') = (0, '']'') \<Longrightarrow>
    tr_lang coll w (CHR ''['' # t @ CHR ''*'' # ds @ '']'') [v]"

lemma next_ch_NORMAL:
  "state s = NORMAL \<Longrightarrow> str s = c # cs \<Longrightarrow> next_ch coll s =
     (case next_normal coll s c cs of
        Inl e \<Rightarrow> Inl e | Inr (True, s') \<Rightarrow> next_ch coll s' | Inr (False, s') \<Rightarrow> Inr (True, s'))"
  by (subst next_ch.simps) simp

lemma start_range_no_dash: "no_dash (str s) \<Longrightarrow> start_range s oct = (False, s)"
  by (auto simp: start_range_def no_dash_def)

text \<open>One delivered character, the scanner back in NORMAL.\<close>

lemma scans_one:
  assumes "scans coll r cs"
    and "\<And>s. state s = NORMAL \<Longrightarrow> str s = q \<Longrightarrow>
      \<exists>s1. next_ch coll s = Inr (True, s1) \<and> state s1 = NORMAL \<and> str s1 = r \<and> lastch s1 = v \<and> equiv s1 = equiv s"
  shows "scans coll q (v # cs)"
  unfolding scans_def using assms scan_ok_step scansD by metis

lemma isoctal_iff: "\<not> (\<not> isdigit ch \<or> code ch > 55) \<longleftrightarrow> isoctal ch"
  by (auto simp: isoctal_def isdigit_def iswdigit_def)

lemma octal_digits_Cons:
  "octal_digits k v (ch # chs) =
     (if \<not> isoctal ch then (k, v, ch # chs)
      else if Suc k = 3 then (3, v * 8 + code ch - 48, chs)
      else octal_digits (Suc k) (v * 8 + code ch - 48) chs)"
  by (simp add: isoctal_iff [symmetric])

declare octal_digits.simps(2) [simp del]

lemma octal_digits_all:
  "\<forall>d \<in> set ds. isoctal d \<Longrightarrow> k + length ds = 3 \<or> k + length ds < 3 \<and> (r = [] \<or> \<not> isoctal (hd r)) \<Longrightarrow> k < 3 \<Longrightarrow>
   octal_digits k v (ds @ r) = (k + length ds, foldl (\<lambda>v d. v * 8 + (code d - 48)) v ds, r)"
proof (induction ds arbitrary: k v)
  case Nil
  then show ?case by (cases r) (auto simp: octal_digits_Cons)
next
  case (Cons d ds)
  show ?case
  proof (cases "Suc k = 3")
    case True
    then show ?thesis using Cons.prems by (auto simp: octal_digits_Cons algebra_simps)
  next
    case False
    then have "octal_digits (Suc k) (v * 8 + (code d - 48)) (ds @ r)
        = (Suc k + length ds, foldl (\<lambda>v d. v * 8 + (code d - 48)) (v * 8 + (code d - 48)) ds, r)"
      using Cons.prems by (intro Cons.IH) auto
    then show ?thesis using Cons.prems False by (simp add: octal_digits_Cons algebra_simps)
  qed
qed

lemma elem_backslash:
  assumes "tr_elem t r v oct" "hd t = BSLASH" "str s = t @ r"
  shows "backslash s = (v, oct, s\<lparr>str := r\<rparr>)"
  using assms(1)
proof cases
  case (elem_escape c)
  then show ?thesis using assms(3) by (simp add: backslash_def octal_digits_Cons)
next
  case (elem_octal ds)
  then have "octal_digits 0 0 (ds @ r) = (length ds, v, r)"
    using octal_digits_all [of ds 0 r 0] by (simp add: octal_value_def)
  then show ?thesis using assms(3) elem_octal by (simp add: backslash_def)
qed (use assms(2) in simp)

lemma elem_plain: "tr_elem t r v oct \<Longrightarrow> hd t \<noteq> BSLASH \<Longrightarrow> \<exists>c. t = [c] \<and> v = code c \<and> \<not> oct"
  by (erule tr_elem.cases) auto

lemma elem_nonempty: "tr_elem t r v oct \<Longrightarrow> t \<noteq> []"
  by (erule tr_elem.cases) auto

lemma octal_value_nonneg: "\<forall>d \<in> set ds. isoctal d \<Longrightarrow> 0 \<le> octal_value ds"
proof -
  have "\<forall>d \<in> set ds. isoctal d \<Longrightarrow> 0 \<le> v \<Longrightarrow> 0 \<le> foldl (\<lambda>v d. v * 8 + (code d - 48)) v ds" for v :: int
    by (induction ds arbitrary: v) (auto simp: isoctal_def)
  then show "\<forall>d \<in> set ds. isoctal d \<Longrightarrow> ?thesis" by (simp add: octal_value_def)
qed

lemma elem_bounds: "tr_elem t r v oct \<Longrightarrow> 0 \<le> v \<and> (\<not> oct \<longrightarrow> v < 256)"
  by (erule tr_elem.cases) (auto simp: code_bounds escape_code_def octal_value_nonneg)

text \<open>The first element of a string, in front of what start_range looks at.\<close>

lemma next_normal_elem:
  assumes "tr_elem t r v oct" "t \<noteq> ''[''" "str s = t @ r"
  shows "next_normal coll s (hd t) (tl (str s)) = Inr (start_range (s\<lparr>lastch := v, str := r\<rparr>) oct)"
proof (cases "hd t = BSLASH")
  case True
  have "s\<lparr>str := r, lastch := v\<rparr> = s\<lparr>lastch := v, str := r\<rparr>" by simp
  then have "start_range (s\<lparr>str := r, lastch := v\<rparr>) oct = start_range (s\<lparr>lastch := v, str := r\<rparr>) oct" by (rule arg_cong2) (rule refl)
  then show ?thesis using elem_backslash [OF assms(1) True assms(3)] True by (simp add: next_normal_def)
next
  case False
  then obtain c where "t = [c]" "v = code c" "\<not> oct" using elem_plain [OF assms(1)] by blast
  then show ?thesis using assms(2,3) False by (simp add: next_normal_def)
qed

lemma next_ch_elem:
  assumes "tr_elem t r v oct" "t \<noteq> ''[''" "str s = t @ r" "state s = NORMAL"
  shows "next_ch coll s = (case start_range (s\<lparr>lastch := v, str := r\<rparr>) oct of
     (True, s') \<Rightarrow> next_ch coll s' | (False, s') \<Rightarrow> Inr (True, s'))"
proof -
  have q: "str s = hd t # tl (str s)" using elem_nonempty [OF assms(1)] assms(3) by (cases t) auto
  show ?thesis
    unfolding next_ch_NORMAL [OF assms(4) q, of coll] next_normal_elem [OF assms(1-3)] by (simp split: prod.split bool.split)
qed

lemma scans_elem:
  assumes "scans coll r cs" "tr_elem t r v oct" "t \<noteq> ''[''" "no_dash r"
  shows "scans coll (t @ r) (v # cs)"
  by (rule scans_one [OF assms(1)]) (use assms in \<open>simp add: next_ch_elem start_range_no_dash\<close>)

lemma filter_range:
  assumes "0 \<le> a" "a \<le> b" "b < 256"
  shows "filter (\<lambda>c. charcoll c a \<ge> 0 \<and> charcoll c b \<le> 0) [0..255] = [a..b]"
proof (rule sorted_distinct_set_unique)
  have "a mod 256 = a" "b mod 256 = b" using assms by simp_all
  then show "set (filter (\<lambda>c. charcoll c a \<ge> 0 \<and> charcoll c b \<le> 0) [0..255]) = set [a..b]"
    using assms by (auto simp: charcoll_def)
qed (simp_all add: sorted_filter [where f = id, simplified])

lemma sort_key_range:
  assumes "0 \<le> a" "b < 256"
  shows "sort_key (\<lambda>c. c mod 256) [a..b] = [a..b]"
proof (rule sort_key_id_if_sorted)
  have "map (\<lambda>c. c mod 256) [a..b] = [a..b]"
    using assms by (intro map_idI) simp
  then show "sorted (map (\<lambda>c. c mod 256) [a..b])" by simp
qed

lemma scan_RANGE:
  assumes "scans coll (str s) cs" "length (equiv s) = 256"
  shows "state s = RANGE \<Longrightarrow> cnt s = int n \<Longrightarrow> scan_ok coll s ([lastch s + 1..lastch s + int n] @ cs)"
  using assms
proof (induction n arbitrary: s)
  case 0
  let ?t = "s\<lparr>cnt := cnt s - 1, state := NORMAL\<rparr>"
  have "next_ch coll s = next_ch coll ?t" using 0 by (subst next_ch.simps) simp
  then show ?case using scans_next [of coll ?t cs s] 0 by simp
next
  case (Suc n)
  let ?t = "s\<lparr>cnt := cnt s - 1, lastch := lastch s + 1\<rparr>"
  have n: "next_ch coll s = Inr (True, ?t)" using Suc.prems by (subst next_ch.simps) simp
  have "scan_ok coll ?t ([lastch ?t + 1..lastch ?t + int n] @ cs)"
    using Suc.prems by (intro Suc.IH) simp_all
  moreover have "[lastch s + 1..lastch s + int (Suc n)] = (lastch s + 1) # [lastch ?t + 1..lastch ?t + int n]"
    by (subst upto_rec1) (simp_all add: algebra_simps)
  ultimately show ?case using scan_ok_step [OF n] by (simp del: upto.simps)
qed

lemma range_stop:
  assumes "tr_elem b r u oct" "str s = b @ r"
  shows "(case str s of [] \<Rightarrow> (0, False, s) | c # cs \<Rightarrow> if c = BSLASH then backslash s else (code c, False, s\<lparr>str := cs\<rparr>)) = (u, oct, s\<lparr>str := r\<rparr>)"
proof (cases "hd b = BSLASH")
  case True
  obtain y where "str s = BSLASH # y" using True elem_nonempty [OF assms(1)] assms(2) by (cases b) auto
  then show ?thesis using elem_backslash [OF assms(1) True assms(2)] by simp
next
  case False
  then show ?thesis using elem_plain [OF assms(1)] assms(2) by auto
qed

lemma genrange_elem:
  assumes "str s = CHR ''-'' # b @ r" "tr_elem b r u oct'" "0 \<le> lastch s" "\<not> oct \<Longrightarrow> lastch s < 256" "lastch s \<le> u"
  shows "genrange s oct = (True, if oct' \<or> oct then s\<lparr>str := r, cnt := u - lastch s + 1, state := RANGE, lastch := lastch s - 1\<rparr>
     else s\<lparr>str := r, cset_list := [lastch s..u] @ [OOBCH], cnt := 0, state := SET\<rparr>)"
proof -
  have st: "(case str (s\<lparr>str := tl (str s)\<rparr>) of [] \<Rightarrow> (0, False, s\<lparr>str := tl (str s)\<rparr>)
      | c # cs \<Rightarrow> if c = BSLASH then backslash (s\<lparr>str := tl (str s)\<rparr>) else (code c, False, s\<lparr>str := tl (str s), str := cs\<rparr>))
    = (u, oct', s\<lparr>str := r\<rparr>)"
    using range_stop [OF assms(2), of "s\<lparr>str := tl (str s)\<rparr>"] assms(1) by simp
  have u: "\<not> oct' \<Longrightarrow> u < 256" using elem_bounds [OF assms(2)] by simp
  have "\<not> oct' \<Longrightarrow> \<not> oct \<Longrightarrow> \<not> charcoll u (lastch s) < 0" using assms(3,4,5) u by (simp add: charcoll_def)
  moreover have "\<not> oct' \<Longrightarrow> filter (\<lambda>c. charcoll c (lastch (s\<lparr>str := r\<rparr>)) \<ge> 0 \<and> charcoll c u \<le> 0) [0..NCHARS_SB - 1] = [lastch s..u]"
    using filter_range [OF assms(3,5) u] by simp
  moreover have "sort_key (\<lambda>c. c mod 256) [lastch s..u] = [lastch s..u]" if "\<not> oct'" using sort_key_range [OF assms(3) u] that by simp
  ultimately show ?thesis
    unfolding genrange_def Let_def st prod.case using assms(5) by (cases "oct' \<or> oct") (simp_all only: if_True if_False de_Morgan_disj, auto)
qed

lemma scans_range:
  assumes "scans coll r cs" "tr_elem a (CHR ''-'' # b @ r) v oct" "a \<noteq> ''[''" "tr_elem b r u oct'" "v \<le> u"
  shows "scans coll (a @ CHR ''-'' # b @ r) ([v..u] @ cs)"
  unfolding scans_def
proof (intro allI impI)
  fix s :: STR_t assume s: "state s = NORMAL" "str s = a @ CHR ''-'' # b @ r" "length (equiv s) = 256"
  let ?t = "s\<lparr>lastch := v, str := CHR ''-'' # b @ r\<rparr>"
  define t where "t = (if oct' \<or> oct then ?t\<lparr>str := r, cnt := u - v + 1, state := RANGE, lastch := v - 1\<rparr>
     else ?t\<lparr>str := r, cset_list := [v..u] @ [OOBCH], cnt := 0, state := SET\<rparr>)"
  have v: "0 \<le> v" "\<not> oct \<Longrightarrow> v < 256" using elem_bounds [OF assms(2)] by simp_all
  have "genrange ?t oct = (True, t)" using genrange_elem [OF _ assms(4), of ?t oct] v assms(5) by (simp add: t_def)
  then have eq: "next_ch coll s = next_ch coll t" using next_ch_elem [OF assms(2,3) s(2,1)] by (simp add: start_range_def)
  have ok: "scan_ok coll t ([v..u] @ cs)"
  proof (cases "oct' \<or> oct")
    case True
    then show ?thesis using scan_RANGE [of coll t cs "nat (u - v + 1)"] assms(1,5) s(3) by (simp add: t_def)
  next
    case False
    then show ?thesis using v assms(1) s(3) by (intro scan_SET [where xs = "[]"]) (simp_all add: t_def)
  qed
  show "scan_ok coll s ([v..u] @ cs)" by (rule scan_ok_cong [OF eq ok]) (use assms(5) in simp)
qed

lemma bracket_next:
  assumes "state s = NORMAL" "str s = CHR ''['' # q" "bracket coll s = Inr (True, t)"
  shows "next_ch coll s = next_ch coll t"
  using assms by (simp add: next_ch_NORMAL next_normal_def)

lemma wctype_of_name:
  "wctype_of name = Some ty \<Longrightarrow> name \<noteq> [] \<and> CHR '']'' \<notin> set name"
  by (auto simp: wctype_of_def split: if_splits)

lemma class_nonempty: "filter (\<lambda>c. iswctype c ty) [0..127] \<noteq> []"
proof -
  have "\<exists>c \<in> set [0..127]. iswctype c ty"
    by (rule bexI [where x = "case ty of Alnum \<Rightarrow> 65 | Alpha \<Rightarrow> 65 | Blank \<Rightarrow> 32 | Cntrl \<Rightarrow> 0 | Digit \<Rightarrow> 48
       | Graph \<Rightarrow> 65 | Lower \<Rightarrow> 97 | Print \<Rightarrow> 65 | Punct \<Rightarrow> 33 | Space \<Rightarrow> 32 | Upper \<Rightarrow> 65 | Xdigit \<Rightarrow> 65
       | Rune \<Rightarrow> 0"]; cases ty) (simp_all add: wctype_defs)
  then show ?thesis by (auto simp: filter_empty_conv)
qed

lemma scans_class:
  assumes "scans coll r cs" "wctype_of name = Some ty"
  shows "scans coll (''[:'' @ name @ '':]'' @ r) (filter (\<lambda>c. iswctype c ty) [0..127] @ cs)"
  unfolding scans_def
proof (intro allI impI)
  fix s :: STR_t assume s: "state s = NORMAL" "str s = ''[:'' @ name @ '':]'' @ r" "length (equiv s) = 256"
  note name = wctype_of_name [OF assms(2)]
  have body: "takeWhile (\<lambda>x. x \<noteq> CHR '']'') (name @ '':]'' @ r) = name @ '':''"
    and rest: "dropWhile (\<lambda>x. x \<noteq> CHR '']'') (name @ '':]'' @ r) = CHR '']'' # r"
    using name break_at [of "CHR '']''" "name @ '':''" r] by simp_all
  obtain t where t: "bracket coll s = Inr (True, t)" "state t \<in> class_states" "lastch t = -1"
    "cclass t = ty" "str t = r" "length (equiv t) = 256"
    using s name assms(2) body rest
    by (auto simp: bracket_def Let_def strchr_def genclass_def nth_append)
  have eq: "next_ch coll s = next_ch coll t" using bracket_next [OF s(1) _ t(1)] s(2) by simp
  have ok: "scan_ok coll t (filter (\<lambda>c. iswctype c ty) [0..127] @ cs)"
    using scan_class [of coll t cs] assms(1) t by simp
  show "scan_ok coll s (filter (\<lambda>c. iswctype c ty) [0..127] @ cs)"
    by (rule scan_ok_cong [OF eq ok]) (use class_nonempty [of ty] in simp)
qed


text \<open>A bracket that holds a character and an asterisk is a repetition, whatever the character.\<close>

lemma bracket_count:
  assumes "str s = CHR ''['' # c # CHR ''*'' # ds @ CHR '']'' # r" and "\<forall>d \<in> set ds. isdigit d"
  shows "bracket coll s = (case genseq (s\<lparr>str := c # CHR ''*'' # ds @ CHR '']'' # r\<rparr>) of
    Inl e \<Rightarrow> Inl e | Inr s' \<Rightarrow> Inr (True, s'))"
proof -
  let ?q = "CHR ''*'' # ds @ CHR '']'' # r"
  have d: "\<forall>x \<in> set (CHR ''*'' # ds). x \<noteq> CHR '']'' \<and> x \<noteq> CHR '':'' \<and> x \<noteq> CHR ''=''"
    using assms(2) by (auto simp: isdigit_def iswdigit_def code_def)
  then have body: "takeWhile (\<lambda>x. x \<noteq> CHR '']'') ?q = CHR ''*'' # ds"
    and rest: "dropWhile (\<lambda>x. x \<noteq> CHR '']'') ?q = CHR '']'' # r"
    using break_at [of "CHR '']''" "CHR ''*'' # ds" r] by auto
  have l: "str s ! (length (CHR ''*'' # ds) + 1) = last (CHR ''*'' # ds)"
    using assms(1) by (simp add: last_conv_nth nth_append nth_Cons split: nat.splits)
  then have m: "str s ! (length (CHR ''*'' # ds) + 1) \<noteq> CHR '':''"
    "str s ! (length (CHR ''*'' # ds) + 1) \<noteq> CHR ''=''"
    using d last_in_set [of "CHR ''*'' # ds"] by auto
  have rep: "bracket_repeat s = (case genseq (s\<lparr>str := c # ?q\<rparr>) of
      Inl e \<Rightarrow> Inl e | Inr s' \<Rightarrow> Inr (True, s'))"
    using assms(1) rest by (simp add: bracket_repeat_def strpbrk_def strchr_def)
  show ?thesis
    using rep m body rest assms(1) by (simp add: bracket_def Let_def strchr_def)
qed

lemma bracket_escaped_count:
  assumes "str s = CHR ''['' # BSLASH # x @ CHR ''*'' # q" "set x \<inter> set ''*]'' = {}" "CHR '']'' \<in> set q"
  shows "bracket coll s = (case genseq (s\<lparr>str := BSLASH # x @ CHR ''*'' # q\<rparr>) of
    Inl e \<Rightarrow> Inl e | Inr s' \<Rightarrow> Inr (True, s'))"
proof -
  have 1: "dropWhile (\<lambda>c. c \<notin> set ''*]'') (x @ CHR ''*'' # q) = CHR ''*'' # q"
    using assms(2) by (induction x) auto
  have "dropWhile (\<lambda>c. c \<noteq> CHR '']'') (CHR ''*'' # q) \<noteq> []" using assms(3) by (auto simp: dropWhile_eq_Nil_conv)
  then obtain y where 2: "strchr (CHR ''*'' # q) CHR '']'' = Some y" by (cases "dropWhile (\<lambda>c. c \<noteq> CHR '']'') (CHR ''*'' # q)") (auto simp: strchr_def)
  show ?thesis using assms(1) 1 2 by (simp add: bracket_def bracket_repeat_def strpbrk_def Let_def)
qed

lemma bracket_elem:
  assumes "tr_elem t (CHR ''*'' # ds @ CHR '']'' # r) v oct" "set (tl t) \<inter> set ''*]'' = {}" "\<forall>d \<in> set ds. isdigit d"
    and "str s = CHR ''['' # t @ CHR ''*'' # ds @ CHR '']'' # r"
  shows "bracket coll s = (case genseq (s\<lparr>str := t @ CHR ''*'' # ds @ CHR '']'' # r\<rparr>) of
    Inl e \<Rightarrow> Inl e | Inr s' \<Rightarrow> Inr (True, s'))"
proof (cases "hd t = BSLASH")
  case True
  then obtain x where "t = BSLASH # x" using elem_nonempty [OF assms(1)] by (cases t) auto
  then show ?thesis using bracket_escaped_count [of s x "ds @ CHR '']'' # r"] assms(2,4) by simp
next
  case False
  then obtain c where "t = [c]" using elem_plain [OF assms(1)] by blast
  then show ?thesis using bracket_count [of s c ds r] assms(3,4) by simp
qed

lemma genseq_elem:
  assumes "tr_elem t (CHR ''*'' # q) v oct" "str s = t @ CHR ''*'' # q"
  shows "genseq s = (case (case q of [] \<Rightarrow> Inl IllegalCount
      | c # cs \<Rightarrow> if c = BSLASH then (let (v', _, s') = backslash (s\<lparr>lastch := v, str := q\<rparr>) in Inr (s'\<lparr>cnt := v'\<rparr>))
          else if c = CHR '']'' then Inr (s\<lparr>lastch := v, str := q, cnt := 0, str := cs\<rparr>)
          else if isdigit c then (let (n, ep) = strtol0 q in
             if ep \<noteq> [] \<and> hd ep = CHR '']'' then Inr (s\<lparr>lastch := v, str := q, cnt := c_int n, str := tl ep\<rparr>) else Inl IllegalCount)
          else Inl IllegalCount) of
        Inl e \<Rightarrow> Inl e | Inr s3 \<Rightarrow> Inr (s3\<lparr>state := (if cnt s3 \<noteq> 0 then SEQUENCE else INFINITE)\<rparr>))"
proof -
  have "(case str s of [] \<Rightarrow> s\<lparr>lastch := 0\<rparr> | c # cs \<Rightarrow> if c = BSLASH then (let (v, _, s') = backslash s in s'\<lparr>lastch := v\<rparr>)
       else s\<lparr>lastch := code c, str := cs\<rparr>) = s\<lparr>lastch := v, str := CHR ''*'' # q\<rparr>"
  proof (cases "hd t = BSLASH")
    case True
    then obtain x where "t = BSLASH # x" using elem_nonempty [OF assms(1)] by (cases t) auto
    then show ?thesis using elem_backslash [OF assms(1) True assms(2)] assms(2) by simp
  next
    case False
    then show ?thesis using elem_plain [OF assms(1)] assms(2) by auto
  qed
  then show ?thesis by (simp add: genseq_def Let_def split: list.split)
qed

lemma isdigit_not: "isdigit d \<Longrightarrow> d \<noteq> BSLASH \<and> d \<noteq> CHR '']''"
  by (auto simp: isdigit_def iswdigit_def code_def)

lemma scans_count:
  assumes "scans coll r cs" "tr_elem t (CHR ''*'' # ds @ CHR '']'' # r) v oct" "set (tl t) \<inter> set ''*]'' = {}"
    and "ds \<noteq> []" "\<forall>d \<in> set ds. isdigit d" "strtol0 (ds @ CHR '']'' # r) = (int n, CHR '']'' # r)" "0 < n" "n < 2 ^ 31"
  shows "scans coll (CHR ''['' # t @ CHR ''*'' # ds @ CHR '']'' # r) (replicate n v @ cs)"
  unfolding scans_def
proof (intro allI impI)
  fix s :: STR_t assume s: "state s = NORMAL" "str s = CHR ''['' # t @ CHR ''*'' # ds @ CHR '']'' # r" "length (equiv s) = 256"
  let ?t = "s\<lparr>lastch := v, str := r, cnt := int n, state := SEQUENCE\<rparr>"
  obtain d ds' where ds: "ds = d # ds'" using assms(4) by (cases ds) auto
  have d: "isdigit d" "d \<noteq> BSLASH" "d \<noteq> CHR '']''" using assms(5) ds isdigit_not by auto
  have n: "c_int (int n) = int n" using assms(8) by (simp add: c_int_id)
  have "genseq (s\<lparr>str := t @ CHR ''*'' # ds @ CHR '']'' # r\<rparr>) = Inr ?t"
    using genseq_elem [OF assms(2), of "s\<lparr>str := t @ CHR ''*'' # ds @ CHR '']'' # r\<rparr>"] assms(6,7) ds d n by simp
  then have "bracket coll s = Inr (True, ?t)" using bracket_elem [OF assms(2,3,5) s(2)] by simp
  then have eq: "next_ch coll s = next_ch coll ?t" using bracket_next s by metis
  have "scan_ok coll ?t (replicate n (lastch ?t) @ cs)" using assms(1) s(3) by (intro scan_SEQUENCE) simp_all
  then have ok: "scan_ok coll ?t (replicate n v @ cs)" by simp
  show "scan_ok coll s (replicate n v @ cs)" by (rule scan_ok_cong [OF eq ok]) (use assms(7) in simp)
qed

lemma scans_nil: "scans coll [] []"
  unfolding scans_def
proof (intro allI impI)
  fix s :: STR_t assume "state s = NORMAL" "str s = []"
  then have "next_ch coll s = Inr (False, s\<lparr>state := EOS\<rparr>)" by (subst next_ch.simps) simp
  then show "scan_ok coll s []" unfolding scan_ok_def using yields_stop by force
qed

lemma scans_repeat:
  assumes "tr_elem t (CHR ''*'' # ds @ '']'') v oct" "set (tl t) \<inter> set ''*]'' = {}"
    and "\<forall>d \<in> set ds. isdigit d" "ds = [] \<or> strtol0 (ds @ '']'') = (0, '']'')"
  shows "scans coll (CHR ''['' # t @ CHR ''*'' # ds @ '']'') [v]"
proof (rule scans_one [OF scans_nil])
  fix s :: STR_t assume s: "state s = NORMAL" "str s = CHR ''['' # t @ CHR ''*'' # ds @ '']''"
  let ?t = "s\<lparr>lastch := v, str := [], cnt := 0, state := INFINITE\<rparr>"
  have z: "c_int 0 = 0" by (simp add: c_int_id)
  have "genseq (s\<lparr>str := t @ CHR ''*'' # ds @ '']''\<rparr>) = Inr ?t"
  proof (cases ds)
    case Nil
    then show ?thesis using genseq_elem [OF assms(1), of "s\<lparr>str := t @ CHR ''*'' # ds @ '']''\<rparr>"] by simp
  next
    case (Cons d ds')
    then have "isdigit d" "d \<noteq> BSLASH" "d \<noteq> CHR '']''" using assms(3) isdigit_not by auto
    then show ?thesis
      using genseq_elem [OF assms(1), of "s\<lparr>str := t @ CHR ''*'' # ds @ '']''\<rparr>"] assms(4) Cons z by simp
  qed
  then have "bracket coll s = Inr (True, ?t)" using bracket_elem [OF assms(1,2,3) s(2)] by simp
  then have "next_ch coll s = next_ch coll ?t" using bracket_next s by metis
  also have "\<dots> = Inr (True, ?t\<lparr>state := NORMAL\<rparr>)" by (subst next_ch.simps) simp
  finally show "\<exists>s1. next_ch coll s = Inr (True, s1) \<and> state s1 = NORMAL \<and> str s1 = [] \<and> lastch s1 = v \<and> equiv s1 = equiv s" by simp
qed

subsection \<open>Equivalents\<close>

lemma elem_equiv_last:
  assumes "tr_elem t (''=]'' @ r) v oct" "CHR '']'' \<notin> set t"
  shows "bracket coll (s\<lparr>str := ''[='' @ t @ ''=]'' @ r\<rparr>) = (case genequiv coll (s\<lparr>str := t @ ''=]'' @ r\<rparr>) of
    Inl e \<Rightarrow> Inl e | Inr s' \<Rightarrow> Inr (True, s'))"
proof -
  have b: "takeWhile (\<lambda>x. x \<noteq> CHR '']'') (t @ ''=]'' @ r) = t @ ''=''"
    and d: "dropWhile (\<lambda>x. x \<noteq> CHR '']'') (t @ ''=]'' @ r) = CHR '']'' # r"
    using assms(2) break_at [of "CHR '']''" "t @ ''=''" r] by simp_all
  have "0 < length t" using elem_nonempty [OF assms(1)] by simp
  then show ?thesis using b d by (simp add: bracket_def strchr_def Let_def nth_append)
qed

lemma genequiv_elem:
  assumes "tr_elem t (''=]'' @ r) v oct" "str s = t @ ''=]'' @ r"
  shows "genequiv coll s = (case genequiv_fill coll (v # tl (equiv s)) of Inl e \<Rightarrow> Inl e
     | Inr eq \<Rightarrow> Inr (s\<lparr>str := r, equiv := eq, cnt := 0, state := SET, cset_list := eq\<rparr>))"
proof (cases "hd t = BSLASH")
  case True
  then obtain x where "t = BSLASH # x" using elem_nonempty [OF assms(1)] by (cases t) auto
  then show ?thesis using elem_backslash [OF assms(1) True assms(2)] assms(2) by (cases s) (simp add: genequiv_def Let_def split: sum.split)
next
  case False
  then show ?thesis using elem_plain [OF assms(1)] assms(2) by (cases s) (auto simp: genequiv_def Let_def split: sum.split)
qed

lemma equiv_class:
  assumes "coll v \<noteq> -1" "length (filter (\<lambda>c. coll c = coll v) [1..255]) \<le> 254" "length eq = 256"
  shows "\<exists>ys. genequiv_fill coll (v # tl eq) = Inr (v # filter (\<lambda>c. coll c = coll v) [1..255] @ OOBCH # ys)
     \<and> length (v # filter (\<lambda>c. coll c = coll v) [1..255] @ OOBCH # ys) = 256"
proof -
  have "filter (\<lambda>i. coll i \<noteq> -1 \<and> coll i = coll v) [1..NCHARS_SB - 1] = filter (\<lambda>c. coll c = coll v) [1..255]"
    using assms(1) by (intro filter_cong) auto
  then show ?thesis using assms by (simp add: genequiv_fill_def Let_def)
qed

lemma scans_equiv:
  assumes "scans coll r cs" "tr_elem t (''=]'' @ r) v oct" "CHR '']'' \<notin> set t" "coll v \<noteq> -1"
    and "length (filter (\<lambda>c. coll c = coll v) [1..255]) \<le> 254"
  shows "scans coll (''[='' @ t @ ''=]'' @ r) (v # filter (\<lambda>c. coll c = coll v) [1..255] @ cs)"
  unfolding scans_def
proof (intro allI impI)
  fix s :: STR_t assume s: "state s = NORMAL" "str s = ''[='' @ t @ ''=]'' @ r" "length (equiv s) = 256"
  let ?ms = "v # filter (\<lambda>c. coll c = coll v) [1..255]"
  obtain ys where ys: "genequiv_fill coll (v # tl (equiv s)) = Inr (?ms @ OOBCH # ys)" "length (?ms @ OOBCH # ys) = 256"
    using equiv_class [OF assms(4,5) s(3)] by auto
  let ?t = "s\<lparr>str := r, equiv := ?ms @ OOBCH # ys, cnt := 0, state := SET, cset_list := ?ms @ OOBCH # ys\<rparr>"
  have e: "s\<lparr>str := ''[='' @ t @ ''=]'' @ r\<rparr> = s" using s(2) by simp
  have g: "genequiv coll (s\<lparr>str := t @ ''=]'' @ r\<rparr>) = Inr ?t"
    using genequiv_elem [OF assms(2), of "s\<lparr>str := t @ ''=]'' @ r\<rparr>" coll] ys(1) by simp
  have "bracket coll s = Inr (True, ?t)" using elem_equiv_last [OF assms(2,3), of coll s] unfolding e g by simp
  then have eq: "next_ch coll s = next_ch coll ?t" using bracket_next [OF s(1)] s(2) by simp
  have "OOBCH \<notin> set ?ms" using elem_bounds [OF assms(2)] by auto
  then have ok: "scan_ok coll ?t (?ms @ cs)" using assms(1) ys(2) by (intro scan_SET [where xs = "[]" and zs = ys]) simp_all
  show "scan_ok coll s (v # filter (\<lambda>c. coll c = coll v) [1..255] @ cs)" using scan_ok_cong [OF eq ok] by simp
qed

lemmas scans_rules = scans_nil scans_elem scans_range scans_class scans_equiv scans_count scans_repeat

lemma tr_lang_scans: "tr_lang coll w q cs \<Longrightarrow> scans coll q cs"
  by (induction rule: tr_lang.induct) (rule scans_rules; assumption)+


subsection \<open>Further facts the callers use\<close>

lemma tr_lang_nonneg: "tr_lang coll w q cs \<Longrightarrow> \<forall>c \<in> set cs. 0 \<le> c"
  by (induction rule: tr_lang.induct) (auto dest: elem_bounds)

text \<open>A call of next on a scanner that still has \<open>ds\<close> to deliver; at the end it keeps its
  last character.\<close>

lemma scan_ok_next:
  assumes "scan_ok coll s ds"
  obtains b s' where "next_ch coll s = Inr (b, s')" and "b \<longleftrightarrow> ds \<noteq> []"
    and "lastch s' = hd (ds @ [lastch s])" and "scan_ok coll s' (tl ds)"
proof -
  obtain z where z: "yields coll s ds z" "state z = EOS" "lastch z = last (lastch s # ds)"
    using assms by (auto simp: scan_ok_def)
  from z(1) show ?thesis
  proof (cases rule: yields.cases)
    case yields_stop
    have "next_ch coll z = Inr (False, z)" using z(2) by (subst next_ch.simps) simp
    then have "scan_ok coll z []" using z(2) yields.yields_stop by (force simp: scan_ok_def)
    then show ?thesis using that [of False z] yields_stop z(3) by simp
  next
    case (yields_step s1 cs)
    have "lastch z = last (lastch s1 # cs)" using z(3) yields_step(1) by simp
    then have ok: "scan_ok coll s1 cs" using z(2) yields_step(3) unfolding scan_ok_def by blast
    show ?thesis
      by (rule that [OF yields_step(2)]) (simp_all add: yields_step(1) ok)
  qed
qed

text \<open>A string without brackets never brings the scanner into a class of one case.\<close>

definition plain_scanner :: "STR_t \<Rightarrow> bool" where
  "plain_scanner s \<longleftrightarrow> state s \<notin> class_states \<and> CHR ''['' \<notin> set (str s)"

lemma octal_digits_subset: "set (snd (snd (octal_digits c v s))) \<subseteq> set s"
  by (induction c v s rule: octal_digits.induct)
    (auto simp: octal_digits_Cons isoctal_iff [symmetric] split: if_splits)

lemma backslash_frame:
  assumes "backslash s = (v, oct, s')"
  shows "set (str s') \<subseteq> set (str s)" and "state s' = state s \<or> state s' = EOS"
  using assms octal_digits_subset [of 0 0 "tl (str s)"] list.set_sel(2) [of "str s"]
  by (cases "str s"; auto simp: backslash_def Let_def split: prod.splits list.splits if_splits)+

lemma genrange_frame:
  assumes "genrange s oct = (b, s')"
  shows "set (str s') \<subseteq> set (str s)" and "state s' = state s \<or> state s' \<in> {EOS, RANGE, SET}"
proof -
  obtain v o' s2 where b: "backslash (s\<lparr>str := tl (str s)\<rparr>) = (v, o', s2)" by (metis prod_cases3)
  have sub: "set (tl (str s)) \<subseteq> set (str s)" by (cases "str s") auto
  show "set (str s') \<subseteq> set (str s)"
    using assms backslash_frame [OF b] b sub
    by (auto simp: genrange_def Let_def split: list.splits if_splits)
  show "state s' = state s \<or> state s' \<in> {EOS, RANGE, SET}"
    using assms backslash_frame [OF b] b
    by (auto simp: genrange_def Let_def split: list.splits if_splits)
qed

lemma start_range_frame:
  assumes "start_range s oct = (b, s')"
  shows "set (str s') \<subseteq> set (str s)" and "state s' = state s \<or> state s' \<in> {EOS, RANGE, SET}"
  using assms genrange_frame [of s oct b s'] by (auto simp: start_range_def split: if_splits)

lemma next_normal_plain:
  assumes "plain_scanner s" and "str s = c # cs" and "next_normal coll s c cs = Inr (b, s')"
  shows "plain_scanner s'"
proof -
  have c: "c \<noteq> CHR ''[''" "CHR ''['' \<notin> set cs" using assms(1,2) by (auto simp: plain_scanner_def)
  obtain v o' s1 where e: "backslash s = (v, o', s1)" by (metis prod_cases3)
  show ?thesis
  proof (cases "c = BSLASH")
    case True
    have "start_range (s1\<lparr>lastch := v\<rparr>) o' = (b, s')" using assms(3) True e by (simp add: next_normal_def)
    then show ?thesis
      using start_range_frame backslash_frame [OF e] assms(1) by (fastforce simp: plain_scanner_def)
  next
    case False
    have "start_range (s\<lparr>lastch := code c, str := cs\<rparr>) False = (b, s')"
      using assms(3) False c by (simp add: next_normal_def)
    then show ?thesis using start_range_frame assms(1) c by (fastforce simp: plain_scanner_def)
  qed
qed

lemma next_ch_leave:
  assumes "state s \<noteq> NORMAL" and "plain_scanner s"
  obtains t where "next_ch coll s = next_ch coll t" "state t = NORMAL" "str t = str s"
  | b t where "next_ch coll s = Inr (b, t)" "plain_scanner t"
proof -
  let ?t = "s\<lparr>cnt := cnt s - 1, state := NORMAL\<rparr>" and ?u = "s\<lparr>cnt := cnt s + 1, state := NORMAL\<rparr>"
  have "next_ch coll s = next_ch coll ?t \<or> next_ch coll s = next_ch coll ?u \<or>
    (\<exists>b t. next_ch coll s = Inr (b, t) \<and> plain_scanner t)"
    using assms by (subst (1 3 5) next_ch.simps) (cases "state s"; force simp: plain_scanner_def Let_def)
  then show ?thesis using that(1) [of ?t] that(1) [of ?u] that(2) by auto
qed

lemma next_ch_plain_NORMAL:
  "state s = NORMAL \<Longrightarrow> plain_scanner s \<Longrightarrow> next_ch coll s = Inr (b, s') \<Longrightarrow> plain_scanner s'"
proof (induction "length (str s)" arbitrary: s rule: less_induct)
  case less
  show ?case
  proof (cases "str s")
    case Nil
    have "next_ch coll s = Inr (False, s\<lparr>state := EOS\<rparr>)" using less.prems(1) Nil by (subst next_ch.simps) simp
    then show ?thesis using less.prems by (auto simp: plain_scanner_def)
  next
    case (Cons c cs)
    note N = next_ch_NORMAL [OF less.prems(1) Cons, of coll]
    obtain b1 s1 where n: "next_normal coll s c cs = Inr (b1, s1)"
      using less.prems(3) N by (auto split: sum.splits)
    have p: "plain_scanner s1" by (rule next_normal_plain [OF less.prems(2) Cons n])
    have l: "length (str s1) < length (str s)" by (rule next_normal_length [OF n Cons])
    show ?thesis
    proof (cases b1)
      case True
      then have e: "next_ch coll s1 = Inr (b, s')" using less.prems(3) N n by simp
      show ?thesis
      proof (cases "state s1 = NORMAL")
        case True
        then show ?thesis using less.hyps [OF l] p e by simp
      next
        case False
        then show ?thesis
        proof (cases rule: next_ch_leave [OF False p, where coll = coll])
          case (1 t)
          then show ?thesis using less.hyps [of t] l p e by (simp add: plain_scanner_def)
        next
          case (2 b t)
          then show ?thesis using e by simp
        qed
      qed
    next
      case False
      then show ?thesis using less.prems(3) N n p by simp
    qed
  qed
qed

lemma next_ch_plain:
  assumes "plain_scanner s" and "next_ch coll s = Inr (b, s')"
  shows "plain_scanner s'"
proof (cases "state s = NORMAL")
  case True
  then show ?thesis using next_ch_plain_NORMAL assms by blast
next
  case False
  then show ?thesis
  proof (cases rule: next_ch_leave [OF False assms(1), where coll = coll])
    case (1 t)
    then show ?thesis using next_ch_plain_NORMAL [of t coll b s'] assms by (simp add: plain_scanner_def)
  next
    case (2 b t)
    then show ?thesis using assms(2) by simp
  qed
qed

end
