(* ===== verification/Tr.thy ===== *)
theory Tr
  imports Cset Cmap Tr_Str
begin

text \<open>
  The main program of tr: text_cmds/tr/tr.c behind the option loop. The flags are those
  getopt left (C and c exclude each other there), \<open>args\<close> the remaining arguments, \<open>input\<close>
  the characters read before WEOF. A run is \<open>None\<close> when it does not end, \<open>Some (Inl e)\<close>
  when it exits with an error and \<open>Some (Inr out)\<close> when it exits with 0 after writing
  \<open>out\<close>. Memory allocation succeeds throughout a run. \<open>past1\<close> and \<open>past2\<close> are the bytes
  behind the two argument strings.
\<close>

record tr_flags =
  Cflag :: bool
  cflag :: bool
  dflag :: bool
  sflag :: bool

abbreviation WCHAR_MAX :: int where "WCHAR_MAX \<equiv> 2147483647"

definition add_char :: "cset \<Rightarrow> wchar \<Rightarrow> tr_error + cset" where
  "add_char cs ch = (case cset_add True cs ch of
     None \<Rightarrow> Inl AssertionFailed | Some (_, cs') \<Rightarrow> Inr cs')"

definition add_if :: "bool \<Rightarrow> cset \<Rightarrow> wchar \<Rightarrow> tr_error + cset" where
  "add_if b cs ch = (if b then add_char cs ch else Inr cs)"

partial_function (option) setup_loop ::
  "(wchar \<Rightarrow> int) \<Rightarrow> STR_t \<Rightarrow> cset \<Rightarrow> (tr_error + STR_t \<times> cset) option"
where
  "setup_loop coll s cs =
     (case next_ch coll s of
        Inl e \<Rightarrow> Some (Inl e)
      | Inr (b, s') \<Rightarrow>
          if \<not> b then Some (Inr (s', cs))
          else (case add_char cs (lastch s') of
                  Inl e \<Rightarrow> Some (Inl e)
                | Inr cs' \<Rightarrow> setup_loop coll s' cs'))"

definition setup_finish :: "bool \<Rightarrow> bool \<Rightarrow> cset \<Rightarrow> cset" where
  "setup_finish cflg Cflg cs =
     (let cs1 = (if Cflg then snd (cset_addclass True cs Rune True) else cs);
          cs2 = (if cflg \<or> Cflg then cset_invert cs1 else cs1)
      in cset_cache cs2)"

definition setup_cset :: "(wchar \<Rightarrow> int) \<Rightarrow> STR_t \<Rightarrow> bool \<Rightarrow> bool \<Rightarrow> (tr_error + cset) option" where
  "setup_cset coll s cflg Cflg =
     (case cset_alloc [] True of
        None \<Rightarrow> Some (Inl NoMemory)
      | Some cs \<Rightarrow>
          map_option (\<lambda>r. case r of Inl e \<Rightarrow> Inl e | Inr (_, cs') \<Rightarrow> Inr (setup_finish cflg Cflg cs'))
            (setup_loop coll s cs))"

text \<open>The case-conversion loop of the translation: string1 is in a class of one case,
  string2 at the start of the class of the other. The flag of the result says that string1
  ended (the jump to endloop).\<close>

partial_function (option) case_loop ::
  "(wchar \<Rightarrow> int) \<Rightarrow> bool \<Rightarrow> STR_state \<Rightarrow> (wchar \<Rightarrow> wchar) \<Rightarrow> (wchar \<Rightarrow> bool) \<Rightarrow>
   STR_t \<Rightarrow> cmap \<Rightarrow> cset \<Rightarrow> (tr_error + bool \<times> STR_t \<times> cmap \<times> cset) option"
where
  "case_loop coll sflg st conv test s1 m q =
     (let ch = conv (lastch s1); m' = snd (cmap_add True m (lastch s1) ch) in
      case add_if (sflg \<and> test ch) q ch of
        Inl e \<Rightarrow> Some (Inl e)
      | Inr q' \<Rightarrow>
          (case next_ch coll s1 of
             Inl e \<Rightarrow> Some (Inl e)
           | Inr (b, s1') \<Rightarrow>
               if \<not> b then Some (Inr (True, s1', m', q'))
               else if state s1' = st \<and> cnt s1' > 1
               then case_loop coll sflg st conv test s1' m' q'
               else Some (Inr (False, s1', m', q'))))"

partial_function (option) skip_loop ::
  "(wchar \<Rightarrow> int) \<Rightarrow> STR_state \<Rightarrow> STR_t \<Rightarrow> (tr_error + STR_t) option"
where
  "skip_loop coll st s2 =
     (case next_ch coll s2 of
        Inl e \<Rightarrow> Some (Inl e)
      | Inr (b, s2') \<Rightarrow>
          if b \<and> state s2' = st \<and> cnt s2' > 1 then skip_loop coll st s2' else Some (Inr s2'))"

text \<open>The loop that builds the map. \<open>again\<close> says that control is at the label again, with a
  character of string1 read; otherwise it is at the loop head.\<close>

definition case_pair :: "STR_state \<Rightarrow> STR_state \<Rightarrow> STR_t \<Rightarrow> STR_t \<Rightarrow> bool" where
  "case_pair st1 st2 s1 s2 \<longleftrightarrow> state s1 = st1 \<and> state s2 = st2 \<and> cnt s1 = 1 \<and> cnt s2 = 1"

partial_function (option) map_loop ::
  "(wchar \<Rightarrow> int) \<Rightarrow> bool \<Rightarrow> bool \<Rightarrow> STR_t \<Rightarrow> STR_t \<Rightarrow> cmap \<Rightarrow> cset \<Rightarrow>
   (tr_error + STR_t \<times> cmap \<times> cset) option"
where
  "map_loop coll sflg again s1 s2 m q =
     (if \<not> again then
        (case next_ch coll s1 of
           Inl e \<Rightarrow> Some (Inl e)
         | Inr (b, s1') \<Rightarrow> if b then map_loop coll sflg True s1' s2 m q else Some (Inr (s2, m, q)))
      else if case_pair CCLASS_LOWER CCLASS_UPPER s1 s2 \<or> case_pair CCLASS_UPPER CCLASS_LOWER s1 s2 then
        (let low = (state s1 = CCLASS_LOWER) in
         Option.bind (case_loop coll sflg (state s1) (if low then towupper else towlower)
                        (if low then iswupper else iswlower) s1 m q)
           (\<lambda>r. case r of
                  Inl e \<Rightarrow> Some (Inl e)
                | Inr (ended, s1', m', q') \<Rightarrow>
                    if ended then Some (Inr (s2, m', q'))
                    else Option.bind (skip_loop coll (state s2) s2)
                           (\<lambda>r2. case r2 of
                                   Inl e \<Rightarrow> Some (Inl e)
                                 | Inr s2' \<Rightarrow> map_loop coll sflg True s1' s2' m' q')))
      else
        (let m' = snd (cmap_add True m (lastch s1) (lastch s2)) in
         case add_if sflg q (lastch s2) of
           Inl e \<Rightarrow> Some (Inl e)
         | Inr q' \<Rightarrow>
             (case next_ch coll s2 of
                Inl e \<Rightarrow> Some (Inl e)
              | Inr (_, s2') \<Rightarrow> map_loop coll sflg False s1 s2' m' q')))"

text \<open>The loop of -c: characters without a mapping take the characters of string2 in turn,
  the others keep their own.\<close>

function comp_loop ::
  "(wchar \<Rightarrow> int) \<Rightarrow> bool \<Rightarrow> bool \<Rightarrow> int \<Rightarrow> STR_t \<Rightarrow> cmap \<Rightarrow> cset \<Rightarrow> tr_error + STR_t \<times> cmap \<times> cset"
where
  "comp_loop coll Cflg sflg c s2 m q =
     (if c \<ge> WCHAR_MAX then Inr (s2, m, q)
      else if Cflg \<and> \<not> iswrune c then comp_loop coll Cflg sflg (c + 1) s2 m q
      else
        (let (v, m1) = cmap_lookup m c in
         case (if v = OOBCH then
                 (case next_ch coll s2 of
                    Inl e \<Rightarrow> Inl e
                  | Inr (b, s2') \<Rightarrow>
                      (case add_if sflg q (lastch s2') of
                         Inl e \<Rightarrow> Inl e
                       | Inr q' \<Rightarrow>
                           Inr (s2', if b then snd (cmap_add True m1 c (lastch s2')) else m1, q')))
               else Inr (s2, snd (cmap_add True m1 c c), q)) of
           Inl e \<Rightarrow> Inl e
         | Inr (s2', m2, q') \<Rightarrow>
             if (state s2' = EOS \<or> state s2' = INFINITE) \<and> c \<ge> cm_max m2 then Inr (s2', m2, q')
             else comp_loop coll Cflg sflg (c + 1) s2' m2 q'))"
  by pat_completeness auto
termination
  by (relation "measure (\<lambda>(coll, Cflg, sflg, c, s2, m, q). nat (WCHAR_MAX - c))") auto

text \<open>The two loops of -C in a single-byte locale.\<close>

fun carray_loop :: "int list \<Rightarrow> cmap \<Rightarrow> int list \<times> cmap" where
  "carray_loop [] m = ([], m)"
| "carray_loop (c # cs) m =
     (let (v, m1) = cmap_lookup m c in
      if v = OOBCH \<and> iswrune c then (let (p, m2) = carray_loop cs m1 in (c # p, m2))
      else carray_loop cs (snd (cmap_add True m1 c c)))"

fun assign_loop ::
  "(wchar \<Rightarrow> int) \<Rightarrow> bool \<Rightarrow> int list \<Rightarrow> STR_t \<Rightarrow> cmap \<Rightarrow> cset \<Rightarrow> tr_error + STR_t \<times> cmap \<times> cset"
where
  "assign_loop coll sflg [] s2 m q = Inr (s2, m, q)"
| "assign_loop coll sflg (c # cs) s2 m q =
     (case next_ch coll s2 of
        Inl e \<Rightarrow> Inl e
      | Inr (_, s2') \<Rightarrow>
          (case add_if sflg q (lastch s2') of
             Inl e \<Rightarrow> Inl e
           | Inr q' \<Rightarrow> assign_loop coll sflg cs s2' (snd (cmap_add True m c (lastch s2'))) q'))"

definition complement_map ::
  "(wchar \<Rightarrow> int) \<Rightarrow> tr_flags \<Rightarrow> string \<Rightarrow> STR_t \<Rightarrow> cmap \<Rightarrow> cset \<Rightarrow> tr_error + cmap \<times> cset"
where
  "complement_map coll fl arg2 s2 m q =
     (let s2' = s2\<lparr>str := arg2, state := NORMAL\<rparr> in
      if cflag fl then
        (case comp_loop coll (Cflag fl) (sflag fl) 0 s2' m q of
           Inl e \<Rightarrow> Inl e
         | Inr (s2'', m', q') \<Rightarrow> Inr (snd (cmap_default m' (lastch s2'')), q'))
      else if Cflag fl then
        (let (p, m1) = carray_loop [0..NCHARS_SB - 1] m;
             p' = (if length p > 1 then sort_key (\<lambda>c. c mod 256) p else p) in
         case assign_loop coll (sflag fl) p' s2' m1 q of
           Inl e \<Rightarrow> Inl e
         | Inr (_, m', q') \<Rightarrow> Inr (m', q'))
      else Inr (m, q))"

definition translate_output :: "tr_flags \<Rightarrow> cmap \<Rightarrow> cset \<Rightarrow> wchar list \<Rightarrow> wchar list" where
  "translate_output fl m q input =
     (let q' = cset_cache q; m' = cmap_cache m in
      if sflag fl then translate_squeeze_loop cmap_lookup m' (Cflag fl) cset_in q' OOBCH input
      else translate_loop cmap_lookup m' (Cflag fl) input)"

text \<open>Results of the set-up calls passed on to the input loops.\<close>

definition run_with :: "(tr_error + 'a) option \<Rightarrow> ('a \<Rightarrow> (tr_error + 'b) option) \<Rightarrow> (tr_error + 'b) option" where
  "run_with r k = (case r of None \<Rightarrow> None | Some (Inl e) \<Rightarrow> Some (Inl e) | Some (Inr x) \<Rightarrow> k x)"

definition tr_translate ::
  "(wchar \<Rightarrow> int) \<Rightarrow> tr_flags \<Rightarrow> STR_t \<Rightarrow> STR_t \<Rightarrow> wchar list \<Rightarrow> (tr_error + wchar list) option"
where
  "tr_translate coll fl s1 s2 input =
     (case (cmap_alloc [] True, cset_alloc [] True) of
        (Some m0, Some q0) \<Rightarrow>
          (let m = (if Cflag fl \<or> cflag fl then snd (cmap_default m0 OOBCH) else m0) in
           case next_ch coll s2 of
             Inl e \<Rightarrow> Some (Inl e)
           | Inr (False, _) \<Rightarrow> Some (Inl EmptyString2)
           | Inr (True, s2') \<Rightarrow>
               run_with (map_loop coll (sflag fl) False s1 s2' m q0)
                 (\<lambda>(s2'', m', q'). case complement_map coll fl (str s2) s2'' m' q' of
                      Inl e \<Rightarrow> Some (Inl e)
                    | Inr (m'', q'') \<Rightarrow> Some (Inr (translate_output fl m'' q'' input))))
      | _ \<Rightarrow> Some (Inl NoMemory))"

definition tr_main ::
  "(wchar \<Rightarrow> int) \<Rightarrow> string \<Rightarrow> string \<Rightarrow> tr_flags \<Rightarrow> string list \<Rightarrow> wchar list \<Rightarrow> (tr_error + wchar list) option"
where
  "tr_main coll past1 past2 fl args input =
     (if length args \<noteq> 1 \<and> length args \<noteq> 2 then Some (Inl Usage)
      else
        (let isstring2 = (length args = 2);
             s1 = STR_init STRING1 (hd args) past1;
             s2 = STR_init STRING2 (if isstring2 then args ! 1 else []) past2 in
         if dflag fl \<and> sflag fl then
           (if \<not> isstring2 then Some (Inl Usage)
            else run_with (setup_cset coll s1 (cflag fl) (Cflag fl))
                   (\<lambda>del. run_with (setup_cset coll s2 False False)
                     (\<lambda>sqz. Some (Inr (delete_squeeze_loop cset_in del cset_in sqz OOBCH input)))))
         else if dflag fl then
           (if isstring2 then Some (Inl Usage)
            else run_with (setup_cset coll s1 (cflag fl) (Cflag fl))
                   (\<lambda>del. Some (Inr (delete_loop cset_in del input))))
         else if sflag fl \<and> \<not> isstring2 then
           run_with (setup_cset coll s1 (cflag fl) (Cflag fl))
             (\<lambda>sqz. Some (Inr (squeeze_loop cset_in sqz OOBCH input)))
         else if \<not> isstring2 then Some (Inl Usage)
         else tr_translate coll fl s1 s2 input))"



subsection \<open>Building sets\<close>

lemma add_char_correct:
  assumes "cset_inv cs" and "\<not> cs_invert cs"
  obtains cs' where "add_char cs ch = Inr cs'" and "cset_inv cs'" and "\<not> cs_invert cs'"
    and "cset_chars cs' = insert ch (cset_chars cs)"
proof -
  obtain b cs' where "cset_add True cs ch = Some (b, cs')" "b" "cset_inv cs'" "cs_invert cs' = cs_invert cs"
    "cset_chars cs' = insert ch (cset_chars cs)"
    using cset_add_correct [OF assms(1), of True ch] assms(2) by metis
  then show ?thesis using that [of cs'] assms(2) by (simp add: add_char_def)
qed


lemma setup_loop_yields:
  assumes "yields coll s cs s'" and "cset_inv q" and "\<not> cs_invert q"
  shows "\<exists>q'. setup_loop coll s q = Some (Inr (s', q')) \<and> cset_inv q' \<and> \<not> cs_invert q' \<and>
    cset_chars q' = cset_chars q \<union> set cs"
  using assms
proof (induction arbitrary: q rule: yields.induct)
  case (yields_stop s s')
  then show ?case by (subst setup_loop.simps) simp
next
  case (yields_step s s1 cs s')
  obtain q1 where q1: "add_char q (lastch s1) = Inr q1" "cset_inv q1" "\<not> cs_invert q1"
    "cset_chars q1 = insert (lastch s1) (cset_chars q)"
    using add_char_correct [OF yields_step.prems] by metis
  have "setup_loop coll s q = setup_loop coll s1 q1"
    using yields_step.hyps(1) q1(1) by (subst setup_loop.simps) simp
  then show ?case using yields_step.IH [OF q1(2,3)] q1(4) by auto
qed

text \<open>The characters an argument selects: its own, the complement (-c), or the other
  characters of the locale (-C).\<close>

definition selected :: "bool \<Rightarrow> bool \<Rightarrow> wchar set \<Rightarrow> wchar set" where
  "selected cflg Cflg S = (if Cflg then {c. iswrune c} - S else if cflg then - S else S)"

lemma setup_finish_correct:
  assumes "cset_inv q" and "\<not> cs_invert q"
  shows "cset_inv (setup_finish cflg Cflg q)"
    and "cset_chars (setup_finish cflg Cflg q) = selected cflg Cflg (cset_chars q)"
proof -
  obtain b q1 where q1: "cset_addclass True q Rune True = (b, q1)" by (metis surj_pair)
  note A = cset_addclass_correct [OF assms(1) q1]
  let ?r = "if Cflg then q1 else q"
  have r: "cset_inv ?r" "cset_chars ?r = (if Cflg then cset_chars q \<union> {c. \<not> iswrune c} else cset_chars q)"
    using A assms by auto
  let ?t = "if cflg \<or> Cflg then cset_invert ?r else ?r"
  have t: "cset_inv ?t" "cset_chars ?t = selected cflg Cflg (cset_chars q)"
    using cset_invert_correct [OF r(1)] r by (auto simp: selected_def)
  have "setup_finish cflg Cflg q = cset_cache ?t" by (simp add: setup_finish_def Let_def q1)
  then show "cset_inv (setup_finish cflg Cflg q)"
    "cset_chars (setup_finish cflg Cflg q) = selected cflg Cflg (cset_chars q)"
    using cset_cache_correct [OF t(1)] t(2) by simp_all
qed

lemma setup_correct:
  assumes "tr_lang coll w arg cs" and "str s = arg" and "state s = NORMAL" and "length (equiv s) = 256"
  obtains q where "setup_cset coll s cflg Cflg = Some (Inr q)" and "cset_inv q"
    and "cset_chars q = selected cflg Cflg (set cs)"
proof -
  obtain s' where y: "yields coll s cs s'"
    using scansD [OF tr_lang_scans [OF assms(1)]] assms(2-4) unfolding scan_ok_def by metis
  obtain q0 where q0: "cset_alloc [] True = Some q0" by (simp add: cset_alloc_def)
  note Q = cset_alloc_correct [OF q0]
  obtain q1 where "setup_loop coll s q0 = Some (Inr (s', q1))" "cset_inv q1" "\<not> cs_invert q1"
    "cset_chars q1 = set cs"
    using setup_loop_yields [OF y Q(1)] Q by auto
  then show ?thesis
    using that [of "setup_finish cflg Cflg q1"] setup_finish_correct [of q1 cflg Cflg]
    by (simp add: setup_cset_def q0)
qed

lemma STR_init_simps [simp]:
  "str (STR_init w a p) = a" "state (STR_init w a p) = NORMAL" "length (equiv (STR_init w a p)) = 256"
  by (simp_all add: STR_init_def)

subsection \<open>Deleting and squeezing\<close>

text \<open>
  tr -d with a string of the documented language ends, reports no error, and writes
  exactly the input characters outside the selected set, in order; -c and -C select the
  complement.
\<close>

theorem tr_delete:
  assumes "tr_lang coll w a cs" and "dflag fl" and "\<not> sflag fl" and "\<forall>c \<in> set input. 0 \<le> c"
  shows "tr_main coll p1 p2 fl [a] input =
    Some (Inr (filter (\<lambda>c. c \<notin> selected (cflag fl) (Cflag fl) (set cs)) input))"
proof -
  obtain q where "setup_cset coll (STR_init STRING1 a p1) (cflag fl) (Cflag fl) = Some (Inr q)" "cset_inv q"
    "cset_chars q = selected (cflag fl) (Cflag fl) (set cs)"
    using setup_correct [OF assms(1)] by (metis STR_init_simps)
  then show ?thesis
    using assms(2-4) tr_set.delete_loop_filter [of q input] by (simp add: tr_main_def Let_def run_with_def)
qed

text \<open>
  tr -s with one string collapses every run of a selected character to one occurrence
  and leaves every other character alone.
\<close>

theorem tr_squeeze:
  assumes "tr_lang coll w a cs" and "\<not> dflag fl" and "sflag fl" and "\<forall>c \<in> set input. 0 \<le> c"
  shows "tr_main coll p1 p2 fl [a] input =
    Some (Inr (squeeze (selected (cflag fl) (Cflag fl) (set cs)) input))"
proof -
  obtain q where "setup_cset coll (STR_init STRING1 a p1) (cflag fl) (Cflag fl) = Some (Inr q)" "cset_inv q"
    "cset_chars q = selected (cflag fl) (Cflag fl) (set cs)"
    using setup_correct [OF assms(1)] by (metis STR_init_simps)
  then show ?thesis
    using assms(2-4) tr_set.squeeze_loop_squeeze [of q input] by (simp add: tr_main_def Let_def run_with_def)
qed

text \<open>
  tr -ds deletes the characters the first string selects and squeezes those of the
  second in what is left: a deleted character between two equal ones does not keep them apart.
\<close>

theorem tr_delete_squeeze:
  assumes "tr_lang coll w a cs" and "tr_lang coll w' b ds" and "dflag fl" and "sflag fl" and "\<forall>c \<in> set input. 0 \<le> c"
  shows "tr_main coll p1 p2 fl [a, b] input =
    Some (Inr (squeeze (set ds) (filter (\<lambda>c. c \<notin> selected (cflag fl) (Cflag fl) (set cs)) input)))"
proof -
  obtain q where q: "setup_cset coll (STR_init STRING1 a p1) (cflag fl) (Cflag fl) = Some (Inr q)" "cset_inv q"
    "cset_chars q = selected (cflag fl) (Cflag fl) (set cs)"
    using setup_correct [OF assms(1)] by (metis STR_init_simps)
  obtain r where r: "setup_cset coll (STR_init STRING2 b p2) False False = Some (Inr r)" "cset_inv r"
    "cset_chars r = selected False False (set ds)"
    using setup_correct [OF assms(2)] by (metis STR_init_simps)
  then have "cset_chars r = set ds" by (simp add: selected_def)
  then show ?thesis
    using q r assms(3-5) tr_sets.delete_squeeze_loop_spec [of q r input]
    by (simp add: tr_main_def Let_def run_with_def)
qed


subsection \<open>Translating\<close>


definition overlay :: "('a \<times> 'a) list \<Rightarrow> ('a \<Rightarrow> 'a) \<Rightarrow> 'a \<Rightarrow> 'a" where
  "overlay ps f c = (case map_of (rev ps) c of Some d \<Rightarrow> d | None \<Rightarrow> f c)"

lemma overlay_Nil [simp]: "overlay [] f = f"
  by (simp add: overlay_def fun_eq_iff)








subsection \<open>An open repetition that is not last\<close>

lemma next_ch_open_repeat:
  "state s = INFINITE \<Longrightarrow> str s \<noteq> [] \<Longrightarrow> next_ch coll s = Inr (True, s)"
  by (subst next_ch.simps) simp

lemma setup_loop_open_repeat:
  assumes "setup_loop coll s q = Some r"
  shows "state s = INFINITE \<and> str s \<noteq> [] \<and> cset_inv q \<and> \<not> cs_invert q \<Longrightarrow> False"
proof (rule setup_loop.raw_induct [where P = "\<lambda>coll s q r.
    state s = INFINITE \<and> str s \<noteq> [] \<and> cset_inv q \<and> \<not> cs_invert q \<longrightarrow> False", OF _ assms, THEN mp])
  fix loop :: "(wchar \<Rightarrow> int) \<Rightarrow> STR_t \<Rightarrow> cset \<Rightarrow> (tr_error + STR_t \<times> cset) option" and coll s q r
  assume IH: "\<And>coll s q r. loop coll s q = Some r \<Longrightarrow>
        state s = INFINITE \<and> str s \<noteq> [] \<and> cset_inv q \<and> \<not> cs_invert q \<longrightarrow> False"
    and eq: "(case next_ch coll s of
         Inl e \<Rightarrow> Some (Inl e)
       | Inr (b, s') \<Rightarrow> if \<not> b then Some (Inr (s', q))
           else (case add_char q (lastch s') of Inl e \<Rightarrow> Some (Inl e) | Inr cs' \<Rightarrow> loop coll s' cs')) = Some r"
  show "state s = INFINITE \<and> str s \<noteq> [] \<and> cset_inv q \<and> \<not> cs_invert q \<longrightarrow> False"
  proof
    assume h: "state s = INFINITE \<and> str s \<noteq> [] \<and> cset_inv q \<and> \<not> cs_invert q"
    obtain q' where q': "add_char q (lastch s) = Inr q'" "cset_inv q'" "\<not> cs_invert q'"
      using add_char_correct h by metis
    have "loop coll s q' = Some r" using eq next_ch_open_repeat [of s coll] h q'(1) by simp
    then show False using IH q' h by blast
  qed
qed

text \<open>
  C39. An open repetition that does not end its string, as in [a*]b, makes the scanner return
  1 for ever: tr -d with such a string never comes to its input.
\<close>

theorem tr_open_repeat_never_ends:
  assumes "r \<noteq> []" and "dflag fl" and "\<not> sflag fl" and "c \<noteq> BSLASH"
  shows "tr_main coll p1 p2 fl [[CHR ''['', c, CHR ''*'', CHR '']''] @ r] input = None"
proof -
  let ?a = "[CHR ''['', c, CHR ''*'', CHR '']''] @ r"
  let ?s = "STR_init STRING1 ?a p1"
  let ?t = "?s\<lparr>lastch := code c, str := r, cnt := 0, state := INFINITE\<rparr>"
  have "bracket coll ?s = Inr (True, ?t)"
    using bracket_count [of ?s c "[]" r coll] assms(4) by (simp add: genseq_def Let_def)
  then have n: "next_ch coll ?s = Inr (True, ?t)"
    using bracket_next [of ?s] next_ch_open_repeat [of ?t coll] assms(1) by simp
  obtain q0 where q0: "cset_alloc [] True = Some q0" by (simp add: cset_alloc_def)
  obtain q' where q': "add_char q0 (code c) = Inr q'" "cset_inv q'" "\<not> cs_invert q'"
    using add_char_correct cset_alloc_correct(1,3) [OF q0] by metis
  have "setup_loop coll ?s q0 = setup_loop coll ?t q'"
    using n q'(1) by (subst setup_loop.simps) simp
  moreover have "setup_loop coll ?t q' = None"
    using setup_loop_open_repeat [of coll ?t q'] q'(2,3) assms(1) by (cases "setup_loop coll ?t q'") auto
  ultimately have "setup_cset coll ?s (cflag fl) (Cflag fl) = None" by (simp add: setup_cset_def q0)
  then show ?thesis using assms(2,3) by (simp add: tr_main_def Let_def run_with_def)
qed


subsection \<open>Concrete runs\<close>

lemma lang_a_to_c: "tr_lang coll w ''a-c'' [97, 98, 99]"
  using tr_lang.lang_range [OF tr_lang.lang_nil elem_char _ elem_char, of "CHR ''a''" "CHR ''c''" coll w] by (simp add: code_def)

lemma lang_x_to_z: "tr_lang coll w ''x-z'' [120, 121, 122]"
  using tr_lang.lang_range [OF tr_lang.lang_nil elem_char _ elem_char, of "CHR ''x''" "CHR ''z''" coll w] by (simp add: code_def)

abbreviation flags_of :: "bool \<Rightarrow> bool \<Rightarrow> bool \<Rightarrow> bool \<Rightarrow> tr_flags" where
  "flags_of C c d s \<equiv> \<lparr>Cflag = C, cflag = c, dflag = d, sflag = s\<rparr>"

theorem tr_delete_witness:
  "tr_main (\<lambda>_. -1) [] [] (flags_of False True True False) [''a-c''] [97, 120, 99] = Some (Inr [97, 99])"
  using tr_delete [OF lang_a_to_c, of "flags_of False True True False" "[97, 120, 99]" "\<lambda>_. -1" "[]" "[]"]
  by (simp add: selected_def)

theorem tr_squeeze_witness:
  "tr_main (\<lambda>_. -1) [] [] (flags_of False False False True) [''a-c''] [97, 97, 120, 120, 98, 98] =
    Some (Inr [97, 120, 120, 98])"
  using tr_squeeze [OF lang_a_to_c, of "flags_of False False False True" "[97, 97, 120, 120, 98, 98]" "\<lambda>_. -1" "[]" "[]"]
  by (simp add: selected_def)

theorem tr_delete_squeeze_witness:
  "tr_main (\<lambda>_. -1) [] [] (flags_of False False True True) [''a-c'', ''x-z''] [120, 97, 120, 50, 50] =
    Some (Inr [120, 50, 50])"
  using tr_delete_squeeze [OF lang_a_to_c lang_x_to_z, of "flags_of False False True True"
      "[120, 97, 120, 50, 50]" "\<lambda>_. -1" "[]" "[]"]
  by (simp add: selected_def)


theorem tr_open_repeat_witness:
  "tr_main (\<lambda>_. -1) [] [] (flags_of False False True False) [''[a*]b''] [97] = None"
  using tr_open_repeat_never_ends [of "''b''" "flags_of False False True False" "CHR ''a''" "\<lambda>_. -1" "[]" "[]" "[97]"]
  by simp




end
