(* ===== verification/Calendar.thy ===== *)
theory Calendar
  imports Cmd_Prelude
begin

text \<open>
  The date arithmetic of cal and ncal: misc_cmds/ncal/calendar.c and easter.c. Dates are
  (year, month, day) records; the internal representation starts the year on March 1st and
  counts months and days from zero. C's integer division truncates towards zero, which is
  the library's \<open>sdiv\<close> and \<open>smod\<close>. The statically cached day numbers (nswitch, nmonday) are
  the values of the expressions they cache. Years are far below the overflow of an int.
\<close>

record date =
  date_y :: int
  date_m :: int
  date_d :: int

abbreviation mk_date :: "int \<Rightarrow> int \<Rightarrow> int \<Rightarrow> date" where
  "mk_date y m d \<equiv> \<lparr>date_y = y, date_m = m, date_d = d\<rparr>"

definition month1 :: "int list" where
  "month1 = [0, 31, 61, 92, 122, 153, 184, 214, 245, 275, 306, 337]"

definition month1s :: "int list" where
  "month1s = [0, 31, 61, 92, 122, 153, 184, 214, 235, 265, 296, 327]"

definition jiswitch :: date where "jiswitch = mk_date 1582 7 3"

definition date2idt :: "date \<Rightarrow> date option" where
  "date2idt dt =
     (let idt = (if date_m dt > 2 then mk_date (date_y dt) (date_m dt - 3) (date_d dt - 1)
                 else mk_date (date_y dt - 1) (date_m dt + 9) (date_d dt - 1)) in
      if date_m idt < 0 \<or> date_m idt > 11 \<or> date_y idt < 0 then None else Some idt)"

definition idt2date :: "date \<Rightarrow> date option" where
  "idt2date idt =
     (let dt = (if date_m idt < 10 then mk_date (date_y idt) (date_m idt + 3) (date_d idt + 1)
                else mk_date (date_y idt + 1) (date_m idt - 9) (date_d idt + 1)) in
      if date_m dt < 1 then None else Some dt)"

definition ndaysji :: "date \<Rightarrow> int" where
  "ndaysji idt = date_d idt + month1 ! nat (date_m idt) + date_y idt * 365 + date_y idt sdiv 4"

definition nswitch :: int where "nswitch = ndaysji jiswitch"

definition ndaysj :: "date \<Rightarrow> int" where
  "ndaysj dt = (case date2idt dt of None \<Rightarrow> -1 | Some idt \<Rightarrow> ndaysji idt)"

definition ndaysgi :: "date \<Rightarrow> int" where
  "ndaysgi idt =
     (let nd = ndaysji idt in
      if nd = -1 then -1
      else if date_y idt \<ge> 1600 then nd - 10 - (date_y idt - 1600) sdiv 100 + (date_y idt - 1600) sdiv 400
      else if nd > nswitch then nd - 10
      else nd)"

definition ndaysg :: "date \<Rightarrow> int" where
  "ndaysg dt = (case date2idt dt of None \<Rightarrow> -1 | Some idt \<Rightarrow> ndaysgi idt)"

text \<open>The month search: the greatest month whose table entry does not exceed \<open>r\<close>.\<close>

fun month_search :: "int list \<Rightarrow> int \<Rightarrow> nat \<Rightarrow> nat" where
  "month_search t r 0 = 0"
| "month_search t r (Suc m) = (if t ! Suc m > r then month_search t r m else Suc m)"

subsection \<open>Truncating division on the values that occur\<close>

lemma sdiv_nonneg: "0 \<le> (x::int) \<Longrightarrow> 0 < k \<Longrightarrow> x sdiv k = x div k"
  by (cases "x = 0") (simp_all add: signed_divide_int_def sgn_if)

lemma smod_nonneg: "0 \<le> (x::int) \<Longrightarrow> 0 < k \<Longrightarrow> x smod k = x mod k"
  by (simp add: smod_int_alt_def sgn_if)

lemma sdiv_neg: "(x::int) < 0 \<Longrightarrow> 0 < k \<Longrightarrow> x sdiv k = - ((- x) div k)"
  by (simp add: signed_divide_int_def sgn_if)

lemma sdiv_mono:
  assumes "(x::int) \<le> y" "0 < k"
  shows "x sdiv k \<le> y sdiv k"
proof -
  consider "0 \<le> x" | "x < 0" "0 \<le> y" | "y < 0" by linarith
  then show ?thesis
  proof cases
    case 1
    then show ?thesis using assms by (simp add: sdiv_nonneg zdiv_mono1)
  next
    case 2
    have "- ((- x) div k) \<le> 0" using 2 assms by (simp add: pos_imp_zdiv_nonneg_iff)
    moreover have "0 \<le> y div k" using 2 assms by (simp add: pos_imp_zdiv_nonneg_iff)
    ultimately show ?thesis using 2 assms by (simp add: sdiv_neg sdiv_nonneg)
  next
    case 3
    then show ?thesis using assms by (simp add: sdiv_neg zdiv_mono1)
  qed
qed

lemma div_succ:
  assumes "0 < (k::int)"
  shows "(y + 1) div k = y div k + (if k dvd y + 1 then 1 else 0)"
proof (cases "k dvd y + 1")
  case True
  then obtain q where q: "y + 1 = k * q" by (auto simp: dvd_def)
  then have "y = k * (q - 1) + (k - 1)" by (simp add: algebra_simps)
  then have "y div k = q - 1" using assms by (intro int_div_pos_eq [where r = "k - 1"]) auto
  then show ?thesis using q True assms by simp
next
  case False
  have "y + 1 = k * (y div k) + (y mod k + 1)" by (simp add: algebra_simps)
  moreover have "y mod k + 1 < k"
  proof (rule ccontr)
    assume "\<not> y mod k + 1 < k"
    then have "y mod k + 1 = k" using pos_mod_bound [OF assms, of y] by simp
    then have "y + 1 = k * (y div k + 1)" using calculation by (simp add: algebra_simps)
    then show False using False by simp
  qed
  ultimately have "(y + 1) div k = y div k"
    using assms pos_mod_sign [OF assms, of y] by (intro int_div_pos_eq [where r = "y mod k + 1"]) auto
  then show ?thesis using False by simp
qed


subsection \<open>Year starts\<close>

lemma nswitch_value: "nswitch = 578042"
  by (simp add: nswitch_def jiswitch_def ndaysji_def month1_def sdiv_nonneg)

definition jstart :: "int \<Rightarrow> int" where "jstart y = y * 365 + y sdiv 4"
definition gstart :: "int \<Rightarrow> int" where "gstart y = ndaysgi (mk_date y 0 0)"

lemma ndaysji_start: "ndaysji (mk_date y 0 0) = jstart y"
  by (simp add: ndaysji_def jstart_def month1_def)

lemma jstart_pred: "jstart (y - 1) + 365 \<le> jstart y"
  using sdiv_mono [of "y - 1" y 4] by (simp add: jstart_def)

lemma gstart_eq:
  "gstart y = (if y \<ge> 1600 then jstart y - 10 - (y - 1600) div 100 + (y - 1600) div 400
     else if jstart y > 578042 then jstart y - 10 else jstart y)"
proof -
  have "jstart y \<noteq> -1"
  proof
    assume h: "jstart y = -1"
    have "jstart 0 = 0" "jstart (-1) = -365" by (simp_all add: jstart_def signed_divide_int_def)
    moreover have "y \<ge> 0 \<Longrightarrow> jstart 0 \<le> jstart y" "y < 0 \<Longrightarrow> jstart y \<le> jstart (-1)"
      unfolding jstart_def using sdiv_mono [of 0 y 4] sdiv_mono [of y "-1" 4] by simp_all
    ultimately show False using h by linarith
  qed
  then show ?thesis
    by (simp add: gstart_def ndaysgi_def ndaysji_start nswitch_value Let_def sdiv_nonneg)
qed

lemma gstart_pred: "gstart (y - 1) < gstart y"
proof -
  consider "y \<ge> 1601" | "y = 1600" | "y < 1600" by linarith
  then show ?thesis
  proof cases
    case 1
    have "(y - 1600) div 100 \<le> (y - 1 - 1600) div 100 + 1" "(y - 1 - 1600) div 400 \<le> (y - 1600) div 400"
      using div_succ [of 100 "y - 1 - 1600"] div_succ [of 400 "y - 1 - 1600"] by (simp_all split: if_splits)
    then show ?thesis using 1 jstart_pred [of y] by (simp add: gstart_eq)
  next
    case 2
    then show ?thesis by (simp add: gstart_eq jstart_def signed_divide_int_def)
  next
    case 3
    then show ?thesis using jstart_pred [of y] by (simp add: gstart_eq)
  qed
qed

text \<open>The linear year searches of jdate and gdate.\<close>

function jyear :: "int \<Rightarrow> int \<Rightarrow> int" where
  "jyear ndays y = (if ndaysji (mk_date y 0 0) > ndays then jyear ndays (y - 1) else y)"
  by pat_completeness auto
termination
proof (relation "measure (\<lambda>(ndays, y). nat (jstart y - ndays))", goal_cases)
  case (2 ndays y)
  then show ?case using jstart_pred [of y] by (simp add: ndaysji_start)
qed simp

function gyear :: "int \<Rightarrow> int \<Rightarrow> int" where
  "gyear ndays y = (if ndaysgi (mk_date y 0 0) > ndays then gyear ndays (y - 1) else y)"
  by pat_completeness auto
termination
proof (relation "measure (\<lambda>(ndays, y). nat (gstart y - ndays))", goal_cases)
  case (2 ndays y)
  then show ?case using gstart_pred [of y] by (simp add: gstart_def)
qed simp

declare jyear.simps [simp del] gyear.simps [simp del]

definition jdate :: "int \<Rightarrow> date option" where
  "jdate ndays =
     (let y = jyear ndays (ndays sdiv 365);
          r = ndays - ndaysji (mk_date y 0 0);
          m = month_search month1 r 11
      in idt2date (mk_date y (int m) (r - month1 ! m)))"

definition gdate :: "int \<Rightarrow> date option" where
  "gdate ndays0 =
     (let y = gyear ndays0 (ndays0 sdiv 365);
          ndays = ndays0 - ndaysgi (mk_date y 0 0);
          montht = (if y = 1582 then month1s else month1);
          m = month_search montht ndays 11;
          d = ndays - montht ! m;
          d' = (if y = date_y jiswitch \<and> int m = date_m jiswitch \<and> date_d jiswitch < d then d + 10 else d)
      in idt2date (mk_date y (int m) d'))"

subsection \<open>Weekdays and weeks\<close>

definition nmonday :: int where "nmonday = ndaysgi (mk_date 1997 8 16)"

definition weekday :: "int \<Rightarrow> int" where
  "weekday nd = (let w = (nd - nmonday) smod 7 in if w < 0 then w + 7 else w)"

definition firstweek :: "int \<Rightarrow> int" where
  "firstweek y =
     (let nd = ndaysgi (mk_date (y - 1) 10 0); wd = weekday nd
      in if wd > 3 then nd - wd + 7 else nd - wd)"

lemma nmonday_value: "nmonday = 729652"
  by (simp add: nmonday_def ndaysgi_def ndaysji_def month1_def Let_def nswitch_value signed_divide_int_def)

lemma weekday_mod: "weekday nd = (nd - 729652) mod 7"
proof -
  have "w smod 7 = (if w < 0 then - ((- w) mod 7) else w mod 7)" for w :: int
    by (simp add: smod_int_alt_def sgn_if)
  moreover have "(w::int) < 0 \<Longrightarrow> w mod 7 = (if (- w) mod 7 = 0 then 0 else 7 - (- w) mod 7)" for w
    using zmod_zminus1_eq_if [of "- w" 7] by simp
  moreover have "(w::int) \<ge> 0 \<Longrightarrow> w mod 7 \<ge> 0" "0 \<le> (- w) mod 7" for w by simp_all
  ultimately show ?thesis
    unfolding weekday_def nmonday_value Let_def by (auto split: if_splits)
qed

lemma weekday_range: "0 \<le> weekday nd \<and> weekday nd \<le> 6"
  unfolding weekday_mod by presburger

lemma jstart_sign: "0 \<le> y \<Longrightarrow> 365 * y \<le> jstart y" "y < 0 \<Longrightarrow> jstart y \<le> - 365"
proof -
  assume "0 \<le> y"
  then show "365 * y \<le> jstart y" using sdiv_mono [of 0 y 4] by (simp add: jstart_def)
next
  assume y: "y < 0"
  have "jstart (-1) = -365" by (simp add: jstart_def signed_divide_int_def)
  moreover have "jstart y \<le> jstart (-1)"
    unfolding jstart_def using sdiv_mono [of y "-1" 4] y by simp
  ultimately show "jstart y \<le> -365" by simp
qed

text \<open>January 1st of the year \<open>y + 1\<close>, and that consecutive ones are far apart.\<close>

definition newyear :: "int \<Rightarrow> int" where "newyear y = ndaysgi (mk_date y 10 0)"

lemma newyear_eq:
  "newyear y = (if y \<ge> 1600 then jstart y + 306 - 10 - (y - 1600) div 100 + (y - 1600) div 400
     else if jstart y + 306 > 578042 then jstart y + 306 - 10 else jstart y + 306)"
proof -
  have "ndaysji (mk_date y 10 0) = jstart y + 306"
    by (simp add: ndaysji_def jstart_def month1_def)
  moreover have "jstart y + 306 \<noteq> -1" using jstart_sign [of y] by (cases "0 \<le> y") auto
  ultimately show ?thesis
    by (simp add: newyear_def ndaysgi_def nswitch_value Let_def sdiv_nonneg)
qed

lemma century_pred:
  "(y - 1600) div 100 \<le> (y - 1 - 1600) div 100 + 1" "(y - 1 - 1600) div 400 \<le> (y - 1600) div (400::int)"
  using div_succ [of 100 "y - 1 - 1600"] div_succ [of 400 "y - 1 - 1600"] by (simp_all split: if_splits)

lemma newyear_pred: "newyear (y - 1) + 300 \<le> newyear y"
proof -
  consider "y \<ge> 1601" | "y = 1600" | "y < 1600" by linarith
  then show ?thesis
  proof cases
    case 1
    then show ?thesis using century_pred [of y] jstart_pred [of y] by (simp add: newyear_eq)
  next
    case 2
    then show ?thesis by (simp add: newyear_eq jstart_def signed_divide_int_def)
  next
    case 3
    then show ?thesis using jstart_pred [of y] by (simp add: newyear_eq)
  qed
qed

lemma firstweek_near: "newyear (y - 1) - 3 \<le> firstweek y" "firstweek y \<le> newyear (y - 1) + 3"
  using weekday_range [of "newyear (y - 1)"]
  by (auto simp: firstweek_def newyear_def [symmetric] Let_def)

lemma firstweek_pred: "firstweek (y - 1) < firstweek y"
  using firstweek_near [of y] firstweek_near [of "y - 1"] newyear_pred [of "y - 1"] by simp

text \<open>The loop of week: the greatest year whose week 1 does not start after \<open>nd\<close>.\<close>

function week_year :: "int \<Rightarrow> int \<Rightarrow> int" where
  "week_year nd y = (if nd < firstweek y then week_year nd (y - 1) else y)"
  by pat_completeness auto
termination
proof (relation "measure (\<lambda>(nd, y). nat (firstweek y - nd))", goal_cases)
  case (2 nd y)
  then show ?case using firstweek_pred [of y] by simp
qed simp

declare week_year.simps [simp del]

text \<open>The week number and the year that contains the greater part of the week. The
  code ignores the result of gdate: idt2date cannot fail on a month of the search.\<close>

definition week :: "int \<Rightarrow> (int \<times> int) option" where
  "week nd = (case gdate nd of None \<Rightarrow> None
     | Some dt \<Rightarrow> let y = week_year nd (date_y dt + 1) in Some ((nd - firstweek y) sdiv 7 + 1, y))"

subsection \<open>Searches\<close>

lemma month_search_spec:
  assumes "t ! 0 \<le> r"
  shows "month_search t r k \<le> k \<and> t ! month_search t r k \<le> r \<and>
    (\<forall>j. month_search t r k < j \<and> j \<le> k \<longrightarrow> r < t ! j)"
proof (induction k)
  case (Suc k)
  then show ?case by (auto simp: le_Suc_eq)
qed (use assms in simp)

lemma month_search_eq:
  "m \<le> k \<Longrightarrow> t ! m \<le> r \<Longrightarrow> (\<And>j. m < j \<Longrightarrow> j \<le> k \<Longrightarrow> r < t ! j) \<Longrightarrow> month_search t r k = m"
proof (induction k)
  case (Suc k)
  then show ?case by (cases "m = Suc k") auto
qed simp

lemma strict_step_mono:
  fixes f :: "int \<Rightarrow> int"
  assumes step: "\<And>y. f (y - 1) < f y" and "x < y"
  shows "f x < f y"
proof -
  have "f x < f (x + 1 + int k)" for k
  proof (induction k)
    case 0
    then show ?case using step [of "x + 1"] by simp
  next
    case (Suc k)
    then show ?case using step [of "x + 1 + int (Suc k)"] by (simp add: algebra_simps)
  qed
  from this [of "nat (y - x - 1)"] show ?thesis using assms(2) by simp
qed

lemma gstart_mono: "x < y \<Longrightarrow> gstart x < gstart y"
  using strict_step_mono [of gstart x y] gstart_pred by blast

lemma jstart_less: "jstart (y - 1) < jstart y"
  using jstart_pred [of y] by simp

lemma jstart_mono: "x < y \<Longrightarrow> jstart x < jstart y"
  using strict_step_mono [of jstart x y] jstart_less by blast

lemma gstart_ge: "0 \<le> y \<Longrightarrow> 365 * y \<le> gstart y"
proof -
  assume y: "0 \<le> y"
  have j: "jstart y = 365 * y + y div 4" using y by (simp add: jstart_def sdiv_nonneg)
  show ?thesis
  proof (cases "y \<ge> 1600")
    case True
    define x where "x = y - 1600"
    have x: "y = x + 400 * 4" "0 \<le> x" using True by (simp_all add: x_def)
    have "y div 4 = x div 4 + 400" unfolding x(1) by (subst div_mult_self1) simp_all
    moreover have "x div 100 \<le> x div 4" using x by (intro zdiv_mono2) simp_all
    moreover have "0 \<le> x div 400" using x by (simp add: pos_imp_zdiv_nonneg_iff)
    ultimately have "10 + (y - 1600) div 100 \<le> y div 4 + (y - 1600) div 400" by (simp add: x_def)
    then show ?thesis using True j by (simp add: gstart_eq)
  next
    case False
    have "y div 4 \<le> y" using y by presburger
    then have "578042 < jstart y \<Longrightarrow> 40 \<le> y" using j y by linarith
    then have "578042 < jstart y \<Longrightarrow> 10 \<le> y div 4" by presburger
    then show ?thesis using False j y by (auto simp: gstart_eq)
  qed
qed

lemma gyear_eq: "gstart y \<le> n \<Longrightarrow> n < gstart (y + 1) \<Longrightarrow> y \<le> z \<Longrightarrow> gyear n z = y"
proof (induction n z rule: gyear.induct)
  case (1 n z)
  show ?case
  proof (cases "z = y")
    case True
    then show ?thesis using 1 by (simp add: gyear.simps [of n y] gstart_def)
  next
    case False
    then have "y + 1 \<le> z" using 1 by simp
    then have "n < gstart z" using 1 gstart_mono [of "y + 1" z] by (cases "z = y + 1") auto
    then show ?thesis using 1 False by (simp add: gyear.simps [of n z] gstart_def)
  qed
qed

lemma jyear_eq: "jstart y \<le> n \<Longrightarrow> n < jstart (y + 1) \<Longrightarrow> y \<le> z \<Longrightarrow> jyear n z = y"
proof (induction n z rule: jyear.induct)
  case (1 n z)
  show ?case
  proof (cases "z = y")
    case True
    then show ?thesis using 1 by (simp add: jyear.simps [of n y] ndaysji_start)
  next
    case False
    then have "y + 1 \<le> z" using 1 by simp
    then have "n < jstart z" using 1 jstart_mono [of "y + 1" z] by (cases "z = y + 1") auto
    then show ?thesis using 1 False by (simp add: jyear.simps [of n z] ndaysji_start)
  qed
qed

text \<open>A strictly increasing year start with \<open>365 * y \<le> f y\<close> brackets every day number.\<close>

lemma year_bracket:
  fixes f :: "int \<Rightarrow> int"
  assumes step: "\<And>y. f (y - 1) < f y" and ge: "\<And>y. 0 \<le> y \<Longrightarrow> 365 * y \<le> f y"
    and "f 0 = 0" "0 \<le> n"
  shows "\<exists>y. 0 \<le> y \<and> f y \<le> n \<and> n < f (y + 1)"
proof -
  have "\<exists>y. 0 \<le> y \<and> f y \<le> n \<and> n < f (y + 1)" if "n < f (int k)" for k
    using that
  proof (induction k)
    case 0
    then show ?case using assms by simp
  next
    case (Suc k)
    then show ?case by (cases "n < f (int k)") (auto simp: add.commute intro!: exI [of _ "int k"])
  qed
  moreover have "n < f (int (nat (n + 1)))" using ge [of "n + 1"] \<open>0 \<le> n\<close> by simp
  ultimately show ?thesis by blast
qed

lemma gstart_0: "gstart 0 = 0" and jstart_0: "jstart 0 = 0"
  by (simp_all add: gstart_eq jstart_def)

lemma gyear_bracket: "0 \<le> y \<Longrightarrow> gstart y \<le> n \<Longrightarrow> n < gstart (y + 1) \<Longrightarrow> gyear n (n sdiv 365) = y"
proof -
  assume h: "0 \<le> y" "gstart y \<le> n" "n < gstart (y + 1)"
  then have "365 * y \<le> n" using gstart_ge [of y] by simp
  then have "y \<le> n div 365" "0 \<le> n" using h(1) by simp_all
  then show ?thesis using h gyear_eq [of y n "n sdiv 365"] by (simp add: sdiv_nonneg)
qed

lemma jyear_bracket: "0 \<le> y \<Longrightarrow> jstart y \<le> n \<Longrightarrow> n < jstart (y + 1) \<Longrightarrow> jyear n (n sdiv 365) = y"
proof -
  assume h: "0 \<le> y" "jstart y \<le> n" "n < jstart (y + 1)"
  then have "365 * y \<le> n" using jstart_sign(1) [of y] by simp
  then have "y \<le> n div 365" "0 \<le> n" using h(1) by simp_all
  then show ?thesis using h jyear_eq [of y n "n sdiv 365"] by (simp add: sdiv_nonneg)
qed

subsection \<open>The civil calendar as specification\<close>

text \<open>Leap years of the Julian calendar and of the calendar that changed in October 1582, the
  lengths of the months, and the dates that exist.\<close>

definition leap_j :: "int \<Rightarrow> bool" where "leap_j y \<longleftrightarrow> 4 dvd y"

definition leap_g :: "int \<Rightarrow> bool" where
  "leap_g y \<longleftrightarrow> 4 dvd y \<and> (y \<le> 1582 \<or> \<not> 100 dvd y \<or> 400 dvd y)"

definition mdays :: "bool \<Rightarrow> int \<Rightarrow> int" where
  "mdays leap m = [31, if leap then 29 else 28, 31, 30, 31, 30, 31, 31, 30, 31, 30, 31] ! nat (m - 1)"

definition date_in :: "(int \<Rightarrow> bool) \<Rightarrow> date \<Rightarrow> bool" where
  "date_in leap dt \<longleftrightarrow> (1 \<le> date_y dt \<or> date_y dt = 0 \<and> 3 \<le> date_m dt) \<and>
     1 \<le> date_m dt \<and> date_m dt \<le> 12 \<and> 1 \<le> date_d dt \<and> date_d dt \<le> mdays (leap (date_y dt)) (date_m dt)"

definition valid_j :: "date \<Rightarrow> bool" where "valid_j dt \<longleftrightarrow> date_in leap_j dt"

definition valid_g :: "date \<Rightarrow> bool" where
  "valid_g dt \<longleftrightarrow> date_in leap_g dt \<and>
     \<not> (date_y dt = 1582 \<and> date_m dt = 10 \<and> 5 \<le> date_d dt \<and> date_d dt \<le> 14)"

lemma jstart_succ: "0 \<le> y \<Longrightarrow> jstart (y + 1) = jstart y + (if leap_j (y + 1) then 366 else 365)"
  using div_succ [of 4 y] by (simp add: jstart_def sdiv_nonneg leap_j_def)

lemma jstart_late: "1583 \<le> y \<Longrightarrow> 578042 < jstart y"
  using jstart_mono [of 1583 y] by (cases "y = 1583") (simp_all add: jstart_def signed_divide_int_def)

lemma jstart_early: "y \<le> 1582 \<Longrightarrow> jstart y \<le> 577825"
  using jstart_mono [of y 1582] by (cases "y = 1582") (simp_all add: jstart_def signed_divide_int_def)

lemma gstart_late: "1583 \<le> y \<Longrightarrow> y \<le> 1600 \<Longrightarrow> gstart y = jstart y - 10"
  using jstart_late [of y] by (simp add: gstart_eq)

lemma gstart_early: "y \<le> 1582 \<Longrightarrow> gstart y = jstart y"
  using jstart_early [of y] by (simp add: gstart_eq)

lemma dvd_shift: "(k::int) dvd 1600 \<Longrightarrow> k dvd y - 1600 + 1 \<longleftrightarrow> k dvd y + 1"
  using dvd_diff_left_iff [of k 1600 "y + 1"] by (simp add: algebra_simps)

lemma gstart_succ:
  assumes "0 \<le> y"
  shows "gstart (y + 1) = gstart y + (if leap_g (y + 1) then 366 else 365) - (if y = 1582 then 10 else 0)"
proof -
  consider "y \<le> 1581" | "y = 1582" | "1583 \<le> y" "y \<le> 1599" | "1600 \<le> y" by linarith
  then show ?thesis
  proof cases
    case 1
    then show ?thesis using assms by (simp add: gstart_early jstart_succ leap_g_def leap_j_def)
  next
    case 2
    then show ?thesis by (simp add: gstart_early gstart_late leap_g_def jstart_def signed_divide_int_def)
  next
    case 3
    have "y = 1599" if c: "100 dvd y + 1"
    proof -
      obtain k where k: "y + 1 = 100 * k" using c by (rule dvdE)
      then have "k = 16" using 3 by linarith
      then show ?thesis using k by simp
    qed
    then have "100 dvd y + 1 \<longrightarrow> 400 dvd y + 1" by auto
    then show ?thesis using 3 assms by (auto simp: gstart_late jstart_succ leap_g_def leap_j_def)
  next
    case 4
    have d: "(y + 1 - 1600) div 100 = (y - 1600) div 100 + (if 100 dvd y + 1 then 1 else 0)"
      "(y + 1 - 1600) div 400 = (y - 1600) div 400 + (if 400 dvd y + 1 then 1 else 0)"
      using div_succ [of 100 "y - 1600"] div_succ [of 400 "y - 1600"]
        dvd_shift [of 100 y] dvd_shift [of 400 y] by simp_all
    have i: "400 dvd y + 1 \<Longrightarrow> 100 dvd y + 1" "100 dvd y + 1 \<Longrightarrow> 4 dvd y + 1"
      using dvd_trans [of 100 400 "y + 1"] dvd_trans [of 4 100 "y + 1"] by simp_all
    have "gstart (y + 1) = jstart (y + 1) - 10 - (y + 1 - 1600) div 100 + (y + 1 - 1600) div 400"
      "gstart y = jstart y - 10 - (y - 1600) div 100 + (y - 1600) div 400"
      using 4 by (simp_all add: gstart_eq)
    then have "gstart (y + 1) = gstart y + (if 4 dvd y + 1 then 366 else 365)
        - (if 100 dvd y + 1 then 1 else 0) + (if 400 dvd y + 1 then 1 else 0)"
      unfolding d using jstart_succ [OF assms] unfolding leap_j_def by linarith
    moreover have "leap_g (y + 1) \<longleftrightarrow> 4 dvd y + 1 \<and> (\<not> 100 dvd y + 1 \<or> 400 dvd y + 1)"
      using 4 unfolding leap_g_def by linarith
    ultimately show ?thesis using 4 i
      by (cases "4 dvd y + 1"; cases "100 dvd y + 1"; cases "400 dvd y + 1") simp_all
  qed
qed

subsection \<open>Internal dates and their place in the year\<close>

definition idays :: "bool \<Rightarrow> nat \<Rightarrow> int" where
  "idays leap m = [31, 30, 31, 30, 31, 31, 30, 31, 30, 31, 31, if leap then 29 else 28] ! m"

definition gtab :: "int \<Rightarrow> int list" where "gtab y = (if y = 1582 then month1s else month1)"

definition gok :: "int \<Rightarrow> nat \<Rightarrow> int \<Rightarrow> bool" where
  "gok y m d \<longleftrightarrow> 0 \<le> y \<and> m < 12 \<and> 0 \<le> d \<and> d < idays (leap_g (y + 1)) m \<and>
     \<not> (y = 1582 \<and> m = 7 \<and> 4 \<le> d \<and> d \<le> 13)"

definition goff :: "int \<Rightarrow> nat \<Rightarrow> int \<Rightarrow> int" where
  "goff y m d = gtab y ! m + (if y = 1582 \<and> m = 7 \<and> 3 < d then d - 10 else d)"

lemma less_12_cases:
  assumes "m < (12::nat)"
  obtains "m = 0" | "m = 1" | "m = 2" | "m = 3" | "m = 4" | "m = 5" | "m = 6" | "m = 7" | "m = 8" | "m = 9"
    | "m = 10" | "m = 11"
  using assms by atomize_elim presburger

lemmas month_tables = month1_def month1s_def

lemma sorted_gtab: "sorted (gtab y)" "length (gtab y) = 12"
  by (simp_all add: gtab_def month_tables)

lemma goff_search:
  assumes "gok y m d"
  shows "month_search (gtab y) (goff y m d) 11 = m"
proof (rule month_search_eq)
  have m: "m < 12" using assms by (simp add: gok_def)
  then show "m \<le> 11" by simp
  show "gtab y ! m \<le> goff y m d" using assms by (auto simp: goff_def gok_def)
  fix j :: nat assume j: "m < j" "j \<le> 11"
  have "m < 11 \<Longrightarrow> goff y m d < gtab y ! Suc m"
    using m assms
    by (cases rule: less_12_cases) (auto simp: goff_def gok_def gtab_def idays_def month_tables)
  also have "gtab y ! Suc m \<le> gtab y ! j"
    using j by (intro sorted_nth_mono) (simp_all add: sorted_gtab)
  finally show "goff y m d < gtab y ! j" using j by simp
qed

lemma goff_bounds:
  assumes "gok y m d"
  shows "0 \<le> goff y m d \<and> gstart y + goff y m d < gstart (y + 1)"
proof -
  have m: "m < 12" "0 \<le> y" using assms by (simp_all add: gok_def)
  have l: "y = 1582 \<Longrightarrow> \<not> leap_g (y + 1)" by (simp add: leap_g_def)
  show ?thesis
    using m(1) assms gstart_succ [OF m(2)] l
    by (cases rule: less_12_cases) (auto simp: goff_def gok_def gtab_def idays_def month_tables split: if_splits)
qed

lemma ndaysji_off: "ndaysji (mk_date y (int m) d) = jstart y + (month1 ! m + d)"
  by (simp add: ndaysji_def jstart_def)

lemma gok_bounds:
  assumes "gok y m d"
  shows "0 \<le> month1 ! m + d" "month1 ! m + d \<le> 365"
    "y = 1582 \<Longrightarrow> month1 ! m + d \<le> 217 \<and> goff y m d = month1 ! m + d \<or>
      217 < month1 ! m + d \<and> goff y m d = month1 ! m + d - 10"
    "y \<noteq> 1582 \<Longrightarrow> goff y m d = month1 ! m + d"
proof -
  have m: "m < 12" using assms by (simp add: gok_def)
  show "0 \<le> month1 ! m + d" "month1 ! m + d \<le> 365"
    "y = 1582 \<Longrightarrow> month1 ! m + d \<le> 217 \<and> goff y m d = month1 ! m + d \<or>
      217 < month1 ! m + d \<and> goff y m d = month1 ! m + d - 10"
    "y \<noteq> 1582 \<Longrightarrow> goff y m d = month1 ! m + d"
    using m assms
    by (cases rule: less_12_cases; force simp: goff_def gok_def gtab_def idays_def month_tables split: if_splits)+
qed

lemma ndaysgi_off:
  assumes ok: "gok y m d"
  shows "ndaysgi (mk_date y (int m) d) = gstart y + goff y m d"
proof -
  let ?k = "month1 ! m + d"
  note b = gok_bounds [OF ok]
  have y: "0 \<le> y" using ok by (simp add: gok_def)
  then have "0 \<le> jstart y + ?k" using b(1) jstart_sign(1) [of y] by simp
  then have e: "ndaysgi (mk_date y (int m) d) =
      (if y \<ge> 1600 then jstart y + ?k - 10 - (y - 1600) div 100 + (y - 1600) div 400
       else if jstart y + ?k > 578042 then jstart y + ?k - 10 else jstart y + ?k)"
    by (simp add: ndaysgi_def ndaysji_off Let_def nswitch_value sdiv_nonneg)
  consider "y \<le> 1581" | "y = 1582" | "1583 \<le> y" "y \<le> 1599" | "1600 \<le> y" by linarith
  then show ?thesis
  proof cases
    case 1
    have "jstart y \<le> 577460" using 1 jstart_mono [of y 1581]
      by (cases "y = 1581") (simp_all add: jstart_def signed_divide_int_def)
    then show ?thesis using 1 b e by (simp add: gstart_early)
  next
    case 2
    have "jstart 1582 = 577825" by (simp add: jstart_def signed_divide_int_def)
    then show ?thesis using 2 b(3) e by (auto simp: gstart_early)
  next
    case 3
    then show ?thesis using b(1,4) e jstart_late [of y] by (simp add: gstart_late)
  next
    case 4
    then show ?thesis using b e by (simp add: gstart_eq)
  qed
qed

lemma gok_exists:
  assumes y: "0 \<le> y" and r: "0 \<le> r" "gstart y + r < gstart (y + 1)"
  shows "\<exists>m d. gok y m d \<and> goff y m d = r"
proof -
  define m where "m = month_search (gtab y) r 11"
  have l: "leap_g 1583 = False" by (simp add: leap_g_def)
  have s: "m < 12" "gtab y ! m \<le> r" "m < 11 \<Longrightarrow> r < gtab y ! Suc m"
    using month_search_spec [of "gtab y" r 11] r(1)
    by (auto simp: m_def gtab_def month_tables le_less_Suc_eq)
  define d where "d = (let d = r - gtab y ! m in if y = 1582 \<and> m = 7 \<and> 3 < d then d + 10 else d)"
  have "goff y m d = r" by (auto simp: goff_def d_def Let_def)
  moreover have "gok y m d"
    using s(1) y r s(2,3) gstart_succ [OF y] l
    by (cases rule: less_12_cases)
      (auto simp: gok_def d_def idays_def gtab_def month_tables Let_def split: if_splits)
  ultimately show ?thesis by blast
qed

lemma gdate_off:
  assumes ok: "gok y m d" and n: "n = gstart y + goff y m d"
  shows "gdate n = idt2date (mk_date y (int m) d)"
proof -
  have "0 \<le> y" using ok by (simp add: gok_def)
  then have gy: "gyear n (n sdiv 365) = y"
    using goff_bounds [OF ok] n by (intro gyear_bracket) simp_all
  have "n - ndaysgi (mk_date y 0 0) = goff y m d" using n by (simp add: gstart_def)
  moreover have "goff y m d - gtab y ! m = (if y = 1582 \<and> m = 7 \<and> 3 < d then d - 10 else d)"
    by (simp add: goff_def)
  moreover have "y = 1582 \<and> m = 7 \<Longrightarrow> 3 < d \<Longrightarrow> 14 \<le> d" using ok by (auto simp: gok_def)
  ultimately show ?thesis
    using goff_search [OF ok] gy
    unfolding gdate_def Let_def gtab_def [symmetric] by (auto simp: jiswitch_def)
qed

text \<open>The external and the internal representation of the same date.\<close>

lemma valid_g_internal:
  assumes "valid_g dt"
  obtains y m d where "gok y m d" "date2idt dt = Some (mk_date y (int m) d)"
    "idt2date (mk_date y (int m) d) = Some dt"
proof -
  obtain y m d where dt: "dt = mk_date y m d" by (cases dt) auto
  define k where "k = nat (m - 1)"
  have m: "m = int k + 1" "k < 12" using assms by (auto simp: valid_g_def date_in_def dt k_def)
  show ?thesis
  proof (cases "m > 2")
    case True
    have "gok y (k - 2) (d - 1)"
      using m(2) assms True
      by (cases rule: less_12_cases) (auto simp: dt m(1) valid_g_def date_in_def gok_def idays_def mdays_def)
    moreover have "int (k - 2) = m - 3" "k - 2 < 10" "0 \<le> y" "m \<le> 12" using True m assms
      by (auto simp: valid_g_def date_in_def dt)
    ultimately show ?thesis
      using that [of y "k - 2" "d - 1"] True by (auto simp: dt date2idt_def idt2date_def)
  next
    case False
    have "gok (y - 1) (k + 10) (d - 1)"
      using m(2) assms False
      by (cases rule: less_12_cases) (auto simp: dt m(1) valid_g_def date_in_def gok_def idays_def mdays_def)
    moreover have "int (k + 10) = m + 9" "1 \<le> y" "1 \<le> m" using False m assms
      by (auto simp: valid_g_def date_in_def dt)
    ultimately show ?thesis
      using that [of "y - 1" "k + 10" "d - 1"] False by (auto simp: dt date2idt_def idt2date_def)
  qed
qed

lemma gok_external:
  assumes "gok y m d"
  obtains dt where "valid_g dt" "idt2date (mk_date y (int m) d) = Some dt"
    "date2idt dt = Some (mk_date y (int m) d)"
proof (cases "m < 10")
  case True
  have "m < 12" using True by simp
  then have "valid_g (mk_date y (int m + 3) (d + 1))"
    using assms True
    by (cases rule: less_12_cases) (auto simp: valid_g_def date_in_def gok_def idays_def mdays_def)
  then show thesis
    using that [of "mk_date y (int m + 3) (d + 1)"] True assms
    by (simp add: date2idt_def idt2date_def gok_def Let_def)
next
  case False
  have "m < 12" using assms by (simp add: gok_def)
  then have "valid_g (mk_date (y + 1) (int m - 9) (d + 1))"
    using assms False
    by (cases rule: less_12_cases) (auto simp: valid_g_def date_in_def gok_def idays_def mdays_def)
  then show thesis
    using that [of "mk_date (y + 1) (int m - 9) (d + 1)"] False assms
    by (simp add: date2idt_def idt2date_def gok_def Let_def)
qed

subsection \<open>The Julian calendar, in the same way\<close>

definition jok :: "int \<Rightarrow> nat \<Rightarrow> int \<Rightarrow> bool" where
  "jok y m d \<longleftrightarrow> 0 \<le> y \<and> m < 12 \<and> 0 \<le> d \<and> d < idays (leap_j (y + 1)) m"

lemma joff_search:
  assumes "jok y m d"
  shows "month_search month1 (month1 ! m + d) 11 = m"
proof (rule month_search_eq)
  have m: "m < 12" using assms by (simp add: jok_def)
  then show "m \<le> 11" by simp
  show "month1 ! m \<le> month1 ! m + d" using assms by (simp add: jok_def)
  fix j :: nat assume j: "m < j" "j \<le> 11"
  have "m < 11 \<Longrightarrow> month1 ! m + d < month1 ! Suc m"
    using m assms by (cases rule: less_12_cases) (auto simp: jok_def idays_def month_tables)
  also have "month1 ! Suc m \<le> month1 ! j"
    using j by (intro sorted_nth_mono) (simp_all add: month1_def)
  finally show "month1 ! m + d < month1 ! j" using j by simp
qed

lemma joff_bounds:
  assumes "jok y m d"
  shows "0 \<le> month1 ! m + d \<and> jstart y + (month1 ! m + d) < jstart (y + 1)"
proof -
  have m: "m < 12" "0 \<le> y" using assms by (simp_all add: jok_def)
  show ?thesis
    using m(1) assms jstart_succ [OF m(2)]
    by (cases rule: less_12_cases) (auto simp: jok_def idays_def month_tables split: if_splits)
qed

lemma jok_exists:
  assumes y: "0 \<le> y" and r: "0 \<le> r" "jstart y + r < jstart (y + 1)"
  shows "\<exists>m d. jok y m d \<and> month1 ! m + d = r"
proof -
  define m where "m = month_search month1 r 11"
  have s: "m < 12" "month1 ! m \<le> r" "m < 11 \<Longrightarrow> r < month1 ! Suc m"
    using month_search_spec [of month1 r 11] r(1)
    by (auto simp: m_def month_tables le_less_Suc_eq)
  have "jok y m (r - month1 ! m)"
    using s(1) y r s(2,3) jstart_succ [OF y]
    by (cases rule: less_12_cases) (auto simp: jok_def idays_def month_tables split: if_splits)
  then show ?thesis by (intro exI [of _ m] exI [of _ "r - month1 ! m"]) simp
qed

lemma jdate_off:
  assumes ok: "jok y m d" and n: "n = jstart y + (month1 ! m + d)"
  shows "jdate n = idt2date (mk_date y (int m) d)"
proof -
  have "0 \<le> y" using ok by (simp add: jok_def)
  then have "jyear n (n sdiv 365) = y"
    using joff_bounds [OF ok] n by (intro jyear_bracket) simp_all
  then show ?thesis
    using joff_search [OF ok] n unfolding jdate_def Let_def by (simp add: ndaysji_start)
qed

lemma valid_j_internal:
  assumes "valid_j dt"
  obtains y m d where "jok y m d" "date2idt dt = Some (mk_date y (int m) d)"
    "idt2date (mk_date y (int m) d) = Some dt"
proof -
  obtain y m d where dt: "dt = mk_date y m d" by (cases dt) auto
  define k where "k = nat (m - 1)"
  have m: "m = int k + 1" "k < 12" using assms by (auto simp: valid_j_def date_in_def dt k_def)
  show ?thesis
  proof (cases "m > 2")
    case True
    have "jok y (k - 2) (d - 1)"
      using m(2) assms True
      by (cases rule: less_12_cases) (auto simp: dt m(1) valid_j_def date_in_def jok_def idays_def mdays_def)
    moreover have "int (k - 2) = m - 3" "k - 2 < 10" "0 \<le> y" "m \<le> 12" using True m assms
      by (auto simp: valid_j_def date_in_def dt)
    ultimately show ?thesis
      using that [of y "k - 2" "d - 1"] True by (auto simp: dt date2idt_def idt2date_def)
  next
    case False
    have "jok (y - 1) (k + 10) (d - 1)"
      using m(2) assms False
      by (cases rule: less_12_cases) (auto simp: dt m(1) valid_j_def date_in_def jok_def idays_def mdays_def)
    moreover have "int (k + 10) = m + 9" "1 \<le> y" "1 \<le> m" using False m assms
      by (auto simp: valid_j_def date_in_def dt)
    ultimately show ?thesis
      using that [of "y - 1" "k + 10" "d - 1"] False by (auto simp: dt date2idt_def idt2date_def)
  qed
qed

lemma jok_external:
  assumes "jok y m d"
  obtains dt where "valid_j dt" "idt2date (mk_date y (int m) d) = Some dt"
    "date2idt dt = Some (mk_date y (int m) d)"
proof (cases "m < 10")
  case True
  have "m < 12" using True by simp
  then have "valid_j (mk_date y (int m + 3) (d + 1))"
    using assms True
    by (cases rule: less_12_cases) (auto simp: valid_j_def date_in_def jok_def idays_def mdays_def)
  then show thesis
    using that [of "mk_date y (int m + 3) (d + 1)"] True assms
    by (simp add: date2idt_def idt2date_def jok_def Let_def)
next
  case False
  have "m < 12" using assms by (simp add: jok_def)
  then have "valid_j (mk_date (y + 1) (int m - 9) (d + 1))"
    using assms False
    by (cases rule: less_12_cases) (auto simp: valid_j_def date_in_def jok_def idays_def mdays_def)
  then show thesis
    using that [of "mk_date (y + 1) (int m - 9) (d + 1)"] False assms
    by (simp add: date2idt_def idt2date_def jok_def Let_def)
qed

subsection \<open>Day numbers and dates are inverse to each other\<close>

text \<open>Contract between a conversion to day numbers, a conversion back and the dates that exist;
  the client facts follow once for both calendars.\<close>

locale day_numbering =
  fixes valid :: "date \<Rightarrow> bool" and number :: "date \<Rightarrow> int" and date_of :: "int \<Rightarrow> date option"
  assumes number_nonneg: "valid dt \<Longrightarrow> 0 \<le> number dt"
    and date_of_number: "valid dt \<Longrightarrow> date_of (number dt) = Some dt"
    and date_of_valid: "0 \<le> n \<Longrightarrow> \<exists>dt. date_of n = Some dt \<and> valid dt \<and> number dt = n"
begin

lemma number_inj: "inj_on number {dt. valid dt}"
  by (rule inj_onI) (metis date_of_number mem_Collect_eq option.inject)

lemma number_bij: "bij_betw number {dt. valid dt} {n. 0 \<le> n}"
proof -
  have "number ` {dt. valid dt} = {n. 0 \<le> n}"
    using number_nonneg date_of_valid by force
  then show ?thesis using number_inj by (simp add: bij_betw_def)
qed

lemma date_of_cases:
  assumes "0 \<le> n"
  obtains dt where "date_of n = Some dt" "valid dt" "number dt = n"
  using date_of_valid [OF assms] by blast

end

lemma gregorian_numbers: "day_numbering valid_g ndaysg gdate"
proof unfold_locales
  fix dt assume "valid_g dt"
  then obtain y m d where i: "gok y m d" "date2idt dt = Some (mk_date y (int m) d)"
    "idt2date (mk_date y (int m) d) = Some dt" by (rule valid_g_internal)
  have n: "ndaysg dt = gstart y + goff y m d" using i by (simp add: ndaysg_def ndaysgi_off)
  have "0 \<le> gstart y" using i(1) gstart_ge [of y] by (simp add: gok_def)
  then show "0 \<le> ndaysg dt" using n goff_bounds [OF i(1)] by simp
  show "gdate (ndaysg dt) = Some dt" using gdate_off [OF i(1) n] i(3) by simp
next
  fix n :: int assume "0 \<le> n"
  then obtain y where y: "0 \<le> y" "gstart y \<le> n" "n < gstart (y + 1)"
    using year_bracket [of gstart n] gstart_pred gstart_ge gstart_0 by blast
  then obtain m d where i: "gok y m d" "goff y m d = n - gstart y"
    using gok_exists [of y "n - gstart y"] by auto
  obtain dt where dt: "valid_g dt" "idt2date (mk_date y (int m) d) = Some dt"
    "date2idt dt = Some (mk_date y (int m) d)" using gok_external [OF i(1)] by blast
  show "\<exists>dt. gdate n = Some dt \<and> valid_g dt \<and> ndaysg dt = n"
    using dt i gdate_off [OF i(1)] by (auto simp: ndaysg_def ndaysgi_off)
qed

lemma julian_numbers: "day_numbering valid_j ndaysj jdate"
proof unfold_locales
  fix dt assume "valid_j dt"
  then obtain y m d where i: "jok y m d" "date2idt dt = Some (mk_date y (int m) d)"
    "idt2date (mk_date y (int m) d) = Some dt" by (rule valid_j_internal)
  have n: "ndaysj dt = jstart y + (month1 ! m + d)" using i by (simp add: ndaysj_def ndaysji_off)
  have "0 \<le> jstart y" using i(1) jstart_sign(1) [of y] by (simp add: jok_def)
  then show "0 \<le> ndaysj dt" using n joff_bounds [OF i(1)] by simp
  show "jdate (ndaysj dt) = Some dt" using jdate_off [OF i(1) n] i(3) by simp
next
  fix n :: int assume "0 \<le> n"
  then obtain y where y: "0 \<le> y" "jstart y \<le> n" "n < jstart (y + 1)"
    using year_bracket [of jstart n] jstart_less jstart_sign(1) jstart_0 by blast
  then obtain m d where i: "jok y m d" "month1 ! m + d = n - jstart y"
    using jok_exists [of y "n - jstart y"] by auto
  obtain dt where dt: "valid_j dt" "idt2date (mk_date y (int m) d) = Some dt"
    "date2idt dt = Some (mk_date y (int m) d)" using jok_external [OF i(1)] by blast
  show "\<exists>dt. jdate n = Some dt \<and> valid_j dt \<and> ndaysj dt = n"
    using dt i jdate_off [OF i(1)] by (auto simp: ndaysj_def ndaysji_off)
qed

interpretation greg: day_numbering valid_g ndaysg gdate by (rule gregorian_numbers)
interpretation jul: day_numbering valid_j ndaysj jdate by (rule julian_numbers)

subsection \<open>Weeks\<close>

lemma weekday_cong: "(a - b) mod 7 = 0 \<Longrightarrow> weekday a = weekday b"
proof -
  assume "(a - b) mod 7 = 0"
  then have "a - 729652 = (b - 729652) + 7 * ((a - b) div 7)" using mult_div_mod_eq [of 7 "a - b"] by linarith
  then show ?thesis unfolding weekday_mod by (simp only: mod_mult_self2)
qed

lemma weekday_back: "weekday (nd - weekday nd) = 0"
  unfolding weekday_mod by (simp add: mod_diff_left_eq diff_right_commute [of nd])

lemma firstweek_monday: "weekday (firstweek y) = 0"
proof -
  define N where "N = newyear (y - 1)"
  have "firstweek y = N - weekday N \<or> firstweek y = N - weekday N + 7"
    by (auto simp: firstweek_def newyear_def N_def Let_def)
  then show ?thesis using weekday_back [of N] weekday_cong [of "N - weekday N + 7" "N - weekday N"] by auto
qed

lemma weekday_less_7:
  assumes "weekday a = 0" "a \<le> n"
  shows "n = a + 7 * ((n - a) div 7) + weekday n"
proof -
  have "(n - a) mod 7 = weekday n"
  proof -
    have "a - 729652 = 7 * ((a - 729652) div 7)"
      using assms(1) mult_div_mod_eq [of 7 "a - 729652"] unfolding weekday_mod by linarith
    then have "n - 729652 = (n - a) + 7 * ((a - 729652) div 7)" by linarith
    then have "weekday n = (n - a) mod 7" unfolding weekday_mod by (simp only: mod_mult_self2)
    then show ?thesis by simp
  qed
  then show ?thesis using mult_div_mod_eq [of 7 "n - a"] by linarith
qed

lemma newyear_gok: "0 \<le> y \<Longrightarrow> newyear y = gstart y + gtab y ! 10"
  using ndaysgi_off [of y 10 0] by (simp add: newyear_def gok_def idays_def goff_def)

lemma newyear_zero: "newyear 0 = 306" "newyear (-1) = -59"
  by (simp_all add: newyear_eq jstart_def signed_divide_int_def)

lemma newyear_succ: "-1 \<le> y \<Longrightarrow> newyear (y + 1) \<le> newyear y + 366"
proof (cases "y = -1")
  case True
  then show ?thesis using newyear_zero by simp
next
  case False
  assume "-1 \<le> y"
  then have "0 \<le> y" using False by simp
  then show ?thesis
    using gstart_succ [of y] by (auto simp: newyear_gok gtab_def month_tables leap_g_def split: if_splits)
qed

lemma week_year_spec:
  "nd < firstweek (z + 1) \<Longrightarrow> firstweek (week_year nd z) \<le> nd \<and> nd < firstweek (week_year nd z + 1)"
proof (induction nd z rule: week_year.induct)
  case (1 nd z)
  then show ?case by (cases "nd < firstweek z") (simp_all add: week_year.simps [of nd z])
qed

lemma firstweek_mono: "x < y \<Longrightarrow> firstweek x < firstweek y"
  using strict_step_mono [of firstweek x y] firstweek_pred by blast

lemma gdate_year_bound:
  assumes "0 \<le> n" "gdate n = Some dt"
  shows "n < firstweek (date_y dt + 2)"
proof -
  have v: "valid_g dt" "ndaysg dt = n" using greg.date_of_valid [OF assms(1)] assms(2) by auto
  obtain y m d where i: "gok y m d" "date2idt dt = Some (mk_date y (int m) d)"
    using valid_g_internal [OF v(1)] by blast
  have y: "0 \<le> y" "y \<le> date_y dt"
    using i by (auto simp: gok_def date2idt_def Let_def split: if_splits)
  have "n < gstart (y + 1)"
    using v(2) i goff_bounds [OF i(1)] by (simp add: ndaysg_def ndaysgi_off)
  also have "gstart (y + 1) \<le> gstart (date_y dt + 1)"
    using y gstart_mono [of "y + 1" "date_y dt + 1"] by (cases "y = date_y dt") auto
  also have "\<dots> \<le> newyear (date_y dt + 1) - 3"
    using y by (simp add: newyear_gok gtab_def month_tables)
  also have "\<dots> \<le> firstweek (date_y dt + 2)" using firstweek_near(1) [of "date_y dt + 2"]
    by (simp add: add.commute)
  finally show ?thesis .
qed

lemma week_bounds:
  assumes "0 \<le> n" "firstweek y \<le> n" "n < firstweek (y + 1)"
  shows "0 \<le> y \<and> (n - firstweek y) div 7 \<le> 52"
proof -
  have "firstweek 0 \<le> n" using firstweek_near(2) [of 0] newyear_zero assms(1) by simp
  moreover have "y < 0 \<Longrightarrow> firstweek (y + 1) \<le> firstweek 0"
    using firstweek_mono [of "y + 1" 0] by (cases "y = -1") auto
  ultimately have y: "0 \<le> y" using assms(3) by linarith
  have f: "firstweek (y + 1) = firstweek y + 7 * ((firstweek (y + 1) - firstweek y) div 7)"
    using weekday_less_7 [of "firstweek y" "firstweek (y + 1)"] firstweek_monday firstweek_pred [of "y + 1"]
    by simp
  have "firstweek (y + 1) \<le> firstweek y + 372"
    using firstweek_near(2) [of "y + 1"] firstweek_near(1) [of y] newyear_succ [of "y - 1"] y by simp
  then have "(firstweek (y + 1) - firstweek y) div 7 \<le> 53" by linarith
  then have "n - firstweek y < 53 * 7" using f assms(3) by linarith
  then show ?thesis using y by linarith
qed

text \<open>
  C18. The Gregorian conversions of cal are inverse to each other: ndaysg is a bijection between
  the dates that exist (Julian leap years up to 1582, Gregorian ones afterwards, without the
  ten days of October 1582) and the day numbers from 0 on; gdate maps the number of every such
  date back to it, and on every day number it ends with a date that exists and has that number.
\<close>

theorem gdate_ndaysg_inverse:
  "bij_betw ndaysg {dt. valid_g dt} {n. 0 \<le> n}
   \<and> (valid_g dt \<longrightarrow> gdate (ndaysg dt) = Some dt)
   \<and> (0 \<le> n \<longrightarrow> (\<exists>dt. gdate n = Some dt \<and> valid_g dt \<and> ndaysg dt = n))"
  using greg.number_bij greg.date_of_number greg.date_of_valid by blast

theorem gdate_ndaysg_inverse_witness:
  "gdate (ndaysg (mk_date 1582 10 15)) = Some (mk_date 1582 10 15)
   \<and> (\<exists>dt. gdate 578043 = Some dt \<and> valid_g dt \<and> ndaysg dt = 578043)"
proof -
  have "valid_g (mk_date 1582 10 15)" by code_simp
  then show ?thesis
    using gdate_ndaysg_inverse [of "mk_date 1582 10 15" 578043] by simp
qed

text \<open>
  The Julian conversions of cal are inverse to each other: ndaysj is a bijection between the
  dates of the Julian calendar (every fourth year a leap year) and the day numbers from 0 on,
  and jdate is its inverse in both directions.
\<close>

theorem jdate_ndaysj_inverse:
  "bij_betw ndaysj {dt. valid_j dt} {n. 0 \<le> n}
   \<and> (valid_j dt \<longrightarrow> jdate (ndaysj dt) = Some dt)
   \<and> (0 \<le> n \<longrightarrow> (\<exists>dt. jdate n = Some dt \<and> valid_j dt \<and> ndaysj dt = n))"
  using jul.number_bij jul.date_of_number jul.date_of_valid by blast

theorem jdate_ndaysj_inverse_witness:
  "jdate (ndaysj (mk_date 1900 2 29)) = Some (mk_date 1900 2 29)
   \<and> (\<exists>dt. jdate 0 = Some dt \<and> valid_j dt \<and> ndaysj dt = 0)"
proof -
  have "valid_j (mk_date 1900 2 29)" by code_simp
  then show ?thesis using jdate_ndaysj_inverse [of "mk_date 1900 2 29" 0] by simp
qed

text \<open>
  C32. week computes ISO 8601 week numbers: on every day number it ends with a number between 1
  and 53 and the year whose weeks contain the day; week 1 of that year starts on a Monday and
  contains January 4th, and the day is the weekday-th day of the week it is assigned to.
\<close>

theorem week_iso:
  assumes "0 \<le> n"
  shows "\<exists>w y. week n = Some (w, y) \<and> 1 \<le> w \<and> w \<le> 53
    \<and> firstweek y \<le> n \<and> n < firstweek (y + 1) \<and> weekday (firstweek y) = 0
    \<and> firstweek y \<le> ndaysgi (mk_date (y - 1) 10 0) + 3 \<and> ndaysgi (mk_date (y - 1) 10 0) + 3 \<le> firstweek y + 6
    \<and> n = firstweek y + 7 * (w - 1) + weekday n"
proof -
  obtain dt where dt: "gdate n = Some dt" using greg.date_of_valid [OF assms] by blast
  define y where "y = week_year n (date_y dt + 1)"
  have y: "firstweek y \<le> n" "n < firstweek (y + 1)"
    using gdate_year_bound [OF assms dt] week_year_spec [of n "date_y dt + 1"]
    by (simp_all add: y_def add.commute)
  define w where "w = (n - firstweek y) div 7 + 1"
  have "week n = Some (w, y)"
    using dt y by (simp add: week_def w_def sdiv_nonneg Let_def flip: y_def)
  moreover have "1 \<le> w" "w \<le> 53"
    using week_bounds [OF assms y] y by (simp_all add: w_def pos_imp_zdiv_nonneg_iff)
  moreover have "n = firstweek y + 7 * (w - 1) + weekday n"
    using weekday_less_7 [OF firstweek_monday y(1)] by (simp add: w_def)
  ultimately show ?thesis
    using y firstweek_monday [of y] firstweek_near [of y] unfolding newyear_def [symmetric] by auto
qed

theorem week_iso_witness:
  "\<exists>w y. week 729652 = Some (w, y) \<and> 1 \<le> w \<and> w \<le> 53
    \<and> firstweek y \<le> 729652 \<and> 729652 < firstweek (y + 1) \<and> weekday (firstweek y) = 0
    \<and> firstweek y \<le> ndaysgi (mk_date (y - 1) 10 0) + 3 \<and> ndaysgi (mk_date (y - 1) 10 0) + 3 \<le> firstweek y + 6
    \<and> 729652 = firstweek y + 7 * (w - 1) + weekday 729652"
  using week_iso [of 729652] by simp

end
