(* ===== verification/Easter.thy ===== *)
theory Easter
  imports Calendar
begin

text \<open>
  misc_cmds/ncal/easter.c: Easter Sunday of the Gregorian calendar as a closed formula, of the
  Julian calendar from the metonic cycle. The Gregorian formula is proved equal to the
  published computus with golden number, epact and solar and lunar corrections (Clavius' rules
  as in Knuth, The Art of Computer Programming 1.3.2, exercise 14).
\<close>

definition easterg :: "int \<Rightarrow> date" where
  "easterg y =
     (let n = y smod 19;
          c = y sdiv 100;
          k = (c - 17) sdiv 25;
          i0 = (c - c sdiv 4 - (c - k) sdiv 3 + 19 * n + 15) smod 30;
          i = i0 - (i0 sdiv 28) * (1 - (i0 sdiv 28) * (29 sdiv (i0 + 1)) * ((21 - n) sdiv 11));
          j = (y + y sdiv 4 + i + 2 - c + c sdiv 4) smod 7;
          l = i - j;
          m = 3 + (l + 40) sdiv 44
      in mk_date y m (l + 28 - 31 * (m sdiv 4)))"

definition mc :: "int list" where
  "mc = [5, 25, 13, 2, 22, 10, 30, 18, 7, 27, 15, 4, 24, 12, 1, 21, 9, 29, 17]"

definition ns :: "int list" where "ns = [6, 5, 4, 3, 2, 1, 7]"

definition easterodn :: "int \<Rightarrow> int" where
  "easterodn y =
     (let d = mc ! nat (y smod 19);
          dt = mk_date y (if d < 21 then 4 else 3) d;
          dn = ndaysj dt
      in dn + ns ! nat (weekday dn))"

definition easterog :: "int \<Rightarrow> date option" where "easterog y = gdate (easterodn y)"

definition easteroj :: "int \<Rightarrow> date option" where "easteroj y = jdate (easterodn y)"

subsection \<open>The computus\<close>

definition computus :: "int \<Rightarrow> date" where
  "computus y =
     (let golden = y mod 19 + 1;
          century = y div 100 + 1;
          x = 3 * century div 4 - 12;
          z = (8 * century + 5) div 25 - 5;
          e0 = (11 * golden + 20 + z - x) mod 30;
          e = (if e0 = 25 \<and> golden > 11 \<or> e0 = 24 then e0 + 1 else e0);
          moon = (if 44 - e < 21 then 74 - e else 44 - e);
          sunday = moon + 7 - (5 * y div 4 - x - 10 + moon) mod 7
      in if sunday > 31 then mk_date y 4 (sunday - 31) else mk_date y 3 sunday)"

lemma div_bounds: "0 < k \<Longrightarrow> k * (x div k) \<le> x \<and> x < k * (x div k) + (k::int)"
  by (metis add.commute add_strict_right_mono le_add_same_cancel2 mult.commute mult_div_mod_eq
      pos_mod_bound pos_mod_sign)

lemma all_below_75:
  assumes "\<forall>r \<in> set [0..74]. P r" "0 \<le> r" "r < (75::int)"
  shows "P r"
  using assms by auto

lemma lunar_correction:
  assumes "15 \<le> (c::int)"
  shows "(c - (c - 17) sdiv 25) sdiv 3 = (8 * c + 13) div 25"
proof (cases "17 \<le> c")
  case False
  then consider "c = 15" | "c = 16" using assms by linarith
  then show ?thesis by cases (simp_all add: signed_divide_int_def)
next
  case True
  define q r where "q = c div 75" and "r = c mod 75"
  have c: "c = 75 * q + r" "0 \<le> r" "r < 75" by (simp_all add: q_def r_def)
  have k: "(c - 17) div 25 = 3 * q + (r - 17) div 25"
    using div_mult_self2 [of 25 "r - 17" "3 * q"] by (simp add: c(1) algebra_simps)
  have "(c - (c - 17) div 25) div 3 = 24 * q + (r - (r - 17) div 25) div 3"
    using div_mult_self2 [of 3 "r - (r - 17) div 25" "24 * q"] unfolding k c(1) by (simp add: algebra_simps)
  moreover have "(8 * c + 13) div 25 = 24 * q + (8 * r + 13) div 25"
    using div_mult_self2 [of 25 "8 * r + 13" "24 * q"] unfolding c(1) by (simp add: algebra_simps)
  moreover have "(r - (r - 17) div 25) div 3 = (8 * r + 13) div 25"
    by (rule all_below_75 [OF _ c(2,3)]) code_simp
  moreover have "0 \<le> (c - 17) div 25" "(c - 17) div 25 \<le> c"
    using True div_bounds [of 25 "c - 17"] by linarith+
  ultimately show ?thesis using True by (simp add: sdiv_nonneg)
qed

lemma solar_correction: "3 * (c + 1) div 4 = c - c div (4::int)"
  by presburger

text \<open>Days from March 21st to the paschal full moon, and the two exceptions of the epacts.\<close>

definition moon_adj :: "int \<Rightarrow> int \<Rightarrow> int" where
  "moon_adj i n = (if i = 29 then 28 else if i = 28 \<and> 10 < n then 27 else i)"

lemma moon_adj_code:
  assumes "0 \<le> i" "i < 30" "0 \<le> n" "n < 19"
  shows "i - (i sdiv 28) * (1 - (i sdiv 28) * (29 sdiv (i + 1)) * ((21 - n) sdiv 11)) = moon_adj i n"
proof -
  have "(21 - n) sdiv 11 = (if 10 < n then 0 else 1)"
    using assms by (auto simp: sdiv_nonneg zdiv_eq_0_iff int_div_pos_eq [of "21 - n" 11 1 "10 - n"])
  moreover consider "i < 28" | "i = 28" | "i = 29" using assms by linarith
  then have "i sdiv 28 = (if i < 28 then 0 else 1)" "28 \<le> i \<Longrightarrow> 29 sdiv (i + 1) = (if i = 28 then 1 else 0)"
    using assms by (cases; simp add: sdiv_nonneg)+
  ultimately show ?thesis using assms by (auto simp: moon_adj_def)
qed

lemma moon_adj_range: "0 \<le> i \<Longrightarrow> i < 30 \<Longrightarrow> 0 \<le> moon_adj i n \<and> moon_adj i n \<le> 28"
  by (auto simp: moon_adj_def)

lemma epact_moon:
  assumes "e0 = (53 - x) mod 30" "i0 = x mod 30" "e = (if e0 = 25 \<and> n + 1 > 11 \<or> e0 = 24 then e0 + 1 else e0)"
  shows "(if 44 - e < 21 then 74 - e else 44 - e) = 21 + moon_adj i0 n"
proof -
  have i: "0 \<le> i0" "i0 < 30" "x = i0 + 30 * (x div 30)" using assms(2) by simp_all
  have "53 - x = (53 - i0) + 30 * (- (x div 30))" using i(3) by linarith
  then have "e0 = (53 - i0) mod 30" using assms(1) by (simp only: mod_mult_self2)
  moreover have "(53 - i0) mod 30 = (23 - i0) mod 30" using mod_add_self2 [of "23 - i0" 30] by simp
  ultimately have "e0 = (if i0 \<le> 23 then 23 - i0 else 53 - i0)" using i by auto
  then show ?thesis using assms(3) i by (auto simp: moon_adj_def)
qed

text \<open>The closed formula in terms of the moon and of the Sunday after it.\<close>

definition paschal :: "int \<Rightarrow> int" where
  "paschal y = (let c = y div 100; n = y mod 19
     in moon_adj ((c - c div 4 - (8 * c + 13) div 25 + 19 * n + 15) mod 30) n)"

definition sunday_off :: "int \<Rightarrow> int" where
  "sunday_off y = (y + y div 4 + paschal y + 2 - y div 100 + y div 100 div 4) mod 7"

lemma paschal_range: "0 \<le> paschal y \<and> paschal y \<le> 28"
  unfolding paschal_def Let_def by (rule moon_adj_range) simp_all

lemma sunday_off_range: "0 \<le> sunday_off y \<and> sunday_off y < 7"
  by (simp add: sunday_off_def)

definition march :: "int \<Rightarrow> int \<Rightarrow> date" where
  "march y d = (if d > 31 then mk_date y 4 (d - 31) else mk_date y 3 d)"

lemma easterg_march:
  assumes y: "1583 \<le> y"
  shows "easterg y = march y (28 + paschal y - sunday_off y)"
proof -
  let ?c = "y div 100" and ?n = "y mod 19"
  let ?x = "?c - ?c div 4 - (8 * ?c + 13) div 25 + 19 * ?n + 15"
  have c: "15 \<le> ?c" using y div_bounds [of 100 y] by linarith
  have yd: "y smod 19 = ?n" "y sdiv 100 = ?c" "y sdiv 4 = y div 4" "?c sdiv 4 = ?c div 4"
    using y c by (simp_all add: sdiv_nonneg smod_nonneg)
  have "0 \<le> ?n" by simp
  moreover have "0 \<le> ?c - ?c div 4 - (8 * ?c + 13) div 25"
    using c div_bounds [of 4 ?c] div_bounds [of 25 "8 * ?c + 13"] by linarith
  ultimately have x: "?x smod 30 = ?x mod 30" by (intro smod_nonneg) simp_all
  have i: "(?x mod 30) - ((?x mod 30) sdiv 28) * (1 - ((?x mod 30) sdiv 28) * (29 sdiv ((?x mod 30) + 1)) * ((21 - ?n) sdiv 11))
      = paschal y"
    unfolding paschal_def Let_def by (rule moon_adj_code) simp_all
  note p = paschal_range [of y]
  have "0 \<le> y - ?c" using y div_bounds [of 100 y] by linarith
  then have j: "(y + y div 4 + paschal y + 2 - ?c + ?c div 4) smod 7 = sunday_off y"
    unfolding sunday_off_def using c y p div_bounds [of 4 y] div_bounds [of 4 ?c]
    by (intro smod_nonneg) linarith+
  have s: "0 \<le> sunday_off y" "sunday_off y < 7" by (simp_all add: sunday_off_def)
  define l where "l = paschal y - sunday_off y"
  have l: "- 6 \<le> l" "l \<le> 28" using p s by (simp_all add: l_def)
  have "(l + 40) sdiv 44 = (if l < 4 then 0 else 1)"
    using l by (auto simp: sdiv_nonneg zdiv_eq_0_iff int_div_pos_eq [of "l + 40" 44 1 "l - 4"])
  then show ?thesis
    unfolding easterg_def Let_def yd lunar_correction [OF c] x i j l_def [symmetric] march_def
    using l by (auto simp: l_def sdiv_nonneg)
qed

lemma computus_march:
  assumes y: "1583 \<le> y"
  shows "computus y = march y (28 + paschal y - sunday_off y)"
proof -
  let ?c = "y div 100" and ?n = "y mod 19"
  let ?x = "?c - ?c div 4 - (8 * ?c + 13) div 25 + 19 * ?n + 15"
  have e: "(11 * (?n + 1) + 20 + ((8 * (?c + 1) + 5) div 25 - 5) - (3 * (?c + 1) div 4 - 12)) mod 30
      = (53 - ?x) mod 30"
  proof -
    have "11 * (?n + 1) + 20 + ((8 * (?c + 1) + 5) div 25 - 5) - (3 * (?c + 1) div 4 - 12)
        = 53 - ?x + 30 * ?n" unfolding solar_correction by (simp add: algebra_simps)
    then show ?thesis by (simp only: mod_mult_self2)
  qed
  note moon = epact_moon [OF refl refl refl, of ?x ?n, folded e]
  have m: "moon_adj (?x mod 30) ?n = paschal y" by (simp add: paschal_def Let_def)
  have d: "5 * y div 4 - (3 * (?c + 1) div 4 - 12) - 10 + (21 + paschal y)
      = (y + y div 4 + paschal y + 2 - ?c + ?c div 4) + 7 * 3"
  proof -
    have "5 * y div 4 = y + y div 4" using div_mult_self2 [of 4 y y] by simp
    then show ?thesis by (simp add: solar_correction)
  qed
  have s: "21 + paschal y + 7 - sunday_off y = 28 + paschal y - sunday_off y" by simp
  show ?thesis
    unfolding computus_def Let_def moon m d mod_mult_self2 sunday_off_def [symmetric] s march_def
    by (rule refl)
qed

lemma gstart_century:
  assumes "1583 \<le> y"
  shows "gstart y = 365 * y + y div 4 + 2 - y div 100 + y div 100 div 4"
proof (cases "1600 \<le> y")
  case True
  have "(y - 1600) div 100 = y div 100 - 16"
    using div_mult_self2 [of 100 "y" "-16"] by simp
  moreover have "(y - 1600) div 400 = y div 100 div 4 - 4"
    using div_mult_self2 [of 400 "y" "-4"] zdiv_zmult2_eq [of 4 y 100] by simp
  ultimately show ?thesis using True by (simp add: gstart_eq jstart_def sdiv_nonneg)
next
  case False
  then have "y div 100 = 15" using assms by linarith
  then show ?thesis using False assms by (simp add: gstart_late jstart_def sdiv_nonneg)
qed

lemma ndaysg_march:
  assumes "1583 \<le> y" "22 \<le> d" "d \<le> 56"
  shows "valid_g (march y d) \<and> ndaysg (march y d) = gstart y + d - 1"
proof -
  have "gok y (if d > 31 then 1 else 0) (if d > 31 then d - 32 else d - 1)"
    using assms by (simp add: gok_def idays_def)
  from ndaysgi_off [OF this] show ?thesis
    using assms
    by (auto simp: march_def ndaysg_def date2idt_def goff_def gtab_def month_tables valid_g_def date_in_def
        mdays_def split: if_splits)
qed

lemma sunday_number:
  assumes "1583 \<le> y"
  shows "weekday (gstart y + (28 + paschal y - sunday_off y) - 1) = 6"
proof -
  define a b c p where "a = y div 4" and "b = y div 100" and "c = y div 100 div 4" and "p = paschal y"
  define q where "q = (y + a + p + 2 - b + c) div 7"
  have s: "y + a + p + 2 - b + c = 7 * q + sunday_off y"
    unfolding sunday_off_def q_def a_def b_def c_def p_def by (rule mult_div_mod_eq [symmetric])
  have g: "gstart y = 365 * y + a + 2 - b + c" using gstart_century [OF assms] by (simp add: a_def b_def c_def)
  have "gstart y + (28 + p - sunday_off y) - 1 - 729652 = 6 + 7 * (52 * y + q - 104233)"
    unfolding g using s by presburger
  then show ?thesis unfolding weekday_mod p_def by (simp only: mod_mult_self2) simp
qed

text \<open>
  C33. For every year from 1583 on the closed formula of easterg gives the date of the
  published computus (golden number, epact with its two exceptions, solar and lunar
  corrections, first Sunday after the paschal full moon); it is an existing date between March
  22nd and April 25th, and weekday says that it is a Sunday.
\<close>

theorem easterg_computus:
  assumes "1583 \<le> y"
  shows "easterg y = computus y \<and> valid_g (easterg y) \<and> weekday (ndaysg (easterg y)) = 6
    \<and> date_y (easterg y) = y
    \<and> (date_m (easterg y) = 3 \<and> 22 \<le> date_d (easterg y) \<or> date_m (easterg y) = 4 \<and> date_d (easterg y) \<le> 25)"
proof -
  let ?d = "28 + paschal y - sunday_off y"
  have d: "22 \<le> ?d" "?d \<le> 56"
    using paschal_range [of y] sunday_off_range [of y] by linarith+
  show ?thesis
    using ndaysg_march [OF assms d] sunday_number [OF assms] d
    unfolding easterg_march [OF assms] computus_march [OF assms] by (auto simp: march_def)
qed

theorem easterg_computus_witness:
  "easterg 1997 = mk_date 1997 3 30 \<and> computus 1997 = mk_date 1997 3 30 \<and> weekday (ndaysg (mk_date 1997 3 30)) = 6"
proof -
  have "easterg 1997 = mk_date 1997 3 30" by code_simp
  moreover have "easterg 1997 = computus 1997" "weekday (ndaysg (easterg 1997)) = 6"
    using easterg_computus [of 1997] by auto
  ultimately show ?thesis by metis
qed

subsection \<open>Easter of the Julian calendar\<close>

definition easter_limit :: "int \<Rightarrow> date" where
  "easter_limit y = (let d = mc ! nat (y mod 19) in mk_date y (if d < 21 then 4 else 3) d)"

lemma mc_range: "0 \<le> y \<Longrightarrow> mc ! nat (y mod 19) \<in> {1..18} \<union> {21..30}"
proof -
  have "\<forall>k < 19. mc ! k \<in> {1..18} \<union> {21..30}"
    by (simp add: mc_def All_less_Suc numeral_eq_Suc)
  then show ?thesis by (simp add: nat_less_iff)
qed

lemma next_sunday:
  shows "weekday (dn + ns ! nat (weekday dn)) = 6" "1 \<le> ns ! nat (weekday dn)" "ns ! nat (weekday dn) \<le> 7"
proof -
  define w where "w = weekday dn"
  have "w = 0 \<or> w = 1 \<or> w = 2 \<or> w = 3 \<or> w = 4 \<or> w = 5 \<or> w = 6"
    using weekday_range [of dn] unfolding w_def by linarith
  then have k: "ns ! nat w = (if w = 6 then 7 else 6 - w)" "0 \<le> w" "w \<le> 6" by (auto simp: ns_def)
  show "1 \<le> ns ! nat (weekday dn)" "ns ! nat (weekday dn) \<le> 7" using k by (auto simp: w_def)
  define q where "q = (dn - 729652) div 7"
  have "dn - 729652 = 7 * q + w" unfolding w_def weekday_mod q_def by (rule mult_div_mod_eq [symmetric])
  then have "dn + (if w = 6 then 7 else 6 - w) - 729652 = 6 + 7 * (if w = 6 then q + 1 else q)" by simp
  then have "weekday (dn + (if w = 6 then 7 else 6 - w)) = 6"
    unfolding weekday_mod by (simp only: mod_mult_self2) simp
  then show "weekday (dn + ns ! nat (weekday dn)) = 6" using k by (simp add: w_def)
qed

text \<open>Days from March 1st on in the Julian calendar, as offsets into the internal year.\<close>

lemma julian_spring:
  assumes "0 \<le> y" "0 \<le> k" "k < 61"
  shows "jdate (jstart y + k) =
    Some (if k < 31 then mk_date y 3 (k + 1) else mk_date y 4 (k - 30))"
proof -
  have "jok y (if k < 31 then 0 else 1) (if k < 31 then k else k - 31)"
    using assms by (simp add: jok_def idays_def)
  from jdate_off [OF this] show ?thesis by (auto simp: month1_def idt2date_def)
qed

lemma easter_limit_number:
  assumes "0 \<le> y"
  obtains k where "ndaysj (easter_limit y) = jstart y + k" "20 \<le> k" "k \<le> 48"
proof -
  define d where "d = mc ! nat (y mod 19)"
  have "d \<in> {1..18} \<union> {21..30}" using mc_range [OF assms] by (simp add: d_def)
  then have "ndaysj (easter_limit y) = jstart y + (if d < 21 then 30 + d else d - 1)"
    "20 \<le> (if d < 21 then 30 + d else d - 1)" "(if d < 21 then 30 + d else d - 1) \<le> 48"
    using assms by (auto simp: easter_limit_def ndaysj_def date2idt_def ndaysji_def jstart_def month1_def
        Let_def d_def [symmetric])
  then show thesis using that by blast
qed

lemma easterodn_limit:
  "0 \<le> y \<Longrightarrow> easterodn y = ndaysj (easter_limit y) + ns ! nat (weekday (ndaysj (easter_limit y)))"
  by (simp add: easterodn_def easter_limit_def smod_nonneg Let_def)

text \<open>
  For every year from 0 on easteroj ends with a date of that year between March 22nd and
  April 25th of the Julian calendar, which is the first Sunday strictly after the Easter limit
  of the metonic cycle, and easterog ends with the Gregorian date of the same day.
\<close>

theorem easter_julian:
  assumes "0 \<le> y"
  shows "\<exists>dt dg. easteroj y = Some dt \<and> easterog y = Some dg \<and> ndaysg dg = ndaysj dt
    \<and> weekday (ndaysj dt) = 6
    \<and> ndaysj (easter_limit y) < ndaysj dt \<and> ndaysj dt \<le> ndaysj (easter_limit y) + 7
    \<and> date_y dt = y \<and> (date_m dt = 3 \<and> 22 \<le> date_d dt \<or> date_m dt = 4 \<and> date_d dt \<le> 25)"
proof -
  let ?e = "easterodn y"
  obtain k where k: "ndaysj (easter_limit y) = jstart y + k" "20 \<le> k" "k \<le> 48"
    using easter_limit_number [OF assms] by blast
  define s where "s = ns ! nat (weekday (jstart y + k))"
  note sun = next_sunday [of "jstart y + k", folded s_def]
  have e: "?e = jstart y + (k + s)" using easterodn_limit [OF assms] k by (simp add: s_def)
  have pos: "0 \<le> ?e" using e k sun jstart_sign(1) [OF assms] assms by simp
  obtain dt where dt: "jdate ?e = Some dt" "ndaysj dt = ?e" using jul.date_of_cases [OF pos] by blast
  obtain dg where dg: "gdate ?e = Some dg" "ndaysg dg = ?e" using greg.date_of_cases [OF pos] by blast
  have "dt = (if k + s < 31 then mk_date y 3 (k + s + 1) else mk_date y 4 (k + s - 30))"
    using julian_spring [OF assms, of "k + s"] k sun dt e by simp
  moreover have "weekday ?e = 6" using sun(1) e by (simp add: add.assoc)
  ultimately show ?thesis
    using dt dg k sun(2,3) e by (auto simp: easteroj_def easterog_def)
qed

theorem easter_julian_witness:
  "\<exists>dt dg. easteroj 2024 = Some dt \<and> easterog 2024 = Some dg \<and> ndaysg dg = ndaysj dt
    \<and> weekday (ndaysj dt) = 6
    \<and> ndaysj (easter_limit 2024) < ndaysj dt \<and> ndaysj dt \<le> ndaysj (easter_limit 2024) + 7
    \<and> date_y dt = 2024 \<and> (date_m dt = 3 \<and> 22 \<le> date_d dt \<or> date_m dt = 4 \<and> date_d dt \<le> 25)"
  using easter_julian [of 2024] by simp

end
