(* ===== verification/C_Stdio.thy ===== *)
theory C_Stdio
  imports Cmd_Prelude
begin

text \<open>
  The line input of the C library, as the commands use it: fgets on a stream that is the list
  of its remaining bytes. A line is cut at the newline or when the buffer is full, and what
  follows a NUL byte in the buffer is invisible to the string functions.
\<close>

abbreviation NUL :: char where "NUL \<equiv> CHR 0x00"
abbreviation CR :: char where "CR \<equiv> CHR 0x0D"
abbreviation TAB :: char where "TAB \<equiv> CHR 0x09"

fun take_line :: "nat \<Rightarrow> string \<Rightarrow> string \<times> string" where
  "take_line 0 xs = ([], xs)"
| "take_line (Suc k) [] = ([], [])"
| "take_line (Suc k) (c # cs) =
     (if c = NL then ([c], cs) else case take_line k cs of (l, r) \<Rightarrow> (c # l, r))"

definition fgets :: "nat \<Rightarrow> string \<Rightarrow> (string \<times> string) option" where
  "fgets n inp =
     (if n \<le> 1 then Some ([], inp) else if inp = [] then None else Some (take_line (n - 1) inp))"

definition cstr :: "string \<Rightarrow> string" where "cstr l = takeWhile (\<lambda>c. c \<noteq> NUL) l"

text \<open>Every line read makes the stream shorter, so loops over the lines of a file end.\<close>

lemma take_line_length: "take_line k xs = (l, r) \<Longrightarrow> length l + length r = length xs"
  by (induction k xs arbitrary: l r rule: take_line.induct) (auto split: if_splits prod.splits)

lemma take_line_pos: "take_line (Suc k) xs = (l, r) \<Longrightarrow> xs \<noteq> [] \<Longrightarrow> l \<noteq> []"
  by (cases xs) (auto split: if_splits prod.splits)

lemma fgets_None: "fgets n xs = None \<Longrightarrow> xs = []"
  by (simp add: fgets_def split: if_splits)

lemma fgets_length: "fgets n xs = Some (l, r) \<Longrightarrow> length r \<le> length xs"
  by (auto simp: fgets_def split: if_splits dest: take_line_length)

lemma fgets_less: "1 < n \<Longrightarrow> fgets n xs = Some (l, r) \<Longrightarrow> length r < length xs"
  using take_line_pos [of "n - 2" xs l r] take_line_length [of "n - 1" xs l r]
  by (cases l) (auto simp: fgets_def Suc_diff_Suc numeral_2_eq_2 split: if_splits)

text \<open>A line that fits into the buffer is read whole.\<close>

lemma take_line_whole: "NL \<notin> set l \<Longrightarrow> length l < k \<Longrightarrow> take_line k (l @ NL # r) = (l @ [NL], r)"
proof (induction l arbitrary: k)
  case Nil
  then show ?case by (cases k) auto
next
  case (Cons c l)
  then show ?case by (cases k) auto
qed

lemma fgets_whole: "NL \<notin> set l \<Longrightarrow> length l + 1 < n \<Longrightarrow> fgets n (l @ NL # r) = Some (l @ [NL], r)"
  by (simp add: fgets_def take_line_whole)

lemma cstr_plain: "NUL \<notin> set l \<Longrightarrow> cstr l = l"
  by (simp add: cstr_def takeWhile_eq_all_conv) metis

end
