(* ===== verification/C_Number.thy ===== *)
theory C_Number
  imports Cmd_Prelude
begin

text \<open>
  Decimal numbers as printf writes them, and that strtol reads back what was written: \<open>decimal\<close> is
  \<open>%u\<close> and \<open>print_int\<close> is \<open>%jd\<close>.
\<close>

fun decimal :: "nat \<Rightarrow> string" where
  "decimal n = (if n < 10 then [char_of (48 + n)] else decimal (n div 10) @ [char_of (48 + n mod 10)])"

declare decimal.simps [simp del]

definition print_int :: "int \<Rightarrow> string" where
  "print_int i = (if i < 0 then CHR ''-'' # decimal (nat (- i)) else decimal (nat i))"

subsection \<open>Digits\<close>

lemma digit_byte:
  assumes "k < (10::nat)"
  shows "digit_val (char_of (48 + k)) = int k" "isdigit (char_of (48 + k))" "\<not> isspace (char_of (48 + k))"
    "char_of (48 + k) \<noteq> CHR ''+''" "char_of (48 + k) \<noteq> CHR ''-''" "char_of (48 + k) = CHR ''0'' \<longleftrightarrow> k = 0"
proof -
  have "list_all (\<lambda>k. digit_val (char_of (48 + k)) = int k \<and> isdigit (char_of (48 + k)) \<and> \<not> isspace (char_of (48 + k))
    \<and> char_of (48 + k) \<noteq> CHR ''+'' \<and> char_of (48 + k) \<noteq> CHR ''-''
    \<and> (char_of (48 + k) = CHR ''0'' \<longleftrightarrow> k = 0)) [0..<10]" by code_simp
  then have "digit_val (char_of (48 + k)) = int k \<and> isdigit (char_of (48 + k)) \<and> \<not> isspace (char_of (48 + k))
    \<and> char_of (48 + k) \<noteq> CHR ''+'' \<and> char_of (48 + k) \<noteq> CHR ''-'' \<and> (char_of (48 + k) = CHR ''0'' \<longleftrightarrow> k = 0)"
    using assms by (simp only: list_all_iff set_upt atLeastLessThan_iff) simp
  then show "digit_val (char_of (48 + k)) = int k" "isdigit (char_of (48 + k))" "\<not> isspace (char_of (48 + k))"
    "char_of (48 + k) \<noteq> CHR ''+''" "char_of (48 + k) \<noteq> CHR ''-''" "char_of (48 + k) = CHR ''0'' \<longleftrightarrow> k = 0"
    by blast+
qed

lemma decimal_digits: "\<forall>c \<in> set (decimal n). \<exists>k < (10::nat). c = char_of (48 + k)"
proof (induction n rule: decimal.induct)
  case (1 n)
  then show ?case by (subst decimal.simps) (auto intro: exI [of _ "n mod 10"])
qed

lemma decimal_nonempty: "decimal n \<noteq> []"
  by (subst decimal.simps) simp

lemma decimal_head: "0 < n \<Longrightarrow> \<exists>k::nat. 0 < k \<and> k < 10 \<and> hd (decimal n) = char_of (48 + k)"
proof (induction n rule: decimal.induct)
  case (1 n)
  show ?case
  proof (cases "n < 10")
    case True
    then show ?thesis using 1(2) by (subst decimal.simps) auto
  next
    case False
    then have "0 < n div 10" by simp
    then show ?thesis using 1(1) [OF False] False decimal_nonempty [of "n div 10"] by (subst decimal.simps) simp
  qed
qed

lemma decimal_cons:
  obtains c t k where "decimal n = c # t" "k < (10::nat)" "c = char_of (48 + k)" "n = 0 \<longleftrightarrow> k = 0"
proof -
  obtain c t where d: "decimal n = c # t" using decimal_nonempty [of n] by (cases "decimal n") auto
  show ?thesis
  proof (cases "n = 0")
    case True
    then show ?thesis using that [of c t 0] d by (simp add: decimal.simps)
  next
    case False
    then show ?thesis using decimal_head [of n] that [of c t] d by auto
  qed
qed

lemma scan_decimal: "scan_digits 10 acc (decimal n @ r) = scan_digits 10 (acc * 10 ^ length (decimal n) + int n) r"
proof (induction n arbitrary: acc r rule: decimal.induct)
  case (1 n)
  show ?case
  proof (cases "n < 10")
    case True
    then show ?thesis using digit_byte(1) [OF True] by (simp add: decimal.simps [of n])
  next
    case False
    have d: "digit_val (char_of (48 + n mod 10)) = int (n mod 10)" by (rule digit_byte(1)) simp
    have "scan_digits 10 acc (decimal n @ r) = scan_digits 10 acc (decimal (n div 10) @ char_of (48 + n mod 10) # r)"
      using False by (simp add: decimal.simps [of n])
    also have "\<dots> = scan_digits 10 (acc * 10 ^ length (decimal (n div 10)) + int (n div 10)) (char_of (48 + n mod 10) # r)"
      by (rule 1 [OF False])
    also have "\<dots> = scan_digits 10 ((acc * 10 ^ length (decimal (n div 10)) + int (n div 10)) * 10 + int (n mod 10)) r"
      using d by simp
    also have "(acc * 10 ^ length (decimal (n div 10)) + int (n div 10)) * 10 + int (n mod 10)
        = acc * 10 ^ length (decimal n) + int n"
      using False by (simp add: decimal.simps [of n] algebra_simps zdiv_int zmod_int)
    finally show ?thesis .
  qed
qed

subsection \<open>strtol reads what was printed\<close>

definition after_number :: "string \<Rightarrow> bool" where
  "after_number r \<longleftrightarrow> r = [] \<or> (16 \<le> digit_val (hd r) \<and> hd r \<noteq> CHR ''x'' \<and> hd r \<noteq> CHR ''X'')"

lemma after_number_scan: "after_number r \<Longrightarrow> b \<le> 16 \<Longrightarrow> scan_digits b acc r = (acc, r)"
  by (cases r) (auto simp: after_number_def)

lemma decimal_base:
  assumes "after_number r"
  obtains b where "strip_base (decimal n @ r) = (b, decimal n @ r)" "scan_digits b 0 (decimal n @ r) = (int n, r)"
    "digit_val (hd (decimal n)) < b"
proof (cases "n = 0")
  case True
  have d: "decimal 0 = ''0''" "digit_val (CHR ''0'') = 0" by code_simp+
  have "\<not> is_prefix ''0x'' (CHR ''0'' # r)" "\<not> is_prefix ''0X'' (CHR ''0'' # r)"
    using assms by (cases r; auto simp: is_prefix_def after_number_def)+
  then have "strip_base (decimal n @ r) = (8, decimal n @ r)" using True d(1) by (simp add: strip_base_def is_prefix_def)
  then show ?thesis using that [of 8] True d after_number_scan [OF assms, of 8] by simp
next
  case False
  obtain c t k where d: "decimal n = c # t" "k < (10::nat)" "c = char_of (48 + k)" "n = 0 \<longleftrightarrow> k = 0" using decimal_cons .
  then have "c \<noteq> CHR ''0''" using digit_byte(6) [OF d(2)] False by simp
  then have "strip_base (decimal n @ r) = (10, decimal n @ r)" using d(1) by (simp add: strip_base_def is_prefix_def)
  moreover have "digit_val c < 10" using digit_byte(1) [OF d(2)] d(2,3) by simp
  ultimately show ?thesis using that [of 10] d(1) scan_decimal [of 0 n r] after_number_scan [OF assms, of 10] by simp
qed

lemma decimal_sign:
  "dropWhile isspace (decimal n @ r) = decimal n @ r" "strip_sign (decimal n @ r) = (False, decimal n @ r)"
proof -
  obtain c t k where d: "decimal n = c # t" "k < (10::nat)" "c = char_of (48 + k)" using decimal_cons .
  show "dropWhile isspace (decimal n @ r) = decimal n @ r" "strip_sign (decimal n @ r) = (False, decimal n @ r)"
    using d digit_byte(3,4,5) [OF d(2)] by (simp_all add: strip_sign_def)
qed

lemma print_int_sign:
  "dropWhile isspace (print_int i @ r) = print_int i @ r"
  "strip_sign (print_int i @ r) = (i < 0, decimal (nat \<bar>i\<bar>) @ r)"
proof -
  have "\<not> isspace (CHR ''-'')" by code_simp
  then show "dropWhile isspace (print_int i @ r) = print_int i @ r"
    "strip_sign (print_int i @ r) = (i < 0, decimal (nat \<bar>i\<bar>) @ r)"
    using decimal_sign [of "nat i" r] by (auto simp: print_int_def strip_sign_def [of "_ # _"])
qed

lemma strtol0_print_int:
  assumes "after_number r" "- (2 ^ 63) \<le> i" "i < 2 ^ 63"
  shows "strtol0 (print_int i @ r) = (i, r)"
proof -
  obtain b where b: "strip_base (decimal (nat \<bar>i\<bar>) @ r) = (b, decimal (nat \<bar>i\<bar>) @ r)"
    "scan_digits b 0 (decimal (nat \<bar>i\<bar>) @ r) = (int (nat \<bar>i\<bar>), r)" "digit_val (hd (decimal (nat \<bar>i\<bar>))) < b"
    using decimal_base [OF assms(1)] .
  have "clamp_long i = i" using assms(2,3) by (simp add: clamp_long_def)
  then show ?thesis
    using b decimal_nonempty [of "nat \<bar>i\<bar>"] by (simp add: strtol0_def print_int_sign hd_append)
qed

lemma strtol0_decimal: "after_number r \<Longrightarrow> n < 2 ^ 63 \<Longrightarrow> strtol0 (decimal n @ r) = (int n, r)"
  using strtol0_print_int [of r "int n"] by (simp add: print_int_def)

subsection \<open>strtol takes at least one digit\<close>

lemma scan_digits_less: "s \<noteq> [] \<Longrightarrow> digit_val (hd s) < b \<Longrightarrow> length (snd (scan_digits b acc s)) < length s"
  using scan_digits_length by (cases s) (auto simp: less_Suc_eq_le)

lemma isdigit_char:
  assumes "isdigit c" obtains k where "k < (10::nat)" "c = char_of (48 + k)"
proof -
  have "code c = int (of_char c)" unfolding code_def by (rule of_nat_of_char [symmetric])
  then have r: "48 \<le> (of_char c :: nat)" "(of_char c :: nat) \<le> 57" using assms by (simp_all add: isdigit_def iswdigit_def)
  have "char_of (of_char c :: nat) = c" by simp
  then show ?thesis using that [of "of_char c - 48"] r by simp
qed

lemma strtol0_digit_less:
  assumes "isdigit c" shows "length (snd (strtol0 (c # s))) < length (c # s)"
proof -
  obtain k where k: "k < (10::nat)" "c = char_of (48 + k)" using isdigit_char [OF assms] .
  obtain b s3 where b: "strip_base (c # s) = (b, s3)" by fastforce
  have "dropWhile isspace (c # s) = c # s" "strip_sign (c # s) = (False, c # s)"
    using digit_byte(3,4,5) [OF k(1)] k(2) by (simp_all add: strip_sign_def)
  moreover have d: "s3 \<noteq> [] \<and> digit_val (hd s3) < b"
    using b digit_byte(1,6) [OF k(1)] k by (auto simp: strip_base_def is_prefix_def split: if_splits)
  ultimately have "strtol0 (c # s) = (clamp_long (fst (scan_digits b 0 s3)), snd (scan_digits b 0 s3))"
    by (simp add: strtol0_def b split_def Let_def)
  then show ?thesis using scan_digits_less [of s3 b 0] d strip_length(2) [of "c # s"] b by simp
qed

end
