(* ===== verification/Unifdef_Base.thy ===== *)
theory Unifdef_Base
  imports C_Number
begin

text \<open>
  developer_cmds/unifdef/unifdef.c, first part: the enumerations, the global variables, the
  diagnostics and the state machine that decides which lines are kept. A pointer into the line
  buffer is the rest of the line; the pointer \<open>keyword\<close>, through which the line is edited, is an
  offset into \<open>tline\<close>. Functions that may not return (error, abort, usage, exit) give \<open>Stop\<close>
  with the reason and the state at that moment. Failing writes and the temporary file of an
  overwriting run are not modelled; \<open>input_bad\<close> says that the input ends with a read error,
  and \<open>uninit\<close> is the indeterminate value of an uninitialised local int.
\<close>

subsection \<open>Types and globals\<close>

datatype Directive =
    LT_TRUEI | LT_FALSEI | LT_IF | LT_TRUE | LT_FALSE | LT_ELIF | LT_ELTRUE | LT_ELFALSE
  | LT_ELSE | LT_ENDIF

datatype Linetype = LT Directive | LT_DODGY Directive | LT_PLAIN | LT_EOF | LT_ERROR

datatype Ifstate =
    IS_OUTSIDE | IS_FALSE_PREFIX | IS_TRUE_PREFIX | IS_PASS_MIDDLE | IS_FALSE_MIDDLE
  | IS_TRUE_MIDDLE | IS_PASS_ELSE | IS_FALSE_ELSE | IS_TRUE_ELSE | IS_FALSE_TRAILER

datatype Comment_state =
    NO_COMMENT | C_COMMENT | CXX_COMMENT | STARTING_COMMENT | FINISHING_COMMENT
  | CHAR_LITERAL | STRING_LITERAL

datatype Line_state = LS_START | LS_HASH | LS_DIRTY

definition MAXDEPTH :: nat where "MAXDEPTH = 64"
definition MAXLINE :: nat where "MAXLINE = 4096"
definition MAXSYMS :: nat where "MAXSYMS = 4096"
definition EDITSLOP :: nat where "EDITSLOP = 10"

text \<open>The position of a line type in the enumeration, which indexes the transition table.\<close>

fun directive_index :: "Directive \<Rightarrow> nat" where
  "directive_index LT_TRUEI = 0"
| "directive_index LT_FALSEI = 1"
| "directive_index LT_IF = 2"
| "directive_index LT_TRUE = 3"
| "directive_index LT_FALSE = 4"
| "directive_index LT_ELIF = 5"
| "directive_index LT_ELTRUE = 6"
| "directive_index LT_ELFALSE = 7"
| "directive_index LT_ELSE = 8"
| "directive_index LT_ENDIF = 9"

fun linetype_index :: "Linetype \<Rightarrow> nat" where
  "linetype_index (LT d) = directive_index d"
| "linetype_index (LT_DODGY d) = 10 + directive_index d"
| "linetype_index LT_PLAIN = 20"
| "linetype_index LT_EOF = 21"
| "linetype_index LT_ERROR = 22"

record uoptions =
  compblank :: bool
  lnblank :: bool
  complement :: bool
  iocccok :: bool
  strictlogic :: bool
  killconsts :: bool
  lnnum :: bool
  symlist :: bool
  symdepth :: bool
  text_file :: bool

record ustate = uoptions +
  symname :: "nat \<Rightarrow> string"
  symvalue :: "nat \<Rightarrow> string option"
  ignore :: "nat \<Rightarrow> bool"
  nsyms :: nat
  input :: string
  input_bad :: bool
  linenum :: nat
  out :: string
  stdout :: string
  tline :: string
  keyword :: nat
  newline :: "string option"
  incomment :: Comment_state
  linestate :: Line_state
  ifstate :: "Ifstate list"
  ignoring :: "bool list"
  stifline :: "nat list"
  depth :: nat
  delcount :: nat
  blankcount :: "32 word"
  blankmax :: "32 word"
  constexpr :: bool
  zerosyms :: bool
  firstsym :: bool
  exitstat :: int
  uninit :: int

text \<open>How a run ends: exit with a status, error() with its message (status 2), errx with a
  message (status 2), usage (status 2), or abort, which the code marks as a bug.\<close>

datatype stop = Exit int | Fatal string | Errx string | Usage | Abort

datatype 'a res = Ok 'a ustate | Stop stop ustate

type_synonym step = "ustate \<Rightarrow> unit res"

fun andthen :: "'a res \<Rightarrow> ('a \<Rightarrow> ustate \<Rightarrow> 'b res) \<Rightarrow> 'b res" where
  "andthen (Ok a s) f = f a s"
| "andthen (Stop x s) f = Stop x s"

text \<open>A compound of steps, run in order until one does not return.\<close>

fun steps :: "step list \<Rightarrow> step" where
  "steps [] s = Ok () s"
| "steps (f # fs) s = andthen (f s) (\<lambda>_. steps fs)"

lemma andthen_Ok [simp]: "andthen r f = Ok b t \<longleftrightarrow> (\<exists>a s. r = Ok a s \<and> f a s = Ok b t)"
  by (cases r) auto

lemma andthen_cong [fundef_cong]:
  "r = r' \<Longrightarrow> (\<And>a s. r' = Ok a s \<Longrightarrow> f a s = g a s) \<Longrightarrow> andthen r f = andthen r' g"
  by (cases r') auto

text \<open>What holds of a result: \<open>Q\<close> where it returns, \<open>E\<close> where it does not.\<close>

definition outcome :: "('a \<Rightarrow> ustate \<Rightarrow> bool) \<Rightarrow> (stop \<Rightarrow> ustate \<Rightarrow> bool) \<Rightarrow> 'a res \<Rightarrow> bool" where
  "outcome Q E r \<longleftrightarrow> (case r of Ok a t \<Rightarrow> Q a t | Stop x t \<Rightarrow> E x t)"

lemma outcome_simps [simp]: "outcome Q E (Ok a t) = Q a t" "outcome Q E (Stop x t) = E x t"
  by (simp_all add: outcome_def)

lemma outcome_andthen:
  "outcome P E r \<Longrightarrow> (\<And>a t. r = Ok a t \<Longrightarrow> P a t \<Longrightarrow> outcome Q E (f a t)) \<Longrightarrow> outcome Q E (andthen r f)"
  by (cases r) auto

lemma outcome_mono:
  "outcome P E r \<Longrightarrow> (\<And>a t. P a t \<Longrightarrow> Q a t) \<Longrightarrow> (\<And>x t. E x t \<Longrightarrow> F x t) \<Longrightarrow> outcome Q F r"
  by (cases r) auto

lemma outcome_Ok: "outcome Q E r \<Longrightarrow> r = Ok a t \<Longrightarrow> Q a t"
  by simp

subsection \<open>Diagnostics and the end of the run\<close>

text \<open>closeout flushes the output; with -S it ends the list of symbols on standard output.\<close>

definition closeout :: "ustate \<Rightarrow> ustate" where
  "closeout s = (if symdepth s \<and> \<not> zerosyms s then s\<lparr>stdout := stdout s @ [NL]\<rparr> else s)"

definition error :: "string \<Rightarrow> ustate \<Rightarrow> 'a res" where
  "error msg s = Stop (Fatal msg) (closeout s)"

definition abort :: "ustate \<Rightarrow> 'a res" where "abort s = Stop Abort s"

definition done_file :: step where
  "done_file s = (if incomment s \<noteq> NO_COMMENT then error ''EOF in comment'' s
     else let s' = closeout s in Stop (Exit (exitstat s')) s')"

subsection \<open>Output of a line\<close>

definition newline_str :: "ustate \<Rightarrow> string" where
  "newline_str s = (case newline s of Some n \<Rightarrow> n | None \<Rightarrow> [])"

definition blank_chars :: "char list" where "blank_chars = [CHR '' '', CHR 0x09, CHR 0x0D, NL]"

definition flushline :: "bool \<Rightarrow> step" where
  "flushline keep s =
     (if symlist s then Ok () s
      else if keep \<noteq> complement s then
        (let blankline = list_all (\<lambda>c. c \<in> set blank_chars) (tline s) in
         if blankline \<and> compblank s \<and> blankcount s \<noteq> blankmax s then
           Ok () (s\<lparr>delcount := delcount s + 1, blankcount := blankcount s + 1\<rparr>)
         else
           (let hash = (if lnnum s \<and> delcount s > 0 then ''#line '' @ decimal (linenum s) @ newline_str s else []);
                b = (if blankline then blankcount s + 1 else 0)
            in Ok () (s\<lparr>out := out s @ hash @ tline s, delcount := 0, blankcount := b, blankmax := b\<rparr>)))
      else
        Ok () (s\<lparr>out := out s @ (if lnblank s then newline_str s else []), exitstat := 1,
          delcount := delcount s + 1, blankcount := 0\<rparr>))"

subsection \<open>State machine utility functions\<close>

definition ignoreoff :: step where
  "ignoreoff s = (if depth s = 0 then abort s
     else Ok () (s\<lparr>ignoring := (ignoring s)[depth s := ignoring s ! (depth s - 1)]\<rparr>))"

definition ignoreon :: step where
  "ignoreon s = Ok () (s\<lparr>ignoring := (ignoring s)[depth s := True]\<rparr>)"

definition print :: step where "print s = flushline True s"
definition drop_line :: step where "drop_line s = flushline False s"

definition keywordedit :: "string \<Rightarrow> step" where
  "keywordedit replacement s =
     (let room = MAXLINE + EDITSLOP - keyword s
      in print (s\<lparr>tline := take (keyword s) (tline s) @ take (room - 1) (replacement @ newline_str s)\<rparr>))"

definition nest :: step where
  "nest s = (if depth s > MAXDEPTH - 1 then abort s
     else if depth s = MAXDEPTH - 1 then error ''Too many levels of nesting'' s
     else Ok () (s\<lparr>depth := depth s + 1, stifline := (stifline s)[depth s + 1 := linenum s]\<rparr>))"

definition unnest :: step where
  "unnest s = (if depth s = 0 then abort s else Ok () (s\<lparr>depth := depth s - 1\<rparr>))"

definition state :: "Ifstate \<Rightarrow> step" where
  "state is s = Ok () (s\<lparr>ifstate := (ifstate s)[depth s := is]\<rparr>)"

subsection \<open>The state transition functions\<close>

definition Eelif :: step where "Eelif = error ''Inappropriate #elif''"
definition Eelse :: step where "Eelse = error ''Inappropriate #else''"
definition Eendif :: step where "Eendif = error ''Inappropriate #endif''"
definition Eeof :: step where "Eeof = error ''Premature EOF''"
definition Eioccc :: step where "Eioccc = error ''Obfuscated preprocessor control line''"

definition Strue :: step where "Strue = steps [drop_line, ignoreoff, state IS_TRUE_PREFIX]"
definition Sfalse :: step where "Sfalse = steps [drop_line, ignoreoff, state IS_FALSE_PREFIX]"
definition Selse :: step where "Selse = steps [drop_line, state IS_TRUE_ELSE]"

definition Pelif :: step where "Pelif = steps [print, ignoreoff, state IS_PASS_MIDDLE]"
definition Pelse :: step where "Pelse = steps [print, state IS_PASS_ELSE]"
definition Pendif :: step where "Pendif = steps [print, unnest]"

definition Dfalse :: step where "Dfalse = steps [drop_line, ignoreoff, state IS_FALSE_TRAILER]"
definition Delif :: step where "Delif = steps [drop_line, ignoreoff, state IS_FALSE_MIDDLE]"
definition Delse :: step where "Delse = steps [drop_line, state IS_FALSE_ELSE]"
definition Dendif :: step where "Dendif = steps [drop_line, unnest]"

definition Fdrop :: step where "Fdrop = steps [nest, Dfalse]"
definition Fpass :: step where "Fpass = steps [nest, Pelif]"
definition Ftrue :: step where "Ftrue = steps [nest, Strue]"
definition Ffalse :: step where "Ffalse = steps [nest, Sfalse]"

definition pedantic :: step where "pedantic s = (if iocccok s then Ok () s else Eioccc s)"

definition Oiffy :: step where "Oiffy = steps [pedantic, Fpass, ignoreon]"
definition Oif :: step where "Oif = steps [pedantic, Fpass]"
definition Oelif :: step where "Oelif = steps [pedantic, Pelif]"

definition Idrop :: step where "Idrop = steps [Fdrop, ignoreon]"
definition Itrue :: step where "Itrue = steps [Ftrue, ignoreon]"
definition Ifalse :: step where "Ifalse = steps [Ffalse, ignoreon]"

definition edit_if :: step where
  "edit_if s = Ok () (s\<lparr>tline := take (keyword s) (tline s) @ ''if  '' @ drop (keyword s + 4) (tline s)\<rparr>)"

definition Mpass :: step where "Mpass = steps [edit_if, Pelif]"
definition Mtrue :: step where "Mtrue = steps [keywordedit ''else'', state IS_TRUE_MIDDLE]"
definition Melif :: step where "Melif = steps [keywordedit ''endif'', state IS_FALSE_TRAILER]"
definition Melse :: step where "Melse = steps [keywordedit ''endif'', state IS_FALSE_ELSE]"

fun trans_table :: "Ifstate \<Rightarrow> step list" where
  "trans_table IS_OUTSIDE =
    [Itrue, Ifalse, Fpass, Ftrue, Ffalse, Eelif, Eelif, Eelif, Eelse, Eendif,
     Oiffy, Oiffy, Fpass, Oif, Oif, Eelif, Eelif, Eelif, Eelse, Eendif,
     print, done_file, abort]"
| "trans_table IS_FALSE_PREFIX =
    [Idrop, Idrop, Fdrop, Fdrop, Fdrop, Mpass, Strue, Sfalse, Selse, Dendif,
     Idrop, Idrop, Fdrop, Fdrop, Fdrop, Mpass, Eioccc, Eioccc, Eioccc, Eioccc,
     drop_line, Eeof, abort]"
| "trans_table IS_TRUE_PREFIX =
    [Itrue, Ifalse, Fpass, Ftrue, Ffalse, Dfalse, Dfalse, Dfalse, Delse, Dendif,
     Oiffy, Oiffy, Fpass, Oif, Oif, Eioccc, Eioccc, Eioccc, Eioccc, Eioccc,
     print, Eeof, abort]"
| "trans_table IS_PASS_MIDDLE =
    [Itrue, Ifalse, Fpass, Ftrue, Ffalse, Pelif, Mtrue, Delif, Pelse, Pendif,
     Oiffy, Oiffy, Fpass, Oif, Oif, Pelif, Oelif, Oelif, Pelse, Pendif,
     print, Eeof, abort]"
| "trans_table IS_FALSE_MIDDLE =
    [Idrop, Idrop, Fdrop, Fdrop, Fdrop, Pelif, Mtrue, Delif, Pelse, Pendif,
     Idrop, Idrop, Fdrop, Fdrop, Fdrop, Eioccc, Eioccc, Eioccc, Eioccc, Eioccc,
     drop_line, Eeof, abort]"
| "trans_table IS_TRUE_MIDDLE =
    [Itrue, Ifalse, Fpass, Ftrue, Ffalse, Melif, Melif, Melif, Melse, Pendif,
     Oiffy, Oiffy, Fpass, Oif, Oif, Eioccc, Eioccc, Eioccc, Eioccc, Pendif,
     print, Eeof, abort]"
| "trans_table IS_PASS_ELSE =
    [Itrue, Ifalse, Fpass, Ftrue, Ffalse, Eelif, Eelif, Eelif, Eelse, Pendif,
     Oiffy, Oiffy, Fpass, Oif, Oif, Eelif, Eelif, Eelif, Eelse, Pendif,
     print, Eeof, abort]"
| "trans_table IS_FALSE_ELSE =
    [Idrop, Idrop, Fdrop, Fdrop, Fdrop, Eelif, Eelif, Eelif, Eelse, Dendif,
     Idrop, Idrop, Fdrop, Fdrop, Fdrop, Eelif, Eelif, Eelif, Eelse, Eioccc,
     drop_line, Eeof, abort]"
| "trans_table IS_TRUE_ELSE =
    [Itrue, Ifalse, Fpass, Ftrue, Ffalse, Eelif, Eelif, Eelif, Eelse, Dendif,
     Oiffy, Oiffy, Fpass, Oif, Oif, Eelif, Eelif, Eelif, Eelse, Eioccc,
     print, Eeof, abort]"
| "trans_table IS_FALSE_TRAILER =
    [Idrop, Idrop, Fdrop, Fdrop, Fdrop, Dfalse, Dfalse, Dfalse, Delse, Dendif,
     Idrop, Idrop, Fdrop, Fdrop, Fdrop, Dfalse, Dfalse, Dfalse, Delse, Eioccc,
     drop_line, Eeof, abort]"

definition transition :: "Linetype \<Rightarrow> step" where
  "transition lineval s = (trans_table (ifstate s ! depth s) ! linetype_index lineval) s"

end
