(* ===== verification/Unifdef_Lex.thy ===== *)
theory Unifdef_Lex
  imports C_Stdio Unifdef_Base "HOL-Library.Sublist"
begin

text \<open>
  unifdef.c, the lexical level: skipping of white space, comments, literals, macro arguments
  and identifiers, and the symbol table. The current character at the end of a string is NUL.
\<close>

abbreviation SQUOTE :: char where "SQUOTE \<equiv> CHR 0x27"
abbreviation DQUOTE :: char where "DQUOTE \<equiv> CHR 0x22"

fun cur :: "string \<Rightarrow> char" where
  "cur [] = NUL"
| "cur (c # cs) = c"

definition endsym :: "char \<Rightarrow> bool" where "endsym c \<longleftrightarrow> \<not> isalnum c \<and> c \<noteq> CHR ''_''"

subsection \<open>Comments and white space\<close>

fun skipspace :: "string \<Rightarrow> ustate \<Rightarrow> string res" where
  "skipspace [] s = Ok [] s"
| "skipspace (c # cs) s =
     (if isspace c then skipspace cs (if c = NL then s\<lparr>linestate := LS_START\<rparr> else s) else Ok (c # cs) s)"

text \<open>One round of the loop: go on at a later position (\<open>Inl\<close>), or stop there or with an error.\<close>

definition comment_step :: "string \<Rightarrow> ustate \<Rightarrow> (string \<times> ustate) + string res" where
  "comment_step cp s =
     (if is_prefix [BSLASH, CR, NL] cp then Inl (drop 3 cp, s)
      else if is_prefix [BSLASH, NL] cp then Inl (drop 2 cp, s)
      else case incomment s of
        NO_COMMENT \<Rightarrow>
          (if is_prefix [CHR ''/'', BSLASH, CR, NL] cp then Inl (drop 4 cp, s\<lparr>incomment := STARTING_COMMENT\<rparr>)
           else if is_prefix [CHR ''/'', BSLASH, NL] cp then Inl (drop 3 cp, s\<lparr>incomment := STARTING_COMMENT\<rparr>)
           else if is_prefix ''/*'' cp then Inl (drop 2 cp, s\<lparr>incomment := C_COMMENT\<rparr>)
           else if is_prefix ''//'' cp then Inl (drop 2 cp, s\<lparr>incomment := CXX_COMMENT\<rparr>)
           else if hd cp = SQUOTE then Inl (tl cp, s\<lparr>incomment := CHAR_LITERAL, linestate := LS_DIRTY\<rparr>)
           else if hd cp = DQUOTE then Inl (tl cp, s\<lparr>incomment := STRING_LITERAL, linestate := LS_DIRTY\<rparr>)
           else if hd cp = NL then Inl (tl cp, s\<lparr>linestate := LS_START\<rparr>)
           else if hd cp \<in> {CHR '' '', CR, TAB} then Inl (tl cp, s)
           else Inr (Ok cp s))
      | CXX_COMMENT \<Rightarrow>
          Inl (tl cp, if hd cp = NL then s\<lparr>incomment := NO_COMMENT, linestate := LS_START\<rparr> else s)
      | CHAR_LITERAL \<Rightarrow>
          (if hd cp = SQUOTE then Inl (tl cp, s\<lparr>incomment := NO_COMMENT\<rparr>)
           else if hd cp = BSLASH then Inl (if tl cp = [] then tl cp else drop 2 cp, s)
           else if hd cp = NL then Inr (error ''unterminated char literal'' s)
           else Inl (tl cp, s))
      | STRING_LITERAL \<Rightarrow>
          (if hd cp = DQUOTE then Inl (tl cp, s\<lparr>incomment := NO_COMMENT\<rparr>)
           else if hd cp = BSLASH then Inl (if tl cp = [] then tl cp else drop 2 cp, s)
           else if hd cp = NL then Inr (error ''unterminated string literal'' s)
           else Inl (tl cp, s))
      | C_COMMENT \<Rightarrow>
          (if is_prefix [CHR ''*'', BSLASH, CR, NL] cp then Inl (drop 4 cp, s\<lparr>incomment := FINISHING_COMMENT\<rparr>)
           else if is_prefix [CHR ''*'', BSLASH, NL] cp then Inl (drop 3 cp, s\<lparr>incomment := FINISHING_COMMENT\<rparr>)
           else if is_prefix ''*/'' cp then Inl (drop 2 cp, s\<lparr>incomment := NO_COMMENT\<rparr>)
           else Inl (tl cp, s))
      | STARTING_COMMENT \<Rightarrow>
          (if hd cp = CHR ''*'' then Inl (tl cp, s\<lparr>incomment := C_COMMENT\<rparr>)
           else if hd cp = CHR ''/'' then Inl (tl cp, s\<lparr>incomment := CXX_COMMENT\<rparr>)
           else Inl (cp, s\<lparr>incomment := NO_COMMENT, linestate := LS_DIRTY\<rparr>))
      | FINISHING_COMMENT \<Rightarrow>
          (if hd cp = CHR ''/'' then Inl (tl cp, s\<lparr>incomment := NO_COMMENT\<rparr>)
           else Inl (cp, s\<lparr>incomment := C_COMMENT\<rparr>)))"

definition pending :: "ustate \<Rightarrow> nat" where
  "pending s = (if incomment s \<in> {STARTING_COMMENT, FINISHING_COMMENT} then 1 else 0)"

lemma comment_step_Inl:
  assumes "cp \<noteq> []" "comment_step cp s = Inl (cp', t)"
  shows "suffix cp' cp \<and> t = s\<lparr>incomment := incomment t, linestate := linestate t\<rparr>
    \<and> (length cp' < length cp \<or> cp' = cp \<and> pending t < pending s)"
  using assms
  by (cases "incomment s")
    (auto simp: comment_step_def pending_def is_prefix_def suffix_drop neq_Nil_conv suffix_ConsI
      split: if_splits)

lemma comment_step_Inr:
  "comment_step cp s = Inr r \<Longrightarrow> r = Ok cp s \<or> (\<exists>m. r = error m s)"
  by (cases "incomment s") (auto simp: comment_step_def split: if_splits)

function scan_comment :: "string \<Rightarrow> ustate \<Rightarrow> string res" where
  "scan_comment cp s =
     (if cp = [] then Ok cp s
      else case comment_step cp s of Inl (cp', s') \<Rightarrow> scan_comment cp' s' | Inr r \<Rightarrow> r)"
  by pat_completeness auto
termination
  by (relation "measures [\<lambda>(cp, s). length cp, \<lambda>(cp, s). pending s]") (auto dest: comment_step_Inl)

declare scan_comment.simps [simp del]

definition skipcomment :: "string \<Rightarrow> ustate \<Rightarrow> string res" where
  "skipcomment cp s = (if text_file s \<or> ignoring s ! depth s then skipspace cp s else scan_comment cp s)"

subsection \<open>Identifiers and arguments\<close>

definition skipsym :: "string \<Rightarrow> string" where
  "skipsym cp = dropWhile (\<lambda>c. \<not> endsym c) cp"

text \<open>What skipcomment may change: the position, which only moves forward, and the comment and
  line states.\<close>

definition lexeq :: "ustate \<Rightarrow> ustate \<Rightarrow> bool" where
  "lexeq s t \<longleftrightarrow> t = s\<lparr>incomment := incomment t, linestate := linestate t\<rparr>"

lemma lexeq_refl: "lexeq s s"
  by (simp add: lexeq_def)

lemma lexeq_trans: "lexeq s t \<Longrightarrow> lexeq t u \<Longrightarrow> lexeq s u"
  unfolding lexeq_def by (cases s, cases t, cases u) simp

lemma lexeq_upd [simp]:
  "lexeq (s\<lparr>incomment := c\<rparr>) t = lexeq s t" "lexeq (s\<lparr>linestate := l\<rparr>) t = lexeq s t"
  unfolding lexeq_def by (cases s, cases t, simp)+

lemma suffix_tl: "cp \<noteq> [] \<Longrightarrow> suffix a (tl cp) \<Longrightarrow> suffix a cp"
  by (cases cp) (auto intro: suffix_ConsI)

lemma suffix_drop_trans: "suffix a (drop n cp) \<Longrightarrow> suffix a cp"
  by (meson suffix_drop suffix_order.trans)

definition lex_ok :: "string \<Rightarrow> ustate \<Rightarrow> string res \<Rightarrow> bool" where
  "lex_ok cp s r \<longleftrightarrow> (case r of Ok cp' t \<Rightarrow> suffix cp' cp \<and> lexeq s t | Stop x t \<Rightarrow> \<exists>m. x = Fatal m)"

lemma lex_ok_simps:
  "lex_ok cp s (Ok cp' t) \<longleftrightarrow> suffix cp' cp \<and> lexeq s t"
  "lex_ok cp s (error m t)"
  by (simp_all add: lex_ok_def error_def)

lemma lex_ok_step: "lex_ok cp' t r \<Longrightarrow> suffix cp' cp \<Longrightarrow> lexeq s t \<Longrightarrow> lex_ok cp s r"
  unfolding lex_ok_def by (auto split: res.splits intro: suffix_order.trans lexeq_trans)

lemma scan_comment_lex_ok: "lex_ok cp s (scan_comment cp s)"
proof (induction cp s rule: scan_comment.induct)
  case (1 cp s)
  show ?case
  proof (cases "cp = []")
    case False
    show ?thesis
    proof (cases "comment_step cp s")
      case (Inl p)
      obtain cp' t where p: "p = (cp', t)" by (cases p)
      then show ?thesis
        using 1 [OF False Inl p [symmetric]] comment_step_Inl [OF False, of s cp' t] Inl False
        by (simp add: scan_comment.simps [of cp s]) (rule lex_ok_step, auto simp: lexeq_def)
    next
      case (Inr r)
      then show ?thesis
        using comment_step_Inr [OF Inr] False
        by (auto simp: scan_comment.simps [of cp s] lex_ok_simps lexeq_refl)
    qed
  qed (simp add: scan_comment.simps lex_ok_simps lexeq_refl)
qed

lemma skipspace_lex_ok: "lex_ok cp s (skipspace cp s)"
proof (induction cp s rule: skipspace.induct)
  case (2 c cs s)
  then show ?case
    by (auto simp: lex_ok_simps lexeq_refl split: if_splits intro: lex_ok_step suffix_ConsI simp: lexeq_def)
qed (simp add: lex_ok_simps lexeq_refl)

lemma skipcomment_lex_ok: "lex_ok cp s (skipcomment cp s)"
  by (simp add: skipcomment_def scan_comment_lex_ok skipspace_lex_ok)

lemma skipcomment_Ok: "skipcomment cp s = Ok cp' t \<Longrightarrow> suffix cp' cp \<and> lexeq s t"
  using skipcomment_lex_ok [of cp s] by (simp add: lex_ok_simps)

lemma skipcomment_length: "skipcomment cp s = Ok cp' t \<Longrightarrow> length cp' \<le> length cp"
  by (auto dest: skipcomment_Ok suffix_length_le)

lemma skipcomment_Stop: "skipcomment cp s = Stop x t \<Longrightarrow> \<exists>m. x = Fatal m"
  using skipcomment_lex_ok [of cp s] by (simp add: lex_ok_def)

lemma lexeq_sel:
  assumes "lexeq s t"
  shows "input t = input s" "ifstate t = ifstate s" "ignoring t = ignoring s" "stifline t = stifline s"
    "depth t = depth s" "newline t = newline s" "tline t = tline s" "keyword t = keyword s"
    "constexpr t = constexpr s" "nsyms t = nsyms s" "symname t = symname s" "symvalue t = symvalue s"
    "ignore t = ignore s" "symlist t = symlist s" "strictlogic t = strictlogic s" "text_file t = text_file s"
    "symdepth t = symdepth s" "killconsts t = killconsts s"
proof -
  obtain c l where t: "t = s\<lparr>incomment := c, linestate := l\<rparr>" using assms unfolding lexeq_def by blast
  show "input t = input s" "ifstate t = ifstate s" "ignoring t = ignoring s" "stifline t = stifline s"
    "depth t = depth s" "newline t = newline s" "tline t = tline s" "keyword t = keyword s"
    "constexpr t = constexpr s" "nsyms t = nsyms s" "symname t = symname s" "symvalue t = symvalue s"
    "ignore t = ignore s" "symlist t = symlist s" "strictlogic t = strictlogic s" "text_file t = text_file s"
    "symdepth t = symdepth s" "killconsts t = killconsts s"
    by (simp_all add: t)
qed

function skipargs_loop :: "int \<Rightarrow> string \<Rightarrow> ustate \<Rightarrow> (int \<times> string) res" where
  "skipargs_loop level cp s =
     (let level' = (if cur cp = CHR ''('' then level + 1 else if cur cp = CHR '')'' then level - 1 else level)
      in andthen (skipcomment (tl cp) s) (\<lambda>cp' s'.
           if level' \<noteq> 0 \<and> cp' \<noteq> [] then skipargs_loop level' cp' s' else Ok (level', cp') s'))"
  by pat_completeness auto
termination
proof (relation "measure (\<lambda>(level, cp, s). length cp)", goal_cases)
  case (2 level cp s level' cp' s')
  then have "length cp' \<le> length (tl cp)" by (auto dest: skipcomment_length)
  moreover have "0 < length cp'" using 2 by simp
  ultimately show ?case by (cases cp) auto
qed simp

declare skipargs_loop.simps [simp del]

definition skipargs :: "string \<Rightarrow> ustate \<Rightarrow> string res" where
  "skipargs ocp s =
     andthen (skipcomment ocp s) (\<lambda>cp s1.
       if cur cp \<noteq> CHR ''('' then Ok cp s1
       else andthen (skipargs_loop 0 cp s1) (\<lambda>(level, cp') s2.
         if level = 0 then Ok cp' s2 else Ok ocp s2))"

end
