(* ===== verification/Unifdef_Syms.thy ===== *)
theory Unifdef_Syms
  imports Unifdef_Lex
begin

text \<open>
  unifdef.c, the symbol table filled by -D, -U and -i and searched by findsym. The parallel
  arrays symname, value and ignore are functions of the index below nsyms.
\<close>

text \<open>Compare s with n characters of t, and check that s ends there.\<close>

fun strlcmp :: "string \<Rightarrow> string \<Rightarrow> nat \<Rightarrow> int" where
  "strlcmp s t 0 = code (cur s)"
| "strlcmp s t (Suc n) =
     (if cur t = NUL then code (cur s)
      else if cur s \<noteq> cur t then code (cur s) - code (cur t)
      else strlcmp (tl s) (tl t) n)"

subsection \<open>The symbol table\<close>

definition pad3 :: "nat \<Rightarrow> string" where
  "pad3 n = (let d = decimal n in replicate (3 - length d) (CHR '' '') @ d)"

definition symlist_print :: "string \<Rightarrow> ustate \<Rightarrow> ustate" where
  "symlist_print name s =
     (let head = (if symdepth s \<and> firstsym s then (if zerosyms s then [] else [NL]) @ pad3 (depth s) else []);
          symb = (if symdepth s then '' '' @ name else name @ [NL])
      in s\<lparr>stdout := stdout s @ head @ symb, firstsym := False, zerosyms := False\<rparr>)"

text \<open>\<open>None\<close> stands for the result -1.\<close>

definition findsym :: "string \<Rightarrow> ustate \<Rightarrow> nat option \<times> ustate" where
  "findsym str s =
     (let n = length str - length (skipsym str) in
      if n = 0 then (None, s)
      else if symlist s then (Some 0, symlist_print (take n str) s)
      else (find (\<lambda>symind. strlcmp (symname s symind) str n = 0) [0..<nsyms s], s))"

definition addsym :: "bool \<Rightarrow> bool \<Rightarrow> string \<Rightarrow> step" where
  "addsym ignorethis definethis symb s =
     (let (found, s1) = findsym symb s in
      if found = None \<and> nsyms s1 \<ge> MAXSYMS then Stop (Errx ''too many symbols'') s1
      else
        (let (symind, s2) = (case found of Some i \<Rightarrow> (i, s1) | None \<Rightarrow> (nsyms s1, s1\<lparr>nsyms := nsyms s1 + 1\<rparr>));
             s3 = s2\<lparr>symname := (symname s2)(symind := symb), ignore := (ignore s2)(symind := ignorethis)\<rparr>;
             val = skipsym symb;
             setval = (\<lambda>v s. s\<lparr>symvalue := (symvalue s)(symind := v)\<rparr>)
         in if definethis then
              (if cur val = CHR ''='' then
                 Ok () (setval (Some (tl val)) (s3\<lparr>symname := (symname s3)(symind := take (length symb - length val) symb)\<rparr>))
               else if val = [] then Ok () (setval (Some ''1'') s3)
               else Stop Usage s3)
            else if val \<noteq> [] then Stop Usage s3
            else Ok () (setval None s3)))"

subsection \<open>What the comparison decides\<close>

lemma code_inj: "code a = code b \<longleftrightarrow> a = b"
  by (simp add: code_def)

lemma code_NUL: "code c = 0 \<longleftrightarrow> c = NUL"
  using code_inj [of c NUL] by (simp add: code_def)

lemma strlcmp_0:
  assumes "NUL \<notin> set s" "NUL \<notin> set t"
  shows "strlcmp s t n = 0 \<longleftrightarrow> s = take n t"
  using assms
proof (induction s t n rule: strlcmp.induct)
  case (1 s t)
  then show ?case by (cases s) (auto simp: code_NUL)
next
  case (2 s t n)
  show ?case
  proof (cases t)
    case Nil
    then show ?thesis using 2 by (cases s) (auto simp: code_NUL)
  next
    case (Cons c cs)
    then show ?thesis using 2 by (cases s) (auto simp: code_inj)
  qed
qed

text \<open>The table as a finite map from names to a definition and an ignore flag. An identifier is
  a non-empty run of identifier characters.\<close>

definition ident :: "string \<Rightarrow> bool" where
  "ident n \<longleftrightarrow> n \<noteq> [] \<and> (\<forall>c \<in> set n. \<not> endsym c)"

definition sym_index :: "ustate \<Rightarrow> string \<Rightarrow> nat option" where
  "sym_index s n = find (\<lambda>i. symname s i = n) [0..<nsyms s]"

definition symmap :: "ustate \<Rightarrow> string \<Rightarrow> (string option \<times> bool) option" where
  "symmap s n = map_option (\<lambda>i. (symvalue s i, ignore s i)) (sym_index s n)"

definition sym_ok :: "ustate \<Rightarrow> bool" where
  "sym_ok s \<longleftrightarrow> \<not> symlist s \<and> nsyms s \<le> MAXSYMS \<and> (\<forall>i < nsyms s. NUL \<notin> set (symname s i))"

lemma endsym_NUL: "endsym NUL"
  by (simp add: endsym_def isalnum_def iswalpha_def iswupper_def iswlower_def iswdigit_def code_def)

lemma ident_nul_free: "ident n \<Longrightarrow> NUL \<notin> set n"
  using endsym_NUL by (auto simp: ident_def)

lemma skipsym_ident:
  assumes "\<forall>c \<in> set n. \<not> endsym c" "rest = [] \<or> endsym (hd rest)"
  shows "skipsym (n @ rest) = rest"
  using assms unfolding skipsym_def by (induction n) (auto, cases rest, auto)

lemma strlcmp_ident:
  assumes "ident n" "NUL \<notin> set nm"
  shows "strlcmp nm (n @ rest) (length n) = 0 \<longleftrightarrow> nm = n"
proof -
  have "strlcmp nm (n @ rest) (length n) = strlcmp nm n (length n)"
  proof -
    have "strlcmp a (b @ rest) (length b) = strlcmp a b (length b)" if "NUL \<notin> set b" for a b
      using that
    proof (induction b arbitrary: a)
      case (Cons c b)
      then show ?case by auto
    qed simp
    then show ?thesis using ident_nul_free [OF assms(1)] by blast
  qed
  then show ?thesis using strlcmp_0 [OF assms(2) ident_nul_free [OF assms(1)], of "length n"] by simp
qed

lemma find_cong_set: "(\<And>x. x \<in> set xs \<Longrightarrow> P x = Q x) \<Longrightarrow> find P xs = find Q xs"
  by (induction xs) auto

lemma findsym_ident:
  assumes "sym_ok s" "ident n" "rest = [] \<or> endsym (hd rest)"
  shows "findsym (n @ rest) s = (sym_index s n, s)"
proof -
  have "length (n @ rest) - length (skipsym (n @ rest)) = length n"
    using assms by (simp add: skipsym_ident ident_def)
  moreover have "length n \<noteq> 0" using assms(2) by (simp add: ident_def)
  moreover have "find (\<lambda>i. strlcmp (symname s i) (n @ rest) (length n) = 0) [0..<nsyms s] = sym_index s n"
    unfolding sym_index_def using assms by (intro find_cong_set strlcmp_ident) (auto simp: sym_ok_def)
  ultimately show ?thesis using assms(1) by (simp add: findsym_def Let_def sym_ok_def)
qed

lemma sym_index_Some: "sym_index s n = Some i \<Longrightarrow> i < nsyms s \<and> symname s i = n"
  unfolding sym_index_def by (auto simp: find_Some_iff)

lemma find_snoc: "find P (xs @ [x]) = (case find P xs of Some y \<Rightarrow> Some y | None \<Rightarrow> if P x then Some x else None)"
  by (induction xs) auto

lemma symmap_overwrite:
  assumes "sym_index s n = Some i" and "nsyms s' = nsyms s" and "symname s' = (symname s)(i := n)"
    and "symvalue s' = (symvalue s)(i := v)" and "ignore s' = (ignore s)(i := g)"
  shows "symmap s' = (symmap s)(n \<mapsto> (v, g))"
proof
  fix m
  have i: "i < nsyms s" "symname s i = n" using sym_index_Some [OF assms(1)] by auto
  then have "symname s' = symname s" using assms(3) by auto
  then have idx: "sym_index s' m = sym_index s m" using assms(2) by (simp add: sym_index_def)
  show "symmap s' m = ((symmap s)(n \<mapsto> (v, g))) m"
  proof (cases "m = n")
    case True
    then show ?thesis using idx assms by (simp add: symmap_def)
  next
    case False
    then have "sym_index s m \<noteq> Some i" using sym_index_Some [of s m i] i by auto
    then show ?thesis using idx assms False by (cases "sym_index s m") (auto simp: symmap_def)
  qed
qed

lemma symmap_append:
  assumes "sym_index s n = None" and "nsyms s' = nsyms s + 1" and "symname s' = (symname s)(nsyms s := n)"
    and "symvalue s' = (symvalue s)(nsyms s := v)" and "ignore s' = (ignore s)(nsyms s := g)"
  shows "symmap s' = (symmap s)(n \<mapsto> (v, g))"
proof
  fix m
  have f: "find (\<lambda>i. symname s' i = m) [0..<nsyms s] = sym_index s m"
    unfolding sym_index_def assms(3) by (rule find_cong_set) simp
  then have idx: "sym_index s' m = (case sym_index s m of Some i \<Rightarrow> Some i | None \<Rightarrow> if m = n then Some (nsyms s) else None)"
    unfolding sym_index_def [of s'] by (simp add: assms(2,3) find_snoc)
  show "symmap s' m = ((symmap s)(n \<mapsto> (v, g))) m"
  proof (cases "m = n")
    case True
    then show ?thesis using idx assms by (simp add: symmap_def)
  next
    case False
    then show ?thesis using idx assms sym_index_Some [of s m] by (cases "sym_index s m") (auto simp: symmap_def)
  qed
qed

text \<open>The argument of an option: an identifier, and for -D possibly a definition after =.\<close>

datatype symopt = Symopt (so_ignore: bool) (so_define: bool) (so_name: string) (so_def: "string option")

definition so_arg :: "symopt \<Rightarrow> string" where
  "so_arg p = so_name p @ (case so_def p of None \<Rightarrow> [] | Some v \<Rightarrow> CHR ''='' # v)"

definition so_good :: "symopt \<Rightarrow> bool" where
  "so_good p \<longleftrightarrow> ident (so_name p) \<and> (so_define p \<or> so_def p = None)"

definition so_value :: "symopt \<Rightarrow> string option \<times> bool" where
  "so_value p = (if so_define p then Some (case so_def p of None \<Rightarrow> ''1'' | Some v \<Rightarrow> v) else None, so_ignore p)"

definition so_add :: "symopt \<Rightarrow> ustate \<Rightarrow> ustate option" where
  "so_add p s = (case addsym (so_ignore p) (so_define p) (so_arg p) s of Ok _ s' \<Rightarrow> Some s' | Stop _ _ \<Rightarrow> None)"

lemma endsym_equals: "endsym (CHR ''='')"
  by (simp add: endsym_def isalnum_def iswalpha_def iswupper_def iswlower_def iswdigit_def code_def)

lemma addsym_Ok:
  assumes ok: "sym_ok s" "so_good p" "nsyms s < MAXSYMS"
  obtains s' where "addsym (so_ignore p) (so_define p) (so_arg p) s = Ok () s'" "sym_ok s'"
    "symmap s' = (symmap s)(so_name p \<mapsto> so_value p)" "nsyms s' \<le> nsyms s + 1"
proof -
  define rest where "rest = (case so_def p of None \<Rightarrow> [] | Some v \<Rightarrow> CHR ''='' # v)"
  have r: "rest = [] \<or> endsym (hd rest)" by (simp add: rest_def endsym_equals split: option.split)
  have id: "ident (so_name p)" using ok(2) by (simp add: so_good_def)
  have f: "findsym (so_arg p) s = (sym_index s (so_name p), s)"
    using findsym_ident [OF ok(1) id r] by (simp add: so_arg_def rest_def)
  have sk: "skipsym (so_arg p) = rest"
    using skipsym_ident [of "so_name p" rest] id r by (simp add: so_arg_def rest_def ident_def)
  define i where "i = (case sym_index s (so_name p) of Some i \<Rightarrow> i | None \<Rightarrow> nsyms s)"
  define s' where "s' = s\<lparr>nsyms := (case sym_index s (so_name p) of Some _ \<Rightarrow> nsyms s | None \<Rightarrow> nsyms s + 1),
    symname := (symname s)(i := so_name p), ignore := (ignore s)(i := so_ignore p),
    symvalue := (symvalue s)(i := fst (so_value p))\<rparr>"
  have "addsym (so_ignore p) (so_define p) (so_arg p) s = Ok () s'"
    using ok f sk unfolding addsym_def s'_def i_def
    by (cases "sym_index s (so_name p)"; cases "so_def p")
      (auto simp: rest_def so_arg_def so_good_def so_value_def Let_def)
  moreover have "symmap s' = (symmap s)(so_name p \<mapsto> so_value p)"
  proof (cases "sym_index s (so_name p)")
    case None
    then show ?thesis
      using symmap_append [OF None, of s' "fst (so_value p)" "so_ignore p"]
      by (simp add: s'_def i_def so_value_def)
  next
    case (Some j)
    then show ?thesis
      using symmap_overwrite [OF Some, of s' "fst (so_value p)" "so_ignore p"]
      by (simp add: s'_def i_def so_value_def)
  qed
  moreover have "sym_ok s'" "nsyms s' \<le> nsyms s + 1"
    using ok ident_nul_free [OF id] by (auto simp: sym_ok_def s'_def i_def less_Suc_eq split: option.splits)
  ultimately show thesis using that by blast
qed

subsection \<open>The contract of the table\<close>

fun add_all :: "('p \<Rightarrow> 's \<Rightarrow> 's option) \<Rightarrow> 'p list \<Rightarrow> 's \<Rightarrow> 's option" where
  "add_all add [] s = Some s"
| "add_all add (p # ps) s = Option.bind (add p s) (add_all add ps)"

locale symbol_store =
  fixes inv :: "'s \<Rightarrow> bool" and room :: "'s \<Rightarrow> nat" and good :: "'p \<Rightarrow> bool"
    and key :: "'p \<Rightarrow> 'k" and val :: "'p \<Rightarrow> 'v"
    and add :: "'p \<Rightarrow> 's \<Rightarrow> 's option" and look :: "'s \<Rightarrow> 'k \<Rightarrow> 'v option"
  assumes add_law: "inv s \<Longrightarrow> good p \<Longrightarrow> 0 < room s \<Longrightarrow>
    \<exists>s'. add p s = Some s' \<and> inv s' \<and> look s' = (look s)(key p \<mapsto> val p) \<and> room s \<le> room s' + 1"
begin

lemma add_all_law:
  "inv s \<Longrightarrow> list_all good ps \<Longrightarrow> length ps \<le> room s \<Longrightarrow>
    \<exists>s'. add_all add ps s = Some s' \<and> inv s'
      \<and> look s' = look s ++ map_of (rev (map (\<lambda>p. (key p, val p)) ps))"
proof (induction ps arbitrary: s)
  case (Cons p ps)
  then obtain t where t: "add p s = Some t" "inv t" "look t = (look s)(key p \<mapsto> val p)" "room s \<le> room t + 1"
    using add_law [of s p] by auto
  have "list_all good ps" "length ps \<le> room t" using Cons.prems t(4) by auto
  from Cons.IH [OF t(2) this] obtain s' where "add_all add ps t = Some s'" "inv s'"
    "look s' = look t ++ map_of (rev (map (\<lambda>p. (key p, val p)) ps))" by blast
  then show ?case using t by (auto simp: map_add_def fun_eq_iff split: option.splits)
qed simp

end

interpretation symtab: symbol_store sym_ok "\<lambda>s. MAXSYMS - nsyms s" so_good so_name so_value so_add symmap
proof
  fix s p assume "sym_ok s" "so_good p" "0 < MAXSYMS - nsyms s"
  then obtain s' where "addsym (so_ignore p) (so_define p) (so_arg p) s = Ok () s'" "sym_ok s'"
    "symmap s' = (symmap s)(so_name p \<mapsto> so_value p)" "nsyms s' \<le> nsyms s + 1"
    using addsym_Ok [of s p] by auto
  then show "\<exists>s'. so_add p s = Some s' \<and> sym_ok s' \<and> symmap s' = (symmap s)(so_name p \<mapsto> so_value p)
      \<and> MAXSYMS - nsyms s \<le> MAXSYMS - nsyms s' + 1"
    by (auto simp: so_add_def)
qed

text \<open>
  The symbol table implements a finite map: after any sequence of -D, -U and -i options with
  well-formed arguments that the table has room for, addsym has not failed, and findsym,
  applied to a text that starts with an identifier, finds the entry of the last option for that
  identifier (its definition, 1 by default, or undefined, and its ignore flag), and the entry
  the table had before when no option names it.
\<close>

theorem addsym_findsym_last_wins:
  assumes "sym_ok s" "list_all so_good ps" "length ps + nsyms s \<le> MAXSYMS"
    and "ident n" "rest = [] \<or> endsym (hd rest)"
  shows "\<exists>s'. add_all so_add ps s = Some s' \<and> snd (findsym (n @ rest) s') = s'
    \<and> map_option (\<lambda>i. (symvalue s' i, ignore s' i)) (fst (findsym (n @ rest) s'))
      = (symmap s ++ map_of (rev (map (\<lambda>p. (so_name p, so_value p)) ps))) n"
proof -
  obtain s' where s': "add_all so_add ps s = Some s'" "sym_ok s'"
    "symmap s' = symmap s ++ map_of (rev (map (\<lambda>p. (so_name p, so_value p)) ps))"
    using symtab.add_all_law [of s ps] assms by (auto simp: le_diff_conv2 sym_ok_def)
  moreover have "findsym (n @ rest) s' = (sym_index s' n, s')"
    by (rule findsym_ident [OF s'(2) assms(4,5)])
  ultimately show ?thesis by (auto simp: symmap_def [symmetric])
qed

definition no_options :: uoptions where
  "no_options = \<lparr>compblank = False, lnblank = False, complement = False, iocccok = False,
     strictlogic = False, killconsts = False, lnnum = False, symlist = False, symdepth = False,
     text_file = False\<rparr>"

definition initial :: "string \<Rightarrow> ustate" where
  "initial inp = uoptions.extend no_options
     (ustate.fields (\<lambda>_. []) (\<lambda>_. None) (\<lambda>_. False) 0 inp False 0 [] [] [] 0 None NO_COMMENT LS_START
       (replicate MAXDEPTH IS_OUTSIDE) (replicate MAXDEPTH False) (replicate MAXDEPTH 0) 0 0 0 0 False True
       False 0 0)"

lemma initial_sel:
  "nsyms (initial inp) = 0" "symlist (initial inp) = False"
  by (simp_all add: initial_def no_options_def uoptions.defs ustate.defs)

theorem addsym_findsym_last_wins_witness:
  "\<exists>s'. add_all so_add [Symopt False True ''A'' None, Symopt True False ''B'' None, Symopt False True ''A'' (Some ''7'')]
          (initial []) = Some s'
    \<and> snd (findsym (''A'' @ '' + 1'') s') = s'
    \<and> map_option (\<lambda>i. (symvalue s' i, ignore s' i)) (fst (findsym (''A'' @ '' + 1'') s')) = Some (Some ''7'', False)"
proof -
  let ?ps = "[Symopt False True ''A'' None, Symopt True False ''B'' None, Symopt False True ''A'' (Some ''7'')]"
  have "sym_ok (initial [])" by (simp add: sym_ok_def initial_sel)
  moreover have "list_all so_good ?ps" "ident ''A''" "endsym (CHR '' '')" by code_simp+
  moreover have "(symmap (initial []) ++ map_of (rev (map (\<lambda>p. (so_name p, so_value p)) ?ps))) ''A''
      = Some (Some ''7'', False)" by (simp add: so_value_def map_add_def)
  ultimately show ?thesis
    using addsym_findsym_last_wins [of "initial []" ?ps "''A''" "'' + 1''"]
    by (simp add: initial_sel MAXSYMS_def)
qed

end
