(* ===== verification/Unifdef_Eval.thy ===== *)
theory Unifdef_Eval
  imports Unifdef_Syms
begin

text \<open>
  unifdef.c, the evaluator of #if expressions. A subexpression evaluates to LT_TRUE, LT_FALSE,
  LT_IF when it depends on an unknown symbol, or LT_ERROR, together with the value left in
  *valp and the position left in *cpp, which an error leaves where it was. The mutual recursion
  of eval_unary and eval_table is total: its termination rests on the positions moving forward.
\<close>

definition lt_of :: "int \<Rightarrow> Linetype" where
  "lt_of v = (if v \<noteq> 0 then LT LT_TRUE else LT LT_FALSE)"

definition c_bool :: "bool \<Rightarrow> int" where "c_bool b = (if b then 1 else 0)"

text \<open>A binary operator gets the old *p and gives the line type and the new *p.\<close>

type_synonym opfn = "bool \<Rightarrow> int \<Rightarrow> Linetype \<Rightarrow> int \<Rightarrow> Linetype \<Rightarrow> int \<Rightarrow> Linetype \<times> int"

definition op_strict :: "int \<Rightarrow> int \<Rightarrow> Linetype \<Rightarrow> Linetype \<Rightarrow> Linetype \<times> int" where
  "op_strict p v at bt = (if at = LT LT_IF \<or> bt = LT LT_IF then (LT LT_IF, p) else (lt_of v, v))"

definition op_lt :: opfn where "op_lt strict p at a bt b = op_strict p (c_bool (a < b)) at bt"
definition op_gt :: opfn where "op_gt strict p at a bt b = op_strict p (c_bool (a > b)) at bt"
definition op_le :: opfn where "op_le strict p at a bt b = op_strict p (c_bool (a \<le> b)) at bt"
definition op_ge :: opfn where "op_ge strict p at a bt b = op_strict p (c_bool (a \<ge> b)) at bt"
definition op_eq :: opfn where "op_eq strict p at a bt b = op_strict p (c_bool (a = b)) at bt"
definition op_ne :: opfn where "op_ne strict p at a bt b = op_strict p (c_bool (a \<noteq> b)) at bt"

definition op_or :: opfn where
  "op_or strict p at a bt b =
     (if \<not> strict \<and> (at = LT LT_TRUE \<or> bt = LT LT_TRUE) then (LT LT_TRUE, 1)
      else op_strict p (c_bool (a \<noteq> 0 \<or> b \<noteq> 0)) at bt)"

definition op_and :: opfn where
  "op_and strict p at a bt b =
     (if \<not> strict \<and> (at = LT LT_FALSE \<or> bt = LT LT_FALSE) then (LT LT_FALSE, 0)
      else op_strict p (c_bool (a \<noteq> 0 \<and> b \<noteq> 0)) at bt)"

lemmas op_defs = op_lt_def op_gt_def op_le_def op_ge_def op_eq_def op_ne_def op_or_def op_and_def op_strict_def

definition eval_ops :: "(string \<times> opfn) list list" where
  "eval_ops =
    [[(''||'', op_or)],
     [(''&&'', op_and)],
     [(''=='', op_eq), (''!='', op_ne)],
     [(''<='', op_le), (''>='', op_ge), (''<'', op_lt), (''>'', op_gt)]]"

definition find_op :: "nat \<Rightarrow> string \<Rightarrow> (string \<times> opfn) option" where
  "find_op l cp = (if l < length eval_ops then find (\<lambda>(str, fn). is_prefix str cp) (eval_ops ! l) else None)"

type_synonym eval_res = "(Linetype \<times> int \<times> string) res"

text \<open>The branches of eval_unary that do not recur: a number, defined(symbol), a symbol.\<close>

definition eval_number :: "int \<Rightarrow> string \<Rightarrow> string \<Rightarrow> ustate \<Rightarrow> eval_res" where
  "eval_number valp cp0 cp s =
     (let (n, ep) = strtol0 cp; v = c_int n in
      if ep = cp then Ok (LT_ERROR, v, cp0) s else Ok (lt_of v, v, skipsym cp) s)"

definition eval_defined :: "int \<Rightarrow> string \<Rightarrow> string \<Rightarrow> ustate \<Rightarrow> eval_res" where
  "eval_defined valp cp0 cp s =
     andthen (skipcomment (drop 7 cp) s) (\<lambda>cp1 s1.
       let defparen = (cur cp1 = CHR ''('') in
       andthen (if defparen then skipcomment (tl cp1) s1 else Ok cp1 s1) (\<lambda>cp2 s2.
         let (symb, s3) = findsym cp2 s2;
             (lt, v) = (case symb of None \<Rightarrow> (LT LT_IF, valp)
               | Some i \<Rightarrow> let v = c_bool (symvalue s3 i \<noteq> None) in (lt_of v, v))
         in andthen (skipcomment (skipsym cp2) s3) (\<lambda>cp3 s4.
              if defparen \<and> cur cp3 \<noteq> CHR '')'' then Ok (LT_ERROR, v, cp0) s4
              else Ok (lt, v, if defparen then tl cp3 else cp3) (s4\<lparr>constexpr := False\<rparr>))))"

definition eval_symbol :: "int \<Rightarrow> string \<Rightarrow> string \<Rightarrow> ustate \<Rightarrow> eval_res" where
  "eval_symbol valp cp0 cp s =
     (let (symb, s1) = findsym cp s; cp1 = skipsym cp in
      case symb of
        None \<Rightarrow> andthen (skipargs cp1 s1) (\<lambda>cp2 s2. Ok (LT LT_IF, valp, cp2) (s2\<lparr>constexpr := False\<rparr>))
      | Some i \<Rightarrow>
          (case symvalue s1 i of
             None \<Rightarrow> Ok (LT LT_FALSE, 0, cp1) (s1\<lparr>constexpr := False\<rparr>)
           | Some val \<Rightarrow>
               (let (n, ep) = strtol0 val; v = c_int n in
                if ep \<noteq> [] \<or> ep = val then Ok (LT_ERROR, v, cp0) s1
                else andthen (skipargs cp1 s1) (\<lambda>cp2 s2. Ok (lt_of v, v, cp2) (s2\<lparr>constexpr := False\<rparr>)))))"

lemma cur_tl: "cur cp = c \<Longrightarrow> c \<noteq> NUL \<Longrightarrow> cp = c # tl cp"
  by (cases cp) auto

lemma skipsym_length: "length (skipsym cp) \<le> length cp"
  by (simp add: skipsym_def length_dropWhile_le)

abbreviation noend :: "stop \<Rightarrow> ustate \<Rightarrow> bool" where "noend \<equiv> \<lambda>_ _. True"

lemma skipcomment_le: "outcome (\<lambda>cp' t. length cp' \<le> length cp) noend (skipcomment cp s)"
  by (cases "skipcomment cp s") (auto dest: skipcomment_length)

lemma skipargs_loop_le: "outcome (\<lambda>(l', cp') t. length cp' \<le> length cp) noend (skipargs_loop l cp s)"
proof (induction l cp s rule: skipargs_loop.induct)
  case (1 l cp s)
  show ?case
    unfolding skipargs_loop.simps [of l cp s] Let_def
  proof (rule outcome_andthen [OF skipcomment_le])
    fix cp' t assume a: "skipcomment (tl cp) s = Ok cp' t" "length cp' \<le> length (tl cp)"
    show "outcome (\<lambda>(l', cp') t. length cp' \<le> length cp) noend
      (if (if cur cp = CHR ''('' then l + 1 else if cur cp = CHR '')'' then l - 1 else l) \<noteq> 0 \<and> cp' \<noteq> []
       then skipargs_loop (if cur cp = CHR ''('' then l + 1 else if cur cp = CHR '')'' then l - 1 else l) cp' t
       else Ok (if cur cp = CHR ''('' then l + 1 else if cur cp = CHR '')'' then l - 1 else l, cp') t)"
      using 1 [OF refl a(1)] a(2) by (auto elim!: outcome_mono)
  qed
qed

lemma skipargs_le: "outcome (\<lambda>cp' t. length cp' \<le> length cp) noend (skipargs cp s)"
  unfolding skipargs_def
proof (rule outcome_andthen [OF skipcomment_le])
  fix cp1 :: string and t assume a: "length cp1 \<le> length cp"
  show "outcome (\<lambda>cp' t. length cp' \<le> length cp) noend
    (if cur cp1 \<noteq> CHR ''('' then Ok cp1 t
     else andthen (skipargs_loop 0 cp1 t) (\<lambda>(level, cp') s2. if level = 0 then Ok cp' s2 else Ok cp s2))"
    using a by (auto intro!: outcome_andthen [OF skipargs_loop_le])
qed

lemma find_op_Some: "find_op l cp = Some (str, fn) \<Longrightarrow> l < 4 \<and> (str, fn) \<in> set (eval_ops ! l) \<and> is_prefix str cp"
proof -
  assume a: "find_op l cp = Some (str, fn)"
  then have "l < length eval_ops" "find (\<lambda>(str, fn). is_prefix str cp) (eval_ops ! l) = Some (str, fn)"
    by (auto simp: find_op_def split: if_splits)
  then show ?thesis by (auto simp: find_Some_iff eval_ops_def [THEN arg_cong [where f = length]] nth_mem dest: sym)
qed

lemma find_op_shorter:
  assumes "find_op l cp = Some (str, fn)"
  shows "length (drop (length str) cp) < length cp"
proof -
  from find_op_Some [OF assms] have "l = 0 \<or> l = 1 \<or> l = 2 \<or> l = 3" "(str, fn) \<in> set (eval_ops ! l)"
    "is_prefix str cp" by linarith+
  then have "str \<noteq> []" "is_prefix str cp" by (auto simp: eval_ops_def)
  then show ?thesis unfolding is_prefix_def by (cases cp) auto
qed

text \<open>The result of an evaluation from \<open>cp\<close>, or the unmoved position of an error.\<close>

definition forward :: "string \<Rightarrow> string \<Rightarrow> Linetype \<times> int \<times> string \<Rightarrow> ustate \<Rightarrow> bool" where
  "forward cp0 cp r t \<longleftrightarrow> (case r of (lt, v, cp') \<Rightarrow> cp' = cp0 \<or> length cp' \<le> length cp)"

lemma eval_number_le: "outcome (forward cp0 cp) noend (eval_number v cp0 cp s)"
  using skipsym_length [of cp] by (auto simp: eval_number_def forward_def Let_def split: prod.splits)

lemma eval_symbol_le: "outcome (forward cp0 cp) noend (eval_symbol v cp0 cp s)"
  using skipsym_length [of cp] unfolding eval_symbol_def Let_def
  by (auto simp: forward_def split: prod.splits option.splits intro!: outcome_andthen [OF skipargs_le])

lemma eval_defined_le: "outcome (forward cp0 cp) noend (eval_defined v cp0 cp s)"
  unfolding eval_defined_def
proof (rule outcome_andthen [OF skipcomment_le])
  fix cp1 :: string and s1 assume 1: "length cp1 \<le> length (drop 7 cp)"
  have "outcome (\<lambda>cp2 t. length cp2 \<le> length cp1) noend
      (if cur cp1 = CHR ''('' then skipcomment (tl cp1) s1 else Ok cp1 s1)"
    by (auto intro: outcome_mono [OF skipcomment_le])
  then show "outcome (forward cp0 cp) noend
     (let defparen = (cur cp1 = CHR ''('') in
       andthen (if defparen then skipcomment (tl cp1) s1 else Ok cp1 s1) (\<lambda>cp2 s2.
         let (symb, s3) = findsym cp2 s2;
             (lt, v) = (case symb of None \<Rightarrow> (LT LT_IF, v)
               | Some i \<Rightarrow> let v = c_bool (symvalue s3 i \<noteq> None) in (lt_of v, v))
         in andthen (skipcomment (skipsym cp2) s3) (\<lambda>cp3 s4.
              if defparen \<and> cur cp3 \<noteq> CHR '')'' then Ok (LT_ERROR, v, cp0) s4
              else Ok (lt, v, if defparen then tl cp3 else cp3) (s4\<lparr>constexpr := False\<rparr>))))"
    unfolding Let_def
  proof (rule outcome_andthen)
    fix cp2 :: string and s2 assume 2: "length cp2 \<le> length cp1"
    show "outcome (forward cp0 cp) noend
       (case findsym cp2 s2 of (symb, s3) \<Rightarrow>
          case (case symb of None \<Rightarrow> (LT LT_IF, v)
               | Some i \<Rightarrow> (lt_of (c_bool (symvalue s3 i \<noteq> None)), c_bool (symvalue s3 i \<noteq> None))) of (lt, v) \<Rightarrow>
          andthen (skipcomment (skipsym cp2) s3) (\<lambda>cp3 s4.
              if cur cp1 = CHR ''('' \<and> cur cp3 \<noteq> CHR '')'' then Ok (LT_ERROR, v, cp0) s4
              else Ok (lt, v, if cur cp1 = CHR ''('' then tl cp3 else cp3) (s4\<lparr>constexpr := False\<rparr>)))"
      unfolding case_prod_beta
      by (rule outcome_andthen [OF skipcomment_le])
        (use 1 2 skipsym_length [of cp2] in \<open>auto simp: forward_def\<close>)
  qed
qed

function eval_unary :: "int \<Rightarrow> string \<Rightarrow> ustate \<Rightarrow> eval_res"
  and eval_table :: "nat \<Rightarrow> int \<Rightarrow> string \<Rightarrow> ustate \<Rightarrow> eval_res"
  and eval_loop :: "nat \<Rightarrow> Linetype \<Rightarrow> int \<Rightarrow> string \<Rightarrow> ustate \<Rightarrow> eval_res" where
  "eval_unary valp cp0 s =
     andthen (skipcomment cp0 s) (\<lambda>cp s1.
       if cur cp = CHR ''!'' then
         andthen (eval_unary valp (tl cp) s1) (\<lambda>(lt, v, cp1) s2.
           if lt = LT_ERROR then Ok (LT_ERROR, v, cp0) s2
           else if lt \<noteq> LT LT_IF then (let v' = c_bool (v = 0) in Ok (lt_of v', v', cp1) s2)
           else Ok (lt, v, cp1) s2)
       else if cur cp = CHR ''('' then
         andthen (eval_table 0 valp (tl cp) s1) (\<lambda>(lt, v, cp1) s2.
           if lt = LT_ERROR then Ok (LT_ERROR, v, cp0) s2
           else andthen (skipcomment cp1 s2) (\<lambda>cp2 s3.
             if cur cp2 \<noteq> CHR '')'' then Ok (LT_ERROR, v, cp0) s3 else Ok (lt, v, tl cp2) s3))
       else if isdigit (cur cp) then eval_number valp cp0 cp s1
       else if is_prefix ''defined'' cp \<and> endsym (cur (drop 7 cp)) then eval_defined valp cp0 cp s1
       else if \<not> endsym (cur cp) then eval_symbol valp cp0 cp s1
       else Ok (LT_ERROR, valp, cp0) s1)"
| "eval_table l valp cp0 s =
     andthen (if l < 3 then eval_table (Suc l) valp cp0 s else eval_unary valp cp0 s) (\<lambda>(lt, v, cp) s1.
       if lt = LT_ERROR then Ok (LT_ERROR, v, cp0) s1
       else andthen (eval_loop l lt v cp s1) (\<lambda>(lt', v', cp') s2.
         if lt' = LT_ERROR then Ok (LT_ERROR, v', cp0) s2 else Ok (lt', v', cp') s2))"
| "eval_loop l lt valp cp0 s =
     andthen (skipcomment cp0 s) (\<lambda>cp s1.
       case find_op l cp of None \<Rightarrow> Ok (lt, valp, cp) s1
       | Some (str, fn) \<Rightarrow>
           andthen (if l < 3 then eval_table (Suc l) (uninit s1) (drop (length str) cp) s1
                    else eval_unary (uninit s1) (drop (length str) cp) s1) (\<lambda>(rt, val, cp1) s2.
             if rt = LT_ERROR then Ok (LT_ERROR, valp, cp0) s2
             else (case fn (strictlogic s2) valp lt valp rt val of (lt', v') \<Rightarrow> eval_loop l lt' v' cp1 s2)))"
  by pat_completeness auto


abbreviation eval_dom where "eval_dom \<equiv> eval_unary_eval_table_eval_loop_dom"

text \<open>Where an evaluation returns, the position has not moved back; this is what the termination
  proof needs of the nested calls.\<close>

definition kept :: "string \<Rightarrow> eval_res \<Rightarrow> bool" where
  "kept cp r \<longleftrightarrow> outcome (\<lambda>(lt, v, cp') t. length cp' \<le> length cp) noend r"

lemma kept_simps: "kept cp (Ok (lt, v, cp') t) \<longleftrightarrow> length cp' \<le> length cp" "kept cp (Stop x t)"
  by (simp_all add: kept_def)

lemma kept_andthen:
  "outcome P noend r \<Longrightarrow> (\<And>a t. r = Ok a t \<Longrightarrow> P a t \<Longrightarrow> kept cp (f a t)) \<Longrightarrow> kept cp (andthen r f)"
  unfolding kept_def by (rule outcome_andthen)

lemma kept_mono: "kept cp r \<Longrightarrow> length cp \<le> length cq \<Longrightarrow> kept cq r"
  unfolding kept_def by (erule outcome_mono) auto

lemma kept_eval:
  "kept cp r \<Longrightarrow> (\<And>lt v cp' t. r = Ok (lt, v, cp') t \<Longrightarrow> length cp' \<le> length cp \<Longrightarrow> kept cq (f (lt, v, cp') t))
    \<Longrightarrow> kept cq (andthen r f)"
  by (cases r) (auto simp: kept_def)

lemma kept_forward: "outcome (forward cp0 cp) noend r \<Longrightarrow> length cp \<le> length cp0 \<Longrightarrow> kept cp0 r"
  unfolding kept_def by (erule outcome_mono) (auto simp: forward_def)

lemma eval_partial:
  "eval_dom (Inl (v, cp, s)) \<Longrightarrow> kept cp (eval_unary v cp s)"
  "eval_dom (Inr (Inl (l, v, cp, s))) \<Longrightarrow> kept cp (eval_table l v cp s)"
  "eval_dom (Inr (Inr (l, lt, v, cp, s))) \<Longrightarrow> kept cp (eval_loop l lt v cp s)"
proof (induction v cp s and l v cp s and l lt v cp s rule: eval_unary_eval_table_eval_loop.pinduct)
  case (1 v cp0 s)
  show ?case
    unfolding eval_unary.psimps [OF 1(1)]
  proof (rule kept_andthen [OF skipcomment_le])
    fix cp t assume a: "skipcomment cp0 s = Ok cp t" and le: "length cp \<le> length cp0"
    note leaf = kept_forward [OF eval_number_le le, of v t] kept_forward [OF eval_defined_le le, of v t]
      kept_forward [OF eval_symbol_le le, of v t]
    have bang: "kept cp0 (andthen (eval_unary v (tl cp) t) (\<lambda>(lt, v, cp1) s2.
           if lt = LT_ERROR then Ok (LT_ERROR, v, cp0) s2
           else if lt \<noteq> LT LT_IF then (let v' = c_bool (v = 0) in Ok (lt_of v', v', cp1) s2)
           else Ok (lt, v, cp1) s2))" if "cur cp = CHR ''!''"
      by (rule kept_eval [OF 1(2) [OF a that]]) (use le in \<open>auto simp: kept_simps Let_def\<close>)
    have paren: "kept cp0 (andthen (eval_table 0 v (tl cp) t) (\<lambda>(lt, v, cp1) s2.
           if lt = LT_ERROR then Ok (LT_ERROR, v, cp0) s2
           else andthen (skipcomment cp1 s2) (\<lambda>cp2 s3.
             if cur cp2 \<noteq> CHR '')'' then Ok (LT_ERROR, v, cp0) s3 else Ok (lt, v, tl cp2) s3)))"
      if "cur cp \<noteq> CHR ''!''" "cur cp = CHR ''(''"
      by (rule kept_eval [OF 1(3) [OF a that]])
        (use le in \<open>auto simp: kept_simps intro!: kept_andthen [OF skipcomment_le]\<close>)
    show "kept cp0 (if cur cp = CHR ''!'' then
         andthen (eval_unary v (tl cp) t) (\<lambda>(lt, v, cp1) s2.
           if lt = LT_ERROR then Ok (LT_ERROR, v, cp0) s2
           else if lt \<noteq> LT LT_IF then (let v' = c_bool (v = 0) in Ok (lt_of v', v', cp1) s2)
           else Ok (lt, v, cp1) s2)
       else if cur cp = CHR ''('' then
         andthen (eval_table 0 v (tl cp) t) (\<lambda>(lt, v, cp1) s2.
           if lt = LT_ERROR then Ok (LT_ERROR, v, cp0) s2
           else andthen (skipcomment cp1 s2) (\<lambda>cp2 s3.
             if cur cp2 \<noteq> CHR '')'' then Ok (LT_ERROR, v, cp0) s3 else Ok (lt, v, tl cp2) s3))
       else if isdigit (cur cp) then eval_number v cp0 cp t
       else if is_prefix ''defined'' cp \<and> endsym (cur (drop 7 cp)) then eval_defined v cp0 cp t
       else if \<not> endsym (cur cp) then eval_symbol v cp0 cp t
       else Ok (LT_ERROR, v, cp0) t)"
      using leaf bang paren by (simp add: kept_simps)
  qed
next
  case (2 l v cp0 s)
  show ?case
    unfolding eval_table.psimps [OF 2(1)]
  proof (rule kept_eval [where cp = cp0])
    show "kept cp0 (if l < 3 then eval_table (Suc l) v cp0 s else eval_unary v cp0 s)"
      using 2(2,3) by simp
    fix lt v' cp t
    assume r: "(if l < 3 then eval_table (Suc l) v cp0 s else eval_unary v cp0 s) = Ok (lt, v', cp) t"
      "length cp \<le> length cp0"
    show "kept cp0 ((case (lt, v', cp) of (lt, v, cp) \<Rightarrow> \<lambda>s1. if lt = LT_ERROR then Ok (LT_ERROR, v, cp0) s1
       else andthen (eval_loop l lt v cp s1) (\<lambda>(lt', v', cp') s2.
         if lt' = LT_ERROR then Ok (LT_ERROR, v', cp0) s2 else Ok (lt', v', cp') s2)) t)"
    proof (cases "lt = LT_ERROR")
      case False
      have "kept cp (eval_loop l lt v' cp t)" using 2(4) [OF r(1) refl refl False] .
      then have "kept cp0 (andthen (eval_loop l lt v' cp t) (\<lambda>(lt', v', cp') s2.
         if lt' = LT_ERROR then Ok (LT_ERROR, v', cp0) s2 else Ok (lt', v', cp') s2))"
        by (rule kept_eval) (use r(2) in \<open>auto simp: kept_simps\<close>)
      then show ?thesis using False by simp
    qed (simp add: kept_simps)
  qed
next
  case (3 l lt v cp0 s)
  show ?case
    unfolding eval_loop.psimps [OF 3(1)]
  proof (rule kept_andthen [OF skipcomment_le])
    fix cp t assume a: "skipcomment cp0 s = Ok cp t" and le: "length cp \<le> length cp0"
    show "kept cp0 (case find_op l cp of None \<Rightarrow> Ok (lt, v, cp) t
       | Some (str, fn) \<Rightarrow>
           andthen (if l < 3 then eval_table (Suc l) (uninit t) (drop (length str) cp) t
                    else eval_unary (uninit t) (drop (length str) cp) t) (\<lambda>(rt, val, cp1) s2.
             if rt = LT_ERROR then Ok (LT_ERROR, v, cp0) s2
             else (case fn (strictlogic s2) v lt v rt val of (lt', v') \<Rightarrow> eval_loop l lt' v' cp1 s2)))"
    proof (cases "find_op l cp")
      case None
      then show ?thesis using le by (simp add: kept_simps)
    next
      case (Some p)
      obtain str fn where p: "p = (str, fn)" by (cases p)
      define r where "r = (if l < 3 then eval_table (Suc l) (uninit t) (drop (length str) cp) t
                    else eval_unary (uninit t) (drop (length str) cp) t)"
      have "kept (drop (length str) cp) r"
        unfolding r_def using 3(2,3) [OF a Some p [symmetric]] by auto
      then have "kept cp0 (andthen r (\<lambda>(rt, val, cp1) s2.
             if rt = LT_ERROR then Ok (LT_ERROR, v, cp0) s2
             else (case fn (strictlogic s2) v lt v rt val of (lt', v') \<Rightarrow> eval_loop l lt' v' cp1 s2)))"
      proof (rule kept_eval)
        fix rt val cp1 s2
        assume c: "r = Ok (rt, val, cp1) s2" "length cp1 \<le> length (drop (length str) cp)"
        obtain lt' v' where f: "fn (strictlogic s2) v lt v rt val = (lt', v')" by fastforce
        show "kept cp0 ((case (rt, val, cp1) of (rt, val, cp1) \<Rightarrow> \<lambda>s2.
             if rt = LT_ERROR then Ok (LT_ERROR, v, cp0) s2
             else (case fn (strictlogic s2) v lt v rt val of (lt', v') \<Rightarrow> eval_loop l lt' v' cp1 s2)) s2)"
          using 3(4) [OF a Some p [symmetric] c(1) [unfolded r_def] refl refl] c(2) le f
          by (cases "rt = LT_ERROR") (auto simp: kept_simps intro: kept_mono [of cp1])
      qed
      then show ?thesis using Some p by (simp add: r_def)
    qed
  qed
qed

fun eval_rank :: "(int \<times> string \<times> ustate) + (nat \<times> int \<times> string \<times> ustate) + (nat \<times> Linetype \<times> int \<times> string \<times> ustate)
    \<Rightarrow> nat" where
  "eval_rank (Inl _) = 0"
| "eval_rank (Inr (Inl (l, _))) = 2 + (4 - l)"
| "eval_rank (Inr (Inr _)) = 1"

fun eval_len :: "(int \<times> string \<times> ustate) + (nat \<times> int \<times> string \<times> ustate) + (nat \<times> Linetype \<times> int \<times> string \<times> ustate)
    \<Rightarrow> nat" where
  "eval_len (Inl (_, cp, _)) = length cp"
| "eval_len (Inr (Inl (_, _, cp, _))) = length cp"
| "eval_len (Inr (Inr (_, _, _, cp, _))) = length cp"

lemma skipcomment_cur_less:
  assumes "skipcomment cp0 s = Ok cp t" "cur cp = c" "c \<noteq> NUL"
  shows "length (tl cp) < length cp0"
  using skipcomment_length [OF assms(1)] assms(2,3) by (cases cp) auto

lemma inner_length:
  assumes "(if l < 3 then eval_table (Suc l) v cp s else eval_unary v cp s) = Ok (lt, v', cp') t"
    and "\<not> l < 3 \<Longrightarrow> eval_dom (Inl (v, cp, s))" "l < 3 \<Longrightarrow> eval_dom (Inr (Inl (Suc l, v, cp, s)))"
  shows "length cp' \<le> length cp"
proof -
  have "kept cp (if l < 3 then eval_table (Suc l) v cp s else eval_unary v cp s)"
    using assms(2,3) eval_partial(1,2) by auto
  then show ?thesis using assms(1) by (simp add: kept_def)
qed

lemma find_op_less:
  assumes "skipcomment cp0 s = Ok cp t" "find_op l cp = Some (str, fn)"
  shows "length (drop (length str) cp) < length cp0"
  using skipcomment_length [OF assms(1)] find_op_shorter [OF assms(2)] by simp

termination eval_unary
proof (relation "measures [eval_len, eval_rank]", goal_cases)
  case (2 valp cp0 s cp s1)
  then show ?case using skipcomment_cur_less [of cp0 s cp s1 "CHR ''!''"] by simp
next
  case (3 valp cp0 s cp s1)
  then show ?case using skipcomment_cur_less [of cp0 s cp s1 "CHR ''(''"] by simp
next
  case (6 l valp cp0 s a sa lt y v cp s1)
  then show ?case using inner_length [of l valp cp0 s lt v cp sa] by (auto simp: le_less)
next
  case (7 l lt valp cp0 s cp s1 p str fn)
  then show ?case using find_op_less [of cp0 s cp s1 l str fn] by auto
next
  case (8 l lt valp cp0 s cp s1 p str fn)
  then show ?case using find_op_less [of cp0 s cp s1 l str fn] by auto
next
  case (9 l lt valp cp0 s cp s1 p str fn b sb rt y val cp1 s2 lt' v')
  then have "length cp1 \<le> length (drop (length str) cp)"
    using inner_length [of l "uninit s1" "drop (length str) cp" s1 rt val cp1 sb] by auto
  then show ?case using find_op_less [of cp0 s cp s1 l str fn] 9 by auto
qed auto

declare eval_unary.simps [simp del] eval_table.simps [simp del] eval_loop.simps [simp del]

definition ifeval :: "string \<Rightarrow> ustate \<Rightarrow> (Linetype \<times> string) res" where
  "ifeval cp s =
     andthen (eval_table 0 0 cp (s\<lparr>constexpr := \<not> killconsts s\<rparr>)) (\<lambda>(ret, v, cp') s1.
       Ok (if constexpr s1 then LT LT_IF else if ret = LT_ERROR then LT LT_IF else ret, cp') s1)"

end
