(* ===== verification/Unifdef_Frame.thy ===== *)
theory Unifdef_Frame
  imports Unifdef_Eval
begin

text \<open>
  What the lexical functions and the evaluator of unifdef leave alone: they change only the
  parser state, the flags of the symbol listing and standard output, and when they do not
  return it is by error().
\<close>

definition parse_eq :: "ustate \<Rightarrow> ustate \<Rightarrow> bool" where
  "parse_eq s t \<longleftrightarrow> t = s\<lparr>incomment := incomment t, linestate := linestate t, constexpr := constexpr t,
     stdout := stdout t, firstsym := firstsym t, zerosyms := zerosyms t\<rparr>"

definition fatal :: "stop \<Rightarrow> ustate \<Rightarrow> bool" where "fatal x t \<longleftrightarrow> (\<exists>m. x = Fatal m)"

lemma fatal_error [simp]: "outcome Q fatal (error m s)"
  by (simp add: error_def fatal_def)

lemma parse_eq_refl [simp]: "parse_eq s s"
  by (simp add: parse_eq_def)

lemma parse_eq_trans: "parse_eq s t \<Longrightarrow> parse_eq t u \<Longrightarrow> parse_eq s u"
  unfolding parse_eq_def by (cases s, cases t, cases u) simp

lemma parse_eq_upd [simp]:
  "parse_eq s (t\<lparr>constexpr := b\<rparr>) = parse_eq s t" "parse_eq (s\<lparr>constexpr := b\<rparr>) t = parse_eq s t"
  "parse_eq s (t\<lparr>linestate := l\<rparr>) = parse_eq s t" "parse_eq (s\<lparr>linestate := l\<rparr>) t = parse_eq s t"
  "parse_eq s (t\<lparr>firstsym := b\<rparr>) = parse_eq s t" "parse_eq (s\<lparr>firstsym := b\<rparr>) t = parse_eq s t"
  unfolding parse_eq_def by (cases s, cases t, simp)+

lemma parse_eq_lexeq: "lexeq s t \<Longrightarrow> parse_eq s t"
  unfolding parse_eq_def lexeq_def by (cases s, cases t) simp

lemma parse_eq_sel:
  assumes "parse_eq s t"
  shows "input t = input s" "ifstate t = ifstate s" "ignoring t = ignoring s" "stifline t = stifline s"
    "depth t = depth s" "newline t = newline s" "tline t = tline s" "keyword t = keyword s"
    "nsyms t = nsyms s" "symname t = symname s" "symvalue t = symvalue s"
    "ignore t = ignore s" "symlist t = symlist s" "strictlogic t = strictlogic s" "text_file t = text_file s"
    "symdepth t = symdepth s" "killconsts t = killconsts s" "out t = out s" "complement t = complement s"
    "exitstat t = exitstat s"
proof -
  obtain a b c d e f where t: "t = s\<lparr>incomment := a, linestate := b, constexpr := c, stdout := d, firstsym := e,
      zerosyms := f\<rparr>" using assms unfolding parse_eq_def by blast
  show "input t = input s" "ifstate t = ifstate s" "ignoring t = ignoring s" "stifline t = stifline s"
    "depth t = depth s" "newline t = newline s" "tline t = tline s" "keyword t = keyword s"
    "nsyms t = nsyms s" "symname t = symname s" "symvalue t = symvalue s"
    "ignore t = ignore s" "symlist t = symlist s" "strictlogic t = strictlogic s" "text_file t = text_file s"
    "symdepth t = symdepth s" "killconsts t = killconsts s" "out t = out s" "complement t = complement s"
    "exitstat t = exitstat s"
    by (simp_all add: t)
qed

abbreviation framed :: "ustate \<Rightarrow> 'a res \<Rightarrow> bool" where
  "framed s r \<equiv> outcome (\<lambda>_ t. parse_eq s t) fatal r"

lemma framed_trans: "parse_eq s t \<Longrightarrow> framed t r \<Longrightarrow> framed s r"
  by (erule outcome_mono) (auto intro: parse_eq_trans)

lemma framed_andthen:
  "framed s r \<Longrightarrow> (\<And>a t. r = Ok a t \<Longrightarrow> parse_eq s t \<Longrightarrow> framed t (f a t)) \<Longrightarrow> framed s (andthen r f)"
  by (cases r) (auto intro: framed_trans)

lemma framed_skipcomment: "framed s (skipcomment cp s)"
  using skipcomment_lex_ok [of cp s]
  by (cases "skipcomment cp s") (auto simp: lex_ok_def fatal_def intro: parse_eq_lexeq)

lemma framed_skipargs_loop: "framed s (skipargs_loop l cp s)"
proof (induction l cp s rule: skipargs_loop.induct)
  case (1 l cp s)
  show ?case
    unfolding skipargs_loop.simps [of l cp s] Let_def
    by (rule framed_andthen [OF framed_skipcomment]) (use 1 in \<open>auto simp: Let_def\<close>)
qed

lemma framed_skipargs: "framed s (skipargs cp s)"
  unfolding skipargs_def
  by (rule framed_andthen [OF framed_skipcomment]) (auto intro!: framed_andthen [OF framed_skipargs_loop])

lemma findsym_frame: "findsym cp s = (r, t) \<Longrightarrow> parse_eq s t"
  by (auto simp: findsym_def symlist_print_def parse_eq_def Let_def split: if_splits)

lemma findsym_frame_snd: "parse_eq s (snd (findsym cp s))"
  using findsym_frame [of cp s] by (cases "findsym cp s") auto

text \<open>An evaluation gives true, false, unknown or an error.\<close>

definition eval_types :: "Linetype set" where
  "eval_types = {LT LT_TRUE, LT LT_FALSE, LT LT_IF, LT_ERROR}"

lemma eval_types_simps [simp]:
  "LT LT_TRUE \<in> eval_types" "LT LT_FALSE \<in> eval_types" "LT LT_IF \<in> eval_types" "LT_ERROR \<in> eval_types"
  "lt_of v \<in> eval_types"
  by (simp_all add: eval_types_def lt_of_def)

abbreviation evals :: "ustate \<Rightarrow> eval_res \<Rightarrow> bool" where
  "evals s r \<equiv> outcome (\<lambda>p t. parse_eq s t \<and> fst p \<in> eval_types) fatal r"

lemma evals_trans: "parse_eq s t \<Longrightarrow> evals t r \<Longrightarrow> evals s r"
  by (erule outcome_mono) (auto intro: parse_eq_trans)

lemma evals_framed: "framed s r \<Longrightarrow> (\<And>a t. r = Ok a t \<Longrightarrow> parse_eq s t \<Longrightarrow> evals t (f a t)) \<Longrightarrow> evals s (andthen r f)"
  by (cases r) (auto intro: evals_trans)

lemma evals_andthen:
  "evals s r \<Longrightarrow> (\<And>lt v cp t. r = Ok (lt, v, cp) t \<Longrightarrow> parse_eq s t \<Longrightarrow> lt \<in> eval_types \<Longrightarrow> evals t (f (lt, v, cp) t))
    \<Longrightarrow> evals s (andthen r f)"
  by (cases r) (auto intro: evals_trans)

lemma find_op_types:
  assumes "find_op l cp = Some (str, fn)" "lt \<in> eval_types" "rt \<in> eval_types" "fn b p lt v rt w = (lt', v')"
  shows "lt' \<in> eval_types"
proof -
  from find_op_Some [OF assms(1)] have "l = 0 \<or> l = 1 \<or> l = 2 \<or> l = 3" "(str, fn) \<in> set (eval_ops ! l)"
    by linarith+
  then show ?thesis using assms(2-4) by (auto simp: eval_ops_def op_defs split: if_splits)
qed

lemma framed_number: "evals s (eval_number v cp0 cp s)"
  by (auto simp: eval_number_def Let_def split: prod.splits)

lemma framed_symbol: "evals s (eval_symbol v cp0 cp s)"
proof -
  obtain r t where f: "findsym cp s = (r, t)" by (metis surj_pair)
  have "evals t (case r of
        None \<Rightarrow> andthen (skipargs (skipsym cp) t) (\<lambda>cp2 s2. Ok (LT LT_IF, v, cp2) (s2\<lparr>constexpr := False\<rparr>))
      | Some i \<Rightarrow>
          (case symvalue t i of
             None \<Rightarrow> Ok (LT LT_FALSE, 0, skipsym cp) (t\<lparr>constexpr := False\<rparr>)
           | Some val \<Rightarrow>
               (let (n, ep) = strtol0 val; v = c_int n in
                if ep \<noteq> [] \<or> ep = val then Ok (LT_ERROR, v, cp0) t
                else andthen (skipargs (skipsym cp) t) (\<lambda>cp2 s2. Ok (lt_of v, v, cp2) (s2\<lparr>constexpr := False\<rparr>)))))"
    by (auto simp: Let_def split: option.split prod.split intro!: evals_framed [OF framed_skipargs])
  then show ?thesis
    using evals_trans [OF findsym_frame [OF f]] by (simp add: eval_symbol_def f Let_def)
qed

lemma framed_defined: "evals s (eval_defined v cp0 cp s)"
  unfolding eval_defined_def Let_def
proof (rule evals_framed [OF framed_skipcomment], rule evals_framed)
  fix cp1 s1 cp2 s2
  show "framed s1 (if cur cp1 = CHR ''('' then skipcomment (tl cp1) s1 else Ok cp1 s1)"
    by (simp add: framed_skipcomment)
  show "evals s2 (case findsym cp2 s2 of (symb, s3) \<Rightarrow>
          case (case symb of None \<Rightarrow> (LT LT_IF, v)
               | Some i \<Rightarrow> (lt_of (c_bool (symvalue s3 i \<noteq> None)), c_bool (symvalue s3 i \<noteq> None))) of (lt, v) \<Rightarrow>
          andthen (skipcomment (skipsym cp2) s3) (\<lambda>cp3 s4.
              if cur cp1 = CHR ''('' \<and> cur cp3 \<noteq> CHR '')'' then Ok (LT_ERROR, v, cp0) s4
              else Ok (lt, v, if cur cp1 = CHR ''('' then tl cp3 else cp3) (s4\<lparr>constexpr := False\<rparr>)))"
    unfolding case_prod_beta
    by (rule evals_trans [OF findsym_frame_snd], rule evals_framed [OF framed_skipcomment])
      (auto split: option.split)
qed

lemma evals_eval:
  "evals s (eval_unary v cp s)" "evals s (eval_table l v cp s)"
  "lt \<in> eval_types \<Longrightarrow> evals s (eval_loop l lt v cp s)"
proof (induction v cp s and l v cp s and l lt v cp s rule: eval_unary_eval_table_eval_loop.induct)
  case (1 v cp0 s)
  show ?case
    unfolding eval_unary.simps [of v cp0 s]
  proof (rule evals_framed [OF framed_skipcomment])
    fix cp t assume a: "skipcomment cp0 s = Ok cp t"
    have bang: "evals t (andthen (eval_unary v (tl cp) t) (\<lambda>(lt, v, cp1) s2.
           if lt = LT_ERROR then Ok (LT_ERROR, v, cp0) s2
           else if lt \<noteq> LT LT_IF then (let v' = c_bool (v = 0) in Ok (lt_of v', v', cp1) s2)
           else Ok (lt, v, cp1) s2))" if "cur cp = CHR ''!''"
      by (rule evals_andthen [OF 1(1) [OF a that]]) (auto simp: Let_def)
    have paren: "evals t (andthen (eval_table 0 v (tl cp) t) (\<lambda>(lt, v, cp1) s2.
           if lt = LT_ERROR then Ok (LT_ERROR, v, cp0) s2
           else andthen (skipcomment cp1 s2) (\<lambda>cp2 s3.
             if cur cp2 \<noteq> CHR '')'' then Ok (LT_ERROR, v, cp0) s3 else Ok (lt, v, tl cp2) s3)))"
      if "cur cp \<noteq> CHR ''!''" "cur cp = CHR ''(''"
      by (rule evals_andthen [OF 1(2) [OF a that]]) (auto intro!: evals_framed [OF framed_skipcomment])
    show "evals t (if cur cp = CHR ''!'' then
         andthen (eval_unary v (tl cp) t) (\<lambda>(lt, v, cp1) s2.
           if lt = LT_ERROR then Ok (LT_ERROR, v, cp0) s2
           else if lt \<noteq> LT LT_IF then (let v' = c_bool (v = 0) in Ok (lt_of v', v', cp1) s2)
           else Ok (lt, v, cp1) s2)
       else if cur cp = CHR ''('' then
         andthen (eval_table 0 v (tl cp) t) (\<lambda>(lt, v, cp1) s2.
           if lt = LT_ERROR then Ok (LT_ERROR, v, cp0) s2
           else andthen (skipcomment cp1 s2) (\<lambda>cp2 s3.
             if cur cp2 \<noteq> CHR '')'' then Ok (LT_ERROR, v, cp0) s3 else Ok (lt, v, tl cp2) s3))
       else if isdigit (cur cp) then eval_number v cp0 cp t
       else if is_prefix ''defined'' cp \<and> endsym (cur (drop 7 cp)) then eval_defined v cp0 cp t
       else if \<not> endsym (cur cp) then eval_symbol v cp0 cp t
       else Ok (LT_ERROR, v, cp0) t)"
      using bang paren framed_number framed_defined framed_symbol by simp
  qed
next
  case (2 l v cp0 s)
  show ?case
    unfolding eval_table.simps [of l v cp0 s]
  proof (rule evals_andthen)
    show "evals s (if l < 3 then eval_table (Suc l) v cp0 s else eval_unary v cp0 s)" using 2(1,2) by simp
    fix lt v' cp t assume r: "(if l < 3 then eval_table (Suc l) v cp0 s else eval_unary v cp0 s) = Ok (lt, v', cp) t"
      "lt \<in> eval_types"
    have "lt \<noteq> LT_ERROR \<Longrightarrow> evals t (eval_loop l lt v' cp t)" using 2(3) [OF r(1) refl refl _ r(2)] by simp
    then show "evals t ((case (lt, v', cp) of (lt, v, cp) \<Rightarrow> \<lambda>s1. if lt = LT_ERROR then Ok (LT_ERROR, v, cp0) s1
       else andthen (eval_loop l lt v cp s1) (\<lambda>(lt', v', cp') s2.
         if lt' = LT_ERROR then Ok (LT_ERROR, v', cp0) s2 else Ok (lt', v', cp') s2)) t)"
      by (auto intro!: evals_andthen)
  qed
next
  case (3 l lt v cp0 s)
  show ?case
    unfolding eval_loop.simps [of l lt v cp0 s]
  proof (rule evals_framed [OF framed_skipcomment])
    fix cp t assume a: "skipcomment cp0 s = Ok cp t"
    show "evals t (case find_op l cp of None \<Rightarrow> Ok (lt, v, cp) t
       | Some (str, fn) \<Rightarrow>
           andthen (if l < 3 then eval_table (Suc l) (uninit t) (drop (length str) cp) t
                    else eval_unary (uninit t) (drop (length str) cp) t) (\<lambda>(rt, val, cp1) s2.
             if rt = LT_ERROR then Ok (LT_ERROR, v, cp0) s2
             else (case fn (strictlogic s2) v lt v rt val of (lt', v') \<Rightarrow> eval_loop l lt' v' cp1 s2)))"
    proof (cases "find_op l cp")
      case (Some p)
      obtain str fn where p: "p = (str, fn)" by (cases p)
      define r where "r = (if l < 3 then eval_table (Suc l) (uninit t) (drop (length str) cp) t
                    else eval_unary (uninit t) (drop (length str) cp) t)"
      have "evals t (andthen r (\<lambda>(rt, val, cp1) s2.
             if rt = LT_ERROR then Ok (LT_ERROR, v, cp0) s2
             else (case fn (strictlogic s2) v lt v rt val of (lt', v') \<Rightarrow> eval_loop l lt' v' cp1 s2)))"
      proof (rule evals_andthen)
        show "evals t r" unfolding r_def using 3(1,2) [OF a Some p [symmetric]] by simp
        fix rt val cp1 u assume r: "r = Ok (rt, val, cp1) u" "rt \<in> eval_types"
        show "evals u ((case (rt, val, cp1) of (rt, val, cp1) \<Rightarrow> \<lambda>s2. if rt = LT_ERROR then Ok (LT_ERROR, v, cp0) s2
             else (case fn (strictlogic s2) v lt v rt val of (lt', v') \<Rightarrow> eval_loop l lt' v' cp1 s2)) u)"
          using 3(3) [OF a Some p [symmetric] r(1) [unfolded r_def] refl refl]
            find_op_types [OF Some [unfolded p] 3(4) r(2)]
          by (auto split: prod.split)
      qed
      then show ?thesis using Some p by (simp add: r_def)
    qed (use 3(4) in simp)
  qed
qed

lemma framed_ifeval:
  "outcome (\<lambda>p t. parse_eq s t \<and> fst p \<in> {LT LT_TRUE, LT LT_FALSE, LT LT_IF}) fatal (ifeval cp s)"
  unfolding ifeval_def
  by (rule outcome_andthen [OF evals_trans [OF _ evals_eval(2)]]) (auto simp: eval_types_def)

end
