(* ===== verification/Unifdef_Machine.thy ===== *)
theory Unifdef_Machine
  imports Unifdef_Base
begin

text \<open>
  The stack of #if states that the transition functions keep: the depth stays below MAXDEPTH, the
  bottom is IS_OUTSIDE and everything above it is inside a group. Under this invariant no
  transition reaches an abort(), and the end of the input always ends the run.
\<close>

subsection \<open>Invariant\<close>

definition stack_ok :: "ustate \<Rightarrow> bool" where
  "stack_ok s \<longleftrightarrow> depth s < MAXDEPTH \<and> length (ifstate s) = MAXDEPTH \<and> length (ignoring s) = MAXDEPTH
     \<and> length (stifline s) = MAXDEPTH \<and> ifstate s ! 0 = IS_OUTSIDE
     \<and> (\<forall>d. 0 < d \<and> d < depth s \<longrightarrow> ifstate s ! d \<noteq> IS_OUTSIDE)"

definition mach_ok :: "ustate \<Rightarrow> bool" where
  "mach_ok s \<longleftrightarrow> stack_ok s \<and> (0 < depth s \<longrightarrow> ifstate s ! depth s \<noteq> IS_OUTSIDE)"

text \<open>Three assertions: between transitions; between transitions and inside a group; inside a group
  whose own state is still to be set. All with the input that is left.\<close>

definition atline :: "string \<Rightarrow> ustate \<Rightarrow> bool" where "atline n s \<longleftrightarrow> mach_ok s \<and> input s = n"
definition ingroup :: "string \<Rightarrow> ustate \<Rightarrow> bool" where "ingroup n s \<longleftrightarrow> atline n s \<and> 0 < depth s"
definition opened :: "string \<Rightarrow> ustate \<Rightarrow> bool" where "opened n s \<longleftrightarrow> stack_ok s \<and> 0 < depth s \<and> input s = n"

definition safe :: "stop \<Rightarrow> ustate \<Rightarrow> bool" where "safe x t \<longleftrightarrow> (\<exists>m. x = Fatal m)"

definition triple :: "(ustate \<Rightarrow> bool) \<Rightarrow> step \<Rightarrow> (ustate \<Rightarrow> bool) \<Rightarrow> bool" where
  "triple P f Q \<longleftrightarrow> (\<forall>s. P s \<longrightarrow> outcome (\<lambda>_ t. Q t) safe (f s))"

named_theorems triples \<open>triples of the transition functions\<close>

lemma triple_Nil: "triple P (steps []) P"
  by (simp add: triple_def)

lemma triple_Cons: "triple P f R \<Longrightarrow> triple R (steps fs) Q \<Longrightarrow> triple P (steps (f # fs)) Q"
  unfolding triple_def by (auto intro!: outcome_andthen)

lemma triple_weaken: "triple P f Q \<Longrightarrow> (\<And>s. P' s \<Longrightarrow> P s) \<Longrightarrow> (\<And>s. Q s \<Longrightarrow> Q' s) \<Longrightarrow> triple P' f Q'"
  unfolding triple_def by (intro allI impI, rule outcome_mono [where P = "\<lambda>_. Q"]) simp_all

lemma ingroup_opened: "ingroup n s \<Longrightarrow> opened n s"
  by (simp add: ingroup_def atline_def opened_def mach_ok_def)

subsection \<open>The utility functions\<close>

lemma flushline_Ok: "\<exists>t. flushline k s = Ok () t \<and> depth t = depth s \<and> ifstate t = ifstate s
    \<and> ignoring t = ignoring s \<and> stifline t = stifline s \<and> input t = input s"
  by (auto simp: flushline_def Let_def)

lemma flushline_triple:
  "triple (atline n) (flushline k) (atline n)" "triple (ingroup n) (flushline k) (ingroup n)"
  "triple (opened n) (flushline k) (opened n)"
proof -
  have "outcome (\<lambda>_ t. Q t) safe (flushline k s)"
    if "Q s" "\<And>t. depth t = depth s \<Longrightarrow> ifstate t = ifstate s \<Longrightarrow> ignoring t = ignoring s \<Longrightarrow>
      stifline t = stifline s \<Longrightarrow> input t = input s \<Longrightarrow> Q t" for Q s
    using flushline_Ok [of k s] that(2) by auto
  then show "triple (atline n) (flushline k) (atline n)" "triple (ingroup n) (flushline k) (ingroup n)"
    "triple (opened n) (flushline k) (opened n)"
    unfolding triple_def atline_def ingroup_def opened_def mach_ok_def stack_ok_def by auto
qed

lemma print_triple [triples]:
  "triple (atline n) print (atline n)" "triple (ingroup n) print (ingroup n)" "triple (opened n) print (opened n)"
  using flushline_triple [of n True] by (simp_all add: triple_def print_def)

lemma drop_triple [triples]:
  "triple (atline n) drop_line (atline n)" "triple (ingroup n) drop_line (ingroup n)"
  "triple (opened n) drop_line (opened n)"
  using flushline_triple [of n False] by (simp_all add: triple_def drop_line_def)

lemma ignoreoff_triple [triples]:
  "triple (opened n) ignoreoff (opened n)" "triple (ingroup n) ignoreoff (ingroup n)"
  by (auto simp: triple_def ignoreoff_def opened_def ingroup_def atline_def mach_ok_def stack_ok_def)

lemma ignoreon_triple [triples]: "triple (ingroup n) ignoreon (ingroup n)"
  by (auto simp: triple_def ignoreon_def ingroup_def atline_def mach_ok_def stack_ok_def)

lemma keywordedit_triple [triples]: "triple (ingroup n) (keywordedit r) (ingroup n)"
proof -
  have "triple (ingroup n) print (ingroup n)" by (rule print_triple)
  then show ?thesis
    by (auto simp: triple_def keywordedit_def Let_def ingroup_def atline_def mach_ok_def stack_ok_def)
qed

lemma nest_triple [triples]: "triple (atline n) nest (opened n)"
  by (auto simp: triple_def nest_def atline_def opened_def mach_ok_def stack_ok_def error_def safe_def abort_def
      MAXDEPTH_def less_Suc_eq)

lemma unnest_triple [triples]: "triple (ingroup n) unnest (atline n)"
proof (clarsimp simp: triple_def unnest_def ingroup_def)
  fix s assume a: "atline n s" "0 < depth s"
  then have "depth s - 1 < depth s" by simp
  then show "atline n (s\<lparr>depth := depth s - Suc 0\<rparr>)"
    using a unfolding atline_def mach_ok_def stack_ok_def by auto
qed

lemma state_triple: "is \<noteq> IS_OUTSIDE \<Longrightarrow> triple (opened n) (state is) (ingroup n)"
  by (auto simp: triple_def state_def opened_def ingroup_def atline_def mach_ok_def stack_ok_def nth_list_update)

lemma state_triples [triples]:
  "triple (opened n) (state IS_FALSE_PREFIX) (ingroup n)" "triple (opened n) (state IS_TRUE_PREFIX) (ingroup n)"
  "triple (opened n) (state IS_PASS_MIDDLE) (ingroup n)" "triple (opened n) (state IS_FALSE_MIDDLE) (ingroup n)"
  "triple (opened n) (state IS_TRUE_MIDDLE) (ingroup n)" "triple (opened n) (state IS_PASS_ELSE) (ingroup n)"
  "triple (opened n) (state IS_FALSE_ELSE) (ingroup n)" "triple (opened n) (state IS_TRUE_ELSE) (ingroup n)"
  "triple (opened n) (state IS_FALSE_TRAILER) (ingroup n)"
  by (rule state_triple, simp)+

lemma edit_if_triple [triples]: "triple (ingroup n) edit_if (ingroup n)"
  by (auto simp: triple_def edit_if_def ingroup_def atline_def mach_ok_def stack_ok_def)

lemma pedantic_triple [triples]: "triple (atline n) pedantic (atline n)" "triple (ingroup n) pedantic (ingroup n)"
  by (auto simp: triple_def pedantic_def Eioccc_def error_def safe_def)

lemma error_triple: "triple P (error m) Q"
  by (auto simp: triple_def error_def safe_def)

subsection \<open>The transition functions\<close>

lemmas transition_defs =
  Strue_def Sfalse_def Selse_def Pelif_def Pelse_def Pendif_def Dfalse_def Delif_def Delse_def Dendif_def
  Fdrop_def Fpass_def Ftrue_def Ffalse_def Oiffy_def Oif_def Oelif_def Idrop_def Itrue_def Ifalse_def
  Mpass_def Mtrue_def Melif_def Melse_def

lemma triple_last: "triple P f Q \<Longrightarrow> triple P (steps [f]) Q"
  by (rule triple_Cons [OF _ triple_Nil])

lemma triple_open: "triple (opened n) f Q \<Longrightarrow> triple (ingroup n) f Q"
  by (erule triple_weaken) (auto intro: ingroup_opened)

lemma inner_triples [triples]:
  "triple (opened n) Strue (ingroup n)" "triple (opened n) Sfalse (ingroup n)" "triple (opened n) Selse (ingroup n)"
  "triple (opened n) Pelif (ingroup n)" "triple (opened n) Pelse (ingroup n)"
  "triple (opened n) Dfalse (ingroup n)" "triple (opened n) Delif (ingroup n)" "triple (opened n) Delse (ingroup n)"
  unfolding transition_defs by (blast intro: triple_Cons triple_Nil triples)+

lemma first_triples [triples]:
  "triple (atline n) Fdrop (ingroup n)" "triple (atline n) Fpass (ingroup n)"
  "triple (atline n) Ftrue (ingroup n)" "triple (atline n) Ffalse (ingroup n)"
  unfolding Fdrop_def Fpass_def Ftrue_def Ffalse_def
  by (rule triple_Cons, rule triples, rule triple_last, rule triples)+

lemma end_triples [triples]:
  "triple (ingroup n) Pendif (atline n)" "triple (ingroup n) Dendif (atline n)"
  unfolding Pendif_def Dendif_def by (rule triple_Cons, rule triples, rule triple_last, rule triples)+

lemma other_triples [triples]:
  "triple (atline n) Oiffy (ingroup n)" "triple (atline n) Oif (ingroup n)" "triple (ingroup n) Oelif (ingroup n)"
  "triple (atline n) Idrop (ingroup n)" "triple (atline n) Itrue (ingroup n)" "triple (atline n) Ifalse (ingroup n)"
  unfolding Oiffy_def Oif_def Oelif_def Idrop_def Itrue_def Ifalse_def
  by (blast intro: triple_Cons triple_Nil triples triple_open)+

lemma group_triples [triples]:
  "triple (ingroup n) Strue (ingroup n)" "triple (ingroup n) Sfalse (ingroup n)" "triple (ingroup n) Selse (ingroup n)"
  "triple (ingroup n) Pelif (ingroup n)" "triple (ingroup n) Pelse (ingroup n)"
  "triple (ingroup n) Dfalse (ingroup n)" "triple (ingroup n) Delif (ingroup n)" "triple (ingroup n) Delse (ingroup n)"
  by (blast intro: triple_open triples)+

lemma edit_triples [triples]:
  "triple (ingroup n) Mpass (ingroup n)" "triple (ingroup n) Mtrue (ingroup n)"
  "triple (ingroup n) Melif (ingroup n)" "triple (ingroup n) Melse (ingroup n)"
  unfolding Mpass_def Mtrue_def Melif_def Melse_def
  by (blast intro: triple_Cons triple_Nil triples triple_open)+

lemma error_triples [triples]:
  "triple P Eelif Q" "triple P Eelse Q" "triple P Eendif Q" "triple P Eeof Q" "triple P Eioccc Q"
  by (simp_all add: Eelif_def Eelse_def Eendif_def Eeof_def Eioccc_def error_triple)

lemma outside_rows: "lt \<noteq> LT_ERROR \<Longrightarrow> lt \<noteq> LT_EOF \<Longrightarrow> triple (atline n) (trans_table IS_OUTSIDE ! linetype_index lt) (atline n)"
proof -
  have weak: "triple (atline n) f (ingroup n) \<Longrightarrow> triple (atline n) f (atline n)" for f
    by (erule triple_weaken) (auto simp: ingroup_def)
  assume "lt \<noteq> LT_ERROR" "lt \<noteq> LT_EOF"
  then show ?thesis
  proof (cases lt)
    case (LT d)
    then show ?thesis by (cases d) (auto intro: triples weak)
  next
    case (LT_DODGY d)
    then show ?thesis by (cases d) (auto intro: triples weak)
  qed (auto intro: triples)
qed

lemma inside_rows:
  assumes "is \<noteq> IS_OUTSIDE" "lt \<noteq> LT_ERROR"
  shows "triple (ingroup n) (trans_table is ! linetype_index lt) (atline n)"
proof -
  have weak: "triple (ingroup n) f (ingroup n) \<Longrightarrow> triple (ingroup n) f (atline n)" for f
    by (erule triple_weaken) (auto simp: ingroup_def)
  have first: "triple (atline n) f (ingroup n) \<Longrightarrow> triple (ingroup n) f (atline n)" for f
    by (erule triple_weaken) (auto simp: ingroup_def)
  show ?thesis
  proof (cases lt)
    case (LT d)
    then show ?thesis using assms(1)
      by (cases d; cases "is") (auto intro: triples weak first)
  next
    case (LT_DODGY d)
    then show ?thesis using assms(1)
      by (cases d; cases "is") (auto intro: triples weak first)
  next
    case LT_PLAIN
    then show ?thesis using assms(1) by (cases "is") (auto intro: triples weak first)
  next
    case LT_EOF
    then show ?thesis using assms(1) by (cases "is") (auto intro: triples)
  qed (use assms in simp)
qed

lemma transition_safe:
  assumes "mach_ok s" "lt \<noteq> LT_ERROR" "lt \<noteq> LT_EOF"
  shows "outcome (\<lambda>_ t. mach_ok t \<and> input t = input s) safe (transition lt s)"
proof (cases "ifstate s ! depth s = IS_OUTSIDE")
  case True
  then show ?thesis
    using outside_rows [OF assms(2,3), of "input s"] assms(1)
    by (simp add: transition_def triple_def atline_def)
next
  case False
  then have "ingroup (input s) s"
    using assms(1) by (auto simp: ingroup_def atline_def mach_ok_def stack_ok_def intro!: Nat.gr0I)
  then show ?thesis
    using inside_rows [OF False assms(2), of "input s"] by (simp add: transition_def triple_def atline_def)
qed

lemma transition_end:
  assumes "mach_ok s" "transition LT_EOF s = Stop x t"
  shows "(\<exists>m. x = Fatal m) \<or> x = Exit (exitstat t) \<and> t = closeout s \<and> depth s = 0 \<and> incomment s = NO_COMMENT"
proof (cases "ifstate s ! depth s = IS_OUTSIDE")
  case True
  then have "depth s = 0" using assms(1) by (auto simp: mach_ok_def)
  then show ?thesis
    using True assms(2) by (auto simp: transition_def done_file_def error_def Let_def split: if_splits)
next
  case False
  then show ?thesis
    using assms(2) by (cases "ifstate s ! depth s") (auto simp: transition_def Eeof_def error_def)
qed

text \<open>The end of the input ends the run in every state.\<close>

lemma transition_EOF: "\<exists>x t. transition LT_EOF s = Stop x t"
  by (cases "ifstate s ! depth s")
    (simp_all add: transition_def done_file_def Eeof_def error_def Let_def)

text \<open>No transition reads input, whatever the state.\<close>

definition keeps :: "step \<Rightarrow> bool" where
  "keeps f \<longleftrightarrow> (\<forall>s t. f s = Ok () t \<longrightarrow> input t = input s)"

lemma keeps_steps: "\<forall>f \<in> set fs. keeps f \<Longrightarrow> keeps (steps fs)"
proof (induction fs)
  case (Cons f fs)
  then show ?case unfolding keeps_def by fastforce
qed (simp add: keeps_def)

lemma keeps_flushline: "keeps (flushline k)"
  unfolding keeps_def using flushline_Ok [of k] by (metis res.inject(1))

lemma keeps_basic [simp]:
  "keeps print" "keeps drop_line" "keeps ignoreoff" "keeps ignoreon" "keeps nest" "keeps unnest"
  "keeps (state is)" "keeps edit_if" "keeps (keywordedit r)" "keeps (error m)" "keeps done_file" "keeps abort"
proof -
  have p: "print = flushline True" "drop_line = flushline False" by (auto simp: print_def drop_line_def)
  show "keeps print" "keeps drop_line" unfolding p by (rule keeps_flushline)+
  show "keeps (keywordedit r)"
    using keeps_flushline [of True] unfolding keeps_def keywordedit_def Let_def p by fastforce
qed (auto simp: keeps_def ignoreoff_def ignoreon_def nest_def unnest_def state_def edit_if_def error_def abort_def
    done_file_def Let_def)

lemma keeps_errors [simp]: "keeps Eelif" "keeps Eelse" "keeps Eendif" "keeps Eeof" "keeps Eioccc" "keeps pedantic"
  using keeps_basic(10)
  by (simp_all add: Eelif_def Eelse_def Eendif_def Eeof_def Eioccc_def)
    (auto simp: keeps_def pedantic_def Eioccc_def error_def)

lemma keeps_trans [simp]:
  "keeps Strue" "keeps Sfalse" "keeps Selse" "keeps Pelif" "keeps Pelse" "keeps Pendif" "keeps Dfalse"
  "keeps Delif" "keeps Delse" "keeps Dendif" "keeps Fdrop" "keeps Fpass" "keeps Ftrue" "keeps Ffalse"
  "keeps Oiffy" "keeps Oif" "keeps Oelif" "keeps Idrop" "keeps Itrue" "keeps Ifalse" "keeps Mpass"
  "keeps Mtrue" "keeps Melif" "keeps Melse"
  unfolding transition_defs by (simp_all add: keeps_steps)

lemma keeps_table: "f \<in> set (trans_table is) \<Longrightarrow> keeps f"
  by (cases "is") auto

lemma linetype_index_less: "linetype_index lt < length (trans_table is)"
proof -
  have "length (trans_table is) = 23" by (cases "is") simp_all
  moreover have "directive_index d < 10" for d by (cases d) simp_all
  then have "linetype_index lt < 23" by (cases lt) (auto intro: less_trans [where y = 10])
  ultimately show ?thesis by simp
qed

lemma transition_input: "transition lt s = Ok () t \<Longrightarrow> input t = input s"
  using keeps_table [OF nth_mem [OF linetype_index_less [of lt "ifstate s ! depth s"]]]
  by (simp add: keeps_def transition_def)

end
