(* ===== verification/Unifdef.thy ===== *)
theory Unifdef
  imports Unifdef_Frame Unifdef_Machine
begin

text \<open>
  unifdef.c, the driver: reading a line, finding its type (parseline), the loop of the state
  machine (process), and the options of main. fgets is given the size of the buffer; a line is
  a C string, so what follows a NUL byte on a line is invisible.
\<close>

subsection \<open>Reading\<close>

definition strrchr :: "char \<Rightarrow> string \<Rightarrow> nat option" where
  "strrchr c t = (if c \<in> set t then Some (length t - 1 - length (takeWhile (\<lambda>x. x \<noteq> c) (rev t))) else None)"

definition crlf :: "string \<Rightarrow> bool" where
  "crlf t = (case (strrchr NL t, strrchr CR t) of (Some i, Some j) \<Rightarrow> i = j + 1 | _ \<Rightarrow> False)"

definition set_newline :: "ustate \<Rightarrow> ustate" where
  "set_newline s = (if newline s = None then s\<lparr>newline := Some (if crlf (tline s) then [CR, NL] else [NL])\<rparr> else s)"

subsection \<open>The type of a line\<close>

definition ifdef_type :: "bool \<Rightarrow> nat option \<Rightarrow> ustate \<Rightarrow> Linetype" where
  "ifdef_type ndef cursym s =
     (case cursym of None \<Rightarrow> LT LT_IF
      | Some i \<Rightarrow>
          (let retval = \<not> ndef;
               retval' = (if symvalue s i = None then \<not> retval else retval)
           in if ignore s i then (if retval' then LT LT_TRUEI else LT LT_FALSEI)
              else if retval' then LT LT_TRUE else LT LT_FALSE))"

fun elif_type :: "Linetype \<Rightarrow> Linetype" where
  "elif_type (LT LT_IF) = LT LT_ELIF"
| "elif_type (LT LT_TRUE) = LT LT_ELTRUE"
| "elif_type (LT LT_FALSE) = LT LT_ELFALSE"
| "elif_type x = x"

definition parse_keyword :: "string \<Rightarrow> nat \<Rightarrow> string \<Rightarrow> ustate \<Rightarrow> (Linetype \<times> string) res" where
  "parse_keyword kw kwlen cp s =
     (if strlcmp ''ifdef'' kw kwlen = 0 \<or> strlcmp ''ifndef'' kw kwlen = 0 then
        andthen (skipcomment cp s) (\<lambda>cp1 s1.
          case findsym cp1 s1 of (cursym, s2) \<Rightarrow>
            Ok (ifdef_type (kw ! 2 = CHR ''n'') cursym s2, skipsym cp1) s2)
      else if strlcmp ''if'' kw kwlen = 0 then ifeval cp s
      else if strlcmp ''elif'' kw kwlen = 0 then
        andthen (ifeval cp s) (\<lambda>(lt, cp1) s1. Ok (elif_type lt, cp1) s1)
      else if strlcmp ''else'' kw kwlen = 0 then Ok (LT LT_ELSE, cp) s
      else if strlcmp ''endif'' kw kwlen = 0 then Ok (LT LT_ENDIF, cp) s
      else Ok (LT_PLAIN, cp) (s\<lparr>linestate := LS_DIRTY\<rparr>))"

text \<open>Text after the directive: the condition is then taken as unknown.\<close>

definition weaken :: "Linetype \<Rightarrow> Linetype" where
  "weaken lt = (if lt \<in> {LT LT_TRUE, LT LT_FALSE, LT LT_TRUEI, LT LT_FALSEI} then LT LT_IF
     else if lt \<in> {LT LT_ELTRUE, LT LT_ELFALSE} then LT LT_ELIF else lt)"

fun add_dodgy :: "Linetype \<Rightarrow> Linetype" where
  "add_dodgy (LT d) = LT_DODGY d"
| "add_dodgy x = x"

text \<open>The directive ends the buffer without a newline: read on, or append one at the end of file.
  After reading, the position is at the text just read.\<close>

definition finish_line :: "Linetype \<Rightarrow> string \<Rightarrow> ustate \<Rightarrow> (Linetype \<times> string) res" where
  "finish_line retval cp s =
     (let len = length (tline s) - length cp in
      case fgets (MAXLINE - len) (input s) of
        None \<Rightarrow>
          if input_bad s then error ''read error'' s
          else Ok (retval, []) (s\<lparr>tline := take len (tline s) @ newline_str s, linestate := LS_START\<rparr>)
      | Some (l, rest) \<Rightarrow>
          Ok (retval, cstr l) (s\<lparr>input := rest, tline := take len (tline s) @ cstr l, linestate := LS_DIRTY\<rparr>))"

text \<open>The checks after the directive: other text, a comment that started before or goes on.\<close>

definition directive_end :: "bool \<Rightarrow> Linetype \<Rightarrow> string \<Rightarrow> ustate \<Rightarrow> (Linetype \<times> string) res" where
  "directive_end wascomment retval cp s =
     (let retval1 = (if cp \<noteq> [] then weaken retval else retval);
          s1 = (if cp \<noteq> [] then s\<lparr>linestate := LS_DIRTY\<rparr> else s);
          dodgy = (retval1 \<noteq> LT_PLAIN \<and> (wascomment \<or> incomment s1 \<noteq> NO_COMMENT));
          retval2 = (if dodgy then add_dodgy retval1 else retval1);
          s2 = (if dodgy \<and> incomment s1 \<noteq> NO_COMMENT then s1\<lparr>linestate := LS_DIRTY\<rparr> else s1)
      in if linestate s2 = LS_HASH then finish_line retval2 cp s2 else Ok (retval2, cp) s2)"

definition parse_directive :: "bool \<Rightarrow> string \<Rightarrow> ustate \<Rightarrow> (Linetype \<times> string) res" where
  "parse_directive wascomment kw s =
     (let s1 = s\<lparr>keyword := length (tline s) - length kw\<rparr>;
          cp = skipsym kw;
          kwlen = length kw - length cp
      in if is_prefix [BSLASH, CR, NL] cp \<or> is_prefix [BSLASH, NL] cp then andthen (Eioccc s1) (\<lambda>_. Ok (LT_PLAIN, cp))
         else
           andthen (parse_keyword kw kwlen cp s1) (\<lambda>(retval, cp1) s2.
           andthen (skipcomment cp1 s2) (directive_end wascomment retval)))"

function skip_rest :: "string \<Rightarrow> ustate \<Rightarrow> unit res" where
  "skip_rest cp s = (if cp = [] then Ok () s else andthen (skipcomment (tl cp) s) skip_rest)"
  by pat_completeness auto
termination
proof (relation "measure (\<lambda>(cp, s). length cp)", goal_cases)
  case (2 cp s cp' s')
  then show ?case using skipcomment_length [of "tl cp" s cp' s'] by (cases cp) auto
qed simp

declare skip_rest.simps [simp del]

definition parse_hash :: "string \<Rightarrow> ustate \<Rightarrow> string res" where
  "parse_hash cp s =
     (if linestate s = LS_START then
        if cur cp = CHR ''#'' then skipcomment (tl cp) (s\<lparr>linestate := LS_HASH, firstsym := True\<rparr>)
        else if cp \<noteq> [] then Ok cp (s\<lparr>linestate := LS_DIRTY\<rparr>)
        else Ok cp s
      else Ok cp s)"

definition parse_buffer :: "ustate \<Rightarrow> Linetype res" where
  "parse_buffer s =
     (let wascomment = (incomment s \<noteq> NO_COMMENT) in
      andthen (skipcomment (tline s) s) (\<lambda>cp s2.
      andthen (parse_hash cp s2) (\<lambda>cp1 s3.
      andthen (if incomment s3 = NO_COMMENT \<and> linestate s3 = LS_HASH then parse_directive wascomment cp1 s3
               else Ok (LT_PLAIN, cp1) s3) (\<lambda>(retval, cp2) s4.
      andthen (if linestate s4 = LS_DIRTY then skip_rest cp2 s4 else Ok () s4) (\<lambda>_ s5. Ok retval s5)))))"

definition parseline :: "ustate \<Rightarrow> Linetype res" where
  "parseline s =
     (let s0 = s\<lparr>linenum := linenum s + 1\<rparr> in
      case fgets MAXLINE (input s0) of
        None \<Rightarrow> if input_bad s0 then error ''read error'' s0 else Ok LT_EOF s0
      | Some (l, rest) \<Rightarrow> parse_buffer (set_newline (s0\<lparr>input := rest, tline := cstr l\<rparr>)))"

subsection \<open>What reading a line leaves alone\<close>

text \<open>parseline does not touch the state machine, the options, the symbol table or the output; it
  may set the input format once and never gives back input.\<close>

definition line_eq :: "ustate \<Rightarrow> ustate \<Rightarrow> bool" where
  "line_eq s t \<longleftrightarrow> ifstate t = ifstate s \<and> ignoring t = ignoring s \<and> stifline t = stifline s \<and> depth t = depth s
     \<and> out t = out s \<and> exitstat t = exitstat s \<and> complement t = complement s \<and> symlist t = symlist s
     \<and> newline t = newline s \<and> length (input t) \<le> length (input s)"

lemma line_eq_refl [simp]: "line_eq s s"
  by (simp add: line_eq_def)

lemma line_eq_trans: "line_eq s t \<Longrightarrow> line_eq t u \<Longrightarrow> line_eq s u"
  by (auto simp: line_eq_def)

lemma line_eq_parse: "parse_eq s t \<Longrightarrow> line_eq s t"
  by (simp add: line_eq_def parse_eq_sel)

lemma line_eq_upd [simp]:
  "line_eq s (t\<lparr>keyword := k\<rparr>) = line_eq s t" "line_eq (s\<lparr>keyword := k\<rparr>) t = line_eq s t"
  "line_eq s (t\<lparr>linestate := l\<rparr>) = line_eq s t" "line_eq (s\<lparr>linestate := l\<rparr>) t = line_eq s t"
  "line_eq s (t\<lparr>tline := x\<rparr>) = line_eq s t" "line_eq (s\<lparr>firstsym := b\<rparr>) t = line_eq s t"
  by (simp_all add: line_eq_def)

definition linetypes :: "Linetype set" where "linetypes = {lt. lt \<noteq> LT_EOF \<and> lt \<noteq> LT_ERROR}"

lemma linetypes_simps [simp]: "LT d \<in> linetypes" "LT_DODGY d \<in> linetypes" "LT_PLAIN \<in> linetypes"
  "LT_EOF \<notin> linetypes" "LT_ERROR \<notin> linetypes"
  by (simp_all add: linetypes_def)

lemma linetypes_ops [simp]:
  "ifdef_type b i s \<in> linetypes" "lt \<in> linetypes \<Longrightarrow> weaken lt \<in> linetypes"
  "lt \<in> linetypes \<Longrightarrow> add_dodgy lt \<in> linetypes"
  by (auto simp: ifdef_type_def weaken_def Let_def split: option.split) (cases lt; simp)

abbreviation line_read :: "ustate \<Rightarrow> (Linetype \<times> string) res \<Rightarrow> bool" where
  "line_read s r \<equiv> outcome (\<lambda>p t. line_eq s t \<and> fst p \<in> linetypes) fatal r"

lemma line_read_trans: "line_eq s t \<Longrightarrow> line_read t r \<Longrightarrow> line_read s r"
  by (erule outcome_mono) (auto intro: line_eq_trans)

lemma line_read_framed:
  "framed s r \<Longrightarrow> (\<And>a t. r = Ok a t \<Longrightarrow> line_read t (f a t)) \<Longrightarrow> line_read s (andthen r f)"
  by (cases r) (auto intro: line_read_trans line_eq_parse)

lemma parse_keyword_read: "line_read s (parse_keyword kw n cp s)"
proof -
  have e: "line_read s (ifeval cp s)"
    using framed_ifeval [of s cp] by (rule outcome_mono) (auto intro: line_eq_parse)
  have e2: "line_read s (andthen (ifeval cp s) (\<lambda>(lt, cp1) s1. Ok (elif_type lt, cp1) s1))"
    by (rule outcome_andthen [OF framed_ifeval]) (auto intro: line_eq_parse)
  have d: "line_read s (andthen (skipcomment cp s) (\<lambda>cp1 s1.
          case findsym cp1 s1 of (cursym, s2) \<Rightarrow>
            Ok (ifdef_type (kw ! 2 = CHR ''n'') cursym s2, skipsym cp1) s2))"
    by (rule line_read_framed [OF framed_skipcomment])
      (auto split: prod.split dest!: findsym_frame intro: line_eq_parse)
  show ?thesis using d e e2 by (simp add: parse_keyword_def)
qed

lemma finish_line_read: "lt \<in> linetypes \<Longrightarrow> line_read s (finish_line lt cp s)"
  by (auto simp: finish_line_def Let_def line_eq_def split: option.split dest: fgets_length)

lemma directive_end_read: "lt \<in> linetypes \<Longrightarrow> line_read s (directive_end b lt cp s)"
proof -
  assume lt: "lt \<in> linetypes"
  define l1 where "l1 = (if cp \<noteq> [] then weaken lt else lt)"
  define s1 where "s1 = (if cp \<noteq> [] then s\<lparr>linestate := LS_DIRTY\<rparr> else s)"
  define d where "d \<longleftrightarrow> l1 \<noteq> LT_PLAIN \<and> (b \<or> incomment s1 \<noteq> NO_COMMENT)"
  define l2 where "l2 = (if d then add_dodgy l1 else l1)"
  define s2 where "s2 = (if d \<and> incomment s1 \<noteq> NO_COMMENT then s1\<lparr>linestate := LS_DIRTY\<rparr> else s1)"
  have e: "directive_end b lt cp s = (if linestate s2 = LS_HASH then finish_line l2 cp s2 else Ok (l2, cp) s2)"
    by (simp add: directive_end_def Let_def l2_def s2_def d_def l1_def s1_def)
  have "l2 \<in> linetypes" "line_eq s s2" using lt by (simp_all add: l2_def l1_def s2_def s1_def)
  then show ?thesis using line_read_trans [OF _ finish_line_read] by (auto simp: e)
qed

lemma parse_directive_read: "line_read s (parse_directive b kw s)"
proof -
  let ?s = "s\<lparr>keyword := length (tline s) - length kw\<rparr>"
  have "line_read ?s (andthen (parse_keyword kw n cp ?s) (\<lambda>(retval, cp1) s2.
           andthen (skipcomment cp1 s2) (directive_end b retval)))" for n cp
  proof (rule outcome_andthen [OF parse_keyword_read])
    fix p :: "Linetype \<times> string" and t assume p: "line_eq ?s t \<and> fst p \<in> linetypes"
    have "line_read t (andthen (skipcomment (snd p) t) (directive_end b (fst p)))"
      by (rule line_read_framed [OF framed_skipcomment]) (use p in \<open>simp add: directive_end_read\<close>)
    then show "line_read ?s ((case p of (retval, cp1) \<Rightarrow> \<lambda>s2.
           andthen (skipcomment cp1 s2) (directive_end b retval)) t)"
      using line_read_trans [of ?s t] p by (simp add: case_prod_beta)
  qed
  then have "line_read ?s (parse_directive b kw s)"
    unfolding parse_directive_def Let_def by (simp add: Eioccc_def error_def fatal_def)
  then show ?thesis by simp
qed

lemma framed_skip_rest: "framed s (skip_rest cp s)"
proof (induction cp s rule: skip_rest.induct)
  case (1 cp s)
  show ?case
  proof (cases "cp = []")
    case False
    then show ?thesis
      unfolding skip_rest.simps [of cp s]
      using framed_andthen [OF framed_skipcomment, of "tl cp" s skip_rest] 1 [OF False] by simp
  qed (simp add: skip_rest.simps)
qed

lemma parse_hash_read: "outcome (\<lambda>_ t. line_eq s t) fatal (parse_hash cp s)"
proof -
  have "outcome (\<lambda>_ t. line_eq (s\<lparr>linestate := l, firstsym := b\<rparr>) t) fatal
      (skipcomment c (s\<lparr>linestate := l, firstsym := b\<rparr>))" for c l b
    by (rule outcome_mono [OF framed_skipcomment]) (auto intro: line_eq_parse)
  then show ?thesis by (simp add: parse_hash_def)
qed

lemma parse_buffer_read: "outcome (\<lambda>lt t. line_eq s t \<and> lt \<in> linetypes) fatal (parse_buffer s)"
proof -
  have tail: "outcome (\<lambda>lt t. line_eq s t \<and> lt \<in> linetypes) fatal
      (andthen (if c then parse_directive b cp s else Ok (LT_PLAIN, cp) s) (\<lambda>(retval, cp2) s4.
       andthen (if linestate s4 = LS_DIRTY then skip_rest cp2 s4 else Ok () s4) (\<lambda>_ s5. Ok retval s5)))" for c b cp s
  proof (rule outcome_andthen)
    show "line_read s (if c then parse_directive b cp s else Ok (LT_PLAIN, cp) s)"
      by (simp add: parse_directive_read)
    fix p :: "Linetype \<times> string" and t assume p: "line_eq s t \<and> fst p \<in> linetypes"
    have "framed t (if linestate t = LS_DIRTY then skip_rest x t else Ok () t)" for x
      by (simp add: framed_skip_rest)
    then show "outcome (\<lambda>lt t. line_eq s t \<and> lt \<in> linetypes) fatal ((case p of (retval, cp2) \<Rightarrow> \<lambda>s4.
       andthen (if linestate s4 = LS_DIRTY then skip_rest cp2 s4 else Ok () s4) (\<lambda>_ s5. Ok retval s5)) t)"
      using p by (cases p) (auto intro!: outcome_andthen [where P = "\<lambda>_. parse_eq t"] intro: line_eq_trans [OF _ line_eq_parse])
  qed
  have step: "outcome (\<lambda>lt t. line_eq s t \<and> lt \<in> linetypes) fatal (andthen r f)"
    if "outcome (\<lambda>_ t. line_eq s t) fatal r"
      "\<And>a t. outcome (\<lambda>lt u. line_eq t u \<and> lt \<in> linetypes) fatal (f a t)" for r :: "'b res" and f s
    using that(1) by (rule outcome_andthen) (auto intro: outcome_mono [OF that(2)] line_eq_trans)
  have sk: "outcome (\<lambda>_ t. line_eq s t) fatal (skipcomment cp s)" for cp s
    by (rule outcome_mono [OF framed_skipcomment]) (auto intro: line_eq_parse)
  show ?thesis
    unfolding parse_buffer_def Let_def by (intro step sk parse_hash_read tail)
qed

definition line_parsed :: "ustate \<Rightarrow> Linetype \<Rightarrow> ustate \<Rightarrow> bool" where
  "line_parsed s lt t \<longleftrightarrow> lt \<noteq> LT_ERROR \<and> (lt \<noteq> LT_EOF \<longrightarrow> length (input t) < length (input s) \<and> newline t \<noteq> None)
     \<and> (lt = LT_EOF \<longrightarrow> input t = [])
     \<and> ifstate t = ifstate s \<and> ignoring t = ignoring s \<and> stifline t = stifline s \<and> depth t = depth s
     \<and> out t = out s \<and> exitstat t = exitstat s \<and> complement t = complement s \<and> symlist t = symlist s"

lemma parseline_read: "outcome (line_parsed s) fatal (parseline s)"
proof -
  let ?s = "s\<lparr>linenum := linenum s + 1\<rparr>"
  have "outcome (line_parsed s) fatal (parse_buffer (set_newline (?s\<lparr>input := rest, tline := cstr l\<rparr>)))"
    if f: "fgets MAXLINE (input s) = Some (l, rest)" for l rest
  proof -
    have "length rest < length (input s)" using fgets_less [OF _ f] by (simp add: MAXLINE_def)
    then show ?thesis
      by (intro outcome_mono [OF parse_buffer_read])
        (auto simp: set_newline_def line_eq_def linetypes_def line_parsed_def)
  qed
  then show ?thesis
    unfolding parseline_def Let_def
    by (auto simp: error_def fatal_def line_parsed_def fgets_None split: option.split)
qed

subsection \<open>The driver\<close>

lemma line_decreases:
  assumes "andthen (parseline s) transition = Ok a t"
  shows "length (input t) < length (input s)"
proof -
  obtain lt u where u: "parseline s = Ok lt u" "transition lt u = Ok a t" using assms by auto
  have "lt \<noteq> LT_EOF" using u(2) transition_EOF [of u] by auto
  moreover have "line_parsed s lt u" using parseline_read [of s] u(1) by simp
  ultimately have "length (input u) < length (input s)" by (simp add: line_parsed_def)
  moreover have "input t = input u" using transition_input u(2) by simp
  ultimately show ?thesis by simp
qed

function process_loop :: "ustate \<Rightarrow> stop \<times> ustate" where
  "process_loop s = (case andthen (parseline s) transition of Ok _ t \<Rightarrow> process_loop t | Stop x t \<Rightarrow> (x, t))"
  by pat_completeness auto
termination
proof (relation "measure (\<lambda>s. length (input s))", goal_cases)
  case (2 s a t)
  then show ?case using line_decreases by auto
qed simp

declare process_loop.simps [simp del]

definition process :: "ustate \<Rightarrow> stop \<times> ustate" where
  "process s = process_loop (s\<lparr>blankcount := 1000, blankmax := 1000\<rparr>)"

lemma line_parsed_ok: "mach_ok s \<Longrightarrow> line_parsed s lt t \<Longrightarrow> mach_ok t"
  by (auto simp: line_parsed_def mach_ok_def stack_ok_def)

lemma closeout_sel [simp]: "input (closeout s) = input s" "depth (closeout s) = depth s"
  "incomment (closeout s) = incomment s"
  by (simp_all add: closeout_def)

lemma process_loop_ends:
  assumes "mach_ok s" "process_loop s = (x, t)"
  shows "(\<exists>m. x = Fatal m) \<or> x = Exit (exitstat t) \<and> input t = [] \<and> depth t = 0 \<and> incomment t = NO_COMMENT"
  using assms
proof (induction s rule: process_loop.induct)
  case (1 s)
  show ?case
  proof (cases "parseline s")
    case (Stop y u)
    then show ?thesis
      using 1(3) parseline_read [of s] by (auto simp: process_loop.simps [of s] fatal_def)
  next
    case (Ok lt u)
    have p: "line_parsed s lt u" "mach_ok u"
      using parseline_read [of s] Ok line_parsed_ok [OF 1(2)] by auto
    show ?thesis
    proof (cases "lt = LT_EOF")
      case True
      then obtain y v where v: "transition LT_EOF u = Stop y v" using transition_EOF [of u] by blast
      then show ?thesis
        using transition_end [OF p(2) v] 1(3) Ok True p(1)
        by (auto simp: process_loop.simps [of s] line_parsed_def)
    next
      case False
      have o: "outcome (\<lambda>_ t. mach_ok t \<and> input t = input u) safe (transition lt u)"
        using transition_safe [OF p(2) _ False] p(1) by (simp add: line_parsed_def)
      show ?thesis
      proof (cases "transition lt u")
        case (Ok a v)
        then show ?thesis
          using 1(1) [of a v] 1(3) o \<open>parseline s = Ok lt u\<close> by (simp add: process_loop.simps [of s])
      next
        case (Stop y v)
        then show ?thesis
          using 1(3) o \<open>parseline s = Ok lt u\<close> by (auto simp: process_loop.simps [of s] safe_def)
      qed
    qed
  qed
qed

subsection \<open>The main program\<close>

text \<open>One option as getopt returns it, with its argument. -d only adds diagnostics, -o and -I do
  not change what is computed; -V prints the version and exits.\<close>

definition main_option :: "char \<times> string \<Rightarrow> step" where
  "main_option p s =
     (let (opt, optarg) = p in
      if opt = CHR ''i'' then
        (if cur optarg = CHR ''D'' then addsym True True (tl optarg) s
         else if cur optarg = CHR ''U'' then addsym True False (tl optarg) s
         else Stop Usage s)
      else if opt = CHR ''D'' then addsym False True optarg s
      else if opt = CHR ''U'' then addsym False False optarg s
      else if opt \<in> {CHR ''I'', CHR ''o'', CHR ''d''} then Ok () s
      else if opt \<in> {CHR ''b'', CHR ''l''} then Ok () (s\<lparr>lnblank := True\<rparr>)
      else if opt = CHR ''B'' then Ok () (s\<lparr>compblank := True\<rparr>)
      else if opt = CHR ''c'' then Ok () (s\<lparr>complement := True\<rparr>)
      else if opt = CHR ''e'' then Ok () (s\<lparr>iocccok := True\<rparr>)
      else if opt = CHR ''K'' then Ok () (s\<lparr>strictlogic := True\<rparr>)
      else if opt = CHR ''k'' then Ok () (s\<lparr>killconsts := True\<rparr>)
      else if opt = CHR ''n'' then Ok () (s\<lparr>lnnum := True\<rparr>)
      else if opt = CHR ''s'' then Ok () (s\<lparr>symlist := True\<rparr>)
      else if opt = CHR ''S'' then Ok () (s\<lparr>symlist := True, symdepth := True\<rparr>)
      else if opt = CHR ''t'' then Ok () (s\<lparr>text_file := True\<rparr>)
      else if opt = CHR ''V'' then Stop (Exit 0) s
      else Stop Usage s)"

definition unifdef_main :: "(char \<times> string) list \<Rightarrow> nat \<Rightarrow> string \<Rightarrow> bool \<Rightarrow> stop \<times> ustate" where
  "unifdef_main opts argc inp bad =
     (case steps (map main_option opts) (initial inp) of
        Stop x s \<Rightarrow> (x, s)
      | Ok _ s \<Rightarrow>
          if compblank s \<and> lnblank s then (Errx ''-B and -b are mutually exclusive'', s)
          else if argc > 1 then (Errx ''can only do one file'', s)
          else process (s\<lparr>input_bad := bad\<rparr>))"

text \<open>What the options leave alone.\<close>

definition opt_ok :: "stop \<Rightarrow> ustate \<Rightarrow> bool" where
  "opt_ok x t \<longleftrightarrow> x = Usage \<or> (\<exists>m. x = Errx m) \<or> x = Exit 0"

lemma addsym_frame: "outcome (\<lambda>_ t. mach_ok t) opt_ok (addsym i d a s)" if "mach_ok s"
proof -
  obtain r u where f: "findsym a s = (r, u)" by (metis surj_pair)
  have "mach_ok u" using that parse_eq_sel [OF findsym_frame [OF f]] by (simp add: mach_ok_def stack_ok_def)
  then show ?thesis
    unfolding addsym_def f by (auto simp: Let_def opt_ok_def mach_ok_def stack_ok_def split: option.split)
qed

lemma mach_ok_option:
  "mach_ok (s\<lparr>lnblank := b\<rparr>) = mach_ok s" "mach_ok (s\<lparr>compblank := b\<rparr>) = mach_ok s"
  "mach_ok (s\<lparr>complement := b\<rparr>) = mach_ok s" "mach_ok (s\<lparr>iocccok := b\<rparr>) = mach_ok s"
  "mach_ok (s\<lparr>strictlogic := b\<rparr>) = mach_ok s" "mach_ok (s\<lparr>killconsts := b\<rparr>) = mach_ok s"
  "mach_ok (s\<lparr>lnnum := b\<rparr>) = mach_ok s" "mach_ok (s\<lparr>symlist := b\<rparr>) = mach_ok s"
  "mach_ok (s\<lparr>symlist := b, symdepth := c\<rparr>) = mach_ok s" "mach_ok (s\<lparr>text_file := b\<rparr>) = mach_ok s"
  by (simp_all add: mach_ok_def stack_ok_def)

lemma opt_ok_simps: "opt_ok Usage s" "opt_ok (Exit 0) s"
  by (simp_all add: opt_ok_def)

lemma main_option_ok: "mach_ok s \<Longrightarrow> outcome (\<lambda>_ t. mach_ok t) opt_ok (main_option p s)"
  unfolding main_option_def Let_def
  by (cases p) (simp add: addsym_frame mach_ok_option opt_ok_simps)

lemma main_options_ok: "mach_ok s \<Longrightarrow> outcome (\<lambda>_ t. mach_ok t) opt_ok (steps (map main_option ps) s)"
proof (induction ps arbitrary: s)
  case (Cons p ps)
  have "outcome (\<lambda>_ t. mach_ok t) opt_ok (andthen (main_option p s) (\<lambda>_. steps (map main_option ps)))"
    by (rule outcome_andthen [OF main_option_ok [OF Cons.prems]]) (rule Cons.IH)
  then show ?case by simp
qed simp

text \<open>Only -V ends the program while the options are read and with status 0.\<close>

lemma addsym_no_exit: "addsym i d a s \<noteq> Stop (Exit n) t"
  by (auto simp: addsym_def Let_def split: prod.splits option.splits)

lemma main_option_exit: "main_option p s = Stop (Exit n) t \<Longrightarrow> fst p = CHR ''V'' \<and> t = s"
  using addsym_no_exit by (cases p) (auto simp: main_option_def split: if_splits)

definition version_asked :: "(char \<times> string) list \<Rightarrow> string \<Rightarrow> ustate \<Rightarrow> bool" where
  "version_asked opts inp t \<longleftrightarrow>
     (\<exists>ps a qs. opts = ps @ (CHR ''V'', a) # qs \<and> steps (map main_option ps) (initial inp) = Ok () t)"

lemma main_options_exit:
  "steps (map main_option opts) s = Stop (Exit n) t \<Longrightarrow>
   \<exists>ps a qs. opts = ps @ (CHR ''V'', a) # qs \<and> steps (map main_option ps) s = Ok () t"
proof (induction opts arbitrary: s)
  case (Cons p opts)
  show ?case
  proof (cases "main_option p s")
    case (Stop x u)
    then have "fst p = CHR ''V''" "t = s" using Cons.prems main_option_exit [of p s n t] by auto
    then show ?thesis by (intro exI [of _ "[]"] exI [of _ "snd p"] exI [of _ opts]) (cases p, simp)
  next
    case (Ok a u)
    then have "steps (map main_option opts) u = Stop (Exit n) t" using Cons.prems by simp
    then obtain ps b qs where "opts = ps @ (CHR ''V'', b) # qs" "steps (map main_option ps) u = Ok () t"
      using Cons.IH by blast
    then show ?thesis using Ok by (intro exI [of _ "p # ps"] exI [of _ b] exI [of _ qs]) simp
  qed
qed simp

lemma initial_ok: "mach_ok (initial inp)"
  by (simp add: initial_def mach_ok_def stack_ok_def uoptions.defs ustate.defs MAXDEPTH_def)

text \<open>
  C13. For every list of options and every input, whatever its #if nesting, comments, expressions
  and line lengths, unifdef ends: with usage, with an option error, with a diagnostic of
  error(), with status 0 when the options before a -V are accepted, which then ends the program before it
  reads anything, or, in every other case, with the exit status it has accumulated after it has read the whole
  input outside every #if group and comment. It never reaches one of its abort() calls.
\<close>

theorem unifdef_ends:
  "\<exists>x t. unifdef_main opts argc inp bad = (x, t) \<and> x \<noteq> Abort
    \<and> (x = Usage \<or> (\<exists>m. x = Errx m) \<or> (\<exists>m. x = Fatal m) \<or> x = Exit 0 \<and> version_asked opts inp t
       \<or> x = Exit (exitstat t) \<and> input t = [] \<and> depth t = 0 \<and> incomment t = NO_COMMENT)"
proof (cases "steps (map main_option opts) (initial inp)")
  case (Stop x s)
  then have "opt_ok x s" using main_options_ok [OF initial_ok, of opts inp] by simp
  moreover have "x = Exit 0 \<Longrightarrow> version_asked opts inp s"
    using Stop main_options_exit [of opts "initial inp" 0 s] by (auto simp: version_asked_def)
  ultimately show ?thesis using Stop by (auto simp: unifdef_main_def opt_ok_def)
next
  case (Ok u s)
  then have ok: "mach_ok s" using main_options_ok [OF initial_ok, of opts inp] by simp
  define s' where "s' = s\<lparr>input_bad := bad, blankcount := 1000, blankmax := 1000\<rparr>"
  obtain x t where p: "process_loop s' = (x, t)" by (metis surj_pair)
  have "mach_ok s'" using ok by (simp add: s'_def mach_ok_def stack_ok_def)
  from process_loop_ends [OF this p] show ?thesis
    using Ok p by (auto simp: unifdef_main_def process_def s'_def)
qed

subsection \<open>The states of a run\<close>

text \<open>The states process() passes through between lines, from the state the options leave.\<close>

inductive reaches :: "ustate \<Rightarrow> ustate \<Rightarrow> bool" for s0 where
  start: "reaches s0 (s0\<lparr>blankcount := 1000, blankmax := 1000\<rparr>)"
| line: "reaches s0 s \<Longrightarrow> parseline s = Ok lineval u \<Longrightarrow> transition lineval u = Ok a t \<Longrightarrow> reaches s0 t"

lemma line_ok:
  assumes "mach_ok s" "parseline s = Ok lineval u" "transition lineval u = Ok a t"
  shows "mach_ok t"
proof -
  have p: "line_parsed s lineval u" using parseline_read [of s] assms(2) by simp
  moreover have "lineval \<noteq> LT_EOF" using assms(3) transition_EOF [of u] by auto
  ultimately show ?thesis
    using transition_safe [of u lineval] line_parsed_ok [OF assms(1) p] assms(3) by (simp add: line_parsed_def)
qed

lemma reaches_ok: "reaches s0 s \<Longrightarrow> mach_ok s0 \<Longrightarrow> mach_ok s"
proof (induction rule: reaches.induct)
  case start
  then show ?case by (simp add: mach_ok_def stack_ok_def)
qed (blast intro: line_ok)

text \<open>
  C26. Whatever the options and the input, every state between two lines keeps the #if stack well
  formed: the depth stays inside the arrays ifstate, ignoring and stifline, the bottom of the
  stack is IS_OUTSIDE, and every level above it, the current one included, is inside a group.
\<close>

theorem unifdef_stack_invariant:
  assumes "steps (map main_option opts) (initial inp) = Ok () s0" and "reaches s0 s"
  shows "depth s < MAXDEPTH \<and> length (ifstate s) = MAXDEPTH \<and> length (ignoring s) = MAXDEPTH
    \<and> length (stifline s) = MAXDEPTH \<and> ifstate s ! 0 = IS_OUTSIDE
    \<and> (\<forall>d. 0 < d \<and> d \<le> depth s \<longrightarrow> ifstate s ! d \<noteq> IS_OUTSIDE)"
proof -
  have "mach_ok s0" using main_options_ok [OF initial_ok, of opts inp] assms(1) by simp
  then have ok: "mach_ok s" by (rule reaches_ok [OF assms(2)])
  then have "ifstate s ! d \<noteq> IS_OUTSIDE" if "0 < d" "d \<le> depth s" for d
    using that by (cases "d = depth s") (simp_all add: mach_ok_def stack_ok_def)
  then show ?thesis using ok by (simp add: mach_ok_def stack_ok_def)
qed

definition ex_opts :: "(char \<times> string) list" where "ex_opts = [(CHR ''D'', ''A'')]"
definition ex_inp :: string where "ex_inp = ''#ifdef B'' @ [NL]"
definition ex_start :: ustate where "ex_start = (case steps (map main_option ex_opts) (initial ex_inp) of Ok _ s \<Rightarrow> s)"
definition ex_next :: "ustate res" where
  "ex_next = andthen (parseline (ex_start\<lparr>blankcount := 1000, blankmax := 1000\<rparr>)) (\<lambda>lt u. andthen (transition lt u) (\<lambda>_ t. Ok t t))"

theorem unifdef_stack_invariant_witness:
  "\<exists>s0 s. steps (map main_option ex_opts) (initial ex_inp) = Ok () s0 \<and> reaches s0 s \<and> depth s = 1
    \<and> depth s < MAXDEPTH \<and> ifstate s ! 0 = IS_OUTSIDE \<and> ifstate s ! 1 \<noteq> IS_OUTSIDE"
proof -
  have "case steps (map main_option ex_opts) (initial ex_inp) of Ok _ _ \<Rightarrow> True | _ \<Rightarrow> False" by code_simp
  then have "steps (map main_option ex_opts) (initial ex_inp) = Ok () ex_start"
    by (auto simp: ex_start_def split: res.splits)
  moreover have "case ex_next of Ok t _ \<Rightarrow> depth t = 1 | _ \<Rightarrow> False" by code_simp
  then obtain lt u a t where "parseline (ex_start\<lparr>blankcount := 1000, blankmax := 1000\<rparr>) = Ok lt u"
    "transition lt u = Ok a t" "depth t = 1"
    by (auto simp: ex_next_def split: res.splits)
  moreover from this have "reaches ex_start t" by (blast intro: reaches.intros)
  ultimately show ?thesis using unifdef_stack_invariant [of ex_opts ex_inp ex_start t] by auto
qed

text \<open>
  C27. parseline is total and well typed: on every state it either stops with a diagnostic of
  error(), or classifies the line with one of the line types process() dispatches on, never
  LT_ERROR, inside the row of trans_table for the current state; it then has consumed input and
  fixed the newline convention, unless it is at the end of the input, and it leaves the #if
  stack, the output and the exit status as they were.
\<close>

theorem parseline_typed:
  "case parseline s of
     Ok lineval t \<Rightarrow> lineval \<noteq> LT_ERROR \<and> linetype_index lineval < length (trans_table (ifstate t ! depth t))
       \<and> (if lineval = LT_EOF then input t = [] else length (input t) < length (input s) \<and> newline t \<noteq> None)
       \<and> ifstate t = ifstate s \<and> ignoring t = ignoring s \<and> stifline t = stifline s \<and> depth t = depth s
       \<and> out t = out s \<and> exitstat t = exitstat s
   | Stop x t \<Rightarrow> \<exists>m. x = Fatal m"
proof (cases "parseline s")
  case (Ok lt t)
  then have "line_parsed s lt t" using parseline_read [of s] by simp
  then show ?thesis using Ok linetype_index_less [of lt "ifstate t ! depth t"] by (simp add: line_parsed_def)
next
  case (Stop x t)
  then show ?thesis using parseline_read [of s] by (simp add: fatal_def)
qed

end
