(* ===== verification/Unifdef_Pp.thy ===== *)
theory Unifdef_Pp
  imports Unifdef_Machine
begin

text \<open>
  What the state machine of unifdef is for: the lines it writes mean to a preprocessor what the
  lines it read mean. A directive line is its text before the keyword, the keyword, the rest,
  and the truth of its condition under some choice for the unknown symbols; the meaning of a
  sequence of lines is the sequence of plain lines a preprocessor keeps. The machine may drop,
  keep or edit lines; the kept lines are the same.
\<close>

subsection \<open>Lines and what a preprocessor makes of them\<close>

datatype aline = Plain string | Dirline (pre: string) (kw: string) (rest: string) (dir: Directive) (cond: bool)

fun atext :: "aline \<Rightarrow> string" where
  "atext (Plain x) = x"
| "atext (Dirline p k r d c) = p @ k @ r"

fun atype :: "aline \<Rightarrow> Linetype" where
  "atype (Plain x) = LT_PLAIN"
| "atype (Dirline p k r d c) = LT d"

text \<open>The machine's type of a line agrees with its keyword and with the truth of its condition.\<close>

definition if_dirs :: "Directive list" where "if_dirs = [LT_TRUEI, LT_FALSEI, LT_IF, LT_TRUE, LT_FALSE]"
definition elif_dirs :: "Directive list" where "elif_dirs = [LT_ELIF, LT_ELTRUE, LT_ELFALSE]"

fun agrees :: "aline \<Rightarrow> bool" where
  "agrees (Plain x) = True"
| "agrees (Dirline p k r d c) =
     (length p < MAXLINE \<and>
      (d \<in> set if_dirs \<and> k \<in> {''if'', ''ifdef'', ''ifndef''}
       \<or> d \<in> set elif_dirs \<and> k = ''elif'' \<or> d = LT_ELSE \<and> k = ''else'' \<or> d = LT_ENDIF \<and> k = ''endif'')
      \<and> (d \<in> {LT_TRUEI, LT_TRUE, LT_ELTRUE} \<longrightarrow> c) \<and> (d \<in> {LT_FALSEI, LT_FALSE, LT_ELFALSE} \<longrightarrow> \<not> c))"

text \<open>The preprocessor keeps, for each open group, whether a branch was taken and whether the
  current branch is the one taken.\<close>

type_synonym levels = "(bool \<times> bool) list"

definition active :: "levels \<Rightarrow> bool" where "active ls \<longleftrightarrow> (\<forall>l \<in> set ls. snd l)"

fun cpp_step :: "aline \<Rightarrow> levels \<Rightarrow> (string list \<times> levels) option" where
  "cpp_step (Plain x) ls = Some (if active ls then [x] else [], ls)"
| "cpp_step (Dirline p k r d c) ls =
     (if k \<in> {''if'', ''ifdef'', ''ifndef''} then Some ([], (c, c) # ls)
      else case ls of [] \<Rightarrow> None
      | (t, b) # ls' \<Rightarrow>
          if k = ''elif'' then Some ([], (t \<or> c, \<not> t \<and> c) # ls')
          else if k = ''else'' then Some ([], (True, \<not> t) # ls')
          else if k = ''endif'' then Some ([], ls') else None)"

fun cpp_run :: "aline list \<Rightarrow> levels \<Rightarrow> (string list \<times> levels) option" where
  "cpp_run [] ls = Some ([], ls)"
| "cpp_run (a # as) ls =
     (case cpp_step a ls of None \<Rightarrow> None
      | Some (e, ls') \<Rightarrow> (case cpp_run as ls' of None \<Rightarrow> None | Some (e', ls'') \<Rightarrow> Some (e @ e', ls'')))"

lemma cpp_run_append:
  "cpp_run as ls = Some (e, ls') \<Longrightarrow> cpp_run bs ls' = Some (e', ls'') \<Longrightarrow> cpp_run (as @ bs) ls = Some (e @ e', ls'')"
proof (induction as arbitrary: ls e)
  case (Cons a as)
  then show ?case by (fastforce split: option.splits)
qed simp

subsection \<open>The machine on such lines\<close>

definition load :: "aline \<Rightarrow> ustate \<Rightarrow> ustate" where
  "load a s = s\<lparr>tline := atext a, keyword := (case a of Plain x \<Rightarrow> keyword s | Dirline p k r d c \<Rightarrow> length p)\<rparr>"

fun run_lines :: "aline list \<Rightarrow> step" where
  "run_lines [] s = Ok () s"
| "run_lines (a # as) s = andthen (transition (atype a) (load a s)) (\<lambda>_. run_lines as)"

definition ustack :: "ustate \<Rightarrow> Ifstate list" where
  "ustack s = rev (map (\<lambda>d. ifstate s ! d) [1..<Suc (depth s)])"

definition top :: "Ifstate list \<Rightarrow> Ifstate" where "top us = (case us of [] \<Rightarrow> IS_OUTSIDE | u # _ \<Rightarrow> u)"

definition plain_opts :: "ustate \<Rightarrow> bool" where
  "plain_opts s \<longleftrightarrow> \<not> symlist s \<and> \<not> complement s \<and> \<not> compblank s \<and> \<not> lnblank s \<and> \<not> lnnum s"

text \<open>The part of the state that matters here: output, stack, line, place of the keyword, newline.\<close>

definition at :: "string \<Rightarrow> Ifstate list \<Rightarrow> string \<Rightarrow> nat \<Rightarrow> string \<Rightarrow> ustate \<Rightarrow> bool" where
  "at w us l k n s \<longleftrightarrow> out s = w \<and> ustack s = us \<and> tline s = l \<and> keyword s = k \<and> newline s = Some n \<and> plain_opts s
     \<and> depth s < MAXDEPTH \<and> length (ifstate s) = MAXDEPTH \<and> ifstate s ! 0 = IS_OUTSIDE"

lemma ustack_Cons: "0 < depth s \<Longrightarrow> ustack s = (ifstate s ! depth s) # ustack (s\<lparr>depth := depth s - 1\<rparr>)"
  unfolding ustack_def by (cases "depth s") simp_all

lemma ustack_Nil: "ustack s = [] \<longleftrightarrow> depth s = 0"
  by (auto simp: ustack_def)

lemma ustack_depth: "length (ustack s) = depth s"
  by (simp add: ustack_def)

lemma ustack_cong:
  "depth t = depth s \<Longrightarrow> (\<And>d. 0 < d \<Longrightarrow> d \<le> depth s \<Longrightarrow> ifstate t ! d = ifstate s ! d) \<Longrightarrow> ustack t = ustack s"
  unfolding ustack_def by (auto intro!: map_cong)

named_theorems effects \<open>effects of the transition functions on output and stack\<close>

lemma flushline_plain:
  "plain_opts s \<Longrightarrow> flushline k s = Ok () t \<Longrightarrow>
    out t = out s @ (if k then tline s else []) \<and> ifstate t = ifstate s \<and> depth t = depth s \<and> tline t = tline s
    \<and> keyword t = keyword s \<and> newline t = newline s \<and> plain_opts t"
  by (auto simp: flushline_def plain_opts_def Let_def split: if_splits)

lemma at_flushline:
  assumes "at w us l k n s" "flushline b s = Ok () t"
  shows "at (w @ (if b then l else [])) us l k n t"
proof -
  have p: "plain_opts s" using assms(1) by (simp add: at_def)
  note f = flushline_plain [OF p assms(2)]
  then have "ustack t = ustack s" by (simp add: ustack_def)
  then show ?thesis using assms(1) f by (auto simp: at_def)
qed

lemma print_effect [effects]: "triple (at w us l k n) print (at (w @ l) us l k n)"
  unfolding triple_def using at_flushline [where b = True] flushline_Ok [of True]
  by (fastforce simp: print_def)

lemma drop_effect [effects]: "triple (at w us l k n) drop_line (at w us l k n)"
  unfolding triple_def using at_flushline [where b = False] flushline_Ok [of False]
  by (fastforce simp: drop_line_def)

lemma at_upd: "at w us l k n (s\<lparr>ignoring := x\<rparr>) = at w us l k n s"
  by (simp add: at_def ustack_def plain_opts_def)

lemma ignoreoff_effect [effects]: "triple (at w (u # us) l k n) ignoreoff (at w (u # us) l k n)"
  unfolding triple_def ignoreoff_def
proof (intro allI impI)
  fix s assume a: "at w (u # us) l k n s"
  then have "depth s \<noteq> 0" using ustack_Nil [of s] by (auto simp: at_def)
  then show "outcome (\<lambda>_. at w (u # us) l k n) safe (if depth s = 0 then abort s
     else Ok () (s\<lparr>ignoring := (ignoring s)[depth s := ignoring s ! (depth s - 1)]\<rparr>))"
    using a by (simp add: at_upd)
qed

lemma ignoreon_effect [effects]: "triple (at w us l k n) ignoreon (at w us l k n)"
  by (simp add: triple_def ignoreon_def at_upd)

lemma state_effect [effects]: "triple (at w (u # us) l k n) (state is) (at w (is # us) l k n)"
  unfolding triple_def state_def
proof (intro allI impI, simp)
  fix s assume a: "at w (u # us) l k n s"
  let ?t = "s\<lparr>ifstate := (ifstate s)[depth s := is]\<rparr>"
  have d: "0 < depth s" "depth s < length (ifstate s)" using a ustack_Nil [of s] by (auto simp: at_def)
  have "ustack (?t\<lparr>depth := depth s - 1\<rparr>) = ustack (s\<lparr>depth := depth s - 1\<rparr>)"
    by (rule ustack_cong) (use d in auto)
  moreover have "us = ustack (s\<lparr>depth := depth s - 1\<rparr>)" using a ustack_Cons [OF d(1)] by (simp add: at_def)
  ultimately have "ustack ?t = is # us" using ustack_Cons [of ?t] d by simp
  then show "at w (is # us) l k n ?t" using a d by (auto simp: at_def plain_opts_def)
qed

lemma unnest_effect [effects]: "triple (at w (u # us) l k n) unnest (at w us l k n)"
  unfolding triple_def unnest_def
proof (intro allI impI)
  fix s assume a: "at w (u # us) l k n s"
  then have d: "0 < depth s" using ustack_Nil [of s] by (auto simp: at_def)
  then have "us = ustack (s\<lparr>depth := depth s - 1\<rparr>)" using a ustack_Cons [OF d] by (simp add: at_def)
  then show "outcome (\<lambda>_. at w us l k n) safe (if depth s = 0 then abort s else Ok () (s\<lparr>depth := depth s - 1\<rparr>))"
    using a d by (auto simp: at_def plain_opts_def)
qed

text \<open>nest opens a level whose state is not yet set.\<close>

definition at_new :: "string \<Rightarrow> Ifstate list \<Rightarrow> string \<Rightarrow> nat \<Rightarrow> string \<Rightarrow> ustate \<Rightarrow> bool" where
  "at_new w us l k n s \<longleftrightarrow> (\<exists>u. at w (u # us) l k n s)"

lemma nest_effect [effects]: "triple (at w us l k n) nest (at_new w us l k n)"
  unfolding triple_def
proof (intro allI impI)
  fix s assume a: "at w us l k n s"
  show "outcome (\<lambda>_. at_new w us l k n) safe (nest s)"
  proof (cases "depth s = MAXDEPTH - 1")
    case True
    then show ?thesis by (simp add: nest_def error_def safe_def MAXDEPTH_def)
  next
    case False
    let ?t = "s\<lparr>depth := depth s + 1, stifline := (stifline s)[depth s + 1 := linenum s]\<rparr>"
    have d: "depth s + 1 < MAXDEPTH" using a False by (auto simp: at_def MAXDEPTH_def)
    have "ustack ?t = (ifstate s ! (depth s + 1)) # ustack (?t\<lparr>depth := depth s\<rparr>)"
      using ustack_Cons [of ?t] by simp
    moreover have "ustack (?t\<lparr>depth := depth s\<rparr>) = us" using a by (simp add: at_def ustack_def)
    ultimately have "at w (ifstate s ! (depth s + 1) # us) l k n ?t"
      using a d by (simp add: at_def plain_opts_def)
    then show ?thesis using d by (auto simp: nest_def at_new_def)
  qed
qed

lemma triple_new: "(\<And>u. triple (at w (u # us) l k n) f Q) \<Longrightarrow> triple (at_new w us l k n) f Q"
  unfolding triple_def at_new_def by blast

lemma inner_effects [effects]:
  "triple (at w (u # us) l k n) Strue (at w (IS_TRUE_PREFIX # us) l k n)"
  "triple (at w (u # us) l k n) Sfalse (at w (IS_FALSE_PREFIX # us) l k n)"
  "triple (at w (u # us) l k n) Selse (at w (IS_TRUE_ELSE # us) l k n)"
  "triple (at w (u # us) l k n) Pelif (at (w @ l) (IS_PASS_MIDDLE # us) l k n)"
  "triple (at w (u # us) l k n) Pelse (at (w @ l) (IS_PASS_ELSE # us) l k n)"
  "triple (at w (u # us) l k n) Pendif (at (w @ l) us l k n)"
  "triple (at w (u # us) l k n) Dfalse (at w (IS_FALSE_TRAILER # us) l k n)"
  "triple (at w (u # us) l k n) Delif (at w (IS_FALSE_MIDDLE # us) l k n)"
  "triple (at w (u # us) l k n) Delse (at w (IS_FALSE_ELSE # us) l k n)"
  "triple (at w (u # us) l k n) Dendif (at w us l k n)"
  unfolding transition_defs by (blast intro: triple_Cons triple_Nil effects)+

lemma first_effects [effects]:
  "triple (at w us l k n) Fdrop (at w (IS_FALSE_TRAILER # us) l k n)"
  "triple (at w us l k n) Fpass (at (w @ l) (IS_PASS_MIDDLE # us) l k n)"
  "triple (at w us l k n) Ftrue (at w (IS_TRUE_PREFIX # us) l k n)"
  "triple (at w us l k n) Ffalse (at w (IS_FALSE_PREFIX # us) l k n)"
  unfolding Fdrop_def Fpass_def Ftrue_def Ffalse_def
  by (blast intro: triple_Cons triple_Nil triple_new effects)+

lemma ignore_effects [effects]:
  "triple (at w us l k n) Idrop (at w (IS_FALSE_TRAILER # us) l k n)"
  "triple (at w us l k n) Itrue (at w (IS_TRUE_PREFIX # us) l k n)"
  "triple (at w us l k n) Ifalse (at w (IS_FALSE_PREFIX # us) l k n)"
  unfolding Idrop_def Itrue_def Ifalse_def by (blast intro: triple_Cons triple_Nil effects)+

lemma edit_if_effect [effects]:
  "triple (at w us l k n) edit_if (at w us (take k l @ ''if  '' @ drop (k + 4) l) k n)"
  by (auto simp: triple_def edit_if_def at_def ustack_def plain_opts_def)

lemma keywordedit_effect:
  assumes "length r + length n < MAXLINE + EDITSLOP - k"
  shows "triple (at w us l k n) (keywordedit r) (at (w @ take k l @ r @ n) us (take k l @ r @ n) k n)"
proof -
  have "outcome (\<lambda>_. at (w @ take k l @ r @ n) us (take k l @ r @ n) k n) safe (keywordedit r s)"
    if a: "at w us l k n s" for s
  proof -
    have "newline_str s = n" "keyword s = k" "tline s = l" using a by (auto simp: at_def newline_str_def)
    then have "keywordedit r s = print (s\<lparr>tline := take k l @ r @ n\<rparr>)"
      using assms by (simp add: keywordedit_def Let_def)
    moreover have "at w us (take k l @ r @ n) k n (s\<lparr>tline := take k l @ r @ n\<rparr>)"
      using a by (simp add: at_def ustack_def plain_opts_def)
    ultimately show ?thesis using print_effect [of w us "take k l @ r @ n" k n] by (simp add: triple_def)
  qed
  then show ?thesis by (simp add: triple_def)
qed

lemma edit_effects:
  "triple (at w (u # us) l k n) Mpass
     (at (w @ take k l @ ''if  '' @ drop (k + 4) l) (IS_PASS_MIDDLE # us) (take k l @ ''if  '' @ drop (k + 4) l) k n)"
  "k < MAXLINE \<Longrightarrow> length n \<le> 2 \<Longrightarrow> triple (at w (u # us) l k n) Mtrue
     (at (w @ take k l @ ''else'' @ n) (IS_TRUE_MIDDLE # us) (take k l @ ''else'' @ n) k n)"
  "k < MAXLINE \<Longrightarrow> length n \<le> 2 \<Longrightarrow> triple (at w (u # us) l k n) Melif
     (at (w @ take k l @ ''endif'' @ n) (IS_FALSE_TRAILER # us) (take k l @ ''endif'' @ n) k n)"
  "k < MAXLINE \<Longrightarrow> length n \<le> 2 \<Longrightarrow> triple (at w (u # us) l k n) Melse
     (at (w @ take k l @ ''endif'' @ n) (IS_FALSE_ELSE # us) (take k l @ ''endif'' @ n) k n)"
proof -
  show "triple (at w (u # us) l k n) Mpass
     (at (w @ take k l @ ''if  '' @ drop (k + 4) l) (IS_PASS_MIDDLE # us) (take k l @ ''if  '' @ drop (k + 4) l) k n)"
    unfolding Mpass_def by (rule triple_Cons [OF edit_if_effect triple_last [OF inner_effects(4)]])
  assume "k < MAXLINE" "length n \<le> 2"
  then have "length ''else'' + length n < MAXLINE + EDITSLOP - k" "length ''endif'' + length n < MAXLINE + EDITSLOP - k"
    by (simp_all add: MAXLINE_def EDITSLOP_def)
  from this [THEN keywordedit_effect] show
    "triple (at w (u # us) l k n) Mtrue
       (at (w @ take k l @ ''else'' @ n) (IS_TRUE_MIDDLE # us) (take k l @ ''else'' @ n) k n)"
    "triple (at w (u # us) l k n) Melif
       (at (w @ take k l @ ''endif'' @ n) (IS_FALSE_TRAILER # us) (take k l @ ''endif'' @ n) k n)"
    "triple (at w (u # us) l k n) Melse
       (at (w @ take k l @ ''endif'' @ n) (IS_FALSE_ELSE # us) (take k l @ ''endif'' @ n) k n)"
    unfolding Mtrue_def Melif_def Melse_def by (blast intro: triple_Cons triple_last state_effect)+
qed

subsection \<open>The machine as a function on lines\<close>

definition printing :: "Ifstate \<Rightarrow> bool" where
  "printing u \<longleftrightarrow> u \<in> {IS_OUTSIDE, IS_TRUE_PREFIX, IS_PASS_MIDDLE, IS_TRUE_MIDDLE, IS_PASS_ELSE, IS_TRUE_ELSE}"

definition else_state :: "Ifstate \<Rightarrow> bool" where
  "else_state u \<longleftrightarrow> u \<in> {IS_PASS_ELSE, IS_FALSE_ELSE, IS_TRUE_ELSE}"

fun react_if :: "Directive \<Rightarrow> aline \<Rightarrow> aline list \<times> Ifstate" where
  "react_if LT_TRUE a = ([], IS_TRUE_PREFIX)"
| "react_if LT_TRUEI a = ([], IS_TRUE_PREFIX)"
| "react_if LT_FALSE a = ([], IS_FALSE_PREFIX)"
| "react_if LT_FALSEI a = ([], IS_FALSE_PREFIX)"
| "react_if _ a = ([a], IS_PASS_MIDDLE)"

text \<open>The line after an #elif or #else in a group that is in state \<open>u\<close>: what is written and the new
  state.\<close>

fun react_mid :: "string \<Rightarrow> Ifstate \<Rightarrow> aline \<Rightarrow> aline list \<times> Ifstate" where
  "react_mid n IS_FALSE_PREFIX (Dirline p k r d c) =
     (if d = LT_ELIF then ([Dirline p ''if'' (CHR '' '' # CHR '' '' # r) LT_IF c], IS_PASS_MIDDLE)
      else if d = LT_ELTRUE then ([], IS_TRUE_PREFIX) else if d = LT_ELFALSE then ([], IS_FALSE_PREFIX)
      else ([], IS_TRUE_ELSE))"
| "react_mid n IS_TRUE_PREFIX (Dirline p k r d c) = ([], if d = LT_ELSE then IS_FALSE_ELSE else IS_FALSE_TRAILER)"
| "react_mid n IS_FALSE_TRAILER (Dirline p k r d c) = ([], if d = LT_ELSE then IS_FALSE_ELSE else IS_FALSE_TRAILER)"
| "react_mid n IS_TRUE_MIDDLE (Dirline p k r d c) =
     ([Dirline p ''endif'' n LT_ENDIF True], if d = LT_ELSE then IS_FALSE_ELSE else IS_FALSE_TRAILER)"
| "react_mid n _ (Dirline p k r d c) =
     (if d = LT_ELIF then ([Dirline p k r d c], IS_PASS_MIDDLE)
      else if d = LT_ELTRUE then ([Dirline p ''else'' n LT_ELSE True], IS_TRUE_MIDDLE)
      else if d = LT_ELFALSE then ([], IS_FALSE_MIDDLE)
      else ([Dirline p k r d c], IS_PASS_ELSE))"
| "react_mid n u (Plain x) = ([], u)"

fun react :: "string \<Rightarrow> Ifstate list \<Rightarrow> aline \<Rightarrow> (aline list \<times> Ifstate list) option" where
  "react n us (Plain x) = Some (if printing (top us) then [Plain x] else [], us)"
| "react n us (Dirline p k r d c) =
     (if d \<in> set if_dirs then
        (if printing (top us) then (case react_if d (Dirline p k r d c) of (o1, u) \<Rightarrow> Some (o1, u # us))
         else Some ([], IS_FALSE_TRAILER # us))
      else case us of [] \<Rightarrow> None
      | u # us' \<Rightarrow>
          if d = LT_ENDIF then
            Some (if u \<in> {IS_PASS_MIDDLE, IS_FALSE_MIDDLE, IS_TRUE_MIDDLE, IS_PASS_ELSE} then [Dirline p k r d c] else [], us')
          else if else_state u then None
          else (case react_mid n u (Dirline p k r d c) of (o1, u') \<Rightarrow> Some (o1, u' # us')))"

definition atl :: "string \<Rightarrow> Ifstate list \<Rightarrow> string \<Rightarrow> ustate \<Rightarrow> bool" where
  "atl w us n s \<longleftrightarrow> (\<exists>l k. at w us l k n s)"

definition reacts :: "string \<Rightarrow> string \<Rightarrow> (aline list \<times> Ifstate list) option \<Rightarrow> ustate \<Rightarrow> bool" where
  "reacts w n r t \<longleftrightarrow> (case r of None \<Rightarrow> False | Some (o1, us') \<Rightarrow> atl (w @ concat (map atext o1)) us' n t)"

lemma reactI: "triple P f (at w' us' l' k' n) \<Longrightarrow> w' = w @ concat (map atext o1) \<Longrightarrow> triple P f (reacts w n (Some (o1, us')))"
  by (erule triple_weaken) (auto simp: reacts_def atl_def)

lemma react_plain:
  "triple (at w us x k n) (trans_table (top us) ! linetype_index LT_PLAIN) (reacts w n (react n us (Plain x)))"
  by (cases "top us") (auto simp: printing_def intro: reactI [OF print_effect] reactI [OF drop_effect])

lemma react_if_dirs:
  assumes "d \<in> set if_dirs"
  shows "triple (at w us (p @ k @ r) (length p) n) (trans_table (top us) ! linetype_index (LT d))
    (reacts w n (react n us (Dirline p k r d c)))"
  using assms
  by (cases "top us")
    (auto simp: if_dirs_def printing_def intro!: reactI first_effects ignore_effects)

lemma react_endif:
  "triple (at w us (p @ k @ r) (length p) n) (trans_table (top us) ! linetype_index (LT LT_ENDIF))
    (reacts w n (react n us (Dirline p k r LT_ENDIF c)))"
proof (cases us)
  case Nil
  then show ?thesis by (simp add: top_def error_triples)
next
  case (Cons u us')
  then show ?thesis
    by (cases u) (auto simp: top_def if_dirs_def intro: error_triples reactI [OF inner_effects(6)]
        reactI [OF inner_effects(10)])
qed

lemma edit_reacts:
  "triple (at w (u # us) (p @ ''elif'' @ r) (length p) n) Mpass
     (reacts w n (Some ([Dirline p ''if'' (''  '' @ r) LT_IF c], IS_PASS_MIDDLE # us)))"
  "length p < MAXLINE \<Longrightarrow> length n \<le> 2 \<Longrightarrow> triple (at w (u # us) (p @ r) (length p) n) Mtrue
     (reacts w n (Some ([Dirline p ''else'' n LT_ELSE True], IS_TRUE_MIDDLE # us)))"
  "length p < MAXLINE \<Longrightarrow> length n \<le> 2 \<Longrightarrow> triple (at w (u # us) (p @ r) (length p) n) Melif
     (reacts w n (Some ([Dirline p ''endif'' n LT_ENDIF True], IS_FALSE_TRAILER # us)))"
  "length p < MAXLINE \<Longrightarrow> length n \<le> 2 \<Longrightarrow> triple (at w (u # us) (p @ r) (length p) n) Melse
     (reacts w n (Some ([Dirline p ''endif'' n LT_ENDIF True], IS_FALSE_ELSE # us)))"
  by (rule reactI [OF edit_effects(1)], simp)
    (rule reactI [OF edit_effects(2)] reactI [OF edit_effects(3)] reactI [OF edit_effects(4)], simp_all)+

lemma inner_reacts:
  "triple (at w (u # us) l k n) Strue (reacts w n (Some ([], IS_TRUE_PREFIX # us)))"
  "triple (at w (u # us) l k n) Sfalse (reacts w n (Some ([], IS_FALSE_PREFIX # us)))"
  "triple (at w (u # us) l k n) Selse (reacts w n (Some ([], IS_TRUE_ELSE # us)))"
  "triple (at w (u # us) l k n) Dfalse (reacts w n (Some ([], IS_FALSE_TRAILER # us)))"
  "triple (at w (u # us) l k n) Delif (reacts w n (Some ([], IS_FALSE_MIDDLE # us)))"
  "triple (at w (u # us) l k n) Delse (reacts w n (Some ([], IS_FALSE_ELSE # us)))"
  "atext a = l \<Longrightarrow> triple (at w (u # us) l k n) Pelif (reacts w n (Some ([a], IS_PASS_MIDDLE # us)))"
  "atext a = l \<Longrightarrow> triple (at w (u # us) l k n) Pelse (reacts w n (Some ([a], IS_PASS_ELSE # us)))"
  by (rule reactI, rule inner_effects, simp)+

lemma react_elif_else:
  assumes "d \<in> set (LT_ELSE # elif_dirs)" "d \<in> set elif_dirs \<Longrightarrow> k = ''elif''" "length p < MAXLINE" "length n \<le> 2"
  shows "triple (at w us (p @ k @ r) (length p) n) (trans_table (top us) ! linetype_index (LT d))
    (reacts w n (react n us (Dirline p k r d c)))"
proof (cases us)
  case Nil
  then show ?thesis using assms(1) by (auto simp: top_def elif_dirs_def error_triples)
next
  case (Cons u us')
  show ?thesis
    using assms Cons
    by (cases u) (auto simp: top_def elif_dirs_def if_dirs_def else_state_def
        intro!: error_triples edit_reacts edit_reacts(1) [simplified] inner_reacts)
qed

lemma transition_reacts:
  assumes "agrees a" "length n \<le> 2" "at w us l k n s" "mach_ok s"
  shows "outcome (\<lambda>_. reacts w n (react n us a)) safe (transition (atype a) (load a s))"
proof -
  have tp: "ifstate s ! depth s = top us"
  proof (cases "depth s = 0")
    case True
    then have "us = []" using assms(3) ustack_Nil [of s] by (simp add: at_def)
    then show ?thesis using True assms(3) by (simp add: at_def top_def)
  next
    case False
    then have "us = ifstate s ! depth s # ustack (s\<lparr>depth := depth s - 1\<rparr>)"
      using assms(3) ustack_Cons [of s] by (simp add: at_def)
    then show ?thesis by (simp add: top_def)
  qed
  have "at w us (atext a) (case a of Plain x \<Rightarrow> k | Dirline p _ _ _ _ \<Rightarrow> length p) n (load a s)"
    using assms(3) by (cases a) (simp_all add: at_def load_def ustack_def plain_opts_def)
  moreover have "triple (at w us (atext a) (case a of Plain x \<Rightarrow> k | Dirline p _ _ _ _ \<Rightarrow> length p) n)
      (trans_table (top us) ! linetype_index (atype a)) (reacts w n (react n us a))"
  proof (cases a)
    case (Plain x)
    then show ?thesis using react_plain by simp
  next
    case (Dirline p kk r d c)
    then consider "d \<in> set if_dirs" | "d = LT_ENDIF" | "d \<in> set (LT_ELSE # elif_dirs)"
      using assms(1) by fastforce
    then show ?thesis
    proof cases
      case 3
      have "d \<in> set elif_dirs \<Longrightarrow> kk = ''elif''" using assms(1) Dirline by (auto simp: elif_dirs_def if_dirs_def)
      then show ?thesis using react_elif_else [OF 3 _ _ assms(2), of kk p w us r c] assms(1) Dirline by simp
    qed (use Dirline react_if_dirs [of d w us p kk r n c] react_endif [of w us p kk r n c] in auto)
  qed
  moreover have "ifstate (load a s) = ifstate s" "depth (load a s) = depth s" by (simp_all add: load_def)
  ultimately show ?thesis unfolding transition_def by (simp add: tp triple_def)
qed

subsection \<open>The simulation\<close>

text \<open>How the levels of a preprocessor on the input and on the output go with the machine's stack:
  a level is missing in the output when its group's directives are dropped.\<close>

fun rel :: "Ifstate list \<Rightarrow> levels \<Rightarrow> levels \<Rightarrow> bool" where
  "rel [] is os \<longleftrightarrow> is = [] \<and> os = []"
| "rel (u # us) [] os \<longleftrightarrow> False"
| "rel (u # us) ((t, b) # is) os \<longleftrightarrow>
     (case u of
        IS_FALSE_PREFIX \<Rightarrow> printing (top us) \<and> \<not> t \<and> \<not> b \<and> rel us is os
      | IS_TRUE_PREFIX \<Rightarrow> printing (top us) \<and> t \<and> b \<and> rel us is os
      | IS_TRUE_ELSE \<Rightarrow> printing (top us) \<and> b \<and> rel us is os
      | IS_PASS_MIDDLE \<Rightarrow> printing (top us) \<and> os \<noteq> [] \<and> hd os = (t, b) \<and> rel us is (tl os)
      | IS_TRUE_MIDDLE \<Rightarrow> printing (top us) \<and> os \<noteq> [] \<and> t \<and> hd os = (t, b) \<and> rel us is (tl os)
      | IS_PASS_ELSE \<Rightarrow> printing (top us) \<and> os \<noteq> [] \<and> hd os = (t, b) \<and> rel us is (tl os)
      | IS_FALSE_MIDDLE \<Rightarrow> printing (top us) \<and> \<not> b \<and> os \<noteq> [] \<and> fst (hd os) = t \<and> rel us is (tl os)
      | IS_FALSE_ELSE \<Rightarrow> (\<not> printing (top us) \<or> \<not> b) \<and> rel us is os
      | IS_FALSE_TRAILER \<Rightarrow> (\<not> printing (top us) \<or> t \<and> \<not> b) \<and> rel us is os
      | IS_OUTSIDE \<Rightarrow> False)"

lemma active_simps: "active []" "active ((t, b) # ls) \<longleftrightarrow> b \<and> active ls"
  by (simp_all add: active_def)

lemma rel_active:
  "rel us is os \<Longrightarrow> (printing (top us) \<longrightarrow> active is = active os) \<and> (\<not> printing (top us) \<longrightarrow> \<not> active is)"
proof (induction us "is" os rule: rel.induct)
  case (1 "is" os)
  then show ?case by (simp add: top_def printing_def)
next
  case (3 u us t b "is" os)
  then show ?case
    by (cases u; cases os) (auto simp: top_def printing_def active_simps)
qed simp

lemma sim_step:
  assumes r: "rel us is os" and a: "agrees a" and re: "react n us a = Some (o1, us')"
  shows "\<exists>e is' os'. cpp_step a is = Some (e, is') \<and> cpp_run o1 os = Some (e, os') \<and> rel us' is' os'"
proof (cases a)
  case (Plain x)
  then show ?thesis using r re rel_active [OF r] by (auto split: if_splits)
next
  case (Dirline p k r1 d c)
  consider "d \<in> set if_dirs" | "d = LT_ENDIF" | "d \<in> set (LT_ELSE # elif_dirs)"
    using a Dirline by fastforce
  then show ?thesis
  proof cases
    case 1
    then have "k \<in> {''if'', ''ifdef'', ''ifndef''}" using a Dirline by (auto simp: if_dirs_def elif_dirs_def)
    then show ?thesis
      using 1 r re a Dirline by (auto simp: if_dirs_def split: if_splits)
  next
    case 2
    then have "k = ''endif''" using a Dirline by (auto simp: if_dirs_def elif_dirs_def)
    then show ?thesis
      using 2 r re Dirline
      by (cases us; cases "is"; cases os) (auto simp: if_dirs_def split: if_splits Ifstate.splits)
  next
    case 3
    then have k: "d = LT_ELSE \<and> k = ''else'' \<or> d \<in> set elif_dirs \<and> k = ''elif''"
      using a Dirline by (auto simp: if_dirs_def elif_dirs_def)
    obtain u us1 where us: "us = u # us1" using 3 re Dirline by (cases us) (auto simp: if_dirs_def elif_dirs_def)
    obtain t b is1 where i: "is = (t, b) # is1" using r us by (cases "is") auto
    show ?thesis
      using k r re a Dirline us i
      by (cases u; cases os)
        (auto simp: if_dirs_def elif_dirs_def else_state_def split: if_splits)
  qed
qed

text \<open>What may become of a line: it is dropped or kept, an #elif may be edited to #if, #else or #endif,
  an #else to #endif.\<close>

fun choices :: "string \<Rightarrow> aline \<Rightarrow> aline list list" where
  "choices n (Plain x) = [[], [Plain x]]"
| "choices n (Dirline p k r d c) =
     [[], [Dirline p k r d c]] @
     (if k = ''elif'' then
        [[Dirline p ''if'' (''  '' @ r) LT_IF c], [Dirline p ''else'' n LT_ELSE True], [Dirline p ''endif'' n LT_ENDIF True]]
      else if k = ''else'' then [[Dirline p ''endif'' n LT_ENDIF True]] else [])"

lemma react_choices:
  assumes "agrees a" "react n us a = Some (o1, us')"
  shows "o1 \<in> set (choices n a)"
proof (cases a)
  case (Plain x)
  then show ?thesis using assms by auto
next
  case (Dirline p k r d c)
  have if1: "o1 = [] \<or> o1 = [a]" if "react_if d a = (o1, u)" for o1 u using that by (cases d) auto
  have mid: "o1 \<in> set (choices n a)" if "react_mid n u a = (o1, u')" "d \<in> set (LT_ELSE # elif_dirs)" for o1 u u'
    using that assms(1) Dirline by (cases u) (auto simp: elif_dirs_def if_dirs_def split: if_splits)
  consider "d \<in> set if_dirs" | "d = LT_ENDIF" "d \<notin> set if_dirs"
    | "d \<in> set (LT_ELSE # elif_dirs)" "d \<notin> set if_dirs" "d \<noteq> LT_ENDIF"
    using assms(1) Dirline by auto
  then show ?thesis
  proof cases
    case 1
    then have "o1 = [] \<or> o1 = [a]"
      using assms(2) if1 Dirline by (cases "react_if d a") (auto split: if_splits)
    then show ?thesis using Dirline by auto
  next
    case 2
    then show ?thesis using assms(2) Dirline by (auto split: if_splits list.splits)
  next
    case 3
    then obtain u u' where "react_mid n u a = (o1, u')"
      using assms(2) Dirline by (auto split: if_splits list.splits prod.splits)
    then show ?thesis using mid 3(1) by blast
  qed
qed

lemma run_lines_sim:
  assumes "list_all agrees as" "length n \<le> 2" "at w us l k n s" "mach_ok s" "rel us is os" "run_lines as s = Ok () t"
  shows "\<exists>bss e is' os'. out t = w @ concat (map atext (concat bss)) \<and> rel (ustack t) is' os'
    \<and> list_all2 (\<lambda>a b. b \<in> set (choices n a)) as bss
    \<and> cpp_run as is = Some (e, is') \<and> cpp_run (concat bss) os = Some (e, os')"
  using assms
proof (induction as arbitrary: w us l k s "is" os)
  case Nil
  then show ?case by (intro exI [of _ "[]"] exI [of _ "is"] exI [of _ os]) (auto simp: at_def)
next
  case (Cons a as)
  obtain u where u: "transition (atype a) (load a s) = Ok () u" "run_lines as u = Ok () t"
    using Cons.prems(6) by auto
  have "reacts w n (react n us a) u"
    using transition_reacts [OF _ Cons.prems(2,3,4), of a] Cons.prems(1) u(1) by simp
  then obtain o1 us1 l1 k1 where r: "react n us a = Some (o1, us1)" "at (w @ concat (map atext o1)) us1 l1 k1 n u"
    by (auto simp: reacts_def atl_def split: option.splits)
  obtain e is1 os1 where st: "cpp_step a is = Some (e, is1)" "cpp_run o1 os = Some (e, os1)" "rel us1 is1 os1"
    using sim_step [OF Cons.prems(5) _ r(1)] Cons.prems(1) by auto
  have "mach_ok (load a s)" using Cons.prems(4) by (simp add: load_def mach_ok_def stack_ok_def)
  then have m: "mach_ok u"
    using transition_safe [of "load a s" "atype a"] u(1) by (cases a) simp_all
  have "o1 \<in> set (choices n a)" using react_choices [OF _ r(1)] Cons.prems(1) by simp
  moreover obtain bss e' is' os' where "out t = (w @ concat (map atext o1)) @ concat (map atext (concat bss))"
    "rel (ustack t) is' os'" "list_all2 (\<lambda>a b. b \<in> set (choices n a)) as bss"
    "cpp_run as is1 = Some (e', is')" "cpp_run (concat bss) os1 = Some (e', os')"
    using Cons.IH [OF _ Cons.prems(2) r(2) m st(3) u(2)] Cons.prems(1) by auto
  ultimately show ?case
    using st cpp_run_append [OF st(2)]
    by (intro exI [of _ "o1 # bss"] exI [of _ "e @ e'"] exI [of _ is'] exI [of _ os']) auto
qed

text \<open>
  C3. unifdef preserves the meaning of the program, under the default options (no -B, -b, -c, -l, -n, -s). Take any
  sequence of plain lines and #if, #ifdef, #ifndef, #elif, #else, #endif lines (each on one line), a choice for the conditions
  unifdef cannot decide, and line types that agree with it. If the state machine accepts the
  lines from outside every group and ends outside every group, then what it has written is the
  input with every line kept, dropped, or (an #elif or #else) edited, and a preprocessor
  selects from it exactly the plain lines it selects from the input; all groups are closed.
\<close>

theorem unifdef_preserves_meaning:
  assumes "list_all agrees as" and "plain_opts s" and "mach_ok s" and "depth s = 0"
    and "newline s = Some n" and "length n \<le> 2" and "run_lines as s = Ok () t" and "depth t = 0"
  shows "\<exists>bss e. out t = out s @ concat (map atext (concat bss))
    \<and> list_all2 (\<lambda>a b. b \<in> set (choices n a)) as bss
    \<and> cpp_run as [] = Some (e, []) \<and> cpp_run (concat bss) [] = Some (e, [])"
proof -
  have "at (out s) [] (tline s) (keyword s) n s"
    using assms ustack_Nil [of s] by (simp add: at_def mach_ok_def stack_ok_def)
  moreover have "rel [] [] []" by simp
  ultimately obtain bss e is' os' where r: "out t = out s @ concat (map atext (concat bss))" "rel (ustack t) is' os'"
    "list_all2 (\<lambda>a b. b \<in> set (choices n a)) as bss"
    "cpp_run as [] = Some (e, is')" "cpp_run (concat bss) [] = Some (e, os')"
    using run_lines_sim [OF assms(1,6) _ assms(3) _ assms(7)] by metis
  have "ustack t = []" using assms(8) ustack_Nil [of t] by simp
  then show ?thesis using r by auto
qed

definition ex_lines :: "aline list" where
  "ex_lines = [Dirline ''#'' ''if'' '' A'' LT_FALSE False, Plain ''x'', Dirline ''#'' ''elif'' '' B'' LT_ELIF True,
     Plain ''y'', Dirline ''#'' ''elif'' '' C'' LT_ELTRUE True, Plain ''z'', Dirline ''#'' ''else'' [] LT_ELSE True,
     Plain ''w'', Dirline ''#'' ''endif'' [] LT_ENDIF True]"

fun closed :: "unit res \<Rightarrow> bool" where
  "closed (Ok u t) = (depth t = 0)"
| "closed (Stop x t) = False"

definition ex_state :: ustate where
  "ex_state = uoptions.extend
     \<lparr>compblank = False, lnblank = False, complement = False, iocccok = False, strictlogic = False,
       killconsts = False, lnnum = False, symlist = False, symdepth = False, text_file = False\<rparr>
     (ustate.fields (\<lambda>_. []) (\<lambda>_. None) (\<lambda>_. False) 0 [] False 0 [] [] [] 0 (Some [NL]) NO_COMMENT LS_START
       (replicate MAXDEPTH IS_OUTSIDE) (replicate MAXDEPTH False) (replicate MAXDEPTH 0) 0 0 0 0 False True
       False 0 0)"

theorem unifdef_preserves_meaning_witness:
  "\<exists>t bss e. run_lines ex_lines ex_state = Ok () t \<and> out t = out ex_state @ concat (map atext (concat bss))
    \<and> list_all2 (\<lambda>a b. b \<in> set (choices [NL] a)) ex_lines bss
    \<and> cpp_run ex_lines [] = Some (e, []) \<and> cpp_run (concat bss) [] = Some (e, [])"
proof -
  have "closed (run_lines ex_lines ex_state)" by code_simp
  then obtain t where t: "run_lines ex_lines ex_state = Ok () t" "depth t = 0"
    by (cases "run_lines ex_lines ex_state") auto
  have l: "list_all agrees ex_lines"
    by (simp add: ex_lines_def if_dirs_def elif_dirs_def MAXLINE_def)
  have s: "plain_opts ex_state" "mach_ok ex_state" "depth ex_state = 0" "newline ex_state = Some [NL]"
    by (simp_all add: plain_opts_def mach_ok_def stack_ok_def ex_state_def uoptions.defs ustate.defs MAXDEPTH_def)
  show ?thesis
    using unifdef_preserves_meaning [OF l s(1-4) _ t] t(1) by simp
qed

end
