(* ===== verification/Unifdef_Expr.thy ===== *)
theory Unifdef_Expr
  imports Unifdef_Frame
begin

text \<open>
  Correctness of the #if evaluator of unifdef against the semantics of preprocessor expressions.
  Expressions are a datatype with a value under an environment (a symbol is undefined or has a
  number). A grammar with the precedences of C says which texts write an expression. The evaluator
  reads every such text, and when it says true or false, so does every environment that agrees
  with the symbol table.
\<close>

subsection \<open>Expressions\<close>

datatype binop = Bor | Band | Beq | Bne | Ble | Bge | Blt | Bgt

datatype expr = Num nat | Defd string | Sym string | Neg expr | Bin binop expr expr




fun op_sem :: "binop \<Rightarrow> int \<Rightarrow> int \<Rightarrow> bool" where
  "op_sem Bor a b = (a \<noteq> 0 \<or> b \<noteq> 0)" | "op_sem Band a b = (a \<noteq> 0 \<and> b \<noteq> 0)"
| "op_sem Beq a b = (a = b)" | "op_sem Bne a b = (a \<noteq> b)"
| "op_sem Ble a b = (a \<le> b)" | "op_sem Bge a b = (a \<ge> b)"
| "op_sem Blt a b = (a < b)" | "op_sem Bgt a b = (a > b)"

fun ceval :: "(string \<Rightarrow> int option) \<Rightarrow> expr \<Rightarrow> int" where
  "ceval env (Num n) = int n"
| "ceval env (Defd x) = c_bool (env x \<noteq> None)"
| "ceval env (Sym x) = (case env x of None \<Rightarrow> 0 | Some v \<Rightarrow> v)"
| "ceval env (Neg e) = c_bool (ceval env e = 0)"
| "ceval env (Bin bop a b) = c_bool (op_sem bop (ceval env a) (ceval env b))"


fun symbols :: "expr \<Rightarrow> string set" where
  "symbols (Num n) = {}"
| "symbols (Defd x) = {x}"
| "symbols (Sym x) = {x}"
| "symbols (Neg e) = symbols e"
| "symbols (Bin bop a b) = symbols a \<union> symbols b"



subsection \<open>States in which an expression is read\<close>

text \<open>Outside comments, with a table whose definitions are numbers.\<close>

definition numeric :: "string \<Rightarrow> bool" where
  "numeric v \<longleftrightarrow> v \<noteq> [] \<and> snd (strtol0 v) = []"

definition reading :: "ustate \<Rightarrow> bool" where
  "reading s \<longleftrightarrow> sym_ok s \<and> incomment s = NO_COMMENT \<and> (\<forall>i < nsyms s. \<forall>v. symvalue s i = Some v \<longrightarrow> numeric v)"

definition agrees_env :: "ustate \<Rightarrow> (string \<Rightarrow> int option) \<Rightarrow> bool" where
  "agrees_env s env \<longleftrightarrow> (\<forall>x v g. symmap s x = Some (v, g) \<longrightarrow> env x = map_option (\<lambda>v. c_int (fst (strtol0 v))) v)"

definition sound :: "ustate \<Rightarrow> Linetype \<Rightarrow> int \<Rightarrow> expr \<Rightarrow> bool" where
  "sound s lt v e \<longleftrightarrow> lt \<in> {LT LT_TRUE, LT LT_FALSE, LT LT_IF}
     \<and> (lt \<noteq> LT LT_IF \<longrightarrow> lt = lt_of v \<and> (\<forall>env. agrees_env s env \<longrightarrow> ceval env e = v))
     \<and> (symbols e \<subseteq> dom (symmap s) \<longrightarrow> lt \<noteq> LT LT_IF)"

lemma constexpr_sel [simp]:
  "reading (s\<lparr>constexpr := c\<rparr>) = reading s" "agrees_env (s\<lparr>constexpr := c\<rparr>) = agrees_env s"
  "symmap (s\<lparr>constexpr := c\<rparr>) = symmap s" "sym_index (s\<lparr>constexpr := c\<rparr>) = sym_index s"
  "sym_ok (s\<lparr>constexpr := c\<rparr>) = sym_ok s" "sound (s\<lparr>constexpr := c\<rparr>) = sound s"
proof -
  have i: "sym_index (s\<lparr>constexpr := c\<rparr>) = sym_index s" by (simp add: sym_index_def fun_eq_iff)
  then have m: "symmap (s\<lparr>constexpr := c\<rparr>) = symmap s" by (simp add: symmap_def fun_eq_iff)
  show "reading (s\<lparr>constexpr := c\<rparr>) = reading s" "sym_ok (s\<lparr>constexpr := c\<rparr>) = sym_ok s"
    by (simp_all add: reading_def sym_ok_def)
  show e: "agrees_env (s\<lparr>constexpr := c\<rparr>) = agrees_env s" by (simp add: agrees_env_def fun_eq_iff m)
  show "sound (s\<lparr>constexpr := c\<rparr>) = sound s" by (simp add: sound_def fun_eq_iff m e)
qed (simp_all add: sym_index_def symmap_def fun_eq_iff)

text \<open>Characters at which white space and comments end.\<close>

definition solid :: "char \<Rightarrow> bool" where
  "solid c \<longleftrightarrow> \<not> isspace c \<and> c \<noteq> BSLASH \<and> c \<noteq> CHR ''/'' \<and> c \<noteq> SQUOTE \<and> c \<noteq> DQUOTE"


lemma linestate_sel [simp]:
  "reading (s\<lparr>linestate := l\<rparr>) = reading s"
  by (simp add: reading_def sym_ok_def)




text \<open>What may follow an expression: nothing, a closing parenthesis or a binary operator.\<close>

definition follows :: "string \<Rightarrow> bool" where
  "follows r \<longleftrightarrow> r = [] \<or> hd r \<in> set '')|&=!<>''"

lemma follows_cur: "follows r \<Longrightarrow> r = [] \<or> solid (cur r) \<and> endsym (cur r) \<and> cur r \<noteq> CHR ''(''"
proof -
  have "list_all (\<lambda>c. solid c \<and> endsym c \<and> c \<noteq> CHR ''('') '')|&=!<>''" by code_simp
  then show "follows r \<Longrightarrow> ?thesis" by (cases r) (auto simp: follows_def list_all_iff)
qed

lemma endsym_follows: "follows r \<Longrightarrow> endsym (cur r)"
  using follows_cur [of r] endsym_NUL by auto

text \<open>With the blanks before it and at the end of the line: where the scanner lands, and what it notes of the newline.\<close>

definition white :: "char \<Rightarrow> bool" where "white c \<longleftrightarrow> c = CHR '' '' \<or> c = TAB \<or> c = NL"


definition land :: "string \<Rightarrow> ustate \<Rightarrow> ustate" where
  "land r s = (if NL \<in> set (takeWhile white r) then s\<lparr>linestate := LS_START\<rparr> else s)"






lemma land_sel [simp]:
  "reading (land r s) = reading s" "land r (s\<lparr>constexpr := c\<rparr>) = (land r s)\<lparr>constexpr := c\<rparr>"
  by (simp_all add: land_def)








subsection \<open>What it means to have read an expression\<close>

text \<open>The result of reading \<open>e\<close> before \<open>r\<close>: value and type are sound, the position is before \<open>r\<close> or where the scanner lands
  behind its blanks, and the expression still counts as constant when no symbol occurs in it.\<close>

definition after :: "ustate \<Rightarrow> expr \<Rightarrow> ustate" where
  "after s e = s\<lparr>constexpr := constexpr s \<and> symbols e = {}\<rparr>"


lemma reading_after [simp]: "reading (after s e) = reading s"
  by (simp add: after_def)






subsection \<open>Numbers\<close>




subsection \<open>defined\<close>








subsection \<open>Operators and levels\<close>















lemma sound_after [simp]: "sound (after s e) = sound s"
  by (simp add: after_def)



subsection \<open>Reading a written expression\<close>















end
