(* ===== verification/Bpf.thy ===== *)
theory Bpf
  imports Cmd_Prelude
begin

unbundle bit_operations_syntax

text \<open>
  The packet filter machine of libpcap (lib/libpcap/libpcap/bpf_filter.c): the interpreter
  bpf_filter and the program checker bpf_validate. Registers, operands and offsets are 32-bit
  words as in the C code; the program counter is an index into the program and every access that
  C would make outside an array is the outcome \<open>Fault\<close>. The build modelled is the one without
  the VLAN pseudo-loads of the Linux kernel headers.
\<close>

subsection \<open>Instructions\<close>

type_synonym opcode = "16 word"

record bpf_insn =
  insn_code :: opcode
  jt :: "8 word"
  jf :: "8 word"
  insn_k :: u32

text \<open>The fields of an opcode, as the macros of pcap/bpf.h have them.\<close>

abbreviation BPF_LD :: opcode where "BPF_LD \<equiv> 0x00"
abbreviation BPF_LDX :: opcode where "BPF_LDX \<equiv> 0x01"
abbreviation BPF_ST :: opcode where "BPF_ST \<equiv> 0x02"
abbreviation BPF_STX :: opcode where "BPF_STX \<equiv> 0x03"
abbreviation BPF_ALU :: opcode where "BPF_ALU \<equiv> 0x04"
abbreviation BPF_JMP :: opcode where "BPF_JMP \<equiv> 0x05"
abbreviation BPF_RET :: opcode where "BPF_RET \<equiv> 0x06"
abbreviation BPF_MISC :: opcode where "BPF_MISC \<equiv> 0x07"

abbreviation BPF_W :: opcode where "BPF_W \<equiv> 0x00"
abbreviation BPF_H :: opcode where "BPF_H \<equiv> 0x08"
abbreviation BPF_B :: opcode where "BPF_B \<equiv> 0x10"

abbreviation BPF_IMM :: opcode where "BPF_IMM \<equiv> 0x00"
abbreviation BPF_ABS :: opcode where "BPF_ABS \<equiv> 0x20"
abbreviation BPF_IND :: opcode where "BPF_IND \<equiv> 0x40"
abbreviation BPF_MEM :: opcode where "BPF_MEM \<equiv> 0x60"
abbreviation BPF_LEN :: opcode where "BPF_LEN \<equiv> 0x80"
abbreviation BPF_MSH :: opcode where "BPF_MSH \<equiv> 0xa0"

abbreviation BPF_ADD :: opcode where "BPF_ADD \<equiv> 0x00"
abbreviation BPF_SUB :: opcode where "BPF_SUB \<equiv> 0x10"
abbreviation BPF_MUL :: opcode where "BPF_MUL \<equiv> 0x20"
abbreviation BPF_DIV :: opcode where "BPF_DIV \<equiv> 0x30"
abbreviation BPF_OR :: opcode where "BPF_OR \<equiv> 0x40"
abbreviation BPF_AND :: opcode where "BPF_AND \<equiv> 0x50"
abbreviation BPF_LSH :: opcode where "BPF_LSH \<equiv> 0x60"
abbreviation BPF_RSH :: opcode where "BPF_RSH \<equiv> 0x70"
abbreviation BPF_NEG :: opcode where "BPF_NEG \<equiv> 0x80"
abbreviation BPF_MOD :: opcode where "BPF_MOD \<equiv> 0x90"
abbreviation BPF_XOR :: opcode where "BPF_XOR \<equiv> 0xa0"

abbreviation BPF_JA :: opcode where "BPF_JA \<equiv> 0x00"
abbreviation BPF_JEQ :: opcode where "BPF_JEQ \<equiv> 0x10"
abbreviation BPF_JGT :: opcode where "BPF_JGT \<equiv> 0x20"
abbreviation BPF_JGE :: opcode where "BPF_JGE \<equiv> 0x30"
abbreviation BPF_JSET :: opcode where "BPF_JSET \<equiv> 0x40"

abbreviation BPF_K :: opcode where "BPF_K \<equiv> 0x00"
abbreviation BPF_X :: opcode where "BPF_X \<equiv> 0x08"
abbreviation BPF_A :: opcode where "BPF_A \<equiv> 0x10"
abbreviation BPF_TAX :: opcode where "BPF_TAX \<equiv> 0x00"
abbreviation BPF_TXA :: opcode where "BPF_TXA \<equiv> 0x80"

definition BPF_CLASS :: "opcode \<Rightarrow> opcode" where "BPF_CLASS c = c AND 0x07"
definition BPF_MODE :: "opcode \<Rightarrow> opcode" where "BPF_MODE c = c AND 0xe0"
definition BPF_OP :: "opcode \<Rightarrow> opcode" where "BPF_OP c = c AND 0xf0"
definition BPF_SRC :: "opcode \<Rightarrow> opcode" where "BPF_SRC c = c AND 0x08"

lemmas bpf_fields = BPF_CLASS_def BPF_MODE_def BPF_OP_def BPF_SRC_def

definition BPF_MEMWORDS :: nat where "BPF_MEMWORDS = 16"

subsection \<open>The machine\<close>

text \<open>The packet a filter looks at: the bytes, its length on the wire and the amount present.\<close>

record packet =
  pdata :: "8 word list"
  wirelen :: u32
  buflen :: u32

record bpf_state =
  regA :: u32
  regX :: u32
  mem :: "u32 list"
  pc :: int

text \<open>One turn of the loop: it goes on, returns, calls abort(), makes a shift that C leaves
  undefined, or touches memory outside its arrays or divides by zero.\<close>

datatype bpf_out = Continue bpf_state | Return u32 | Abort | Undefined | Fault

type_synonym bpf_act = "packet \<Rightarrow> bpf_insn \<Rightarrow> bpf_state \<Rightarrow> bpf_out"

definition byte_at :: "packet \<Rightarrow> nat \<Rightarrow> u32" where
  "byte_at pkt i = ucast (pdata pkt ! i)"

definition EXTRACT_SHORT :: "packet \<Rightarrow> nat \<Rightarrow> u32" where
  "EXTRACT_SHORT pkt i = push_bit 8 (byte_at pkt i) OR byte_at pkt (i + 1)"

definition EXTRACT_LONG :: "packet \<Rightarrow> nat \<Rightarrow> u32" where
  "EXTRACT_LONG pkt i = push_bit 24 (byte_at pkt i) OR push_bit 16 (byte_at pkt (i + 1))
     OR push_bit 8 (byte_at pkt (i + 2)) OR byte_at pkt (i + 3)"

text \<open>A read of \<open>n\<close> packet bytes at offset \<open>i\<close>.\<close>

definition packet_read :: "nat \<Rightarrow> (packet \<Rightarrow> nat \<Rightarrow> u32) \<Rightarrow> u32 \<Rightarrow> packet \<Rightarrow> bpf_state \<Rightarrow> bpf_out" where
  "packet_read n ext i pkt s =
     (if unat i + n \<le> length (pdata pkt) then Continue (s\<lparr>regA := ext pkt (unat i)\<rparr>) else Fault)"

definition set_A :: "bpf_state \<Rightarrow> u32 \<Rightarrow> bpf_out" where "set_A s v = Continue (s\<lparr>regA := v\<rparr>)"
definition set_X :: "bpf_state \<Rightarrow> u32 \<Rightarrow> bpf_out" where "set_X s v = Continue (s\<lparr>regX := v\<rparr>)"

definition ld_w_abs :: bpf_act where
  "ld_w_abs pkt i s =
     (let kk = insn_k i in
      if kk > buflen pkt \<or> 4 > unat (buflen pkt - kk) then Return 0 else packet_read 4 EXTRACT_LONG kk pkt s)"

definition ld_h_abs :: bpf_act where
  "ld_h_abs pkt i s =
     (let kk = insn_k i in
      if kk > buflen pkt \<or> 2 > unat (buflen pkt - kk) then Return 0 else packet_read 2 EXTRACT_SHORT kk pkt s)"

definition ld_b_abs :: bpf_act where
  "ld_b_abs pkt i s =
     (let kk = insn_k i in if kk \<ge> buflen pkt then Return 0 else packet_read 1 byte_at kk pkt s)"

definition ld_w_ind :: bpf_act where
  "ld_w_ind pkt i s =
     (let kk = regX s + insn_k i in
      if insn_k i > buflen pkt \<or> regX s > buflen pkt - insn_k i \<or> 4 > unat (buflen pkt - kk) then Return 0
      else packet_read 4 EXTRACT_LONG kk pkt s)"

definition ld_h_ind :: bpf_act where
  "ld_h_ind pkt i s =
     (let kk = regX s + insn_k i in
      if regX s > buflen pkt \<or> insn_k i > buflen pkt - regX s \<or> 2 > unat (buflen pkt - kk) then Return 0
      else packet_read 2 EXTRACT_SHORT kk pkt s)"

definition ld_b_ind :: bpf_act where
  "ld_b_ind pkt i s =
     (let kk = regX s + insn_k i in
      if insn_k i \<ge> buflen pkt \<or> regX s \<ge> buflen pkt - insn_k i then Return 0 else packet_read 1 byte_at kk pkt s)"

definition ldx_msh :: bpf_act where
  "ldx_msh pkt i s =
     (let kk = insn_k i in
      if kk \<ge> buflen pkt then Return 0
      else if unat kk < length (pdata pkt) then set_X s (push_bit 2 (byte_at pkt (unat kk) AND 0xf)) else Fault)"

definition mem_read :: "(bpf_state \<Rightarrow> u32 \<Rightarrow> bpf_out) \<Rightarrow> bpf_act" where
  "mem_read setr pkt i s = (if unat (insn_k i) < length (mem s) then setr s (mem s ! unat (insn_k i)) else Fault)"

definition mem_write :: "(bpf_state \<Rightarrow> u32) \<Rightarrow> bpf_act" where
  "mem_write get pkt i s =
     (if unat (insn_k i) < length (mem s) then Continue (s\<lparr>mem := (mem s)[unat (insn_k i) := get s]\<rparr>) else Fault)"

definition jump_always :: bpf_act where
  "jump_always pkt i s = Continue (s\<lparr>pc := pc s + sint (insn_k i)\<rparr>)"

definition jump_if :: "(u32 \<Rightarrow> u32 \<Rightarrow> bool) \<Rightarrow> (bpf_insn \<Rightarrow> bpf_state \<Rightarrow> u32) \<Rightarrow> bpf_act" where
  "jump_if test src pkt i s =
     Continue (s\<lparr>pc := pc s + (if test (regA s) (src i s) then uint (jt i) else uint (jf i))\<rparr>)"

definition alu :: "(u32 \<Rightarrow> u32 \<Rightarrow> u32) \<Rightarrow> (bpf_insn \<Rightarrow> bpf_state \<Rightarrow> u32) \<Rightarrow> bpf_act" where
  "alu f src pkt i s = set_A s (f (regA s) (src i s))"

text \<open>Division by X is guarded at run time, division by the constant is not.\<close>

definition alu_div_x :: "(u32 \<Rightarrow> u32 \<Rightarrow> u32) \<Rightarrow> bpf_act" where
  "alu_div_x f pkt i s = (if regX s = 0 then Return 0 else set_A s (f (regA s) (regX s)))"

definition alu_div_k :: "(u32 \<Rightarrow> u32 \<Rightarrow> u32) \<Rightarrow> bpf_act" where
  "alu_div_k f pkt i s = (if insn_k i = 0 then Fault else set_A s (f (regA s) (insn_k i)))"

definition alu_shift_x :: "(nat \<Rightarrow> u32 \<Rightarrow> u32) \<Rightarrow> bpf_act" where
  "alu_shift_x f pkt i s = (if regX s < 32 then set_A s (f (unat (regX s)) (regA s)) else set_A s 0)"

definition alu_shift_k :: "(nat \<Rightarrow> u32 \<Rightarrow> u32) \<Rightarrow> bpf_act" where
  "alu_shift_k f pkt i s = (if insn_k i < 32 then set_A s (f (unat (insn_k i)) (regA s)) else Undefined)"

abbreviation from_k :: "bpf_insn \<Rightarrow> bpf_state \<Rightarrow> u32" where "from_k \<equiv> \<lambda>i s. insn_k i"
abbreviation from_x :: "bpf_insn \<Rightarrow> bpf_state \<Rightarrow> u32" where "from_x \<equiv> \<lambda>i s. regX s"

text \<open>The switch of the interpreter, in its order.\<close>

definition bpf_switch :: "(opcode \<times> bpf_act) list" where
  "bpf_switch =
    [(BPF_RET OR BPF_K, \<lambda>pkt i s. Return (insn_k i)),
     (BPF_RET OR BPF_A, \<lambda>pkt i s. Return (regA s)),
     (BPF_LD OR BPF_W OR BPF_ABS, ld_w_abs),
     (BPF_LD OR BPF_H OR BPF_ABS, ld_h_abs),
     (BPF_LD OR BPF_B OR BPF_ABS, ld_b_abs),
     (BPF_LD OR BPF_W OR BPF_LEN, \<lambda>pkt i s. set_A s (wirelen pkt)),
     (BPF_LDX OR BPF_W OR BPF_LEN, \<lambda>pkt i s. set_X s (wirelen pkt)),
     (BPF_LD OR BPF_W OR BPF_IND, ld_w_ind),
     (BPF_LD OR BPF_H OR BPF_IND, ld_h_ind),
     (BPF_LD OR BPF_B OR BPF_IND, ld_b_ind),
     (BPF_LDX OR BPF_MSH OR BPF_B, ldx_msh),
     (BPF_LD OR BPF_IMM, \<lambda>pkt i s. set_A s (insn_k i)),
     (BPF_LDX OR BPF_IMM, \<lambda>pkt i s. set_X s (insn_k i)),
     (BPF_LD OR BPF_MEM, mem_read set_A),
     (BPF_LDX OR BPF_MEM, mem_read set_X),
     (BPF_ST, mem_write regA),
     (BPF_STX, mem_write regX),
     (BPF_JMP OR BPF_JA, jump_always),
     (BPF_JMP OR BPF_JGT OR BPF_K, jump_if (\<lambda>a b. a > b) from_k),
     (BPF_JMP OR BPF_JGE OR BPF_K, jump_if (\<lambda>a b. a \<ge> b) from_k),
     (BPF_JMP OR BPF_JEQ OR BPF_K, jump_if (\<lambda>a b. a = b) from_k),
     (BPF_JMP OR BPF_JSET OR BPF_K, jump_if (\<lambda>a b. a AND b \<noteq> 0) from_k),
     (BPF_JMP OR BPF_JGT OR BPF_X, jump_if (\<lambda>a b. a > b) from_x),
     (BPF_JMP OR BPF_JGE OR BPF_X, jump_if (\<lambda>a b. a \<ge> b) from_x),
     (BPF_JMP OR BPF_JEQ OR BPF_X, jump_if (\<lambda>a b. a = b) from_x),
     (BPF_JMP OR BPF_JSET OR BPF_X, jump_if (\<lambda>a b. a AND b \<noteq> 0) from_x),
     (BPF_ALU OR BPF_ADD OR BPF_X, alu (+) from_x),
     (BPF_ALU OR BPF_SUB OR BPF_X, alu (-) from_x),
     (BPF_ALU OR BPF_MUL OR BPF_X, alu (*) from_x),
     (BPF_ALU OR BPF_DIV OR BPF_X, alu_div_x (div)),
     (BPF_ALU OR BPF_MOD OR BPF_X, alu_div_x (mod)),
     (BPF_ALU OR BPF_AND OR BPF_X, alu (AND) from_x),
     (BPF_ALU OR BPF_OR OR BPF_X, alu (OR) from_x),
     (BPF_ALU OR BPF_XOR OR BPF_X, alu (XOR) from_x),
     (BPF_ALU OR BPF_LSH OR BPF_X, alu_shift_x push_bit),
     (BPF_ALU OR BPF_RSH OR BPF_X, alu_shift_x drop_bit),
     (BPF_ALU OR BPF_ADD OR BPF_K, alu (+) from_k),
     (BPF_ALU OR BPF_SUB OR BPF_K, alu (-) from_k),
     (BPF_ALU OR BPF_MUL OR BPF_K, alu (*) from_k),
     (BPF_ALU OR BPF_DIV OR BPF_K, alu_div_k (div)),
     (BPF_ALU OR BPF_MOD OR BPF_K, alu_div_k (mod)),
     (BPF_ALU OR BPF_AND OR BPF_K, alu (AND) from_k),
     (BPF_ALU OR BPF_OR OR BPF_K, alu (OR) from_k),
     (BPF_ALU OR BPF_XOR OR BPF_K, alu (XOR) from_k),
     (BPF_ALU OR BPF_LSH OR BPF_K, alu_shift_k push_bit),
     (BPF_ALU OR BPF_RSH OR BPF_K, alu_shift_k drop_bit),
     (BPF_ALU OR BPF_NEG, \<lambda>pkt i s. set_A s (0 - regA s)),
     (BPF_MISC OR BPF_TAX, \<lambda>pkt i s. set_X s (regA s)),
     (BPF_MISC OR BPF_TXA, \<lambda>pkt i s. set_A s (regX s))]"

definition bpf_step :: "bpf_insn list \<Rightarrow> packet \<Rightarrow> bpf_state \<Rightarrow> bpf_out" where
  "bpf_step f pkt s =
     (if pc s < 0 \<or> pc s \<ge> int (length f) then Fault
      else let i = f ! nat (pc s) in
        case map_of bpf_switch (insn_code i) of None \<Rightarrow> Abort | Some act \<Rightarrow> act pkt i s)"

text \<open>The loop, with a bound on the number of instructions; None when the bound is used up.
  mem is uninitialised in C: its first content is an argument.\<close>

fun bpf_loop :: "nat \<Rightarrow> bpf_insn list \<Rightarrow> packet \<Rightarrow> bpf_state \<Rightarrow> bpf_out option" where
  "bpf_loop 0 f pkt s = None"
| "bpf_loop (Suc n) f pkt s =
     (case bpf_step f pkt (s\<lparr>pc := pc s + 1\<rparr>) of Continue s' \<Rightarrow> bpf_loop n f pkt s' | out \<Rightarrow> Some out)"

definition bpf_start :: "u32 list \<Rightarrow> bpf_state" where
  "bpf_start mem0 = \<lparr>regA = 0, regX = 0, mem = mem0, pc = -1\<rparr>"

definition bpf_filter :: "nat \<Rightarrow> bpf_insn list option \<Rightarrow> packet \<Rightarrow> u32 list \<Rightarrow> bpf_out option" where
  "bpf_filter n prog pkt mem0 =
     (case prog of None \<Rightarrow> Some (Return (- 1)) | Some f \<Rightarrow> bpf_loop n f pkt (bpf_start mem0))"

subsection \<open>The checker\<close>

definition validate_ld :: "bpf_insn \<Rightarrow> bool" where
  "validate_ld i =
     (let m = BPF_MODE (insn_code i) in
      if m \<in> {BPF_IMM, BPF_ABS, BPF_IND, BPF_MSH} then True
      else if m = BPF_MEM then insn_k i < of_nat BPF_MEMWORDS
      else m = BPF_LEN)"

definition validate_alu :: "bpf_insn \<Rightarrow> bool" where
  "validate_alu i =
     (let c = BPF_OP (insn_code i) in
      if c \<in> {BPF_ADD, BPF_SUB, BPF_MUL, BPF_OR, BPF_AND, BPF_XOR, BPF_LSH, BPF_RSH, BPF_NEG} then True
      else if c \<in> {BPF_DIV, BPF_MOD} then \<not> (BPF_SRC (insn_code i) = BPF_K \<and> insn_k i = 0)
      else False)"

text \<open>Offsets are added in unsigned arithmetic: they wrap.\<close>

definition validate_jmp :: "u32 \<Rightarrow> u32 \<Rightarrow> bpf_insn \<Rightarrow> bool" where
  "validate_jmp len from i =
     (let c = BPF_OP (insn_code i) in
      if c = BPF_JA then from + insn_k i < len
      else if c \<in> {BPF_JEQ, BPF_JGT, BPF_JGE, BPF_JSET} then from + ucast (jt i) < len \<and> from + ucast (jf i) < len
      else False)"

definition validate_insn :: "u32 \<Rightarrow> u32 \<Rightarrow> bpf_insn \<Rightarrow> bool" where
  "validate_insn len n i =
     (let c = BPF_CLASS (insn_code i) in
      if c = BPF_LD \<or> c = BPF_LDX then validate_ld i
      else if c = BPF_ST \<or> c = BPF_STX then insn_k i < of_nat BPF_MEMWORDS
      else if c = BPF_ALU then validate_alu i
      else if c = BPF_JMP then validate_jmp len (n + 1) i
      else if c = BPF_RET then True
      else c = BPF_MISC)"

definition bpf_validate :: "bpf_insn list \<Rightarrow> int \<Rightarrow> bool" where
  "bpf_validate f len \<longleftrightarrow>
     \<not> len < 1
     \<and> list_all (\<lambda>n. validate_insn (word_of_int len) (of_nat n) (f ! n)) [0..<nat len]
     \<and> BPF_CLASS (insn_code (f ! nat (len - 1))) = BPF_RET"

subsection \<open>What a checked instruction does\<close>

text \<open>The three ways in which a checked program can still go wrong: an opcode the interpreter does
  not know, a shift by a constant of 32 or more, and a backward jump.\<close>

definition unknown :: "bpf_insn \<Rightarrow> bool" where
  "unknown i \<longleftrightarrow> insn_code i \<notin> fst ` set bpf_switch"

definition wide_shift :: "bpf_insn \<Rightarrow> bool" where
  "wide_shift i \<longleftrightarrow> insn_code i \<in> {BPF_ALU OR BPF_LSH OR BPF_K, BPF_ALU OR BPF_RSH OR BPF_K} \<and> 32 \<le> insn_k i"

definition backward :: "bpf_insn \<Rightarrow> bool" where
  "backward i \<longleftrightarrow> insn_code i = BPF_JMP OR BPF_JA \<and> sint (insn_k i) < 0"

definition packet_ok :: "packet \<Rightarrow> bool" where
  "packet_ok pkt \<longleftrightarrow> unat (buflen pkt) \<le> length (pdata pkt)"

text \<open>A state before an instruction that is not the last one, and what may come out of it.\<close>

definition running :: "int \<Rightarrow> bpf_state \<Rightarrow> bool" where
  "running len s \<longleftrightarrow> length (mem s) = BPF_MEMWORDS \<and> 0 \<le> pc s \<and> pc s + 1 < len"

definition goes_on :: "int \<Rightarrow> bpf_insn \<Rightarrow> bpf_state \<Rightarrow> bpf_state \<Rightarrow> bool" where
  "goes_on len i s s' \<longleftrightarrow> length (mem s') = BPF_MEMWORDS \<and> 0 \<le> pc s' + 1 \<and> pc s' + 1 < len
     \<and> (pc s \<le> pc s' \<or> backward i)"

fun out_ok :: "int \<Rightarrow> bpf_insn \<Rightarrow> bpf_state \<Rightarrow> bpf_out \<Rightarrow> bool" where
  "out_ok len i s (Continue s') = goes_on len i s s'"
| "out_ok len i s (Return v) = True"
| "out_ok len i s Undefined = wide_shift i"
| "out_ok len i s Abort = unknown i"
| "out_ok len i s Fault = False"

lemma out_ok_same: "running len s \<Longrightarrow> length (mem s') = BPF_MEMWORDS \<Longrightarrow> pc s' = pc s \<Longrightarrow> out_ok len i s (Continue s')"
  by (simp add: running_def goes_on_def)

lemma out_ok_set [simp]:
  "running len s \<Longrightarrow> out_ok len i s (set_A s v)" "running len s \<Longrightarrow> out_ok len i s (set_X s v)"
  by (simp_all add: set_A_def set_X_def goes_on_def running_def)

lemma out_ok_read:
  "running len s \<Longrightarrow> unat j + n \<le> length (pdata pkt) \<Longrightarrow> out_ok len i s (packet_read n ext j pkt s)"
  by (simp add: packet_read_def goes_on_def running_def)

text \<open>The run-time checks of a packet load, over the numbers.\<close>

lemma u32_bound: "unat (w :: u32) < 2 ^ 32"
  using unsigned_less [of w] by simp

lemma abs_check:
  fixes b kk :: u32
  shows "kk > b \<or> n > unat (b - kk) \<longleftrightarrow> unat b < unat kk + n"
proof (cases "kk \<le> b")
  case True
  then have "unat (b - kk) = unat b - unat kk" "unat kk \<le> unat b"
    by (simp_all add: unat_sub word_le_nat_alt)
  then show ?thesis using True by (auto simp: word_less_nat_alt)
qed (auto simp: word_less_nat_alt not_le)

lemma ind_check:
  fixes b kk x :: u32
  shows "kk > b \<or> x > b - kk \<or> n > unat (b - (x + kk)) \<longleftrightarrow> unat b < unat x + unat kk + n"
    and "\<not> (kk > b \<or> x > b - kk) \<Longrightarrow> unat (x + kk) = unat x + unat kk"
proof -
  have sub: "unat (b - kk) = unat b - unat kk" if "kk \<le> b" using that by (simp add: unat_sub word_le_nat_alt)
  show sum: "unat (x + kk) = unat x + unat kk" if "\<not> (kk > b \<or> x > b - kk)"
  proof -
    have "unat x + unat kk \<le> unat b" using that sub by (auto simp: not_less word_le_nat_alt)
    then have "unat x + unat kk < 2 ^ 32" using u32_bound [of b] by linarith
    then show ?thesis by (simp add: unat_word_ariths(1))
  qed
  show "kk > b \<or> x > b - kk \<or> n > unat (b - (x + kk)) \<longleftrightarrow> unat b < unat x + unat kk + n"
  proof (cases "kk > b \<or> x > b - kk")
    case True
    then show ?thesis using sub by (cases "kk \<le> b") (auto simp: word_less_nat_alt not_le not_less word_le_nat_alt)
  next
    case False
    then have "unat (b - (x + kk)) = unat b - unat (x + kk)" "unat (x + kk) \<le> unat b"
      using sum sub by (auto simp: unat_sub word_le_nat_alt not_less)
    then show ?thesis using False sum by auto
  qed
qed

lemma ind_check_byte:
  fixes b kk x :: u32
  shows "kk \<ge> b \<or> x \<ge> b - kk \<longleftrightarrow> unat b < unat x + unat kk + 1"
    and "\<not> (kk \<ge> b \<or> x \<ge> b - kk) \<Longrightarrow> unat (x + kk) = unat x + unat kk"
proof -
  have sub: "unat (b - kk) = unat b - unat kk" if "kk \<le> b" using that by (simp add: unat_sub word_le_nat_alt)
  show "kk \<ge> b \<or> x \<ge> b - kk \<longleftrightarrow> unat b < unat x + unat kk + 1"
    using sub by (cases "kk \<le> b") (auto simp: word_le_nat_alt not_le)
  show "unat (x + kk) = unat x + unat kk" if "\<not> (kk \<ge> b \<or> x \<ge> b - kk)"
    by (rule ind_check(2) [of b kk x]) (use that in auto)
qed

text \<open>A load returns 0 exactly when its bytes are not all present; otherwise it reads them.\<close>

lemma load_cases:
  "ld_w_abs pkt i s = (if unat (buflen pkt) < unat (insn_k i) + 4 then Return 0
     else packet_read 4 EXTRACT_LONG (insn_k i) pkt s)"
  "ld_h_abs pkt i s = (if unat (buflen pkt) < unat (insn_k i) + 2 then Return 0
     else packet_read 2 EXTRACT_SHORT (insn_k i) pkt s)"
  "ld_b_abs pkt i s = (if unat (buflen pkt) < unat (insn_k i) + 1 then Return 0
     else packet_read 1 byte_at (insn_k i) pkt s)"
  "ld_w_ind pkt i s = (if unat (buflen pkt) < unat (regX s) + unat (insn_k i) + 4 then Return 0
     else packet_read 4 EXTRACT_LONG (regX s + insn_k i) pkt s)"
  "ld_h_ind pkt i s = (if unat (buflen pkt) < unat (regX s) + unat (insn_k i) + 2 then Return 0
     else packet_read 2 EXTRACT_SHORT (regX s + insn_k i) pkt s)"
  "ld_b_ind pkt i s = (if unat (buflen pkt) < unat (regX s) + unat (insn_k i) + 1 then Return 0
     else packet_read 1 byte_at (regX s + insn_k i) pkt s)"
  unfolding ld_w_abs_def ld_h_abs_def ld_w_ind_def ld_b_ind_def Let_def abs_check ind_check(1) ind_check_byte(1)
  by (simp_all add: ld_b_abs_def word_le_nat_alt not_le less_Suc_eq_le Let_def)
    (simp add: ld_h_ind_def Let_def ind_check(1) [of "buflen pkt" "regX s" "insn_k i"] add.commute)

lemma sum_no_wrap: "unat x + unat y + n \<le> unat (b :: u32) \<Longrightarrow> unat (x + y :: u32) = unat x + unat y"
proof -
  assume "unat x + unat y + n \<le> unat b"
  then have "unat x + unat y < 2 ^ 32" using u32_bound [of b] by linarith
  then show ?thesis by (simp add: unat_word_ariths(1))
qed

lemma out_ok_loads [simp]:
  assumes "packet_ok pkt" "running len s"
  shows "out_ok len i s (ld_w_abs pkt i s)" "out_ok len i s (ld_h_abs pkt i s)" "out_ok len i s (ld_b_abs pkt i s)"
    "out_ok len i s (ld_w_ind pkt i s)" "out_ok len i s (ld_h_ind pkt i s)" "out_ok len i s (ld_b_ind pkt i s)"
    "out_ok len i s (ldx_msh pkt i s)"
proof -
  have b: "n \<le> unat (buflen pkt) \<Longrightarrow> n \<le> length (pdata pkt)" for n
    using assms(1) by (simp add: packet_ok_def)
  have abs: "out_ok len i s (if unat (buflen pkt) < unat j + n then Return 0 else packet_read n ext j pkt s)" for n ext j
    using b by (simp add: out_ok_read [OF assms(2)])
  have ind: "out_ok len i s (if unat (buflen pkt) < unat x + unat j + n then Return 0
      else packet_read n ext (x + j) pkt s)" for n ext j x
    using b sum_no_wrap [of x j n "buflen pkt"] by (simp add: out_ok_read [OF assms(2)] not_less)
  show "out_ok len i s (ld_w_abs pkt i s)" "out_ok len i s (ld_h_abs pkt i s)" "out_ok len i s (ld_b_abs pkt i s)"
    "out_ok len i s (ld_w_ind pkt i s)" "out_ok len i s (ld_h_ind pkt i s)" "out_ok len i s (ld_b_ind pkt i s)"
    unfolding load_cases by (rule abs ind)+
  show "out_ok len i s (ldx_msh pkt i s)"
    using assms(2) b [of "Suc (unat (insn_k i))"]
    by (simp add: ldx_msh_def Let_def not_le word_less_nat_alt Suc_le_eq)
qed

lemma out_ok_mem [simp]:
  assumes "running len s" "insn_k i < of_nat BPF_MEMWORDS"
  shows "out_ok len i s (mem_read set_A pkt i s)" "out_ok len i s (mem_read set_X pkt i s)"
    "out_ok len i s (mem_write get pkt i s)"
proof -
  have "unat (insn_k i) < length (mem s)"
    using assms by (simp add: running_def BPF_MEMWORDS_def word_less_nat_alt)
  then show "out_ok len i s (mem_read set_A pkt i s)" "out_ok len i s (mem_read set_X pkt i s)"
    "out_ok len i s (mem_write get pkt i s)"
    using assms(1) by (simp_all add: mem_read_def mem_write_def goes_on_def running_def)
qed

lemma out_ok_alu [simp]:
  assumes "running len s"
  shows "out_ok len i s (alu f src pkt i s)" "out_ok len i s (alu_div_x f pkt i s)"
    "insn_k i \<noteq> 0 \<Longrightarrow> out_ok len i s (alu_div_k f pkt i s)" "out_ok len i s (alu_shift_x g pkt i s)"
    "insn_code i \<in> {BPF_ALU OR BPF_LSH OR BPF_K, BPF_ALU OR BPF_RSH OR BPF_K} \<Longrightarrow> out_ok len i s (alu_shift_k g pkt i s)"
  using assms
  by (simp_all add: alu_def alu_div_x_def alu_div_k_def alu_shift_x_def alu_shift_k_def wide_shift_def not_less)

text \<open>Jumps: the unsigned comparison of the checker gives the signed one of the interpreter.\<close>

lemma jump_target:
  assumes "0 \<le> n" "n < len" "len < 2 ^ 31"
    and "word_of_int n + 1 + kk < (word_of_int len :: u32)"
  shows "0 \<le> n + 1 + sint kk \<and> n + 1 + sint kk < len"
proof -
  let ?t = "n + 1 + sint kk"
  have "uint (word_of_int n + 1 + kk) = uint (word_of_int ?t :: u32)" by simp
  also have "\<dots> = ?t mod 2 ^ 32" by (simp only: uint_word_of_int) simp
  finally have u: "?t mod 2 ^ 32 < len" using assms by (simp add: word_less_def uint_word_of_int)
  have r: "- (2 ^ 31) \<le> sint kk" "sint kk < 2 ^ 31" using sint_ge [of kk] sint_lt [of kk] by simp_all
  have "0 \<le> ?t"
  proof (rule ccontr)
    assume "\<not> 0 \<le> ?t"
    then have "?t mod 2 ^ 32 = ?t + 2 ^ 32"
      using r assms(1) by (subst mod_add_self2 [symmetric], intro mod_pos_pos_trivial) simp_all
    then show False using u r assms by simp
  qed
  moreover have "?t < 2 ^ 32" using r assms by simp
  ultimately show ?thesis using u by simp
qed

lemma jump_byte:
  assumes "0 \<le> n" "n < len" "len < 2 ^ 31"
    and "word_of_int n + 1 + ucast j < (word_of_int len :: u32)"
  shows "n + 1 + uint (j :: 8 word) < len"
proof -
  have j: "uint j < 256" "0 \<le> uint j" using uint_bounded [of j] by simp_all
  have "uint (word_of_int n + 1 + ucast j :: u32) = uint (word_of_int (n + 1 + uint j) :: u32)" by simp
  also have "\<dots> = n + 1 + uint j" using j assms(1-3) by (simp only: uint_word_of_int) simp
  finally show ?thesis using assms by (simp add: word_less_def uint_word_of_int)
qed

lemma out_ok_jump:
  assumes "running len s" "len < 2 ^ 31"
  shows "word_of_int (pc s) + 1 + insn_k i < (word_of_int len :: u32) \<Longrightarrow> insn_code i = BPF_JMP OR BPF_JA
      \<Longrightarrow> out_ok len i s (jump_always pkt i s)"
    and "word_of_int (pc s) + 1 + ucast (jt i) < (word_of_int len :: u32)
      \<Longrightarrow> word_of_int (pc s) + 1 + ucast (jf i) < (word_of_int len :: u32) \<Longrightarrow> out_ok len i s (jump_if test src pkt i s)"
proof -
  have s: "0 \<le> pc s" "pc s < len" "length (mem s) = BPF_MEMWORDS" using assms(1) by (simp_all add: running_def)
  show "out_ok len i s (jump_always pkt i s)"
    if "word_of_int (pc s) + 1 + insn_k i < (word_of_int len :: u32)" "insn_code i = BPF_JMP OR BPF_JA"
    using jump_target [OF s(1,2) assms(2) that(1)] s(3) that(2)
    by (auto simp: jump_always_def goes_on_def backward_def)
  show "out_ok len i s (jump_if test src pkt i s)"
    if "word_of_int (pc s) + 1 + ucast (jt i) < (word_of_int len :: u32)"
      "word_of_int (pc s) + 1 + ucast (jf i) < (word_of_int len :: u32)"
    using jump_byte [OF s(1,2) assms(2) that(1)] jump_byte [OF s(1,2) assms(2) that(2)] s
    by (simp add: jump_if_def goes_on_def)
qed

text \<open>Every case of the switch, on an instruction that passed the checker.\<close>

lemma switch_ok:
  "list_all (\<lambda>(c, act). \<forall>i s pkt. insn_code i = c \<longrightarrow> validate_insn (word_of_int len) (word_of_int (pc s)) i
      \<longrightarrow> packet_ok pkt \<longrightarrow> len < 2 ^ 31 \<longrightarrow> (BPF_CLASS c = BPF_RET \<or> running len s)
      \<longrightarrow> out_ok len i s (act pkt i s)) bpf_switch"
  unfolding bpf_switch_def
  by (simp add: validate_insn_def validate_ld_def validate_alu_def validate_jmp_def bpf_fields out_ok_jump)

subsection \<open>Runs of a checked program\<close>

lemma validate_nth:
  assumes "bpf_validate f (int (length f))" "n < length f"
  shows "validate_insn (word_of_int (int (length f))) (of_nat n) (f ! n)"
    and "BPF_CLASS (insn_code (f ! n)) \<noteq> BPF_RET \<Longrightarrow> Suc n < length f"
proof -
  have v: "list_all (\<lambda>n. validate_insn (word_of_int (int (length f))) (of_nat n) (f ! n)) [0..<length f]"
    "BPF_CLASS (insn_code (f ! (length f - 1))) = BPF_RET" "0 < length f"
    using assms(1) by (auto simp: bpf_validate_def nat_minus_as_int)
  show "validate_insn (word_of_int (int (length f))) (of_nat n) (f ! n)"
    using v(1) assms(2) by (simp add: list_all_iff)
  show "Suc n < length f" if "BPF_CLASS (insn_code (f ! n)) \<noteq> BPF_RET"
  proof (rule ccontr)
    assume "\<not> Suc n < length f"
    then have "n = length f - 1" using assms(2) by simp
    then show False using v(2) that by simp
  qed
qed

lemma step_ok:
  assumes v: "bpf_validate f (int (length f))" "length f < 2 ^ 31" and pkt: "packet_ok pkt"
    and s: "length (mem s) = BPF_MEMWORDS" "0 \<le> pc s" "pc s < int (length f)"
  shows "out_ok (int (length f)) (f ! nat (pc s)) s (bpf_step f pkt s)"
proof -
  let ?n = "nat (pc s)" let ?i = "f ! ?n"
  have n: "?n < length f" "(of_nat ?n :: u32) = word_of_int (pc s)" using s by (simp_all add: nat_less_iff)
  have step: "bpf_step f pkt s = (case map_of bpf_switch (insn_code ?i) of None \<Rightarrow> Abort | Some act \<Rightarrow> act pkt ?i s)"
    using s by (simp add: bpf_step_def Let_def)
  show ?thesis
  proof (cases "map_of bpf_switch (insn_code ?i)")
    case None
    then have "unknown ?i" by (simp add: unknown_def map_of_eq_None_iff)
    then show ?thesis using step None by simp
  next
    case (Some act)
    have "running (int (length f)) s" if "BPF_CLASS (insn_code ?i) \<noteq> BPF_RET"
    proof -
      have "Suc ?n < length f" by (rule validate_nth(2) [OF v(1) n(1) that])
      then show ?thesis using s by (simp add: running_def)
    qed
    then have "BPF_CLASS (insn_code ?i) = BPF_RET \<or> running (int (length f)) s" by blast
    moreover have "validate_insn (word_of_int (int (length f))) (word_of_int (pc s)) ?i"
      using validate_nth(1) [OF v(1) n(1)] n(2) by simp
    moreover have "int (length f) < 2 ^ 31" using v(2) by simp
    ultimately have "out_ok (int (length f)) ?i s (act pkt ?i s)"
      using switch_ok [of "int (length f)"] map_of_SomeD [OF Some] pkt unfolding list_all_iff by fast
    then show ?thesis using Some step by simp
  qed
qed

text \<open>The invariant of the loop, at its head.\<close>

definition bpf_inv :: "bpf_insn list \<Rightarrow> bpf_state \<Rightarrow> bool" where
  "bpf_inv f s \<longleftrightarrow> length (mem s) = BPF_MEMWORDS \<and> 0 \<le> pc s + 1 \<and> pc s + 1 < int (length f)"

lemma inv_start: "bpf_validate f (int (length f)) \<Longrightarrow> length mem0 = BPF_MEMWORDS \<Longrightarrow> bpf_inv f (bpf_start mem0)"
  by (simp add: bpf_inv_def bpf_start_def bpf_validate_def)

lemma loop_step:
  assumes v: "bpf_validate f (int (length f))" "length f < 2 ^ 31" and pkt: "packet_ok pkt" and s: "bpf_inv f s"
  obtains s' i where "bpf_step f pkt (s\<lparr>pc := pc s + 1\<rparr>) = Continue s'" "bpf_inv f s'" "i \<in> set f" "pc s < pc s' \<or> backward i"
  | r where "bpf_step f pkt (s\<lparr>pc := pc s + 1\<rparr>) = Return r"
  | i where "bpf_step f pkt (s\<lparr>pc := pc s + 1\<rparr>) = Abort" "i \<in> set f" "unknown i"
  | i where "bpf_step f pkt (s\<lparr>pc := pc s + 1\<rparr>) = Undefined" "i \<in> set f" "wide_shift i"
proof -
  let ?s = "s\<lparr>pc := pc s + 1\<rparr>" let ?i = "f ! nat (pc s + 1)"
  have i: "?i \<in> set f" using s by (intro nth_mem) (auto simp: bpf_inv_def)
  have "out_ok (int (length f)) ?i ?s (bpf_step f pkt ?s)"
    using step_ok [OF v pkt, of ?s] s by (simp add: bpf_inv_def)
  then show ?thesis
    using that(1) [OF _ _ i] that(2) that(3,4) [OF _ i]
    by (cases "bpf_step f pkt ?s") (auto simp: goes_on_def bpf_inv_def)
qed

lemma loop_safe:
  assumes v: "bpf_validate f (int (length f))" "length f < 2 ^ 31" and pkt: "packet_ok pkt"
  shows "bpf_inv f s \<Longrightarrow> bpf_loop n f pkt s \<noteq> Some Fault
    \<and> (bpf_loop n f pkt s = Some Abort \<longrightarrow> (\<exists>i \<in> set f. unknown i))
    \<and> (bpf_loop n f pkt s = Some Undefined \<longrightarrow> (\<exists>i \<in> set f. wide_shift i))
    \<and> bpf_loop n f pkt s \<noteq> Some (Continue s1)"
proof (induction n arbitrary: s)
  case (Suc n)
  show ?case by (rule loop_step [OF v pkt Suc.prems]) (use Suc.IH in auto)
qed simp

lemma loop_ends:
  assumes v: "bpf_validate f (int (length f))" "length f < 2 ^ 31" and pkt: "packet_ok pkt"
    and fwd: "\<forall>i \<in> set f. \<not> backward i"
  shows "bpf_inv f s \<Longrightarrow> int (length f) - 1 - pc s \<le> int n \<Longrightarrow> \<exists>out. bpf_loop n f pkt s = Some out"
proof (induction n arbitrary: s)
  case 0
  then show ?case by (simp add: bpf_inv_def)
next
  case (Suc n)
  show ?case
  proof (rule loop_step [OF v pkt Suc.prems(1)])
    fix s' i assume a: "bpf_step f pkt (s\<lparr>pc := pc s + 1\<rparr>) = Continue s'" "bpf_inv f s'" "i \<in> set f" "pc s < pc s' \<or> backward i"
    then have "int (length f) - 1 - pc s' \<le> int n" using fwd Suc.prems(2) by auto
    then show ?thesis using a Suc.IH [of s'] by auto
  qed auto
qed

text \<open>
  C2. bpf_validate makes a filter safe to run: on every packet of which at least buflen bytes are
  there, and however many instructions run, a program that passes the checker never fetches an
  instruction outside the program, never reads or writes mem or the packet out of range and never
  divides by zero. It reaches abort() only through an opcode the interpreter does not have, and
  an undefined shift only through a shift by a constant of 32 or more.
\<close>

theorem bpf_validate_safe:
  assumes "bpf_validate f (int (length f))" "length f < 2 ^ 31"
    and "unat (buflen pkt) \<le> length (pdata pkt)" "length mem0 = BPF_MEMWORDS"
  shows "bpf_filter n (Some f) pkt mem0 = None
    \<or> (\<exists>r. bpf_filter n (Some f) pkt mem0 = Some (Return r))
    \<or> bpf_filter n (Some f) pkt mem0 = Some Abort \<and> (\<exists>i \<in> set f. unknown i)
    \<or> bpf_filter n (Some f) pkt mem0 = Some Undefined \<and> (\<exists>i \<in> set f. wide_shift i)"
proof -
  have "packet_ok pkt" using assms(3) by (simp add: packet_ok_def)
  note loop_safe [OF assms(1,2) this inv_start [OF assms(1,4)], of n]
  then show ?thesis
    unfolding bpf_filter_def by (cases "bpf_loop n f pkt (bpf_start mem0)"; cases "the (bpf_loop n f pkt (bpf_start mem0))") auto
qed

text \<open>The filter for IPv4 over Ethernet, and a packet for it.\<close>

definition ip_filter :: "bpf_insn list" where
  "ip_filter =
    [\<lparr>insn_code = 0x28, jt = 0, jf = 0, insn_k = 12\<rparr>,
     \<lparr>insn_code = 0x15, jt = 0, jf = 1, insn_k = 0x800\<rparr>,
     \<lparr>insn_code = 0x06, jt = 0, jf = 0, insn_k = 0x40000\<rparr>,
     \<lparr>insn_code = 0x06, jt = 0, jf = 0, insn_k = 0\<rparr>]"

definition ip_packet :: packet where
  "ip_packet = \<lparr>pdata = replicate 12 0 @ [8, 0, 0x45], wirelen = 64, buflen = 15\<rparr>"

lemma ip_filter_valid: "bpf_validate ip_filter (int (length ip_filter))" "length ip_filter = 4"
  by (simp_all add: ip_filter_def bpf_validate_def validate_insn_def validate_ld_def validate_jmp_def bpf_fields upt_rec)

theorem bpf_validate_safe_witness:
  "bpf_filter 4 (Some ip_filter) ip_packet (replicate 16 0) \<noteq> Some Fault"
  using bpf_validate_safe [of ip_filter ip_packet "replicate 16 0" 4] ip_filter_valid
  by (auto simp: ip_packet_def BPF_MEMWORDS_def)

text \<open>
  C24. A checked program without backward jumps, unknown opcodes and over-wide constant shifts
  returns a verdict, after at most as many instructions as the program has.
\<close>

theorem bpf_validate_returns:
  assumes "bpf_validate f (int (length f))" "length f < 2 ^ 31"
    and "unat (buflen pkt) \<le> length (pdata pkt)" "length mem0 = BPF_MEMWORDS"
    and "list_all (\<lambda>i. \<not> backward i \<and> \<not> unknown i \<and> \<not> wide_shift i) f" "length f \<le> n"
  shows "\<exists>r. bpf_filter n (Some f) pkt mem0 = Some (Return r)"
proof -
  have pkt: "packet_ok pkt" using assms(3) by (simp add: packet_ok_def)
  have f: "\<forall>i \<in> set f. \<not> backward i" "\<not> (\<exists>i \<in> set f. unknown i)" "\<not> (\<exists>i \<in> set f. wide_shift i)"
    using assms(5) by (auto simp: list_all_iff)
  note inv = inv_start [OF assms(1,4)]
  obtain out where e: "bpf_loop n f pkt (bpf_start mem0) = Some out"
    using loop_ends [OF assms(1,2) pkt f(1) inv, of n] assms(6) by (auto simp: bpf_start_def)
  then show ?thesis
    using loop_safe [OF assms(1,2) pkt inv, of n] f(2,3) by (cases out) (auto simp: bpf_filter_def)
qed

lemma ip_filter_plain: "list_all (\<lambda>i. \<not> backward i \<and> \<not> unknown i \<and> \<not> wide_shift i) ip_filter"
  by (simp add: ip_filter_def backward_def unknown_def wide_shift_def bpf_switch_def)

theorem bpf_validate_returns_witness: "\<exists>r. bpf_filter 4 (Some ip_filter) ip_packet (replicate 16 0) = Some (Return r)"
  using bpf_validate_returns [of ip_filter ip_packet "replicate 16 0" 4] ip_filter_valid ip_filter_plain
  by (simp add: ip_packet_def BPF_MEMWORDS_def)

text \<open>
  C25. The run-time checks of the packet loads are exact although they are made in wrapping 32-bit
  arithmetic: a load of n bytes at offset k, or at X + k, rejects the packet exactly when some of
  the n bytes lie past the end of the buffer, with the sum taken over the integers, and
  otherwise puts the big-endian value of these bytes into the accumulator.
\<close>

theorem bpf_loads_exact:
  assumes "unat (buflen pkt) \<le> length (pdata pkt)"
  shows "ld_w_abs pkt i s = (if unat (insn_k i) + 4 \<le> unat (buflen pkt)
      then Continue (s\<lparr>regA := EXTRACT_LONG pkt (unat (insn_k i))\<rparr>) else Return 0)
    \<and> ld_h_abs pkt i s = (if unat (insn_k i) + 2 \<le> unat (buflen pkt)
      then Continue (s\<lparr>regA := EXTRACT_SHORT pkt (unat (insn_k i))\<rparr>) else Return 0)
    \<and> ld_b_abs pkt i s = (if unat (insn_k i) + 1 \<le> unat (buflen pkt)
      then Continue (s\<lparr>regA := byte_at pkt (unat (insn_k i))\<rparr>) else Return 0)
    \<and> ld_w_ind pkt i s = (if unat (regX s) + unat (insn_k i) + 4 \<le> unat (buflen pkt)
      then Continue (s\<lparr>regA := EXTRACT_LONG pkt (unat (regX s) + unat (insn_k i))\<rparr>) else Return 0)
    \<and> ld_h_ind pkt i s = (if unat (regX s) + unat (insn_k i) + 2 \<le> unat (buflen pkt)
      then Continue (s\<lparr>regA := EXTRACT_SHORT pkt (unat (regX s) + unat (insn_k i))\<rparr>) else Return 0)
    \<and> ld_b_ind pkt i s = (if unat (regX s) + unat (insn_k i) + 1 \<le> unat (buflen pkt)
      then Continue (s\<lparr>regA := byte_at pkt (unat (regX s) + unat (insn_k i))\<rparr>) else Return 0)"
proof -
  have abs: "(if unat (buflen pkt) < unat j + n then Return 0 else packet_read n ext j pkt s)
      = (if unat j + n \<le> unat (buflen pkt) then Continue (s\<lparr>regA := ext pkt (unat j)\<rparr>) else Return 0)" for n ext j
    using assms by (simp add: packet_read_def not_less)
  have ind: "(if unat (buflen pkt) < unat x + unat j + n then Return 0 else packet_read n ext (x + j) pkt s)
      = (if unat x + unat j + n \<le> unat (buflen pkt) then Continue (s\<lparr>regA := ext pkt (unat x + unat j)\<rparr>) else Return 0)"
    for n ext j x
    using assms sum_no_wrap [of x j n "buflen pkt"] by (simp add: packet_read_def not_less)
  show ?thesis unfolding load_cases by (intro conjI abs ind)
qed

theorem bpf_loads_exact_witness:
  "ld_h_abs ip_packet (ip_filter ! 0) (bpf_start [])
    = Continue (bpf_start []\<lparr>regA := EXTRACT_SHORT ip_packet 12\<rparr>)"
proof -
  have "unat (buflen ip_packet) = 15" "unat (insn_k (ip_filter ! 0)) = 12" "15 \<le> length (pdata ip_packet)"
    by (simp_all add: ip_packet_def ip_filter_def)
  then show ?thesis using bpf_loads_exact [of ip_packet "ip_filter ! 0" "bpf_start []"] by simp
qed

text \<open>
  C40. What the checker lets through: a program with a jump to itself, which it accepts although its
  comment asks for forward jumps only and which never ends; a program with a load mode that the
  interpreter does not have, which ends in abort(); and a left shift by the constant 32, whose
  result C does not define. The same three runs on every packet.
\<close>

theorem bpf_validate_gaps:
  "bpf_validate [\<lparr>insn_code = 0x05, jt = 0, jf = 0, insn_k = -1\<rparr>, \<lparr>insn_code = 0x06, jt = 0, jf = 0, insn_k = 0\<rparr>] 2
    \<and> bpf_filter n (Some [\<lparr>insn_code = 0x05, jt = 0, jf = 0, insn_k = -1\<rparr>, \<lparr>insn_code = 0x06, jt = 0, jf = 0, insn_k = 0\<rparr>])
        pkt mem0 = None
    \<and> bpf_validate [\<lparr>insn_code = 0xa0, jt = 0, jf = 0, insn_k = 0\<rparr>, \<lparr>insn_code = 0x06, jt = 0, jf = 0, insn_k = 0\<rparr>] 2
    \<and> bpf_filter (Suc n) (Some [\<lparr>insn_code = 0xa0, jt = 0, jf = 0, insn_k = 0\<rparr>, \<lparr>insn_code = 0x06, jt = 0, jf = 0, insn_k = 0\<rparr>])
        pkt mem0 = Some Abort
    \<and> bpf_validate [\<lparr>insn_code = 0x64, jt = 0, jf = 0, insn_k = 32\<rparr>, \<lparr>insn_code = 0x06, jt = 0, jf = 0, insn_k = 0\<rparr>] 2
    \<and> bpf_filter (Suc n) (Some [\<lparr>insn_code = 0x64, jt = 0, jf = 0, insn_k = 32\<rparr>, \<lparr>insn_code = 0x06, jt = 0, jf = 0, insn_k = 0\<rparr>])
        pkt mem0 = Some Undefined"
proof -
  let ?ja = "[\<lparr>insn_code = 0x05, jt = 0, jf = 0, insn_k = -1\<rparr>, \<lparr>insn_code = 0x06, jt = 0, jf = 0, insn_k = 0\<rparr>]"
  have "bpf_loop n ?ja pkt s = None" if "pc s = -1" for s
    using that by (induction n arbitrary: s) (simp_all add: bpf_step_def bpf_switch_def jump_always_def Let_def)
  then show ?thesis
    by (simp add: bpf_filter_def bpf_start_def bpf_step_def bpf_switch_def alu_shift_k_def bpf_validate_def
        validate_insn_def validate_ld_def validate_alu_def validate_jmp_def bpf_fields upt_rec Let_def)
qed

end
