(* ===== verification/Radix64.thy ===== *)
theory Radix64
  imports C_Stdio
begin

unbundle bit_operations_syntax

text \<open>
  Three octets are four sextets: the arithmetic both encodings of uuencode rest on, the
  conversion of the masks and shifts in the C code to it, and the interface of a printable
  alphabet of 64 digits as a locale.
\<close>

subsection \<open>Masks and shifts\<close>

lemma and_masks:
  fixes x :: int
  shows "x AND 63 = x mod 64" "x AND 15 = x mod 16" "x AND 3 = x mod 4"
proof -
  have "x AND mask n = x mod 2 ^ n" for n :: nat by (simp add: take_bit_eq_mask [symmetric] take_bit_eq_mod)
  from this [of 6] this [of 4] this [of 2]
  show "x AND 63 = x mod 64" "x AND 15 = x mod 16" "x AND 3 = x mod 4"
    by (simp_all add: mask_eq_exp_minus_1)
qed

lemma and_high_masks:
  fixes x :: int
  shows "push_bit 4 x AND 48 = (x mod 4) * 16" "push_bit 2 x AND 60 = (x mod 16) * 4"
proof -
  have "push_bit 4 x AND 48 = push_bit 4 (x AND 3)" "push_bit 2 x AND 60 = push_bit 2 (x AND 15)"
    by (simp_all add: push_bit_and)
  then show "push_bit 4 x AND 48 = (x mod 4) * 16" "push_bit 2 x AND 60 = (x mod 16) * 4"
    by (simp_all add: and_masks push_bit_eq_mult)
qed

lemma or_add:
  fixes a b :: int
  assumes "0 \<le> b" "b < 2 ^ n"
  shows "(a * 2 ^ n) OR b = a * 2 ^ n + b"
proof -
  have "push_bit n a OR b = push_bit n a + b"
  proof (rule disjunctive_add [symmetric])
    fix m
    have "take_bit n b = b" using assms by (simp add: take_bit_int_eq_self)
    then show "\<not> bit (push_bit n a) m \<or> \<not> bit b m" by (metis bit_push_bit_iff bit_take_bit_iff linorder_not_le)
  qed
  then show ?thesis by (simp add: push_bit_eq_mult)
qed

lemmas or_adds = or_add [of _ 2, simplified] or_add [of _ 4, simplified] or_add [of _ 6, simplified]

lemma shift_div:
  fixes x :: int
  shows "m \<noteq> 0 \<Longrightarrow> (x - q * m) div m = x div m - q" "(x - q * m) mod m = x mod m"
  using div_mult_self1 [of m x "- q"] mod_mult_self1 [of x "- q" m] by (simp_all add: algebra_simps)

lemma shift_256:
  fixes x :: int
  shows "(x - 256) div 4 = x div 4 - 64" "(x - 256) div 16 = x div 16 - 16" "(x - 256) div 64 = x div 64 - 4"
    "(x - 256) mod 4 = x mod 4" "(x - 256) mod 16 = x mod 16" "(x - 256) mod 64 = x mod 64"
proof -
  show "(x - 256) div 4 = x div 4 - 64" using shift_div(1) [of 4 x 64] by simp
  show "(x - 256) div 16 = x div 16 - 16" using shift_div(1) [of 16 x 16] by simp
  show "(x - 256) div 64 = x div 64 - 4" using shift_div(1) [of 64 x 4] by simp
  show "(x - 256) mod 4 = x mod 4" using shift_div(2) [of x 64 4] by simp
  show "(x - 256) mod 16 = x mod 16" using shift_div(2) [of x 16 16] by simp
  show "(x - 256) mod 64 = x mod 64" using shift_div(2) [of x 4 64] by simp
qed

subsection \<open>Octets and sextets\<close>

definition sextets :: "octet \<Rightarrow> octet \<Rightarrow> octet \<Rightarrow> int list" where
  "sextets a b c =
    [uint a div 4, (uint a mod 4) * 16 + uint b div 16, (uint b mod 16) * 4 + uint c div 64, uint c mod 64]"

fun octets :: "int list \<Rightarrow> octet list" where
  "octets [u, v, w, x] =
    [word_of_int (u * 4 + v div 16), word_of_int ((v mod 16) * 16 + w div 4), word_of_int ((w mod 4) * 64 + x)]"
| "octets _ = []"

lemma uint_octet: "0 \<le> uint (a :: octet)" "uint (a :: octet) < 256"
  using uint_bounded [of a] by simp_all

lemma uint_parts:
  "0 \<le> uint (a :: octet) div 4" "uint (a :: octet) div 4 < 64"
  "0 \<le> uint (a :: octet) div 16" "uint (a :: octet) div 16 < 16"
  "0 \<le> uint (a :: octet) div 64" "uint (a :: octet) div 64 < 4"
  using uint_octet [of a] by (simp_all add: pos_imp_zdiv_nonneg_iff)

lemma mod_parts:
  fixes x :: int
  shows "0 \<le> x mod 4" "x mod 4 < 4" "0 \<le> x mod 16" "x mod 16 < 16" "0 \<le> x mod 64" "x mod 64 < 64"
  by simp_all

lemma sextets_range: "v \<in> set (sextets a b c) \<Longrightarrow> 0 \<le> v \<and> v < 64"
proof -
  have r: "0 \<le> p * 16 + q \<and> p * 16 + q < 64" if "0 \<le> p" "p < 4" "0 \<le> q" "q < 16" for p q :: int
    using that by linarith
  have s: "0 \<le> p * 4 + q \<and> p * 4 + q < 64" if "0 \<le> p" "p < 16" "0 \<le> q" "q < 4" for p q :: int
    using that by linarith
  assume "v \<in> set (sextets a b c)"
  then consider "v = uint a div 4" | "v = (uint a mod 4) * 16 + uint b div 16"
    | "v = (uint b mod 16) * 4 + uint c div 64" | "v = uint c mod 64"
    by (auto simp: sextets_def)
  then show ?thesis
    by cases (simp_all only: uint_parts mod_parts r s simp_thms)
qed

lemma octets_sextets: "octets (sextets a b c) = [a, b, c]"
proof -
  have "uint a div 4 * 4 + ((uint a mod 4) * 16 + uint b div 16) div 16 = uint a"
    "(((uint a mod 4) * 16 + uint b div 16) mod 16) * 16 + ((uint b mod 16) * 4 + uint c div 64) div 4 = uint b"
    "(((uint b mod 16) * 4 + uint c div 64) mod 4) * 64 + uint c mod 64 = uint c"
    using uint_parts [of b] uint_parts [of c] by simp_all
  then show ?thesis unfolding sextets_def octets.simps by (simp only: word_of_int_uint)
qed

subsection \<open>Alphabets\<close>

locale alphabet =
  fixes digit :: "int \<Rightarrow> char" and undigit :: "char \<Rightarrow> int"
  assumes undigit_digit: "0 \<le> v \<Longrightarrow> v < 64 \<Longrightarrow> undigit (digit v) = v"
    and digit_text: "0 \<le> v \<Longrightarrow> v < 64 \<Longrightarrow> digit v \<notin> {NUL, NL}"
begin

definition group :: "octet \<Rightarrow> octet \<Rightarrow> octet \<Rightarrow> string" where
  "group a b c = map digit (sextets a b c)"

lemma length_group: "length (group a b c) = 4"
  by (simp add: group_def sextets_def)

lemma group_text: "NUL \<notin> set (group a b c)" "NL \<notin> set (group a b c)"
  using digit_text sextets_range [of _ a b c] unfolding group_def set_map by (metis imageE insertI1 insertI2)+

lemma group_undigit: "map undigit (group a b c) = sextets a b c"
  using undigit_digit sextets_range [of _ a b c] by (simp add: group_def map_idI)

lemma group_octets: "octets (map undigit (group a b c)) = [a, b, c]"
  by (simp only: group_undigit octets_sextets)

end

end
