(* ===== verification/B64.thy ===== *)
theory B64
  imports Radix64
begin

unbundle bit_operations_syntax

text \<open>
  base64.c, which basic_cmds/uuencode and basic_cmds/uudecode each have: b64_ntop and b64_pton
  with their buffer sizes, the assertions and the error returns. b64_pton is modelled with a
  target buffer, as its caller gives one.
\<close>

definition Base64 :: string where
  "Base64 = ''ABCDEFGHIJKLMNOPQRSTUVWXYZabcdefghijklmnopqrstuvwxyz0123456789+/''"

definition Pad64 :: char where "Pad64 = CHR ''=''"

datatype 'a b64 = Done 'a | Failed | Aborted

fun b64_bind :: "'a b64 \<Rightarrow> ('a \<Rightarrow> 'b b64) \<Rightarrow> 'b b64" where
  "b64_bind (Done x) f = f x"
| "b64_bind Failed f = Failed"
| "b64_bind Aborted f = Aborted"

subsection \<open>Encoding\<close>

text \<open>The four output values of three input bytes, as they are stored into u_char variables.\<close>

definition ntop_outs :: "octet \<Rightarrow> octet \<Rightarrow> octet \<Rightarrow> octet list" where
  "ntop_outs a b c =
    [word_of_int (drop_bit 2 (uint a)),
     word_of_int (push_bit 4 (uint a AND 3) + drop_bit 4 (uint b)),
     word_of_int (push_bit 2 (uint b AND 15) + drop_bit 6 (uint c)),
     word_of_int (uint c AND 63)]"

definition b64_char :: "octet \<Rightarrow> char" where "b64_char v = Base64 ! unat v"

fun ntop_loop :: "octet list \<Rightarrow> string \<Rightarrow> nat \<Rightarrow> (octet list \<times> string) b64" where
  "ntop_loop (a # b # c # src) target targsize =
     (let outs = ntop_outs a b c in
      if \<not> list_all (\<lambda>v. v < 64) outs then Aborted
      else if length target + 4 > targsize then Failed
      else ntop_loop src (target @ map b64_char outs) targsize)"
| "ntop_loop src target targsize = Done (src, target)"

definition ntop_pad :: "octet list \<Rightarrow> string \<Rightarrow> nat \<Rightarrow> string b64" where
  "ntop_pad src target targsize =
     (if src = [] then Done target
      else let a = src ! 0; b = (if length src = 1 then 0 else src ! 1); outs = ntop_outs a b 0 in
        if \<not> list_all (\<lambda>v. v < 64) (take 3 outs) then Aborted
        else if length target + 4 > targsize then Failed
        else Done (target @ [b64_char (outs ! 0), b64_char (outs ! 1),
          if length src = 1 then Pad64 else b64_char (outs ! 2), Pad64]))"

definition b64_ntop :: "octet list \<Rightarrow> nat \<Rightarrow> string b64" where
  "b64_ntop src targsize =
     b64_bind (ntop_loop src [] targsize) (\<lambda>(rest, target).
       b64_bind (ntop_pad rest target targsize) (\<lambda>target.
         if length target \<ge> targsize then Failed else Done target))"

subsection \<open>Decoding\<close>

definition strchr_pos :: "string \<Rightarrow> char \<Rightarrow> int option" where
  "strchr_pos t c = (if c \<in> set t then Some (int (length (takeWhile (\<lambda>x. x \<noteq> c) t))) else None)"

text \<open>The four states of the decoder: the new target, index and state.\<close>

definition pton_store :: "nat \<Rightarrow> int \<Rightarrow> octet list \<Rightarrow> nat \<Rightarrow> (octet list \<times> nat \<times> nat) b64" where
  "pton_store st pos target i =
     (if st = 0 then
        (if i \<ge> length target then Failed else Done (target[i := word_of_int (push_bit 2 pos)], i, 1))
      else if st = 1 then
        (if i + 1 \<ge> length target then Failed
         else Done (target[i := word_of_int (uint (target ! i) OR drop_bit 4 pos),
                           i + 1 := word_of_int (push_bit 4 (pos AND 15))], i + 1, 2))
      else if st = 2 then
        (if i + 1 \<ge> length target then Failed
         else Done (target[i := word_of_int (uint (target ! i) OR drop_bit 2 pos),
                           i + 1 := word_of_int (push_bit 6 (pos AND 3))], i + 1, 3))
      else if st = 3 then
        (if i \<ge> length target then Failed
         else Done (target[i := word_of_int (uint (target ! i) OR pos)], i + 1, 0))
      else Aborted)"

text \<open>The loop gives whether it stopped at a pad character, what follows, and the state.\<close>

fun pton_loop :: "string \<Rightarrow> nat \<Rightarrow> octet list \<Rightarrow> nat \<Rightarrow> (bool \<times> string \<times> nat \<times> octet list \<times> nat) b64" where
  "pton_loop [] st target i = Done (False, [], st, target, i)"
| "pton_loop (ch # src) st target i =
     (if isspace ch then pton_loop src st target i
      else if ch = Pad64 then Done (True, src, st, target, i)
      else case strchr_pos Base64 ch of None \<Rightarrow> Failed
        | Some pos \<Rightarrow> b64_bind (pton_store st pos target i) (\<lambda>(target', i', st'). pton_loop src st' target' i'))"

definition pton_tail :: "string \<Rightarrow> octet list \<Rightarrow> nat \<Rightarrow> (nat \<times> octet list) b64" where
  "pton_tail src target i =
     (if \<not> list_all isspace src then Failed else if target ! i \<noteq> 0 then Failed else Done (i, target))"

definition pton_end :: "bool \<Rightarrow> string \<Rightarrow> nat \<Rightarrow> octet list \<Rightarrow> nat \<Rightarrow> (nat \<times> octet list) b64" where
  "pton_end pad src st target i =
     (if pad then
        (if st = 0 \<or> st = 1 then Failed
         else if st = 2 then
           (let src' = dropWhile isspace src in
            if src' = [] \<or> hd src' \<noteq> Pad64 then Failed else pton_tail (tl src') target i)
         else pton_tail src target i)
      else if st \<noteq> 0 then Failed else Done (i, target))"

definition b64_pton :: "string \<Rightarrow> octet list \<Rightarrow> (nat \<times> octet list) b64" where
  "b64_pton src target =
     b64_bind (pton_loop src 0 target 0) (\<lambda>(pad, rest, st, target', i). pton_end pad rest st target' i)"

subsection \<open>The alphabet\<close>

definition b64_digit :: "int \<Rightarrow> char" where "b64_digit v = Base64 ! nat v"

definition b64_value :: "char \<Rightarrow> int" where
  "b64_value c = (case strchr_pos Base64 c of None \<Rightarrow> -1 | Some v \<Rightarrow> v)"

lemma b64_alphabet:
  assumes "0 \<le> v" "v < 64"
  shows "strchr_pos Base64 (b64_digit v) = Some v" "\<not> isspace (b64_digit v)" "b64_digit v \<noteq> Pad64"
    "b64_digit v \<noteq> NUL" "b64_digit v \<noteq> NL" "isalnum (b64_digit v) \<or> b64_digit v = CHR ''+'' \<or> b64_digit v = CHR ''/''"
proof -
  have "list_all (\<lambda>v. strchr_pos Base64 (b64_digit v) = Some v \<and> \<not> isspace (b64_digit v) \<and> b64_digit v \<noteq> Pad64
    \<and> b64_digit v \<noteq> NUL \<and> b64_digit v \<noteq> NL
    \<and> (isalnum (b64_digit v) \<or> b64_digit v = CHR ''+'' \<or> b64_digit v = CHR ''/'')) [0..63]"
    by code_simp
  then show "strchr_pos Base64 (b64_digit v) = Some v" "\<not> isspace (b64_digit v)" "b64_digit v \<noteq> Pad64"
    "b64_digit v \<noteq> NUL" "b64_digit v \<noteq> NL" "isalnum (b64_digit v) \<or> b64_digit v = CHR ''+'' \<or> b64_digit v = CHR ''/''"
    using assms by (simp_all add: list_all_iff)
qed

interpretation b64: alphabet b64_digit b64_value
  using b64_alphabet by unfold_locales (simp_all add: b64_value_def)

subsection \<open>Correctness\<close>

lemma uint_of_small: "0 \<le> x \<Longrightarrow> x < 256 \<Longrightarrow> uint (word_of_int x :: octet) = x"
  by (simp add: uint_word_of_int)

lemma ntop_outs_sextets: "map uint (ntop_outs a b c) = sextets a b c"
proof -
  have "drop_bit 2 (uint a) = uint a div 4" "drop_bit 4 (uint b) = uint b div 16" "drop_bit 6 (uint c) = uint c div 64"
    "push_bit 4 (uint a AND 3) = (uint a mod 4) * 16" "push_bit 2 (uint b AND 15) = (uint b mod 16) * 4"
    by (simp_all add: drop_bit_eq_div push_bit_eq_mult and_masks)
  then have "ntop_outs a b c = map word_of_int (sextets a b c)"
    by (simp add: ntop_outs_def sextets_def and_masks)
  moreover have "map (\<lambda>v. uint (word_of_int v :: octet)) (sextets a b c) = map (\<lambda>v. v) (sextets a b c)"
    by (rule map_cong [OF refl], rule uint_of_small) (use sextets_range in fastforce)+
  ultimately show ?thesis by (simp add: comp_def)
qed

lemma b64_char_digit: "b64_char v = b64_digit (uint v)"
  by (simp add: b64_char_def b64_digit_def)

lemma ntop_outs_group: "map b64_char (ntop_outs a b c) = b64.group a b c"
  unfolding b64.group_def ntop_outs_sextets [symmetric] by (simp add: b64_char_digit)

lemma ntop_outs_assert: "list_all (\<lambda>v. v < 64) (ntop_outs a b c)"
proof -
  have "uint v < 64" if "v \<in> set (ntop_outs a b c)" for v
  proof -
    have "uint v \<in> set (map uint (ntop_outs a b c))" using that by simp
    then show ?thesis using sextets_range [of "uint v" a b c] by (simp only: ntop_outs_sextets)
  qed
  then show ?thesis by (simp add: list_all_iff word_less_def)
qed

text \<open>The text of a byte string.\<close>

fun b64_text :: "octet list \<Rightarrow> string" where
  "b64_text [] = []"
| "b64_text [a] = take 2 (b64.group a 0 0) @ [Pad64, Pad64]"
| "b64_text [a, b] = take 3 (b64.group a b 0) @ [Pad64]"
| "b64_text (a # b # c # src) = b64.group a b c @ b64_text src"

lemma length_b64_text: "length (b64_text src) = 4 * ((length src + 2) div 3)"
proof (induction src rule: b64_text.induct)
  case (4 a b c src)
  have "(5 + length src) div 3 = (2 + length src) div 3 + 1" by presburger
  then show ?case using 4 by (simp add: b64.length_group)
qed (simp_all add: b64.length_group)

lemma ntop_loop_text:
  "(\<exists>rest pre. ntop_loop src target sz = Done (rest, pre) \<and> length rest < 3 \<and> pre @ b64_text rest = target @ b64_text src)
    \<or> ntop_loop src target sz = Failed \<and> sz < length target + length (b64_text src)"
proof (induction src target sz rule: ntop_loop.induct)
  case (1 a b c src target sz)
  show ?case
  proof (cases "length target + 4 > sz")
    case True
    then show ?thesis
      using ntop_outs_assert [of a b c] by (simp add: b64.length_group)
  next
    case False
    have e: "ntop_loop (a # b # c # src) target sz = ntop_loop src (target @ b64.group a b c) sz"
      using False ntop_outs_assert [of a b c] by (simp add: Let_def ntop_outs_group)
    have i: "(\<exists>rest pre. ntop_loop src (target @ b64.group a b c) sz = Done (rest, pre) \<and> length rest < 3
        \<and> pre @ b64_text rest = (target @ b64.group a b c) @ b64_text src)
      \<or> ntop_loop src (target @ b64.group a b c) sz = Failed
        \<and> sz < length (target @ b64.group a b c) + length (b64_text src)"
      using 1 [OF refl] False ntop_outs_assert [of a b c] by (simp add: ntop_outs_group)
    show ?thesis unfolding e using i by (auto simp: b64.length_group)
  qed
qed (auto simp: b64.length_group)

lemma short_cases:
  assumes "length xs < 3"
  obtains "xs = []" | a where "xs = [a]" | a b where "xs = [a, b]"
  using assms by (cases xs; cases "tl xs"; cases "tl (tl xs)") auto

lemma ntop_pad_text:
  "length rest < 3 \<Longrightarrow> ntop_pad rest target sz =
     (if rest \<noteq> [] \<and> sz < length target + 4 then Failed else Done (target @ b64_text rest))"
proof -
  assume r: "length rest < 3"
  have as: "list_all (\<lambda>v. v < 64) (take 3 (ntop_outs a b 0))" for a b
    using ntop_outs_assert [of a b 0] by (auto simp: list_all_iff dest: in_set_takeD)
  have ch: "b64_char (ntop_outs a b 0 ! n) = b64.group a b 0 ! n" if "n < 4" for a b n
    unfolding ntop_outs_group [symmetric] using that by (subst nth_map) (simp_all add: ntop_outs_def)
  have t: "take 2 (b64.group a b c) = [b64.group a b c ! 0, b64.group a b c ! 1]"
    "take 3 (b64.group a b c) = [b64.group a b c ! 0, b64.group a b c ! 1, b64.group a b c ! 2]" for a b c
    by (simp_all add: b64.group_def sextets_def)
  show ?thesis
    by (rule short_cases [OF r]) (use as ch in \<open>auto simp: ntop_pad_def Let_def t\<close>)
qed

lemma ntop_pad_length: "length rest < 3 \<Longrightarrow> rest \<noteq> [] \<Longrightarrow> length (b64_text rest) = 4"
  by (rule short_cases [of rest]) (simp_all add: b64.length_group)

lemma b64_ntop_text: "b64_ntop src sz = (if length (b64_text src) < sz then Done (b64_text src) else Failed)"
  using ntop_loop_text [of src "[]" sz]
proof (elim disjE exE conjE)
  fix rest pre
  assume l: "ntop_loop src [] sz = Done (rest, pre)" and r: "length rest < 3" and t: "pre @ b64_text rest = [] @ b64_text src"
  have len: "length (b64_text src) = length pre + length (b64_text rest)" using arg_cong [OF t, of length] by simp
  show ?thesis
    using l t len ntop_pad_length [OF r] by (auto simp: b64_ntop_def ntop_pad_text [OF r])
qed (simp add: b64_ntop_def)

subsection \<open>Decoding what was encoded\<close>

text \<open>One digit in each state, on a target split at the index.\<close>

lemma digit_step:
  "0 \<le> v \<Longrightarrow> v < 64 \<Longrightarrow> pton_loop (b64_digit v # src) st target i =
     b64_bind (pton_store st v target i) (\<lambda>(target', i', st'). pton_loop src st' target' i')"
  using b64_alphabet [of v] by simp

lemma pton_store_at:
  "pton_store 0 v (pre @ x # post) (length pre) = Done (pre @ word_of_int (push_bit 2 v) # post, length pre, 1)"
  "pton_store 1 v (pre @ x # y # post) (length pre) =
     Done (pre @ word_of_int (uint x OR drop_bit 4 v) # word_of_int (push_bit 4 (v AND 15)) # post, length pre + 1, 2)"
  "pton_store 2 v (pre @ x # y # z # post) (length pre + 1) =
     Done (pre @ x # word_of_int (uint y OR drop_bit 2 v) # word_of_int (push_bit 6 (v AND 3)) # post, length pre + 2, 3)"
  "pton_store 3 v (pre @ x # y # z # post) (length pre + 2) =
     Done (pre @ x # y # word_of_int (uint z OR v) # post, length pre + 3, 0)"
  by (simp_all add: pton_store_def list_update_append nth_append)

text \<open>The bytes put together from two neighbouring digits.\<close>

lemma join_digits:
  assumes "0 \<le> u" "u < 64" "0 \<le> v" "v < 64"
  shows "uint (word_of_int (push_bit 2 u) :: octet) OR drop_bit 4 v = u * 4 + v div 16"
    and "uint (word_of_int (push_bit 4 (u AND 15)) :: octet) OR drop_bit 2 v = (u mod 16) * 16 + v div 4"
    and "uint (word_of_int (push_bit 6 (u AND 3)) :: octet) OR v = (u mod 4) * 64 + v"
proof -
  have "uint (word_of_int (push_bit 2 u) :: octet) = u * 4"
    using assms by (subst uint_of_small) (simp_all add: push_bit_eq_mult)
  moreover have "uint (word_of_int (push_bit 4 (u AND 15)) :: octet) = (u mod 16) * 16"
    using mod_parts(3,4) [of u] by (subst uint_of_small) (simp_all add: push_bit_eq_mult and_masks)
  moreover have "uint (word_of_int (push_bit 6 (u AND 3)) :: octet) = (u mod 4) * 64"
    using mod_parts(1,2) [of u] by (subst uint_of_small) (simp_all add: push_bit_eq_mult and_masks)
  moreover have "0 \<le> v div 16" "v div 16 < 4" "0 \<le> v div 4" "v div 4 < 16"
    using assms by (simp_all add: pos_imp_zdiv_nonneg_iff)
  ultimately show "uint (word_of_int (push_bit 2 u) :: octet) OR drop_bit 4 v = u * 4 + v div 16"
    and "uint (word_of_int (push_bit 4 (u AND 15)) :: octet) OR drop_bit 2 v = (u mod 16) * 16 + v div 4"
    and "uint (word_of_int (push_bit 6 (u AND 3)) :: octet) OR v = (u mod 4) * 64 + v"
    using assms by (simp_all add: drop_bit_eq_div or_adds)
qed

lemma sextets_digits:
  obtains u v w x where "sextets a b c = [u, v, w, x]" "octets [u, v, w, x] = [a, b, c]"
    "0 \<le> u" "u < 64" "0 \<le> v" "v < 64" "0 \<le> w" "w < 64" "0 \<le> x" "x < 64"
proof -
  obtain u v w x where e: "sextets a b c = [u, v, w, x]" by (simp add: sextets_def)
  have r: "\<And>t. t \<in> {u, v, w, x} \<Longrightarrow> 0 \<le> t \<and> t < 64" using sextets_range [of _ a b c] by (simp add: e)
  show ?thesis using r octets_sextets [of a b c] by (intro that [OF e]) (simp_all add: e)
qed

lemma pton_group:
  "pton_loop (b64.group a b c @ src) 0 (pre @ x # y # z # post) (length pre)
     = pton_loop src 0 (pre @ a # b # c # post) (length pre + 3)"
proof (rule sextets_digits [of a b c])
  fix t u v w
  assume e: "sextets a b c = [t, u, v, w]" and s: "octets [t, u, v, w] = [a, b, c]"
    and r: "0 \<le> t" "t < 64" "0 \<le> u" "u < 64" "0 \<le> v" "v < 64" "0 \<le> w" "w < 64"
  have o: "word_of_int (t * 4 + u div 16) = a" "word_of_int ((u mod 16) * 16 + v div 4) = b"
    "word_of_int ((v mod 4) * 64 + w) = c" using s by simp_all
  have g: "b64.group a b c @ src = b64_digit t # b64_digit u # b64_digit v # b64_digit w # src"
    by (simp add: b64.group_def e)
  show ?thesis
    unfolding g
    by (simp only: digit_step [OF r(1,2)] digit_step [OF r(3,4)] digit_step [OF r(5,6)] digit_step [OF r(7,8)]
        pton_store_at b64_bind.simps case_prod_conv join_digits [OF r(1-4)] join_digits [OF r(3-6)] join_digits [OF r(5-8)] o)
qed

text \<open>The last, padded group. The bits past the last byte are zero.\<close>

lemma pton_pad1:
  "pton_loop (take 2 (b64.group a 0 0) @ Pad64 # src) 0 (pre @ x # y # post) (length pre)
     = Done (True, src, 2, pre @ a # 0 # post, length pre + 1)"
proof -
  have r: "0 \<le> uint a div 4" "uint a div 4 < 64" "0 \<le> uint a mod 4 * 16" "uint a mod 4 * 16 < 64"
    using uint_parts(1,2) [of a] mod_parts(1,2) [of "uint a"] by simp_all
  have g: "take 2 (b64.group a 0 0) = [b64_digit (uint a div 4), b64_digit (uint a mod 4 * 16)]"
    by (simp add: b64.group_def sextets_def)
  have o: "word_of_int (uint a div 4 * 4 + uint a mod 4 * 16 div 16) = a" "push_bit 4 (uint a mod 4 * 16 AND 15) = 0"
    by (simp_all add: and_masks)
  have p: "\<not> isspace Pad64" by code_simp
  show ?thesis
    unfolding g append_Cons append_Nil
    by (simp only: digit_step [OF r(1,2)] digit_step [OF r(3,4)] pton_store_at b64_bind.simps case_prod_conv
        join_digits [OF r] o) (simp add: p)
qed

lemma pton_pad2:
  "pton_loop (take 3 (b64.group a b 0) @ Pad64 # src) 0 (pre @ x # y # z # post) (length pre)
     = Done (True, src, 3, pre @ a # b # 0 # post, length pre + 2)"
proof (rule sextets_digits [of a b 0])
  fix t u v w
  assume e: "sextets a b 0 = [t, u, v, w]" and s: "octets [t, u, v, w] = [a, b, 0]"
    and r: "0 \<le> t" "t < 64" "0 \<le> u" "u < 64" "0 \<le> v" "v < 64" "0 \<le> w" "w < 64"
  have v: "v = uint b mod 16 * 4" using e by (simp add: sextets_def)
  have o: "word_of_int (t * 4 + u div 16) = a" "word_of_int ((u mod 16) * 16 + v div 4) = b" "push_bit 6 (v AND 3) = 0"
    using s by (simp_all add: v and_masks)
  have g: "take 3 (b64.group a b 0) = [b64_digit t, b64_digit u, b64_digit v]"
    by (simp add: b64.group_def e)
  have p: "\<not> isspace Pad64" by code_simp
  show ?thesis
    unfolding g append_Cons append_Nil
    by (simp only: digit_step [OF r(1,2)] digit_step [OF r(3,4)] digit_step [OF r(5,6)] pton_store_at b64_bind.simps
        case_prod_conv join_digits [OF r(1-4)] join_digits [OF r(3-6)] o) (simp add: p)
qed

lemma pton_spaces: "list_all isspace tail \<Longrightarrow> pton_loop tail st target i = Done (False, [], st, target, i)"
  by (induction tail) auto

lemma pton_text:
  "length src < length post \<Longrightarrow> list_all isspace tail \<Longrightarrow>
     \<exists>post'. b64_bind (pton_loop (b64_text src @ tail) 0 (pre @ post) (length pre))
       (\<lambda>(pad, rest, st, target, i). pton_end pad rest st target i) = Done (length pre + length src, pre @ src @ post')
       \<and> length (src @ post') = length post"
proof (induction src arbitrary: pre post rule: b64_text.induct)
  case 1
  then show ?case by (simp add: pton_spaces pton_end_def)
next
  case (2 a)
  then obtain x y post' where p: "post = x # y # post'" by (cases post; cases "tl post") auto
  have "\<not> isspace Pad64" by code_simp
  then show ?case using 2 pton_pad1 [of a "Pad64 # tail" pre x y post']
    by (simp add: p pton_end_def pton_tail_def nth_append)
next
  case (3 a b)
  then obtain x y z post' where p: "post = x # y # z # post'"
    by (cases post; cases "tl post"; cases "tl (tl post)") auto
  show ?case using 3 pton_pad2 [of a b tail pre x y z post']
    by (simp add: p pton_end_def pton_tail_def nth_append)
next
  case (4 a b c src)
  then obtain x y z post' where p: "post = x # y # z # post'"
    by (cases post; cases "tl post"; cases "tl (tl post)") auto
  show ?case
    using 4(1) [of post' "pre @ [a, b, c]"] 4(2,3) pton_group [of a b c "b64_text src @ tail" pre x y z post']
    by (simp add: p numeral_3_eq_3)
qed

text \<open>
  b64_ntop fails exactly when the target has no room for four characters per started group of
  three bytes and the terminating NUL; otherwise it writes that many characters. Its assertions
  never fail.
\<close>

theorem b64_ntop_fits:
  "b64_ntop src targsize \<noteq> Aborted
    \<and> (b64_ntop src targsize = Failed \<longleftrightarrow> targsize \<le> 4 * ((length src + 2) div 3))
    \<and> (b64_ntop src targsize = Failed \<or> (\<exists>text. b64_ntop src targsize = Done text \<and> length text = 4 * ((length src + 2) div 3)))"
  by (auto simp: b64_ntop_text length_b64_text)

text \<open>
  C28. b64_pton inverts b64_ntop: whatever bytes were encoded, and with white space after the text,
  it returns their number and has stored them at the start of the target, provided the target
  has room for one byte more than the data.
\<close>

theorem b64_roundtrip:
  assumes "b64_ntop src targsize = Done text" "length src < length target" "list_all isspace tail"
  shows "\<exists>post. b64_pton (text @ tail) target = Done (length src, src @ post)"
proof -
  have "text = b64_text src" using assms(1) by (simp add: b64_ntop_text split: if_splits)
  then show ?thesis using pton_text [OF assms(2,3), of "[]"] by (auto simp: b64_pton_def)
qed

theorem b64_roundtrip_witness: "\<exists>post. b64_pton (''TWFuTQ=='' @ [NL]) (replicate 5 0) = Done (4, [77, 97, 110, 77] @ post)"
proof -
  have "b64_ntop [77, 97, 110, 77] 9 = Done ''TWFuTQ==''" "list_all isspace [NL]" by code_simp+
  then show ?thesis using b64_roundtrip [of "[77, 97, 110, 77]" 9 "''TWFuTQ==''" "replicate 5 0" "[NL]"] by (simp add: eval_nat_numeral)
qed

end
