(* ===== verification/Uuencode.thy ===== *)
theory Uuencode
  imports B64
begin

unbundle bit_operations_syntax

text \<open>
  basic_cmds/uuencode/uuencode.c and basic_cmds/uudecode/uudecode.c: the encoders, the search for
  the header line and the decoders. Files are lists: text of characters, data of bytes. A plain
  char is signed. Write errors are not modelled, and what decode2 does to open the output file is
  left out. setmode and getpwnam of the C library are arguments of decode2.
\<close>

subsection \<open>uuencode\<close>

definition ENC :: "int \<Rightarrow> char" where
  "ENC c = (if c \<noteq> 0 then char_of (nat ((c AND 63) + 32)) else CHR ''`'')"

definition uu_group :: "octet \<Rightarrow> octet \<Rightarrow> octet \<Rightarrow> string" where
  "uu_group a b c =
    [ENC (drop_bit 2 (sint a)),
     ENC ((push_bit 4 (sint a) AND 48) OR (drop_bit 4 (sint b) AND 15)),
     ENC ((push_bit 2 (sint b) AND 60) OR (drop_bit 6 (sint c) AND 3)),
     ENC (sint c AND 63)]"

fun uu_groups :: "octet list \<Rightarrow> string" where
  "uu_groups [] = []"
| "uu_groups [a] = uu_group a 0 0"
| "uu_groups [a, b] = uu_group a b 0"
| "uu_groups (a # b # c # buf) = uu_group a b c @ uu_groups buf"

function encode_lines :: "octet list \<Rightarrow> string" where
  "encode_lines inp =
     (let buf = take 45 inp in
      if buf = [] then [] else ENC (int (length buf)) # uu_groups buf @ NL # encode_lines (drop 45 inp))"
  by pat_completeness auto
termination by (relation "measure length") auto

declare encode_lines.simps [simp del]

text \<open>The number a \<open>%o\<close> conversion prints.\<close>

fun octal :: "nat \<Rightarrow> string" where
  "octal n = (if n < 8 then [char_of (48 + n)] else octal (n div 8) @ [char_of (48 + n mod 8)])"

declare octal.simps [simp del]

definition encode :: "nat \<Rightarrow> string \<Rightarrow> octet list \<Rightarrow> string" where
  "encode mode name inp =
     ''begin '' @ octal mode @ '' '' @ name @ [NL] @ encode_lines inp @ [ENC 0, NL] @ ''end'' @ [NL]"

definition GROUPS :: nat where "GROUPS = 80 div 4 - 1"

function base64_lines :: "nat \<Rightarrow> octet list \<Rightarrow> string b64" where
  "base64_lines sequence inp =
     (let buf = take 3 inp in
      if buf = [] then Done (if sequence mod GROUPS \<noteq> 0 then [NL] else [])
      else b64_bind (b64_ntop buf 7) (\<lambda>buf2.
        b64_bind (base64_lines (sequence + 1) (drop 3 inp)) (\<lambda>more.
          Done (buf2 @ (if (sequence + 1) mod GROUPS \<noteq> 0 then [] else [NL]) @ more))))"
  by pat_completeness auto
termination by (relation "measure (\<lambda>(q, inp). length inp)") auto

declare base64_lines.simps [simp del]

definition base64_encode :: "nat \<Rightarrow> string \<Rightarrow> octet list \<Rightarrow> string b64" where
  "base64_encode mode name inp =
     b64_bind (base64_lines 0 inp) (\<lambda>body.
       Done (''begin-base64 '' @ octal mode @ '' '' @ name @ [NL] @ body @ ''===='' @ [NL]))"

subsection \<open>uudecode\<close>

definition MAXPATHLEN :: nat where "MAXPATHLEN = 1024"

definition schar :: "char \<Rightarrow> int" where
  "schar c = (if code c < 128 then code c else code c - 256)"

text \<open>The result of uugetline: the buffer after the line was read and the rest of the stream, or
  the value uu_decode returns.\<close>

definition uugetline :: "bool \<Rightarrow> string \<Rightarrow> string \<Rightarrow> (string \<times> string) + int" where
  "uugetline rflag buf inp =
     (case fgets (MAXPATHLEN + 1) inp of
        Some (l, rest) \<Rightarrow> Inl (l @ NUL # drop (length l + 1) buf, rest)
      | None \<Rightarrow> Inr (if rflag then 0 else 1))"

definition checkend :: "string \<Rightarrow> string \<Rightarrow> int" where
  "checkend ptr end_str =
     (let n = length end_str in
      if \<not> is_prefix end_str ptr \<or> \<not> list_all (\<lambda>c. c \<in> {CHR '' '', TAB, CR, NL}) (drop n ptr) then 1 else 0)"

definition DEC :: "char \<Rightarrow> int" where "DEC c = (schar c - 32) AND 63"
definition IS_DEC :: "char \<Rightarrow> bool" where "IS_DEC c \<longleftrightarrow> schar c - 32 \<ge> 0 \<and> schar c - 32 \<le> 63 + 1"

text \<open>The characters of one line: the bytes written, and whether all characters were in range.\<close>

definition uu_byte0 :: "string \<Rightarrow> octet" where
  "uu_byte0 q = word_of_int (push_bit 2 (DEC (q ! 0)) OR drop_bit 4 (DEC (q ! 1)))"
definition uu_byte1 :: "string \<Rightarrow> octet" where
  "uu_byte1 q = word_of_int (push_bit 4 (DEC (q ! 1)) OR drop_bit 2 (DEC (q ! 2)))"
definition uu_byte2 :: "string \<Rightarrow> octet" where
  "uu_byte2 q = word_of_int (push_bit 6 (DEC (q ! 2)) OR DEC (q ! 3))"

fun uu_chars :: "nat \<Rightarrow> string \<Rightarrow> octet list \<times> bool" where
  "uu_chars 0 q = ([], True)"
| "uu_chars (Suc 0) q =
     (if \<not> (IS_DEC (q ! 0) \<and> IS_DEC (q ! 1)) then ([], False) else ([uu_byte0 q], True))"
| "uu_chars (Suc (Suc 0)) q =
     (if \<not> (IS_DEC (q ! 0) \<and> IS_DEC (q ! 1)) then ([], False)
      else if \<not> (IS_DEC (q ! 1) \<and> IS_DEC (q ! 2)) then ([uu_byte0 q], False)
      else ([uu_byte0 q, uu_byte1 q], True))"
| "uu_chars (Suc (Suc (Suc i))) q =
     (if \<not> (IS_DEC (q ! 0) \<and> IS_DEC (q ! 1) \<and> IS_DEC (q ! 2) \<and> IS_DEC (q ! 3)) then ([], False)
      else case uu_chars i (drop 4 q) of (w, ok) \<Rightarrow> (uu_byte0 q # uu_byte1 q # uu_byte2 q # w, ok))"

definition uu_end :: "bool \<Rightarrow> string \<Rightarrow> string \<Rightarrow> int" where
  "uu_end rflag buf inp =
     (case uugetline rflag buf inp of Inr r \<Rightarrow> r | Inl (buf', rest) \<Rightarrow> checkend (cstr buf') ''end'')"

text \<open>The return value and the bytes written.\<close>

function uu_decode :: "bool \<Rightarrow> string \<Rightarrow> string \<Rightarrow> int \<times> octet list" where
  "uu_decode rflag buf inp =
     (case uugetline rflag buf inp of
        Inr r \<Rightarrow> (r, [])
      | Inl (buf', rest) \<Rightarrow>
          (let i = DEC (buf' ! 0) in
           if i \<le> 0 then (uu_end rflag buf' rest, [])
           else case uu_chars (nat i) (tl buf') of
             (w, ok) \<Rightarrow> if \<not> ok then (1, w)
               else (case uu_decode rflag buf' rest of (r, ws) \<Rightarrow> (r, w @ ws))))"
  by pat_completeness auto
termination
proof (relation "measure (\<lambda>(rflag, buf, inp). length inp)", goal_cases)
  case (2 rflag buf inp x buf' rest)
  then show ?case
    using fgets_less [of "MAXPATHLEN + 1" inp] by (auto simp: uugetline_def MAXPATHLEN_def split: option.splits)
qed simp

declare uu_decode.simps [simp del]

text \<open>The position of the last character at which the number of base64 characters so far is a
  multiple of four; -1 when there is none.\<close>

fun last_quad :: "string \<Rightarrow> nat \<Rightarrow> nat \<Rightarrow> int \<Rightarrow> int" where
  "last_quad [] i cnt count4 = count4"
| "last_quad (c # cs) i cnt count4 =
     (let cnt' = (if isalnum c \<or> c = CHR ''+'' \<or> c = CHR ''/'' \<or> c = CHR ''='' then cnt + 1 else cnt) in
      last_quad cs (i + 1) cnt' (if cnt' mod 4 = 0 then int i else count4))"

text \<open>The loop may not end, so it has a bound on the number of turns.\<close>

fun base64_decode :: "nat \<Rightarrow> bool \<Rightarrow> string \<Rightarrow> octet list \<Rightarrow> string \<Rightarrow> (int b64 \<times> octet list) option" where
  "base64_decode 0 rflag leftover outbuf inp = None"
| "base64_decode (Suc n) rflag leftover outbuf inp =
     (case fgets (MAXPATHLEN + 1 - length leftover) inp of
        None \<Rightarrow> Some (Done (if rflag then 0 else 1), [])
      | Some (l, rest) \<Rightarrow>
          (let inbuf = cstr (leftover @ l);
               count4 = last_quad inbuf 0 0 (-1);
               leftover' = drop (nat (count4 + 1)) inbuf;
               inbuf' = take (nat (count4 + 1)) inbuf
           in case b64_pton inbuf' outbuf of
                Aborted \<Rightarrow> Some (Aborted, [])
              | Failed \<Rightarrow> Some (Done (checkend inbuf' ''===='') , [])
              | Done (k, outbuf') \<Rightarrow>
                  (case base64_decode n rflag leftover' outbuf' rest of None \<Rightarrow> None
                   | Some (r, ws) \<Rightarrow> Some (r, take k outbuf' @ ws))))"

declare base64_decode.simps [simp del]

definition header_keyword :: "string \<Rightarrow> bool \<Rightarrow> bool \<times> nat" where
  "header_keyword p b64 =
     (if is_prefix ''begin-base64 '' p then (True, 13) else if is_prefix ''begin '' p then (b64, 6) else (b64, 0))"

text \<open>One line of the search for the header, in the buffer it was read into: the flag, which is not reset between
  lines, the buffer, and the mode with the position of the name. The blank before the name and the end of
  the line are overwritten with NUL.\<close>

definition header_line :: "string \<Rightarrow> bool \<Rightarrow> bool \<times> string \<times> (string \<times> nat) option" where
  "header_line buf b64 =
     (let s = cstr buf;
          (b64', k) = header_keyword s b64;
          p = drop k s;
          mode = takeWhile (\<lambda>c. c \<noteq> CHR '' '') p;
          off = k + length mode + 1;
          q = drop off s;
          name = rev (dropWhile (\<lambda>c. c = NL \<or> c = CR) (rev q))
      in if k = 0 \<or> CHR '' '' \<notin> set p then (b64', buf, None)
         else (b64', (take (off + length name) buf @ replicate (length q - length name) NUL @ drop (length s) buf)[off - 1 := NUL],
               if name \<noteq> [] then Some (mode, off) else None))"

function find_header :: "bool \<Rightarrow> string \<Rightarrow> string \<Rightarrow> (bool \<times> string \<times> nat \<times> string \<times> string) option" where
  "find_header b64 buf inp =
     (case fgets (MAXPATHLEN + 1) inp of
        None \<Rightarrow> None
      | Some (l, rest) \<Rightarrow>
          (case header_line (l @ NUL # drop (length l + 1) buf) b64 of
             (b64', buf', None) \<Rightarrow> find_header b64' buf' rest
           | (b64', buf', Some (mode, off)) \<Rightarrow> Some (b64', mode, off, buf', rest)))"
  by pat_completeness auto
termination
proof (relation "measure (\<lambda>(b, buf, inp). length inp)", goal_cases)
  case (2 b64 buf inp x l rest)
  then show ?case using fgets_less [of "MAXPATHLEN + 1" inp l rest] by (auto simp: MAXPATHLEN_def)
qed simp

declare find_header.simps [simp del]

definition leaf_name :: "string \<Rightarrow> string" where
  "leaf_name q = rev (takeWhile (\<lambda>c. c \<noteq> CHR ''/'') (rev q))"

text \<open>
  The name under -s, at the position \<open>off\<close> of the buffer: a name \<open>~user/file\<close> is put behind the home directory of
  the user. When the directory is longer than what is before the slash, the rest of the name is moved to the right without its
  terminator, so that the name ends at the next NUL the buffer happens to have, or nowhere in it.
\<close>

datatype out_name = Out_name string | Bad_out_name | Unterminated

definition expand_user :: "(string \<Rightarrow> string option) \<Rightarrow> string \<Rightarrow> nat \<Rightarrow> out_name" where
  "expand_user getpwnam buf off =
     (let q = cstr (drop off buf); file = dropWhile (\<lambda>c. c \<noteq> CHR ''/'') q in
      if q = [] \<or> hd q \<noteq> CHR ''~'' \<or> file = [] then Out_name q
      else case getpwnam (takeWhile (\<lambda>c. c \<noteq> CHR ''/'') (tl q)) of
        None \<Rightarrow> Out_name q
      | Some dir \<Rightarrow>
          (let p = off + (length q - length file); n = length dir; m = length file; stale = drop (n + m) buf in
           if p < n then
             if MAXPATHLEN + 1 < n + m then Bad_out_name
             else if NUL \<in> set stale then Out_name (dir @ file @ cstr stale) else Unterminated
           else Out_name (dir @ file)))"

text \<open>
  decode2 without the opening of the output file. It returns -1 without a header and 1 when the mode or the expanded name are
  refused, otherwise what the decoder returns, with the mode, the name and the bytes written. \<open>setmode\<close> stands for setmode and getmode,
  \<open>getpwnam\<close> for the home directory of a user. The contents of the buffers are arguments, since they are not initialised.
\<close>

datatype decoded = Decode_eof | Decode_refused | Decode_past_end | Decoded "int b64" nat string "octet list"

definition decode2 :: "nat \<Rightarrow> (string \<Rightarrow> nat option) \<Rightarrow> (string \<Rightarrow> string option) \<Rightarrow> bool \<Rightarrow> string \<Rightarrow> string \<Rightarrow> octet list \<Rightarrow> string
    \<Rightarrow> decoded option" where
  "decode2 n setmode getpwnam sflag hbuf buf outbuf inp =
     (case find_header False hbuf inp of
        None \<Rightarrow> Some Decode_eof
      | Some (b64, mode, off, hbuf', rest) \<Rightarrow>
          (case setmode mode of
             None \<Rightarrow> Some Decode_refused
           | Some mode \<Rightarrow>
               (case (if sflag then expand_user getpwnam hbuf' off else Out_name (leaf_name (cstr (drop off hbuf')))) of
                  Bad_out_name \<Rightarrow> Some Decode_refused
                | Unterminated \<Rightarrow> Some Decode_past_end
                | Out_name outfile \<Rightarrow>
                    if b64 then map_option (\<lambda>(r, w). Decoded r mode outfile w) (base64_decode n False [] outbuf rest)
                    else (case uu_decode False buf rest of (r, w) \<Rightarrow> Some (Decoded (Done r) mode outfile w)))))"

subsection \<open>The alphabet of uuencode\<close>

definition uu_digit :: "int \<Rightarrow> char" where
  "uu_digit v = (if v = 0 then CHR ''`'' else char_of (nat (v + 32)))"

lemma code_char_of: "n < 256 \<Longrightarrow> code (char_of n) = int n"
proof -
  have "code (char_of n) = int (of_char (char_of n))" unfolding code_def by (rule of_nat_of_char [symmetric])
  then show "n < 256 \<Longrightarrow> code (char_of n) = int n" by simp
qed

lemma uu_alphabet:
  assumes "0 \<le> v" "v < 64"
  shows "DEC (uu_digit v) = v" "IS_DEC (uu_digit v)" "uu_digit v \<noteq> NUL" "uu_digit v \<noteq> NL"
proof -
  have c: "code (uu_digit v) = (if v = 0 then 96 else v + 32)"
    using assms by (simp add: uu_digit_def code_char_of) (simp add: code_def)
  then have s: "schar (uu_digit v) = (if v = 0 then 96 else v + 32)"
    unfolding schar_def c using assms by simp
  have "(64 :: int) AND 63 = 0" by (simp add: and_masks)
  then show "DEC (uu_digit v) = v" using s assms by (simp add: DEC_def and_masks)
  show "IS_DEC (uu_digit v)" using s assms by (simp add: IS_DEC_def)
  have "code NUL = 0" "code NL = 10" by (simp_all add: code_def)
  then show "uu_digit v \<noteq> NUL" "uu_digit v \<noteq> NL" using c assms by (auto split: if_splits)
qed

interpretation uu: alphabet uu_digit DEC
  using uu_alphabet by unfold_locales simp_all

lemma ENC_digit: "0 \<le> c \<Longrightarrow> c < 64 \<Longrightarrow> ENC c = uu_digit c"
  by (simp add: ENC_def uu_digit_def and_masks)

text \<open>The first digit of a group is made with the sign of the first byte, and masked.\<close>

lemma sint_octet:
  fixes a :: octet
  obtains "sint a = uint a" | "sint a = uint a - 256" "128 \<le> uint a"
proof -
  have m: "sint a mod 256 = uint a"
  proof -
    have "uint (word_of_int (sint a) :: octet) = sint a mod 256" by (simp only: uint_word_of_int) simp
    then show ?thesis by simp
  qed
  have r: "- 128 \<le> sint a" "sint a < 128" using sint_ge [of a] sint_lt [of a] by simp_all
  show ?thesis
  proof (cases "0 \<le> sint a")
    case True
    then show ?thesis using m r that(1) by simp
  next
    case False
    have "(sint a + 256) mod 256 = sint a + 256" using False r by (intro mod_pos_pos_trivial) simp_all
    then have "sint a + 256 = uint a" using m by simp
    then show ?thesis using r that(2) by simp
  qed
qed

lemma ENC_signed: "ENC (drop_bit 2 (sint (a :: octet))) = uu_digit (uint a div 4)"
proof (rule sint_octet [of a])
  assume "sint a = uint a"
  then show ?thesis using uint_parts(1,2) [of a] by (simp add: drop_bit_eq_div ENC_digit)
next
  assume s: "sint a = uint a - 256" "128 \<le> uint a"
  have "(uint a - 256) div 4 = uint a div 4 - 64" by (rule shift_256)
  moreover have "uint a div 4 - 64 \<noteq> 0" "uint a div 4 \<noteq> 0"
    using uint_parts(2) [of a] zdiv_mono1 [OF s(2), of 4] by simp_all
  moreover have "(uint a div 4 - 64) mod 64 = uint a div 4" using uint_parts(1,2) [of a] by simp
  ultimately show ?thesis using s(1) by (simp add: drop_bit_eq_div ENC_def uu_digit_def and_masks)
qed

lemma sint_parts:
  fixes a :: octet
  shows "sint a mod 4 = uint a mod 4" "sint a mod 16 = uint a mod 16" "sint a mod 64 = uint a mod 64"
    "sint a div 16 mod 16 = uint a div 16" "sint a div 64 mod 4 = uint a div 64"
proof -
  have p: "0 \<le> uint a div 16" "uint a div 16 < 16" "0 \<le> uint a div 64" "uint a div 64 < 4" by (rule uint_parts)+
  show "sint a mod 4 = uint a mod 4" by (rule sint_octet [of a]) (simp_all add: shift_256)
  show "sint a mod 16 = uint a mod 16" by (rule sint_octet [of a]) (simp_all add: shift_256)
  show "sint a mod 64 = uint a mod 64" by (rule sint_octet [of a]) (simp_all add: shift_256)
  show "sint a div 16 mod 16 = uint a div 16" by (rule sint_octet [of a]) (simp_all add: shift_256 p)
  show "sint a div 64 mod 4 = uint a div 64" by (rule sint_octet [of a]) (simp_all add: shift_256 p)
qed

lemma uu_group_eq: "uu_group a b c = uu.group a b c"
proof -
  have r: "\<And>v. v \<in> set (sextets a b c) \<Longrightarrow> ENC v = uu_digit v" using sextets_range [of _ a b c] by (simp add: ENC_digit)
  have "(push_bit 4 (sint a) AND 48) OR (drop_bit 4 (sint b) AND 15) = (uint a mod 4) * 16 + uint b div 16"
    using uint_parts(3,4) [of b] by (simp add: and_high_masks and_masks drop_bit_eq_div sint_parts or_adds)
  moreover have "(push_bit 2 (sint b) AND 60) OR (drop_bit 6 (sint c) AND 3) = (uint b mod 16) * 4 + uint c div 64"
    using uint_parts(5,6) [of c] by (simp add: and_high_masks and_masks drop_bit_eq_div sint_parts or_adds)
  ultimately show ?thesis
    using r by (simp add: uu_group_def uu.group_def sextets_def ENC_signed and_masks sint_parts)
qed

subsection \<open>Decoding the lines of uuencode\<close>

lemma octet_low:
  "word_of_int (u * 16 + x) = (word_of_int ((u mod 16) * 16 + x) :: octet)"
  "word_of_int (u * 64 + x) = (word_of_int ((u mod 4) * 64 + x) :: octet)"
proof -
  have w: "(256 :: octet) = 0" by simp
  have z: "word_of_int (256 * k + y) = (word_of_int y :: octet)" for k y
    by (simp only: of_int_add of_int_mult of_int_numeral w mult_zero_left add_0)
  have "u * 16 + x = 256 * (u div 16) + ((u mod 16) * 16 + x)" using div_mult_mod_eq [of u 16] by linarith
  then show "word_of_int (u * 16 + x) = (word_of_int ((u mod 16) * 16 + x) :: octet)" by (metis z)
  have "u * 64 + x = 256 * (u div 4) + ((u mod 4) * 64 + x)" using div_mult_mod_eq [of u 4] by linarith
  then show "word_of_int (u * 64 + x) = (word_of_int ((u mod 4) * 64 + x) :: octet)" by (metis z)
qed

lemma uu_group_bytes:
  "uu_byte0 (uu.group a b c @ q) = a" "uu_byte1 (uu.group a b c @ q) = b" "uu_byte2 (uu.group a b c @ q) = c"
  "n < 4 \<Longrightarrow> IS_DEC ((uu.group a b c @ q) ! n)"
proof -
  obtain t u v w where e: "sextets a b c = [t, u, v, w]" and s: "octets [t, u, v, w] = [a, b, c]"
    and r: "0 \<le> t" "t < 64" "0 \<le> u" "u < 64" "0 \<le> v" "v < 64" "0 \<le> w" "w < 64"
    by (rule sextets_digits [of a b c])
  have g: "uu.group a b c @ q = uu_digit t # uu_digit u # uu_digit v # uu_digit w # q"
    by (simp add: uu.group_def e)
  have d: "DEC (uu_digit t) = t" "DEC (uu_digit u) = u" "DEC (uu_digit v) = v" "DEC (uu_digit w) = w"
    using uu_alphabet(1) r by simp_all
  have p: "0 \<le> u div 16" "u div 16 < 4" "0 \<le> v div 4" "v div 4 < 16" using r by (simp_all add: pos_imp_zdiv_nonneg_iff)
  have o: "word_of_int (t * 4 + u div 16) = a" "word_of_int ((u mod 16) * 16 + v div 4) = b"
    "word_of_int ((v mod 4) * 64 + w) = c" using s by simp_all
  show "uu_byte0 (uu.group a b c @ q) = a"
    unfolding g using o(1) p by (simp add: uu_byte0_def d push_bit_eq_mult drop_bit_eq_div or_adds)
  show "uu_byte1 (uu.group a b c @ q) = b"
    unfolding g using o(2) p octet_low(1) [of u "v div 4"]
    by (simp add: uu_byte1_def d push_bit_eq_mult drop_bit_eq_div or_adds)
  show "uu_byte2 (uu.group a b c @ q) = c"
    unfolding g using o(3) r octet_low(2) [of v w] by (simp add: uu_byte2_def d push_bit_eq_mult or_adds)
  show "IS_DEC ((uu.group a b c @ q) ! n)" if "n < 4"
  proof -
    have "n = 0 \<or> n = 1 \<or> n = 2 \<or> n = 3" using that by linarith
    then show ?thesis unfolding g using uu_alphabet(2) r by auto
  qed
qed

lemma uu_chars_groups: "uu_chars (length buf) (uu_groups buf @ q) = (buf, True)"
proof (induction buf rule: uu_groups.induct)
  case (4 a b c buf)
  have "drop 4 (uu.group a b c @ uu_groups buf @ q) = uu_groups buf @ q" by (simp add: uu.length_group)
  then show ?case using 4 uu_group_bytes [where a = a and b = b and c = c and q = "uu_groups buf @ q"]
    by (simp add: uu_group_eq)
qed (simp_all add: uu_group_eq uu_group_bytes)

lemma uu_groups_text: "NL \<notin> set (uu_groups buf)" "length (uu_groups buf) = 4 * ((length buf + 2) div 3)"
proof -
  show "NL \<notin> set (uu_groups buf)"
    by (induction buf rule: uu_groups.induct) (auto simp: uu_group_eq uu.group_text)
  show "length (uu_groups buf) = 4 * ((length buf + 2) div 3)"
  proof (induction buf rule: uu_groups.induct)
    case (4 a b c buf)
    have "(5 + length buf) div 3 = (2 + length buf) div 3 + 1" by presburger
    then show ?case using 4 by (simp add: uu_group_eq uu.length_group)
  qed (simp_all add: uu_group_eq uu.length_group)
qed

text \<open>A line that fits into the buffer.\<close>

lemma uugetline_whole:
  "NL \<notin> set l \<Longrightarrow> length l < MAXPATHLEN \<Longrightarrow>
     \<exists>stale. uugetline rflag buf (l @ NL # rest) = Inl (l @ NL # NUL # stale, rest)"
  by (simp add: uugetline_def fgets_whole)

lemma uu_end_ok: "uu_end rflag buf (''end'' @ NL # rest) = 0"
proof -
  obtain stale where "uugetline rflag buf (''end'' @ NL # rest) = Inl (''end'' @ NL # NUL # stale, rest)"
    using uugetline_whole [of "''end''" rflag buf rest] by (auto simp: MAXPATHLEN_def)
  moreover have "cstr (''end'' @ NL # NUL # stale) = ''end'' @ [NL]" by (simp add: cstr_def)
  ultimately show ?thesis by (simp add: uu_end_def checkend_def is_prefix_def)
qed

lemma uu_decode_lines: "uu_decode rflag buf (encode_lines inp @ ENC 0 # NL # ''end'' @ NL # rest) = (0, inp)"
proof (induction inp arbitrary: buf rule: encode_lines.induct)
  case (1 inp)
  show ?case
  proof (cases "inp = []")
    case True
    obtain stale where "uugetline rflag buf ([ENC 0] @ NL # ''end'' @ NL # rest)
        = Inl ([ENC 0] @ NL # NUL # stale, ''end'' @ NL # rest)"
      using uugetline_whole [of "[ENC 0]" rflag buf "''end'' @ NL # rest"] by (auto simp: MAXPATHLEN_def ENC_def)
    moreover have "DEC (ENC 0) = 0" using uu_alphabet(1) [of 0] by (simp add: ENC_digit)
    ultimately show ?thesis
      using uu_end_ok by (simp add: True encode_lines.simps [of "[]"] uu_decode.simps [of rflag buf] Let_def)
  next
    case False
    let ?b = "take 45 inp" let ?n = "length ?b"
    let ?rest = "encode_lines (drop 45 inp) @ ENC 0 # NL # ''end'' @ NL # rest"
    let ?l = "ENC (int ?n) # uu_groups ?b"
    have n: "0 < ?n" "?n \<le> 45" using False by (simp_all add: min_def)
    have e: "ENC (int ?n) = uu_digit (int ?n)" using n by (intro ENC_digit) simp_all
    have d: "DEC (ENC (int ?n)) = int ?n" "ENC (int ?n) \<noteq> NL" unfolding e using n uu_alphabet [of "int ?n"] by simp_all
    have "length ?l < MAXPATHLEN" "NL \<notin> set ?l" using n d(2) by (auto simp: uu_groups_text MAXPATHLEN_def)
    then obtain stale where g: "uugetline rflag buf (?l @ NL # ?rest) = Inl (?l @ NL # NUL # stale, ?rest)"
      using uugetline_whole [of ?l rflag buf ?rest] by blast
    have s: "encode_lines inp @ ENC 0 # NL # ''end'' @ NL # rest = ?l @ NL # ?rest"
      using False by (subst encode_lines.simps) (simp add: Let_def)
    have ih: "uu_decode rflag buf' ?rest = (0, drop 45 inp)" for buf' by (rule 1 [OF refl]) (use False in simp)
    have u: "uu_chars ?n (uu_groups ?b @ NL # NUL # stale) = (?b, True)" by (rule uu_chars_groups)
    show ?thesis
      unfolding s uu_decode.simps [of rflag buf "?l @ NL # ?rest"] g using d(1) n u ih by (simp add: Let_def del: length_take)
  qed
qed

subsection \<open>Decoding the lines of base64\<close>

fun b64_lines :: "nat \<Rightarrow> octet list \<Rightarrow> string" where
  "b64_lines 0 inp = []"
| "b64_lines (Suc n) inp = (if inp = [] then [] else b64_text (take 57 inp) @ NL # b64_lines n (drop 57 inp))"

definition b64_char_ok :: "char \<Rightarrow> bool" where
  "b64_char_ok c \<longleftrightarrow> isalnum c \<or> c = CHR ''+'' \<or> c = CHR ''/'' \<or> c = CHR ''=''"

lemma last_quad_snoc:
  "last_quad (cs @ [c]) i cnt q =
     (if (cnt + length (filter b64_char_ok (cs @ [c]))) mod 4 = 0 then int (i + length cs) else last_quad cs i cnt q)"
  by (induction cs arbitrary: i cnt q) (simp_all add: Let_def b64_char_ok_def)

lemma b64_text_chars: "c \<in> set (b64_text src) \<Longrightarrow> b64_char_ok c \<and> c \<noteq> NUL \<and> c \<noteq> NL"
proof -
  have g: "c \<in> set (b64.group x y z) \<Longrightarrow> b64_char_ok c \<and> c \<noteq> NUL \<and> c \<noteq> NL" for x y z
    using b64_alphabet(4-6) sextets_range [of _ x y z] by (auto simp: b64.group_def b64_char_ok_def)
  have p: "b64_char_ok Pad64 \<and> Pad64 \<noteq> NUL \<and> Pad64 \<noteq> NL" by (simp add: b64_char_ok_def Pad64_def)
  show "c \<in> set (b64_text src) \<Longrightarrow> ?thesis"
    using g p by (induction src rule: b64_text.induct) (auto dest: in_set_takeD)
qed

lemma filter_b64_text: "length (filter b64_char_ok (b64_text src @ [NL])) = length (b64_text src)"
proof -
  have "\<not> b64_char_ok NL" by (simp add: b64_char_ok_def isalnum_def code_def wctype_defs)
  then show ?thesis using b64_text_chars [of _ src] by (simp add: filter_True)
qed

lemma last_quad_line: "last_quad (b64_text src @ [NL]) 0 0 (-1) = int (length (b64_text src))"
  by (simp add: last_quad_snoc filter_b64_text [simplified] length_b64_text)

lemma base64_decode_line:
  assumes "length src < length outbuf" "length src \<le> 57"
  shows "\<exists>outbuf'. length outbuf' = length outbuf \<and>
    base64_decode (Suc n) rflag [] outbuf (b64_text src @ NL # rest) =
      (case base64_decode n rflag [] outbuf' rest of None \<Rightarrow> None | Some (r, ws) \<Rightarrow> Some (r, src @ ws))"
proof -
  have l: "length (b64_text src) < MAXPATHLEN"
    using assms(2) by (simp add: length_b64_text MAXPATHLEN_def)
  have nl: "NL \<notin> set (b64_text src)" "NUL \<notin> set (b64_text src @ [NL])" using b64_text_chars [of _ src] by auto
  have f: "fgets (MAXPATHLEN + 1 - length ([] :: string)) (b64_text src @ NL # rest) = Some (b64_text src @ [NL], rest)"
    using fgets_whole [OF nl(1)] l by simp
  have s: "list_all isspace [NL]" by code_simp
  obtain post where p: "b64_pton (b64_text src @ [NL]) outbuf = Done (length src, src @ post)"
    "length (src @ post) = length outbuf"
    using pton_text [OF assms(1) s, of "[]"] by (auto simp: b64_pton_def)
  have "base64_decode (Suc n) rflag [] outbuf (b64_text src @ NL # rest) =
      (case base64_decode n rflag [] (src @ post) rest of None \<Rightarrow> None | Some (r, ws) \<Rightarrow> Some (r, src @ ws))"
    unfolding base64_decode.simps f using p(1) cstr_plain [OF nl(2)] last_quad_line [of src]
    by (simp add: Let_def nat_add_distrib split: option.split)
  then show ?thesis using p(2) by blast
qed

lemma base64_decode_end: "base64_decode (Suc n) rflag [] outbuf (''===='' @ NL # rest) = Some (Done 0, [])"
proof -
  have f: "fgets (MAXPATHLEN + 1 - length ([] :: string)) (''===='' @ NL # rest) = Some (''===='' @ [NL], rest)"
    using fgets_whole [of "''====''" "MAXPATHLEN + 1" rest] by (simp add: MAXPATHLEN_def)
  have c: "cstr (''===='' @ [NL]) = ''===='' @ [NL]" "last_quad (''===='' @ [NL]) 0 0 (-1) = 4"
    "checkend (''===='' @ [NL]) ''===='' = 0" by code_simp+
  have "b64_pton (''===='' @ [NL]) outbuf = Failed"
    by (simp add: b64_pton_def pton_end_def Pad64_def isspace_def code_def)
  then show ?thesis unfolding base64_decode.simps f using c by (simp add: Let_def)
qed

lemma base64_decode_lines:
  "57 < length outbuf \<Longrightarrow> length inp \<le> n \<Longrightarrow>
     base64_decode (Suc n) rflag [] outbuf (b64_lines n inp @ ''===='' @ NL # rest) = Some (Done 0, inp)"
proof (induction n inp arbitrary: outbuf rule: b64_lines.induct)
  case (1 inp)
  then show ?case using base64_decode_end [of 0 rflag outbuf rest] by simp
next
  case (2 n inp)
  show ?case
  proof (cases "inp = []")
    case True
    then show ?thesis using base64_decode_end [of "Suc n" rflag outbuf rest] by simp
  next
    case False
    let ?rest = "b64_lines n (drop 57 inp) @ ''===='' @ NL # rest"
    have h: "length (take 57 inp) < length outbuf" using 2(2) by (simp add: min_def)
    obtain outbuf' where o: "length outbuf' = length outbuf"
      "base64_decode (Suc (Suc n)) rflag [] outbuf (b64_text (take 57 inp) @ NL # ?rest) =
        (case base64_decode (Suc n) rflag [] outbuf' ?rest of None \<Rightarrow> None | Some (r, ws) \<Rightarrow> Some (r, take 57 inp @ ws))"
      using base64_decode_line [OF h, of "Suc n" rflag ?rest] by auto
    have "base64_decode (Suc n) rflag [] outbuf' ?rest = Some (Done 0, drop 57 inp)"
      using 2(1) [of outbuf'] 2(2,3) o(1) False by (cases inp) auto
    then show ?thesis using o(2) False by simp
  qed
qed

text \<open>The groups of b64encode, 19 to a line, are lines of 57 bytes.\<close>

lemma b64_text_append: "length xs = 3 \<Longrightarrow> b64_text (xs @ ys) = b64_text xs @ b64_text ys"
  by (cases xs; cases "tl xs"; cases "tl (tl xs)") auto

lemma ntop_3: "length buf \<le> 3 \<Longrightarrow> b64_ntop buf 7 = Done (b64_text buf)"
proof -
  assume l: "length buf \<le> 3"
  then have "4 * ((length buf + 2) div 3) < 7" by simp
  then show ?thesis by (simp add: b64_ntop_text length_b64_text)
qed

lemma b64_lines_more: "length inp \<le> n \<Longrightarrow> length inp \<le> m \<Longrightarrow> b64_lines n inp = b64_lines m inp"
proof (induction n inp arbitrary: m rule: b64_lines.induct)
  case (1 inp)
  then show ?case by (cases m) auto
next
  case (2 n inp)
  show ?case
  proof (cases "inp = []")
    case True
    then show ?thesis by (cases m) simp_all
  next
    case False
    then obtain k where k: "m = Suc k" using 2(3) by (cases m) auto
    have "0 < length inp" using False by simp
    then have "length (drop 57 inp) \<le> n" "length (drop 57 inp) \<le> k"
      using 2(2,3) k unfolding length_drop by linarith+
    then have "b64_lines n (drop 57 inp) = b64_lines k (drop 57 inp)" by (rule 2(1) [OF False])
    then show ?thesis using False k by simp
  qed
qed

lemma base64_lines_eq:
  "base64_lines q inp = Done (if inp = [] then (if q mod 19 = 0 then [] else [NL])
     else b64_text (take (57 - 3 * (q mod 19)) inp) @ NL # b64_lines (length inp) (drop (57 - 3 * (q mod 19)) inp))"
proof (induction q inp rule: base64_lines.induct)
  case (1 q inp)
  have G: "GROUPS = 19" by (simp add: GROUPS_def)
  show ?case
  proof (cases "inp = []")
    case True
    then show ?thesis by (simp add: base64_lines.simps [of q] G)
  next
    case False
    let ?j = "q mod 19" let ?b = "take 3 inp" let ?d = "drop 3 inp"
    have j: "?j < 19" by simp
    have ih: "base64_lines (q + 1) ?d = Done (if ?d = [] then (if (q + 1) mod 19 = 0 then [] else [NL])
        else b64_text (take (57 - 3 * ((q + 1) mod 19)) ?d) @ NL # b64_lines (length ?d) (drop (57 - 3 * ((q + 1) mod 19)) ?d))"
      by (rule 1 [OF refl]) (use False ntop_3 [of ?b] in simp_all)
    have e: "base64_lines q inp = b64_bind (base64_lines (q + 1) ?d) (\<lambda>more.
        Done (b64_text ?b @ (if (q + 1) mod 19 \<noteq> 0 then [] else [NL]) @ more))"
      using False ntop_3 [of ?b] by (subst base64_lines.simps) (simp add: G)
    have s: "(q + 1) mod 19 = (if ?j = 18 then 0 else ?j + 1)" by (simp add: mod_Suc)
    show ?thesis
    proof (cases "?d = []")
      case True
      then have l: "length inp \<le> 3" by simp
      then have "take (57 - 3 * ?j) inp = inp" "drop (57 - 3 * ?j) inp = []" "?b = inp" using j by simp_all
      then show ?thesis unfolding e ih using True False s by (cases inp) auto
    next
      case d: False
      then have b: "length ?b = 3" "inp = ?b @ ?d" by simp_all
      show ?thesis
      proof (cases "?j = 18")
        case True
        have "b64_lines (length inp) ?d = b64_lines (Suc (length ?d)) ?d"
          by (rule b64_lines_more) simp_all
        then have "b64_lines (length inp) ?d = b64_text (take 57 ?d) @ NL # b64_lines (length ?d) (drop 57 ?d)"
          using d by simp
        then show ?thesis unfolding e ih using True d False s by simp
      next
        case j18: False
        have t: "take (57 - 3 * ?j) inp = ?b @ take (57 - 3 * (?j + 1)) ?d"
          "drop (57 - 3 * ?j) inp = drop (57 - 3 * (?j + 1)) ?d"
          using j j18 b by (simp_all add: take_add [of 3, symmetric] drop_drop)
        have m: "b64_lines (length inp) (drop (57 - 3 * (?j + 1)) ?d) = b64_lines (length ?d) (drop (57 - 3 * (?j + 1)) ?d)"
          by (rule b64_lines_more) simp_all
        show ?thesis
          unfolding e ih t m using j18 d False s b64_text_append [OF b(1)] by simp
      qed
    qed
  qed
qed

subsection \<open>The header line\<close>

lemma octal_text: "c \<in> set (octal n) \<Longrightarrow> c \<noteq> CHR '' '' \<and> c \<noteq> NL \<and> c \<noteq> NUL"
proof (induction n rule: octal.induct)
  case (1 n)
  have d: "code (char_of (48 + k)) = 48 + int k" if "k < 8" for k :: nat using that code_char_of [of "48 + k"] by simp
  have "code (CHR '' '') = 32" "code NL = 10" "code NUL = 0" by (simp_all add: code_def)
  then have k: "char_of (48 + k) \<noteq> CHR '' '' \<and> char_of (48 + k) \<noteq> NL \<and> char_of (48 + k) \<noteq> NUL" if "k < 8" for k :: nat
    using d [OF that] by auto
  show ?case using 1 k [of n] k [of "n mod 8"] by (subst (asm) (2) octal.simps) (auto split: if_splits)
qed

definition name_ok :: "string \<Rightarrow> bool" where
  "name_ok name \<longleftrightarrow> name \<noteq> [] \<and> NL \<notin> set name \<and> NUL \<notin> set name \<and> last name \<noteq> CR"

lemma strip_name: "name_ok name \<Longrightarrow> rev (dropWhile (\<lambda>c. c = NL \<or> c = CR) (rev (name @ [NL]))) = name"
proof -
  assume n: "name_ok name"
  then have "rev name \<noteq> []" "hd (rev name) \<noteq> NL" "hd (rev name) \<noteq> CR"
    by (auto simp: name_ok_def hd_rev) (metis last_in_set)
  then have "dropWhile (\<lambda>c. c = NL \<or> c = CR) (rev name) = rev name" by (cases "rev name") auto
  then show ?thesis by simp
qed

lemma header_keyword_found:
  assumes "kw = ''begin '' \<or> kw = ''begin-base64 ''"
  shows "header_keyword (kw @ r) b64 = (b64 \<or> kw = ''begin-base64 '', length kw)"
  using assms by (elim disjE) (simp_all add: header_keyword_def is_prefix_def)

lemma header_line_found:
  assumes "name_ok name" "kw = ''begin '' \<or> kw = ''begin-base64 ''"
  obtains buf off where "header_line (kw @ octal mode @ '' '' @ name @ NL # NUL # stale) b64
    = (b64 \<or> kw = ''begin-base64 '', buf, Some (octal mode, off))" "cstr (drop off buf) = name"
proof -
  let ?s = "kw @ octal mode @ '' '' @ name @ [NL]"
  let ?off = "length kw + length (octal mode) + 1"
  let ?buf = "(kw @ octal mode @ '' '' @ name @ NUL # NUL # stale)[?off - 1 := NUL]"
  have nul: "NUL \<notin> set name" using assms(1) by (simp add: name_ok_def)
  have "NUL \<notin> set ?s" using assms(2) nul octal_text [of _ mode] by auto
  then have s: "cstr (kw @ octal mode @ '' '' @ name @ NL # NUL # stale) = ?s"
    using cstr_plain [of ?s] takeWhile_tail [of "\<lambda>c. c \<noteq> NUL" NUL ?s stale] by (simp add: cstr_def)
  have q: "takeWhile (\<lambda>c. c \<noteq> CHR '' '') (octal mode @ '' '' @ name @ [NL]) = octal mode"
    using break_at [of "CHR '' ''" "octal mode" "name @ [NL]"] octal_text [of _ mode] by simp
  have nm: "rev (dropWhile (\<lambda>c. c = NL \<or> c = CR) (rev (name @ [NL]))) = name" "name \<noteq> []"
    using strip_name [OF assms(1)] assms(1) by (simp_all add: name_ok_def)
  have d: "drop ?off ?s = name @ [NL]" "drop (length kw) ?s = octal mode @ '' '' @ name @ [NL]" by simp_all
  have "kw \<noteq> []" using assms(2) by auto
  then have "header_line (kw @ octal mode @ '' '' @ name @ NL # NUL # stale) b64 = (b64 \<or> kw = ''begin-base64 '', ?buf, Some (octal mode, ?off))"
    unfolding header_line_def s Let_def header_keyword_found [OF assms(2)] prod.case d(2) q d(1) nm(1) using nm(2) by simp
  moreover have "cstr (drop ?off ?buf) = name"
    using cstr_plain [OF nul] nul by (simp add: cstr_def takeWhile_tail)
  ultimately show ?thesis using that [of ?buf ?off] by blast
qed

lemma find_header_found:
  assumes n: "name_ok name" and kw: "kw = ''begin '' \<or> kw = ''begin-base64 ''"
    and l: "length name + length (octal mode) \<le> 1003"
  obtains buf' off where "find_header b64 buf (kw @ octal mode @ '' '' @ name @ NL # rest)
    = Some (b64 \<or> kw = ''begin-base64 '', octal mode, off, buf', rest)" "cstr (drop off buf') = name"
proof -
  let ?l = "kw @ octal mode @ '' '' @ name"
  have t: "NL \<notin> set ?l" using kw n octal_text [of _ mode] by (auto simp: name_ok_def)
  have "length ?l + 1 < MAXPATHLEN + 1" using kw l by (auto simp: MAXPATHLEN_def)
  then have "fgets (MAXPATHLEN + 1) (?l @ NL # rest) = Some (?l @ [NL], rest)" using fgets_whole [OF t(1)] by blast
  then have e: "find_header b64 buf (kw @ octal mode @ '' '' @ name @ NL # rest) =
      (case header_line (kw @ octal mode @ '' '' @ name @ NL # NUL # drop (length ?l + 2) buf) b64 of
         (b64', buf', None) \<Rightarrow> find_header b64' buf' rest
       | (b64', buf', Some (mode, off)) \<Rightarrow> Some (b64', mode, off, buf', rest))"
    by (subst find_header.simps) simp
  obtain buf' off where h: "header_line (kw @ octal mode @ '' '' @ name @ NL # NUL # drop (length ?l + 2) buf) b64
      = (b64 \<or> kw = ''begin-base64 '', buf', Some (octal mode, off))" "cstr (drop off buf') = name"
    by (rule header_line_found [OF n kw])
  show ?thesis by (rule that [OF _ h(2)]) (unfold e h(1), simp)
qed

text \<open>setmode reads the permissions that uuencode prints, three octal digits at most.\<close>

definition reads_octal :: "(string \<Rightarrow> nat option) \<Rightarrow> bool" where
  "reads_octal setmode \<longleftrightarrow> (\<forall>m < 512. setmode (octal m) = Some m)"

lemma octal_mode: "m < 512 \<Longrightarrow> length (octal m) \<le> 3"
  by (simp add: octal.simps [of m] octal.simps [of "m div 8"] octal.simps [of "m div 8 div 8"])

lemma outfile_plain:
  assumes "cstr (drop off buf) = name" "sflag \<longrightarrow> hd name \<noteq> CHR ''~''"
  shows "(if sflag then expand_user getpwnam buf off else Out_name (leaf_name (cstr (drop off buf))))
    = Out_name (if sflag then name else leaf_name name)"
  using assms by (simp add: expand_user_def Let_def)

text \<open>
  C12. uudecode restores what uuencode wrote. Take any byte string, any mode of permissions, and a file name that is not empty, has no
  newline or NUL, does not end in a carriage return, has at most 1000 characters and, with -s, does not start with a
  tilde. When setmode reads octal numbers, decode2 finds the header, accepts it, returns 0 with the original mode, and has written exactly
  the original bytes, whatever its buffers held before. With -s the name of the output file is the
  name of the header; without -s it is only the last component of it.
\<close>

theorem uu_roundtrip:
  assumes "name_ok name" "length name \<le> 1000" "sflag \<longrightarrow> hd name \<noteq> CHR ''~''" "mode < 512" "reads_octal setmode"
  shows "decode2 n setmode getpwnam sflag hbuf buf outbuf (encode mode name inp)
    = Some (Decoded (Done 0) mode (if sflag then name else leaf_name name) inp)"
proof -
  have e: "encode mode name inp = ''begin '' @ octal mode @ '' '' @ name @ NL # encode_lines inp @ ENC 0 # NL # ''end'' @ NL # []"
    by (simp add: encode_def)
  have l: "length name + length (octal mode) \<le> 1003" using assms(2) octal_mode [OF assms(4)] by simp
  obtain hbuf' off where h: "find_header False hbuf (encode mode name inp) =
      Some (False \<or> ''begin '' = ''begin-base64 '', octal mode, off, hbuf', encode_lines inp @ ENC 0 # NL # ''end'' @ NL # [])" "cstr (drop off hbuf') = name"
    unfolding e by (rule find_header_found [OF assms(1) disjI1 [OF refl] l])
  have m: "setmode (octal mode) = Some mode" using assms(4,5) by (simp add: reads_octal_def)
  show ?thesis unfolding decode2_def h(1) option.case prod.case m outfile_plain [OF h(2) assms(3)] out_name.case
    using uu_decode_lines [of False buf inp "[]"] by simp
qed

definition read_octal :: "string \<Rightarrow> nat option" where
  "read_octal s = (if s \<noteq> [] \<and> list_all (\<lambda>c. 48 \<le> code c \<and> code c < 56) s then Some (nat (foldl (\<lambda>n c. 8 * n + (code c - 48)) 0 s)) else None)"

lemma read_octal_octal:
  "octal n \<noteq> [] \<and> list_all (\<lambda>c. 48 \<le> code c \<and> code c < 56) (octal n) \<and> foldl (\<lambda>n c. 8 * n + (code c - 48)) 0 (octal n) = int n"
proof (induction n rule: octal.induct)
  case (1 n)
  have d: "code (char_of (48 + k)) = 48 + int k" if "k < 8" for k :: nat using that code_char_of [of "48 + k"] by simp
  show ?case
  proof (cases "n < 8")
    case True
    then show ?thesis using d by (simp add: octal.simps)
  next
    case False
    then show ?thesis using 1 d [of "n mod 8"] by (subst (1 2 3) octal.simps) (simp add: zmod_int zdiv_int)
  qed
qed

lemma read_octal_reads: "reads_octal read_octal"
  using read_octal_octal by (simp add: reads_octal_def read_octal_def)

theorem uu_roundtrip_witness:
  "decode2 0 read_octal (\<lambda>u. None) False [] [] [] (encode 420 ''tmp/x'' [0, 255, 128])
    = Some (Decoded (Done 0) 420 (if False then ''tmp/x'' else leaf_name ''tmp/x'') [0, 255, 128])"
proof (rule uu_roundtrip)
  show "name_ok ''tmp/x''" by code_simp
qed (simp_all add: read_octal_reads)

text \<open>
  The same for base64: uuencode -m never fails, and the decoder returns 0 after at most one
  turn per byte plus one, having written the original bytes.
\<close>

theorem base64_stream_roundtrip:
  assumes "name_ok name" "length name \<le> 1000" "sflag \<longrightarrow> hd name \<noteq> CHR ''~''" "mode < 512" "reads_octal setmode"
    and "length inp < n" "length outbuf = 4 * MAXPATHLEN"
  shows "\<exists>text. base64_encode mode name inp = Done text
    \<and> decode2 n setmode getpwnam sflag hbuf buf outbuf text = Some (Decoded (Done 0) mode (if sflag then name else leaf_name name) inp)"
proof -
  obtain k where k: "n = Suc k" "length inp \<le> k" using assms(6) by (cases n) auto
  have b: "base64_lines 0 inp = Done (b64_lines k inp)"
  proof (cases "inp = []")
    case True
    then show ?thesis by (cases k) (simp_all add: base64_lines_eq)
  next
    case False
    have "b64_lines k inp = b64_lines (Suc (length inp)) inp" using k(2) by (intro b64_lines_more) simp_all
    then show ?thesis using False by (simp add: base64_lines_eq)
  qed
  let ?body = "b64_lines k inp @ ''===='' @ NL # []"
  let ?text = "''begin-base64 '' @ octal mode @ '' '' @ name @ NL # ?body"
  have l: "length name + length (octal mode) \<le> 1003" using assms(2) octal_mode [OF assms(4)] by simp
  obtain hbuf' off where h: "find_header False hbuf ?text = Some (False \<or> ''begin-base64 '' = ''begin-base64 '', octal mode, off, hbuf', ?body)" "cstr (drop off hbuf') = name"
    by (rule find_header_found [OF assms(1) disjI2 [OF refl] l])
  have m: "setmode (octal mode) = Some mode" using assms(4,5) by (simp add: reads_octal_def)
  have "base64_decode n False [] outbuf ?body = Some (Done 0, inp)"
    unfolding k(1) using assms(7) k(2) by (intro base64_decode_lines) (simp_all add: MAXPATHLEN_def)
  then have "decode2 n setmode getpwnam sflag hbuf buf outbuf ?text = Some (Decoded (Done 0) mode (if sflag then name else leaf_name name) inp)"
    unfolding decode2_def h(1) option.case prod.case m outfile_plain [OF h(2) assms(3)] out_name.case by simp
  moreover have "base64_encode mode name inp = Done ?text" by (simp add: base64_encode_def b)
  ultimately show ?thesis by blast
qed

theorem base64_stream_roundtrip_witness:
  "\<exists>text. base64_encode 420 ''x'' [1, 2, 250] = Done text
    \<and> decode2 4 read_octal (\<lambda>u. None) True [] [] (replicate (4 * MAXPATHLEN) 0) text
       = Some (Decoded (Done 0) 420 (if True then ''x'' else leaf_name ''x'') [1, 2, 250])"
proof (rule base64_stream_roundtrip)
  show "name_ok ''x''" by code_simp
qed (simp_all add: read_octal_reads)

subsection \<open>Inputs the decoder does not handle\<close>

lemma pton_nothing: "b64_pton [] outbuf = Done (0, outbuf)"
  by (simp add: b64_pton_def pton_end_def)

lemma base64_decode_full:
  assumes "length leftover = MAXPATHLEN" "NUL \<notin> set leftover" "last_quad leftover 0 0 (-1) = -1"
  shows "base64_decode n rflag leftover outbuf inp = None"
proof (induction n)
  case (Suc n)
  have "fgets (MAXPATHLEN + 1 - length leftover) inp = Some ([], inp)" by (simp add: assms(1) fgets_def)
  then show ?case
    using Suc cstr_plain [OF assms(2)] assms(3) by (simp add: base64_decode.simps Let_def pton_nothing)
qed (simp add: base64_decode.simps)

lemma last_quad_blanks: "last_quad (replicate m (CHR '' '')) i (Suc 0) q = q"
proof -
  have "\<not> isalnum (CHR '' '')" by code_simp
  then show ?thesis by (induction m arbitrary: i) (simp_all add: Let_def)
qed

lemma take_line_exact: "NL \<notin> set l \<Longrightarrow> take_line (length l) (l @ r) = (l, r)"
  by (induction l) auto

text \<open>
  C38. base64_decode never ends on a line that starts with one base64 character and then has 1023 or
  more characters outside the alphabet, such as blanks: the incomplete group fills the whole
  buffer, fgets is then asked for no character at all, and the loop repeats without reading.
\<close>

theorem base64_decode_never_ends:
  "base64_decode n rflag [] outbuf (CHR ''A'' # replicate 1023 (CHR '' '') @ rest) = None"
proof (cases n)
  case (Suc m)
  let ?l = "CHR ''A'' # replicate 1023 (CHR '' '')"
  have l: "length ?l = MAXPATHLEN" "NUL \<notin> set ?l" "NL \<notin> set ?l" by (simp_all add: MAXPATHLEN_def)
  have "isalnum (CHR ''A'')" by code_simp
  then have q: "last_quad ?l 0 0 (-1) = -1" by (simp add: Let_def last_quad_blanks)
  have "take_line MAXPATHLEN (?l @ rest) = (?l, rest)" using take_line_exact [OF l(3), of rest] l(1) by simp
  then have f: "fgets (MAXPATHLEN + 1 - length ([] :: string)) (?l @ rest) = Some (?l, rest)"
    by (simp add: fgets_def MAXPATHLEN_def)
  have "base64_decode (Suc m) rflag [] outbuf (?l @ rest) = None"
    unfolding base64_decode.simps f using cstr_plain [OF l(2)] q base64_decode_full [OF l(1,2) q, of m rflag outbuf rest]
    by (simp add: Let_def pton_nothing)
  then show ?thesis using Suc by simp
qed (simp add: base64_decode.simps)

text \<open>
  A begin-base64 line without a file name is skipped but leaves its mark: a uuencoded file that
  follows it is decoded as base64.
\<close>

theorem stale_base64_flag:
  "\<exists>off buf'. find_header False buf (''begin-base64 644'' @ NL # ''begin 644 x'' @ NL # rest) = Some (True, ''644'', off, buf', rest)"
proof -
  let ?buf = "''begin-base64 644'' @ NL # NUL # drop (length (''begin-base64 644'' @ [NL]) + 1) buf"
  have f: "fgets (MAXPATHLEN + 1) (''begin-base64 644'' @ NL # r) = Some (''begin-base64 644'' @ [NL], r)" for r
    by (rule fgets_whole) (simp_all add: MAXPATHLEN_def)
  have "header_line ?buf False = (True, ?buf, None)" by (simp add: header_line_def header_keyword_def cstr_def is_prefix_def Let_def)
  then have "find_header False buf (''begin-base64 644'' @ NL # ''begin 644 x'' @ NL # rest) = find_header True ?buf (''begin 644 x'' @ NL # rest)"
    using f [of "''begin 644 x'' @ NL # rest"] by (subst find_header.simps) simp
  moreover have x: "name_ok ''x''" "octal 420 = ''644''" by code_simp+
  moreover obtain buf' off where "find_header True ?buf (''begin '' @ octal 420 @ '' '' @ ''x'' @ NL # rest)
      = Some (True \<or> ''begin '' = ''begin-base64 '', octal 420, off, buf', rest)"
    by (rule find_header_found [OF x(1) disjI1 [OF refl], of 420]) (simp add: x(2))
  ultimately show ?thesis by simp
qed

text \<open>
  The rest of a name \<open>~user/file\<close> is moved without its terminator: behind it stand the bytes of an earlier line, here one of
  forty letters before the header.
\<close>

lemma home_name_stale:
  "case decode2 0 read_octal (\<lambda>u. Some ''/Users/somebody/home'') True (replicate 1025 NUL) [] []
      (replicate 40 (CHR ''z'') @ NL # ''begin 644 ~u/x'' @ NL # ENC 0 # NL # ''end'' @ [NL]) of
     Some (Decoded r m name w) \<Rightarrow> name = ''/Users/somebody/home/x'' @ replicate 18 (CHR ''z'') @ [NL] | _ \<Rightarrow> False"
  by code_simp

end
