(* ===== verification/Cksum.thy ===== *)
theory Cksum
  imports Cmd_Prelude
begin

unbundle bit_operations_syntax

text \<open>
  file_cmds/cksum: the four checksum algorithms, crc.c, crc32.c, sum1.c and sum2.c. What read()
  delivers is the list of the buffers it fills, up to the end of the file or an error. The
  table-driven cyclic redundancy checks are shown equal to division bit by bit; both tables are
  instances of one locale, which says that a table with a value for each byte is linear.
\<close>

subsection \<open>Reading\<close>

text \<open>The buffers of successful reads, and whether the last read failed.\<close>

type_synonym reads = "octet list list \<times> bool"

text \<open>A read of no bytes is the end of the file.\<close>

fun each_read :: "('s \<Rightarrow> octet \<Rightarrow> 's) \<Rightarrow> octet list list \<Rightarrow> 's \<Rightarrow> nat \<Rightarrow> 's \<times> nat" where
  "each_read f [] s len = (s, len)"
| "each_read f (buf # bufs) s len =
     (if buf = [] then (s, len) else each_read f bufs (foldl f s buf) (len + length buf))"

definition file_data :: "octet list list \<Rightarrow> octet list" where
  "file_data bufs = concat (takeWhile (\<lambda>buf. buf \<noteq> []) bufs)"

lemma each_read_data: "each_read f bufs s len = (foldl f s (file_data bufs), len + length (file_data bufs))"
  by (induction f bufs s len rule: each_read.induct) (auto simp: file_data_def)

subsection \<open>crc.c\<close>

definition crctab :: "u32 list" where
  "crctab =
    [0x0, 0x04c11db7, 0x09823b6e, 0x0d4326d9, 0x130476dc, 0x17c56b6b, 0x1a864db2, 0x1e475005,
     0x2608edb8, 0x22c9f00f, 0x2f8ad6d6, 0x2b4bcb61, 0x350c9b64, 0x31cd86d3, 0x3c8ea00a, 0x384fbdbd,
     0x4c11db70, 0x48d0c6c7, 0x4593e01e, 0x4152fda9, 0x5f15adac, 0x5bd4b01b, 0x569796c2, 0x52568b75,
     0x6a1936c8, 0x6ed82b7f, 0x639b0da6, 0x675a1011, 0x791d4014, 0x7ddc5da3, 0x709f7b7a, 0x745e66cd,
     0x9823b6e0, 0x9ce2ab57, 0x91a18d8e, 0x95609039, 0x8b27c03c, 0x8fe6dd8b, 0x82a5fb52, 0x8664e6e5,
     0xbe2b5b58, 0xbaea46ef, 0xb7a96036, 0xb3687d81, 0xad2f2d84, 0xa9ee3033, 0xa4ad16ea, 0xa06c0b5d,
     0xd4326d90, 0xd0f37027, 0xddb056fe, 0xd9714b49, 0xc7361b4c, 0xc3f706fb, 0xceb42022, 0xca753d95,
     0xf23a8028, 0xf6fb9d9f, 0xfbb8bb46, 0xff79a6f1, 0xe13ef6f4, 0xe5ffeb43, 0xe8bccd9a, 0xec7dd02d,
     0x34867077, 0x30476dc0, 0x3d044b19, 0x39c556ae, 0x278206ab, 0x23431b1c, 0x2e003dc5, 0x2ac12072,
     0x128e9dcf, 0x164f8078, 0x1b0ca6a1, 0x1fcdbb16, 0x018aeb13, 0x054bf6a4, 0x0808d07d, 0x0cc9cdca,
     0x7897ab07, 0x7c56b6b0, 0x71159069, 0x75d48dde, 0x6b93dddb, 0x6f52c06c, 0x6211e6b5, 0x66d0fb02,
     0x5e9f46bf, 0x5a5e5b08, 0x571d7dd1, 0x53dc6066, 0x4d9b3063, 0x495a2dd4, 0x44190b0d, 0x40d816ba,
     0xaca5c697, 0xa864db20, 0xa527fdf9, 0xa1e6e04e, 0xbfa1b04b, 0xbb60adfc, 0xb6238b25, 0xb2e29692,
     0x8aad2b2f, 0x8e6c3698, 0x832f1041, 0x87ee0df6, 0x99a95df3, 0x9d684044, 0x902b669d, 0x94ea7b2a,
     0xe0b41de7, 0xe4750050, 0xe9362689, 0xedf73b3e, 0xf3b06b3b, 0xf771768c, 0xfa325055, 0xfef34de2,
     0xc6bcf05f, 0xc27dede8, 0xcf3ecb31, 0xcbffd686, 0xd5b88683, 0xd1799b34, 0xdc3abded, 0xd8fba05a,
     0x690ce0ee, 0x6dcdfd59, 0x608edb80, 0x644fc637, 0x7a089632, 0x7ec98b85, 0x738aad5c, 0x774bb0eb,
     0x4f040d56, 0x4bc510e1, 0x46863638, 0x42472b8f, 0x5c007b8a, 0x58c1663d, 0x558240e4, 0x51435d53,
     0x251d3b9e, 0x21dc2629, 0x2c9f00f0, 0x285e1d47, 0x36194d42, 0x32d850f5, 0x3f9b762c, 0x3b5a6b9b,
     0x0315d626, 0x07d4cb91, 0x0a97ed48, 0x0e56f0ff, 0x1011a0fa, 0x14d0bd4d, 0x19939b94, 0x1d528623,
     0xf12f560e, 0xf5ee4bb9, 0xf8ad6d60, 0xfc6c70d7, 0xe22b20d2, 0xe6ea3d65, 0xeba91bbc, 0xef68060b,
     0xd727bbb6, 0xd3e6a601, 0xdea580d8, 0xda649d6f, 0xc423cd6a, 0xc0e2d0dd, 0xcda1f604, 0xc960ebb3,
     0xbd3e8d7e, 0xb9ff90c9, 0xb4bcb610, 0xb07daba7, 0xae3afba2, 0xaafbe615, 0xa7b8c0cc, 0xa379dd7b,
     0x9b3660c6, 0x9ff77d71, 0x92b45ba8, 0x9675461f, 0x8832161a, 0x8cf30bad, 0x81b02d74, 0x857130c3,
     0x5d8a9099, 0x594b8d2e, 0x5408abf7, 0x50c9b640, 0x4e8ee645, 0x4a4ffbf2, 0x470cdd2b, 0x43cdc09c,
     0x7b827d21, 0x7f436096, 0x7200464f, 0x76c15bf8, 0x68860bfd, 0x6c47164a, 0x61043093, 0x65c52d24,
     0x119b4be9, 0x155a565e, 0x18197087, 0x1cd86d30, 0x029f3d35, 0x065e2082, 0x0b1d065b, 0x0fdc1bec,
     0x3793a651, 0x3352bbe6, 0x3e119d3f, 0x3ad08088, 0x2497d08d, 0x2056cd3a, 0x2d15ebe3, 0x29d4f654,
     0xc5a92679, 0xc1683bce, 0xcc2b1d17, 0xc8ea00a0, 0xd6ad50a5, 0xd26c4d12, 0xdf2f6bcb, 0xdbee767c,
     0xe3a1cbc1, 0xe760d676, 0xea23f0af, 0xeee2ed18, 0xf0a5bd1d, 0xf464a0aa, 0xf9278673, 0xfde69bc4,
     0x89b8fd09, 0x8d79e0be, 0x803ac667, 0x84fbdbd0, 0x9abc8bd5, 0x9e7d9662, 0x933eb0bb, 0x97ffad0c,
     0xafb010b1, 0xab710d06, 0xa6322bdf, 0xa2f33668, 0xbcb4666d, 0xb8757bda, 0xb5365d03, 0xb1f740b4]"

definition COMPUTE :: "u32 \<Rightarrow> u32 \<Rightarrow> u32" where
  "COMPUTE var ch = push_bit 8 var XOR crctab ! unat (drop_bit 24 var XOR ch)"

definition crc_step :: "u32 \<times> u32 \<Rightarrow> octet \<Rightarrow> u32 \<times> u32" where
  "crc_step s c = (COMPUTE (fst s) (ucast c), COMPUTE (snd s) (ucast c))"

text \<open>The bytes of the length, the lowest first, without leading zeros.\<close>

fun len_bytes :: "nat \<Rightarrow> octet list" where
  "len_bytes n = (if n = 0 then [] else of_nat (n mod 256) # len_bytes (n div 256))"

declare len_bytes.simps [simp del]

text \<open>The checksum and length, or None for the return value 1, and the new crc_total.\<close>

definition crc :: "reads \<Rightarrow> u32 \<Rightarrow> (u32 \<times> nat) option \<times> u32" where
  "crc inp crc_total =
     (let (bufs, failed) = inp;
          ((lcrc, total), len) = each_read crc_step bufs (0, NOT crc_total) 0
      in if failed then (None, total)
         else let (lcrc', total') = foldl crc_step (lcrc, total) (len_bytes len)
              in (Some (NOT lcrc', len), NOT total'))"

subsection \<open>crc32.c\<close>

definition crctab32 :: "u32 list" where
  "crctab32 =
    [0x00000000, 0x77073096, 0xee0e612c, 0x990951ba, 0x076dc419, 0x706af48f, 0xe963a535, 0x9e6495a3,
     0x0edb8832, 0x79dcb8a4, 0xe0d5e91e, 0x97d2d988, 0x09b64c2b, 0x7eb17cbd, 0xe7b82d07, 0x90bf1d91,
     0x1db71064, 0x6ab020f2, 0xf3b97148, 0x84be41de, 0x1adad47d, 0x6ddde4eb, 0xf4d4b551, 0x83d385c7,
     0x136c9856, 0x646ba8c0, 0xfd62f97a, 0x8a65c9ec, 0x14015c4f, 0x63066cd9, 0xfa0f3d63, 0x8d080df5,
     0x3b6e20c8, 0x4c69105e, 0xd56041e4, 0xa2677172, 0x3c03e4d1, 0x4b04d447, 0xd20d85fd, 0xa50ab56b,
     0x35b5a8fa, 0x42b2986c, 0xdbbbc9d6, 0xacbcf940, 0x32d86ce3, 0x45df5c75, 0xdcd60dcf, 0xabd13d59,
     0x26d930ac, 0x51de003a, 0xc8d75180, 0xbfd06116, 0x21b4f4b5, 0x56b3c423, 0xcfba9599, 0xb8bda50f,
     0x2802b89e, 0x5f058808, 0xc60cd9b2, 0xb10be924, 0x2f6f7c87, 0x58684c11, 0xc1611dab, 0xb6662d3d,
     0x76dc4190, 0x01db7106, 0x98d220bc, 0xefd5102a, 0x71b18589, 0x06b6b51f, 0x9fbfe4a5, 0xe8b8d433,
     0x7807c9a2, 0x0f00f934, 0x9609a88e, 0xe10e9818, 0x7f6a0dbb, 0x086d3d2d, 0x91646c97, 0xe6635c01,
     0x6b6b51f4, 0x1c6c6162, 0x856530d8, 0xf262004e, 0x6c0695ed, 0x1b01a57b, 0x8208f4c1, 0xf50fc457,
     0x65b0d9c6, 0x12b7e950, 0x8bbeb8ea, 0xfcb9887c, 0x62dd1ddf, 0x15da2d49, 0x8cd37cf3, 0xfbd44c65,
     0x4db26158, 0x3ab551ce, 0xa3bc0074, 0xd4bb30e2, 0x4adfa541, 0x3dd895d7, 0xa4d1c46d, 0xd3d6f4fb,
     0x4369e96a, 0x346ed9fc, 0xad678846, 0xda60b8d0, 0x44042d73, 0x33031de5, 0xaa0a4c5f, 0xdd0d7cc9,
     0x5005713c, 0x270241aa, 0xbe0b1010, 0xc90c2086, 0x5768b525, 0x206f85b3, 0xb966d409, 0xce61e49f,
     0x5edef90e, 0x29d9c998, 0xb0d09822, 0xc7d7a8b4, 0x59b33d17, 0x2eb40d81, 0xb7bd5c3b, 0xc0ba6cad,
     0xedb88320, 0x9abfb3b6, 0x03b6e20c, 0x74b1d29a, 0xead54739, 0x9dd277af, 0x04db2615, 0x73dc1683,
     0xe3630b12, 0x94643b84, 0x0d6d6a3e, 0x7a6a5aa8, 0xe40ecf0b, 0x9309ff9d, 0x0a00ae27, 0x7d079eb1,
     0xf00f9344, 0x8708a3d2, 0x1e01f268, 0x6906c2fe, 0xf762575d, 0x806567cb, 0x196c3671, 0x6e6b06e7,
     0xfed41b76, 0x89d32be0, 0x10da7a5a, 0x67dd4acc, 0xf9b9df6f, 0x8ebeeff9, 0x17b7be43, 0x60b08ed5,
     0xd6d6a3e8, 0xa1d1937e, 0x38d8c2c4, 0x4fdff252, 0xd1bb67f1, 0xa6bc5767, 0x3fb506dd, 0x48b2364b,
     0xd80d2bda, 0xaf0a1b4c, 0x36034af6, 0x41047a60, 0xdf60efc3, 0xa867df55, 0x316e8eef, 0x4669be79,
     0xcb61b38c, 0xbc66831a, 0x256fd2a0, 0x5268e236, 0xcc0c7795, 0xbb0b4703, 0x220216b9, 0x5505262f,
     0xc5ba3bbe, 0xb2bd0b28, 0x2bb45a92, 0x5cb36a04, 0xc2d7ffa7, 0xb5d0cf31, 0x2cd99e8b, 0x5bdeae1d,
     0x9b64c2b0, 0xec63f226, 0x756aa39c, 0x026d930a, 0x9c0906a9, 0xeb0e363f, 0x72076785, 0x05005713,
     0x95bf4a82, 0xe2b87a14, 0x7bb12bae, 0x0cb61b38, 0x92d28e9b, 0xe5d5be0d, 0x7cdcefb7, 0x0bdbdf21,
     0x86d3d2d4, 0xf1d4e242, 0x68ddb3f8, 0x1fda836e, 0x81be16cd, 0xf6b9265b, 0x6fb077e1, 0x18b74777,
     0x88085ae6, 0xff0f6a70, 0x66063bca, 0x11010b5c, 0x8f659eff, 0xf862ae69, 0x616bffd3, 0x166ccf45,
     0xa00ae278, 0xd70dd2ee, 0x4e048354, 0x3903b3c2, 0xa7672661, 0xd06016f7, 0x4969474d, 0x3e6e77db,
     0xaed16a4a, 0xd9d65adc, 0x40df0b66, 0x37d83bf0, 0xa9bcae53, 0xdebb9ec5, 0x47b2cf7f, 0x30b5ffe9,
     0xbdbdf21c, 0xcabac28a, 0x53b39330, 0x24b4a3a6, 0xbad03605, 0xcdd70693, 0x54de5729, 0x23d967bf,
     0xb3667a2e, 0xc4614ab8, 0x5d681b02, 0x2a6f2b94, 0xb40bbe37, 0xc30c8ea1, 0x5a05df1b, 0x2d02ef8d]"

definition CRC :: "u32 \<Rightarrow> u32 \<Rightarrow> u32" where
  "CRC c ch = drop_bit 8 c XOR crctab32 ! unat ((c XOR ch) AND 0xff)"

text \<open>The buffer is of type char: the byte is sign-extended.\<close>

definition crc32_step :: "u32 \<times> u32 \<Rightarrow> octet \<Rightarrow> u32 \<times> u32" where
  "crc32_step s c = (CRC (fst s) (scast c), CRC (snd s) (scast c))"

definition crc32 :: "reads \<Rightarrow> u32 \<Rightarrow> (u32 \<times> nat) option \<times> u32" where
  "crc32 inp crc32_total =
     (let (bufs, failed) = inp;
          ((lcrc, total), len) = each_read crc32_step bufs (NOT 0, NOT crc32_total) 0
      in if failed then (None, total) else (Some (NOT lcrc, len), NOT total))"

subsection \<open>sum1.c and sum2.c\<close>

definition sum1_step :: "u32 \<Rightarrow> octet \<Rightarrow> u32" where
  "sum1_step lcrc c =
     (let l = (if lcrc AND 1 \<noteq> 0 then lcrc OR 0x10000 else lcrc) in (drop_bit 1 l + ucast c) AND 0xffff)"

definition csum1 :: "reads \<Rightarrow> (u32 \<times> nat) option" where
  "csum1 inp =
     (let (bufs, failed) = inp; (lcrc, total) = each_read sum1_step bufs 0 0
      in if failed then None else Some (lcrc, total))"

definition fold16 :: "u32 \<Rightarrow> u32" where "fold16 lcrc = (lcrc AND 0xffff) + drop_bit 16 lcrc"

definition csum2 :: "reads \<Rightarrow> (u32 \<times> nat) option" where
  "csum2 inp =
     (let (bufs, failed) = inp; (lcrc, total) = each_read (\<lambda>l c. l + ucast c) bufs 0 0
      in if failed then None else Some (fold16 (fold16 lcrc), total))"

subsection \<open>Tables of a linear function\<close>

text \<open>A function from bytes that takes exclusive or to exclusive or is determined by its values at
  the powers of two, and a table of it is built by doubling.\<close>

definition doubled :: "(octet \<Rightarrow> u32) \<Rightarrow> nat \<Rightarrow> u32 list" where
  "doubled F n = foldl (\<lambda>t i. t @ map (\<lambda>x. x XOR F (push_bit i 1)) t) [0] [0..<n]"

locale linear_table =
  fixes F :: "octet \<Rightarrow> u32" and tab :: "u32 list"
  assumes linear: "F (a XOR b) = F a XOR F b"
    and table: "tab = doubled F 8"
begin

lemma F_0: "F 0 = 0"
  using linear [of 0 0] by simp

lemma doubled_nth: "n \<le> 8 \<Longrightarrow> length (doubled F n) = 2 ^ n \<and> (\<forall>i < 2 ^ n. doubled F n ! i = F (of_nat i))"
proof (induction n)
  case 0
  then show ?case by (simp add: doubled_def F_0)
next
  case (Suc n)
  let ?d = "doubled F n"
  have IH: "length ?d = 2 ^ n" "\<And>i. i < 2 ^ n \<Longrightarrow> ?d ! i = F (of_nat i)" using Suc by simp_all
  have step: "doubled F (Suc n) = ?d @ map (\<lambda>x. x XOR F (push_bit n 1)) ?d" by (simp add: doubled_def)
  have up: "F (of_nat (i + 2 ^ n)) = F (of_nat i) XOR F (push_bit n 1)" if "i < 2 ^ n" for i
  proof -
    have "(of_nat i :: octet) XOR push_bit n 1 = of_nat i + push_bit n 1"
    proof -
      have "take_bit n (of_nat i :: octet) = of_nat (take_bit n i)" by (simp add: of_nat_take_bit)
      then have "take_bit n (of_nat i :: octet) = of_nat i" using that by (simp add: take_bit_nat_eq_self)
      then have "\<not> bit (of_nat i :: octet) n" by (metis bit_take_bit_iff less_irrefl)
      then have dis: "\<not> bit (of_nat i :: octet) m \<or> \<not> bit (push_bit n 1 :: octet) m" for m
        by (auto simp: bit_push_bit_iff bit_1_iff bit_exp_iff)
      have "(of_nat i :: octet) XOR push_bit n 1 = of_nat i OR push_bit n 1"
        using dis by (intro bit_eqI) (auto simp: bit_xor_iff bit_or_iff)
      also have "\<dots> = of_nat i + push_bit n 1" by (rule disjunctive_add [symmetric]) (rule dis)
      finally show ?thesis .
    qed
    then show ?thesis using linear [of "of_nat i" "push_bit n 1"] by (simp add: push_bit_of_1)
  qed
  show ?case
  proof (intro conjI allI impI)
    show "length (doubled F (Suc n)) = 2 ^ Suc n" by (simp add: step IH(1))
    fix i :: nat assume i: "i < 2 ^ Suc n"
    show "doubled F (Suc n) ! i = F (of_nat i)"
    proof (cases "i < 2 ^ n")
      case True
      then show ?thesis by (simp add: step nth_append IH)
    next
      case False
      then have "i - 2 ^ n < 2 ^ n" "i - 2 ^ n + 2 ^ n = i" using i by simp_all
      then show ?thesis using False up [of "i - 2 ^ n"] by (simp add: step nth_append IH)
    qed
  qed
qed

lemma tab_nth: "tab ! unat c = F c"
proof -
  have "unat c < 2 ^ 8" using unsigned_less [of c] by simp
  then show ?thesis using doubled_nth [of 8] table by simp
qed

end

subsection \<open>Division bit by bit\<close>

text \<open>The POSIX register: the next message bit is compared with the top bit; the polynomial is
  0x04c11db7, the bits of a byte come with the highest first.\<close>

definition crc_bit :: "u32 \<Rightarrow> bool \<Rightarrow> u32" where
  "crc_bit r b = (if bit r 31 \<noteq> b then push_bit 1 r XOR 0x04c11db7 else push_bit 1 r)"

definition crc_byte :: "u32 \<Rightarrow> octet \<Rightarrow> u32" where
  "crc_byte r c = foldl crc_bit r (map (bit c) [7, 6, 5, 4, 3, 2, 1, 0])"

text \<open>The reflected register of CRC-32: the lowest bit first, the polynomial mirrored.\<close>

definition crc32_bit :: "u32 \<Rightarrow> bool \<Rightarrow> u32" where
  "crc32_bit r b = (if bit r 0 \<noteq> b then drop_bit 1 r XOR 0xedb88320 else drop_bit 1 r)"

definition crc32_byte :: "u32 \<Rightarrow> octet \<Rightarrow> u32" where
  "crc32_byte r c = foldl crc32_bit r (map (bit c) [0, 1, 2, 3, 4, 5, 6, 7])"

lemma crc_bit_linear: "crc_bit (r XOR s) (a = (\<not> b)) = crc_bit r a XOR crc_bit s b"
  by (auto simp: crc_bit_def bit_xor_iff push_bit_xor ac_simps)

lemma crc32_bit_linear: "crc32_bit (r XOR s) (a = (\<not> b)) = crc32_bit r a XOR crc32_bit s b"
  by (auto simp: crc32_bit_def bit_xor_iff drop_bit_xor ac_simps)

lemma fold_linear:
  fixes f :: "u32 \<Rightarrow> bool \<Rightarrow> u32" and c d :: octet
  assumes "\<And>r s a b. f (r XOR s) (a = (\<not> b)) = f r a XOR f s b"
  shows "foldl f (r XOR s) (map (bit (c XOR d)) ns) = foldl f r (map (bit c) ns) XOR foldl f s (map (bit d) ns)"
proof (induction ns arbitrary: r s)
  case (Cons n ns)
  have "f (r XOR s) (bit (c XOR d) n) = f r (bit c n) XOR f s (bit d n)"
    using assms [of r s "bit c n" "bit d n"] by (simp add: bit_xor_iff)
  then show ?case using Cons by simp
qed simp

lemma crc_byte_linear: "crc_byte (r XOR s) (a XOR b) = crc_byte r a XOR crc_byte s b"
  unfolding crc_byte_def by (rule fold_linear) (rule crc_bit_linear)

lemma crc32_byte_linear: "crc32_byte (r XOR s) (a XOR b) = crc32_byte r a XOR crc32_byte s b"
  unfolding crc32_byte_def by (rule fold_linear) (rule crc32_bit_linear)

lemma crc_basis:
  "map (\<lambda>i. crc_byte 0 (push_bit i 1)) [0..<8]
    = [0x04c11db7, 0x09823b6e, 0x130476dc, 0x2608edb8, 0x4c11db70, 0x9823b6e0, 0x34867077, 0x690ce0ee]"
  "map (\<lambda>i. crc_byte (push_bit 24 (ucast (push_bit i 1 :: octet))) 0) [0..<8]
    = [0x04c11db7, 0x09823b6e, 0x130476dc, 0x2608edb8, 0x4c11db70, 0x9823b6e0, 0x34867077, 0x690ce0ee]"
  by code_simp+

lemma crc32_basis:
  "map (\<lambda>i. crc32_byte 0 (push_bit i 1)) [0..<8]
    = [0x77073096, 0xee0e612c, 0x076dc419, 0x0edb8832, 0x1db71064, 0x3b6e20c8, 0x76dc4190, 0xedb88320]"
  "map (\<lambda>i. crc32_byte (ucast (push_bit i 1 :: octet)) 0) [0..<8]
    = [0x77073096, 0xee0e612c, 0x076dc419, 0x0edb8832, 0x1db71064, 0x3b6e20c8, 0x76dc4190, 0xedb88320]"
  by code_simp+

text \<open>A table from the values at the powers of two.\<close>

lemma doubled_basis: "doubled F 8 = foldl (\<lambda>t v. t @ map (\<lambda>x. x XOR v) t) [0] (map (\<lambda>i. F (push_bit i 1)) [0..<8])"
  by (simp add: doubled_def foldl_map)

lemma crctab_doubled:
  "crctab = foldl (\<lambda>t v. t @ map (\<lambda>x. x XOR v) t) [0]
     [0x04c11db7, 0x09823b6e, 0x130476dc, 0x2608edb8, 0x4c11db70, 0x9823b6e0, 0x34867077, 0x690ce0ee]"
  by (simp add: crctab_def)

lemma crctab32_doubled:
  "crctab32 = foldl (\<lambda>t v. t @ map (\<lambda>x. x XOR v) t) [0]
     [0x77073096, 0xee0e612c, 0x076dc419, 0x0edb8832, 0x1db71064, 0x3b6e20c8, 0x76dc4190, 0xedb88320]"
  by (simp add: crctab32_def)

interpretation posix: linear_table "crc_byte 0" crctab
proof
  show "crc_byte 0 (a XOR b) = crc_byte 0 a XOR crc_byte 0 b" for a b using crc_byte_linear [of 0 0 a b] by simp
  show "crctab = doubled (crc_byte 0) 8" unfolding doubled_basis crc_basis by (rule crctab_doubled)
qed

interpretation posix_top: linear_table "\<lambda>c. crc_byte (push_bit 24 (ucast c)) 0" crctab
proof
  show "crc_byte (push_bit 24 (ucast (a XOR b))) 0 = crc_byte (push_bit 24 (ucast a)) 0 XOR crc_byte (push_bit 24 (ucast b)) 0"
    for a b :: octet
    using crc_byte_linear [of "push_bit 24 (ucast a)" "push_bit 24 (ucast b)" 0 0] by (simp add: push_bit_xor unsigned_xor_eq)
  show "crctab = doubled (\<lambda>c. crc_byte (push_bit 24 (ucast c)) 0) 8"
    unfolding doubled_basis crc_basis by (rule crctab_doubled)
qed

interpretation ieee: linear_table "crc32_byte 0" crctab32
proof
  show "crc32_byte 0 (a XOR b) = crc32_byte 0 a XOR crc32_byte 0 b" for a b using crc32_byte_linear [of 0 0 a b] by simp
  show "crctab32 = doubled (crc32_byte 0) 8" unfolding doubled_basis crc32_basis by (rule crctab32_doubled)
qed

interpretation ieee_low: linear_table "\<lambda>c. crc32_byte (ucast c) 0" crctab32
proof
  show "crc32_byte (ucast (a XOR b)) 0 = crc32_byte (ucast a) 0 XOR crc32_byte (ucast b) 0" for a b :: octet
    using crc32_byte_linear [of "ucast a" "ucast b" 0 0] by (simp add: unsigned_xor_eq)
  show "crctab32 = doubled (\<lambda>c. crc32_byte (ucast c) 0) 8"
    unfolding doubled_basis crc32_basis by (rule crctab32_doubled)
qed

text \<open>Without bits in the byte that leaves the register, eight steps are a shift.\<close>

lemma foldl_replicate_Suc: "foldl f r (replicate (Suc k) x) = f (foldl f r (replicate k x)) x"
  by (induction k arbitrary: r) simp_all

lemma crc_byte_shift:
  assumes "\<And>n. 24 \<le> n \<Longrightarrow> \<not> bit r n"
  shows "crc_byte r 0 = push_bit 8 r"
proof -
  have "foldl crc_bit r (replicate k False) = push_bit k r" if "k \<le> 8" for k
    using that
  proof (induction k)
    case (Suc k)
    have "\<not> bit (push_bit k r) 31" using assms [of "31 - k"] Suc.prems by (auto simp: bit_push_bit_iff)
    then have "crc_bit (push_bit k r) False = push_bit (Suc k) r" by (simp add: crc_bit_def)
    then show ?case using Suc by (simp only: foldl_replicate_Suc Suc_leD)
  qed simp
  from this [of 8] show ?thesis by (simp add: crc_byte_def numeral_eq_Suc)
qed

lemma crc32_byte_shift:
  assumes "\<And>n. n < 8 \<Longrightarrow> \<not> bit r n"
  shows "crc32_byte r 0 = drop_bit 8 r"
proof -
  have "foldl crc32_bit r (replicate k False) = drop_bit k r" if "k \<le> 8" for k
    using that
  proof (induction k)
    case (Suc k)
    have "\<not> bit (drop_bit k r) 0" using assms [of k] Suc.prems by (simp add: bit_drop_bit_eq)
    then have "crc32_bit (drop_bit k r) False = drop_bit (Suc k) r" by (simp add: crc32_bit_def)
    then show ?case using Suc by (simp only: foldl_replicate_Suc Suc_leD)
  qed simp
  from this [of 8] show ?thesis by (simp add: crc32_byte_def numeral_eq_Suc)
qed

lemma unat_ucast_octet: "unat (ucast (x :: octet) :: u32) = unat x"
proof -
  have "unat x < 2 ^ 32" using unsigned_less [of x] by (rule less_le_trans) simp
  then show ?thesis by (simp add: unsigned_ucast_eq take_bit_nat_eq_self)
qed

lemma bit_scast_octet: "n < 8 \<Longrightarrow> bit (scast (c :: octet) :: u32) n = bit c n"
proof -
  assume "n < 8"
  then have "min 7 n = n" "n < 32" by simp_all
  then show ?thesis by (auto simp: bit_simps)
qed

lemma COMPUTE_byte: "COMPUTE r (ucast c) = crc_byte r c"
proof -
  define t :: octet where "t = ucast (drop_bit 24 r)"
  define low where "low = take_bit 24 r"
  have r: "r = low XOR push_bit 24 (ucast t)"
    by (rule bit_eqI) (auto simp: low_def t_def bit_simps)
  have i: "unat (drop_bit 24 r XOR ucast c) = unat (t XOR c)"
  proof -
    have "drop_bit 24 r XOR ucast c = ucast (t XOR c)" by (rule bit_eqI) (auto simp: t_def bit_simps dest: bit_imp_le_length)
    then show ?thesis by (simp only: unat_ucast_octet)
  qed
  have s: "crc_byte low 0 = push_bit 8 low" by (rule crc_byte_shift) (simp add: low_def bit_simps)
  have "crc_byte r c = crc_byte (low XOR push_bit 24 (ucast t)) (0 XOR 0) XOR crc_byte 0 c"
    using crc_byte_linear [of r 0 0 c] r by simp
  also have "\<dots> = push_bit 8 low XOR crctab ! unat t XOR crctab ! unat c"
    by (simp only: crc_byte_linear s posix_top.tab_nth [of t] posix.tab_nth [of c] xor.assoc)
  also have "push_bit 8 low = push_bit 8 r" by (rule bit_eqI) (auto simp: low_def bit_simps)
  also have "push_bit 8 r XOR crctab ! unat t XOR crctab ! unat c = push_bit 8 r XOR crctab ! unat (t XOR c)"
    by (simp add: posix.tab_nth posix.linear xor.assoc)
  finally show ?thesis by (simp add: COMPUTE_def i)
qed

lemma CRC_byte: "CRC r (scast c) = crc32_byte r c"
proof -
  define t :: octet where "t = ucast r"
  define high where "high = push_bit 8 (drop_bit 8 r)"
  have r: "r = high XOR ucast t" by (rule bit_eqI) (auto simp: high_def t_def bit_simps)
  have i: "unat ((r XOR scast c) AND 0xff) = unat (t XOR c)"
  proof -
    have "(r XOR scast c) AND mask 8 = ucast (t XOR c)"
    proof (rule bit_eqI)
      fix n
      show "bit ((r XOR scast c) AND mask 8) n = bit (ucast (t XOR c) :: u32) n"
        by (cases "n < 8") (auto simp: bit_and_iff bit_xor_iff bit_mask_iff bit_scast_octet bit_ucast_iff t_def
          dest: bit_imp_le_length)
    qed
    moreover have "(mask 8 :: u32) = 0xff" by (simp add: mask_eq_exp_minus_1)
    ultimately have "(r XOR scast c) AND 0xff = ucast (t XOR c)" by simp
    then show ?thesis by (simp only: unat_ucast_octet)
  qed
  have s: "crc32_byte high 0 = drop_bit 8 high" by (rule crc32_byte_shift) (simp add: high_def bit_simps)
  have "crc32_byte r c = crc32_byte (high XOR ucast t) (0 XOR 0) XOR crc32_byte 0 c"
    using crc32_byte_linear [of r 0 0 c] r by simp
  also have "\<dots> = drop_bit 8 high XOR crctab32 ! unat t XOR crctab32 ! unat c"
    by (simp only: crc32_byte_linear s ieee_low.tab_nth [of t] ieee.tab_nth [of c] xor.assoc)
  also have "drop_bit 8 high = drop_bit 8 r"
    by (rule bit_eqI) (auto simp: high_def bit_simps dest: bit_imp_le_length)
  also have "drop_bit 8 r XOR crctab32 ! unat t XOR crctab32 ! unat c = drop_bit 8 r XOR crctab32 ! unat (t XOR c)"
    by (simp add: ieee.tab_nth ieee.linear xor.assoc)
  finally show ?thesis by (simp add: CRC_def i)
qed

subsection \<open>What the commands compute\<close>

lemma crc_step_byte: "foldl crc_step (r, s) cs = (foldl crc_byte r cs, foldl crc_byte s cs)"
  by (induction cs arbitrary: r s) (simp_all add: crc_step_def COMPUTE_byte)

lemma crc32_step_byte: "foldl crc32_step (r, s) cs = (foldl crc32_byte r cs, foldl crc32_byte s cs)"
  by (induction cs arbitrary: r s) (simp_all add: crc32_step_def CRC_byte)

text \<open>
  C19. The table-driven crc() is the POSIX checksum: however read() cuts the file into buffers, the
  result is the complement of the remainder that division bit by bit with the polynomial
  0x04c11db7 gives for the bytes of the file followed by the bytes of its length, together with
  the length; crc_total goes on over the same bytes from its last value. A read error gives
  no checksum.
\<close>

theorem crc_posix:
  "crc (bufs, failed) crc_total =
    (let bytes = file_data bufs; msg = bytes @ len_bytes (length bytes) in
     if failed then (None, foldl crc_byte (NOT crc_total) bytes)
     else (Some (NOT (foldl crc_byte 0 msg), length bytes), NOT (foldl crc_byte (NOT crc_total) msg)))"
  by (simp add: crc_def each_read_data crc_step_byte Let_def)

text \<open>
  The table-driven crc32() of -o 3 is the CRC-32 of Ethernet: the complement of the remainder of
  the reflected division bit by bit from all ones, with the bytes taken from a signed buffer, and
  independent of the sizes of the reads.
\<close>

theorem crc32_ieee:
  "crc32 (bufs, failed) crc32_total =
    (let bytes = file_data bufs in
     if failed then (None, foldl crc32_byte (NOT crc32_total) bytes)
     else (Some (NOT (foldl crc32_byte (NOT 0) bytes), length bytes), NOT (foldl crc32_byte (NOT crc32_total) bytes)))"
  by (simp add: crc32_def each_read_data crc32_step_byte Let_def)

text \<open>Words of the sums as numbers.\<close>

lemma uint_low16: "uint (x AND 0xffff :: u32) = uint x mod 65536"
proof -
  have "(0xffff :: u32) = mask 16" by (simp add: mask_eq_exp_minus_1)
  then have "x AND 0xffff = take_bit 16 x" by (simp only: take_bit_eq_mask)
  then show ?thesis by (simp add: take_bit_eq_mod uint_mod_distrib)
qed

lemma uint_shift: "uint (drop_bit 1 x :: u32) = uint x div 2" "uint (drop_bit 16 x :: u32) = uint x div 65536"
  by (simp_all add: drop_bit_eq_div uint_div_distrib)

lemma uint_add_small: "uint x + uint y < 2 ^ 32 \<Longrightarrow> uint (x + y :: u32) = uint x + uint y"
  by (simp add: uint_word_ariths(1))

lemma uint_ucast_octet: "uint (ucast (c :: octet) :: u32) = uint c" "0 \<le> uint c" "uint c < 256"
proof -
  show r: "0 \<le> uint c" "uint c < 256" using uint_bounded [of c] by simp_all
  show "uint (ucast c :: u32) = uint c" using r by (simp add: unsigned_ucast_eq take_bit_int_eq_self)
qed

text \<open>One step of the rotating sum, over the numbers.\<close>

definition rotsum :: "int \<Rightarrow> octet \<Rightarrow> int" where
  "rotsum s c = (s div 2 + 32768 * (s mod 2) + uint c) mod 65536"

lemma sum1_step_rot:
  assumes "uint l < 65536"
  shows "uint (sum1_step l c) = rotsum (uint l) c" "uint (sum1_step l c) < 65536"
proof -
  have odd: "l AND 1 \<noteq> 0 \<longleftrightarrow> uint l mod 2 \<noteq> 0" by (simp add: and_one_eq word_uint_eq_iff uint_mod_distrib)
  have hi: "uint (l OR 0x10000) = uint l + 65536"
  proof -
    have "\<not> bit l 16"
    proof
      assume "bit l 16"
      then have "bit (uint l) 16" by (simp add: bit_uint_iff)
      moreover have "take_bit 16 (uint l) = uint l" using assms by (simp add: take_bit_int_eq_self)
      ultimately show False by (metis bit_take_bit_iff less_irrefl)
    qed
    then have "l + 0x10000 = l OR 0x10000"
      by (intro disjunctive_add) (auto simp: bit_exp_iff [of 16, simplified])
    moreover have "uint (l + 0x10000) = uint l + 65536" using assms by (subst uint_add_small) simp_all
    ultimately show ?thesis by simp
  qed
  have r: "uint (drop_bit 1 (if l AND 1 \<noteq> 0 then l OR 0x10000 else l)) = uint l div 2 + 32768 * (uint l mod 2)"
  proof (cases "l AND 1 \<noteq> 0")
    case True
    then have "uint l mod 2 = 1" using odd by simp
    moreover have "(uint l + 65536) div 2 = uint l div 2 + 32768" by simp
    ultimately show ?thesis unfolding if_P [OF True] uint_shift hi by simp
  next
    case False
    then have "uint l mod 2 = 0" using odd by simp
    then show ?thesis unfolding if_not_P [OF False] uint_shift by simp
  qed
  moreover have "uint l div 2 + 32768 * (uint l mod 2) < 65536" using assms by simp
  ultimately show "uint (sum1_step l c) = rotsum (uint l) c"
    using uint_ucast_octet [of c]
    by (simp only: sum1_step_def Let_def uint_low16 rotsum_def) (subst uint_add_small, simp_all)
  then show "uint (sum1_step l c) < 65536" by (simp add: rotsum_def)
qed

lemma sum1_fold: "uint l < 65536 \<Longrightarrow> uint (foldl sum1_step l cs) = foldl rotsum (uint l) cs"
proof (induction cs arbitrary: l)
  case (Cons c cs)
  then show ?case using sum1_step_rot [OF Cons.prems, of c] by simp
qed simp

text \<open>
  sum (-o 1) is the 16-bit sum with a rotation to the right before each addition, overflow
  discarded: each step maps s to (s / 2 + 2^15 * (s mod 2) + byte) mod 2^16, whatever the sizes of
  the reads.
\<close>

theorem csum1_rotates:
  "map_option (\<lambda>(s, n). (uint s, n)) (csum1 (bufs, failed))
    = (if failed then None else Some (foldl rotsum 0 (file_data bufs), length (file_data bufs)))"
  using sum1_fold [of 0 "file_data bufs"] by (simp add: csum1_def each_read_data Let_def)

lemma sum_fold: "uint (foldl (\<lambda>l c. l + ucast c) l cs :: u32) = (uint l + sum_list (map uint (cs :: octet list))) mod 2 ^ 32"
proof (induction cs arbitrary: l)
  case (Cons c cs)
  have "uint (l + ucast c) = (uint l + uint c) mod 2 ^ 32" by (simp add: uint_word_ariths(1) uint_ucast_octet)
  then show ?case using Cons [of "l + ucast c"] by (simp add: mod_add_left_eq add.assoc)
qed (simp add: uint_bounded [where 'a = 32, simplified])

lemma fold16_uint: "uint (fold16 x) = uint x mod 65536 + uint x div 65536"
proof -
  have b: "uint x < 2 ^ 32" using uint_bounded [of x] by simp
  have "uint x mod 65536 < 65536" "uint x div 65536 < 65536" using b by simp_all
  then show ?thesis unfolding fold16_def by (subst uint_add_small) (simp_all add: uint_low16 uint_shift)
qed

text \<open>
  The algorithm of -o 2 adds the bytes modulo 2^32 and folds the carries back: the checksum fits into 16 bits and
  is congruent to that sum modulo 2^16 - 1; it is 0 only for a sum that is 0.
\<close>

theorem csum2_folds:
  "case csum2 (bufs, failed) of
     None \<Rightarrow> failed
   | Some (s, n) \<Rightarrow>
       (let total = sum_list (map uint (file_data bufs)) mod 2 ^ 32 in
        \<not> failed \<and> n = length (file_data bufs) \<and> uint s < 65536 \<and> uint s mod 65535 = total mod 65535
        \<and> (uint s = 0 \<longleftrightarrow> total = 0))"
proof (cases failed)
  case False
  define x where "x = foldl (\<lambda>l c. l + ucast c) (0 :: u32) (file_data bufs)"
  have x: "uint x = sum_list (map uint (file_data bufs)) mod 2 ^ 32" using sum_fold [of 0 "file_data bufs"] by (simp add: x_def)
  have b: "0 \<le> uint x" "uint x < 2 ^ 32" using uint_bounded [of x] by simp_all
  define m where "m = uint x mod 65536" define d where "d = uint x div 65536"
  have e: "uint x = 65536 * d + m" "0 \<le> m" "m < 65536" "0 \<le> d" "d < 65536" using b by (simp_all add: m_def d_def pos_imp_zdiv_nonneg_iff)
  have f: "uint (fold16 (fold16 x)) = (if m + d < 65536 then m + d else m + d - 65535)"
  proof (cases "m + d < 65536")
    case False
    define y where "y = m + d - 65536"
    have y: "m + d = y + 65536" "0 \<le> y" "y < 65536" using e(2-5) False by (simp_all add: y_def)
    have "(y + 65536) mod 65536 = y" "(y + 65536) div 65536 = 1" using y(2,3) by simp_all
    then show ?thesis unfolding fold16_uint m_def [symmetric] d_def [symmetric] using y False by simp
  qed (use e(2-5) in \<open>simp add: fold16_uint m_def [symmetric] d_def [symmetric]\<close>)
  define k where "k = (if m + d < 65536 then d else d + 1)"
  have "uint x = uint (fold16 (fold16 x)) + k * 65535" using e(1) f by (simp add: k_def)
  then have g: "uint (fold16 (fold16 x)) mod 65535 = uint x mod 65535" by (metis mod_mult_self1)
  have "csum2 (bufs, failed) = Some (fold16 (fold16 x), length (file_data bufs))"
    using False by (simp add: csum2_def each_read_data Let_def x_def)
  then show ?thesis using False f g e x by (auto simp: Let_def split: if_splits)
qed (simp add: csum2_def Let_def each_read_data)

end
