(* ===== verification/Zopen.thy ===== *)
theory Zopen
  imports Cmd_Prelude
begin

unbundle bit_operations_syntax

text \<open>
  The compressed streams of compress(1), file_cmds/compress/zopen.c: the state of a stream, the
  packing of variable width codes into the buffer (output, getcode), the writer with its hash
  table (zwrite, cl_hash, cl_block, zclose) and the reader with its string table (zread).

  A stream is read or written, never both, so the overlaid tables of the C structure are separate
  fields: htab and codetab for the writer, codetab (tab_prefixof) and the bytes of tab_suffixof for
  the reader, whose output stack is a list with its top first. Longs are integers, the file is the
  list of its bytes: those written so far, or those still to be read.
\<close>

subsection \<open>The stream\<close>

definition BITS :: nat where "BITS = 16"
definition HSIZE :: int where "HSIZE = 69001"
definition INIT_BITS :: nat where "INIT_BITS = 9"
definition BIT_MASK :: int where "BIT_MASK = 31"
definition BLOCK_MASK :: int where "BLOCK_MASK = 128"
definition CHECK_GAP :: int where "CHECK_GAP = 10000"
definition FIRST :: int where "FIRST = 257"
definition CLEAR :: int where "CLEAR = 256"

definition magic_header :: "octet list" where "magic_header = [0x1F, 0x9D]"

definition MAXCODE :: "nat \<Rightarrow> int" where "MAXCODE n = push_bit n 1 - 1"

text \<open>The room behind the suffix table in the htab array, where the output stack lies
  (a count_int has eight bytes).\<close>

definition DE_STACK_SIZE :: nat where "DE_STACK_SIZE = 8 * 69001 - 2 ^ BITS"

datatype zphase = S_START | S_MIDDLE | S_EOF

record zstate =
  zfile :: "octet list"
  zmode :: char
  zphase :: zphase
  n_bits :: nat
  maxbits :: nat
  maxcode :: int
  maxmaxcode :: int
  htab :: "int \<Rightarrow> int"
  codetab :: "int \<Rightarrow> int"
  hsize :: int
  free_ent :: int
  block_compress :: int
  clear_flg :: int
  ratio :: int
  checkpoint :: int
  offset :: nat
  in_count :: int
  bytes_out :: int
  out_count :: int
  zbuf :: "octet list"
  ent :: int
  hsize_reg :: int
  hshift :: nat
  tab_suffix :: "int \<Rightarrow> octet"
  stack :: "octet list"
  finchar :: int
  oldcode :: int
  incode :: int
  roffset :: nat
  zsize :: int
  gbuf :: "octet list"

definition zopen :: "octet list \<Rightarrow> char \<Rightarrow> int \<Rightarrow> zstate option" where
  "zopen file mode bits =
     (if mode \<noteq> CHR ''r'' \<and> mode \<noteq> CHR ''w'' \<or> bits < 0 \<or> bits > int BITS then None
      else let mb = (if bits \<noteq> 0 then nat bits else BITS) in
        Some \<lparr>zfile = (if mode = CHR ''r'' then file else []), zmode = mode, zphase = S_START,
          n_bits = 0, maxbits = mb, maxcode = 0, maxmaxcode = push_bit mb 1, htab = (\<lambda>_. 0), codetab = (\<lambda>_. 0),
          hsize = HSIZE, free_ent = 0, block_compress = BLOCK_MASK, clear_flg = 0, ratio = 0,
          checkpoint = CHECK_GAP, offset = 0, in_count = 1, bytes_out = 0, out_count = 0,
          zbuf = replicate BITS 0, ent = 0, hsize_reg = 0, hshift = 0, tab_suffix = (\<lambda>_. 0), stack = [],
          finchar = 0, oldcode = 0, incode = 0, roffset = 0, zsize = 0, gbuf = replicate BITS 0\<rparr>)"

definition fwrite :: "octet list \<Rightarrow> zstate \<Rightarrow> zstate" where
  "fwrite bs s = s\<lparr>zfile := zfile s @ bs\<rparr>"

subsection \<open>Packing codes\<close>

definition lmask :: "octet list" where
  "lmask = [0xff, 0xfe, 0xfc, 0xf8, 0xf0, 0xe0, 0xc0, 0x80, 0x00]"
definition rmask :: "octet list" where
  "rmask = [0x00, 0x01, 0x03, 0x07, 0x0f, 0x1f, 0x3f, 0x7f, 0xff]"

definition put_code :: "nat \<Rightarrow> nat \<Rightarrow> int \<Rightarrow> octet list \<Rightarrow> octet list" where
  "put_code nb off ocode b =
     (let p = drop_bit 3 off; r = off AND 7;
          b1 = b[p := (b ! p AND rmask ! r) OR (word_of_int (push_bit r ocode) AND lmask ! r)];
          bits1 = (int nb - (8 - int r)) mod 2 ^ 32; ocode1 = drop_bit (8 - r) ocode;
          (b2, p2, ocode2, bits2) =
            (if bits1 \<ge> 8 then (b1[p + 1 := word_of_int ocode1], p + 2, drop_bit 8 ocode1, bits1 - 8)
             else (b1, p + 1, ocode1, bits1))
      in if bits2 \<noteq> 0 then b2[p2 := word_of_int ocode2] else b2)"

text \<open>The part of output() that enlarges the codes, or returns to the initial size after a clear.\<close>

definition grow_code :: "zstate \<Rightarrow> zstate" where
  "grow_code s =
     (if free_ent s > maxcode s \<or> clear_flg s > 0 then
        let s1 = (if offset s > 0 then (fwrite (take (n_bits s) (zbuf s)) s)\<lparr>bytes_out := bytes_out s + int (n_bits s)\<rparr> else s);
            s2 = s1\<lparr>offset := 0\<rparr>
        in if clear_flg s2 \<noteq> 0 then s2\<lparr>n_bits := INIT_BITS, maxcode := MAXCODE INIT_BITS, clear_flg := 0\<rparr>
           else s2\<lparr>n_bits := n_bits s2 + 1,
                   maxcode := (if n_bits s2 + 1 = maxbits s2 then maxmaxcode s2 else MAXCODE (n_bits s2 + 1))\<rparr>
      else s)"

definition zoutput :: "int \<Rightarrow> zstate \<Rightarrow> zstate" where
  "zoutput ocode s =
     (if ocode \<ge> 0 then
        let s1 = s\<lparr>zbuf := put_code (n_bits s) (offset s) ocode (zbuf s), offset := offset s + n_bits s\<rparr>;
            s2 = (if offset s1 = 8 * n_bits s1
                  then (fwrite (take (n_bits s1) (zbuf s1)) s1)\<lparr>bytes_out := bytes_out s1 + int (n_bits s1), offset := 0\<rparr>
                  else s1)
        in grow_code s2
      else if offset s > 0 then
        let k = (offset s + 7) div 8
        in (fwrite (take k (zbuf s)) s)\<lparr>bytes_out := bytes_out s + int k, offset := 0\<rparr>
      else s\<lparr>offset := 0\<rparr>)"

subsection \<open>The hash table of the writer\<close>

text \<open>The unrolled loop of cl_hash: sixteen entries below the pointer while i is not negative, then
  the rest.\<close>

primrec clear_below :: "nat \<Rightarrow> int \<Rightarrow> (int \<Rightarrow> int) \<Rightarrow> int \<Rightarrow> int" where
  "clear_below 0 p t = t"
| "clear_below (Suc k) p t = clear_below k (p - 1) (t(p - 1 := -1))"

function cl_hash_loop :: "int \<Rightarrow> int \<Rightarrow> (int \<Rightarrow> int) \<Rightarrow> int \<Rightarrow> int" where
  "cl_hash_loop i p t =
     (let t1 = clear_below 16 p t; i1 = i - 16 in
      if i1 \<ge> 0 then cl_hash_loop i1 (p - 16) t1 else clear_below (nat (i1 + 16)) (p - 16) t1)"
  by pat_completeness auto
termination by (relation "measure (\<lambda>(i, p, t). nat (i + 1))") auto

declare cl_hash_loop.simps [simp del]

definition cl_hash :: "int \<Rightarrow> zstate \<Rightarrow> zstate" where
  "cl_hash cl_hsize s = s\<lparr>htab := cl_hash_loop (cl_hsize - 16) cl_hsize (htab s)\<rparr>"

text \<open>The secondary probing. The first component of the result tells whether the key was found.
  A search that does not end within the size of the table repeats its slots for ever: None.\<close>

fun probe :: "nat \<Rightarrow> (int \<Rightarrow> int) \<Rightarrow> int \<Rightarrow> int \<Rightarrow> int \<Rightarrow> int \<Rightarrow> (bool \<times> int) option" where
  "probe 0 t m key disp i = None"
| "probe (Suc k) t m key disp i =
     (let i1 = (if i - disp < 0 then i - disp + m else i - disp) in
      if t i1 = key then Some (True, i1)
      else if t i1 \<ge> 0 then probe k t m key disp i1
      else Some (False, i1))"

definition hash_search :: "(int \<Rightarrow> int) \<Rightarrow> int \<Rightarrow> int \<Rightarrow> int \<Rightarrow> (bool \<times> int) option" where
  "hash_search t m key i =
     (if t i = key then Some (True, i)
      else if t i < 0 then Some (False, i)
      else probe (nat m) t m key (if i = 0 then 1 else m - i) i)"

subsection \<open>Writing\<close>

definition cl_block :: "zstate \<Rightarrow> zstate" where
  "cl_block s0 =
     (let s = s0\<lparr>checkpoint := in_count s0 + CHECK_GAP\<rparr>;
          rat = (if in_count s > 0x007fffff then
                   let r = drop_bit 8 (bytes_out s) in if r = 0 then 0x7fffffff else in_count s sdiv r
                 else push_bit 8 (in_count s) sdiv bytes_out s)
      in if rat > ratio s then s\<lparr>ratio := rat\<rparr>
         else zoutput CLEAR ((cl_hash (hsize s) (s\<lparr>ratio := 0\<rparr>))\<lparr>free_ent := FIRST, clear_flg := 1\<rparr>))"

text \<open>One byte of the loop of zwrite; the u_short codetab keeps sixteen bits.\<close>

definition zwrite_byte :: "octet \<Rightarrow> zstate \<Rightarrow> zstate option" where
  "zwrite_byte b s0 =
     (let c = uint b; s = s0\<lparr>in_count := in_count s0 + 1\<rparr>;
          fcode = push_bit (maxbits s) c + ent s;
          i0 = push_bit (hshift s) c XOR ent s
      in case hash_search (htab s) (hsize_reg s) fcode i0 of
           None \<Rightarrow> None
         | Some (True, i) \<Rightarrow> Some (s\<lparr>ent := codetab s i\<rparr>)
         | Some (False, i) \<Rightarrow>
             let s1 = zoutput (ent s) s; s2 = s1\<lparr>out_count := out_count s1 + 1, ent := c\<rparr>
             in Some (if free_ent s2 < maxmaxcode s2
                      then s2\<lparr>codetab := (codetab s2)(i := free_ent s2 mod 65536), free_ent := free_ent s2 + 1,
                              htab := (htab s2)(i := fcode)\<rparr>
                      else if in_count s2 \<ge> checkpoint s2 \<and> block_compress s2 \<noteq> 0 then cl_block s2
                      else s2))"

fun zwrite_loop :: "octet list \<Rightarrow> zstate \<Rightarrow> zstate option" where
  "zwrite_loop [] s = Some s"
| "zwrite_loop (b # bs) s = (case zwrite_byte b s of None \<Rightarrow> None | Some t \<Rightarrow> zwrite_loop bs t)"

function hshift_loop :: "nat \<Rightarrow> nat \<Rightarrow> nat" where
  "hshift_loop f k = (if 0 < f \<and> f < 65536 then hshift_loop (f * 2) (k + 1) else k)"
  by pat_completeness auto
termination by (relation "measure (\<lambda>(f, k). 65536 - f)") auto

declare hshift_loop.simps [simp del]

definition zwrite_start :: "octet \<Rightarrow> zstate \<Rightarrow> zstate" where
  "zwrite_start b s =
     (let s1 = fwrite (magic_header @ [word_of_int (int (maxbits s) OR block_compress s)])
                 (s\<lparr>zphase := S_MIDDLE, maxmaxcode := push_bit (maxbits s) 1\<rparr>);
          s2 = s1\<lparr>offset := 0, bytes_out := 3, out_count := 0, clear_flg := 0, ratio := 0, in_count := 1,
                  checkpoint := CHECK_GAP, n_bits := INIT_BITS, maxcode := MAXCODE INIT_BITS,
                  free_ent := (if block_compress s \<noteq> 0 then FIRST else 256), ent := uint b,
                  hshift := 8 - hshift_loop (nat (hsize s)) 0, hsize_reg := hsize s\<rparr>
      in cl_hash (hsize s) s2)"

definition zwrite :: "octet list \<Rightarrow> zstate \<Rightarrow> zstate option" where
  "zwrite bs s =
     (case bs of [] \<Rightarrow> Some s
      | b # rest \<Rightarrow> if zphase s = S_MIDDLE then zwrite_loop bs s else zwrite_loop rest (zwrite_start b s))"

definition zclose :: "zstate \<Rightarrow> octet list" where
  "zclose s =
     (if zmode s = CHR ''w'' then
        let s1 = zoutput (ent s) s in zfile (zoutput (-1) (s1\<lparr>out_count := out_count s1 + 1\<rparr>))
      else zfile s)"

subsection \<open>Reading\<close>

text \<open>
  What a read gives: data, an error number, or a step that leaves the tables, after which C
  promises nothing: the output stack runs over its end or is popped when it is empty.
\<close>

datatype zerrno = EFTYPE | EINVAL
datatype zres = ZData "octet list" zstate | ZError zerrno zstate | ZUndefined

text \<open>getcode; the byte behind the last one is masked to nothing when no bits are left. With
  fewer bits than the first byte supplies, the mask would be taken at a negative index: None.\<close>

definition gbyte :: "octet list \<Rightarrow> nat \<Rightarrow> int" where
  "gbyte b p = (if p < length b then uint (b ! p) else 0)"

definition get_code :: "nat \<Rightarrow> nat \<Rightarrow> octet list \<Rightarrow> int" where
  "get_code nb off b =
     (let p = drop_bit 3 off; r = off AND 7;
          g = drop_bit r (gbyte b p); bits = nb - (8 - r); r1 = 8 - r;
          (g2, p2, r2, bits2) =
            (if bits \<ge> 8 then (g OR push_bit r1 (gbyte b (p + 1)), p + 2, r1 + 8, bits - 8)
             else (g, p + 1, r1, bits))
      in g2 OR push_bit r2 (gbyte b p2 AND uint (rmask ! bits2)))"

definition getcode :: "zstate \<Rightarrow> (int \<times> zstate) option" where
  "getcode s =
     (if clear_flg s > 0 \<or> int (roffset s) \<ge> zsize s \<or> free_ent s > maxcode s then
        let s1 = (if free_ent s > maxcode s
                  then s\<lparr>n_bits := n_bits s + 1,
                         maxcode := (if n_bits s + 1 = maxbits s then maxmaxcode s else MAXCODE (n_bits s + 1))\<rparr>
                  else s);
            s2 = (if clear_flg s1 > 0
                  then s1\<lparr>n_bits := INIT_BITS, maxcode := MAXCODE INIT_BITS, clear_flg := 0\<rparr> else s1);
            bs = take (n_bits s2) (zfile s2);
            s3 = s2\<lparr>gbuf := bs @ drop (length bs) (gbuf s2), zfile := drop (n_bits s2) (zfile s2), zsize := int (length bs)\<rparr>
        in if bs = [] then Some (-1, s3)
           else if n_bits s3 < 8 then None
           else Some (get_code (n_bits s3) 0 (gbuf s3),
                      s3\<lparr>roffset := n_bits s3, zsize := push_bit 3 (zsize s3) - (int (n_bits s3) - 1)\<rparr>)
      else if n_bits s + (roffset s AND 7) < 8 then None
      else Some (get_code (n_bits s) (roffset s) (gbuf s), s\<lparr>roffset := roffset s + n_bits s\<rparr>))"

definition push :: "octet \<Rightarrow> octet list \<Rightarrow> octet list option" where
  "push b st = (if length st < DE_STACK_SIZE then Some (b # st) else None)"

function chase :: "(int \<Rightarrow> int) \<Rightarrow> (int \<Rightarrow> octet) \<Rightarrow> int \<Rightarrow> octet list \<Rightarrow> (int \<times> octet list) option" where
  "chase pre suf cd st =
     (if cd \<ge> 256 then
        (case push (suf cd) st of None \<Rightarrow> None | Some st' \<Rightarrow> chase pre suf (pre cd) st')
      else Some (cd, st))"
  by pat_completeness auto
termination
  by (relation "measure (\<lambda>(_, _, _, st). DE_STACK_SIZE - length st)") (auto simp: push_def split: if_splits)

declare chase.simps [simp del]

text \<open>Expanding one cd onto the stack; Inl is the bad stream, Inr None the overrun.\<close>

definition expand_code :: "int \<Rightarrow> zstate \<Rightarrow> unit + zstate option" where
  "expand_code cd s =
     (if cd \<ge> free_ent s \<and> (cd > free_ent s \<or> oldcode s = -1) then Inl ()
      else Inr (
        case (if cd \<ge> free_ent s
              then map_option (\<lambda>st. (oldcode s, st)) (push (word_of_int (finchar s)) (stack s))
              else Some (cd, stack s)) of
          None \<Rightarrow> None
        | Some (code1, st1) \<Rightarrow>
            (case chase (codetab s) (tab_suffix s) code1 st1 of
               None \<Rightarrow> None
             | Some (code2, st2) \<Rightarrow>
                 map_option (\<lambda>st3. s\<lparr>incode := cd, finchar := uint (tab_suffix s code2), stack := st3\<rparr>)
                   (push (tab_suffix s code2) st2))))"

text \<open>The loop at middle: whether the call returns, what it has put out, and the count left.\<close>

fun drain :: "nat \<Rightarrow> octet list \<Rightarrow> bool \<times> octet list \<times> octet list \<times> nat" where
  "drain 0 st = (True, [], st, 0)"
| "drain (Suc k) [] = (True, [], [], 0)"
| "drain (Suc k) (b # st) =
     (if st = [] then (False, [b], [], k)
      else let (r, bs, st', k') = drain k st in (r, b # bs, st', k'))"

definition new_entry :: "zstate \<Rightarrow> zstate" where
  "new_entry s =
     (if free_ent s < maxmaxcode s \<and> oldcode s \<noteq> -1
      then s\<lparr>codetab := (codetab s)(free_ent s := oldcode s mod 65536),
             tab_suffix := (tab_suffix s)(free_ent s := word_of_int (finchar s)),
             free_ent := free_ent s + 1, oldcode := incode s\<rparr>
      else s\<lparr>oldcode := incode s\<rparr>)"

fun clear_prefix :: "nat \<Rightarrow> (int \<Rightarrow> int) \<Rightarrow> int \<Rightarrow> int" where
  "clear_prefix 0 t = t"
| "clear_prefix (Suc k) t = clear_prefix k (t(int k := 0))"

fun init_suffix :: "nat \<Rightarrow> (int \<Rightarrow> octet) \<Rightarrow> int \<Rightarrow> octet" where
  "init_suffix 0 t = t"
| "init_suffix (Suc k) t = init_suffix k (t(int k := word_of_int (int k)))"

lemma nat_and_7: "(n::nat) AND 7 = n mod 8"
  using take_bit_eq_mask [of 3 n] by (simp add: take_bit_eq_mod mask_eq_exp_minus_1)

lemma getcode_decreases:
  assumes "getcode s = Some (c, t)" "c \<noteq> -1"
  shows "length (zfile t) < length (zfile s)
    \<or> zfile t = zfile s \<and> nat (zsize t - int (roffset t)) < nat (zsize s - int (roffset s))"
proof -
  have "0 < n_bits s" if "\<not> n_bits s + (roffset s AND 7) < 8"
    using that by (cases "n_bits s") (simp_all add: nat_and_7 not_less)
  then show ?thesis using assms by (auto simp: getcode_def Let_def split: if_splits)
qed

lemma expand_code_input:
  "expand_code cd s = Inr (Some t) \<Longrightarrow> zfile t = zfile s \<and> zsize t = zsize s \<and> roffset t = roffset s"
  by (auto simp: expand_code_def split: if_splits option.splits)

lemma new_entry_input [simp]:
  "zfile (new_entry s) = zfile s" "zsize (new_entry s) = zsize s" "roffset (new_entry s) = roffset s"
  by (simp_all add: new_entry_def)

text \<open>The decoding loop, with the bytes still wanted and the bytes delivered.\<close>

function zread_loop :: "nat \<Rightarrow> octet list \<Rightarrow> zstate \<Rightarrow> zres" where
  "zread_loop count acc s =
     (case getcode s of
        None \<Rightarrow> ZUndefined
      | Some (cd, s1) \<Rightarrow>
          if cd = -1 then ZData acc (s1\<lparr>zphase := S_EOF\<rparr>)
          else if cd = CLEAR \<and> block_compress s1 \<noteq> 0 then
            zread_loop count acc
              (s1\<lparr>codetab := clear_prefix 256 (codetab s1), clear_flg := 1, free_ent := FIRST, oldcode := -1\<rparr>)
          else
            (case expand_code cd s1 of
               Inl _ \<Rightarrow> ZError EINVAL s1
             | Inr None \<Rightarrow> ZUndefined
             | Inr (Some s2) \<Rightarrow>
                 (case drain count (stack s2) of
                    (True, bs, st, _) \<Rightarrow> ZData (acc @ bs) (s2\<lparr>stack := st\<rparr>)
                  | (False, bs, st, k) \<Rightarrow> zread_loop k (acc @ bs) (new_entry (s2\<lparr>stack := st\<rparr>)))))"
  by pat_completeness auto
termination
  by (relation "inv_image (less_than <*lex*> less_than) (\<lambda>(_, _, s). (length (zfile s), nat (zsize s - int (roffset s))))")
    (auto dest!: getcode_decreases expand_code_input)

declare zread_loop.simps [simp del]

definition zread_start :: "nat \<Rightarrow> zstate \<Rightarrow> zres" where
  "zread_start num s0 =
     (let s = s0\<lparr>zphase := S_MIDDLE\<rparr>; header = take 3 (zfile s); s1 = s\<lparr>zfile := drop 3 (zfile s)\<rparr> in
      if length header \<noteq> 3 \<or> take 2 header \<noteq> magic_header then ZError EFTYPE s1
      else
        let h = uint (header ! 2); mb = nat (h AND BIT_MASK);
            s2 = s1\<lparr>block_compress := h AND BLOCK_MASK, maxbits := mb, maxmaxcode := push_bit mb 1\<rparr>
        in if mb > BITS \<or> mb < 12 then ZError EFTYPE s2
           else
             case getcode (s2\<lparr>n_bits := INIT_BITS, maxcode := MAXCODE INIT_BITS, codetab := clear_prefix 256 (codetab s2),
                              tab_suffix := init_suffix 256 (tab_suffix s2),
                              free_ent := (if block_compress s2 \<noteq> 0 then FIRST else 256)\<rparr>) of
               None \<Rightarrow> ZUndefined
             | Some (cd, s3) \<Rightarrow>
                 let s4 = s3\<lparr>finchar := cd, oldcode := cd\<rparr> in
                 if cd = -1 then ZData [] s4
                 else zread_loop (num - 1) [word_of_int cd] (s4\<lparr>stack := []\<rparr>))"

definition zread :: "nat \<Rightarrow> zstate \<Rightarrow> zres" where
  "zread num s =
     (if num = 0 then ZData [] s
      else case zphase s of
        S_START \<Rightarrow> zread_start num s
      | S_EOF \<Rightarrow> ZData [] s
      | S_MIDDLE \<Rightarrow>
          if stack s = [] then ZUndefined
          else (case drain num (stack s) of
                  (True, bs, st, _) \<Rightarrow> ZData bs (s\<lparr>stack := st\<rparr>)
                | (False, bs, st, k) \<Rightarrow> zread_loop k bs (new_entry (s\<lparr>stack := st\<rparr>))))"

end
