(* ===== verification/Zopen_Bits.thy ===== *)
theory Zopen_Bits
  imports Zopen
begin

unbundle bit_operations_syntax

text \<open>
  The buffer of codes as a sequence of bits, lowest bit first: put_code sets the bits of one code
  and keeps those before it, get_code reads the bits of one code, so that a buffer filled with
  codes of one width is read back code by code.
\<close>

definition buf_bit :: "octet list \<Rightarrow> nat \<Rightarrow> bool" where
  "buf_bit b j = bit (b ! (j div 8)) (j mod 8)"

lemma bit_rmask: "r \<le> 8 \<Longrightarrow> bit (rmask ! r) k \<longleftrightarrow> k < r"
proof -
  have "rmask ! r = mask r" if "r \<le> 8"
    using that by (auto simp: rmask_def mask_eq_exp_minus_1 le_Suc_eq numeral_eq_Suc)
  then show "r \<le> 8 \<Longrightarrow> bit (rmask ! r) k \<longleftrightarrow> k < r" by (auto simp: bit_mask_iff)
qed

lemma bit_lmask:
  assumes "r \<le> 7" "k < 8"
  shows "bit (lmask ! r) k \<longleftrightarrow> r \<le> k"
proof -
  have "list_all (\<lambda>r. lmask ! r = NOT (mask r)) [0..<8]" by code_simp
  then have "lmask ! r = NOT (mask r)" using assms(1) by (simp add: list_all_iff)
  then show ?thesis using assms by (auto simp: bit_not_iff bit_mask_iff)
qed

lemma length_put_code [simp]: "length (put_code nb off c b) = length b"
  by (simp add: put_code_def Let_def split: prod.split)

lemma drop_bit_3: "drop_bit 3 (n::nat) = n div 8"
  by (simp add: drop_bit_eq_div)

text \<open>The bytes put_code leaves, with the arithmetic of the offsets done.\<close>

lemma put_code_bytes:
  assumes "9 \<le> nb" "nb \<le> 16"
  shows "put_code nb off c b =
    (let p = off div 8; r = off mod 8;
         b1 = b[p := (b ! p AND rmask ! r) OR (word_of_int (push_bit r c) AND lmask ! r),
                p + 1 := word_of_int (drop_bit (8 - r) c)]
     in if nb + r \<le> 16 then b1 else b1[p + 2 := word_of_int (drop_bit (16 - r) c)])"
proof -
  have r: "off mod 8 < 8" by simp
  have m: "(int nb - (8 - int (off mod 8))) mod 2 ^ 32 = int nb + int (off mod 8) - 8"
    using assms r by (subst mod_pos_pos_trivial) auto
  have d: "drop_bit 8 (drop_bit (8 - off mod 8) c) = drop_bit (16 - off mod 8) c"
    using r by (simp add: add.commute)
  show ?thesis
    unfolding put_code_def nat_and_7 drop_bit_3 m Let_def
    using assms d by (auto simp: Let_def)
qed

lemma put_code_bit:
  assumes "9 \<le> nb" "nb \<le> 16" "off + nb \<le> 8 * nb" "length b = 16" "j < off + nb"
  shows "buf_bit (put_code nb off c b) j = (if j < off then buf_bit b j else bit c (j - off))"
proof -
  obtain p r q k where e: "off = 8 * p + r" "j = 8 * q + k" and l: "r < 8" "k < 8"
    using mult_div_mod_eq [of 8 off, symmetric] mult_div_mod_eq [of 8 j, symmetric] by (metis mod_less_divisor zero_less_numeral)
  have d: "(8 * p + r) div 8 = p" "(8 * p + r) mod 8 = r" "(8 * q + k) div 8 = q" "(8 * q + k) mod 8 = k"
    using l by auto
  note put = put_code_bytes [OF assms(1,2), of "8 * p + r" c b, unfolded d Let_def]
  note unf = buf_bit_def e d put
  have n: "p + 1 < 16" "nb + r > 16 \<Longrightarrow> p + 2 < 16" using assms l e by auto
  consider "q < p" | "q = p" | "q = p + 1" | "q = p + 2" "nb + r > 16" using e l assms by linarith
  then show ?thesis
  proof cases
    case 1
    then show ?thesis using l by (simp add: unf)
  next
    case 2
    then show ?thesis using l n assms(4) by (auto simp: unf bit_simps bit_rmask bit_lmask)
  next
    case 3
    then show ?thesis unfolding unf using l n assms(4) by (auto simp: bit_simps)
  next
    case 4
    then show ?thesis unfolding unf using l n assms(4) by (auto simp: bit_simps)
  qed
qed

text \<open>Reading a code back.\<close>

lemma buf_bit_at: "j = 8 * q + m \<Longrightarrow> m < 8 \<Longrightarrow> buf_bit b j = bit (b ! q) m"
  by (simp add: buf_bit_def)

lemma bit_gbyte: "bit (gbyte b p) k \<longleftrightarrow> p < length b \<and> k < 8 \<and> bit (b ! p) k"
  by (auto simp: gbyte_def bit_uint_iff)

lemma get_code_bit:
  assumes "9 \<le> nb" "nb \<le> 16" "off + nb \<le> 8 * length b"
  shows "bit (get_code nb off b) k \<longleftrightarrow> k < nb \<and> buf_bit b (off + k)"
proof -
  obtain p r where e: "off = 8 * p + r" and l: "r < 8"
    using mult_div_mod_eq [of 8 off, symmetric] by (metis mod_less_divisor zero_less_numeral)
  have d: "(8 * p + r) div 8 = p" "(8 * p + r) mod 8 = r" using l by auto
  have g: "get_code nb off b =
      (drop_bit r (gbyte b p) OR
       (if nb + r \<ge> 16 then push_bit (8 - r) (gbyte b (p + 1)) OR push_bit (16 - r) (gbyte b (p + 2) AND uint (rmask ! (nb + r - 16)))
        else push_bit (8 - r) (gbyte b (p + 1) AND uint (rmask ! (nb + r - 8)))))"
  proof -
    have a: "nb - (8 - r) = nb + r - 8" "8 - r + 8 = 16 - r" "8 \<le> nb + r - 8 \<longleftrightarrow> 16 \<le> nb + r" "nb + r - 8 - 8 = nb + r - 16"
      using assms l by auto
    show ?thesis
      unfolding get_code_def nat_and_7 drop_bit_3 e d Let_def a by (simp add: or.assoc)
  qed
  have n: "p + 1 < length b" "16 < nb + r \<Longrightarrow> p + 2 < length b" using assms e l by auto
  consider "r + k < 8" | "8 \<le> r + k" "r + k < 16" | "16 \<le> r + k" "r + k < 24" | "24 \<le> r + k" by linarith
  then show ?thesis
  proof cases
    case 1
    then have "buf_bit b (off + k) = bit (b ! p) (r + k)" by (intro buf_bit_at) (auto simp: e)
    then show ?thesis using 1 l n assms(1,2) by (auto simp: g bit_simps bit_gbyte)
  next
    case 2
    define m where "m = r + k - 8"
    then have m: "r + k = 8 + m" "m < 8" using 2 by auto
    then have "buf_bit b (off + k) = bit (b ! (p + 1)) m" by (intro buf_bit_at) (auto simp: e)
    moreover have "k - (8 - r) = m" "8 - r \<le> k" using m l by auto
    ultimately show ?thesis using 2 m l n assms(1,2) by (auto simp: g bit_simps bit_gbyte bit_rmask)
  next
    case 3
    define m where "m = r + k - 16"
    then have m: "r + k = 16 + m" "m < 8" using 3 by auto
    then have "buf_bit b (off + k) = bit (b ! (p + 2)) m" by (intro buf_bit_at) (auto simp: e)
    moreover have "k - (16 - r) = m" "16 - r \<le> k" "k < nb \<Longrightarrow> p + 2 < length b" using m l n by auto
    ultimately show ?thesis using 3 m l n(1) assms(1,2) by (cases "k < nb") (auto simp: g bit_simps bit_gbyte bit_rmask)
  next
    case 4
    then show ?thesis using 4 l assms(1,2) by (auto simp: g bit_simps bit_gbyte bit_rmask)
  qed
qed

end
