(* ===== verification/Zopen_Groups.thy ===== *)
theory Zopen_Groups
  imports Zopen_Bits
begin

unbundle bit_operations_syntax

text \<open>
  The format of a compressed file behind its header. Codes are written in groups of one width, at
  most eight to a group. The width of a code depends only on the codes before it (\<open>nxt\<close>), so that
  reader and writer change it at the same code. A group that ends because the width changes, or
  because the table is cleared, is written in full; the last one is cut to whole bytes.
\<close>

subsection \<open>Codes in a buffer\<close>

definition packed :: "nat \<Rightarrow> int list \<Rightarrow> octet list \<Rightarrow> bool" where
  "packed nb cs b \<longleftrightarrow> (\<forall>i<length cs. \<forall>k<nb. buf_bit b (i * nb + k) = bit (cs ! i) k)"

lemma code_end: "(i::nat) < n \<Longrightarrow> k < nb \<Longrightarrow> i * nb + k < n * nb"
proof -
  assume "i < n" "k < nb"
  then have "i * nb + nb \<le> n * nb" using mult_le_mono1 [of "Suc i" n nb] by simp
  then show ?thesis using \<open>k < nb\<close> by simp
qed

lemma packed_put:
  assumes "packed nb cs b" "9 \<le> nb" "nb \<le> 16" "length cs < 8" "length b = 16"
  shows "packed nb (cs @ [c]) (put_code nb (length cs * nb) c b)"
  unfolding packed_def
proof (intro allI impI)
  fix i k assume i: "i < length (cs @ [c])" and k: "k < nb"
  have "length cs * nb + nb \<le> 8 * nb" using assms(4) mult_le_mono1 [of "Suc (length cs)" 8 nb] by simp
  note put = put_code_bit [OF assms(2,3) this assms(5)]
  show "buf_bit (put_code nb (length cs * nb) c b) (i * nb + k) = bit ((cs @ [c]) ! i) k"
  proof (cases "i < length cs")
    case True
    then show ?thesis using put assms(1) code_end [OF True k] k by (simp add: packed_def nth_append)
  next
    case False
    then have "i = length cs" using i by simp
    then show ?thesis using put k by simp
  qed
qed

lemma buf_bit_take: "j < 8 * m \<Longrightarrow> m \<le> length b \<Longrightarrow> buf_bit (take m b @ r) j = buf_bit b j"
  by (simp add: buf_bit_def nth_append less_mult_imp_div_less mult.commute)

lemma packed_take:
  assumes "packed nb cs b" "length cs * nb \<le> 8 * m" "m \<le> length b"
  shows "packed nb cs (take m b @ r)"
  unfolding packed_def
proof (intro allI impI)
  fix i k assume "i < length cs" "k < nb"
  then show "buf_bit (take m b @ r) (i * nb + k) = bit (cs ! i) k"
    using assms code_end [of i "length cs" k nb] buf_bit_take [of "i * nb + k" m b r] by (simp add: packed_def)
qed

lemma packed_get:
  assumes "packed nb cs b" "9 \<le> nb" "nb \<le> 16" "i < length cs" "length cs * nb \<le> 8 * length b" "0 \<le> cs ! i" "cs ! i < 2 ^ nb"
  shows "get_code nb (i * nb) b = cs ! i"
proof (rule bit_eqI)
  fix k
  have "i * nb + nb \<le> 8 * length b" using assms(4,5) mult_le_mono1 [of "Suc i" "length cs" nb] by simp
  moreover have "bit (cs ! i) k \<Longrightarrow> k < nb"
    using assms(6,7) take_bit_int_eq_self [of "cs ! i" nb] by (metis bit_take_bit_iff)
  ultimately show "bit (get_code nb (i * nb) b) k = bit (cs ! i) k"
    using get_code_bit [OF assms(2,3)] assms(1,4) by (auto simp: packed_def)
qed

subsection \<open>The width of the next code\<close>

text \<open>The bits of the next code, and the free entry the writer has when it sends it.\<close>

type_synonym width = "nat \<times> int"

definition mcode :: "nat \<Rightarrow> nat \<Rightarrow> int" where
  "mcode mb n = (if n = mb then 2 ^ mb else MAXCODE n)"

definition grows :: "nat \<Rightarrow> width \<Rightarrow> bool" where
  "grows mb st \<longleftrightarrow> snd st > mcode mb (fst st)"

definition nxt :: "nat \<Rightarrow> width \<Rightarrow> int \<Rightarrow> width" where
  "nxt mb st c =
     (if c = CLEAR then (INIT_BITS, FIRST)
      else (if grows mb st then fst st + 1 else fst st, if snd st < 2 ^ mb then snd st + 1 else snd st))"

definition ends_group :: "nat \<Rightarrow> width \<Rightarrow> int \<Rightarrow> bool" where
  "ends_group mb st c \<longleftrightarrow> c = CLEAR \<or> grows mb st"

fun quiet :: "nat \<Rightarrow> width \<Rightarrow> int list \<Rightarrow> bool" where
  "quiet mb st [] = True"
| "quiet mb st (c # cs) = (\<not> ends_group mb st c \<and> quiet mb (nxt mb st c) cs)"

definition width_ok :: "nat \<Rightarrow> width \<Rightarrow> bool" where
  "width_ok mb st \<longleftrightarrow> 9 \<le> fst st \<and> fst st \<le> mb \<and> FIRST \<le> snd st \<and> snd st \<le> 2 ^ fst st"

abbreviation width_after :: "nat \<Rightarrow> width \<Rightarrow> int list \<Rightarrow> width" where
  "width_after mb \<equiv> foldl (nxt mb)"

definition bits_ok :: "nat \<Rightarrow> bool" where "bits_ok mb \<longleftrightarrow> 12 \<le> mb \<and> mb \<le> BITS"

lemma MAXCODE_eq: "MAXCODE n = 2 ^ n - 1"
  by (simp add: MAXCODE_def push_bit_eq_mult)

lemma width_ok_start: "bits_ok mb \<Longrightarrow> width_ok mb (INIT_BITS, FIRST)"
  by (simp add: width_ok_def INIT_BITS_def FIRST_def bits_ok_def)

lemma width_ok_nxt: "bits_ok mb \<Longrightarrow> width_ok mb st \<Longrightarrow> width_ok mb (nxt mb st c)"
proof (cases "c = CLEAR")
  case False
  assume a: "bits_ok mb" "width_ok mb st"
  have "snd st + 1 \<le> 2 * 2 ^ fst st" if "snd st \<le> 2 ^ fst st"
    using one_le_power [of "2::int" "fst st"] that by linarith
  then show ?thesis
    using a False by (cases "fst st = mb") (auto simp: nxt_def width_ok_def grows_def mcode_def MAXCODE_eq)
qed (use width_ok_start in \<open>auto simp: nxt_def\<close>)

lemma width_ok_after: "bits_ok mb \<Longrightarrow> width_ok mb st \<Longrightarrow> width_ok mb (width_after mb st cs)"
  by (induction cs arbitrary: st) (auto simp: width_ok_nxt)

lemma quiet_width: "quiet mb st cs \<Longrightarrow> fst (width_after mb st cs) = fst st"
  by (induction cs arbitrary: st) (auto simp: ends_group_def nxt_def)

lemma quiet_snoc: "quiet mb st (cs @ [c]) \<longleftrightarrow> quiet mb st cs \<and> \<not> ends_group mb (width_after mb st cs) c"
  by (induction cs arbitrary: st) auto

lemma quiet_take: "quiet mb st cs \<Longrightarrow> quiet mb st (take i cs)"
  by (induction cs arbitrary: st i) (auto simp: take_Cons split: nat.split)

subsection \<open>Groups\<close>

type_synonym group = "int list \<times> octet list"

definition group_ok :: "nat \<Rightarrow> width \<Rightarrow> group \<Rightarrow> bool" where
  "group_ok mb st g \<longleftrightarrow> fst g \<noteq> [] \<and> length (fst g) \<le> 8 \<and> quiet mb st (butlast (fst g))
     \<and> (\<forall>c \<in> set (fst g). 0 \<le> c \<and> c < 2 ^ fst st) \<and> packed (fst st) (fst g) (snd g)"

definition full_group :: "nat \<Rightarrow> width \<Rightarrow> group \<Rightarrow> bool" where
  "full_group mb st g \<longleftrightarrow> group_ok mb st g \<and> length (snd g) = fst st
     \<and> (length (fst g) = 8 \<or> ends_group mb (width_after mb st (butlast (fst g))) (last (fst g)))"

fun full_groups :: "nat \<Rightarrow> width \<Rightarrow> group list \<Rightarrow> bool" where
  "full_groups mb st [] = True"
| "full_groups mb st (g # gs) = (full_group mb st g \<and> full_groups mb (width_after mb st (fst g)) gs)"

definition last_group :: "nat \<Rightarrow> width \<Rightarrow> group \<Rightarrow> bool" where
  "last_group mb st g \<longleftrightarrow> g = ([], []) \<or> group_ok mb st g \<and> quiet mb st (fst g)
     \<and> length (snd g) = (length (fst g) * fst st + 7) div 8"

text \<open>The bytes \<open>bs\<close> carry the codes \<open>cs\<close>.\<close>

definition stream :: "nat \<Rightarrow> width \<Rightarrow> int list \<Rightarrow> octet list \<Rightarrow> bool" where
  "stream mb st cs bs \<longleftrightarrow> (\<exists>gs g. cs = concat (map fst gs) @ fst g \<and> bs = concat (map snd gs) @ snd g
     \<and> full_groups mb st gs \<and> last_group mb (width_after mb st (concat (map fst gs))) g)"

lemma full_groups_snoc:
  "full_groups mb st (gs @ [g]) \<longleftrightarrow> full_groups mb st gs \<and> full_group mb (width_after mb st (concat (map fst gs))) g"
  by (induction gs arbitrary: st) auto

end
