(* ===== verification/Lzw.thy ===== *)
theory Lzw
  imports Zopen
begin

text \<open>
  The algorithm behind zopen.c, without its tables: a dictionary gives every code above FIRST a
  shorter code and one more byte; the reader rebuilds it one step behind the writer. Here are the
  codes a writer may send (\<open>enc_ok\<close>) and what a reader makes of them (\<open>drun\<close>): the data
  the writer has consumed, except the string of the code it holds.
\<close>

subsection \<open>Dictionaries\<close>

type_synonym dict = "(int \<times> octet) list"

definition dict_ok :: "nat \<Rightarrow> dict \<Rightarrow> bool" where
  "dict_ok mb D \<longleftrightarrow> mb \<le> BITS \<and> FIRST + int (length D) \<le> 2 ^ mb
     \<and> (\<forall>i<length D. 0 \<le> fst (D ! i) \<and> fst (D ! i) \<noteq> CLEAR \<and> fst (D ! i) < FIRST + int i)"

function str :: "dict \<Rightarrow> int \<Rightarrow> octet list" where
  "str D p =
     (if p < FIRST then [word_of_int p]
      else let e = D ! nat (p - FIRST) in
        if nat (p - FIRST) < length D \<and> fst e < p then str D (fst e) @ [snd e] else [])"
  by pat_completeness auto
termination by (relation "measure (\<lambda>(D, p). nat p)") (auto simp: FIRST_def)

declare str.simps [simp del]

lemma str_char: "p < FIRST \<Longrightarrow> str D p = [word_of_int p]"
  by (simp add: str.simps)

lemma str_entry: "dict_ok mb D \<Longrightarrow> n < length D \<Longrightarrow> str D (FIRST + int n) = str D (fst (D ! n)) @ [snd (D ! n)]"
  by (subst str.simps) (simp add: dict_ok_def Let_def)

lemma code_cases:
  assumes "p < FIRST + int (length D)"
  obtains "p < FIRST" | n where "n < length D" "p = FIRST + int n"
proof (cases "p < FIRST")
  case False
  then show thesis using assms that(2) [of "nat (p - FIRST)"] by auto
qed (rule that(1))

lemma str_append: "dict_ok mb D \<Longrightarrow> p < FIRST + int (length D) \<Longrightarrow> str (D @ E) p = str D p"
proof (induction D p rule: str.induct)
  case (1 D p)
  show ?case
  proof (rule code_cases [OF 1(3)])
    fix n assume n: "n < length D" "p = FIRST + int n"
    have f: "fst (D ! n) < p" using 1(2) n by (simp add: dict_ok_def)
    then have "str (D @ E) (fst (D ! n)) = str D (fst (D ! n))"
      using 1 n by (auto simp: FIRST_def)
    then show ?thesis
      unfolding str.simps [of "D @ E" p] str.simps [of D p] Let_def using n f by (simp add: nth_append)
  qed (simp add: str_char)
qed

lemma str_nonempty: "dict_ok mb D \<Longrightarrow> p < FIRST + int (length D) \<Longrightarrow> str D p \<noteq> []"
  by (erule code_cases) (auto simp: str_char str_entry)

lemma dict_ok_Nil [simp]: "dict_ok mb [] \<longleftrightarrow> mb \<le> BITS \<and> FIRST \<le> 2 ^ mb"
  by (simp add: dict_ok_def)

lemma dict_ok_snoc:
  "dict_ok mb D \<Longrightarrow> FIRST + int (length D) < 2 ^ mb \<Longrightarrow> 0 \<le> p \<Longrightarrow> p \<noteq> CLEAR \<Longrightarrow> p < FIRST + int (length D)
    \<Longrightarrow> dict_ok mb (D @ [(p, c)])"
  by (auto simp: dict_ok_def nth_append less_Suc_eq)

lemma uint_octet_less: "uint (c :: octet) < 256"
  using uint_lt2p [of c] by simp

lemma str_uint: "str D (uint c) = [c]"
  using uint_octet_less [of c] by (simp add: str_char FIRST_def)

subsection \<open>The reader\<close>

text \<open>The dictionary and the code before, -1 at the start and after a clear.\<close>

type_synonym dstate = "dict \<times> int"

definition dword :: "dstate \<Rightarrow> int \<Rightarrow> octet list" where
  "dword st c = (if c < FIRST + int (length (fst st)) then str (fst st) c
     else str (fst st) (snd st) @ [hd (str (fst st) (snd st))])"

definition dstep :: "nat \<Rightarrow> dstate \<Rightarrow> int \<Rightarrow> dstate" where
  "dstep mb st c =
     (if c = CLEAR then ([], -1)
      else (if snd st \<noteq> -1 \<and> FIRST + int (length (fst st)) < 2 ^ mb then fst st @ [(snd st, hd (dword st c))] else fst st, c))"

definition dout :: "dstate \<Rightarrow> int \<Rightarrow> octet list" where
  "dout st c = (if c = CLEAR then [] else dword st c)"

fun drun :: "nat \<Rightarrow> dstate \<Rightarrow> int list \<Rightarrow> octet list" where
  "drun mb st [] = []"
| "drun mb st (c # cs) = dout st c @ drun mb (dstep mb st c) cs"

definition dvalid :: "dstate \<Rightarrow> int \<Rightarrow> bool" where
  "dvalid st c \<longleftrightarrow> 0 \<le> c \<and> c \<le> FIRST + int (length (fst st)) \<and> (snd st = -1 \<longrightarrow> c < FIRST)"

fun dvalids :: "nat \<Rightarrow> dstate \<Rightarrow> int list \<Rightarrow> bool" where
  "dvalids mb st [] = True"
| "dvalids mb st (c # cs) = (dvalid st c \<and> dvalids mb (dstep mb st c) cs)"

abbreviation dafter :: "nat \<Rightarrow> int list \<Rightarrow> dstate" where
  "dafter mb \<equiv> foldl (dstep mb) ([], -1)"

lemma drun_snoc: "drun mb st (cs @ [c]) = drun mb st cs @ dout (foldl (dstep mb) st cs) c"
  by (induction cs arbitrary: st) simp_all

lemma dvalids_snoc: "dvalids mb st (cs @ [c]) \<longleftrightarrow> dvalids mb st cs \<and> dvalid (foldl (dstep mb) st cs) c"
  by (induction cs arbitrary: st) auto

subsection \<open>The writer\<close>

text \<open>The writer has sent \<open>cs\<close>, holds dictionary \<open>D\<close> and code \<open>p\<close>, and has consumed \<open>w\<close>.\<close>

definition behind :: "nat \<Rightarrow> dstate \<Rightarrow> dict \<Rightarrow> int \<Rightarrow> bool" where
  "behind mb st D p \<longleftrightarrow>
     (if snd st = -1 then fst st = [] \<and> D = []
      else 0 \<le> snd st \<and> snd st \<noteq> CLEAR \<and> snd st < FIRST + int (length (fst st))
        \<and> D = (if FIRST + int (length (fst st)) < 2 ^ mb then fst st @ [(snd st, hd (str D p))] else fst st))"

definition enc_ok :: "nat \<Rightarrow> int list \<Rightarrow> dict \<Rightarrow> int \<Rightarrow> octet list \<Rightarrow> bool" where
  "enc_ok mb cs D p w \<longleftrightarrow> dict_ok mb D \<and> 0 \<le> p \<and> p \<noteq> CLEAR \<and> p < FIRST + int (length D)
     \<and> dvalids mb ([], -1) cs \<and> w = drun mb ([], -1) cs @ str D p \<and> behind mb (dafter mb cs) D p
     \<and> dict_ok mb (fst (dafter mb cs)) \<and> (cs \<noteq> [] \<longrightarrow> hd cs \<noteq> CLEAR)"

lemma enc_start: "mb \<le> BITS \<Longrightarrow> FIRST \<le> 2 ^ mb \<Longrightarrow> enc_ok mb [] [] (uint b) [b]"
  using uint_octet_less [of b] by (simp add: enc_ok_def behind_def str_uint FIRST_def CLEAR_def)

lemma enc_hit:
  assumes "enc_ok mb cs D p w" "n < length D" "D ! n = (p, c)"
  shows "enc_ok mb cs D (FIRST + int n) (w @ [c])"
proof -
  have D: "dict_ok mb D" "p < FIRST + int (length D)" using assms(1) by (auto simp: enc_ok_def)
  have s: "str D (FIRST + int n) = str D p @ [c]" using str_entry [OF D(1) assms(2)] assms(3) by simp
  then have "hd (str D (FIRST + int n)) = hd (str D p)" using str_nonempty [OF D] by simp
  then show ?thesis
    using assms(1,2) s unfolding enc_ok_def behind_def by (auto simp: CLEAR_def FIRST_def)
qed

text \<open>Sending the code the writer holds: the reader gets its string, and catches up with the
  dictionary the writer had.\<close>

lemma enc_send:
  assumes "enc_ok mb cs D p w"
  shows "dvalids mb ([], -1) (cs @ [p])" "drun mb ([], -1) (cs @ [p]) = w" "dafter mb (cs @ [p]) = (D, p)"
proof -
  obtain E old where st: "dafter mb cs = (E, old)" by (metis surj_pair)
  have e: "dict_ok mb D" "0 \<le> p" "p \<noteq> CLEAR" "p < FIRST + int (length D)" "dict_ok mb E"
    and b: "behind mb (E, old) D p" using assms by (auto simp: enc_ok_def st)
  have "dvalid (E, old) p \<and> dword (E, old) p = str D p \<and> dstep mb (E, old) p = (D, p)"
  proof (cases "old \<noteq> -1 \<and> FIRST + int (length E) < 2 ^ mb")
    case True
    define h where "h = hd (str D p)"
    have D: "D = E @ [(old, h)]" and o: "old < FIRST + int (length E)" using b True by (simp_all add: behind_def h_def)
    have w: "dword (E, old) p = str D p"
    proof (cases "p < FIRST + int (length E)")
      case True
      then show ?thesis using str_append [OF e(5) True] by (simp add: dword_def D)
    next
      case False
      then have p: "p = FIRST + int (length E)" using e(4) D by simp
      have "str D p = str D old @ [h]" using str_entry [OF e(1), of "length E"] by (simp add: D p)
      moreover have "str D old = str E old" "str E old \<noteq> []" using str_append [OF e(5) o] str_nonempty [OF e(5) o] by (simp_all add: D)
      ultimately have "str D p = str E old @ [h]" "h = hd (str E old)" by (simp, metis h_def hd_append2)
      then show ?thesis using False by (simp add: dword_def)
    qed
    moreover have "dstep mb (E, old) p = (E @ [(old, h)], p)" using True e(3) by (simp add: dstep_def w flip: h_def)
    moreover have "dvalid (E, old) p" using True e(2,4) by (simp add: dvalid_def D)
    ultimately show ?thesis by (simp flip: D)
  next
    case False
    then have "D = E" "old = -1 \<longrightarrow> D = []" using b by (auto simp: behind_def split: if_splits)
    then show ?thesis using False e by (auto simp: dvalid_def dstep_def dword_def)
  qed
  then show "dvalids mb ([], -1) (cs @ [p])" "drun mb ([], -1) (cs @ [p]) = w" "dafter mb (cs @ [p]) = (D, p)"
    using assms e(3) by (auto simp: dvalids_snoc drun_snoc st enc_ok_def dout_def)
qed

lemma enc_miss:
  assumes "enc_ok mb cs D p w" "D' = (if FIRST + int (length D) < 2 ^ mb then D @ [(p, c)] else D)"
  shows "enc_ok mb (cs @ [p]) D' (uint c) (w @ [c])"
proof -
  have e: "dict_ok mb D" "0 \<le> p" "p \<noteq> CLEAR" "p < FIRST + int (length D)" using assms(1) by (auto simp: enc_ok_def)
  then have "dict_ok mb D'" using assms(2) dict_ok_snoc by simp
  moreover have "hd (cs @ [p]) \<noteq> CLEAR" using assms(1) by (auto simp: enc_ok_def hd_append)
  ultimately show ?thesis
    using enc_send [OF assms(1)] e uint_octet_less [of c] assms(2)
    by (auto simp: enc_ok_def behind_def str_uint CLEAR_def FIRST_def)
qed

lemma enc_clear:
  fixes c :: octet
  assumes "enc_ok mb cs D (uint c) w" "cs \<noteq> []"
  shows "enc_ok mb (cs @ [CLEAR]) [] (uint c) w"
  using assms uint_octet_less [of c]
  by (auto simp: enc_ok_def dvalids_snoc drun_snoc dvalid_def dout_def dstep_def behind_def str_uint CLEAR_def FIRST_def dict_ok_def)

end
