(* ===== verification/Zopen_Hash.thy ===== *)
theory Zopen_Hash
  imports Lzw
begin

unbundle bit_operations_syntax

text \<open>
  The hash table of zwrite. A table with open addressing whose probe distance is coprime to its
  size is searched completely: a search ends when a slot is free, it finds every key that was
  stored, and storing a new key in the slot it ends in keeps every stored key reachable. The
  table of zopen.c is one: its size is a prime number, and it clears to the empty table.
\<close>

definition disp :: "int \<Rightarrow> int \<Rightarrow> int" where "disp m i = (if i = 0 then 1 else m - i)"

definition slot :: "int \<Rightarrow> int \<Rightarrow> nat \<Rightarrow> int" where "slot m i j = (i - int j * disp m i) mod m"

lemma slot_0: "0 \<le> i \<Longrightarrow> i < m \<Longrightarrow> slot m i 0 = i"
  by (simp add: slot_def)

lemma slot_Suc:
  assumes "0 \<le> i" "i < m" "disp m i \<le> m"
  shows "slot m i (Suc j) = (if slot m i j - disp m i < 0 then slot m i j - disp m i + m else slot m i j - disp m i)"
proof -
  define d x where "d = disp m i" and "x = slot m i j"
  have x: "0 \<le> x" "x < m" using assms by (simp_all add: x_def slot_def)
  have d: "0 < d" "d \<le> m" using assms by (auto simp: d_def disp_def)
  have "slot m i (Suc j) = (i - int j * d - d) mod m" by (simp add: slot_def d_def algebra_simps)
  also have "\<dots> = (x - d) mod m" by (simp add: x_def slot_def d_def mod_diff_left_eq)
  also have "\<dots> = (if x - d < 0 then x - d + m else x - d)"
  proof (cases "x < d")
    case True
    then have "(x - d) mod m = (x - d + m) mod m" by simp
    also have "\<dots> = x - d + m" using True x d by (intro mod_pos_pos_trivial) auto
    finally show ?thesis using True by simp
  qed (use x d in simp)
  finally show ?thesis by (simp add: x_def d_def)
qed

locale open_addressing =
  fixes m :: int and valid :: "int \<Rightarrow> bool" and start :: "int \<Rightarrow> int"
  assumes size_pos: "1 < m"
    and start_range: "valid k \<Longrightarrow> 0 \<le> start k \<and> start k < m"
    and disp_coprime: "valid k \<Longrightarrow> coprime (disp m (start k)) m"
    and valid_nonneg: "valid k \<Longrightarrow> 0 \<le> k"
begin

definition path :: "int \<Rightarrow> nat \<Rightarrow> int" where "path k = slot m (start k)"

definition table_ok :: "(int \<Rightarrow> int) \<Rightarrow> bool" where
  "table_ok t \<longleftrightarrow> (\<forall>i. 0 \<le> i \<and> i < m \<and> 0 \<le> t i \<longrightarrow>
     valid (t i) \<and> (\<exists>j. path (t i) j = i \<and> (\<forall>j'<j. 0 \<le> t (path (t i) j') \<and> t (path (t i) j') \<noteq> t i)))"

lemma path_range: "0 \<le> path k j" "path k j < m"
  using size_pos by (simp_all add: path_def slot_def)

lemma disp_range: "valid k \<Longrightarrow> 0 < disp m (start k) \<and> disp m (start k) \<le> m"
  using start_range size_pos by (force simp: disp_def)

lemma path_0: "valid k \<Longrightarrow> path k 0 = start k"
  by (simp add: path_def slot_0 start_range)

text \<open>The path of a key visits every slot.\<close>

lemma path_inj: "valid k \<Longrightarrow> inj_on (path k) {..<nat m}"
proof (rule inj_onI)
  fix a b assume v: "valid k" and ab: "a \<in> {..<nat m}" "b \<in> {..<nat m}" and e: "path k a = path k b"
  let ?d = "disp m (start k)"
  have "m dvd (start k - int a * ?d) - (start k - int b * ?d)"
    using e by (simp add: path_def slot_def mod_eq_dvd_iff)
  then have "m dvd (int b - int a) * ?d" by (simp add: algebra_simps)
  then have "m dvd int b - int a"
    using disp_coprime [OF v] by (simp add: coprime_dvd_mult_left_iff coprime_commute)
  then show "a = b"
    using ab zdvd_imp_le [of m "int b - int a"] zdvd_imp_le [of m "int a - int b"] dvd_diff_commute [of m "int b" "int a"]
    by (cases a b rule: linorder_cases) auto
qed

lemma path_covers: "valid k \<Longrightarrow> 0 \<le> i \<Longrightarrow> i < m \<Longrightarrow> \<exists>j<nat m. path k j = i"
proof -
  assume v: "valid k" and i: "0 \<le> i" "i < m"
  have "path k ` {..<nat m} \<subseteq> {0..<m}" using path_range by auto
  moreover have "card (path k ` {..<nat m}) = card {0..<m}" using path_inj [OF v] by (simp add: card_image)
  ultimately have "path k ` {..<nat m} = {0..<m}" by (simp add: card_subset_eq)
  then show ?thesis using i by (metis (mono_tags, lifting) atLeastLessThan_iff imageE lessThan_iff)
qed

text \<open>A search stops at the first slot of the path that is free or holds the key.\<close>

lemma probe_step:
  assumes "valid k"
  shows "probe (Suc n) t m k (disp m (start k)) (path k a) =
    (if t (path k (Suc a)) = k then Some (True, path k (Suc a))
     else if 0 \<le> t (path k (Suc a)) then probe n t m k (disp m (start k)) (path k (Suc a))
     else Some (False, path k (Suc a)))"
proof -
  have "(if path k a - disp m (start k) < 0 then path k a - disp m (start k) + m else path k a - disp m (start k)) = path k (Suc a)"
    using slot_Suc [of "start k" m a] start_range [OF assms] disp_range [OF assms] by (simp add: path_def)
  then show ?thesis unfolding probe.simps Let_def by simp
qed

lemma probe_stops:
  assumes "valid k" "j \<le> n" "0 < j" and "\<And>i. i < j \<Longrightarrow> 0 < i \<Longrightarrow> 0 \<le> t (path k (a + i)) \<and> t (path k (a + i)) \<noteq> k"
    and "t (path k (a + j)) = k \<or> t (path k (a + j)) < 0"
  shows "probe n t m k (disp m (start k)) (path k a) = Some (t (path k (a + j)) = k, path k (a + j))"
  using assms(2-)
proof (induction n arbitrary: a j)
  case (Suc n)
  note step = probe_step [OF assms(1)]
  show ?case
  proof (cases "j = 1")
    case True
    then show ?thesis using Suc.prems(4) by (auto simp: step simp del: probe.simps)
  next
    case False
    then have "0 \<le> t (path k (Suc a))" "t (path k (Suc a)) \<noteq> k" using Suc.prems(2,3) Suc.prems(3) [of 1] by auto
    moreover have "probe n t m k (disp m (start k)) (path k (Suc a)) = Some (t (path k (Suc a + (j - 1))) = k, path k (Suc a + (j - 1)))"
      using Suc.prems False by (intro Suc.IH) (use Suc.prems(3) [of "Suc _"] in auto)
    ultimately show ?thesis using Suc.prems(2) by (simp add: step del: probe.simps)
  qed
qed simp

lemma search_stops:
  assumes "valid k" "j \<le> nat m" and "\<And>i. i < j \<Longrightarrow> 0 \<le> t (path k i) \<and> t (path k i) \<noteq> k"
    and "t (path k j) = k \<or> t (path k j) < 0"
  shows "hash_search t m k (start k) = Some (t (path k j) = k, path k j)"
proof (cases "j = 0")
  case True
  then show ?thesis using assms(4) valid_nonneg [OF assms(1)] by (auto simp: hash_search_def path_0 [OF assms(1)])
next
  case False
  then have "0 \<le> t (start k)" "t (start k) \<noteq> k" using assms(3) [of 0] by (auto simp: path_0 [OF assms(1)])
  moreover have "probe (nat m) t m k (disp m (start k)) (path k 0) = Some (t (path k (0 + j)) = k, path k (0 + j))"
    using assms False by (intro probe_stops) auto
  ultimately show ?thesis by (simp add: hash_search_def path_0 [OF assms(1)] flip: disp_def)
qed

lemma search_total:
  assumes "valid k" "0 \<le> i" "i < m" "t i < 0"
  shows "\<exists>j. (\<forall>j'<j. 0 \<le> t (path k j') \<and> t (path k j') \<noteq> k) \<and> (t (path k j) = k \<or> t (path k j) < 0)
    \<and> hash_search t m k (start k) = Some (t (path k j) = k, path k j)"
proof -
  let ?P = "\<lambda>j. t (path k j) = k \<or> t (path k j) < 0"
  obtain n where n: "n < nat m" "?P n" using path_covers [OF assms(1-3)] assms(4) by auto
  define j where "j = (LEAST j. ?P j)"
  have j: "?P j" "\<And>j'. j' < j \<Longrightarrow> \<not> ?P j'" "j \<le> n"
    unfolding j_def using n(2) by (rule LeastI, blast dest: not_less_Least, rule Least_le)
  have "hash_search t m k (start k) = Some (t (path k j) = k, path k j)"
    using j n by (intro search_stops assms(1)) (auto simp: not_less)
  then show ?thesis using j by (meson not_less)
qed

lemma table_ok_stored:
  assumes "table_ok t" "0 \<le> i" "i < m" "t i = k" "valid k"
    and "\<forall>j'<j. 0 \<le> t (path k j') \<and> t (path k j') \<noteq> k" "t (path k j) = k \<or> t (path k j) < 0"
  shows "path k j = i"
proof -
  obtain n where n: "path k n = i" "\<forall>j'<n. 0 \<le> t (path k j') \<and> t (path k j') \<noteq> k"
    using assms(1-5) valid_nonneg [OF assms(5)] unfolding table_ok_def by auto
  have "\<not> j < n" using n(2) assms(7) by (meson not_less)
  moreover have "\<not> n < j" using assms(4,6) n(1) by auto
  ultimately show ?thesis using n(1) by (simp add: linorder_neq_iff)
qed

lemma table_ok_inj: "table_ok t \<Longrightarrow> inj_on t {i. 0 \<le> i \<and> i < m \<and> 0 \<le> t i}"
proof (rule inj_onI)
  fix a b assume ok: "table_ok t" and ab: "a \<in> {i. 0 \<le> i \<and> i < m \<and> 0 \<le> t i}" "b \<in> {i. 0 \<le> i \<and> i < m \<and> 0 \<le> t i}"
    and e: "t a = t b"
  then obtain n where "valid (t a)" "path (t a) n = a" "\<forall>j'<n. 0 \<le> t (path (t a) j') \<and> t (path (t a) j') \<noteq> t a"
    unfolding table_ok_def by blast
  then show "a = b" using table_ok_stored [OF ok, of b "t a" n] ab e by auto
qed

lemma table_ok_store:
  assumes "table_ok t" "valid k" "\<forall>j'<j. 0 \<le> t (path k j') \<and> t (path k j') \<noteq> k" "t (path k j) < 0"
  shows "table_ok (t(path k j := k))"
proof -
  let ?t = "t(path k j := k)"
  have new: "\<forall>j'<j. 0 \<le> ?t (path k j') \<and> ?t (path k j') \<noteq> k" using assms(3,4) by force
  have old: "t i \<noteq> k" if "0 \<le> i" "i < m" for i
    using table_ok_stored [OF assms(1) that _ assms(2,3)] assms(4) valid_nonneg [OF assms(2)] by force
  show ?thesis
    unfolding table_ok_def
  proof (intro allI impI)
    fix i assume i: "0 \<le> i \<and> i < m \<and> 0 \<le> ?t i"
    show "valid (?t i) \<and> (\<exists>n. path (?t i) n = i \<and> (\<forall>j'<n. 0 \<le> ?t (path (?t i) j') \<and> ?t (path (?t i) j') \<noteq> ?t i))"
    proof (cases "i = path k j")
      case True
      then show ?thesis using new assms(2) by (auto intro!: exI [of _ j])
    next
      case False
      then obtain n where "valid (t i)" "path (t i) n = i" "\<forall>j'<n. 0 \<le> t (path (t i) j') \<and> t (path (t i) j') \<noteq> t i"
        using i assms(1) unfolding table_ok_def by auto
      then show ?thesis using False i old [of i] valid_nonneg [OF assms(2)] by (auto intro!: exI [of _ n])
    qed
  qed
qed

end

subsection \<open>The table of zopen.c\<close>

lemma HSIZE_no_factor: "2 \<le> d \<Longrightarrow> d \<le> 262 \<Longrightarrow> \<not> d dvd HSIZE"
proof -
  have "\<forall>d\<in>set [2..262]. \<not> d dvd HSIZE" by code_simp
  then show "2 \<le> d \<Longrightarrow> d \<le> 262 \<Longrightarrow> \<not> d dvd HSIZE" by (metis atLeastAtMost_iff set_upto)
qed

lemma HSIZE_coprime:
  assumes "0 < a" "a < HSIZE"
  shows "coprime a HSIZE"
proof (rule ccontr)
  assume "\<not> coprime a HSIZE"
  then have g1: "gcd a HSIZE \<noteq> 1" by (simp add: coprime_iff_gcd_eq_1)
  define g where "g = gcd a HSIZE"
  have g: "0 < g" "g \<noteq> 1" "g \<le> a" "g dvd HSIZE"
    using assms g1 by (auto simp: g_def intro: zdvd_imp_le)
  then obtain h where h: "HSIZE = g * h" by (auto simp: dvd_def)
  have "0 < h" using h g(1) assms by (metis order.strict_trans zero_less_mult_pos)
  moreover have "h \<noteq> 1" using h g(3) assms(2) by auto
  moreover have "\<not> g \<le> 262" using HSIZE_no_factor [of g] g by auto
  ultimately have "2 \<le> h" "h * 263 \<le> g * h" by (auto simp: mult.commute)
  then have "h \<le> 262" using h by (simp add: HSIZE_def)
  moreover have "h dvd HSIZE" using h by (metis dvd_triv_right)
  ultimately show False using HSIZE_no_factor [of h] \<open>2 \<le> h\<close> by auto
qed

definition zkey :: "nat \<Rightarrow> int \<times> octet \<Rightarrow> int" where "zkey mb e = push_bit mb (uint (snd e)) + fst e"

definition zvalid :: "nat \<Rightarrow> int \<Rightarrow> bool" where "zvalid mb k \<longleftrightarrow> mb \<le> BITS \<and> 0 \<le> k \<and> k < 256 * 2 ^ mb"

definition zstart :: "nat \<Rightarrow> int \<Rightarrow> int" where "zstart mb k = push_bit 8 (k div 2 ^ mb) XOR (k mod 2 ^ mb)"

lemma zstart_range: "zvalid mb k \<Longrightarrow> 0 \<le> zstart mb k \<and> zstart mb k < 65536"
proof -
  assume v: "zvalid mb k"
  have m: "(2::int) ^ mb \<le> 2 ^ 16" using v by (intro power_increasing) (auto simp: zvalid_def BITS_def)
  have "0 \<le> k div 2 ^ mb" using v by (auto simp: zvalid_def pos_imp_zdiv_nonneg_iff)
  moreover have "k div 2 ^ mb < 256"
    using v mult_right_mono [of 256 "k div 2 ^ mb" "2 ^ mb"] div_mult_mod_eq [of k "2 ^ mb"] pos_mod_sign [of "2 ^ mb" k]
    unfolding zvalid_def by (cases "k div 2 ^ mb < 256") linarith+
  ultimately have "0 \<le> push_bit 8 (k div 2 ^ mb)" "push_bit 8 (k div 2 ^ mb) < 2 ^ 16" by (auto simp: push_bit_eq_mult)
  moreover have "0 \<le> k mod 2 ^ mb" "k mod 2 ^ mb < 2 ^ 16" using m pos_mod_bound [of "2 ^ mb" k] by (auto simp del: pos_mod_bound)
  ultimately show ?thesis unfolding zstart_def using XOR_upper [of _ 16] by force
qed

interpretation zhash: open_addressing HSIZE "zvalid mb" "zstart mb" for mb
proof unfold_locales
  show "1 < HSIZE" by (simp add: HSIZE_def)
  fix k assume v: "zvalid mb k"
  show r: "0 \<le> zstart mb k \<and> zstart mb k < HSIZE" using zstart_range [OF v] by (simp add: HSIZE_def)
  show "coprime (disp HSIZE (zstart mb k)) HSIZE"
    using r by (auto simp: disp_def intro!: HSIZE_coprime)
  show "0 \<le> k" using v by (simp add: zvalid_def)
qed

lemma zkey_split:
  assumes "0 \<le> p" "p < 2 ^ mb"
  shows "zkey mb (p, c) div 2 ^ mb = uint c" "zkey mb (p, c) mod 2 ^ mb = p"
  using assms by (simp_all add: zkey_def push_bit_eq_mult)

lemma zkey_inj: "0 \<le> fst e \<Longrightarrow> fst e < 2 ^ mb \<Longrightarrow> 0 \<le> fst e' \<Longrightarrow> fst e' < 2 ^ mb \<Longrightarrow> zkey mb e = zkey mb e' \<longleftrightarrow> e = e'"
  using zkey_split [of "fst e" mb "snd e"] zkey_split [of "fst e'" mb "snd e'"]
  by (metis prod.collapse word_uint_eq_iff)

lemma zkey_nonneg: "0 \<le> fst e \<Longrightarrow> 0 \<le> zkey mb e"
  by (simp add: zkey_def push_bit_eq_mult)

lemma zkey_valid: "mb \<le> BITS \<Longrightarrow> 0 \<le> p \<Longrightarrow> p < 2 ^ mb \<Longrightarrow> zvalid mb (zkey mb (p, c))"
proof -
  assume a: "mb \<le> BITS" "0 \<le> p" "p < 2 ^ mb"
  have "uint c \<le> 255" using uint_lt2p [of c] by simp
  then have "uint c * 2 ^ mb \<le> 255 * 2 ^ mb" by (intro mult_right_mono) auto
  moreover have "zkey mb (p, c) = uint c * 2 ^ mb + p" by (simp add: zkey_def push_bit_eq_mult)
  moreover have "0 \<le> uint c * 2 ^ mb" by simp
  ultimately show ?thesis using a unfolding zvalid_def by linarith
qed

text \<open>The table holds a dictionary: the i-th pair of a prefix code and a byte under code FIRST + i.\<close>

definition holds :: "nat \<Rightarrow> dict \<Rightarrow> (int \<Rightarrow> int) \<Rightarrow> (int \<Rightarrow> int) \<Rightarrow> bool" where
  "holds mb D t ct \<longleftrightarrow> zhash.table_ok mb t
     \<and> (\<forall>i. 0 \<le> i \<and> i < HSIZE \<and> 0 \<le> t i \<longrightarrow> (\<exists>n<length D. t i = zkey mb (D ! n) \<and> ct i = FIRST + int n))
     \<and> (\<forall>n<length D. \<exists>i. 0 \<le> i \<and> i < HSIZE \<and> t i = zkey mb (D ! n))"

lemma dict_prefix_less: "dict_ok mb D \<Longrightarrow> i < length D \<Longrightarrow> 0 \<le> fst (D ! i) \<and> fst (D ! i) < 2 ^ mb"
  unfolding dict_ok_def by force

lemma holds_free:
  assumes "dict_ok mb D" "holds mb D t ct"
  shows "\<exists>i. 0 \<le> i \<and> i < HSIZE \<and> t i < 0"
proof (rule ccontr)
  assume "\<not> ?thesis"
  then have all: "{i. 0 \<le> i \<and> i < HSIZE \<and> 0 \<le> t i} = {0..<HSIZE}" by force
  have "t ` {0..<HSIZE} \<subseteq> (\<lambda>n. zkey mb (D ! n)) ` {..<length D}"
    using assms(2) all unfolding holds_def by fastforce
  then have "card (t ` {0..<HSIZE}) \<le> length D" by (metis card_image_le card_lessThan card_mono finite_imageI finite_lessThan le_trans)
  moreover have "inj_on t {0..<HSIZE}" using zhash.table_ok_inj [of mb t] assms(2) all by (simp add: holds_def)
  ultimately have "nat HSIZE \<le> length D" by (simp add: card_image)
  moreover have "int (length D) \<le> 2 ^ 16"
    using assms(1) power_increasing [of mb 16 "2::int"] by (simp add: dict_ok_def BITS_def FIRST_def)
  ultimately show False by (simp add: HSIZE_def)
qed

lemma zstart_zkey: "0 \<le> p \<Longrightarrow> p < 2 ^ mb \<Longrightarrow> zstart mb (zkey mb (p, c)) = push_bit 8 (uint c) XOR p"
  by (simp add: zstart_def zkey_split)

lemma holds_slot: "holds mb D t ct \<Longrightarrow> 0 \<le> i \<Longrightarrow> i < HSIZE \<Longrightarrow> 0 \<le> t i \<Longrightarrow>
    \<exists>n<length D. t i = zkey mb (D ! n) \<and> ct i = FIRST + int n"
  by (simp add: holds_def)

lemma holds_pair: "holds mb D t ct \<Longrightarrow> n < length D \<Longrightarrow> \<exists>i. 0 \<le> i \<and> i < HSIZE \<and> t i = zkey mb (D ! n)"
  by (simp add: holds_def)

text \<open>What the search of zwrite_byte does: it finds the code of a pair of the dictionary, or the
  slot where the pair is to be stored.\<close>

lemma search_dict:
  assumes D: "dict_ok mb D" and h: "holds mb D t ct" and p: "0 \<le> p" "p < 2 ^ mb"
  obtains (hit) n i where "n < length D" "D ! n = (p, c)" "ct i = FIRST + int n"
      "hash_search t HSIZE (zkey mb (p, c)) (push_bit 8 (uint c) XOR p) = Some (True, i)"
  | (miss) i where "(p, c) \<notin> set D" "0 \<le> i" "i < HSIZE"
      "hash_search t HSIZE (zkey mb (p, c)) (push_bit 8 (uint c) XOR p) = Some (False, i)"
      "holds mb (D @ [(p, c)]) (t(i := zkey mb (p, c))) (ct(i := FIRST + int (length D)))"
proof -
  let ?k = "zkey mb (p, c)"
  have ok: "zhash.table_ok mb t" using h by (simp add: holds_def)
  have v: "zvalid mb ?k" using D p by (intro zkey_valid) (auto simp: dict_ok_def)
  obtain f where f: "0 \<le> f" "f < HSIZE" "t f < 0" using holds_free [OF D h] by blast
  obtain j where j: "\<forall>j'<j. 0 \<le> t (zhash.path mb ?k j') \<and> t (zhash.path mb ?k j') \<noteq> ?k"
      "t (zhash.path mb ?k j) = ?k \<or> t (zhash.path mb ?k j) < 0"
      "hash_search t HSIZE ?k (zstart mb ?k) = Some (t (zhash.path mb ?k j) = ?k, zhash.path mb ?k j)"
    using zhash.search_total [where t = t, OF v f] by blast
  define i where "i = zhash.path mb ?k j"
  have i: "0 \<le> i" "i < HSIZE" using zhash.path_range by (simp_all add: i_def)
  have s: "hash_search t HSIZE ?k (push_bit 8 (uint c) XOR p) = Some (t i = ?k, i)"
    using j(3) p by (simp add: i_def zstart_zkey)
  have keys: "zkey mb (D ! n) = ?k \<longleftrightarrow> D ! n = (p, c)" if "n < length D" for n
    using dict_prefix_less [OF D that] p by (intro zkey_inj) auto
  show thesis
  proof (cases "t i = ?k")
    case True
    then have "0 \<le> t i" using zhash.valid_nonneg [OF v] by simp
    from holds_slot [OF h i this] obtain n where n: "n < length D" "t i = zkey mb (D ! n)" "ct i = FIRST + int n"
      by blast
    moreover have "D ! n = (p, c)" using keys [OF n(1)] n(2) True by simp
    ultimately show thesis using hit [of n i] s True by simp
  next
    case False
    then have free: "t i < 0" using j(2) by (simp add: i_def)
    have "(p, c) \<notin> set D"
    proof
      assume "(p, c) \<in> set D"
      then obtain n where "n < length D" "D ! n = (p, c)" by (auto simp: in_set_conv_nth)
      then obtain x where x: "0 \<le> x" "x < HSIZE" "t x = ?k" using holds_pair [OF h] by metis
      then show False using zhash.table_ok_stored [OF ok x v j(1,2)] False by (simp add: i_def)
    qed
    moreover have "holds mb (D @ [(p, c)]) (t(i := ?k)) (ct(i := FIRST + int (length D)))"
      unfolding holds_def
    proof (intro conjI allI impI)
      show "zhash.table_ok mb (t(i := ?k))"
        using zhash.table_ok_store [OF ok v j(1)] free by (simp add: i_def)
      fix x assume x: "0 \<le> x \<and> x < HSIZE \<and> 0 \<le> (t(i := ?k)) x"
      show "\<exists>n<length (D @ [(p, c)]). (t(i := ?k)) x = zkey mb ((D @ [(p, c)]) ! n)
          \<and> (ct(i := FIRST + int (length D))) x = FIRST + int n"
      proof (cases "x = i")
        case False
        then obtain n where "n < length D" "t x = zkey mb (D ! n)" "ct x = FIRST + int n"
          using holds_slot [OF h] x by auto
        then show ?thesis using False by (intro exI [of _ n]) (simp add: nth_append)
      qed (auto intro: exI [of _ "length D"])
    next
      fix n assume "n < length (D @ [(p, c)])"
      then consider "n < length D" | "n = length D" by (auto simp: less_Suc_eq)
      then show "\<exists>x. 0 \<le> x \<and> x < HSIZE \<and> (t(i := ?k)) x = zkey mb ((D @ [(p, c)]) ! n)"
      proof cases
        case 1
        then obtain x where "0 \<le> x" "x < HSIZE" "t x = zkey mb (D ! n)" using holds_pair [OF h] by blast
        moreover have "x \<noteq> i"
          using calculation(3) free dict_prefix_less [OF D 1] zkey_nonneg [of "D ! n" mb] by auto
        ultimately show ?thesis using 1 by (intro exI [of _ x]) (simp add: nth_append)
      qed (use i in auto)
    qed
    ultimately show thesis using miss i s False by auto
  qed
qed

subsection \<open>Clearing\<close>

lemma clear_below_eq: "clear_below k p t = (\<lambda>x. if p - int k \<le> x \<and> x < p then -1 else t x)"
  by (induction k arbitrary: p t) (auto simp: fun_eq_iff)

lemma cl_hash_loop_eq:
  "0 \<le> i \<Longrightarrow> p = i + 16 \<Longrightarrow> cl_hash_loop i p t = (\<lambda>x. if 0 \<le> x \<and> x < p then -1 else t x)"
proof (induction i p t rule: cl_hash_loop.induct)
  case (1 i p t)
  show ?case
  proof (cases "i - 16 \<ge> 0")
    case True
    then have "cl_hash_loop (i - 16) (p - 16) (clear_below 16 p t) = (\<lambda>x. if 0 \<le> x \<and> x < p - 16 then -1 else clear_below 16 p t x)"
      by (rule 1(1) [OF refl refl]) (use 1(3) True in auto)
    then show ?thesis
      using True 1(2,3) by (subst cl_hash_loop.simps) (auto simp: Let_def clear_below_eq fun_eq_iff)
  next
    case False
    then show ?thesis
      using 1(2,3) by (subst cl_hash_loop.simps) (auto simp: Let_def clear_below_eq fun_eq_iff)
  qed
qed

lemma holds_empty: "\<forall>i. 0 \<le> i \<and> i < HSIZE \<longrightarrow> t i = -1 \<Longrightarrow> holds mb [] t ct"
  by (auto simp: holds_def zhash.table_ok_def)

lemma cl_hash_holds: "holds mb [] (htab (cl_hash HSIZE s)) ct"
  by (rule holds_empty) (simp add: cl_hash_def cl_hash_loop_eq HSIZE_def)

end
