(* ===== verification/Zopen_Write.thy ===== *)
theory Zopen_Write
  imports Zopen_Groups Zopen_Hash
begin

unbundle bit_operations_syntax

text \<open>
  The writer of zopen.c: what it has put in the file and the buffer carries the codes it has sent
  (\<open>sending\<close>), and its hash table holds the dictionary of those codes (\<open>writes\<close>). A stream that
  is written and closed carries codes from which the reader's algorithm makes the data back.
\<close>

subsection \<open>Sending a code\<close>

abbreviation wafter :: "nat \<Rightarrow> int list \<Rightarrow> width" where
  "wafter mb \<equiv> width_after mb (INIT_BITS, FIRST)"

definition open_group :: "nat \<Rightarrow> width \<Rightarrow> int list \<Rightarrow> zstate \<Rightarrow> bool" where
  "open_group mb st g s \<longleftrightarrow> quiet mb st g \<and> length g < 8 \<and> (\<forall>c \<in> set g. 0 \<le> c \<and> c < 2 ^ fst st)
     \<and> packed (fst st) g (zbuf s) \<and> length (zbuf s) = 16 \<and> offset s = length g * fst st
     \<and> n_bits s = fst st \<and> maxcode s = mcode mb (fst st) \<and> maxbits s = mb \<and> maxmaxcode s = 2 ^ mb"

definition sending :: "nat \<Rightarrow> octet list \<Rightarrow> int list \<Rightarrow> zstate \<Rightarrow> bool" where
  "sending mb h cs s \<longleftrightarrow> (\<exists>gs g. cs = concat (map fst gs) @ g \<and> zfile s = h @ concat (map snd gs)
     \<and> full_groups mb (INIT_BITS, FIRST) gs \<and> open_group mb (wafter mb (concat (map fst gs))) g s)"

text \<open>The flags output() finds: a clear is announced, any other code comes with the free entry.\<close>

definition announced :: "nat \<Rightarrow> int list \<Rightarrow> int \<Rightarrow> zstate \<Rightarrow> bool" where
  "announced mb cs c s \<longleftrightarrow> (if c = CLEAR then clear_flg s = 1 else clear_flg s = 0 \<and> free_ent s = snd (wafter mb cs))"

lemma zoutput_frame [simp]:
  "htab (zoutput c s) = htab s" "codetab (zoutput c s) = codetab s" "free_ent (zoutput c s) = free_ent s"
  "ent (zoutput c s) = ent s" "maxbits (zoutput c s) = maxbits s" "maxmaxcode (zoutput c s) = maxmaxcode s"
  "hsize_reg (zoutput c s) = hsize_reg s" "hshift (zoutput c s) = hshift s" "hsize (zoutput c s) = hsize s"
  "zmode (zoutput c s) = zmode s" "zphase (zoutput c s) = zphase s"
  by (simp_all add: zoutput_def grow_code_def fwrite_def Let_def)

lemma grow_code_eq:
  assumes "bits_ok mb" "n_bits s = fst st" "maxcode s = mcode mb (fst st)" "maxbits s = mb" "maxmaxcode s = 2 ^ mb"
    and "if c = CLEAR then clear_flg s = 1 else clear_flg s = 0 \<and> free_ent s = snd st"
  shows "zfile (grow_code s) = zfile s @ (if ends_group mb st c \<and> offset s > 0 then take (fst st) (zbuf s) else [])"
    and "offset (grow_code s) = (if ends_group mb st c then 0 else offset s)"
    and "n_bits (grow_code s) = fst (nxt mb st c)" "maxcode (grow_code s) = mcode mb (fst (nxt mb st c))"
    and "clear_flg (grow_code s) = 0"
proof -
  have i: "mb \<noteq> INIT_BITS" using assms(1) by (simp add: bits_ok_def INIT_BITS_def)
  have e: "free_ent s > maxcode s \<or> clear_flg s > 0 \<longleftrightarrow> ends_group mb st c"
    using assms(3,6) by (cases "c = CLEAR") (auto simp: ends_group_def grows_def)
  note unf = grow_code_def [of s, unfolded e] fwrite_def Let_def nxt_def mcode_def
  consider "c = CLEAR" "clear_flg s = 1" "ends_group mb st c" | "c \<noteq> CLEAR" "clear_flg s = 0" "ends_group mb st c" "grows mb st"
    | "c \<noteq> CLEAR" "clear_flg s = 0" "\<not> ends_group mb st c" "\<not> grows mb st"
    using assms(6) by (auto simp: ends_group_def split: if_splits)
  note cs = this
  show "zfile (grow_code s) = zfile s @ (if ends_group mb st c \<and> offset s > 0 then take (fst st) (zbuf s) else [])"
    using assms(2) by (cases rule: cs) (simp_all add: unf)
  show "offset (grow_code s) = (if ends_group mb st c then 0 else offset s)"
    by (cases rule: cs) (simp_all add: unf)
  show "n_bits (grow_code s) = fst (nxt mb st c)"
    using assms(2) by (cases rule: cs) (simp_all add: unf)
  show "maxcode (grow_code s) = mcode mb (fst (nxt mb st c))"
    using assms(2-5) i by (cases rule: cs) (simp_all add: unf)
  show "clear_flg (grow_code s) = 0"
    by (cases rule: cs) (simp_all add: unf)
qed

lemma grow_code_frame [simp]:
  "zbuf (grow_code s) = zbuf s" "maxbits (grow_code s) = maxbits s" "maxmaxcode (grow_code s) = maxmaxcode s"
  by (simp_all add: grow_code_def fwrite_def Let_def)

lemma zoutput_sends:
  assumes mb: "bits_ok mb" and s: "sending mb h cs s" and c: "0 \<le> c" "c < 2 ^ fst (wafter mb cs)" and a: "announced mb cs c s"
  shows "sending mb h (cs @ [c]) (zoutput c s) \<and> clear_flg (zoutput c s) = 0"
proof -
  obtain gs g where cs: "cs = concat (map fst gs) @ g" and f: "zfile s = h @ concat (map snd gs)"
    and gs: "full_groups mb (INIT_BITS, FIRST) gs" and og: "open_group mb (wafter mb (concat (map fst gs))) g s"
    using s by (auto simp: sending_def)
  define st0 where "st0 = wafter mb (concat (map fst gs))"
  define st where "st = wafter mb cs"
  have stg: "width_after mb st0 g = st" by (simp add: st_def st0_def cs)
  note og = og [folded st0_def, unfolded open_group_def]
  have n: "fst st = fst st0" using og quiet_width [of mb st0 g] stg by simp
  have w: "width_ok mb st0" using width_ok_after [OF mb width_ok_start [OF mb]] by (simp add: st0_def)
  then have n9: "9 \<le> fst st0" "fst st0 \<le> 16" using mb by (auto simp: width_ok_def bits_ok_def BITS_def)
  define b where "b = put_code (fst st0) (length g * fst st0) c (zbuf s)"
  have b: "packed (fst st0) (g @ [c]) b" "length b = 16"
    using packed_put [of "fst st0" g "zbuf s" c] og n9 by (auto simp: b_def)
  have cc: "\<forall>x \<in> set (g @ [c]). 0 \<le> x \<and> x < 2 ^ fst st0" using og c n by (auto simp flip: st_def)
  have "length (g @ [c]) * fst st0 \<le> 8 * fst st0" using og by (intro mult_le_mono1) auto
  then have gok: "group_ok mb st0 (g @ [c], take (fst st0) b)"
    using og cc b n9 packed_take [OF b(1), of "fst st0" "[]"] by (simp add: group_ok_def)
  define s1 where "s1 = s\<lparr>zbuf := b, offset := length g * fst st0 + fst st0\<rparr>"
  define s2 where "s2 = (if length g = 7
    then (fwrite (take (fst st0) b) s1)\<lparr>bytes_out := bytes_out s + int (fst st0), offset := 0\<rparr> else s1)"
  have out: "zoutput c s = grow_code s2"
    using c og n9 by (auto simp: zoutput_def Let_def s2_def s1_def b_def)
  have pre: "n_bits s2 = fst st" "maxcode s2 = mcode mb (fst st)" "maxbits s2 = mb" "maxmaxcode s2 = 2 ^ mb"
    "if c = CLEAR then clear_flg s2 = 1 else clear_flg s2 = 0 \<and> free_ent s2 = snd st"
    using og a n by (simp_all add: s2_def s1_def fwrite_def announced_def flip: st_def)
  note g = grow_code_eq [OF mb pre]
  have st': "wafter mb (cs @ [c]) = nxt mb st c" by (simp add: st_def)
  show ?thesis
  proof (cases "length g = 7 \<or> ends_group mb st c")
    case True
    let ?g = "(g @ [c], take (fst st0) b)"
    have "full_group mb st0 ?g" using True gok b n9 stg by (auto simp: full_group_def)
    then have "full_groups mb (INIT_BITS, FIRST) (gs @ [?g])" using gs by (simp add: full_groups_snoc st0_def)
    moreover have "zfile (zoutput c s) = h @ concat (map snd (gs @ [?g]))"
      using True f g(1) n9 by (auto simp: out s2_def s1_def fwrite_def n)
    moreover have "offset (zoutput c s) = 0" using True g(2) by (auto simp: out s2_def)
    moreover have "zbuf (zoutput c s) = b" by (simp add: out s2_def s1_def fwrite_def)
    ultimately have "sending mb h (cs @ [c]) (zoutput c s)"
      using g(3,4) pre(3,4) b st' unfolding sending_def open_group_def
      by (intro exI [of _ "gs @ [?g]"] exI [of _ "[]"]) (simp add: cs out packed_def stg [unfolded st0_def])
    then show ?thesis using g(5) by (simp add: out)
  next
    case False
    then have q: "quiet mb st0 (g @ [c])" "fst (nxt mb st c) = fst st0" using og stg n by (auto simp: quiet_snoc ends_group_def nxt_def)
    have "sending mb h (cs @ [c]) (zoutput c s)"
      unfolding sending_def
    proof (intro exI conjI)
      show "open_group mb (wafter mb (concat (map fst gs))) (g @ [c]) (zoutput c s)"
        using False g(2-4) q cc b og unfolding open_group_def st0_def [symmetric]
        by (simp add: out s2_def s1_def mult.commute)
    qed (use False f gs g(1) cs in \<open>auto simp: out s2_def s1_def\<close>)
    then show ?thesis using g(5) by (simp add: out)
  qed
qed

lemma sending_upd [simp]:
  "sending mb h cs (s\<lparr>in_count := x\<rparr>) = sending mb h cs s" "sending mb h cs (s\<lparr>ent := x\<rparr>) = sending mb h cs s"
  "sending mb h cs (s\<lparr>codetab := ct\<rparr>) = sending mb h cs s" "sending mb h cs (s\<lparr>htab := t\<rparr>) = sending mb h cs s"
  "sending mb h cs (s\<lparr>free_ent := x\<rparr>) = sending mb h cs s" "sending mb h cs (s\<lparr>clear_flg := x\<rparr>) = sending mb h cs s"
  "sending mb h cs (s\<lparr>ratio := x\<rparr>) = sending mb h cs s" "sending mb h cs (s\<lparr>checkpoint := x\<rparr>) = sending mb h cs s"
  "sending mb h cs (s\<lparr>out_count := x\<rparr>) = sending mb h cs s"
  by (simp_all add: sending_def open_group_def)

subsection \<open>Writing bytes\<close>

definition header :: "nat \<Rightarrow> octet list" where
  "header mb = magic_header @ [word_of_int (int mb OR BLOCK_MASK)]"

definition writes :: "nat \<Rightarrow> int list \<Rightarrow> dict \<Rightarrow> octet list \<Rightarrow> zstate \<Rightarrow> bool" where
  "writes mb cs D w s \<longleftrightarrow> sending mb (header mb) cs s \<and> clear_flg s = 0 \<and> free_ent s = FIRST + int (length D)
     \<and> snd (wafter mb cs) = FIRST + int (length D) \<and> holds mb D (htab s) (codetab s) \<and> enc_ok mb cs D (ent s) w
     \<and> maxbits s = mb \<and> maxmaxcode s = 2 ^ mb \<and> hsize s = HSIZE \<and> hsize_reg s = HSIZE \<and> hshift s = 8
     \<and> zphase s = S_MIDDLE \<and> zmode s = CHR ''w''"

lemma wafter_bounds:
  assumes "bits_ok mb"
  shows "snd (wafter mb cs) \<le> 2 ^ fst (wafter mb cs)" "9 \<le> fst (wafter mb cs)" "fst (wafter mb cs) \<le> mb"
  using width_ok_after [OF assms width_ok_start [OF assms], of cs] by (simp_all add: width_ok_def)

text \<open>Sending the held code, and holding the byte that broke the match.\<close>

lemma writes_send:
  fixes b :: octet
  assumes mb: "bits_ok mb" and w: "writes mb cs D w s" and s': "s' = (zoutput (ent s) s)\<lparr>out_count := x, ent := uint b\<rparr>"
  shows "sending mb (header mb) (cs @ [ent s]) s'" "clear_flg s' = 0"
    and "snd (wafter mb (cs @ [ent s])) = (if FIRST + int (length D) < 2 ^ mb then FIRST + int (length D) + 1 else FIRST + int (length D))"
proof -
  have e: "0 \<le> ent s" "ent s \<noteq> CLEAR" "ent s < FIRST + int (length D)" using w by (auto simp: writes_def enc_ok_def)
  have "sending mb (header mb) (cs @ [ent s]) (zoutput (ent s) s) \<and> clear_flg (zoutput (ent s) s) = 0"
  proof (rule zoutput_sends [OF mb])
    show "ent s < 2 ^ fst (wafter mb cs)" using e w wafter_bounds [OF mb, of cs] by (simp add: writes_def)
  qed (use w e in \<open>simp_all add: writes_def announced_def\<close>)
  then show "sending mb (header mb) (cs @ [ent s]) s'" "clear_flg s' = 0" by (simp_all add: s')
  show "snd (wafter mb (cs @ [ent s])) = (if FIRST + int (length D) < 2 ^ mb then FIRST + int (length D) + 1 else FIRST + int (length D))"
    using e w by (simp add: nxt_def writes_def)
qed

lemma cl_block_writes:
  fixes b :: octet
  assumes mb: "bits_ok mb" and w: "writes mb cs D w s" and e: "ent s = uint b" "cs \<noteq> []"
  shows "\<exists>cs' D'. writes mb cs' D' w (cl_block s)"
proof -
  define s1 where "s1 = s\<lparr>checkpoint := in_count s + CHECK_GAP\<rparr>"
  have w1: "writes mb cs D w (s1\<lparr>ratio := r\<rparr>)" for r using w by (simp add: s1_def writes_def)
  define s2 where "s2 = (cl_hash (hsize s1) (s1\<lparr>ratio := 0\<rparr>))\<lparr>free_ent := FIRST, clear_flg := 1\<rparr>"
  have "writes mb (cs @ [CLEAR]) [] w (zoutput CLEAR s2)"
  proof -
    have "sending mb (header mb) cs s2" using w by (simp add: s2_def s1_def cl_hash_def writes_def)
    moreover have "(2::int) ^ 9 \<le> 2 ^ fst (wafter mb cs)" using wafter_bounds(2) [OF mb] by (intro power_increasing) auto
    then have "CLEAR < 2 ^ fst (wafter mb cs)" by (simp add: CLEAR_def)
    ultimately have "sending mb (header mb) (cs @ [CLEAR]) (zoutput CLEAR s2) \<and> clear_flg (zoutput CLEAR s2) = 0"
      by (intro zoutput_sends [OF mb]) (simp_all add: CLEAR_def announced_def s2_def)
    moreover have "holds mb [] (htab s2) (codetab s2)"
      using w cl_hash_holds [of mb "s1\<lparr>ratio := 0\<rparr>"] by (simp add: s2_def s1_def writes_def)
    moreover have "enc_ok mb (cs @ [CLEAR]) [] (ent s2) w"
      using w e enc_clear [of mb cs D b w] by (simp add: s2_def s1_def cl_hash_def writes_def)
    ultimately show ?thesis
      using w by (simp add: writes_def s2_def s1_def cl_hash_def nxt_def)
  qed
  then show ?thesis using w1 unfolding cl_block_def Let_def s1_def [symmetric] s2_def [symmetric]
    by (auto split: if_split)
qed

lemma zwrite_byte_writes:
  assumes mb: "bits_ok mb" and w: "writes mb cs D w s0"
  shows "\<exists>t cs' D'. zwrite_byte b s0 = Some t \<and> writes mb cs' D' (w @ [b]) t"
proof -
  define s where "s = s0\<lparr>in_count := in_count s0 + 1\<rparr>"
  have ws: "writes mb cs D w s" using w by (simp add: s_def writes_def)
  have e: "enc_ok mb cs D (ent s) w" and f: "free_ent s = FIRST + int (length D)" and m: "maxbits s = mb" "maxmaxcode s = 2 ^ mb"
    and h: "holds mb D (htab s) (codetab s)" "hshift s = 8" "hsize_reg s = HSIZE" using ws by (simp_all add: writes_def)
  have D: "dict_ok mb D" "0 \<le> ent s" "ent s < 2 ^ mb" using e by (auto simp: enc_ok_def dict_ok_def)
  have k: "push_bit (maxbits s) (uint b) + ent s = zkey mb (ent s, b)" by (simp add: zkey_def m)
  note byte = zwrite_byte_def [of b s0, folded s_def, unfolded Let_def, folded s_def, unfolded k h(2,3)]
  show ?thesis
  proof (cases rule: search_dict [OF D(1) h(1) D(2,3), of b])
    case (1 n i)
    then have "zwrite_byte b s0 = Some (s\<lparr>ent := codetab s i\<rparr>)" by (simp add: byte)
    moreover have "writes mb cs D (w @ [b]) (s\<lparr>ent := codetab s i\<rparr>)"
      using ws 1 enc_hit [OF e 1(1,2)] by (simp add: writes_def)
    ultimately show ?thesis by blast
  next
    case (2 i)
    define s2 where "s2 = (zoutput (ent s) s)\<lparr>out_count := out_count (zoutput (ent s) s) + 1, ent := uint b\<rparr>"
    note send = writes_send [OF mb ws s2_def]
    have z: "zwrite_byte b s0 = Some (if free_ent s2 < maxmaxcode s2
        then s2\<lparr>codetab := (codetab s2)(i := free_ent s2 mod 65536), free_ent := free_ent s2 + 1, htab := (htab s2)(i := zkey mb (ent s, b))\<rparr>
        else if in_count s2 \<ge> checkpoint s2 \<and> block_compress s2 \<noteq> 0 then cl_block s2 else s2)"
      using 2(4) by (simp add: byte s2_def Let_def)
    show ?thesis
    proof (cases "free_ent s2 < maxmaxcode s2")
      case True
      then have r: "FIRST + int (length D) < 2 ^ mb" by (simp add: s2_def f m)
      moreover have "(2::int) ^ mb \<le> 2 ^ 16" using mb by (intro power_increasing) (auto simp: bits_ok_def BITS_def)
      ultimately have "free_ent s2 mod 65536 = FIRST + int (length D)"
        using f by (simp add: s2_def FIRST_def)
      then have "writes mb (cs @ [ent s]) (D @ [(ent s, b)]) (w @ [b])
          (s2\<lparr>codetab := (codetab s2)(i := free_ent s2 mod 65536), free_ent := free_ent s2 + 1, htab := (htab s2)(i := zkey mb (ent s, b))\<rparr>)"
        using send r ws 2(5) enc_miss [OF e, of "D @ [(ent s, b)]" b] by (simp add: writes_def s2_def f)
      then show ?thesis using z True by auto
    next
      case False
      then have r: "\<not> FIRST + int (length D) < 2 ^ mb" by (simp add: s2_def f m)
      then have w2: "writes mb (cs @ [ent s]) D (w @ [b]) s2"
        using send ws h(1) enc_miss [OF e, of D b] by (simp add: writes_def s2_def f)
      have "ent s2 = uint b" by (simp add: s2_def)
      then show ?thesis using z False w2 cl_block_writes [OF mb w2] by auto
    qed
  qed
qed

lemma zwrite_loop_writes:
  "bits_ok mb \<Longrightarrow> writes mb cs D w s \<Longrightarrow> \<exists>t cs' D'. zwrite_loop bs s = Some t \<and> writes mb cs' D' (w @ bs) t"
proof (induction bs arbitrary: s cs D w)
  case (Cons b bs)
  obtain t cs' D' where "zwrite_byte b s = Some t" "writes mb cs' D' (w @ [b]) t"
    using zwrite_byte_writes [OF Cons.prems] by blast
  then show ?case using Cons.IH [of cs' D' "w @ [b]" t] Cons.prems(1) by auto
qed auto

subsection \<open>A whole stream\<close>

text \<open>The calls of zwrite that stdio makes for the loop of compress(), and the close of the stream.\<close>

fun zwrites :: "octet list list \<Rightarrow> zstate \<Rightarrow> zstate option" where
  "zwrites [] s = Some s"
| "zwrites (bs # bss) s = (case zwrite bs s of None \<Rightarrow> None | Some t \<Rightarrow> zwrites bss t)"

definition compress_stream :: "int \<Rightarrow> octet list list \<Rightarrow> octet list option" where
  "compress_stream bits bss =
     (case zopen [] CHR ''w'' bits of None \<Rightarrow> None
      | Some s \<Rightarrow> (case zwrites bss s of None \<Rightarrow> None | Some t \<Rightarrow> Some (zclose t)))"

definition code_bits :: "int \<Rightarrow> nat" where "code_bits bits = (if bits = 0 then BITS else nat bits)"

lemma zwrite_start_writes:
  assumes "zopen f CHR ''w'' bits = Some s" "bits_ok (code_bits bits)"
  shows "writes (code_bits bits) [] [] [b] (zwrite_start b s)"
proof -
  let ?mb = "code_bits bits"
  have s: "maxbits s = ?mb" "block_compress s = BLOCK_MASK" "zfile s = []" "zmode s = CHR ''w''" "hsize s = HSIZE"
    "zbuf s = replicate BITS 0"
    using assms(1) by (auto simp: zopen_def Let_def code_bits_def split: if_splits)
  have mb: "?mb \<le> BITS" "(FIRST::int) \<le> 2 ^ ?mb"
    using assms(2) power_increasing [of 12 ?mb "2::int"] by (auto simp: bits_ok_def FIRST_def)
  have sh: "hshift_loop 69001 0 = 0" by (simp add: hshift_loop.simps)
  have "holds ?mb [] (htab (zwrite_start b s)) (codetab (zwrite_start b s))"
    unfolding zwrite_start_def Let_def s(5) by (rule cl_hash_holds)
  moreover have "?mb \<noteq> INIT_BITS" using assms(2) by (simp add: bits_ok_def INIT_BITS_def)
  then have "sending ?mb (header ?mb) [] (zwrite_start b s)"
    unfolding sending_def open_group_def
    by (intro exI [of _ "[]"])
      (simp add: zwrite_start_def Let_def fwrite_def cl_hash_def s header_def packed_def mcode_def INIT_BITS_def BITS_def push_bit_eq_mult)
  ultimately show ?thesis
    using enc_start [OF mb, of b] s sh
    by (simp add: writes_def zwrite_start_def Let_def fwrite_def cl_hash_def BLOCK_MASK_def push_bit_eq_mult HSIZE_def)
qed

lemma zwrites_writes:
  assumes "bits_ok mb"
  shows "writes mb cs D w s \<Longrightarrow> \<exists>t cs' D'. zwrites bss s = Some t \<and> writes mb cs' D' (w @ concat bss) t"
proof (induction bss arbitrary: s cs D w)
  case (Cons bs bss)
  have "zphase s = S_MIDDLE" using Cons.prems by (simp add: writes_def)
  then have "zwrite bs s = zwrite_loop bs s" by (simp add: zwrite_def split: list.split)
  then obtain t cs' D' where "zwrite bs s = Some t" "writes mb cs' D' (w @ bs) t"
    using zwrite_loop_writes [OF assms Cons.prems, of bs] by auto
  then show ?case using Cons.IH [of cs' D' "w @ bs" t] by auto
qed auto

lemma zwrites_start_writes:
  assumes o: "zopen f CHR ''w'' bits = Some s" and mb: "bits_ok (code_bits bits)"
  shows "concat bss \<noteq> [] \<Longrightarrow> \<exists>t cs D. zwrites bss s = Some t \<and> writes (code_bits bits) cs D (concat bss) t"
proof (induction bss)
  case (Cons bs bss)
  show ?case
  proof (cases bs)
    case Nil
    then show ?thesis using Cons by (simp add: zwrite_def)
  next
    case (Cons b rest)
    have "zphase s = S_START" using o by (auto simp: zopen_def Let_def split: if_splits)
    then have "zwrite bs s = zwrite_loop rest (zwrite_start b s)" by (simp add: zwrite_def Cons)
    moreover obtain t cs D where t: "zwrite_loop rest (zwrite_start b s) = Some t" "writes (code_bits bits) cs D ([b] @ rest) t"
      using zwrite_loop_writes [OF mb zwrite_start_writes [OF o mb]] by blast
    ultimately show ?thesis using zwrites_writes [OF mb t(2), of bss] by (auto simp: Cons)
  qed
qed simp

text \<open>The end of the stream: the rest of the buffer is cut to whole bytes.\<close>

lemma zclose_stream:
  assumes mb: "bits_ok mb" and w: "writes mb cs D w s"
  shows "\<exists>bs. zclose s = header mb @ bs \<and> stream mb (INIT_BITS, FIRST) (cs @ [ent s]) bs"
proof -
  define s1 where "s1 = (zoutput (ent s) s)\<lparr>out_count := out_count (zoutput (ent s) s) + 1\<rparr>"
  have c: "zclose s = zfile (zoutput (-1) s1)" using w by (simp add: zclose_def writes_def Let_def s1_def)
  have "sending mb (header mb) (cs @ [ent s]) s1"
    using writes_send(1) [OF mb w refl] by (simp add: s1_def)
  then obtain gs g where cs: "cs @ [ent s] = concat (map fst gs) @ g" and f: "zfile s1 = header mb @ concat (map snd gs)"
    and gs: "full_groups mb (INIT_BITS, FIRST) gs" and og: "open_group mb (wafter mb (concat (map fst gs))) g s1"
    by (auto simp: sending_def)
  define st where "st = wafter mb (concat (map fst gs))"
  note og = og [folded st_def, unfolded open_group_def]
  define k where "k = (offset s1 + 7) div 8"
  define tl where "tl = (if g = [] then [] else take k (zbuf s1))"
  have n: "9 \<le> fst st" "fst st \<le> 16" using wafter_bounds(2,3) [OF mb, of "concat (map fst gs)"] mb
    by (auto simp: st_def bits_ok_def BITS_def)
  have "zclose s = header mb @ concat (map snd gs) @ tl"
    using og n f by (auto simp: c zoutput_def fwrite_def Let_def tl_def k_def)
  moreover have "last_group mb st (g, tl)"
  proof (cases "g = []")
    case False
    have "length g * fst st \<le> 7 * 16" using og n by (intro mult_le_mono) auto
    then have k: "length g * fst st \<le> 8 * k" "k \<le> length (zbuf s1)" using og by (auto simp: k_def)
    have "quiet mb st (butlast g)" using og quiet_take [of mb st g] by (simp add: butlast_conv_take)
    then have "group_ok mb st (g, tl)"
      using og False packed_take [where r = "[]", OF _ k] by (simp add: group_ok_def tl_def)
    then show ?thesis using og False k by (simp add: last_group_def tl_def k_def)
  qed (simp add: last_group_def tl_def)
  ultimately show ?thesis
    using cs gs by (intro exI [of _ "concat (map snd gs) @ tl"])
      (auto simp: stream_def st_def intro!: exI [of _ gs] exI [of _ g] exI [of _ tl])
qed

lemma compress_stream_codes:
  assumes "bits = 0 \<or> 12 \<le> bits \<and> bits \<le> 16" "concat bss \<noteq> []"
  shows "\<exists>bs cs. compress_stream bits bss = Some (header (code_bits bits) @ bs) \<and> stream (code_bits bits) (INIT_BITS, FIRST) cs bs
    \<and> cs \<noteq> [] \<and> hd cs \<noteq> CLEAR
    \<and> dvalids (code_bits bits) ([], -1) cs \<and> drun (code_bits bits) ([], -1) cs = concat bss"
proof -
  have mb: "bits_ok (code_bits bits)" using assms(1) by (auto simp: bits_ok_def code_bits_def BITS_def)
  obtain s where s: "zopen [] CHR ''w'' bits = Some s" using assms(1) by (auto simp: zopen_def Let_def BITS_def)
  obtain t cs D where t: "zwrites bss s = Some t" "writes (code_bits bits) cs D (concat bss) t"
    using zwrites_start_writes [OF s mb assms(2)] by blast
  obtain bs where bs: "zclose t = header (code_bits bits) @ bs" "stream (code_bits bits) (INIT_BITS, FIRST) (cs @ [ent t]) bs"
    using zclose_stream [OF mb t(2)] by blast
  have e: "enc_ok (code_bits bits) cs D (ent t) (concat bss)" using t(2) by (simp add: writes_def)
  then have "hd (cs @ [ent t]) \<noteq> CLEAR" by (simp add: enc_ok_def hd_append)
  then show ?thesis
    using s t(1) bs enc_send [OF e] by (auto simp: compress_stream_def intro!: exI [of _ bs] exI [of _ "cs @ [ent t]"])
qed

end
