(* ===== verification/Zopen_Read.thy ===== *)
theory Zopen_Read
  imports Zopen_Groups Lzw
begin

unbundle bit_operations_syntax

text \<open>
  The reader of zopen.c. getcode delivers the codes a stream carries, in step with their widths
  (\<open>reading\<close>); the tables of zread hold the dictionary of the codes read (\<open>dec_ok\<close>), so that a
  sequence of reads delivers what the codes stand for, whatever the sizes of the reads. And on any
  file whose first code is a character, no read leaves the tables.
\<close>

subsection \<open>Getting the codes\<close>

lemma getcode_frame:
  assumes "getcode s = Some (c, t)"
  shows "codetab t = codetab s" "tab_suffix t = tab_suffix s" "free_ent t = free_ent s" "oldcode t = oldcode s"
    "incode t = incode s" "finchar t = finchar s" "stack t = stack s" "block_compress t = block_compress s"
    "zphase t = zphase s" "maxbits t = maxbits s" "maxmaxcode t = maxmaxcode s"
  using assms by (auto simp: getcode_def Let_def split: if_splits)

text \<open>getcode has just returned the code \<open>c\<close>, sent in state \<open>st\<close>, and \<open>cs\<close> are the codes still to
  come: those of the group in the buffer and those of the file.\<close>

definition in_group :: "nat \<Rightarrow> width \<Rightarrow> group \<Rightarrow> nat \<Rightarrow> int list \<Rightarrow> zstate \<Rightarrow> bool" where
  "in_group mb st0 g i rest s \<longleftrightarrow> i < length (fst g) \<and> roffset s = Suc i * fst st0
     \<and> zsize s = 8 * int (length (snd g)) - (int (fst st0) - 1) \<and> take (length (snd g)) (gbuf s) = snd g
     \<and> (full_group mb st0 g \<and> stream mb (width_after mb st0 (fst g)) rest (zfile s)
        \<or> last_group mb st0 g \<and> rest = [] \<and> zfile s = [])"

definition reading :: "nat \<Rightarrow> width \<Rightarrow> int \<Rightarrow> int list \<Rightarrow> zstate \<Rightarrow> bool" where
  "reading mb st c cs s \<longleftrightarrow> n_bits s = fst st \<and> maxcode s = mcode mb (fst st) \<and> maxbits s = mb \<and> maxmaxcode s = 2 ^ mb
     \<and> length (gbuf s) = 16
     \<and> (\<exists>st0 g i rest. in_group mb st0 g i rest s \<and> width_ok mb st0 \<and> fst g ! i = c \<and> st = width_after mb st0 (take i (fst g))
          \<and> cs = drop (Suc i) (fst g) @ rest)"

lemma readingI:
  assumes "in_group mb st0 g i rest s" "width_ok mb st0" "fst g ! i = c" "st = width_after mb st0 (take i (fst g))"
    "cs = drop (Suc i) (fst g) @ rest"
    and "n_bits s = fst st" "maxcode s = mcode mb (fst st)" "maxbits s = mb" "maxmaxcode s = 2 ^ mb" "length (gbuf s) = 16"
  shows "reading mb st c cs s"
  using assms unfolding reading_def by blast

lemma group_width:
  assumes "group_ok mb st0 g" "i < length (fst g)"
  shows "fst (width_after mb st0 (take i (fst g))) = fst st0"
proof -
  have "take i (fst g) = take i (butlast (fst g))" using assms(2) by (simp add: butlast_conv_take)
  then show ?thesis using assms(1) quiet_take quiet_width by (metis group_ok_def)
qed

lemma stream_Nil: "stream mb st [] bs \<Longrightarrow> bs = []"
proof -
  assume "stream mb st [] bs"
  then obtain gs g where g: "concat (map fst gs) = []" "fst g = []" "bs = concat (map snd gs) @ snd g"
    and f: "full_groups mb st gs" "last_group mb (width_after mb st (concat (map fst gs))) g"
    unfolding stream_def by auto
  have "gs = []" using g(1) f(1) by (cases gs) (auto simp: full_group_def group_ok_def)
  then show ?thesis using g f(2) by (auto simp: last_group_def group_ok_def)
qed

text \<open>The first group of a stream.\<close>

lemma stream_first:
  assumes "stream mb st (c # cs) bs"
  obtains g rest where "fst g \<noteq> []" "c # cs = fst g @ rest" "group_ok mb st g"
    "full_group mb st g \<and> bs = snd g @ drop (fst st) bs \<and> length (snd g) = fst st \<and> stream mb (width_after mb st (fst g)) rest (drop (fst st) bs)
     \<or> last_group mb st g \<and> bs = snd g \<and> rest = []"
proof -
  obtain gs l where g: "c # cs = concat (map fst gs) @ fst l" "bs = concat (map snd gs) @ snd l"
    and f: "full_groups mb st gs" "last_group mb (width_after mb st (concat (map fst gs))) l"
    using assms unfolding stream_def by auto
  show thesis
  proof (cases gs)
    case Nil
    then show thesis using that [of l "[]"] g f by (auto simp: last_group_def group_ok_def)
  next
    case (Cons g' gs')
    let ?rest = "concat (map fst gs') @ fst l" and ?bs = "concat (map snd gs') @ snd l"
    have "stream mb (width_after mb st (fst g')) ?rest ?bs"
      using f Cons unfolding stream_def by (intro exI [of _ gs'] exI [of _ l]) simp
    moreover have "length (snd g') = fst st" "full_group mb st g'" using f Cons by (auto simp: full_group_def)
    ultimately show thesis using that [of g' ?rest] g f Cons by (auto simp: full_group_def group_ok_def)
  qed
qed

definition stored :: "nat \<Rightarrow> width \<Rightarrow> group \<Rightarrow> bool" where
  "stored mb st g \<longleftrightarrow> fst g \<noteq> [] \<and> (full_group mb st g \<or> last_group mb st g)"

lemma stored_fits:
  assumes "stored mb st g" "9 \<le> fst st"
  shows "group_ok mb st g" "length (fst g) * fst st \<le> 8 * length (snd g)" "length (snd g) \<le> fst st" "snd g \<noteq> []"
proof -
  show ok: "group_ok mb st g" using assms by (auto simp: stored_def full_group_def last_group_def)
  define m where "m = length (fst g) * fst st"
  have "m \<le> 8 * fst st" "1 * fst st \<le> m"
    using ok by (auto simp: m_def group_ok_def Suc_le_eq intro!: mult_le_mono1)
  moreover have "length (snd g) = fst st \<or> length (snd g) = (m + 7) div 8"
    using assms(1) by (auto simp: m_def stored_def full_group_def last_group_def)
  ultimately show "length (fst g) * fst st \<le> 8 * length (snd g)" "length (snd g) \<le> fst st" "snd g \<noteq> []"
    using assms(2) unfolding m_def [symmetric] by auto
qed

lemma get_stored:
  assumes "stored mb st g" "width_ok mb st" "bits_ok mb" "take (length (snd g)) b = snd g" "length b = 16" "j < length (fst g)"
  shows "get_code (fst st) (j * fst st) b = fst g ! j"
proof -
  have n: "9 \<le> fst st" "fst st \<le> 16" using assms(2,3) by (auto simp: width_ok_def bits_ok_def BITS_def)
  note f = stored_fits [OF assms(1) n(1)]
  have "b = snd g @ drop (length (snd g)) b" using assms(4) by (metis append_take_drop_id)
  moreover have "packed (fst st) (fst g) (take (length (snd g)) (snd g) @ drop (length (snd g)) b)"
    using f by (intro packed_take) (auto simp: group_ok_def)
  ultimately have "packed (fst st) (fst g) b" by simp
  then show ?thesis
    using n f assms(5,6) by (intro packed_get) (auto simp: group_ok_def)
qed

text \<open>Reading a new group: at the start, when the group is used up, and when the width changes.\<close>

definition refills :: "nat \<Rightarrow> width \<Rightarrow> zstate \<Rightarrow> bool" where
  "refills mb st s \<longleftrightarrow> maxbits s = mb \<and> maxmaxcode s = 2 ^ mb \<and> length (gbuf s) = 16
     \<and> (clear_flg s > 0 \<or> int (roffset s) \<ge> zsize s \<or> free_ent s > maxcode s)
     \<and> (if clear_flg s > 0 then fst st = INIT_BITS
        else clear_flg s = 0 \<and> (if free_ent s > maxcode s then fst st = n_bits s + 1 else fst st = n_bits s \<and> maxcode s = mcode mb (fst st)))"

definition refilled :: "width \<Rightarrow> nat \<Rightarrow> zstate \<Rightarrow> zstate" where
  "refilled st mb s = (let bs = take (fst st) (zfile s) in
     s\<lparr>n_bits := fst st, maxcode := mcode mb (fst st), clear_flg := 0, gbuf := bs @ drop (length bs) (gbuf s),
       zfile := drop (fst st) (zfile s), zsize := int (length bs)\<rparr>)"

lemma getcode_refill:
  assumes "refills mb st s" "bits_ok mb" "width_ok mb st"
  shows "getcode s = (let t = refilled st mb s in
    if take (fst st) (zfile s) = [] then Some (-1, t)
    else Some (get_code (fst st) 0 (gbuf t), t\<lparr>roffset := fst st, zsize := 8 * zsize t - (int (fst st) - 1)\<rparr>))"
proof -
  have i: "mb \<noteq> INIT_BITS" "\<not> fst st < 8" using assms(2,3) by (auto simp: bits_ok_def width_ok_def INIT_BITS_def)
  have c: "clear_flg s > 0 \<or> int (roffset s) \<ge> zsize s \<or> free_ent s > maxcode s" using assms(1) by (simp add: refills_def)
  define s1 where "s1 = (if free_ent s > maxcode s
     then s\<lparr>n_bits := n_bits s + 1, maxcode := (if n_bits s + 1 = maxbits s then maxmaxcode s else MAXCODE (n_bits s + 1))\<rparr> else s)"
  define s2 where "s2 = (if clear_flg s1 > 0 then s1\<lparr>n_bits := INIT_BITS, maxcode := MAXCODE INIT_BITS, clear_flg := 0\<rparr> else s1)"
  have s2: "s2 = s\<lparr>n_bits := fst st, maxcode := mcode mb (fst st), clear_flg := 0\<rparr>"
    using assms(1) i by (auto simp: s2_def s1_def refills_def mcode_def split: if_splits)
  show ?thesis
    using c i unfolding getcode_def s1_def [symmetric] s2_def [symmetric] Let_def
    by (simp add: s2_def [symmetric] s2 refilled_def Let_def push_bit_eq_mult)
qed

lemma refill_reading:
  assumes "refills mb st s" "bits_ok mb" "width_ok mb st" "stream mb st (c # cs) (zfile s)"
  shows "\<exists>t. getcode s = Some (c, t) \<and> reading mb st c cs t \<and> clear_flg t = 0"
proof -
  obtain g rest where g: "fst g \<noteq> []" "c # cs = fst g @ rest" "group_ok mb st g" and
    alt: "full_group mb st g \<and> zfile s = snd g @ drop (fst st) (zfile s) \<and> length (snd g) = fst st \<and> stream mb (width_after mb st (fst g)) rest (drop (fst st) (zfile s))
     \<or> last_group mb st g \<and> zfile s = snd g \<and> rest = []"
    using stream_first [OF assms(4)] by blast
  have st: "stored mb st g" using g alt by (auto simp: stored_def)
  have n: "9 \<le> fst st" "fst st \<le> 16" using assms(2,3) by (auto simp: width_ok_def bits_ok_def BITS_def)
  note f = stored_fits [OF st n(1)]
  have bs: "take (fst st) (zfile s) = snd g" using alt f(3) by (metis append_eq_conv_conj take_all)
  let ?t = "refilled st mb s"
  let ?u = "?t\<lparr>roffset := fst st, zsize := 8 * zsize ?t - (int (fst st) - 1)\<rparr>"
  have gb: "gbuf ?t = snd g @ drop (length (snd g)) (gbuf s)" by (simp add: refilled_def bs Let_def)
  have len: "length (gbuf s) = 16" using assms(1) by (simp add: refills_def)
  have "get_code (fst st) (0 * fst st) (gbuf ?t) = fst g ! 0"
    using g f(3) n len by (intro get_stored [OF st assms(3,2)]) (simp_all add: gb)
  moreover have "fst g ! 0 = c" using g(1,2) by (cases "fst g") auto
  ultimately have "getcode s = Some (c, ?u)" using getcode_refill [OF assms(1-3)] bs f(4) by (simp add: Let_def)
  moreover have "in_group mb st g 0 rest ?u"
    using alt g(1) f(3) by (auto simp: in_group_def gb refilled_def bs Let_def)
  moreover have "cs = drop (Suc 0) (fst g) @ rest" using g(1,2) by (cases "fst g") auto
  ultimately have "reading mb st c cs ?u"
    using assms(1,3) \<open>fst g ! 0 = c\<close> f(3) n len
    by (intro readingI [of mb st g 0 rest]) (simp_all add: gb refills_def refilled_def Let_def bs)
  then show ?thesis using \<open>getcode s = Some (c, ?u)\<close> by (simp add: refilled_def Let_def)
qed

lemma quiet_nth: "quiet mb st cs \<Longrightarrow> i < length cs \<Longrightarrow> \<not> ends_group mb (width_after mb st (take i cs)) (cs ! i)"
proof (induction cs arbitrary: st i)
  case (Cons c cs)
  then show ?case by (cases i) auto
qed simp

text \<open>What the reader has set when it asks for the code after \<open>c\<close>.\<close>

definition noted :: "width \<Rightarrow> int \<Rightarrow> zstate \<Rightarrow> bool" where
  "noted st c s \<longleftrightarrow> (if c = CLEAR then clear_flg s = 1 \<and> free_ent s = FIRST else clear_flg s = 0 \<and> free_ent s = snd st)"

lemma noted_refills:
  assumes "reading mb st c cs s" "noted st c s" "bits_ok mb" and "zsize s \<le> int (roffset s) \<or> ends_group mb st c"
  shows "refills mb (nxt mb st c) s"
  using assms by (auto simp: refills_def reading_def noted_def nxt_def ends_group_def grows_def split: if_splits)

lemma getcode_step:
  assumes "in_group mb st0 g i rest s" "stored mb st0 g" "width_ok mb st0" "bits_ok mb" "Suc i < length (fst g)"
    and "n_bits s = fst st0" "length (gbuf s) = 16" "clear_flg s = 0" "free_ent s \<le> maxcode s"
  shows "getcode s = Some (fst g ! Suc i, s\<lparr>roffset := Suc (Suc i) * fst st0\<rparr>)"
proof -
  have n: "9 \<le> fst st0" using assms(3) by (simp add: width_ok_def)
  have "Suc (Suc i) * fst st0 \<le> length (fst g) * fst st0" using assms(5) by (intro mult_le_mono1) simp
  then have "Suc i * fst st0 + fst st0 \<le> 8 * length (snd g)" using stored_fits(2) [OF assms(2) n] by simp
  then have "roffset s + fst st0 \<le> 8 * length (snd g)" using assms(1) by (simp add: in_group_def)
  then have "int (roffset s) < zsize s" using assms(1) unfolding in_group_def by linarith
  moreover have "get_code (fst st0) (Suc i * fst st0) (gbuf s) = fst g ! Suc i"
    using assms(1,7) by (intro get_stored [OF assms(2-4)] assms(5)) (simp_all add: in_group_def)
  ultimately show ?thesis
    using assms(1,6,8,9) n by (simp add: getcode_def in_group_def)
qed

lemma getcode_next:
  assumes mb: "bits_ok mb" and r: "reading mb st c cs s" and f: "noted st c s"
  shows "case cs of [] \<Rightarrow> \<exists>t. getcode s = Some (-1, t)
    | c' # cs' \<Rightarrow> \<exists>t. getcode s = Some (c', t) \<and> reading mb (nxt mb st c) c' cs' t \<and> clear_flg t = 0"
proof -
  obtain st0 g i rest where ig: "in_group mb st0 g i rest s" and w0: "width_ok mb st0" and c: "fst g ! i = c"
    and st: "st = width_after mb st0 (take i (fst g))" and cs: "cs = drop (Suc i) (fst g) @ rest"
    using r unfolding reading_def by blast
  have len: "i < length (fst g)" using ig by (simp add: in_group_def)
  have sg: "stored mb st0 g" using ig len by (auto simp: in_group_def stored_def)
  have n: "9 \<le> fst st0" using w0 by (simp add: width_ok_def)
  note fits = stored_fits [OF sg n]
  have nst: "fst st = fst st0" using group_width [OF fits(1) len] by (simp add: st)
  have fields: "n_bits s = fst st0" "maxcode s = mcode mb (fst st0)" "maxbits s = mb" "maxmaxcode s = 2 ^ mb" "length (gbuf s) = 16"
    using r nst by (simp_all add: reading_def)
  have st': "nxt mb st c = width_after mb st0 (take (Suc i) (fst g))" using len c by (simp add: st take_Suc_conv_app_nth)
  show ?thesis
  proof (cases "Suc i < length (fst g)")
    case True
    then have q: "\<not> ends_group mb st c"
      using quiet_nth [of mb st0 "butlast (fst g)" i] fits(1) c by (simp add: group_ok_def st nth_butlast take_butlast)
    then have fl: "clear_flg s = 0" "free_ent s \<le> maxcode s"
      using f fields(2) nst by (auto simp: noted_def ends_group_def grows_def split: if_splits)
    let ?t = "s\<lparr>roffset := Suc (Suc i) * fst st0\<rparr>"
    have "getcode s = Some (fst g ! Suc i, ?t)" by (rule getcode_step [OF ig sg w0 mb True fields(1,5) fl])
    moreover have "reading mb (nxt mb st c) (fst g ! Suc i) (drop (Suc (Suc i)) (fst g) @ rest) ?t"
      using ig True fields w0 group_width [OF fits(1) True] by (intro readingI [of mb st0 g "Suc i" rest]) (simp_all add: in_group_def st')
    moreover have "cs = fst g ! Suc i # drop (Suc (Suc i)) (fst g) @ rest" using cs True by (simp add: Cons_nth_drop_Suc)
    ultimately show ?thesis using fl(1) by simp
  next
    case False
    then have i: "length (fst g) = Suc i" using len by simp
    then have st'': "nxt mb st c = width_after mb st0 (fst g)" and rest: "cs = rest" using st' cs by simp_all
    have "fst g \<noteq> []" using i by auto
    then have bl: "butlast (fst g) = take i (fst g)" "last (fst g) = c"
      using last_conv_nth [of "fst g"] i c by (simp_all add: butlast_conv_take)
    have w: "width_ok mb (nxt mb st c)" using width_ok_after [OF mb w0] by (simp add: st'')
    have "zsize s \<le> int (roffset s) \<or> ends_group mb st c"
    proof (cases "full_group mb st0 g")
      case True
      then show ?thesis using ig i bl n by (auto simp: full_group_def in_group_def st)
    next
      case False
      then have "length (snd g) = (roffset s + 7) div 8" using ig i by (auto simp: in_group_def last_group_def)
      then have "8 * length (snd g) \<le> roffset s + 7" by simp
      then show ?thesis using ig n unfolding in_group_def by linarith
    qed
    then have rf: "refills mb (nxt mb st c) s" by (rule noted_refills [OF r f mb])
    have "stream mb (nxt mb st c) rest (zfile s) \<or> rest = [] \<and> zfile s = []" using ig by (auto simp: in_group_def st'')
    then show ?thesis
    proof (cases rest)
      case Nil
      then have "zfile s = []" using \<open>stream mb (nxt mb st c) rest (zfile s) \<or> _\<close> stream_Nil [of mb "nxt mb st c"] by auto
      then show ?thesis using getcode_refill [OF rf mb w] Nil by (simp add: rest Let_def)
    qed (use refill_reading [OF rf mb w] in \<open>auto simp: rest\<close>)
  qed
qed

subsection \<open>Decoding a code\<close>

definition tables :: "dict \<Rightarrow> zstate \<Rightarrow> bool" where
  "tables D s \<longleftrightarrow> (\<forall>n<length D. codetab s (FIRST + int n) = fst (D ! n) \<and> tab_suffix s (FIRST + int n) = snd (D ! n))
     \<and> (\<forall>k. 0 \<le> k \<and> k < 256 \<longrightarrow> tab_suffix s k = word_of_int k)"

definition dec_base :: "nat \<Rightarrow> dict \<Rightarrow> int \<Rightarrow> zstate \<Rightarrow> bool" where
  "dec_base mb D old s \<longleftrightarrow> dict_ok mb D \<and> tables D s \<and> free_ent s = FIRST + int (length D) \<and> oldcode s = old
     \<and> (if old = -1 then D = [] else 0 \<le> old \<and> old \<noteq> CLEAR \<and> old < FIRST + int (length D))
     \<and> maxmaxcode s = 2 ^ mb \<and> block_compress s \<noteq> 0 \<and> zphase s = S_MIDDLE"

definition dec_ok :: "nat \<Rightarrow> dict \<Rightarrow> int \<Rightarrow> zstate \<Rightarrow> bool" where
  "dec_ok mb D old s \<longleftrightarrow> dec_base mb D old s \<and> (old \<noteq> -1 \<longrightarrow> word_of_int (finchar s) = hd (str D old))"

lemma dec_base_upd [simp]:
  "dec_base mb D old (s\<lparr>incode := i\<rparr>) = dec_base mb D old s" "dec_base mb D old (s\<lparr>finchar := i\<rparr>) = dec_base mb D old s"
  "dec_base mb D old (s\<lparr>stack := bs\<rparr>) = dec_base mb D old s"
  by (simp_all add: dec_base_def tables_def)

lemma str_length: "dict_ok mb D \<Longrightarrow> 0 \<le> p \<Longrightarrow> p < FIRST + int (length D) \<Longrightarrow> int (length (str D p)) \<le> p + 1"
proof (induction D p rule: str.induct)
  case (1 D p)
  show ?case
  proof (rule code_cases [OF 1(4)])
    fix n assume n: "n < length D" "p = FIRST + int n"
    have f: "0 \<le> fst (D ! n)" "fst (D ! n) < p" using 1(2) n by (auto simp: dict_ok_def)
    then have "int (length (str D (fst (D ! n)))) \<le> fst (D ! n) + 1" using 1 n by (auto simp: FIRST_def)
    then show ?thesis using n f str_entry [OF 1(2) n(1)] by simp
  qed (use 1 in \<open>simp add: str_char\<close>)
qed

lemma str_fits: "dict_ok mb D \<Longrightarrow> 0 \<le> p \<Longrightarrow> p < FIRST + int (length D) \<Longrightarrow> length (str D p) \<le> 65536"
proof -
  assume a: "dict_ok mb D" "0 \<le> p" "p < FIRST + int (length D)"
  have "(2::int) ^ mb \<le> 2 ^ 16" using a(1) by (intro power_increasing) (auto simp: dict_ok_def BITS_def)
  then show ?thesis using str_length [OF a] a by (simp add: dict_ok_def)
qed

lemma chase_str:
  "dict_ok mb D \<Longrightarrow> tables D s \<Longrightarrow> 0 \<le> p \<Longrightarrow> p \<noteq> CLEAR \<Longrightarrow> p < FIRST + int (length D)
    \<Longrightarrow> length st + length (str D p) \<le> DE_STACK_SIZE
    \<Longrightarrow> \<exists>q. 0 \<le> q \<and> q < 256 \<and> chase (codetab s) (tab_suffix s) p st = Some (q, tl (str D p) @ st) \<and> hd (str D p) = word_of_int q"
proof (induction D p arbitrary: st rule: str.induct)
  case (1 D p)
  show ?case
  proof (rule code_cases [OF 1(6)])
    assume "p < FIRST"
    then show ?thesis using 1(4,5) by (simp add: chase.simps str_char FIRST_def CLEAR_def)
  next
    fix n assume n: "n < length D" "p = FIRST + int n"
    let ?f = "fst (D ! n)" and ?c = "snd (D ! n)"
    have nn: "D ! nat (p - FIRST) = D ! n" using n by simp
    have f: "0 \<le> ?f" "?f \<noteq> CLEAR" "?f < p" using 1(2) n by (auto simp: dict_ok_def)
    have w: "str D p = str D ?f @ [?c]" using str_entry [OF 1(2) n(1)] n(2) by simp
    have ne: "str D ?f \<noteq> []" using str_nonempty [OF 1(2)] f(3) n by simp
    have t: "codetab s p = ?f" "tab_suffix s p = ?c" using 1(3) n by (simp_all add: tables_def)
    have "\<exists>q. 0 \<le> q \<and> q < 256 \<and> chase (codetab s) (tab_suffix s) ?f (?c # st) = Some (q, tl (str D ?f) @ ?c # st) \<and> hd (str D ?f) = word_of_int q"
      by (rule 1(1) [OF _ refl, unfolded nn]) (use 1(2,3,7) n f w in \<open>auto simp: FIRST_def\<close>)
    moreover have "chase (codetab s) (tab_suffix s) p st = chase (codetab s) (tab_suffix s) ?f (?c # st)"
      using n(2) t 1(7) w by (subst chase.simps) (simp add: push_def FIRST_def)
    ultimately show ?thesis using w ne by auto
  qed
qed

lemma expand_code_word:
  assumes d: "dec_ok mb D old s" and st: "stack s = []" and v: "dvalid (D, old) c" "c \<noteq> CLEAR"
  shows "expand_code c s = Inr (Some (s\<lparr>incode := c, finchar := uint (hd (dword (D, old) c)), stack := dword (D, old) c\<rparr>))"
proof -
  have D: "dict_ok mb D" "tables D s" "free_ent s = FIRST + int (length D)" "oldcode s = old" using d by (simp_all add: dec_ok_def dec_base_def)
  have suf: "tab_suffix s q = word_of_int q" if "0 \<le> q" "q < 256" for q using D(2) that by (simp add: tables_def)
  have sz: "65537 < DE_STACK_SIZE" by (simp add: DE_STACK_SIZE_def BITS_def)
  show ?thesis
  proof (cases "c < FIRST + int (length D)")
    case True
    have c: "0 \<le> c" using v by (simp add: dvalid_def)
    obtain q where q: "0 \<le> q" "q < 256" "chase (codetab s) (tab_suffix s) c [] = Some (q, tl (str D c))" "hd (str D c) = word_of_int q"
      using chase_str [OF D(1,2) c v(2) True, of "[]"] str_fits [OF D(1) c True] sz by auto
    have "str D c = word_of_int q # tl (str D c)" using q(4) str_nonempty [OF D(1) True] by (metis list.collapse)
    then have "push (word_of_int q) (tl (str D c)) = Some (str D c)"
      using str_fits [OF D(1) c True] sz by (simp add: push_def)
    then show ?thesis using True D st q suf by (simp add: expand_code_def dword_def)
  next
    case False
    then have c: "c = free_ent s" "old \<noteq> -1" using v D(3) by (auto simp: dvalid_def)
    have o: "0 \<le> old" "old \<noteq> CLEAR" "old < FIRST + int (length D)" and h: "word_of_int (finchar s) = hd (str D old)"
      using d c(2) by (simp_all add: dec_ok_def dec_base_def)
    let ?h = "hd (str D old)"
    obtain q where q: "0 \<le> q" "q < 256" "chase (codetab s) (tab_suffix s) old [?h] = Some (q, tl (str D old) @ [?h])" "?h = word_of_int q"
      using chase_str [OF D(1,2) o, of "[?h]"] str_fits [OF D(1) o(1,3)] sz by auto
    have s: "str D old = word_of_int q # tl (str D old)" using q(4) str_nonempty [OF D(1) o(3)] by (metis list.collapse)
    then have "push (word_of_int q) (tl (str D old) @ [?h]) = Some (str D old @ [?h])"
      using str_fits [OF D(1) o(1,3)] sz by (simp add: push_def)
    moreover have "push ?h [] = Some [?h]" using sz by (simp add: push_def)
    moreover have "hd (str D old @ [?h]) = ?h" using str_nonempty [OF D(1) o(3)] by simp
    ultimately show ?thesis using c D st q suf h by (simp add: expand_code_def dword_def)
  qed
qed

lemma new_entry_dec:
  assumes d: "dec_base mb D old s" and v: "dvalid (D, old) c" "c \<noteq> CLEAR" "c < 2 ^ mb"
    and i: "incode s = c" "finchar s = uint (hd (dword (D, old) c))"
  shows "dec_ok mb (fst (dstep mb (D, old) c)) c (new_entry s)"
proof -
  have D: "dict_ok mb D" "tables D s" "free_ent s = FIRST + int (length D)" "oldcode s = old" "maxmaxcode s = 2 ^ mb"
    using d by (simp_all add: dec_ok_def dec_base_def)
  let ?h = "hd (dword (D, old) c)"
  show ?thesis
  proof (cases "old \<noteq> -1 \<and> FIRST + int (length D) < 2 ^ mb")
    case True
    have o: "0 \<le> old" "old \<noteq> CLEAR" "old < FIRST + int (length D)" using d True by (simp_all add: dec_ok_def dec_base_def)
    have "(2::int) ^ mb \<le> 2 ^ 16" using D(1) by (intro power_increasing) (auto simp: dict_ok_def BITS_def)
    then have m: "old mod 65536 = old" using True o by simp
    let ?D = "D @ [(old, ?h)]"
    have ok: "dict_ok mb ?D" using D(1) True o by (intro dict_ok_snoc) auto
    have t: "tables ?D (new_entry s)"
      using D True m i by (auto simp: tables_def new_entry_def nth_append less_Suc_eq FIRST_def)
    have "hd (str ?D c) = ?h"
    proof (cases "c < FIRST + int (length D)")
      case True
      then show ?thesis using str_append [OF D(1) True] by (simp add: dword_def)
    next
      case False
      then have "c = FIRST + int (length D)" using v(1) by (simp add: dvalid_def)
      then have "str ?D c = str D old @ [?h]" using str_entry [OF ok, of "length D"] str_append [OF D(1) o(3)] by simp
      then show ?thesis using str_nonempty [OF D(1) o(3)] False by (simp add: dword_def)
    qed
    then show ?thesis
      using ok t True v D d i by (simp add: dec_ok_def dec_base_def dstep_def dvalid_def new_entry_def)
  next
    case False
    have c: "c < FIRST + int (length D)" "0 \<le> c"
      using False v d by (auto simp: dvalid_def dec_base_def split: if_splits)
    have "new_entry s = s\<lparr>oldcode := c\<rparr>" using False D i by (auto simp: new_entry_def)
    then show ?thesis
      using False c v D d i by (auto simp: dec_ok_def dec_base_def dstep_def dword_def tables_def)
  qed
qed

subsection \<open>Delivering data\<close>

lemma reading_upd [simp]:
  "reading mb st c cs (s\<lparr>codetab := x\<rparr>) = reading mb st c cs s" "reading mb st c cs (s\<lparr>tab_suffix := y\<rparr>) = reading mb st c cs s"
  "reading mb st c cs (s\<lparr>clear_flg := i\<rparr>) = reading mb st c cs s" "reading mb st c cs (s\<lparr>free_ent := i\<rparr>) = reading mb st c cs s"
  "reading mb st c cs (s\<lparr>oldcode := i\<rparr>) = reading mb st c cs s" "reading mb st c cs (s\<lparr>incode := i\<rparr>) = reading mb st c cs s"
  "reading mb st c cs (s\<lparr>finchar := i\<rparr>) = reading mb st c cs s" "reading mb st c cs (s\<lparr>stack := bs\<rparr>) = reading mb st c cs s"
  by (simp_all add: reading_def in_group_def)

lemma reading_new_entry [simp]: "reading mb st c cs (new_entry s) = reading mb st c cs s"
  by (simp add: new_entry_def)

lemma reading_code: "reading mb st c cs s \<Longrightarrow> bits_ok mb \<Longrightarrow> 0 \<le> c \<and> c < 2 ^ mb"
proof -
  assume "reading mb st c cs s" "bits_ok mb"
  then obtain st0 g i rest where ig: "in_group mb st0 g i rest s" and w: "width_ok mb st0" and c: "fst g ! i = c"
    unfolding reading_def by blast
  have "group_ok mb st0 g" "i < length (fst g)" using ig by (auto simp: in_group_def full_group_def last_group_def)
  then have "0 \<le> c \<and> c < 2 ^ fst st0" using c by (auto simp: group_ok_def)
  moreover have "(2::int) ^ fst st0 \<le> 2 ^ mb" using w by (intro power_increasing) (auto simp: width_ok_def)
  ultimately show ?thesis by linarith
qed

text \<open>The next request for a code gives the first of \<open>cs\<close>, sent in state \<open>st\<close>.\<close>

definition asks :: "nat \<Rightarrow> width \<Rightarrow> int list \<Rightarrow> zstate \<Rightarrow> bool" where
  "asks mb st cs s \<longleftrightarrow> (case cs of [] \<Rightarrow> \<exists>t. getcode s = Some (-1, t)
     | c # cs' \<Rightarrow> \<exists>t. getcode s = Some (c, t) \<and> reading mb st c cs' t \<and> clear_flg t = 0)"

definition sync :: "nat \<Rightarrow> width \<Rightarrow> dict \<Rightarrow> int \<Rightarrow> bool" where
  "sync mb st D old \<longleftrightarrow> snd st = (if old \<noteq> -1 \<and> FIRST + int (length D) < 2 ^ mb then FIRST + int (length D) + 1 else FIRST + int (length D))"

lemma dec_ok_getcode: "getcode s = Some (c, t) \<Longrightarrow> dec_ok mb D old t = dec_ok mb D old s"
  using getcode_frame [of s c t] by (simp add: dec_ok_def dec_base_def tables_def)

text \<open>A code is on the stack, partly delivered: the state between two reads.\<close>

definition loaded :: "nat \<Rightarrow> dict \<Rightarrow> int \<Rightarrow> int \<Rightarrow> int list \<Rightarrow> zstate \<Rightarrow> bool" where
  "loaded mb D old c cs t \<longleftrightarrow> dec_base mb D old t \<and> incode t = c \<and> finchar t = uint (hd (dword (D, old) c))
     \<and> dvalid (D, old) c \<and> c \<noteq> CLEAR \<and> (\<exists>st. reading mb st c cs t \<and> sync mb st D old) \<and> clear_flg t = 0
     \<and> dvalids mb (dstep mb (D, old) c) cs"

lemma loaded_stack [simp]: "loaded mb D old c cs (t\<lparr>stack := x\<rparr>) = loaded mb D old c cs t"
  by (simp add: loaded_def)

definition pending :: "nat \<Rightarrow> octet list \<Rightarrow> zstate \<Rightarrow> bool" where
  "pending mb w t \<longleftrightarrow> zphase t = S_EOF \<and> w = []
     \<or> (\<exists>D old c cs. loaded mb D old c cs t \<and> stack t \<noteq> [] \<and> w = stack t @ drun mb (dstep mb (D, old) c) cs)"

text \<open>When the string of a code is delivered, the reader enters a new string and asks for the next code.\<close>

lemma loaded_next:
  assumes mb: "bits_ok mb" and l: "loaded mb D old c cs t" and d: "dstep mb (D, old) c = (D', c)"
  shows "dec_ok mb D' c (new_entry t)" "\<exists>st. asks mb st cs (new_entry t) \<and> sync mb st D' c"
proof -
  obtain st where r: "reading mb st c cs t" and y: "sync mb st D old" using l by (auto simp: loaded_def)
  have c: "c \<noteq> CLEAR" "0 \<le> c" "c < 2 ^ mb" using l reading_code [OF r mb] by (auto simp: loaded_def)
  show dec: "dec_ok mb D' c (new_entry t)"
    using new_entry_dec [of mb D old t c] l c d by (simp add: loaded_def)
  have D': "D' = (if old \<noteq> -1 \<and> FIRST + int (length D) < 2 ^ mb then D @ [(old, hd (dword (D, old) c))] else D)"
    using d c(1) by (simp add: dstep_def split: if_splits)
  then have f: "snd st = FIRST + int (length D')" using y by (simp add: sync_def split: if_splits)
  have "clear_flg (new_entry t) = 0" using l by (simp add: loaded_def new_entry_def)
  then have "noted st c (new_entry t)" using c(1) dec f by (simp add: noted_def dec_ok_def dec_base_def)
  from getcode_next [OF mb _ this, of cs] have "asks mb (nxt mb st c) cs (new_entry t)" using r by (simp add: asks_def)
  moreover have "sync mb (nxt mb st c) D' c" using f c by (auto simp: sync_def nxt_def)
  ultimately show "\<exists>st. asks mb st cs (new_entry t) \<and> sync mb st D' c" by blast
qed

lemma drain_eq:
  "st \<noteq> [] \<Longrightarrow> drain k st = (if k < length st then (True, take k st, drop k st, 0) else (False, st, [], k - length st))"
proof (induction k st rule: drain.induct)
  case (3 k b st)
  then show ?case by (cases "st = []") auto
qed simp_all

lemma clear_asks:
  assumes mb: "bits_ok mb" and r: "reading mb st CLEAR cs s" and d: "dec_ok mb D old s"
    and t: "t = s\<lparr>codetab := x, clear_flg := 1, free_ent := FIRST, oldcode := -1\<rparr>"
  shows "asks mb (INIT_BITS, FIRST) cs t" "dec_ok mb [] (-1) t" "sync mb (INIT_BITS, FIRST) [] (-1)"
proof -
  have "noted st CLEAR t" by (simp add: noted_def t)
  moreover have "reading mb st CLEAR cs t" using r by (simp add: t)
  moreover have "nxt mb st CLEAR = (INIT_BITS, FIRST)" by (simp add: nxt_def)
  ultimately show "asks mb (INIT_BITS, FIRST) cs t" using getcode_next [OF mb, of st CLEAR cs t]
    by (cases cs) (simp_all add: asks_def)
  show "dec_ok mb [] (-1) t" using d by (auto simp: dec_ok_def dec_base_def tables_def t dict_ok_def)
  show "sync mb (INIT_BITS, FIRST) [] (-1)" by (simp add: sync_def)
qed

lemma zread_loop_delivers:
  assumes mb: "bits_ok mb"
  shows "asks mb st cs s \<Longrightarrow> dec_ok mb D old s \<Longrightarrow> sync mb st D old \<Longrightarrow> dvalids mb (D, old) cs \<Longrightarrow> stack s = []
    \<Longrightarrow> \<exists>t. zread_loop count acc s = ZData (acc @ take count (drun mb (D, old) cs)) t
      \<and> pending mb (drop count (drun mb (D, old) cs)) t"
proof (induction cs arbitrary: st s D old count acc)
  case Nil
  then show ?case by (auto simp: asks_def pending_def zread_loop.simps [of count acc s])
next
  case (Cons c cs)
  obtain t where t: "getcode s = Some (c, t)" "reading mb st c cs t" "clear_flg t = 0" using Cons.prems(1) by (auto simp: asks_def)
  have d: "dec_ok mb D old t" using dec_ok_getcode [OF t(1)] Cons.prems(2) by simp
  have stk: "stack t = []" using getcode_frame [OF t(1)] Cons.prems(5) by simp
  have v: "dvalid (D, old) c" "dvalids mb (dstep mb (D, old) c) cs" using Cons.prems(4) by simp_all
  have c: "c \<noteq> -1" "block_compress t \<noteq> 0" using v d by (auto simp: dvalid_def dec_ok_def dec_base_def)
  note unf = zread_loop.simps [of count acc s]
  show ?case
  proof (cases "c = CLEAR")
    case True
    let ?t = "t\<lparr>codetab := clear_prefix 256 (codetab t), clear_flg := 1, free_ent := FIRST, oldcode := -1\<rparr>"
    have "zread_loop count acc s = zread_loop count acc ?t" using t(1) c True by (simp add: unf)
    moreover have "dstep mb (D, old) c = ([], -1)" "dout (D, old) c = []" using True by (simp_all add: dstep_def dout_def)
    ultimately show ?thesis
      using Cons.IH [OF clear_asks [OF mb t(2) [unfolded True] d refl]] v(2) stk by simp
  next
    case False
    let ?w = "dword (D, old) c"
    let ?t = "t\<lparr>incode := c, finchar := uint (hd ?w), stack := ?w\<rparr>"
    obtain D' where d': "dstep mb (D, old) c = (D', c)" using False by (auto simp: dstep_def)
    have e: "expand_code c t = Inr (Some ?t)" by (rule expand_code_word [OF d stk v(1) False])
    have "\<exists>st. reading mb st c cs t \<and> sync mb st D old" using t(2) Cons.prems(3) by blast
    then have l: "loaded mb D old c cs ?t"
      using d v False t(3) by (simp add: loaded_def dec_ok_def)
    have run: "drun mb (D, old) (c # cs) = ?w @ drun mb (D', c) cs" using False d' by (simp add: dout_def)
    have "?w \<noteq> []" using d v False str_nonempty [of mb D c] by (auto simp: dec_ok_def dec_base_def dword_def)
    note dr = drain_eq [OF this, of count]
    show ?thesis
    proof (cases "count < length ?w")
      case True
      then have "zread_loop count acc s = ZData (acc @ take count ?w) (?t\<lparr>stack := drop count ?w\<rparr>)"
        using t(1) c False e dr by (simp add: unf)
      moreover have "pending mb (drop count ?w @ drun mb (D', c) cs) (?t\<lparr>stack := drop count ?w\<rparr>)"
        using l True d' unfolding pending_def by (intro disjI2 exI [of _ D] exI [of _ old] exI [of _ c] exI [of _ cs]) simp
      ultimately show ?thesis using True run by simp
    next
      case no: False
      let ?u = "new_entry (?t\<lparr>stack := []\<rparr>)"
      have "zread_loop count acc s = zread_loop (count - length ?w) (acc @ ?w) ?u"
        using t(1) c False e dr no by (simp add: unf)
      moreover obtain st' where "asks mb st' cs ?u" "sync mb st' D' c" and du: "dec_ok mb D' c ?u"
        using loaded_next [OF mb _ d', of cs "?t\<lparr>stack := []\<rparr>"] l by auto
      moreover have "stack ?u = []" by (simp add: new_entry_def)
      ultimately show ?thesis
        using Cons.IH [of st' ?u D' c "count - length ?w" "acc @ ?w"] v(2) d' run no by simp
    qed
  qed
qed

text \<open>A read that resumes delivers the next bytes.\<close>

lemma zread_pending:
  assumes mb: "bits_ok mb" and p: "pending mb w s"
  shows "\<exists>t. zread num s = ZData (take num w) t \<and> pending mb (drop num w) t"
proof (cases "num = 0 \<or> zphase s = S_EOF")
  case True
  then show ?thesis using p by (auto simp: zread_def pending_def loaded_def dec_base_def)
next
  case False
  then obtain D old c cs where l: "loaded mb D old c cs s" and ne: "stack s \<noteq> []" and w: "w = stack s @ drun mb (dstep mb (D, old) c) cs"
    using p by (auto simp: pending_def)
  have ph: "zphase s = S_MIDDLE" "c \<noteq> CLEAR" using l by (simp_all add: loaded_def dec_base_def)
  then obtain D' where d': "dstep mb (D, old) c = (D', c)" by (auto simp: dstep_def)
  note dr = drain_eq [OF ne, of num]
  show ?thesis
  proof (cases "num < length (stack s)")
    case True
    have "zread num s = ZData (take num (stack s)) (s\<lparr>stack := drop num (stack s)\<rparr>)"
      using False ph ne dr True by (simp add: zread_def)
    moreover have "pending mb (drop num w) (s\<lparr>stack := drop num (stack s)\<rparr>)"
      using l True w unfolding pending_def by (intro disjI2 exI [of _ D] exI [of _ old] exI [of _ c] exI [of _ cs]) simp
    ultimately show ?thesis using True w by simp
  next
    case no: False
    let ?u = "new_entry (s\<lparr>stack := []\<rparr>)"
    have "zread num s = zread_loop (num - length (stack s)) (stack s) ?u" using False ph ne dr no by (simp add: zread_def)
    moreover obtain st' where "asks mb st' cs ?u" "sync mb st' D' c" "dec_ok mb D' c ?u"
      using loaded_next [OF mb _ d', of cs "s\<lparr>stack := []\<rparr>"] l by auto
    moreover have "stack ?u = []" "dvalids mb (D', c) cs" using l d' by (simp_all add: new_entry_def loaded_def)
    ultimately show ?thesis
      using zread_loop_delivers [OF mb, of st' cs ?u D' c "num - length (stack s)" "stack s"] w d' no by simp
  qed
qed

end
