(* ===== verification/Compress.thy ===== *)
theory Compress
  imports Zopen_Write Zopen_Read
begin

unbundle bit_operations_syntax

text \<open>
  Writer and reader of zopen.c together: what compress(1) writes is what uncompress(1) reads, for
  the code sizes both accept; and what happens outside: code sizes below twelve, which the manual
  page allows, and files whose first code is not a character.
\<close>

subsection \<open>Reading a file\<close>

text \<open>The reads stdio makes for the loop of decompress(): the bytes of all of them.\<close>

fun zreads :: "nat list \<Rightarrow> zstate \<Rightarrow> octet list option" where
  "zreads [] s = Some []"
| "zreads (n # ns) s = (case zread n s of ZData bs t \<Rightarrow> map_option (\<lambda>r. bs @ r) (zreads ns t) | _ \<Rightarrow> None)"

definition decompress_stream :: "nat list \<Rightarrow> octet list \<Rightarrow> octet list option" where
  "decompress_stream ns f = (case zopen f CHR ''r'' 0 of None \<Rightarrow> None | Some s \<Rightarrow> zreads ns s)"

lemma header_byte:
  assumes "bits_ok mb"
  shows "uint (word_of_int (int mb OR BLOCK_MASK) :: octet) AND BIT_MASK = int mb"
    "uint (word_of_int (int mb OR BLOCK_MASK) :: octet) AND BLOCK_MASK = BLOCK_MASK"
proof -
  have "\<forall>m\<in>set [12..<17]. uint (word_of_int (int m OR BLOCK_MASK) :: octet) AND BIT_MASK = int m
    \<and> uint (word_of_int (int m OR BLOCK_MASK) :: octet) AND BLOCK_MASK = BLOCK_MASK" by code_simp
  moreover have "mb \<in> set [12..<17]" using assms unfolding set_upt bits_ok_def BITS_def by simp
  ultimately show "uint (word_of_int (int mb OR BLOCK_MASK) :: octet) AND BIT_MASK = int mb"
    "uint (word_of_int (int mb OR BLOCK_MASK) :: octet) AND BLOCK_MASK = BLOCK_MASK" by blast+
qed

lemma init_suffix_eq: "init_suffix n t k = (if 0 \<le> k \<and> k < int n then word_of_int k else t k)"
  by (induction n arbitrary: t) auto

lemma zread_header:
  assumes mb: "bits_ok mb" and s: "zopen (header mb @ bs) CHR ''r'' 0 = Some s"
    and cs: "stream mb (INIT_BITS, FIRST) (c # cs) bs" "c \<noteq> CLEAR" "dvalids mb ([], -1) (c # cs)" and n: "0 < num"
  shows "\<exists>t. zread num s = ZData (take num (drun mb ([], -1) (c # cs))) t \<and> pending mb (drop num (drun mb ([], -1) (c # cs))) t"
proof -
  have f: "zfile s = header mb @ bs" "zphase s = S_START" "gbuf s = replicate BITS 0" "roffset s = 0" "zsize s = 0" "clear_flg s = 0"
    using s by (auto simp: zopen_def Let_def split: if_splits)
  define s1 where "s1 = s\<lparr>zphase := S_MIDDLE, zfile := bs, block_compress := BLOCK_MASK, maxbits := mb, maxmaxcode := 2 ^ mb,
     n_bits := INIT_BITS, maxcode := MAXCODE INIT_BITS, codetab := clear_prefix 256 (codetab s),
     tab_suffix := init_suffix 256 (tab_suffix s), free_ent := FIRST\<rparr>"
  have z: "zread num s = (case getcode s1 of None \<Rightarrow> ZUndefined
      | Some (cd, s3) \<Rightarrow> let s4 = s3\<lparr>finchar := cd, oldcode := cd\<rparr> in
          if cd = -1 then ZData [] s4 else zread_loop (num - 1) [word_of_int cd] (s4\<lparr>stack := []\<rparr>))"
  proof -
    have "\<not> mb > BITS" "\<not> mb < 12" using mb by (auto simp: bits_ok_def)
    then show ?thesis
      using f(1,2) n header_byte [OF mb]
      by (simp add: zread_def zread_start_def Let_def header_def magic_header_def s1_def BLOCK_MASK_def push_bit_eq_mult)
  qed
  have w: "width_ok mb (INIT_BITS, FIRST)" by (rule width_ok_start [OF mb])
  have i: "mb \<noteq> INIT_BITS" using mb by (simp add: bits_ok_def INIT_BITS_def)
  have rf: "refills mb (INIT_BITS, FIRST) s1"
    using f i by (simp add: refills_def s1_def BITS_def mcode_def MAXCODE_eq INIT_BITS_def FIRST_def)
  have "stream mb (INIT_BITS, FIRST) (c # cs) (zfile s1)" using cs(1) by (simp add: s1_def)
  then obtain t where t: "getcode s1 = Some (c, t)" "reading mb (INIT_BITS, FIRST) c cs t" "clear_flg t = 0"
    using refill_reading [OF rf mb w] by blast
  have c: "0 \<le> c" "c < 256" using cs(2,3) by (auto simp: dvalid_def FIRST_def CLEAR_def)
  let ?t = "t\<lparr>finchar := c, oldcode := c, stack := []\<rparr>"
  have fr: "tab_suffix t = init_suffix 256 (tab_suffix s)" "free_ent t = FIRST" "maxmaxcode t = 2 ^ mb" "block_compress t = BLOCK_MASK"
    "zphase t = S_MIDDLE" using getcode_frame [OF t(1)] by (simp_all add: s1_def)
  have F: "FIRST \<le> 2 ^ mb" "mb \<le> BITS" using mb power_increasing [of 12 mb "2::int"] by (auto simp: bits_ok_def FIRST_def)
  have dec: "dec_ok mb [] c ?t"
    using c fr F cs(2) by (simp add: dec_ok_def dec_base_def tables_def init_suffix_eq str_char FIRST_def BLOCK_MASK_def)
  have st: "dstep mb ([], -1) c = ([], c)" "dout ([], -1) c = [word_of_int c]"
    using cs(2) c by (simp_all add: dstep_def dout_def dword_def str_char FIRST_def)
  have "noted (INIT_BITS, FIRST) c ?t" using cs(2) fr t(3) by (simp add: noted_def)
  then have a: "asks mb (nxt mb (INIT_BITS, FIRST) c) cs ?t"
    using getcode_next [OF mb, of "(INIT_BITS, FIRST)" c cs ?t] t(2) by (simp add: asks_def)
  have y: "sync mb (nxt mb (INIT_BITS, FIRST) c) [] c" using c cs(2) by (auto simp: sync_def nxt_def)
  have "zread num s = zread_loop (num - 1) [word_of_int c] ?t" using z t(1) c by (simp add: Let_def)
  then show ?thesis
    using zread_loop_delivers [OF mb a dec y, of "num - 1" "[word_of_int c]"] cs(3) st n by (cases num) simp_all
qed

lemma zreads_pending: "bits_ok mb \<Longrightarrow> pending mb w s \<Longrightarrow> zreads ns s = Some (take (sum_list ns) w)"
proof (induction ns arbitrary: w s)
  case (Cons n ns)
  obtain t where "zread n s = ZData (take n w) t" "pending mb (drop n w) t" using zread_pending [OF Cons.prems] by blast
  then show ?case using Cons by (simp add: take_add)
qed simp

lemma zreads_header:
  assumes "bits_ok mb" "zopen (header mb @ bs) CHR ''r'' 0 = Some s"
    "stream mb (INIT_BITS, FIRST) (c # cs) bs" "c \<noteq> CLEAR" "dvalids mb ([], -1) (c # cs)"
  shows "zreads ns s = Some (take (sum_list ns) (drun mb ([], -1) (c # cs)))"
proof (induction ns)
  case (Cons n ns)
  show ?case
  proof (cases "n = 0")
    case True
    then show ?thesis using Cons by (simp add: zread_def)
  next
    case False
    then obtain t where "zread n s = ZData (take n (drun mb ([], -1) (c # cs))) t" "pending mb (drop n (drun mb ([], -1) (c # cs))) t"
      using zread_header [OF assms] by blast
    then show ?thesis using zreads_pending [OF assms(1), of "drop n (drun mb ([], -1) (c # cs))" t ns] by (simp add: take_add del: drun.simps)
  qed
qed simp

text \<open>
  C1. compress(1) and uncompress(1) are inverse: for the default code size and every size from 12 to
  16, for all data that is not empty, however stdio cuts it into writes, the writes end and the
  closed stream is a file from which reads of any sizes deliver the data in order, byte by byte,
  and then nothing more.
\<close>

theorem compress_roundtrip:
  assumes "bits = 0 \<or> 12 \<le> bits \<and> bits \<le> 16" and "concat bss \<noteq> []"
  shows "\<exists>f. compress_stream bits bss = Some f
    \<and> (\<forall>ns. decompress_stream ns f = Some (take (sum_list ns) (concat bss)))"
proof -
  let ?mb = "code_bits bits"
  have mb: "bits_ok ?mb" using assms(1) by (auto simp: bits_ok_def code_bits_def BITS_def)
  obtain bs cs where f: "compress_stream bits bss = Some (header ?mb @ bs)" and st: "stream ?mb (INIT_BITS, FIRST) cs bs"
    and cs: "cs \<noteq> []" "hd cs \<noteq> CLEAR" "dvalids ?mb ([], -1) cs" "drun ?mb ([], -1) cs = concat bss"
    using compress_stream_codes [OF assms] by blast
  obtain c cs' where c: "cs = c # cs'" using cs(1) by (cases cs) auto
  have "decompress_stream ns (header ?mb @ bs) = Some (take (sum_list ns) (concat bss))" for ns
    using zreads_header [OF mb _ st [unfolded c] _ cs(3) [unfolded c], of _ ns] cs(2,4)
    by (simp add: decompress_stream_def c zopen_def BITS_def del: drun.simps)
  then show ?thesis using f by blast
qed

theorem compress_roundtrip_witness:
  "\<exists>f. compress_stream 12 [[97, 98], [], [97]] = Some f \<and> decompress_stream [2, 1024] f = Some [97, 98, 97]"
  using compress_roundtrip [of 12 "[[97, 98], [], [97]]"] by fastforce

subsection \<open>Small code sizes\<close>

lemma zoutput_appends: "\<exists>x. zfile (zoutput c s) = zfile s @ x"
  by (simp add: zoutput_def grow_code_def fwrite_def Let_def)

lemma cl_block_appends: "\<exists>x. zfile (cl_block s) = zfile s @ x"
  using zoutput_appends [of CLEAR "(cl_hash (hsize s) (s\<lparr>checkpoint := in_count s + CHECK_GAP, ratio := 0\<rparr>))\<lparr>free_ent := FIRST, clear_flg := 1\<rparr>"]
  by (auto simp: cl_block_def Let_def cl_hash_def)

lemma zwrite_byte_appends: "zwrite_byte b s = Some t \<Longrightarrow> \<exists>x. zfile t = zfile s @ x"
proof -
  assume z: "zwrite_byte b s = Some t"
  define s1 where "s1 = zoutput (ent s) (s\<lparr>in_count := in_count s + 1\<rparr>)"
  define s2 where "s2 = s1\<lparr>out_count := out_count s1 + 1, ent := uint b\<rparr>"
  obtain x y where x: "zfile s2 = zfile s @ x" "zfile (cl_block s2) = zfile s2 @ y"
    using zoutput_appends [of "ent s" "s\<lparr>in_count := in_count s + 1\<rparr>"] cl_block_appends [of s2] by (auto simp: s1_def s2_def)
  have "zfile t = zfile s \<or> zfile t = zfile s2 \<or> t = cl_block s2"
    using z unfolding zwrite_byte_def Let_def s1_def [symmetric]
    by (auto simp: s2_def s1_def split: option.splits prod.splits bool.splits if_splits)
  then show ?thesis using x by auto
qed

lemma zwrite_loop_appends: "zwrite_loop bs s = Some t \<Longrightarrow> \<exists>x. zfile t = zfile s @ x"
proof (induction bs arbitrary: s)
  case (Cons b bs)
  then obtain u where u: "zwrite_byte b s = Some u" "zwrite_loop bs u = Some t" by (auto split: option.splits)
  then show ?case using zwrite_byte_appends [OF u(1)] Cons.IH [OF u(2)] by auto
qed simp

lemma zoutput_mode [simp]: "zmode (cl_block s) = zmode s" "zphase (cl_block s) = zphase s"
  by (simp_all add: cl_block_def Let_def cl_hash_def)

lemma zwrite_byte_phase: "zwrite_byte b s = Some t \<Longrightarrow> zphase t = zphase s \<and> zmode t = zmode s"
  by (auto simp: zwrite_byte_def Let_def split: option.splits prod.splits bool.splits if_splits)

lemma zwrite_loop_phase: "zwrite_loop bs s = Some t \<Longrightarrow> zphase t = zphase s \<and> zmode t = zmode s"
  by (induction bs arbitrary: s) (auto dest!: zwrite_byte_phase split: option.splits)

lemma zwrites_appends:
  "zwrites bss s = Some t \<Longrightarrow> zphase s = S_MIDDLE \<Longrightarrow> (\<exists>x. zfile t = zfile s @ x) \<and> zmode t = zmode s"
proof (induction bss arbitrary: s)
  case (Cons bs bss)
  then have z: "zwrite bs s = zwrite_loop bs s" by (simp add: zwrite_def split: list.split)
  then obtain u where u: "zwrite_loop bs s = Some u" "zwrites bss u = Some t" using Cons.prems(1) by (auto split: option.splits)
  then show ?case using zwrite_loop_appends [OF u(1)] Cons.IH [OF u(2)] zwrite_loop_phase [OF u(1)] Cons.prems(2) by auto
qed simp

lemma zwrites_starts:
  "zopen f CHR ''w'' bits = Some s \<Longrightarrow> concat bss \<noteq> [] \<Longrightarrow> zwrites bss s = Some t
    \<Longrightarrow> \<exists>x. zfile t = header (code_bits bits) @ x \<and> zmode t = CHR ''w''"
proof (induction bss)
  case (Cons bs bss)
  have o: "zphase s = S_START" "zfile s = []" "maxbits s = code_bits bits" "block_compress s = BLOCK_MASK" "zmode s = CHR ''w''"
    using Cons.prems(1) by (auto simp: zopen_def Let_def code_bits_def split: if_splits)
  show ?case
  proof (cases bs)
    case Nil
    then show ?thesis using Cons by (simp add: zwrite_def)
  next
    case (Cons b rest)
    let ?s = "zwrite_start b s"
    have h: "zfile ?s = header (code_bits bits)" "zphase ?s = S_MIDDLE" "zmode ?s = CHR ''w''"
      using o by (simp_all add: zwrite_start_def Let_def fwrite_def cl_hash_def header_def)
    obtain u where u: "zwrite_loop rest ?s = Some u" "zwrites bss u = Some t"
      using Cons.prems(3) o(1) Cons by (auto simp: zwrite_def split: option.splits)
    show ?thesis
      using zwrite_loop_appends [OF u(1)] zwrite_loop_phase [OF u(1)] zwrites_appends [OF u(2)] h by auto
  qed
qed simp

lemma small_header_byte: "1 \<le> mb \<Longrightarrow> mb \<le> 11 \<Longrightarrow> uint (word_of_int (int mb OR BLOCK_MASK) :: octet) AND BIT_MASK = int mb"
proof -
  have "\<forall>m\<in>set [1..<12]. uint (word_of_int (int m OR BLOCK_MASK) :: octet) AND BIT_MASK = int m" by code_simp
  moreover assume "1 \<le> mb" "mb \<le> 11"
  then have "mb \<in> set [1..<12]" unfolding set_upt by simp
  ultimately show ?thesis by blast
qed

text \<open>
  With a code size from 1 to 11, of which the manual page allows 9 to 11, compress writes a file
  that uncompress refuses: whatever the data, the first read of what was written fails with EFTYPE.
\<close>

theorem small_code_size_unreadable:
  assumes "1 \<le> bits" "bits \<le> 11" "concat bss \<noteq> []" "compress_stream bits bss = Some f"
    and "zopen f CHR ''r'' 0 = Some s" "0 < n"
  shows "\<exists>t. zread n s = ZError EFTYPE t"
proof -
  obtain z0 t where o: "zopen [] CHR ''w'' bits = Some z0" "zwrites bss z0 = Some t" "zclose t = f"
    using assms(4) by (auto simp: compress_stream_def split: option.splits)
  obtain x where x: "zfile t = header (code_bits bits) @ x" "zmode t = CHR ''w''" using zwrites_starts [OF o(1) assms(3) o(2)] by blast
  define t1 where "t1 = zoutput (ent t) t"
  obtain y z where "zfile t1 = zfile t @ y" "zfile (zoutput (-1) (t1\<lparr>out_count := out_count t1 + 1\<rparr>)) = zfile t1 @ z"
    using zoutput_appends [of "ent t" t] zoutput_appends [of "-1" "t1\<lparr>out_count := out_count t1 + 1\<rparr>"] by (auto simp: t1_def)
  then have "f = header (code_bits bits) @ x @ y @ z" using o(3) x by (simp add: zclose_def Let_def flip: t1_def)
  then have f: "zfile s = header (code_bits bits) @ x @ y @ z" "zphase s = S_START"
    using assms(5) by (auto simp: zopen_def Let_def split: if_splits)
  have b: "1 \<le> code_bits bits" "code_bits bits \<le> 11" using assms(1,2) by (auto simp: code_bits_def)
  then show ?thesis
    using f assms(6) small_header_byte [OF b] by (simp add: zread_def zread_start_def Let_def header_def magic_header_def)
qed

theorem small_code_size_unreadable_witness:
  "\<exists>f s t. compress_stream 9 [[97]] = Some f \<and> zopen f CHR ''r'' 0 = Some s \<and> zread 1024 s = ZError EFTYPE t"
proof -
  obtain f where f: "compress_stream 9 [[97]] = Some f"
    by (simp add: compress_stream_def zopen_def Let_def BITS_def zwrite_def)
  obtain s where s: "zopen f CHR ''r'' 0 = Some s" by (simp add: zopen_def Let_def)
  show ?thesis using small_code_size_unreadable [of 9 "[[97]]" f s 1024] f s by auto
qed

subsection \<open>A first code that is no character\<close>

lemma chase_loops: "256 \<le> p \<Longrightarrow> pre p = p \<Longrightarrow> chase pre suf p st = None"
proof (induction "DE_STACK_SIZE - length st" arbitrary: st rule: less_induct)
  case less
  then show ?case by (subst chase.simps) (auto simp: push_def)
qed

text \<open>The codes 257, 65 and 257, nine bits each.\<close>

definition bad_file :: "octet list" where
  "bad_file = header 16 @ [0x01, 0x83, 0x04, 0x04]"

lemma getcode_more:
  assumes "clear_flg s = 0" "int (roffset s) < zsize s" "free_ent s \<le> maxcode s" "8 \<le> n_bits s"
  shows "getcode s = Some (get_code (n_bits s) (roffset s) (gbuf s), s\<lparr>roffset := roffset s + n_bits s\<rparr>)"
  using assms by (simp add: getcode_def)

lemma bad_codes:
  "get_code 9 0 ([0x01, 0x83, 0x04, 0x04] @ replicate 12 0) = 257" "get_code 9 9 ([0x01, 0x83, 0x04, 0x04] @ replicate 12 0) = 65"
  "get_code 9 18 ([0x01, 0x83, 0x04, 0x04] @ replicate 12 0) = 257"
  by code_simp+

text \<open>
  C37. The reader does not check that the first code of a file is a character. On a file of seven
  bytes whose codes are 257, 65 and 257 every read of two bytes or more runs over the end of the
  output stack: the second code makes 257 its own prefix.
\<close>

theorem first_code_overruns_stack:
  assumes "zopen bad_file CHR ''r'' 0 = Some s" "2 \<le> n"
  shows "zread n s = ZUndefined"
proof -
  have f: "zfile s = bad_file" "zphase s = S_START" "gbuf s = replicate 16 0" "roffset s = 0" "zsize s = 0" "clear_flg s = 0"
    using assms(1) by (auto simp: zopen_def Let_def BITS_def split: if_splits)
  let ?g = "[0x01, 0x83, 0x04, 0x04] @ replicate 12 0 :: octet list"
  define s1 where "s1 = s\<lparr>zphase := S_MIDDLE, zfile := [0x01, 0x83, 0x04, 0x04], block_compress := BLOCK_MASK, maxbits := 16,
     maxmaxcode := 65536, n_bits := INIT_BITS, maxcode := MAXCODE INIT_BITS, codetab := clear_prefix 256 (codetab s),
     tab_suffix := init_suffix 256 (tab_suffix s), free_ent := FIRST\<rparr>"
  have mb: "bits_ok 16" by (simp add: bits_ok_def BITS_def)
  have "\<not> (16::nat) > BITS" by (simp add: BITS_def)
  then have z: "zread n s = (case getcode s1 of None \<Rightarrow> ZUndefined
      | Some (cd, s3) \<Rightarrow> let s4 = s3\<lparr>finchar := cd, oldcode := cd\<rparr> in
          if cd = -1 then ZData [] s4 else zread_loop (n - 1) [word_of_int cd] (s4\<lparr>stack := []\<rparr>))"
    using f(1,2) assms(2) header_byte [OF mb]
    by (simp add: zread_def zread_start_def Let_def header_def bad_file_def magic_header_def s1_def BLOCK_MASK_def)
  define s2 where "s2 = s1\<lparr>gbuf := ?g, zfile := [], zsize := 24, roffset := 9\<rparr>"
  have g1: "getcode s1 = Some (257, s2)"
    using f bad_codes(1)
    by (simp add: getcode_def s1_def s2_def Let_def INIT_BITS_def FIRST_def MAXCODE_eq)
  define s3 where "s3 = s2\<lparr>finchar := 257, oldcode := 257, stack := []\<rparr>"
  have g2: "getcode s3 = Some (65, s3\<lparr>roffset := 18\<rparr>)"
    using f bad_codes(2) getcode_more [of s3] by (simp add: s3_def s2_def s1_def INIT_BITS_def FIRST_def MAXCODE_eq)
  define s4 where "s4 = s3\<lparr>roffset := 18, incode := 65, finchar := 65, stack := [65]\<rparr>"
  have e2: "expand_code 65 (s3\<lparr>roffset := 18\<rparr>) = Inr (Some s4)"
    by (simp add: expand_code_def s4_def s3_def s2_def s1_def FIRST_def chase.simps push_def DE_STACK_SIZE_def BITS_def init_suffix_eq)
  define s5 where "s5 = new_entry (s4\<lparr>stack := []\<rparr>)"
  have s5: "codetab s5 257 = 257" "free_ent s5 = 258" "oldcode s5 = 65" "stack s5 = []"
    by (simp_all add: s5_def new_entry_def s4_def s3_def s2_def s1_def FIRST_def)
  have g3: "getcode s5 = Some (257, s5\<lparr>roffset := 27\<rparr>)"
    using f bad_codes(3) getcode_more [of s5] s5(2)
    by (simp add: s5_def new_entry_def s4_def s3_def s2_def s1_def INIT_BITS_def FIRST_def MAXCODE_eq)
  have e3: "expand_code 257 (s5\<lparr>roffset := 27\<rparr>) = Inr None"
    using s5 chase_loops [of 257 "codetab s5"] by (simp add: expand_code_def)
  have st4: "stack s4 = [65]" by (simp add: s4_def)
  have "zread_loop k acc s5 = ZUndefined" for k acc
    using g3 e3 by (simp add: zread_loop.simps [of k acc s5] CLEAR_def)
  then have "zread_loop k acc s3 = ZUndefined" if "1 \<le> k" for k acc
    using g2 e2 that drain_eq [of "[65]" k]
    by (simp add: zread_loop.simps [of k acc s3] CLEAR_def st4 flip: s5_def)
  moreover have "zread n s = zread_loop (n - 1) [word_of_int 257] s3" using z g1 by (simp add: s3_def)
  ultimately show ?thesis using assms(2) by simp
qed

theorem first_code_overruns_stack_witness: "\<exists>s. zopen bad_file CHR ''r'' 0 = Some s \<and> zread 1024 s = ZUndefined"
proof -
  obtain s where s: "zopen bad_file CHR ''r'' 0 = Some s" by (simp add: zopen_def Let_def)
  then show ?thesis using first_code_overruns_stack [of s 1024] by simp
qed

end
