(* ===== verification/Zopen_Safe.thy ===== *)
theory Zopen_Safe
  imports Zopen_Read
begin

unbundle bit_operations_syntax

text \<open>
  Reading any file at all. The comment in zread says that the prefixes of the string table decrease, so
  that the output stack is bounded; that is so when the first code of the file is a character. Then no
  sequence of reads runs over the stack, pops it empty or takes a mask at a negative index.
\<close>

definition rsafe :: "zstate \<Rightarrow> bool" where
  "rsafe s \<longleftrightarrow> bits_ok (maxbits s) \<and> maxmaxcode s = 2 ^ maxbits s \<and> 9 \<le> n_bits s \<and> n_bits s \<le> maxbits s
     \<and> maxcode s = mcode (maxbits s) (n_bits s) \<and> 256 \<le> free_ent s \<and> free_ent s \<le> 2 ^ maxbits s
     \<and> length (gbuf s) = 16 \<and> zsize s + int (n_bits s) \<le> 129
     \<and> (\<forall>k. 256 \<le> k \<and> k < max 257 (free_ent s) \<longrightarrow> 0 \<le> codetab s k \<and> codetab s k < k)
     \<and> (oldcode s = -1 \<or> 0 \<le> oldcode s \<and> oldcode s < free_ent s)"

lemma get_code_range:
  assumes "9 \<le> nb" "nb \<le> 16" "off + nb \<le> 8 * length b"
  shows "0 \<le> get_code nb off b" "get_code nb off b < 2 ^ nb"
proof -
  have "take_bit nb (get_code nb off b) = get_code nb off b"
    by (rule bit_eqI) (auto simp: bit_take_bit_iff get_code_bit [OF assms])
  then show "0 \<le> get_code nb off b" "get_code nb off b < 2 ^ nb"
    by (metis take_bit_nonnegative, metis take_bit_int_less_exp)
qed

lemma getcode_safe:
  assumes s: "rsafe s"
  obtains c t where "getcode s = Some (c, t)" "rsafe t" "c = -1 \<or> 0 \<le> c \<and> c < 2 ^ maxbits s"
proof -
  define nb where "nb = (if clear_flg s > 0 then INIT_BITS else if free_ent s > maxcode s then n_bits s + 1 else n_bits s)"
  have mb: "bits_ok (maxbits s)" "maxbits s \<le> 16" "9 < maxbits s" using s by (auto simp: rsafe_def bits_ok_def BITS_def)
  have nb: "9 \<le> nb" "nb \<le> maxbits s" using s mb by (auto simp: nb_def rsafe_def INIT_BITS_def mcode_def)
  have pw: "(2::int) ^ nb \<le> 2 ^ maxbits s" using nb by (intro power_increasing) auto
  show thesis
  proof (cases "clear_flg s > 0 \<or> int (roffset s) \<ge> zsize s \<or> free_ent s > maxcode s")
    case True
    let ?bs = "take nb (zfile s)"
    let ?g = "?bs @ drop (length ?bs) (gbuf s)"
    let ?s = "s\<lparr>n_bits := nb, maxcode := mcode (maxbits s) nb, clear_flg := min 0 (clear_flg s), gbuf := ?g, zfile := drop nb (zfile s), zsize := int (length ?bs)\<rparr>"
    let ?t = "?s\<lparr>roffset := nb, zsize := 8 * int (length ?bs) - (int nb - 1)\<rparr>"
    have g: "length ?g = 16" using s nb mb by (auto simp: rsafe_def)
    have e: "getcode s = (if ?bs = [] then Some (-1, ?s) else Some (get_code nb 0 ?g, ?t))"
      using True s nb mb unfolding getcode_def
      by (simp add: nb_def Let_def rsafe_def mcode_def INIT_BITS_def push_bit_eq_mult)
    have r: "rsafe ?s" "rsafe ?t" using s nb mb g by (auto simp: rsafe_def)
    have c: "0 \<le> get_code nb 0 ?g" "get_code nb 0 ?g < 2 ^ nb" using nb mb g by (auto intro!: get_code_range)
    show thesis
    proof (cases "?bs = []")
      case True
      show thesis by (rule that [OF trans [OF e if_P [OF True]] r(1)]) simp
    next
      case False
      show thesis by (rule that [OF trans [OF e if_not_P [OF False]] r(2)]) (use c pw in linarith)
    qed
  next
    case False
    then have "roffset s + n_bits s \<le> 8 * length (gbuf s)" using s by (auto simp: rsafe_def)
    then have c: "0 \<le> get_code (n_bits s) (roffset s) (gbuf s)" "get_code (n_bits s) (roffset s) (gbuf s) < 2 ^ n_bits s"
      using s mb by (auto simp: rsafe_def intro!: get_code_range)
    have nb': "nb = n_bits s" using False by (simp add: nb_def)
    have c': "get_code (n_bits s) (roffset s) (gbuf s) < 2 ^ maxbits s" by (rule less_le_trans [OF c(2) pw [unfolded nb']])
    have e: "getcode s = Some (get_code (n_bits s) (roffset s) (gbuf s), s\<lparr>roffset := roffset s + n_bits s\<rparr>)"
      using False s by (simp add: getcode_def rsafe_def)
    have "rsafe (s\<lparr>roffset := roffset s + n_bits s\<rparr>)" using s by (simp add: rsafe_def)
    from that [OF e this] show thesis using c(1) c' by simp
  qed
qed

lemma chase_safe:
  assumes "\<forall>k. 256 \<le> k \<and> k < F \<longrightarrow> 0 \<le> pre k \<and> pre k < k"
  shows "p < F \<Longrightarrow> length st + nat p \<le> DE_STACK_SIZE
    \<Longrightarrow> \<exists>q st'. chase pre suf p st = Some (q, st') \<and> length st' \<le> length st + nat p"
proof (induction "nat p" arbitrary: p st rule: less_induct)
  case less
  show ?case
  proof (cases "256 \<le> p")
    case True
    then have q: "0 \<le> pre p" "pre p < p" using assms less.prems(1) by auto
    then have "\<exists>q st'. chase pre suf (pre p) (suf p # st) = Some (q, st') \<and> length st' \<le> length (suf p # st) + nat (pre p)"
      using less.prems True by (intro less.hyps) auto
    moreover have "length st < DE_STACK_SIZE" using True less.prems(2) by linarith
    then have "chase pre suf p st = chase pre suf (pre p) (suf p # st)"
      using True by (subst chase.simps) (simp add: push_def)
    ultimately show ?thesis using q True by fastforce
  qed (simp add: chase.simps)
qed

lemma expand_safe:
  assumes s: "rsafe s" and st: "stack s = []"
  shows "expand_code c s = Inl () \<or> (\<exists>f x. expand_code c s = Inr (Some (s\<lparr>incode := c, finchar := f, stack := x\<rparr>)) \<and> x \<noteq> []
    \<and> c \<le> free_ent s \<and> (c = free_ent s \<longrightarrow> oldcode s \<noteq> -1))"
proof (cases "c \<ge> free_ent s \<and> (c > free_ent s \<or> oldcode s = -1)")
  case False
  define p where "p = (if c \<ge> free_ent s then oldcode s else c)"
  define st1 where "st1 = (if c \<ge> free_ent s then [word_of_int (finchar s)] else [] :: octet list)"
  have sz: "65540 < DE_STACK_SIZE" by (simp add: DE_STACK_SIZE_def BITS_def)
  have "(2::int) ^ maxbits s \<le> 2 ^ 16" using s by (intro power_increasing) (auto simp: rsafe_def bits_ok_def BITS_def)
  then have p: "p < free_ent s" "nat p \<le> 65536" using False s by (auto simp: p_def rsafe_def)
  have pre: "\<forall>k. 256 \<le> k \<and> k < free_ent s \<longrightarrow> 0 \<le> codetab s k \<and> codetab s k < k" using s by (auto simp: rsafe_def)
  have l: "length st1 \<le> 1" by (simp add: st1_def)
  obtain q st2 where q: "chase (codetab s) (tab_suffix s) p st1 = Some (q, st2)" "length st2 \<le> length st1 + nat p"
    using chase_safe [OF pre p(1), of st1 "tab_suffix s"] p(2) sz l by auto
  have st1: "(if c \<ge> free_ent s then map_option (\<lambda>st. (oldcode s, st)) (push (word_of_int (finchar s)) (stack s)) else Some (c, stack s)) = Some (p, st1)"
    using sz st by (simp add: push_def p_def st1_def)
  have "push (tab_suffix s q) st2 = Some (tab_suffix s q # st2)" using q(2) l p(2) sz by (simp add: push_def)
  then have "expand_code c s = Inr (Some (s\<lparr>incode := c, finchar := uint (tab_suffix s q), stack := tab_suffix s q # st2\<rparr>))"
    unfolding expand_code_def st1 using q(1) False by simp
  then show ?thesis
    using False by (intro disjI2 exI [of _ "uint (tab_suffix s q)"] exI [of _ "tab_suffix s q # st2"]) auto
qed (simp add: expand_code_def)

lemma new_entry_safe:
  assumes s: "rsafe s" and c: "0 \<le> incode s" "incode s < 2 ^ maxbits s" "incode s \<le> free_ent s" "incode s = free_ent s \<longrightarrow> oldcode s \<noteq> -1"
  shows "rsafe (new_entry s)"
proof (cases "free_ent s < maxmaxcode s \<and> oldcode s \<noteq> -1")
  case True
  have "(2::int) ^ maxbits s \<le> 2 ^ 16" using s by (intro power_increasing) (auto simp: rsafe_def bits_ok_def BITS_def)
  then have "oldcode s mod 65536 = oldcode s" "0 \<le> oldcode s" "oldcode s < free_ent s" using s True by (auto simp: rsafe_def)
  then show ?thesis using True s c by (auto simp: rsafe_def new_entry_def max_def)
next
  case False
  then have "new_entry s = s\<lparr>oldcode := incode s\<rparr>" unfolding new_entry_def by (rule if_not_P)
  then show ?thesis using False s c by (auto simp: rsafe_def)
qed

text \<open>The state a read leaves when it has delivered data.\<close>

definition between :: "zstate \<Rightarrow> bool" where
  "between s \<longleftrightarrow> zphase s = S_EOF \<or> zphase s = S_MIDDLE \<and> stack s \<noteq> [] \<and> rsafe s
     \<and> 0 \<le> incode s \<and> incode s < 2 ^ maxbits s \<and> incode s \<le> free_ent s \<and> (incode s = free_ent s \<longrightarrow> oldcode s \<noteq> -1)"

definition delivers :: "zres \<Rightarrow> bool" where
  "delivers r \<longleftrightarrow> (case r of ZData _ t \<Rightarrow> between t | ZError _ _ \<Rightarrow> True | ZUndefined \<Rightarrow> False)"

lemma delivers_simps [simp]: "delivers (ZData bs t) = between t" "delivers (ZError e t)" "\<not> delivers ZUndefined"
  by (simp_all add: delivers_def)

lemma clear_prefix_eq: "clear_prefix n t k = (if 0 \<le> k \<and> k < int n then 0 else t k)"
  by (induction n arbitrary: t) auto

lemma rsafe_upd [simp]:
  "rsafe (s\<lparr>incode := i\<rparr>) = rsafe s" "rsafe (s\<lparr>finchar := i\<rparr>) = rsafe s" "rsafe (s\<lparr>stack := x\<rparr>) = rsafe s"
  by (simp_all add: rsafe_def)

lemma rsafe_clear: "rsafe s \<Longrightarrow> rsafe (s\<lparr>codetab := clear_prefix 256 (codetab s), clear_flg := 1, free_ent := FIRST, oldcode := -1\<rparr>)"
proof -
  assume s: "rsafe s"
  then have "(2::int) ^ 12 \<le> 2 ^ maxbits s" by (intro power_increasing) (auto simp: rsafe_def bits_ok_def)
  then show ?thesis using s by (auto simp: rsafe_def clear_prefix_eq FIRST_def)
qed

lemma zread_loop_safe:
  "rsafe s \<Longrightarrow> stack s = [] \<Longrightarrow> zphase s = S_MIDDLE \<Longrightarrow> delivers (zread_loop count acc s)"
proof (induction count acc s rule: zread_loop.induct)
  case (1 count acc s)
  obtain c t where t: "getcode s = Some (c, t)" "rsafe t" "c = -1 \<or> 0 \<le> c \<and> c < 2 ^ maxbits s"
    using getcode_safe [OF 1(3)] by blast
  have fr: "stack t = []" "zphase t = S_MIDDLE" "maxbits t = maxbits s" using getcode_frame [OF t(1)] 1(4,5) by simp_all
  note unf = zread_loop.simps [of count acc s]
  consider "c = -1" | "c \<noteq> -1" "c = CLEAR \<and> block_compress t \<noteq> 0" | "c \<noteq> -1" "\<not> (c = CLEAR \<and> block_compress t \<noteq> 0)" by blast
  then show ?case
  proof cases
    case 1
    then show ?thesis using t(1) by (simp add: unf between_def)
  next
    case 2
    have "delivers (zread_loop count acc (t\<lparr>codetab := clear_prefix 256 (codetab t), clear_flg := 1, free_ent := FIRST, oldcode := -1\<rparr>))"
      by (rule 1(1) [OF t(1) refl 2]) (simp_all add: rsafe_clear t(2) fr)
    then show ?thesis using t(1) 2 by (simp add: unf)
  next
    case 3
    consider "expand_code c t = Inl ()"
      | f x where "expand_code c t = Inr (Some (t\<lparr>incode := c, finchar := f, stack := x\<rparr>))" "x \<noteq> []" "c \<le> free_ent t" "c = free_ent t \<longrightarrow> oldcode t \<noteq> -1"
      using expand_safe [OF t(2) fr(1), of c] by blast
    then show ?thesis
    proof cases
      case 1
      then show ?thesis using t(1) 3 by (auto simp: unf)
    next
      case (2 f x)
      let ?t = "t\<lparr>incode := c, finchar := f, stack := x\<rparr>"
      have b: "between (?t\<lparr>stack := y\<rparr>)" if "y \<noteq> []" for y using that t 2 3(1) fr by (simp add: between_def)
      show ?thesis
      proof (cases "count < length x")
        case True
        then show ?thesis using t(1) 3 2(1) drain_eq [OF 2(2), of count] b by (auto simp: unf)
      next
        case False
        let ?u = "new_entry (?t\<lparr>stack := []\<rparr>)"
        have dr: "(False, x, [], count - length x) = drain count (stack ?t)" using False drain_eq [OF 2(2), of count] by simp
        have "rsafe ?u" using t 2(3,4) 3(1) fr by (intro new_entry_safe) simp_all
        moreover have "stack ?u = []" "zphase ?u = S_MIDDLE" using fr by (simp_all add: new_entry_def)
        ultimately have "delivers (zread_loop (count - length x) (acc @ x) ?u)"
          by (intro 1(2) [OF t(1) refl 3 2(1) refl dr refl refl refl])
        then show ?thesis using t(1) 3 2(1) False drain_eq [OF 2(2), of count] by (auto simp: unf)
      qed
    qed
  qed
qed

lemma zread_safe: "between s \<Longrightarrow> delivers (zread n s)"
proof -
  assume s: "between s"
  show ?thesis
  proof (cases "n = 0 \<or> zphase s = S_EOF")
    case True
    then show ?thesis using s by (auto simp: zread_def between_def)
  next
    case False
    then have m: "zphase s = S_MIDDLE" "stack s \<noteq> []" "rsafe s" using s by (auto simp: between_def)
    note dr = drain_eq [OF m(2), of n]
    let ?u = "new_entry (s\<lparr>stack := []\<rparr>)"
    have "rsafe ?u" using s m(3) False by (intro new_entry_safe) (auto simp: between_def)
    then have "delivers (zread_loop k acc ?u)" for k acc
      using m(1) by (intro zread_loop_safe) (simp_all add: new_entry_def)
    moreover have "between (s\<lparr>stack := drop n (stack s)\<rparr>)" if "n < length (stack s)"
      using that s False by (auto simp: between_def)
    ultimately show ?thesis using False m dr by (simp add: zread_def)
  qed
qed

text \<open>The results of a sequence of reads that stops at the first one that fails, as decompress does: it
  leaves its loop when fread returns nothing.\<close>

fun read_results :: "nat list \<Rightarrow> zstate \<Rightarrow> zres list" where
  "read_results [] s = []"
| "read_results (n # ns) s = zread n s # (case zread n s of ZData bs t \<Rightarrow> read_results ns t | _ \<Rightarrow> [])"

lemma read_results_between: "between s \<Longrightarrow> ZUndefined \<notin> set (read_results ns s)"
proof (induction ns arbitrary: s)
  case (Cons n ns)
  then show ?case using zread_safe [OF Cons.prems, of n] by (cases "zread n s") auto
qed simp

subsection \<open>From the start of a file\<close>

text \<open>The buffer after the first refill: the ninth bit of the file is the high bit of its first code.\<close>

lemma first_code_char:
  assumes "length b = 16" "\<not> bit (b ! 1) 0"
  shows "0 \<le> get_code 9 0 b" "get_code 9 0 b < 256"
proof -
  have g: "bit (get_code 9 0 b) k \<longleftrightarrow> k < 9 \<and> buf_bit b k" for k using get_code_bit [of 9 0 b k] assms(1) by simp
  have "\<not> bit (get_code 9 0 b) 8" using assms(2) by (simp add: g buf_bit_def)
  then have "bit (get_code 9 0 b) k \<Longrightarrow> k < 8" for k using g [of k] by (cases "k = 8") auto
  then have "take_bit 8 (get_code 9 0 b) = get_code 9 0 b" by (intro bit_eqI) (auto simp: bit_take_bit_iff)
  then show "0 \<le> get_code 9 0 b" "get_code 9 0 b < 256"
    using take_bit_nonnegative [of 8 "get_code 9 0 b"] take_bit_int_less_exp [of 8 "get_code 9 0 b"] by simp_all
qed

lemma zread_start_safe:
  assumes s: "zopen f CHR ''r'' bits = Some s" and f: "3 < length f" "length f = 4 \<or> \<not> bit (f ! 4) 0" and n: "0 < n"
  shows "delivers (zread n s)"
proof -
  have i: "zfile s = f" "zphase s = S_START" "gbuf s = replicate 16 0" "roffset s = 0" "zsize s = 0" "clear_flg s = 0" "oldcode s = 0" "codetab s = (\<lambda>_. 0)"
    using s by (auto simp: zopen_def Let_def BITS_def split: if_splits)
  define mb where "mb = nat (uint (f ! 2) AND BIT_MASK)"
  define blk where "blk = uint (f ! 2) AND BLOCK_MASK"
  define s1 where "s1 = s\<lparr>zphase := S_MIDDLE, zfile := drop 3 f, block_compress := blk, maxbits := mb, maxmaxcode := push_bit mb 1,
     n_bits := INIT_BITS, maxcode := MAXCODE INIT_BITS, codetab := clear_prefix 256 (codetab s),
     tab_suffix := init_suffix 256 (tab_suffix s), free_ent := (if blk \<noteq> 0 then FIRST else 256)\<rparr>"
  have z: "zread n s = (if take 2 (take 3 f) \<noteq> magic_header then ZError EFTYPE (s\<lparr>zphase := S_MIDDLE, zfile := drop 3 f\<rparr>)
      else if mb > BITS \<or> mb < 12 then ZError EFTYPE (s\<lparr>zphase := S_MIDDLE, zfile := drop 3 f, block_compress := blk, maxbits := mb, maxmaxcode := push_bit mb 1\<rparr>)
      else case getcode s1 of None \<Rightarrow> ZUndefined
      | Some (cd, s3) \<Rightarrow> let s4 = s3\<lparr>finchar := cd, oldcode := cd\<rparr> in
          if cd = -1 then ZData [] s4 else zread_loop (n - 1) [word_of_int cd] (s4\<lparr>stack := []\<rparr>))"
    using i(1,2) n f(1) by (simp add: zread_def zread_start_def Let_def s1_def mb_def blk_def)
  show ?thesis
  proof (cases "take 2 (take 3 f) \<noteq> magic_header \<or> mb > BITS \<or> mb < 12")
    case True
    then show ?thesis by (auto simp: z)
  next
    case False
    then have mb: "bits_ok mb" by (simp add: bits_ok_def)
    have "(2::int) ^ 12 \<le> 2 ^ mb" using mb by (intro power_increasing) (auto simp: bits_ok_def)
    then have r1: "rsafe s1"
      using mb i by (auto simp: rsafe_def s1_def push_bit_eq_mult mcode_def bits_ok_def INIT_BITS_def FIRST_def clear_prefix_eq)
    let ?bs = "take 9 (drop 3 f)"
    define g where "g = ?bs @ drop (length ?bs) (replicate 16 0)"
    have "length g = 16" by (simp add: g_def)
    moreover have "\<not> bit (g ! 1) 0"
      using f by (cases "length f = 4") (auto simp: g_def nth_append)
    ultimately have c: "0 \<le> get_code 9 0 g" "get_code 9 0 g < 256" by (rule first_code_char)+
    obtain c t where t: "getcode s1 = Some (c, t)" "rsafe t" using getcode_safe [OF r1] by blast
    have p: "zfile s1 = drop 3 f" "roffset s1 = 0" "zsize s1 = 0" "clear_flg s1 = 0" "n_bits s1 = 9" "gbuf s1 = replicate 16 0"
      using i by (simp_all add: s1_def INIT_BITS_def)
    have q: "\<not> free_ent s1 > maxcode s1" by (simp add: s1_def INIT_BITS_def MAXCODE_eq FIRST_def)
    have "c = get_code 9 0 g"
      using t(1) f(1) unfolding getcode_def Let_def if_not_P [OF q] by (simp add: p g_def)
    moreover have fr: "free_ent t \<ge> 256" "zphase t = S_MIDDLE" using t(2) getcode_frame [OF t(1)] by (auto simp: rsafe_def s1_def)
    ultimately have "rsafe (t\<lparr>finchar := c, oldcode := c, stack := []\<rparr>)" using c t(2) by (auto simp: rsafe_def)
    then have "delivers (zread_loop k acc (t\<lparr>finchar := c, oldcode := c, stack := []\<rparr>))" for k acc
      using fr(2) by (intro zread_loop_safe) simp_all
    then show ?thesis using False t(1) c \<open>c = get_code 9 0 g\<close> by (simp add: z Let_def)
  qed
qed

text \<open>
  C21. The reader stays inside its tables: for every file, whatever its bytes, that has a first code and
  whose first code is a character, and every sequence of sizes, the reads of these sizes up to and including the first one that
  fails deliver data or fail with an error; none of them runs over the output stack, pops it when it is empty, or
  leaves its tables. Nothing is said of a read after one that has failed.
\<close>

theorem zread_stays_in_tables:
  assumes "zopen f CHR ''r'' bits = Some s" "3 < length f" "length f = 4 \<or> \<not> bit (f ! 4) 0"
  shows "ZUndefined \<notin> set (read_results ns s)"
proof (induction ns)
  case (Cons n ns)
  show ?case
  proof (cases "n = 0")
    case True
    then show ?thesis using Cons by (simp add: zread_def)
  next
    case False
    then show ?thesis using zread_start_safe [OF assms, of n] read_results_between by (cases "zread n s") auto
  qed
qed simp

theorem zread_stays_in_tables_witness:
  "\<exists>s. zopen [0x1F, 0x9D, 0x90, 0x41, 0xFE, 0xFF] CHR ''r'' 0 = Some s \<and> ZUndefined \<notin> set (read_results [1, 1024, 1024] s)"
proof -
  obtain s where s: "zopen [0x1F, 0x9D, 0x90, 0x41, 0xFE, 0xFF] CHR ''r'' 0 = Some s" by (simp add: zopen_def Let_def)
  moreover have "\<not> bit (0xFE :: octet) 0" by simp
  ultimately show ?thesis using zread_stays_in_tables [of "[0x1F, 0x9D, 0x90, 0x41, 0xFE, 0xFF]" 0 s "[1, 1024, 1024]"] by simp
qed

text \<open>A read after one that has refused the header pops the empty stack.\<close>

lemma read_after_failure:
  assumes "zopen f CHR ''r'' bits = Some s" "take 2 f \<noteq> magic_header" "0 < n" "0 < m"
  shows "\<exists>t. zread n s = ZError EFTYPE t \<and> zread m t = ZUndefined"
proof -
  have "zfile s = f" "zphase s = S_START" "stack s = []"
    using assms(1) by (auto simp: zopen_def Let_def split: if_splits)
  moreover have "take 2 (take 3 f) = take 2 f" by (simp add: min_def)
  ultimately show ?thesis using assms(2-4) by (simp add: zread_def zread_start_def Let_def)
qed

end
