(* ===== verification/Tsort.thy ===== *)
theory Tsort
  imports C_Stdio "HOL-Library.Multiset"
begin

text \<open>
  The model of misc_cmds/tsort/tsort.c: the graph of the input pairs, its construction, the
  removal of nodes that nothing precedes, and the depth-first search that picks a node on a
  cycle when there is none. A \<open>NODE *\<close> is a natural number, the heap maps it to the node, and
  \<open>graph\<close> is the doubly linked list of nodes as the list of its addresses, head first. The
  in-memory hash database of db(3) is a map from names to addresses, and its failures and those
  of malloc are not modelled. Counters are natural numbers and the reference count an integer;
  none of them exceeds the number of words of the input. \<open>None\<close> is the value of a call that
  writes outside a buffer, reads a cell of the cycle log that was never written, or would not
  return.
\<close>

subsection \<open>Nodes and state\<close>

datatype nflag = NF_MARK | NF_ACYCLIC | NF_NODEST

record tnode =
  n_arcs :: "nat list"
  n_arcsize :: nat
  n_refcnt :: int
  n_flags :: "nflag set"
  n_name :: string

datatype tline = Line string | Trace nat string string nat

record topts =
  t_debug :: bool
  t_longest :: bool
  t_quiet :: bool

record tstate =
  t_heap :: "nat \<Rightarrow> tnode"
  t_brk :: nat
  t_graph :: "nat list"
  t_db :: "string \<Rightarrow> nat option"
  t_cycle_buf :: "nat option list"
  t_longest_cycle :: "nat option list"
  t_out :: "tline list"
  t_err :: "string list"

definition new_node :: "string \<Rightarrow> tnode" where
  "new_node name = \<lparr>n_arcs = [], n_arcsize = 0, n_refcnt = 0, n_flags = {}, n_name = name\<rparr>"

definition tstart :: tstate where
  "tstart = \<lparr>t_heap = (\<lambda>_. new_node []), t_brk = 0, t_graph = [], t_db = Map.empty,
     t_cycle_buf = [], t_longest_cycle = [], t_out = [], t_err = []\<rparr>"

text \<open>A store through a node pointer.\<close>

definition upd_node :: "nat \<Rightarrow> (tnode \<Rightarrow> tnode) \<Rightarrow> tstate \<Rightarrow> tstate" where
  "upd_node n f s = s\<lparr>t_heap := (t_heap s)(n := f (t_heap s n))\<rparr>"

definition set_flag :: "nat \<Rightarrow> nflag \<Rightarrow> tstate \<Rightarrow> tstate" where
  "set_flag n x = upd_node n (\<lambda>v. v\<lparr>n_flags := insert x (n_flags v)\<rparr>)"

definition clr_flag :: "nat \<Rightarrow> nflag \<Rightarrow> tstate \<Rightarrow> tstate" where
  "clr_flag n x = upd_node n (\<lambda>v. v\<lparr>n_flags := n_flags v - {x}\<rparr>)"

subsection \<open>Building the graph\<close>

definition get_node :: "string \<Rightarrow> tstate \<Rightarrow> nat \<times> tstate" where
  "get_node name s = (case t_db s name of
     Some n \<Rightarrow> (n, s)
   | None \<Rightarrow> let n = t_brk s in
       (n, s\<lparr>t_heap := (t_heap s)(n := new_node name), t_brk := n + 1,
             t_graph := n # t_graph s, t_db := (t_db s)(name \<mapsto> n)\<rparr>))"

definition grow_arcs :: "tnode \<Rightarrow> tnode" where
  "grow_arcs v = (if length (n_arcs v) = n_arcsize v
     then v\<lparr>n_arcsize := (let a = (if n_arcsize v = 0 then 10 else n_arcsize v) in (a * 8 * 2) div 8)\<rparr>
     else v)"

definition add_arc :: "string \<Rightarrow> string \<Rightarrow> tstate \<Rightarrow> tstate option" where
  "add_arc s1 s2 s = (case get_node s1 s of (n1, s) \<Rightarrow>
     if s1 = s2 then Some s
     else case get_node s2 s of (n2, s) \<Rightarrow>
       if n2 \<in> set (n_arcs (t_heap s n1)) then Some s
       else let s = upd_node n1 grow_arcs s in
         if length (n_arcs (t_heap s n1)) < n_arcsize (t_heap s n1)
         then Some (upd_node n2 (\<lambda>v. v\<lparr>n_refcnt := n_refcnt v + 1\<rparr>)
                (upd_node n1 (\<lambda>v. v\<lparr>n_arcs := n_arcs v @ [n2]\<rparr>) s))
         else None)"

subsection \<open>Taking nodes out\<close>

fun dec_refs :: "nat list \<Rightarrow> tstate \<Rightarrow> tstate" where
  "dec_refs [] s = s"
| "dec_refs (m # ms) s = dec_refs ms (upd_node m (\<lambda>v. v\<lparr>n_refcnt := n_refcnt v - 1\<rparr>) s)"

definition remove_node :: "nat \<Rightarrow> tstate \<Rightarrow> tstate" where
  "remove_node n s =
     (let s = s\<lparr>t_out := t_out s @ [Line (n_name (t_heap s n))]\<rparr>;
          s = dec_refs (n_arcs (t_heap s n)) s;
          s = upd_node n (\<lambda>v. v\<lparr>n_arcs := []\<rparr>) s
      in s\<lparr>t_graph := remove1 n (t_graph s)\<rparr>)"

fun clear_flags :: "nat list \<Rightarrow> tstate \<Rightarrow> tstate" where
  "clear_flags [] s = s"
| "clear_flags (n # ns) s = clear_flags ns (clr_flag n NF_NODEST s)"

definition clear_cycle :: "tstate \<Rightarrow> tstate" where
  "clear_cycle s = clear_flags (t_graph s) s"

subsection \<open>The search for a cycle\<close>

text \<open>
  \<open>find_cycle\<close> has the depth of the recursion as its first number; \<open>find_arcs\<close> is its loop over
  the arcs of \<open>from\<close>. They return the value of the call and the state after it.
\<close>

definition log_arc :: "nat \<Rightarrow> nat \<Rightarrow> tstate \<Rightarrow> tstate option" where
  "log_arc d n s = (if d < length (t_cycle_buf s)
     then Some (s\<lparr>t_cycle_buf := (t_cycle_buf s)[d := Some n]\<rparr>) else None)"

definition save_cycle :: "nat \<Rightarrow> tstate \<Rightarrow> tstate option" where
  "save_cycle len s = (if len \<le> length (t_cycle_buf s) \<and> len \<le> length (t_longest_cycle s)
     then Some (s\<lparr>t_longest_cycle := take len (t_cycle_buf s) @ drop len (t_longest_cycle s)\<rparr>)
     else None)"

definition trace_call :: "topts \<Rightarrow> nat \<Rightarrow> nat \<Rightarrow> nat \<Rightarrow> nat \<Rightarrow> tstate \<Rightarrow> tstate" where
  "trace_call op d from to len s = (if t_debug op
     then s\<lparr>t_out := t_out s @ [Trace d (n_name (t_heap s from)) (n_name (t_heap s to)) len]\<rparr>
     else s)"

definition skip_node :: "nat \<Rightarrow> tstate \<Rightarrow> bool" where
  "skip_node n s \<longleftrightarrow>
     NF_NODEST \<in> n_flags (t_heap s n) \<or> NF_MARK \<in> n_flags (t_heap s n) \<or>
     NF_ACYCLIC \<in> n_flags (t_heap s n)"

fun find_cycle :: "nat \<Rightarrow> topts \<Rightarrow> nat \<Rightarrow> nat \<Rightarrow> nat \<Rightarrow> nat \<Rightarrow> tstate \<Rightarrow> (nat \<times> tstate) option"
and find_arcs :: "nat \<Rightarrow> topts \<Rightarrow> nat \<Rightarrow> nat \<Rightarrow> nat \<Rightarrow> nat \<Rightarrow> nat list \<Rightarrow> tstate \<Rightarrow>
  (nat \<times> tstate) option" where
  "find_cycle 0 op from to longest_len depth s = None"
| "find_cycle (Suc k) op from to longest_len depth s =
     (if skip_node from s then Some (0, s)
      else case find_arcs k op from to longest_len depth (n_arcs (t_heap s from))
                  (set_flag from NF_MARK s) of
        None \<Rightarrow> None
      | Some (len, s) \<Rightarrow> Some (len, clr_flag from NF_MARK s))"
| "find_arcs k op from to longest_len depth [] s = Some (longest_len, s)"
| "find_arcs k op from to longest_len depth (np # nps) s =
     (case log_arc depth np s of
        None \<Rightarrow> None
      | Some s \<Rightarrow>
          if np = to then
            (if depth + 1 > longest_len then
               (case save_cycle (depth + 1) s of
                  None \<Rightarrow> None
                | Some s \<Rightarrow> find_arcs k op from to (depth + 1) depth nps s)
             else find_arcs k op from to longest_len depth nps s)
          else if skip_node np s then find_arcs k op from to longest_len depth nps s
          else (case find_cycle k op np to longest_len (depth + 1) s of
                  None \<Rightarrow> None
                | Some (len, s) \<Rightarrow>
                    let s = trace_call op depth from to len s;
                        s = (if len = 0 then set_flag np NF_NODEST s else s);
                        longest_len = (if len > longest_len then len else longest_len)
                    in if len > 0 \<and> \<not> t_longest op then Some (longest_len, s)
                       else find_arcs k op from to longest_len depth nps s))"

subsection \<open>The sort\<close>

fun remove_pass :: "nat list \<Rightarrow> nat \<Rightarrow> tstate \<Rightarrow> nat \<times> tstate" where
  "remove_pass [] cnt s = (cnt, s)"
| "remove_pass (n # ns) cnt s =
     (if n_refcnt (t_heap s n) = 0 then remove_pass ns (cnt + 1) (remove_node n s)
      else remove_pass ns cnt s)"

lemma dec_refs_other [simp]:
  "t_graph (dec_refs ms s) = t_graph s" "t_brk (dec_refs ms s) = t_brk s"
  "t_db (dec_refs ms s) = t_db s" "t_out (dec_refs ms s) = t_out s"
  "t_err (dec_refs ms s) = t_err s" "t_cycle_buf (dec_refs ms s) = t_cycle_buf s"
  "t_longest_cycle (dec_refs ms s) = t_longest_cycle s"
  by (induction ms arbitrary: s) (simp_all add: upd_node_def)

lemma remove_node_graph [simp]: "t_graph (remove_node n s) = remove1 n (t_graph s)"
  by (simp add: remove_node_def upd_node_def Let_def)

lemma remove_pass_length:
  "remove_pass ns c s = (c', s') \<Longrightarrow> mset ns \<subseteq># mset (t_graph s) \<Longrightarrow>
   length (t_graph s') + c' = length (t_graph s) + c"
proof (induction ns c s rule: remove_pass.induct)
  case (2 n ns c s)
  have n: "n \<in> set (t_graph s)" using mset_subset_eqD [OF 2(4), of n] by simp
  have sub: "mset ns \<subseteq># mset (t_graph (remove_node n s))" "mset ns \<subseteq># mset (t_graph s)"
    using 2(4) by (simp_all add: insert_subset_eq_iff) (meson diff_subset_eq_self subset_mset.order_trans)
  show ?case
  proof (cases "n_refcnt (t_heap s n) = 0")
    case True
    then have "length (t_graph s') + c' = length (t_graph (remove_node n s)) + (c + 1)"
      using 2(1,3) sub by simp
    with n show ?thesis by (simp add: length_remove1 Suc_diff_Suc) (metis Suc_pred length_pos_if_in_set)
  next
    case False
    with 2(2,3) sub show ?thesis by simp
  qed
qed simp

function simple_cases :: "tstate \<Rightarrow> tstate" where
  "simple_cases s = (case remove_pass (t_graph s) 0 s of
     (cnt, s') \<Rightarrow> if t_graph s' \<noteq> [] \<and> cnt \<noteq> 0 then simple_cases s' else s')"
  by pat_completeness auto
termination
  by (relation "measure (\<lambda>s. length (t_graph s))") (auto dest!: remove_pass_length [OF sym])

declare simple_cases.simps [simp del]


definition alloc_logs :: "tstate \<Rightarrow> tstate" where
  "alloc_logs s = (if t_cycle_buf s = [] then
     s\<lparr>t_cycle_buf := replicate (length (t_graph s)) None,
       t_longest_cycle := replicate (length (t_graph s)) None\<rparr> else s)"

text \<open>The report of a cycle: one line for each of the first \<open>cnt\<close> cells of the longest cycle.\<close>

fun warn_nodes :: "nat option list \<Rightarrow> tstate \<Rightarrow> tstate option" where
  "warn_nodes [] s = Some s"
| "warn_nodes (None # cs) s = None"
| "warn_nodes (Some n # cs) s = warn_nodes cs (s\<lparr>t_err := t_err s @ [n_name (t_heap s n)]\<rparr>)"

definition report_cycle :: "topts \<Rightarrow> nat \<Rightarrow> tstate \<Rightarrow> tstate option" where
  "report_cycle op cnt s = (if t_quiet op then Some s
     else if cnt \<le> length (t_longest_cycle s)
     then warn_nodes (take cnt (t_longest_cycle s)) (s\<lparr>t_err := t_err s @ [''cycle in data'']\<rparr>)
     else None)"

text \<open>
  The loop that looks for a node on a cycle; its flag says whether it left the loop with a
  node. The search from a node goes no deeper than the number of nodes.
\<close>

fun search_cycle :: "topts \<Rightarrow> nat list \<Rightarrow> tstate \<Rightarrow> (bool \<times> tstate) option" where
  "search_cycle op [] s = Some (False, s)"
| "search_cycle op (n # ns) s =
     (if NF_ACYCLIC \<in> n_flags (t_heap s n) then search_cycle op ns s
      else case find_cycle (t_brk s + 1) op n n 0 0 s of
        None \<Rightarrow> None
      | Some (cnt, s) \<Rightarrow>
          if cnt \<noteq> 0 then
            (case report_cycle op cnt s of
               None \<Rightarrow> None
             | Some s \<Rightarrow> Some (True, clear_cycle (remove_node n s)))
          else search_cycle op ns (clear_cycle (set_flag n NF_ACYCLIC s)))"

subsubsection \<open>The graph during the search\<close>

lemma set_flag_graph [simp]: "t_graph (set_flag n x s) = t_graph s" "t_graph (clr_flag n x s) = t_graph s"
  by (simp_all add: set_flag_def clr_flag_def upd_node_def)

lemma clear_flags_graph [simp]: "t_graph (clear_flags ns s) = t_graph s"
  by (induction ns arbitrary: s) simp_all

lemma clear_cycle_graph [simp]: "t_graph (clear_cycle s) = t_graph s"
  by (simp add: clear_cycle_def)

lemma trace_call_graph [simp]: "t_graph (trace_call op d a b l s) = t_graph s"
  by (simp add: trace_call_def)

lemma log_arc_graph: "log_arc d n s = Some s' \<Longrightarrow> t_graph s' = t_graph s"
  by (auto simp: log_arc_def split: if_splits)

lemma save_cycle_graph: "save_cycle l s = Some s' \<Longrightarrow> t_graph s' = t_graph s"
  by (auto simp: save_cycle_def split: if_splits)

lemma find_arcs_hit:
  assumes "log_arc d np s = Some s1" "np = to" "d + 1 > l"
  shows "find_arcs k op a to l d (np # nps) s =
    (case save_cycle (d + 1) s1 of None \<Rightarrow> None | Some s2 \<Rightarrow> find_arcs k op a to (d + 1) d nps s2)"
  using assms by (simp only: find_arcs.simps(2) option.simps if_True refl)

lemma find_arcs_short:
  assumes "log_arc d np s = Some s1" "np = to" "\<not> d + 1 > l"
  shows "find_arcs k op a to l d (np # nps) s = find_arcs k op a to l d nps s1"
  using assms by (simp only: find_arcs.simps(2) option.simps if_True if_False refl)

lemma find_arcs_skip:
  assumes "log_arc d np s = Some s1" "np \<noteq> to" "skip_node np s1"
  shows "find_arcs k op a to l d (np # nps) s = find_arcs k op a to l d nps s1"
  using assms by (simp only: find_arcs.simps(2) option.simps if_True if_False refl)

definition after_call :: "topts \<Rightarrow> nat \<Rightarrow> nat \<Rightarrow> nat \<Rightarrow> nat \<Rightarrow> nat \<Rightarrow> tstate \<Rightarrow> tstate" where
  "after_call op d from to np len s =
     (let s = trace_call op d from to len s in if len = 0 then set_flag np NF_NODEST s else s)"

lemma find_arcs_deep:
  assumes "log_arc d np s = Some s1" "np \<noteq> to" "\<not> skip_node np s1"
  shows "find_arcs k op a to l d (np # nps) s =
    (case find_cycle k op np to l (d + 1) s1 of
       None \<Rightarrow> None
     | Some (m, s2) \<Rightarrow> if m > 0 \<and> \<not> t_longest op then Some (max l m, after_call op d a to np m s2)
                      else find_arcs k op a to (max l m) d nps (after_call op d a to np m s2))"
proof -
  have "(if m > l then m else l) = max l m" for m :: nat by simp
  then show ?thesis
    using assms by (simp only: find_arcs.simps(2) option.simps if_False refl after_call_def Let_def)
qed

lemma after_call_graph [simp]: "t_graph (after_call op d a b y m s) = t_graph s"
  by (simp add: after_call_def Let_def)

lemma find_graph:
  "find_cycle k op a b l d s = Some (len, s') \<Longrightarrow> t_graph s' = t_graph s"
  "find_arcs k op a b l d ys s = Some (len, s') \<Longrightarrow> t_graph s' = t_graph s"
proof (induction k op a b l d s and k op a b l d ys s arbitrary: len s' and len s'
    rule: find_cycle_find_arcs.induct)
  case (4 k op a b l d y ys s)
  obtain s1 where s1: "log_arc d y s = Some s1" using 4(6) by (cases "log_arc d y s") simp_all
  note g1 = log_arc_graph [OF s1]
  consider (hit) "y = b" "d + 1 > l" | (short) "y = b" "\<not> d + 1 > l" | (skip) "y \<noteq> b" "skip_node y s1"
    | (deep) "y \<noteq> b" "\<not> skip_node y s1" by blast
  then show ?case
  proof cases
    case hit
    from 4(6) obtain s2 where s2: "save_cycle (d + 1) s1 = Some s2" and f: "find_arcs k op a b (d + 1) d ys s2 = Some (len, s')"
      unfolding find_arcs_hit [OF s1 hit] by (cases "save_cycle (d + 1) s1") auto
    from 4(1) [OF s1 hit s2 f] g1 save_cycle_graph [OF s2] show ?thesis by simp
  next
    case short
    from 4(2) [OF s1 short 4(6) [unfolded find_arcs_short [OF s1 short]]] g1 show ?thesis by simp
  next
    case skip
    from 4(3) [OF s1 skip 4(6) [unfolded find_arcs_skip [OF s1 skip]]] g1 show ?thesis by simp
  next
    case deep
    from 4(6) obtain m s2 where s2: "find_cycle k op y b l (d + 1) s1 = Some (m, s2)"
      and f: "(if m > 0 \<and> \<not> t_longest op then Some (max l m, after_call op d a b y m s2)
        else find_arcs k op a b (max l m) d ys (after_call op d a b y m s2)) = Some (len, s')"
      unfolding find_arcs_deep [OF s1 deep] by (cases "find_cycle k op y b l (d + 1) s1") auto
    note g2 = 4(4) [OF s1 deep s2]
    show ?thesis
    proof (cases "m > 0 \<and> \<not> t_longest op")
      case True
      with f g1 g2 show ?thesis by auto
    next
      case False
      note e = 4(5) [OF s1 deep s2 refl refl refl refl False]
      have "(if l < m then m else l) = max l m" by simp
      with e [of len s'] f False g1 g2 show ?thesis by (simp add: after_call_def Let_def split: if_splits)
    qed
  qed
qed (auto split: if_splits option.splits prod.splits)

lemma warn_nodes_graph: "warn_nodes cs s = Some s' \<Longrightarrow> t_graph s' = t_graph s"
  by (induction cs s rule: warn_nodes.induct) auto

lemma report_cycle_graph: "report_cycle op cnt s = Some s' \<Longrightarrow> t_graph s' = t_graph s"
  by (auto simp: report_cycle_def dest: warn_nodes_graph split: if_splits)

lemma search_cycle_graph:
  "search_cycle op ns s = Some (found, s') \<Longrightarrow> set ns \<subseteq> set (t_graph s) \<Longrightarrow>
   found \<Longrightarrow> length (t_graph s') < length (t_graph s)"
proof (induction op ns s rule: search_cycle.induct)
  case (2 op n ns s)
  then have "t_graph s \<noteq> []" by auto
  with 2 show ?case
    by (auto dest!: find_graph report_cycle_graph simp: length_remove1 Suc_le_eq
        split: if_splits option.splits prod.splits)
qed simp

lemma simple_cases_length: "length (t_graph (simple_cases s)) \<le> length (t_graph s)"
proof (induction s rule: simple_cases.induct)
  case (1 s)
  obtain c s' where p: "remove_pass (t_graph s) 0 s = (c, s')" by (cases "remove_pass (t_graph s) 0 s")
  have "length (t_graph s') + c = length (t_graph s)" using remove_pass_length [OF p] by simp
  moreover have "t_graph s' \<noteq> [] \<and> c \<noteq> 0 \<Longrightarrow> length (t_graph (simple_cases s')) \<le> length (t_graph s')"
    using 1 [OF p [symmetric]] by simp
  ultimately show ?case by (subst simple_cases.simps) (auto simp: p)
qed

function tsort :: "topts \<Rightarrow> tstate \<Rightarrow> (string option \<times> tstate) option" where
  "tsort op s =
     (if t_graph s = [] then Some (None, s)
      else let s1 = simple_cases s in
        if t_graph s1 = [] then Some (None, s1)
        else case search_cycle op (t_graph s1) (alloc_logs s1) of
          None \<Rightarrow> None
        | Some (found, s2) \<Rightarrow>
            if found then tsort op s2
            else Some (Some ''internal error -- could not find cycle'', s2))"
  by pat_completeness auto
termination
proof (relation "measure (\<lambda>(op, s). length (t_graph s))")
  fix op s s1 r found s2
  assume "s1 = simple_cases s" "search_cycle op (t_graph s1) (alloc_logs s1) = Some r"
    "(found, s2) = r" "found"
  moreover have "t_graph (alloc_logs s1) = t_graph s1" by (simp add: alloc_logs_def)
  ultimately have "length (t_graph s2) < length (t_graph s1)"
    using search_cycle_graph [of op "t_graph s1" "alloc_logs s1" found s2] by auto
  with \<open>s1 = _\<close> simple_cases_length [of s]
  show "((op, s2), op, s) \<in> measure (\<lambda>(op, s). length (t_graph s))" by simp
qed simp

declare tsort.simps [simp del]

subsection \<open>Reading the pairs\<close>

text \<open>
  The loop that reads a word into a buffer of \<open>bsize\<close> bytes, which doubles whenever it is full:
  it returns the word, the size of the buffer then and the rest of the input.
\<close>

fun read_word :: "nat \<Rightarrow> string \<Rightarrow> string \<Rightarrow> (string \<times> nat \<times> string) option" where
  "read_word bsize buf [] = (if length buf < bsize then Some (buf, bsize, []) else None)"
| "read_word bsize buf (c # cs) =
     (if length buf \<ge> bsize then None
      else let buf = buf @ [c];
               bsize = (if length buf = bsize then bsize * 2 else bsize)
           in if cs = [] \<or> isspace (hd cs)
              then (if length buf < bsize then Some (buf, bsize, cs) else None)
              else read_word bsize buf cs)"

lemma read_word_exact:
  "read_word b buf (c # cs) = Some (w, b', r) \<Longrightarrow>
   w = buf @ c # takeWhile (\<lambda>x. \<not> isspace x) cs \<and> r = dropWhile (\<lambda>x. \<not> isspace x) cs \<and> length w < b'"
proof (induction cs arbitrary: b buf c)
  case (Cons x cs)
  show ?case
  proof (cases "isspace x")
    case True
    with Cons(2) show ?thesis by (auto simp: Let_def split: if_splits)
  next
    case False
    with Cons(2) have "read_word (if length (buf @ [c]) = b then b * 2 else b) (buf @ [c]) (x # cs) = Some (w, b', r)"
      by (simp only: read_word.simps(2) [of b buf c]) (auto simp: Let_def split: if_splits)
    from Cons(1) [OF this] False show ?thesis by auto
  qed
qed (auto simp: Let_def split: if_splits)

lemma read_word_less: "read_word b [] (c # cs) = Some (w, b', r) \<Longrightarrow> length r \<le> length cs"
  using read_word_exact [of b "[]" c cs w b' r] by (simp add: length_dropWhile_le)

function read_pairs :: "nat \<times> nat \<Rightarrow> string option \<Rightarrow> string \<Rightarrow> tstate \<Rightarrow> (bool \<times> tstate) option" where
  "read_pairs (b0, b1) first inp s = (case dropWhile isspace inp of
     [] \<Rightarrow> Some (first \<noteq> None, s)
   | c # cs \<Rightarrow>
       (case first of
          None \<Rightarrow> (case read_word b0 [] (c # cs) of
              None \<Rightarrow> None
            | Some (w, b0', r) \<Rightarrow> read_pairs (b0', b1) (Some w) r s)
        | Some w0 \<Rightarrow> (case read_word b1 [] (c # cs) of
              None \<Rightarrow> None
            | Some (w, b1', r) \<Rightarrow>
                (case add_arc (cstr w0) (cstr w) s of
                   None \<Rightarrow> None
                 | Some s' \<Rightarrow> read_pairs (b0, b1') None r s'))))"
  by pat_completeness auto
termination
proof (relation "measure (\<lambda>(bs, first, inp, s). length inp)", goal_cases)
  case (2 b0 b1 first inp s c cs x w y b0' r)
  then have "read_word b0 [] (c # cs) = Some (w, b0', r)" by (simp del: read_word.simps)
  from read_word_less [OF this] 2(1) length_dropWhile_le [of isspace inp] show ?case by simp
next
  case (3 b0 b1 first inp s c cs w0 x w y b1' r s')
  then have "read_word b1 [] (c # cs) = Some (w, b1', r)" by (simp del: read_word.simps)
  from read_word_less [OF this] 3(1) length_dropWhile_le [of isspace inp] show ?case by simp
qed simp

declare read_pairs.simps [simp del]

text \<open>
  The main program after its options, on the bytes of the file: \<open>Some (None, s)\<close> is exit status
  0 and \<open>Some (Some msg, s)\<close> the end in errx with that message.
\<close>

definition tsort_main :: "topts \<Rightarrow> string \<Rightarrow> (string option \<times> tstate) option" where
  "tsort_main op inp = (case read_pairs (1024, 1024) None inp tstart of
     None \<Rightarrow> None
   | Some (unpaired, s) \<Rightarrow> if unpaired then Some (Some ''odd data count'', s) else tsort op s)"

end
