(* ===== verification/Tsort_Cycle.thy ===== *)
theory Tsort_Cycle
  imports Tsort
begin

text \<open>
  The depth-first search of tsort: it always returns, keeps within the cycle logs, finds a
  cycle through its start node exactly when there is one, and leaves that cycle in the log.
  \<open>static\<close> is the part of the state that the search does not change.
\<close>

subsection \<open>What the search changes\<close>

definition arcs :: "tstate \<Rightarrow> nat \<Rightarrow> nat list" where "arcs s n = n_arcs (t_heap s n)"

definition flagged :: "nflag \<Rightarrow> tstate \<Rightarrow> nat set" where
  "flagged x s = {n. x \<in> n_flags (t_heap s n)}"

abbreviation marked :: "tstate \<Rightarrow> nat set" where "marked \<equiv> flagged NF_MARK"
abbreviation nodest :: "tstate \<Rightarrow> nat set" where "nodest \<equiv> flagged NF_NODEST"
abbreviation acyc :: "tstate \<Rightarrow> nat set" where "acyc \<equiv> flagged NF_ACYCLIC"

definition is_line :: "tline \<Rightarrow> bool" where
  "is_line t = (case t of Line _ \<Rightarrow> True | Trace _ _ _ _ \<Rightarrow> False)"

definition static :: "tstate \<Rightarrow> tstate" where
  "static s = s\<lparr>t_heap := (\<lambda>n. (t_heap s n)\<lparr>n_flags := n_flags (t_heap s n) \<inter> {NF_ACYCLIC}\<rparr>),
     t_cycle_buf := replicate (length (t_cycle_buf s)) None,
     t_longest_cycle := replicate (length (t_longest_cycle s)) None,
     t_out := filter is_line (t_out s)\<rparr>"

lemma static_sel [simp]:
  "t_graph (static s) = t_graph s" "t_brk (static s) = t_brk s" "t_db (static s) = t_db s"
  "t_err (static s) = t_err s" "t_out (static s) = filter is_line (t_out s)"
  "length (t_cycle_buf (static s)) = length (t_cycle_buf s)"
  "length (t_longest_cycle (static s)) = length (t_longest_cycle s)"
  "n_arcs (t_heap (static s) n) = n_arcs (t_heap s n)" "n_name (t_heap (static s) n) = n_name (t_heap s n)"
  "n_refcnt (t_heap (static s) n) = n_refcnt (t_heap s n)"
  "n_arcsize (t_heap (static s) n) = n_arcsize (t_heap s n)"
  "NF_ACYCLIC \<in> n_flags (t_heap (static s) n) \<longleftrightarrow> NF_ACYCLIC \<in> n_flags (t_heap s n)"
  by (simp_all add: static_def)

lemma static_same:
  assumes "static s' = static s"
  shows "t_graph s' = t_graph s" "t_brk s' = t_brk s" "t_db s' = t_db s" "t_err s' = t_err s"
    "filter is_line (t_out s') = filter is_line (t_out s)"
    "length (t_cycle_buf s') = length (t_cycle_buf s)"
    "length (t_longest_cycle s') = length (t_longest_cycle s)"
    "arcs s' n = arcs s n" "n_name (t_heap s' n) = n_name (t_heap s n)"
    "n_refcnt (t_heap s' n) = n_refcnt (t_heap s n)" "acyc s' = acyc s"
  using static_sel(1-7) [of s'] static_sel(1-7) [of s] static_sel(8-10) [of s' n] static_sel(8-10) [of s n]
    static_sel(12) [of s'] static_sel(12) [of s]
  by (simp_all add: assms arcs_def flagged_def)

lemma static_upd:
  assumes "n_flags (f (t_heap s n)) \<inter> {NF_ACYCLIC} = n_flags (t_heap s n) \<inter> {NF_ACYCLIC}"
    and "\<And>v F. (f v)\<lparr>n_flags := F\<rparr> = v\<lparr>n_flags := F\<rparr>"
  shows "static (upd_node n f s) = static s"
proof -
  have "(\<lambda>m. (t_heap (upd_node n f s) m)\<lparr>n_flags := n_flags (t_heap (upd_node n f s) m) \<inter> {NF_ACYCLIC}\<rparr>) =
      (\<lambda>m. (t_heap s m)\<lparr>n_flags := n_flags (t_heap s m) \<inter> {NF_ACYCLIC}\<rparr>)"
    using assms by (simp add: upd_node_def fun_eq_iff)
  then show ?thesis by (simp add: static_def upd_node_def)
qed

lemma static_flag [simp]:
  "x \<noteq> NF_ACYCLIC \<Longrightarrow> static (set_flag n x s) = static s"
  "x \<noteq> NF_ACYCLIC \<Longrightarrow> static (clr_flag n x s) = static s"
  unfolding set_flag_def clr_flag_def by (rule static_upd; auto)+

lemma static_trace [simp]: "static (trace_call op d a b m s) = static s"
  by (simp add: trace_call_def static_def is_line_def)

lemma flagged_set [simp]: "flagged x (set_flag n y s) = (if x = y then insert n (flagged x s) else flagged x s)"
  "flagged x (clr_flag n y s) = (if x = y then flagged x s - {n} else flagged x s)"
  by (auto simp: flagged_def set_flag_def clr_flag_def upd_node_def)

lemma flagged_trace [simp]: "flagged x (trace_call op d a b m s) = flagged x s"
  by (simp add: flagged_def trace_call_def)

lemma logs_flag [simp]:
  "t_cycle_buf (set_flag n x s) = t_cycle_buf s" "t_longest_cycle (set_flag n x s) = t_longest_cycle s"
  "t_cycle_buf (clr_flag n x s) = t_cycle_buf s" "t_longest_cycle (clr_flag n x s) = t_longest_cycle s"
  "t_cycle_buf (trace_call op d a b m s) = t_cycle_buf s"
  "t_longest_cycle (trace_call op d a b m s) = t_longest_cycle s"
  by (simp_all add: set_flag_def clr_flag_def upd_node_def trace_call_def)

lemma skip_node_iff: "skip_node n s \<longleftrightarrow> n \<in> nodest s \<union> marked s \<union> acyc s"
  by (simp add: skip_node_def flagged_def)

lemma log_arc_ok:
  assumes "d < length (t_cycle_buf s)"
  obtains s1 where "log_arc d n s = Some s1" "static s1 = static s" "flagged x s1 = flagged x s"
    "\<And>x. flagged x s1 = flagged x s"
    "t_cycle_buf s1 = (t_cycle_buf s)[d := Some n]" "t_longest_cycle s1 = t_longest_cycle s"
  using assms that [of "s\<lparr>t_cycle_buf := (t_cycle_buf s)[d := Some n]\<rparr>"]
  by (simp add: log_arc_def static_def flagged_def)

lemma save_cycle_ok:
  assumes "len \<le> length (t_cycle_buf s)" "len \<le> length (t_longest_cycle s)"
  obtains s1 where "save_cycle len s = Some s1" "static s1 = static s" "\<And>x. flagged x s1 = flagged x s"
    "t_cycle_buf s1 = t_cycle_buf s" "take len (t_longest_cycle s1) = take len (t_cycle_buf s)"
  using assms that [of "s\<lparr>t_longest_cycle := take len (t_cycle_buf s) @ drop len (t_longest_cycle s)\<rparr>"]
  by (simp add: save_cycle_def static_def flagged_def)

subsection \<open>Paths and cycles\<close>

definition arc :: "tstate \<Rightarrow> nat \<Rightarrow> nat \<Rightarrow> bool" where "arc s i j \<longleftrightarrow> j \<in> set (arcs s i)"

lemma arc_static:
  assumes "static s' = static s" shows "arc s' = arc s"
  unfolding arc_def static_same(8) [OF assms] ..

text \<open>A cycle through \<open>to\<close>, without its first node: each node has an arc to the next.\<close>

definition is_cycle :: "tstate \<Rightarrow> nat \<Rightarrow> nat list \<Rightarrow> bool" where
  "is_cycle s to c \<longleftrightarrow> c \<noteq> [] \<and> last c = to \<and> distinct c \<and> successively (arc s) (to # c)"

definition saved :: "nat \<Rightarrow> nat \<Rightarrow> tstate \<Rightarrow> bool" where
  "saved to l s \<longleftrightarrow> l = 0 \<or>
     (\<exists>c. length c = l \<and> take l (t_longest_cycle s) = map Some c \<and> is_cycle s to c)"

text \<open>The path of the search, from \<open>to\<close> to the node it is at, as the log has it.\<close>

definition on_path :: "nat \<Rightarrow> nat list \<Rightarrow> tstate \<Rightarrow> bool" where
  "on_path to q s \<longleftrightarrow> q \<noteq> [] \<and> hd q = to \<and> distinct q \<and> successively (arc s) q \<and>
     take (length q - 1) (t_cycle_buf s) = map Some (tl q)"

definition search_ok :: "tstate \<Rightarrow> bool" where
  "search_ok s \<longleftrightarrow> (\<forall>n. arcs s n \<noteq> [] \<longrightarrow> n \<in> set (t_graph s)) \<and>
     set (t_graph s) \<subseteq> {..<t_brk s} \<and> (\<forall>n. set (arcs s n) \<subseteq> {..<t_brk s}) \<and>
     length (t_graph s) \<le> length (t_cycle_buf s) \<and>
     length (t_longest_cycle s) = length (t_cycle_buf s)"

lemma search_ok_static:
  assumes "static s' = static s" shows "search_ok s' = search_ok s"
  unfolding search_ok_def static_same [OF assms] ..

lemma path_in_graph:
  assumes "search_ok s" "successively (arc s) q" "q \<noteq> []" "arcs s (last q) \<noteq> []"
  shows "set q \<subseteq> set (t_graph s)"
  using assms(2-4)
proof (induction q rule: induct_list012)
  case (3 x y zs)
  then have "arcs s x \<noteq> []" by (auto simp: arc_def)
  with 3 assms(1) show ?case by (auto simp: search_ok_def)
qed (use assms(1) in \<open>auto simp: search_ok_def\<close>)

lemma path_fits:
  assumes "search_ok s" "on_path to q s" "arcs s (last q) \<noteq> []"
  shows "length q \<le> length (t_cycle_buf s)"
proof -
  have "set q \<subseteq> set (t_graph s)" using path_in_graph assms by (simp add: on_path_def)
  then have "length q \<le> length (t_graph s)"
    using assms(2) card_mono [of "set (t_graph s)" "set q"] card_length [of "t_graph s"]
    by (simp add: on_path_def distinct_card)
  with assms(1) show ?thesis by (simp add: search_ok_def)
qed

text \<open>
  \<open>closed to F s\<close>: no node that was given up, and none of \<open>F\<close>, has an arc to the target, and
  their arcs lead to nodes that were given up, are on the path, are known to be free of cycles or
  are in \<open>F\<close>.
\<close>

definition closed :: "nat \<Rightarrow> nat set \<Rightarrow> tstate \<Rightarrow> bool" where
  "closed to F s \<longleftrightarrow> (\<forall>x \<in> nodest s \<union> F. \<forall>y. arc s x y \<longrightarrow>
     y \<noteq> to \<and> y \<in> nodest s \<union> marked s \<union> acyc s \<union> F)"

definition unmarked :: "tstate \<Rightarrow> nat" where "unmarked s = card ({..<t_brk s} - marked s)"

subsection \<open>The search\<close>

definition dfs_pre :: "nat \<Rightarrow> nat \<Rightarrow> nat list \<Rightarrow> nat \<Rightarrow> tstate \<Rightarrow> bool" where
  "dfs_pre k to q l s \<longleftrightarrow> search_ok s \<and> on_path to q s \<and> saved to l s \<and> unmarked s < k \<and>
     last q < t_brk s"

definition dfs_post :: "nat \<Rightarrow> nat \<Rightarrow> nat \<Rightarrow> tstate \<Rightarrow> nat \<Rightarrow> tstate \<Rightarrow> bool" where
  "dfs_post to d l s len s' \<longleftrightarrow> static s' = static s \<and> marked s' = marked s \<and>
     nodest s \<subseteq> nodest s' \<and> take d (t_cycle_buf s') = take d (t_cycle_buf s) \<and>
     l \<le> len \<and> saved to len s'"

text \<open>What the loop over a list of arcs adds: a result of 0 means that they were all given up.\<close>

definition arcs_post :: "nat \<Rightarrow> nat \<Rightarrow> nat \<Rightarrow> nat list \<Rightarrow> tstate \<Rightarrow> nat \<Rightarrow> tstate \<Rightarrow> bool" where
  "arcs_post to d l ys s len s' \<longleftrightarrow> dfs_post to d l s len s' \<and>
     (closed to {} s \<longrightarrow> len = 0 \<longrightarrow> closed to {} s' \<and>
        (\<forall>y \<in> set ys. y \<noteq> to \<and> y \<in> nodest s' \<union> marked s' \<union> acyc s'))"

lemma saved_cong:
  assumes "saved to l s" "static s' = static s" "take l (t_longest_cycle s') = take l (t_longest_cycle s)"
  shows "saved to l s'"
  using assms(1) by (simp add: saved_def is_cycle_def arc_static [OF assms(2)] assms(3))

lemma dfs_pre_post:
  assumes "dfs_pre k to q l s" "dfs_post to (length q - 1) l s l1 s1"
  shows "dfs_pre k to q l1 s1"
proof -
  have e: "static s1 = static s" using assms(2) by (simp add: dfs_post_def)
  show ?thesis
    using assms
    by (simp add: dfs_pre_def dfs_post_def on_path_def unmarked_def search_ok_static [OF e]
        arc_static [OF e] static_same [OF e])
qed

lemma arcs_post_Cons:
  assumes "arcs_post to d l [y] s l1 s1" "arcs_post to d l1 ys s1 l2 s2"
  shows "arcs_post to d l (y # ys) s l2 s2"
proof -
  have e: "static s1 = static s" "static s2 = static s1" using assms by (simp_all add: arcs_post_def dfs_post_def)
  have "dfs_post to d l s l2 s2" using assms by (auto simp: arcs_post_def dfs_post_def)
  moreover have "closed to {} s2 \<and> (\<forall>y \<in> set (y # ys). y \<noteq> to \<and> y \<in> nodest s2 \<union> marked s2 \<union> acyc s2)"
    if "closed to {} s" "l2 = 0"
  proof -
    have "l1 = 0" using assms(2) that(2) by (simp add: arcs_post_def dfs_post_def)
    then have 1: "closed to {} s1" "y \<noteq> to" "y \<in> nodest s1 \<union> marked s1 \<union> acyc s1"
      using assms(1) that(1) by (simp_all add: arcs_post_def)
    have 2: "nodest s1 \<subseteq> nodest s2" "marked s2 = marked s1" "acyc s2 = acyc s1"
      using assms(2) static_same(11) [OF e(2)] by (simp_all add: arcs_post_def dfs_post_def)
    from 1 2 assms(2) that(2) show ?thesis by (auto simp: arcs_post_def)
  qed
  ultimately show ?thesis by (simp add: arcs_post_def)
qed

lemma take_log: "d < length b \<Longrightarrow> take d b = map Some xs \<Longrightarrow> take (d + 1) (b[d := Some y]) = map Some (xs @ [y])"
  by (simp add: take_Suc_conv_app_nth)

text \<open>One arc, in the four ways the loop can treat it.\<close>

lemma hit_step:
  assumes pre: "on_path to q s" and d: "d = length q - 1" "d < length (t_cycle_buf s)" and l: "l \<le> d"
    and y: "arc s (last q) to"
    and s1: "static s1 = static s" "\<And>x. flagged x s1 = flagged x s" "t_cycle_buf s1 = (t_cycle_buf s)[d := Some to]"
    and s2: "static s2 = static s1" "\<And>x. flagged x s2 = flagged x s1" "t_cycle_buf s2 = t_cycle_buf s1"
      "take (d + 1) (t_longest_cycle s2) = take (d + 1) (t_cycle_buf s1)"
  shows "arcs_post to d l [to] s (d + 1) s2"
proof -
  have q: "q \<noteq> []" "q = to # tl q" "distinct q" "successively (arc s) q" "take d (t_cycle_buf s) = map Some (tl q)"
    using pre d by (auto simp: on_path_def)
  have log: "take (d + 1) (t_longest_cycle s2) = map Some (tl q @ [to])"
    unfolding s2(4) s1(3) using d(2) q(5) by (rule take_log)
  have "distinct (to # tl q)" using q by simp
  moreover have "successively (arc s) (q @ [to])" using q(1,4) y by (simp add: successively_append_iff)
  then have "successively (arc s) (to # tl q @ [to])" using q(2) by (metis append_Cons)
  ultimately have "is_cycle s2 to (tl q @ [to])"
    using arc_static [OF trans [OF s2(1) s1(1)]] by (simp add: is_cycle_def)
  moreover have "length (tl q @ [to]) = d + 1" using d(1) by simp
  ultimately have "saved to (d + 1) s2" using log unfolding saved_def by blast
  then show ?thesis using s1 s2 l by (simp add: arcs_post_def dfs_post_def)
qed

lemma plain_step:
  assumes "saved to l s" and s1: "static s1 = static s" "\<And>x. flagged x s1 = flagged x s"
      "t_cycle_buf s1 = (t_cycle_buf s)[d := Some y]" "t_longest_cycle s1 = t_longest_cycle s"
    and y: "y = to \<and> l > 0 \<or> y \<noteq> to \<and> skip_node y s1"
  shows "arcs_post to d l [y] s l s1"
proof -
  have "saved to l s1" using saved_cong [OF assms(1) s1(1)] s1(4) by simp
  moreover have "closed to {} s \<Longrightarrow> closed to {} s1" using s1(2) by (simp add: closed_def arc_static [OF s1(1)])
  ultimately show ?thesis using s1 y by (auto simp: arcs_post_def dfs_post_def skip_node_iff)
qed

lemma deep_step:
  assumes s1: "static s1 = static s" "\<And>x. flagged x s1 = flagged x s"
      "t_cycle_buf s1 = (t_cycle_buf s)[d := Some y]" "t_longest_cycle s1 = t_longest_cycle s"
    and y: "y \<noteq> to" and p: "dfs_post to (d + 1) l s1 m s2"
    and c: "closed to {} s1 \<Longrightarrow> m = 0 \<Longrightarrow> closed to {y} s2"
  shows "arcs_post to d l [y] s (max l m) (after_call op d a to y m s2)"
proof -
  let ?s3 = "after_call op d a to y m s2"
  have m: "max l m = m" using p by (simp add: dfs_post_def)
  have e3: "static ?s3 = static s2" by (simp add: after_call_def Let_def)
  have e: "static ?s3 = static s" using p s1 e3 by (simp add: dfs_post_def)
  have f: "marked ?s3 = marked s2" "acyc ?s3 = acyc s2" "nodest ?s3 = (if m = 0 then insert y (nodest s2) else nodest s2)"
    "t_cycle_buf ?s3 = t_cycle_buf s2" "t_longest_cycle ?s3 = t_longest_cycle s2"
    by (simp_all add: after_call_def Let_def)
  have "saved to m ?s3" using p saved_cong [OF _ e3, of to m] f by (simp add: dfs_post_def)
  moreover have "take d (t_cycle_buf s2) = take d (t_cycle_buf s)"
  proof -
    have "take (Suc d) (t_cycle_buf s2) = take (Suc d) (t_cycle_buf s1)" using p by (simp add: dfs_post_def)
    then have "take d (take (Suc d) (t_cycle_buf s2)) = take d (take (Suc d) (t_cycle_buf s1))" by simp
    then show ?thesis by (simp add: s1(3))
  qed
  ultimately have "dfs_post to d l s m ?s3" using e f p s1(2) by (auto simp: dfs_post_def)
  moreover have "closed to {} ?s3 \<and> y \<in> nodest ?s3" if "closed to {} s" "m = 0"
  proof -
    have "closed to {} s1" using that(1) s1(2) by (simp add: closed_def arc_static [OF s1(1)])
    then have "closed to {y} s2" using c that(2) by simp
    then show ?thesis using f(1-3) that(2) unfolding closed_def arc_static [OF e3] by auto
  qed
  ultimately show ?thesis using y m by (auto simp: arcs_post_def)
qed

lemma on_path_extend:
  assumes "on_path to q s" "arc s (last q) y" "y \<notin> set q" "d = length q - 1" "d < length (t_cycle_buf s)"
    and "static s1 = static s" "t_cycle_buf s1 = (t_cycle_buf s)[d := Some y]"
  shows "on_path to (q @ [y]) s1"
proof -
  have q: "q \<noteq> []" "take d (t_cycle_buf s) = map Some (tl q)" using assms(1,4) by (auto simp: on_path_def)
  have "take (length (q @ [y]) - 1) (t_cycle_buf s1) = map Some (tl (q @ [y]))"
    using take_log [OF assms(5) q(2), of y] q(1) assms(4,7) by (cases q) simp_all
  then show ?thesis
    using assms(1-3) q(1) by (simp add: on_path_def successively_append_iff arc_static [OF assms(6)])
qed

lemma unmarked_mark:
  assumes "n < t_brk s" "n \<notin> marked s" "marked s' = insert n (marked s)" "t_brk s' = t_brk s"
  shows "unmarked s' < unmarked s"
  unfolding unmarked_def assms(3,4) using assms(1,2) by (intro psubset_card_mono) auto

text \<open>
  The statement of the search: from a node that is not to be skipped it returns with enough depth
  left, with \<open>dfs_post\<close>; a result of 0 means that the node can be given up.
\<close>

lemma find_cycle_spec:
  "dfs_pre k to q l s \<Longrightarrow> marked s = set (butlast q) \<Longrightarrow> from = last q \<Longrightarrow> d = length q - 1 \<Longrightarrow>
   \<not> skip_node from s \<Longrightarrow>
   \<exists>len s'. find_cycle k op from to l d s = Some (len, s') \<and> dfs_post to d l s len s' \<and>
     (closed to {} s \<longrightarrow> len = 0 \<longrightarrow> closed to {from} s')"
  "dfs_pre k to q l s \<Longrightarrow> marked s = set q \<Longrightarrow> from = last q \<Longrightarrow> d = length q - 1 \<Longrightarrow>
   set ys \<subseteq> set (arcs s from) \<Longrightarrow>
   \<exists>len s'. find_arcs k op from to l d ys s = Some (len, s') \<and> arcs_post to d l ys s len s'"
proof (induction k op "from" to l d s and k op "from" to l d ys s arbitrary: q and q
    rule: find_cycle_find_arcs.induct)
  case (1 op "from" to l d s)
  then show ?case by (simp add: dfs_pre_def)
next
  case (2 k op "from" to l d s)
  let ?s1 = "set_flag from NF_MARK s"
  have fr: "from < t_brk s" "from \<notin> marked s" "q \<noteq> []" using 2(2,4,6) by (auto simp: dfs_pre_def on_path_def skip_node_iff)
  have e: "static ?s1 = static s" by simp
  have "unmarked ?s1 < unmarked s" using fr by (intro unmarked_mark) (simp_all add: static_same(2) [OF e])
  then have pre: "dfs_pre k to q l ?s1"
    using 2(2) saved_cong [OF _ e, of to l]
    by (auto simp: dfs_pre_def search_ok_static [OF e] on_path_def arc_static [OF e] static_same(2) [OF e])
  have "set (butlast q @ [last q]) = set q" using fr(3) by simp
  then have m: "marked ?s1 = set q" using 2(3,4) by simp
  obtain len s2 where f: "find_arcs k op from to l d (arcs ?s1 from) ?s1 = Some (len, s2)"
    and p: "arcs_post to d l (arcs ?s1 from) ?s1 len s2"
    using 2(1) [OF 2(6) pre m 2(4,5)] static_same(8) [OF e, of "from"] by (auto simp: arcs_def)
  let ?s3 = "clr_flag from NF_MARK s2"
  have e2: "static s2 = static ?s1" "static ?s3 = static s2" using p by (simp_all add: arcs_post_def dfs_post_def)
  have "find_cycle (Suc k) op from to l d s = Some (len, ?s3)"
    using f 2(6) static_same(8) [OF e, of "from"] by (simp add: arcs_def)
  moreover have "dfs_post to d l s len ?s3"
    using p fr(2) saved_cong [OF _ e2(2), of to len] by (auto simp: arcs_post_def dfs_post_def)
  moreover have "closed to {from} ?s3" if "closed to {} s" "len = 0"
  proof -
    have "closed to {} ?s1" using that(1) by (auto simp: closed_def arc_static [OF e])
    then have c: "closed to {} s2" "\<forall>y \<in> set (arcs ?s1 from). y \<noteq> to \<and> y \<in> nodest s2 \<union> marked s2 \<union> acyc s2"
      using p that(2) by (simp_all add: arcs_post_def)
    have "arc ?s3 = arc s2" "\<And>y. arc s2 from y \<longleftrightarrow> y \<in> set (arcs ?s1 from)"
      using arc_static [OF e2(1)] arc_static [OF e2(2)] by (simp_all add: arc_def)
    with c show ?thesis by (auto simp: closed_def)
  qed
  ultimately show ?case by blast
next
  case (3 k op "from" to l d s)
  then show ?case by (auto simp: arcs_post_def dfs_post_def dfs_pre_def)
next
  case (4 k op "from" to l d y ys s)
  have pre: "search_ok s" "on_path to q s" "saved to l s" "unmarked s < k" using 4(6) by (simp_all add: dfs_pre_def)
  have ya: "arc s (last q) y" "arcs s (last q) \<noteq> []" using 4(8,10) by (auto simp: arc_def)
  have fit: "d < length (t_cycle_buf s)" "length (t_longest_cycle s) = length (t_cycle_buf s)"
    using path_fits [OF pre(1,2) ya(2)] pre(1,2) 4(9) by (cases q; simp add: on_path_def search_ok_def)+
  obtain s1 where s1: "log_arc d y s = Some s1" and e1: "static s1 = static s" "\<And>x. flagged x s1 = flagged x s"
    "t_cycle_buf s1 = (t_cycle_buf s)[d := Some y]" "t_longest_cycle s1 = t_longest_cycle s"
    using log_arc_ok [OF fit(1), of y] by metis
  have rest: "\<exists>len s'. find_arcs k op from to l' d ys t = Some (len, s') \<and> arcs_post to d l (y # ys) s len s'"
    if ih: "\<And>q. dfs_pre k to q l' t \<Longrightarrow> marked t = set q \<Longrightarrow> from = last q \<Longrightarrow> d = length q - 1 \<Longrightarrow>
        set ys \<subseteq> set (arcs t from) \<Longrightarrow>
        \<exists>len s'. find_arcs k op from to l' d ys t = Some (len, s') \<and> arcs_post to d l' ys t len s'"
      and step: "arcs_post to d l [y] s l' t" for l' t
  proof -
    have p: "dfs_post to (length q - 1) l s l' t" using step 4(9) by (simp add: arcs_post_def)
    then have t: "static t = static s" "marked t = set q" using 4(7) by (simp_all add: dfs_post_def)
    from ih [OF dfs_pre_post [OF 4(6) p] t(2) 4(8,9)] 4(10) static_same(8) [OF t(1)] arcs_post_Cons [OF step]
    show ?thesis by fastforce
  qed
  consider (hit) "y = to" "d + 1 > l" | (short) "y = to" "\<not> d + 1 > l" | (skip) "y \<noteq> to" "skip_node y s1"
    | (deep) "y \<noteq> to" "\<not> skip_node y s1" by blast
  then show ?case
  proof cases
    case hit
    obtain s2 where s2: "save_cycle (d + 1) s1 = Some s2" and e2: "static s2 = static s1" "\<And>x. flagged x s2 = flagged x s1"
      "t_cycle_buf s2 = t_cycle_buf s1" "take (d + 1) (t_longest_cycle s2) = take (d + 1) (t_cycle_buf s1)"
      using save_cycle_ok [of "d + 1" s1] fit e1(3,4) by (metis Suc_eq_plus1 Suc_leI length_list_update)
    have "arcs_post to d l [y] s (d + 1) s2"
      unfolding hit(1) using hit ya(1) e1 by (intro hit_step [OF pre(2) 4(9) fit(1) _ _ _ _ _ e2]) auto
    from rest [OF 4(1) [OF s1 hit s2] this] show ?thesis by (simp only: find_arcs_hit [OF s1 hit] s2 option.simps)
  next
    case short
    have "arcs_post to d l [y] s l s1" using short by (intro plain_step [OF pre(3) e1]) auto
    from rest [OF 4(2) [OF s1 short] this] show ?thesis by (simp only: find_arcs_short [OF s1 short])
  next
    case skip
    have "arcs_post to d l [y] s l s1" using skip by (intro plain_step [OF pre(3) e1]) auto
    from rest [OF 4(3) [OF s1 skip] this] show ?thesis by (simp only: find_arcs_skip [OF s1 skip])
  next
    case deep
    have "y \<notin> set q" using deep(2) 4(7) e1(2) by (auto simp: skip_node_iff)
    then have path: "on_path to (q @ [y]) s1" by (rule on_path_extend [OF pre(2) ya(1) _ 4(9) fit(1) e1(1,3)])
    have yb: "y < t_brk s1" using ya(1) pre(1) static_same(2) [OF e1(1)] by (auto simp: search_ok_def arc_def)
    have un: "unmarked s1 = unmarked s" using e1(2) static_same(2) [OF e1(1)] by (simp add: unmarked_def)
    have pre1: "dfs_pre k to (q @ [y]) l s1"
      unfolding dfs_pre_def using path yb un pre search_ok_static [OF e1(1)] saved_cong [OF pre(3) e1(1)] e1(4) by simp
    have m1: "marked s1 = set (butlast (q @ [y]))" using e1(2) 4(7) by simp
    obtain m s2 where s2: "find_cycle k op y to l (d + 1) s1 = Some (m, s2)" and p2: "dfs_post to (d + 1) l s1 m s2"
      and c2: "closed to {} s1 \<longrightarrow> m = 0 \<longrightarrow> closed to {y} s2"
      using 4(4) [OF s1 deep pre1 m1 _ _ deep(2)] 4(9) path pre(2) by (auto simp: on_path_def)
    have step: "arcs_post to d l [y] s (max l m) (after_call op d from to y m s2)"
      using c2 by (intro deep_step [OF e1 deep(1) p2]) simp
    have eq: "find_arcs k op from to l d (y # ys) s =
        (if m > 0 \<and> \<not> t_longest op then Some (max l m, after_call op d from to y m s2)
         else find_arcs k op from to (max l m) d ys (after_call op d from to y m s2))"
      by (simp only: find_arcs_deep [OF s1 deep] s2 option.simps prod.case)
    show ?thesis
    proof (cases "m > 0 \<and> \<not> t_longest op")
      case True
      then have "arcs_post to d l (y # ys) s (max l m) (after_call op d from to y m s2)"
        using step by (simp add: arcs_post_def)
      then show ?thesis unfolding eq using True by simp
    next
      case False
      have mx: "(if l < m then m else l) = max l m" by simp
      from 4(5) [OF s1 deep s2 refl refl refl refl False]
      have "\<exists>len s'. find_arcs k op from to (max l m) d ys (after_call op d from to y m s2) = Some (len, s') \<and>
          arcs_post to d l (y # ys) s len s'"
        unfolding mx after_call_def Let_def by (intro rest [OF _ step [unfolded after_call_def Let_def]]) blast
      then show ?thesis unfolding eq if_not_P [OF False] .
    qed
  qed
qed

subsection \<open>The search from a node of the graph\<close>

lemma closed_no_cycle:
  assumes c: "closed n {n} s" and m: "marked s = {}" and a: "\<And>x. x \<in> acyc s \<Longrightarrow> \<not> (arc s)\<^sup>+\<^sup>+ x x"
  shows "\<not> (arc s)\<^sup>+\<^sup>+ n n"
proof
  have onward: "y \<in> nodest s \<and> y \<noteq> n"
    if "x \<in> nodest s \<union> {n}" "arc s x y" "(arc s)\<^sup>+\<^sup>+ n x \<or> x = n" "(arc s)\<^sup>*\<^sup>* y n" for x y
  proof -
    have "(arc s)\<^sup>+\<^sup>+ n y" using that(2,3) by (metis tranclp.r_into_trancl tranclp.trancl_into_trancl)
    then have "(arc s)\<^sup>+\<^sup>+ y y" using that(4) by (metis rtranclp_tranclp_tranclp)
    then have "y \<notin> acyc s" using a by blast
    with c m that(1,2) show ?thesis by (auto simp: closed_def)
  qed
  have "(arc s)\<^sup>*\<^sup>* z n \<longrightarrow> z \<in> nodest s \<and> z \<noteq> n" if "(arc s)\<^sup>+\<^sup>+ n z" for z
    using that
  proof (induction rule: tranclp_induct)
    case (base y)
    then show ?case using onward [of n y] by blast
  next
    case (step y z)
    then show ?case using onward [of y z] by (meson UnI1 converse_rtranclp_into_rtranclp)
  qed
  moreover assume "(arc s)\<^sup>+\<^sup>+ n n"
  ultimately show False by blast
qed

lemma find_cycle_top:
  assumes ok: "search_ok s" and n: "n \<in> set (t_graph s)" "n \<notin> acyc s"
    and m: "marked s = {}" and nd: "nodest s \<inter> set (t_graph s) = {}"
    and a: "\<And>x. x \<in> acyc s \<Longrightarrow> \<not> (arc s)\<^sup>+\<^sup>+ x x"
  obtains cnt s' where "find_cycle (t_brk s + 1) op n n 0 0 s = Some (cnt, s')"
    "static s' = static s" "marked s' = {}" "saved n cnt s'" "cnt = 0 \<Longrightarrow> \<not> (arc s)\<^sup>+\<^sup>+ n n"
proof -
  have "unmarked s \<le> t_brk s" using card_mono [of "{..<t_brk s}" "{..<t_brk s} - marked s"] by (simp add: unmarked_def)
  then have pre: "dfs_pre (t_brk s + 1) n [n] 0 s"
    using ok n by (auto simp: dfs_pre_def on_path_def saved_def search_ok_def)
  have "\<not> skip_node n s" using n m nd by (auto simp: skip_node_iff)
  from find_cycle_spec(1) [OF pre _ _ _ this, of 0 op] m
  obtain cnt s' where f: "find_cycle (t_brk s + 1) op n n 0 0 s = Some (cnt, s')" and p: "dfs_post n 0 0 s cnt s'"
    and c: "closed n {} s \<longrightarrow> cnt = 0 \<longrightarrow> closed n {n} s'" by auto
  have e: "static s' = static s" "marked s' = {}" "saved n cnt s'" using p m by (simp_all add: dfs_post_def)
  have "x \<in> set (t_graph s)" if "arc s x y" for x y
    using that ok unfolding arc_def search_ok_def by (metis empty_iff empty_set)
  then have "closed n {} s" using nd by (auto simp: closed_def)
  then have "cnt = 0 \<Longrightarrow> \<not> (arc s)\<^sup>+\<^sup>+ n n"
    using closed_no_cycle [of n s'] c e a arc_static [OF e(1)] static_same(11) [OF e(1)] by simp
  with that f e show ?thesis by blast
qed

lemma cycle_trancl:
  assumes "is_cycle s n c" shows "(arc s)\<^sup>+\<^sup>+ n n"
proof -
  have "(arc s)\<^sup>*\<^sup>* x (last (x # xs))" if "successively (arc s) (x # xs)" for x xs
    using that by (induction xs arbitrary: x) (auto intro: converse_rtranclp_into_rtranclp)
  moreover obtain y ys where "c = y # ys" using assms by (cases c) (auto simp: is_cycle_def)
  ultimately show ?thesis using assms by (auto simp: is_cycle_def intro: rtranclp_into_tranclp2)
qed

end
