(* ===== verification/Tsort_Sort.thy ===== *)
theory Tsort_Sort
  imports Tsort_Cycle
begin

text \<open>
  The sort of tsort. A state of the sort is described against the state \<open>s0\<close> that the reading of
  the input left: the nodes \<open>rs\<close> that were printed so far and the cycles \<open>cs\<close> that were broken.
\<close>

subsection \<open>The invariant of the sort\<close>

definition nname :: "tstate \<Rightarrow> nat \<Rightarrow> string" where "nname s n = n_name (t_heap s n)"

definition arcs_ok :: "tstate \<Rightarrow> bool" where
  "arcs_ok s \<longleftrightarrow> (\<forall>n. set (arcs s n) \<subseteq> {..<t_brk s} \<and> distinct (arcs s n))"

text \<open>Every node that was not taken out to break a cycle comes after all its predecessors.\<close>

definition ordered :: "tstate \<Rightarrow> nat list list \<Rightarrow> nat list \<Rightarrow> bool" where
  "ordered s0 cs rs \<longleftrightarrow> (\<forall>xs j ys i. rs = xs @ j # ys \<longrightarrow> j \<notin> last ` set cs \<longrightarrow> arc s0 i j \<longrightarrow> i \<in> set xs)"

definition reports :: "topts \<Rightarrow> tstate \<Rightarrow> nat list list \<Rightarrow> string list" where
  "reports op s0 cs = (if t_quiet op then []
     else concat (map (\<lambda>c. ''cycle in data'' # map (nname s0) c) cs))"

definition sort_core :: "topts \<Rightarrow> tstate \<Rightarrow> nat list \<Rightarrow> nat list list \<Rightarrow> tstate \<Rightarrow> bool" where
  "sort_core op s0 rs cs s \<longleftrightarrow>
     t_brk s = t_brk s0 \<and> (\<forall>n. nname s n = nname s0 n) \<and>
     distinct (rs @ t_graph s) \<and> set (rs @ t_graph s) = {..<t_brk s0} \<and>
     (\<forall>n. arcs s n = (if n \<in> set (t_graph s) then arcs s0 n else [])) \<and>
     (\<forall>j < t_brk s0. n_refcnt (t_heap s j) = int (card {i \<in> set (t_graph s). arc s0 i j})) \<and>
     filter is_line (t_out s) = map (\<lambda>n. Line (nname s0 n)) rs \<and>
     t_err s = reports op s0 cs \<and> (\<forall>c \<in> set cs. is_cycle s0 (last c) c) \<and> ordered s0 cs rs \<and>
     (\<forall>x \<in> acyc s. \<not> (arc s)\<^sup>+\<^sup>+ x x) \<and> length (t_longest_cycle s) = length (t_cycle_buf s) \<and>
     (t_cycle_buf s = [] \<or> length (t_graph s) \<le> length (t_cycle_buf s))"

definition clean :: "tstate \<Rightarrow> bool" where
  "clean s \<longleftrightarrow> marked s = {} \<and> nodest s \<inter> set (t_graph s) = {}"

lemma sort_core_static:
  assumes "static s' = static s" shows "sort_core op s0 rs cs s' = sort_core op s0 rs cs s"
  unfolding sort_core_def arc_static [OF assms] nname_def static_same(1-10) [OF assms]
    static_same(11) [OF assms] length_0_conv [symmetric, of "t_cycle_buf _"] ..

lemma search_arc_mono: "sort_core op s0 rs cs s \<Longrightarrow> arc s i j \<Longrightarrow> arc s0 i j \<and> i \<in> set (t_graph s)"
  by (auto simp: sort_core_def arc_def split: if_splits)

lemma is_cycle_mono:
  assumes "sort_core op s0 rs cs s" "is_cycle s n c" shows "is_cycle s0 n c"
  using assms(2) search_arc_mono [OF assms(1)] unfolding is_cycle_def by (metis successively_mono)

lemma tranclp_shrink:
  assumes "\<And>i j. r i j \<Longrightarrow> r' i j" "r\<^sup>+\<^sup>+ x y" shows "r'\<^sup>+\<^sup>+ x y"
  using assms(2) by (induction rule: tranclp_induct) (auto intro: assms(1) tranclp.intros)

lemma count_list_distinct: "distinct xs \<Longrightarrow> count_list xs x = (if x \<in> set xs then 1 else 0)"
  by (induction xs) auto

subsection \<open>Taking a node out\<close>

lemma dec_refs_heap:
  "t_heap (dec_refs ms s) n = (t_heap s n)\<lparr>n_refcnt := n_refcnt (t_heap s n) - int (count_list ms n)\<rparr>"
  by (induction ms arbitrary: s) (auto simp: upd_node_def)

lemma remove_node_heap:
  "arcs (remove_node n s) m = (if m = n then [] else arcs s m)"
  "nname (remove_node n s) m = nname s m" "flagged x (remove_node n s) = flagged x s"
  "n_refcnt (t_heap (remove_node n s) m) = n_refcnt (t_heap s m) - int (count_list (arcs s n) m)"
  by (auto simp: remove_node_def upd_node_def dec_refs_heap arcs_def nname_def flagged_def Let_def)

lemma remove_node_rest [simp]:
  "t_brk (remove_node n s) = t_brk s" "t_err (remove_node n s) = t_err s"
  "t_cycle_buf (remove_node n s) = t_cycle_buf s" "t_longest_cycle (remove_node n s) = t_longest_cycle s"
  "filter is_line (t_out (remove_node n s)) = filter is_line (t_out s) @ [Line (nname s n)]"
  by (simp_all add: remove_node_def upd_node_def Let_def nname_def is_line_def)

lemma ordered_snoc:
  assumes "ordered s0 cs rs" "n \<in> last ` set cs \<or> (\<forall>i. arc s0 i n \<longrightarrow> i \<in> set rs)"
  shows "ordered s0 cs (rs @ [n])"
  unfolding ordered_def
proof (intro allI impI)
  fix xs j ys i assume a: "rs @ [n] = xs @ j # ys" "j \<notin> last ` set cs" "arc s0 i j"
  show "i \<in> set xs"
  proof (cases ys rule: rev_cases)
    case Nil
    with a assms(2) show ?thesis by auto
  next
    case (snoc zs z)
    with a(1) have "rs = xs @ j # zs" by simp
    with assms(1) a show ?thesis by (auto simp: ordered_def)
  qed
qed

lemma remove_node_core:
  assumes ok: "arcs_ok s0" and c: "sort_core op s0 rs cs s" and n: "n \<in> set (t_graph s)"
    and o: "n \<in> last ` set cs \<or> (\<forall>i. arc s0 i n \<longrightarrow> i \<in> set rs)"
  shows "sort_core op s0 (rs @ [n]) cs (remove_node n s)"
proof -
  let ?s = "remove_node n s" and ?g = "set (t_graph s)"
  have d: "distinct (t_graph s)" using c by (simp add: sort_core_def)
  then have g: "set (t_graph ?s) = ?g - {n}" by simp
  have "arcs s n = arcs s0 n" using c n by (simp add: sort_core_def)
  then have cnt: "int (count_list (arcs s n) j) = (if arc s0 n j then 1 else 0)" for j
    using ok by (simp add: arcs_ok_def arc_def count_list_distinct)
  have ref: "n_refcnt (t_heap ?s j) = int (card {i \<in> set (t_graph ?s). arc s0 i j})" if "j < t_brk s0" for j
  proof -
    define A where "A = {i \<in> ?g. arc s0 i j}"
    have A: "finite A" "n \<in> A \<longleftrightarrow> arc s0 n j" "{i \<in> set (t_graph ?s). arc s0 i j} = A - {n}"
      using g n by (auto simp: A_def)
    have r: "n_refcnt (t_heap s j) = int (card A)" using c that by (simp add: sort_core_def A_def)
    have "card A > 0" if "arc s0 n j" using that A(1,2) by (auto simp: card_gt_0_iff)
    then show ?thesis
      unfolding remove_node_heap(4) cnt r A(3) using A(1,2) by (auto simp: card_Diff_singleton_if of_nat_diff)
  qed
  have ac: "\<not> (arc ?s)\<^sup>+\<^sup>+ x x" if "x \<in> acyc s" for x
  proof -
    have "\<not> (arc s)\<^sup>+\<^sup>+ x x" using c that by (simp add: sort_core_def)
    moreover have "arc ?s i j \<Longrightarrow> arc s i j" for i j by (simp add: arc_def remove_node_heap split: if_splits)
    ultimately show ?thesis using tranclp_shrink [of "arc ?s" "arc s" x x] by blast
  qed
  have dis: "distinct ((rs @ [n]) @ t_graph ?s)" "set ((rs @ [n]) @ t_graph ?s) = {..<t_brk s0}"
    using c n d g by (auto simp: sort_core_def)
  have len: "length (t_graph ?s) \<le> length (t_graph s)" by (simp add: length_remove1)
  show ?thesis
    using c dis ref ac g ordered_snoc [OF _ o] len
    unfolding sort_core_def by (auto simp: remove_node_heap)
qed


lemma remove_node_clean: "clean s \<Longrightarrow> clean (remove_node n s)"
  using set_remove1_subset [of n "t_graph s"] by (auto simp: clean_def remove_node_heap(3))

subsection \<open>Nodes without predecessors\<close>

lemma refcnt_zero:
  assumes "sort_core op s0 rs cs s" "arcs_ok s0" "n \<in> set (t_graph s)" "n_refcnt (t_heap s n) = 0" "arc s0 i n"
    and lo: "\<And>i. t_brk s0 \<le> i \<Longrightarrow> arcs s0 i = []"
  shows "i \<in> set rs"
proof -
  have "n < t_brk s0" using assms(1,3) by (auto simp: sort_core_def)
  then have "card {i \<in> set (t_graph s). arc s0 i n} = 0" using assms(1,4) by (simp add: sort_core_def)
  then have "i \<notin> set (t_graph s)" using assms(5) by auto
  moreover have "i < t_brk s0" using assms(5) lo [of i] by (cases "i < t_brk s0") (auto simp: arc_def)
  ultimately show ?thesis using assms(1) by (auto simp: sort_core_def)
qed

definition built :: "tstate \<Rightarrow> bool" where
  "built s0 \<longleftrightarrow> arcs_ok s0 \<and> (\<forall>i \<ge> t_brk s0. arcs s0 i = [])"

lemma remove_pass_core:
  assumes "built s0"
  shows "remove_pass ns c s = (c', s') \<Longrightarrow> sort_core op s0 rs cs s \<Longrightarrow> clean s \<Longrightarrow> distinct ns \<Longrightarrow>
    set ns \<subseteq> set (t_graph s) \<Longrightarrow> \<exists>rs'. sort_core op s0 rs' cs s' \<and> clean s'"
proof (induction ns c s arbitrary: rs rule: remove_pass.induct)
  case (2 n ns c s)
  show ?case
  proof (cases "n_refcnt (t_heap s n) = 0")
    case True
    have n: "n \<in> set (t_graph s)" "arcs_ok s0" using 2(7) assms by (auto simp: built_def)
    have "\<forall>i. arc s0 i n \<longrightarrow> i \<in> set rs" using refcnt_zero [OF 2(4) n(2,1) True] assms by (auto simp: built_def)
    then have core: "sort_core op s0 (rs @ [n]) cs (remove_node n s)" using remove_node_core [OF n(2) 2(4) n(1)] by blast
    have "distinct (t_graph s)" using 2(4) by (simp add: sort_core_def)
    then have "set ns \<subseteq> set (t_graph (remove_node n s))" using 2(6,7) by auto
    with 2(1) [OF True _ core remove_node_clean [OF 2(5)]] 2(3,6) True show ?thesis by simp
  next
    case False
    with 2 show ?thesis by auto
  qed
qed auto

lemma remove_pass_none:
  "remove_pass ns c s = (c', s') \<Longrightarrow> c \<le> c' \<and> (c' = c \<longrightarrow> s' = s \<and> (\<forall>n \<in> set ns. n_refcnt (t_heap s n) \<noteq> 0))"
  by (induction ns c s rule: remove_pass.induct) (auto split: if_splits)

lemma simple_cases_core:
  assumes "built s0"
  shows "sort_core op s0 rs cs s \<Longrightarrow> clean s \<Longrightarrow>
    (\<exists>rs'. sort_core op s0 rs' cs (simple_cases s)) \<and> clean (simple_cases s) \<and>
    (\<forall>n \<in> set (t_graph (simple_cases s)). n_refcnt (t_heap (simple_cases s) n) \<noteq> 0)"
proof (induction s arbitrary: rs rule: simple_cases.induct)
  case (1 s)
  obtain c s' where p: "remove_pass (t_graph s) 0 s = (c, s')" by (cases "remove_pass (t_graph s) 0 s")
  have "distinct (t_graph s)" using 1(2) by (simp add: sort_core_def)
  from remove_pass_core [OF assms p 1(2,3) this] obtain rs' where core: "sort_core op s0 rs' cs s'" "clean s'" by auto
  show ?case
  proof (cases "t_graph s' \<noteq> [] \<and> c \<noteq> 0")
    case True
    then have "simple_cases s = simple_cases s'" by (subst simple_cases.simps) (simp add: p)
    with 1(1) [OF p [symmetric] True core] show ?thesis by simp
  next
    case False
    then have e: "simple_cases s = s'" by (subst simple_cases.simps) (auto simp: p)
    show ?thesis unfolding e using core False remove_pass_none [OF p] by (cases "t_graph s' = []") auto
  qed
qed

subsection \<open>Breaking a cycle\<close>

lemma clear_flags_static [simp]: "static (clear_flags ns s) = static s"
  by (induction ns arbitrary: s) simp_all

lemma clear_flags_flagged [simp]:
  "flagged x (clear_flags ns s) = (if x = NF_NODEST then flagged x s - set ns else flagged x s)"
  by (induction ns arbitrary: s) auto

lemma clear_cycle_clean: "marked s = {} \<Longrightarrow> clean (clear_cycle s)"
  by (auto simp: clean_def clear_cycle_def)

lemma warn_nodes_exact:
  "warn_nodes (map Some c) s = Some (s\<lparr>t_err := t_err s @ map (nname s) c\<rparr>)"
  by (induction c arbitrary: s) (simp_all add: nname_def)

lemma report_cycle_core:
  assumes "sort_core op s0 rs cs s" "saved n cnt s" "cnt \<noteq> 0" "marked s = {}"
  obtains s' c where "report_cycle op cnt s = Some s'" "last c = n"
    "sort_core op s0 rs (cs @ [c]) s'" "marked s' = {}" "t_graph s' = t_graph s"
proof -
  obtain c where c: "length c = cnt" "take cnt (t_longest_cycle s) = map Some c" "is_cycle s n c"
    using assms(2,3) by (auto simp: saved_def)
  have cyc: "last c = n" "is_cycle s0 (last c) c"
    using c(3) is_cycle_mono [OF assms(1) c(3)] by (auto simp: is_cycle_def)
  have le: "cnt \<le> length (t_longest_cycle s)" using c(1,2) by (metis length_map length_take min.cobounded1)
  let ?s = "if t_quiet op then s else s\<lparr>t_err := t_err s @ ''cycle in data'' # map (nname s0) c\<rparr>"
  have nm: "nname s = nname s0" using assms(1) by (simp add: sort_core_def fun_eq_iff)
  then have "report_cycle op cnt s = Some ?s"
    using le by (simp add: report_cycle_def c(2) warn_nodes_exact) (simp add: nname_def fun_eq_iff)
  moreover have h: "arcs ?s = arcs s" "arc ?s = arc s" "\<And>x. flagged x ?s = flagged x s"
    by (simp_all add: arcs_def arc_def flagged_def fun_eq_iff)
  moreover have "ordered s0 (cs @ [c]) rs" using assms(1) by (auto simp: sort_core_def ordered_def)
  then have "sort_core op s0 rs (cs @ [c]) ?s"
    using assms(1) cyc(2) h by (auto simp: sort_core_def reports_def nname_def)
  ultimately show ?thesis using cyc(1) assms(4) that [of ?s c] by simp
qed

lemma set_acyclic_core:
  assumes "sort_core op s0 rs cs s" "\<not> (arc s)\<^sup>+\<^sup>+ n n"
  shows "sort_core op s0 rs cs (set_flag n NF_ACYCLIC s)"
proof -
  let ?s = "set_flag n NF_ACYCLIC s"
  have "arcs ?s = arcs s" "nname ?s = nname s" "\<And>m. n_refcnt (t_heap ?s m) = n_refcnt (t_heap s m)"
    "t_brk ?s = t_brk s" "t_err ?s = t_err s" "t_out ?s = t_out s"
    by (auto simp: set_flag_def upd_node_def arcs_def nname_def fun_eq_iff)
  moreover from this have "arc ?s = arc s" by (simp add: arc_def fun_eq_iff)
  ultimately show ?thesis using assms by (auto simp: sort_core_def)
qed

lemma core_search_ok:
  assumes "sort_core op s0 rs cs s" "built s0" "length (t_graph s) \<le> length (t_cycle_buf s)"
  shows "search_ok s"
  using assms by (auto simp: sort_core_def built_def arcs_ok_def search_ok_def split: if_splits)

lemma search_cycle_core:
  assumes "built s0"
  shows "sort_core op s0 rs cs s \<Longrightarrow> clean s \<Longrightarrow> length (t_graph s) \<le> length (t_cycle_buf s) \<Longrightarrow>
    set ns \<subseteq> set (t_graph s) \<Longrightarrow> x \<in> set ns \<Longrightarrow> (arc s)\<^sup>+\<^sup>+ x x \<Longrightarrow>
    \<exists>s' rs' cs'. search_cycle op ns s = Some (True, s') \<and> sort_core op s0 rs' cs' s' \<and> clean s'"
proof (induction op ns s rule: search_cycle.induct)
  case (2 op n ns s)
  have n: "n \<in> set (t_graph s)" "arcs_ok s0" using 2(6) assms by (auto simp: built_def)
  have acy: "\<And>y. y \<in> acyc s \<Longrightarrow> \<not> (arc s)\<^sup>+\<^sup>+ y y" using 2(3) by (simp add: sort_core_def)
  show ?case
  proof (cases "NF_ACYCLIC \<in> n_flags (t_heap s n)")
    case True
    then have "x \<in> set ns" using acy [of n] 2(7,8) by (auto simp: flagged_def)
    with 2(1) [OF True 2(3-5)] 2(6,8) True show ?thesis by simp
  next
    case False
    have "marked s = {}" "nodest s \<inter> set (t_graph s) = {}" using 2(4) by (simp_all add: clean_def)
    moreover have "n \<notin> acyc s" using False by (simp add: flagged_def)
    ultimately obtain cnt s1 where f: "find_cycle (t_brk s + 1) op n n 0 0 s = Some (cnt, s1)" and
      e: "static s1 = static s" "marked s1 = {}" "saved n cnt s1" "cnt = 0 \<Longrightarrow> \<not> (arc s)\<^sup>+\<^sup>+ n n"
      using find_cycle_top [OF core_search_ok [OF 2(3) assms 2(5)] n(1) _ _ _ acy, of op] by metis
    have c1: "sort_core op s0 rs cs s1" using 2(3) by (simp add: sort_core_static [OF e(1)])
    show ?thesis
    proof (cases "cnt = 0")
      case z: False
      obtain s2 c where r: "report_cycle op cnt s1 = Some s2" "last c = n" "sort_core op s0 rs (cs @ [c]) s2"
        "marked s2 = {}" "t_graph s2 = t_graph s1" using report_cycle_core [OF c1 e(3) z e(2)] .
      have "n \<in> set (t_graph s2)" using n(1) r(5) static_same(1) [OF e(1)] by simp
      then have "sort_core op s0 (rs @ [n]) (cs @ [c]) (remove_node n s2)"
        using remove_node_core [OF n(2) r(3)] r(2) by force
      moreover have "static (clear_cycle t) = static t" for t by (simp add: clear_cycle_def)
      ultimately have "sort_core op s0 (rs @ [n]) (cs @ [c]) (clear_cycle (remove_node n s2))"
        using sort_core_static by blast
      moreover have "clean (clear_cycle (remove_node n s2))"
        by (rule clear_cycle_clean) (simp add: remove_node_heap(3) r(4))
      ultimately show ?thesis using False f z r(1) by (auto simp del: find_cycle.simps)
    next
      case z: True
      let ?s2 = "clear_cycle (set_flag n NF_ACYCLIC s1)"
      have na: "\<not> (arc s1)\<^sup>+\<^sup>+ n n" using e(4) [OF z] arc_static [OF e(1)] by simp
      have st: "static ?s2 = static (set_flag n NF_ACYCLIC s1)" by (simp add: clear_cycle_def)
      have c2: "sort_core op s0 rs cs ?s2" using set_acyclic_core [OF c1 na] sort_core_static [OF st] by simp
      have "clean ?s2" by (rule clear_cycle_clean) (simp add: e(2))
      moreover have g: "t_graph ?s2 = t_graph s" using static_same(1) [OF e(1)] by simp
      moreover have "length (t_cycle_buf ?s2) = length (t_cycle_buf s)"
        using static_same(6) [OF st] static_same(6) [OF e(1)] by simp
      moreover have "arcs ?s2 = arcs s"
        using static_same(8) [OF st] static_same(8) [OF e(1)]
        by (simp add: fun_eq_iff) (simp add: set_flag_def upd_node_def arcs_def)
      then have "arc ?s2 = arc s" by (simp add: arc_def fun_eq_iff)
      moreover have "x \<in> set ns" using e(4) [OF z] 2(7,8) by auto
      ultimately show ?thesis using 2(2) [OF False f refl _ c2] 2(5,6,8) False f z
        by (simp del: find_cycle.simps)
    qed
  qed
qed simp

subsection \<open>The whole sort\<close>

lemma stuck_has_cycle:
  assumes c: "sort_core op s0 rs cs s" and b: "built s0" and g: "t_graph s \<noteq> []"
    and r: "\<forall>n \<in> set (t_graph s). n_refcnt (t_heap s n) \<noteq> 0"
  obtains x where "x \<in> set (t_graph s)" "(arc s)\<^sup>+\<^sup>+ x x"
proof (rule ccontr)
  assume no: "\<not> thesis"
  let ?r = "{(i, j). arc s i j}"
  have dom: "i \<in> set (t_graph s)" if "(arc s)\<^sup>+\<^sup>+ i j" for i j
    using tranclpD [OF that] search_arc_mono [OF c] by blast
  have "?r \<subseteq> set (t_graph s) \<times> {..<t_brk s0}"
    using search_arc_mono [OF c] b by (fastforce simp: built_def arcs_ok_def arc_def)
  then have fin: "finite ?r" by (rule finite_subset) simp
  moreover have "acyclic ?r"
    using no that dom unfolding acyclic_def tranclp_unfold by auto
  ultimately have "wf ?r" by (rule finite_acyclic_wf)
  then obtain z where z: "z \<in> set (t_graph s)" and min: "\<And>y. arc s y z \<Longrightarrow> y \<notin> set (t_graph s)"
    using wfE_min [of ?r "hd (t_graph s)" "set (t_graph s)"] g by (metis case_prodI hd_in_set mem_Collect_eq)
  have "z < t_brk s0" using c z by (auto simp: sort_core_def)
  then have "n_refcnt (t_heap s z) = int (card {i \<in> set (t_graph s). arc s0 i z})" using c by (simp add: sort_core_def)
  moreover have "n_refcnt (t_heap s z) \<noteq> 0" using r z by blast
  ultimately have "card {i \<in> set (t_graph s). arc s0 i z} \<noteq> 0" by linarith
  then have "{i \<in> set (t_graph s). arc s0 i z} \<noteq> {}" by (rule contrapos_nn) (simp only: card.empty)
  then obtain i where i: "i \<in> set (t_graph s)" "arc s0 i z" by blast
  moreover have "arcs s i = arcs s0 i" using c i(1) by (simp add: sort_core_def)
  ultimately have "arc s i z" by (simp add: arc_def)
  with min i(1) show False by blast
qed

lemma alloc_logs_core:
  assumes "sort_core op s0 rs cs s" "clean s"
  shows "sort_core op s0 rs cs (alloc_logs s)" "clean (alloc_logs s)" "t_graph (alloc_logs s) = t_graph s"
    "length (t_graph s) \<le> length (t_cycle_buf (alloc_logs s))" "arc (alloc_logs s) = arc s"
proof -
  have h: "t_heap (alloc_logs s) = t_heap s" "t_graph (alloc_logs s) = t_graph s" "t_brk (alloc_logs s) = t_brk s"
    "t_out (alloc_logs s) = t_out s" "t_err (alloc_logs s) = t_err s" by (simp_all add: alloc_logs_def)
  then have f: "arcs (alloc_logs s) = arcs s" "nname (alloc_logs s) = nname s" "\<And>x. flagged x (alloc_logs s) = flagged x s"
    by (simp_all add: arcs_def nname_def flagged_def fun_eq_iff)
  then show a: "arc (alloc_logs s) = arc s" by (simp add: arc_def fun_eq_iff)
  show l: "length (t_graph s) \<le> length (t_cycle_buf (alloc_logs s))" "t_graph (alloc_logs s) = t_graph s"
    using assms(1) by (auto simp: alloc_logs_def sort_core_def)
  have "length (t_longest_cycle (alloc_logs s)) = length (t_cycle_buf (alloc_logs s))"
    using assms(1) by (simp add: alloc_logs_def sort_core_def)
  then show "sort_core op s0 rs cs (alloc_logs s)" "clean (alloc_logs s)"
    using assms l by (simp_all add: sort_core_def clean_def h f a)
qed

lemma tsort_core:
  assumes "built s0"
  shows "sort_core op s0 rs cs s \<Longrightarrow> clean s \<Longrightarrow>
    \<exists>s' rs' cs'. tsort op s = Some (None, s') \<and> sort_core op s0 rs' cs' s' \<and> t_graph s' = []"
proof (induction op s arbitrary: rs cs rule: tsort.induct)
  case (1 op s)
  show ?case
  proof (cases "t_graph s = []")
    case True
    then show ?thesis using 1(2) by (subst tsort.simps) auto
  next
    case ne: False
    define s1 where "s1 = simple_cases s"
    obtain rs1 where s1: "sort_core op s0 rs1 cs s1" "clean s1" "\<forall>n \<in> set (t_graph s1). n_refcnt (t_heap s1 n) \<noteq> 0"
      using simple_cases_core [OF assms 1(2,3)] by (auto simp: s1_def)
    show ?thesis
    proof (cases "t_graph s1 = []")
      case True
      then have "tsort op s = Some (None, s1)" using ne by (subst tsort.simps) (simp add: s1_def)
      with True s1(1) show ?thesis by blast
    next
      case ne1: False
      obtain x where x: "x \<in> set (t_graph s1)" "(arc s1)\<^sup>+\<^sup>+ x x" using stuck_has_cycle [OF s1(1) assms ne1 s1(3)] .
      note l = alloc_logs_core [OF s1(1,2)]
      obtain s2 rs2 cs2 where s2: "search_cycle op (t_graph s1) (alloc_logs s1) = Some (True, s2)"
        "sort_core op s0 rs2 cs2 s2" "clean s2"
        using search_cycle_core [OF assms l(1,2), of "t_graph s1" x] l(3-5) x by auto
      then have e: "tsort op s = tsort op s2" using ne ne1 by (subst tsort.simps) (simp add: s1_def [symmetric])
      from 1(1) [OF ne s1_def ne1 s2(1) refl _ s2(2,3)] show ?thesis unfolding e by simp
    qed
  qed
qed

end
