(* ===== verification/Tsort_Build.thy ===== *)
theory Tsort_Build
  imports Tsort_Sort
begin

text \<open>
  The construction of the graph: after the pairs of a relation were added, the nodes are the names
  that occur in it, one node for each name, and the arcs are the pairs of different names, each once.
\<close>

definition build_inv :: "string set \<Rightarrow> (string \<times> string) set \<Rightarrow> tstate \<Rightarrow> bool" where
  "build_inv N R s \<longleftrightarrow> t_graph s = rev [0..<t_brk s] \<and> inj_on (nname s) {..<t_brk s} \<and>
     nname s ` {..<t_brk s} = N \<and> R \<subseteq> N \<times> N \<and>
     (\<forall>a n. t_db s a = Some n \<longleftrightarrow> n < t_brk s \<and> nname s n = a) \<and>
     (\<forall>n \<ge> t_brk s. t_heap s n = new_node []) \<and>
     (\<forall>i j. arc s i j \<longleftrightarrow> i < t_brk s \<and> j < t_brk s \<and> i \<noteq> j \<and> (nname s i, nname s j) \<in> R) \<and>
     (\<forall>n. distinct (arcs s n) \<and> length (arcs s n) \<le> n_arcsize (t_heap s n)) \<and>
     (\<forall>j. n_refcnt (t_heap s j) = int (card {i. arc s i j})) \<and> (\<forall>x. flagged x s = {}) \<and>
     t_cycle_buf s = [] \<and> t_longest_cycle s = [] \<and> t_out s = [] \<and> t_err s = []"

lemma build_inv_start: "build_inv {} {} tstart"
  by (auto simp: build_inv_def tstart_def arc_def arcs_def new_node_def flagged_def nname_def)

lemma build_finite_arc: "build_inv N R s \<Longrightarrow> finite {i. arc s i j}"
  by (rule finite_subset [of _ "{..<t_brk s}"]) (auto simp: build_inv_def)

lemma get_node_inv:
  assumes inv: "build_inv N R s" and g: "get_node a s = (n, s')"
  shows "build_inv (insert a N) R s' \<and> n < t_brk s' \<and> nname s' n = a \<and> t_brk s \<le> t_brk s' \<and>
    (\<forall>m < t_brk s. nname s' m = nname s m)"
proof -
  have db: "t_db s a = Some n \<longleftrightarrow> n < t_brk s \<and> nname s n = a" for a n using inv by (simp add: build_inv_def)
  show ?thesis
  proof (cases "t_db s a")
    case (Some k)
    then have "n = k" "s' = s" using g by (auto simp: get_node_def)
    moreover have "k < t_brk s" "nname s k = a" using Some db by auto
    moreover from this have "insert a N = N" using inv by (auto simp: build_inv_def)
    ultimately show ?thesis using inv by simp
  next
    case None
    let ?b = "t_brk s"
    have n: "n = ?b" "s' = s\<lparr>t_heap := (t_heap s)(?b := new_node a), t_brk := ?b + 1,
        t_graph := ?b # t_graph s, t_db := (t_db s)(a \<mapsto> ?b)\<rparr>"
      using g None by (auto simp: get_node_def Let_def)
    have sel: "t_brk s' = Suc ?b" "t_graph s' = ?b # t_graph s" "t_db s' = (t_db s)(a \<mapsto> ?b)"
      "t_heap s' = (t_heap s)(?b := new_node a)" "t_cycle_buf s' = t_cycle_buf s" "t_longest_cycle s' = t_longest_cycle s"
      "t_out s' = t_out s" "t_err s' = t_err s" by (simp_all add: n(2))
    have R: "R \<subseteq> N \<times> N" "nname s ` {..<?b} = N" "inj_on (nname s) {..<?b}" using inv by (simp_all add: build_inv_def)
    have fresh: "a \<notin> N"
    proof
      assume "a \<in> N"
      then obtain k where "k < ?b" "nname s k = a" using R(2) by auto
      with db [of a k] None show False by simp
    qed
    have nm: "nname s' m = (if m = ?b then a else nname s m)" for m by (simp add: sel nname_def new_node_def)
    have zero: "t_heap s ?b = new_node []" using inv by (simp add: build_inv_def)
    have ar: "arcs s' = arcs s" using zero by (auto simp: sel arcs_def new_node_def fun_eq_iff)
    then have ac: "arc s' = arc s" by (simp add: arc_def fun_eq_iff)
    have arc_iff: "arc s i j \<longleftrightarrow> i < ?b \<and> j < ?b \<and> i \<noteq> j \<and> (nname s i, nname s j) \<in> R" for i j
      using inv by (simp add: build_inv_def)
    have 1: "t_graph s' = rev [0..<t_brk s']" using inv by (simp add: sel build_inv_def)
    have new: "nname s k \<noteq> a" if "k < ?b" for k using that R(2) fresh by auto
    have 2: "inj_on (nname s') {..<t_brk s'}"
      using R(3) new unfolding sel(1) lessThan_Suc by (auto simp: nm inj_on_def)
    have "nname s' ` {..<?b} = nname s ` {..<?b}" by (rule image_cong) (auto simp: nm)
    then have 3: "nname s' ` {..<t_brk s'} = insert a N"
      using R(2) nm [of ?b] unfolding sel(1) lessThan_Suc image_insert by simp
    have 4: "t_db s' b = Some k \<longleftrightarrow> k < t_brk s' \<and> nname s' k = b" for b k
      using db [of b k] new by (auto simp: sel nm less_Suc_eq)
    have "(x, y) \<in> R \<Longrightarrow> x \<noteq> a \<and> y \<noteq> a" for x y using R(1) fresh by auto
    then have 5: "arc s' i j \<longleftrightarrow> i < t_brk s' \<and> j < t_brk s' \<and> i \<noteq> j \<and> (nname s' i, nname s' j) \<in> R" for i j
      by (auto simp: ac arc_iff nm sel(1) less_Suc_eq)
    have "n_refcnt (t_heap s j) = int (card {i. arc s i j})" for j using inv by (simp add: build_inv_def)
    then have 6: "n_refcnt (t_heap s' j) = int (card {i. arc s' i j})" for j
      using arc_iff [of _ ?b] by (auto simp: ac sel new_node_def)
    have 7: "distinct (arcs s' k) \<and> length (arcs s' k) \<le> n_arcsize (t_heap s' k)" for k
      using inv zero by (auto simp: ar sel build_inv_def new_node_def arcs_def)
    have 8: "\<forall>k \<ge> t_brk s'. t_heap s' k = new_node []" "\<forall>x. flagged x s' = {}"
      using inv zero by (auto simp: sel build_inv_def new_node_def flagged_def)
    have 9: "R \<subseteq> insert a N \<times> insert a N" using R(1) by auto
    have "build_inv (insert a N) R s'"
      unfolding build_inv_def using 1 2 3 4 5 6 7 8 9 inv by (simp add: build_inv_def sel(5-8))
    with nm n(1) sel(1) show ?thesis by simp
  qed
qed

lemma build_inv_loop:
  assumes "build_inv N R s" "a \<in> N" shows "build_inv N (insert (a, a) R) s"
proof -
  have inj: "inj_on (nname s) {..<t_brk s}"
    and ai: "\<And>i j. arc s i j \<longleftrightarrow> i < t_brk s \<and> j < t_brk s \<and> i \<noteq> j \<and> (nname s i, nname s j) \<in> R"
    using assms(1) by (simp_all add: build_inv_def)
  have "\<forall>i j. arc s i j \<longleftrightarrow> i < t_brk s \<and> j < t_brk s \<and> i \<noteq> j \<and> (nname s i, nname s j) \<in> insert (a, a) R"
    using inj by (auto simp: ai inj_on_def)
  moreover have "insert (a, a) R \<subseteq> N \<times> N" using assms by (simp add: build_inv_def)
  ultimately show ?thesis using assms(1) unfolding build_inv_def
    by - (elim conjE, intro conjI; assumption)
qed

definition link :: "nat \<Rightarrow> nat \<Rightarrow> tstate \<Rightarrow> tstate" where
  "link n1 n2 s = upd_node n2 (\<lambda>v. v\<lparr>n_refcnt := n_refcnt v + 1\<rparr>)
     (upd_node n1 (\<lambda>v. v\<lparr>n_arcs := n_arcs v @ [n2]\<rparr>) (upd_node n1 grow_arcs s))"

lemma grow_arcs_sel [simp]:
  "n_arcs (grow_arcs v) = n_arcs v" "n_refcnt (grow_arcs v) = n_refcnt v" "n_flags (grow_arcs v) = n_flags v"
  "n_name (grow_arcs v) = n_name v"
  by (simp_all add: grow_arcs_def)

lemma grow_arcs_room: "length (n_arcs v) \<le> n_arcsize v \<Longrightarrow> length (n_arcs v) < n_arcsize (grow_arcs v)"
  by (auto simp: grow_arcs_def Let_def)

lemma link_sel:
  assumes "n1 \<noteq> n2"
  shows "arcs (link n1 n2 s) m = (if m = n1 then arcs s n1 @ [n2] else arcs s m)"
    "n_refcnt (t_heap (link n1 n2 s) m) = (if m = n2 then n_refcnt (t_heap s n2) + 1 else n_refcnt (t_heap s m))"
    "n_arcsize (t_heap (link n1 n2 s) m) = (if m = n1 then n_arcsize (grow_arcs (t_heap s n1)) else n_arcsize (t_heap s m))"
    "nname (link n1 n2 s) = nname s" "flagged x (link n1 n2 s) = flagged x s"
    "t_brk (link n1 n2 s) = t_brk s" "t_graph (link n1 n2 s) = t_graph s" "t_db (link n1 n2 s) = t_db s"
    "t_cycle_buf (link n1 n2 s) = t_cycle_buf s" "t_longest_cycle (link n1 n2 s) = t_longest_cycle s"
    "t_out (link n1 n2 s) = t_out s" "t_err (link n1 n2 s) = t_err s"
    "m \<noteq> n1 \<Longrightarrow> m \<noteq> n2 \<Longrightarrow> t_heap (link n1 n2 s) m = t_heap s m"
  using assms by (auto simp: link_def upd_node_def arcs_def nname_def flagged_def fun_eq_iff)

lemma link_inv:
  assumes inv: "build_inv N R s" and n: "n1 < t_brk s" "n2 < t_brk s" "n1 \<noteq> n2" and new: "\<not> arc s n1 n2"
  shows "build_inv N (insert (nname s n1, nname s n2) R) (link n1 n2 s)"
proof -
  let ?s = "link n1 n2 s"
  note sel = link_sel [OF n(3), where s = s]
  have inj: "inj_on (nname s) {..<t_brk s}" and im: "nname s ` {..<t_brk s} = N" and R: "R \<subseteq> N \<times> N"
    and cnt: "\<And>j. n_refcnt (t_heap s j) = int (card {i. arc s i j})"
    and ai: "\<And>i j. arc s i j \<longleftrightarrow> i < t_brk s \<and> j < t_brk s \<and> i \<noteq> j \<and> (nname s i, nname s j) \<in> R"
    and ar: "\<And>k. distinct (arcs s k)" "\<And>k. length (arcs s k) \<le> n_arcsize (t_heap s k)"
    using inv by (simp_all add: build_inv_def)
  have ac: "arc ?s i j \<longleftrightarrow> arc s i j \<or> i = n1 \<and> j = n2" for i j by (auto simp: arc_def sel(1))
  have eqn: "nname s i = nname s k \<longleftrightarrow> i = k" if "i < t_brk s" "k < t_brk s" for i k
    using inj that by (auto simp: inj_on_def)
  have 1: "arc ?s i j \<longleftrightarrow> i < t_brk ?s \<and> j < t_brk ?s \<and> i \<noteq> j \<and>
      (nname ?s i, nname ?s j) \<in> insert (nname s n1, nname s n2) R" for i j
    using n eqn by (auto simp: ac ai sel(4,6))
  have 2: "n_refcnt (t_heap ?s j) = int (card {i. arc ?s i j})" for j
  proof (cases "j = n2")
    case True
    have "{i. arc ?s i j} = insert n1 {i. arc s i j}" using True by (auto simp: ac)
    then show ?thesis using True new build_finite_arc [OF inv, of n2] by (simp add: sel(2) cnt)
  qed (simp add: ac sel(2) cnt)
  have 3: "distinct (arcs ?s k)" for k using ar(1) new by (auto simp: sel(1) arc_def)
  have 4: "length (arcs ?s k) \<le> n_arcsize (t_heap ?s k)" for k
    using ar(2) grow_arcs_room [of "t_heap s n1", folded arcs_def] by (auto simp: sel(1,3) Suc_le_eq)
  have 5: "\<forall>k \<ge> t_brk ?s. t_heap ?s k = new_node []" using inv n sel(13) by (simp add: sel(6) build_inv_def)
  have 6: "insert (nname s n1, nname s n2) R \<subseteq> N \<times> N" using R im n by auto
  show ?thesis
    unfolding build_inv_def using 1 2 3 4 5 6 inv by (simp add: build_inv_def sel(4-12))
qed

lemma add_arc_inv:
  assumes inv: "build_inv N R s"
  obtains s' where "add_arc a b s = Some s'" "build_inv (insert a (insert b N)) (insert (a, b) R) s'"
proof -
  obtain n1 s1 where g1: "get_node a s = (n1, s1)" by fastforce
  note 1 = get_node_inv [OF inv g1]
  show ?thesis
  proof (cases "a = b")
    case True
    have "add_arc a b s = Some s1" using True g1 by (simp add: add_arc_def)
    with that 1 build_inv_loop [of "insert a N" R s1 a] True show ?thesis by simp
  next
    case False
    obtain n2 s2 where g2: "get_node b s1 = (n2, s2)" by fastforce
    note 2 = get_node_inv [OF conjunct1 [OF 1] g2]
    have N: "build_inv (insert a (insert b N)) R s2" using 2 by (simp add: insert_commute)
    have n: "n1 < t_brk s2" "n2 < t_brk s2" "nname s2 n1 = a" "nname s2 n2 = b" using 1 2 by auto
    then have ne: "n1 \<noteq> n2" using False by auto
    show ?thesis
    proof (cases "arc s2 n1 n2")
      case True
      then have "(a, b) \<in> R" using N n by (simp add: build_inv_def)
      then show ?thesis using that [of s2] N True False
        by (simp add: add_arc_def g1 g2 arc_def arcs_def insert_absorb)
    next
      case new: False
      have "length (n_arcs (t_heap s2 n1)) \<le> n_arcsize (t_heap s2 n1)" using N by (simp add: build_inv_def arcs_def)
      from grow_arcs_room [OF this] have "add_arc a b s = Some (link n1 n2 s2)"
        using new False by (simp add: add_arc_def g1 g2 arc_def arcs_def link_def upd_node_def Let_def)
      with that link_inv [OF N n(1,2) ne new] n show ?thesis by simp
    qed
  qed
qed

text \<open>A built graph is where the sort starts.\<close>

lemma build_sort_core:
  assumes "build_inv N R s" shows "built s" "sort_core op s [] [] s" "clean s"
proof -
  have ai: "\<And>i j. arc s i j \<longleftrightarrow> i < t_brk s \<and> j < t_brk s \<and> i \<noteq> j \<and> (nname s i, nname s j) \<in> R"
    and hi: "\<And>k. t_brk s \<le> k \<Longrightarrow> t_heap s k = new_node []" and g: "t_graph s = rev [0..<t_brk s]"
    using assms by (simp_all add: build_inv_def)
  have out: "arcs s k = []" if "t_brk s \<le> k" for k using hi [OF that] by (simp add: arcs_def new_node_def)
  show "built s" using assms ai out by (fastforce simp: built_def arcs_ok_def build_inv_def arc_def)
  have "{i. arc s i j} = {i \<in> set (t_graph s). arc s i j}" for j using ai g by auto
  then have "n_refcnt (t_heap s j) = int (card {i \<in> set (t_graph s). arc s i j})" for j
    using assms by (simp add: build_inv_def)
  moreover have "arcs s n = (if n \<in> set (t_graph s) then arcs s n else [])" for n using out g by simp
  ultimately show "sort_core op s [] [] s"
    using assms by (auto simp: sort_core_def ordered_def reports_def build_inv_def)
  show "clean s" using assms by (simp add: clean_def build_inv_def)
qed

end
