(* ===== verification/Tsort_Main.thy ===== *)
theory Tsort_Main
  imports Tsort_Build
begin

text \<open>
  tsort as a program on its input: the words of the input, the relation that they list in pairs,
  and what is printed for it.
\<close>

subsection \<open>The input as a relation\<close>

function words :: "string \<Rightarrow> string list" where
  "words inp = (case dropWhile isspace inp of
     [] \<Rightarrow> []
   | c # cs \<Rightarrow> (c # takeWhile (\<lambda>x. \<not> isspace x) cs) # words (dropWhile (\<lambda>x. \<not> isspace x) cs))"
  by pat_completeness auto
termination
proof (relation "measure length", goal_cases)
  case (2 inp c cs)
  have "length (dropWhile (\<lambda>x. \<not> isspace x) cs) \<le> length cs" by (rule length_dropWhile_le)
  also have "length cs < length inp" using 2 length_dropWhile_le [of isspace inp] by simp
  finally show ?case by simp
qed simp

declare words.simps [simp del]

definition input_names :: "string \<Rightarrow> string list" where "input_names inp = map cstr (words inp)"

fun pairs :: "'a list \<Rightarrow> ('a \<times> 'a) list" where
  "pairs (a # b # r) = (a, b) # pairs r"
| "pairs r = []"

definition strict_pairs :: "'a list \<Rightarrow> ('a \<times> 'a) set" where
  "strict_pairs ns = {(a, b) \<in> set (pairs ns). a \<noteq> b}"

definition before :: "'a list \<Rightarrow> 'a \<Rightarrow> 'a \<Rightarrow> bool" where
  "before ns a b \<longleftrightarrow> (\<exists>xs ys. ns = xs @ b # ys \<and> a \<in> set xs)"

definition cycle_in :: "('a \<times> 'a) set \<Rightarrow> 'a list \<Rightarrow> bool" where
  "cycle_in R c \<longleftrightarrow> c \<noteq> [] \<and> distinct c \<and> successively (\<lambda>a b. (a, b) \<in> R) (last c # c)"

fun printed :: "tline list \<Rightarrow> string list" where
  "printed [] = []"
| "printed (Line n # ts) = n # printed ts"
| "printed (Trace _ _ _ _ # ts) = printed ts"

definition ends_of :: "'a list \<Rightarrow> 'a set" where
  "ends_of ns = fst ` set (pairs ns) \<union> snd ` set (pairs ns)"

lemma ends_of_even: "even (length ns) \<Longrightarrow> ends_of ns = set ns"
  by (induction ns rule: pairs.induct) (auto simp: ends_of_def)

lemma printed_lines: "filter is_line ts = map Line ns \<Longrightarrow> printed ts = ns"
  by (induction ts arbitrary: ns rule: printed.induct) (auto simp: is_line_def)

subsection \<open>Reading\<close>

lemma read_word_total: "length buf < b \<Longrightarrow> \<exists>x. read_word b buf cs = Some x"
  by (induction b buf cs rule: read_word.induct) (auto simp: Let_def)

lemma read_word_word:
  assumes "0 < b"
  obtains b' where "0 < b'" "read_word b [] (c # cs) =
    Some (c # takeWhile (\<lambda>x. \<not> isspace x) cs, b', dropWhile (\<lambda>x. \<not> isspace x) cs)"
proof -
  obtain w b' r where e: "read_word b [] (c # cs) = Some (w, b', r)"
    using read_word_total [of "[]" b "c # cs"] assms by auto
  with read_word_exact [OF e] that [of b'] show ?thesis by auto
qed

lemma read_pairs_inv:
  "build_inv N R s \<Longrightarrow> 0 < b0 \<Longrightarrow> 0 < b1 \<Longrightarrow>
   ws = (case first of None \<Rightarrow> words inp | Some w \<Rightarrow> w # words inp) \<Longrightarrow>
   \<exists>s'. read_pairs (b0, b1) first inp s = Some (odd (length ws), s') \<and>
     build_inv (N \<union> ends_of (map cstr ws)) (R \<union> set (pairs (map cstr ws))) s'"
proof (induction "(b0, b1)" first inp s arbitrary: N R b0 b1 ws rule: read_pairs.induct)
  case (1 b0 b1 first inp s)
  show ?case
  proof (cases "dropWhile isspace inp")
    case Nil
    have "words inp = []" by (subst words.simps) (simp only: Nil list.case)
    moreover have "read_pairs (b0, b1) first inp s = Some (first \<noteq> None, s)"
      by (subst read_pairs.simps) (simp only: Nil list.case)
    ultimately show ?thesis using 1(3,6) by (auto simp: ends_of_def split: option.splits)
  next
    case (Cons c cs)
    let ?w = "c # takeWhile (\<lambda>x. \<not> isspace x) cs" and ?r = "dropWhile (\<lambda>x. \<not> isspace x) cs"
    have ws: "words inp = ?w # words ?r" using Cons by (subst words.simps) simp
    show ?thesis
    proof (cases first)
      case None
      obtain b0' where r: "0 < b0'" "read_word b0 [] (c # cs) = Some (?w, b0', ?r)" using read_word_word [OF 1(4)] .
      have e: "read_pairs (b0, b1) first inp s = read_pairs (b0', b1) (Some ?w) ?r s"
        using Cons None r(2) by (subst read_pairs.simps) (simp del: read_word.simps)
      have "ws = (case Some ?w of None \<Rightarrow> words ?r | Some w \<Rightarrow> w # words ?r)" using 1(6) None ws by simp
      from 1(1) [OF Cons None r(2) refl refl 1(3) r(1) 1(5) this] show ?thesis unfolding e .
    next
      case (Some w0)
      obtain b1' where r: "0 < b1'" "read_word b1 [] (c # cs) = Some (?w, b1', ?r)" using read_word_word [OF 1(5)] .
      obtain s' where a: "add_arc (cstr w0) (cstr ?w) s = Some s'"
        "build_inv (insert (cstr w0) (insert (cstr ?w) N)) (insert (cstr w0, cstr ?w) R) s'"
        using add_arc_inv [OF 1(3)] .
      have e: "read_pairs (b0, b1) first inp s = read_pairs (b0, b1') None ?r s'"
        using Cons Some r(2) a(1) by (subst read_pairs.simps) (simp del: read_word.simps)
      have w: "ws = w0 # ?w # words ?r" using 1(6) Some ws by simp
      from 1(2) [OF Cons Some r(2) refl refl a(1,2) 1(4) r(1) refl] show ?thesis unfolding e w
        by (simp add: ends_of_def insert_commute Un_ac)
    qed
  qed
qed

subsection \<open>From nodes to names\<close>

lemma named_cycle:
  assumes inv: "build_inv N (set (pairs ns)) s" and c: "is_cycle s (last c) c"
  shows "cycle_in (strict_pairs ns) (map (nname s) c)"
proof -
  have step: "(nname s i, nname s j) \<in> strict_pairs ns \<and> i < t_brk s \<and> j < t_brk s" if "arc s i j" for i j
    using that inv by (auto simp: build_inv_def strict_pairs_def inj_on_def)
  have c': "c \<noteq> []" "distinct c" "successively (arc s) (last c # c)" using c by (auto simp: is_cycle_def)
  have "set c \<subseteq> {..<t_brk s}" if "successively (arc s) (x # c)" for x
    using that
  proof (induction c arbitrary: x)
    case (Cons y c)
    then show ?case using step [of x y] by (cases c) auto
  qed simp
  then have "inj_on (nname s) (set c)" using c'(3) inv by (meson build_inv_def inj_on_subset)
  moreover have "successively (\<lambda>a b. (a, b) \<in> strict_pairs ns) (map (nname s) (last c # c))"
    unfolding successively_map using c'(3) by (rule successively_mono) (use step in auto)
  ultimately show ?thesis using c'(1,2) by (simp add: cycle_in_def distinct_map last_map)
qed

lemma cycle_in_trancl:
  assumes "cycle_in R c" shows "(last c, last c) \<in> R\<^sup>+"
proof -
  have "(x, last (x # xs)) \<in> R\<^sup>*" if "successively (\<lambda>a b. (a, b) \<in> R) (x # xs)" for x xs
    using that by (induction xs arbitrary: x) (auto intro: converse_rtrancl_into_rtrancl)
  moreover obtain y ys where c: "c = y # ys" using assms by (cases c) (auto simp: cycle_in_def)
  moreover have "(last c, y) \<in> R" "successively (\<lambda>a b. (a, b) \<in> R) (y # ys)" using assms c by (auto simp: cycle_in_def)
  ultimately show ?thesis by (metis rtrancl_into_trancl2)
qed

lemma named_order:
  assumes inv: "build_inv N (set (pairs ns)) s" and rs: "set rs = {..<t_brk s}" and o: "ordered s cs rs"
    and ab: "(a, b) \<in> strict_pairs ns" and cs: "\<forall>c \<in> set cs. c \<noteq> []"
  shows "before (map (nname s) rs) a b \<or> b \<in> last ` set (map (map (nname s)) cs)"
proof -
  have R: "(a, b) \<in> set (pairs ns)" "a \<noteq> b" "a \<in> N" "b \<in> N"
    using ab inv by (auto simp: strict_pairs_def build_inv_def)
  then obtain i j where ij: "i < t_brk s" "j < t_brk s" "nname s i = a" "nname s j = b"
    using inv by (auto simp: build_inv_def)
  then have arc: "arc s i j" using R inv by (auto simp: build_inv_def)
  obtain xs ys where x: "rs = xs @ j # ys" using rs ij(2) by (metis lessThan_iff split_list)
  show ?thesis
  proof (cases "j \<in> last ` set cs")
    case True
    then obtain c where "c \<in> set cs" "j = last c" by auto
    then have "b = last (map (nname s) c)" using cs ij(4) by (simp add: last_map)
    with \<open>c \<in> set cs\<close> show ?thesis by auto
  next
    case False
    then have "i \<in> set xs" using o x arc unfolding ordered_def by blast
    then show ?thesis using x ij unfolding before_def
      by (intro disjI1 exI [of _ "map (nname s) xs"] exI [of _ "map (nname s) ys"]) auto
  qed
qed

lemma read_input:
  obtains s where "read_pairs (1024, 1024) None inp tstart = Some (odd (length (input_names inp)), s)"
    "build_inv (ends_of (input_names inp)) (set (pairs (input_names inp))) s"
  using read_pairs_inv [OF build_inv_start, where ?b0.0 = 1024 and ?b1.0 = 1024 and first = None and inp = inp] by (auto simp: input_names_def)

lemma tsort_result:
  assumes "even (length (input_names inp))"
  obtains s cs where "tsort_main op inp = Some (None, s)" "distinct (printed (t_out s))"
    "set (printed (t_out s)) = set (input_names inp)"
    "\<And>a b. (a, b) \<in> strict_pairs (input_names inp) \<Longrightarrow> before (printed (t_out s)) a b \<or> b \<in> last ` set cs"
    "\<And>c. c \<in> set cs \<Longrightarrow> cycle_in (strict_pairs (input_names inp)) c"
    "t_err s = (if t_quiet op then [] else concat (map (\<lambda>c. ''cycle in data'' # c) cs))"
proof -
  let ?ns = "input_names inp"
  obtain s0 where r: "read_pairs (1024, 1024) None inp tstart = Some (odd (length ?ns), s0)"
    and inv: "build_inv (ends_of ?ns) (set (pairs ?ns)) s0" using read_input .
  obtain s rs cs where s: "tsort op s0 = Some (None, s)" "sort_core op s0 rs cs s" "t_graph s = []"
    using tsort_core build_sort_core [OF inv] by blast
  have rs: "distinct rs" "set rs = {..<t_brk s0}" "ordered s0 cs rs" "\<forall>c \<in> set cs. is_cycle s0 (last c) c"
    and err: "t_err s = reports op s0 cs" and lines: "filter is_line (t_out s) = map (\<lambda>n. Line (nname s0 n)) rs"
    using s(2,3) by (simp_all add: sort_core_def)
  have p: "printed (t_out s) = map (nname s0) rs" using lines by (intro printed_lines) (simp add: comp_def)
  have i: "inj_on (nname s0) {..<t_brk s0}" "nname s0 ` {..<t_brk s0} = set ?ns"
    using inv ends_of_even [OF assms] by (simp_all add: build_inv_def)
  show ?thesis
  proof (rule that [of s "map (map (nname s0)) cs"])
    show "tsort_main op inp = Some (None, s)" using assms s(1) by (simp add: tsort_main_def r)
    show "distinct (printed (t_out s))" "set (printed (t_out s)) = set ?ns"
      using rs(1,2) i by (simp_all add: p distinct_map)
    show "before (printed (t_out s)) a b \<or> b \<in> last ` set (map (map (nname s0)) cs)"
      if "(a, b) \<in> strict_pairs ?ns" for a b
      unfolding p using rs(4) by (intro named_order [OF inv rs(2,3) that]) (auto simp: is_cycle_def)
    show "cycle_in (strict_pairs ?ns) c" if "c \<in> set (map (map (nname s0)) cs)" for c
      using that rs(4) named_cycle [OF inv] by auto
    show "t_err s = (if t_quiet op then [] else concat (map (\<lambda>c. ''cycle in data'' # c) (map (map (nname s0)) cs)))"
      by (simp add: err reports_def comp_def)
  qed
qed

subsection \<open>What tsort does\<close>

text \<open>
  C7. On every input tsort comes to an end inside its buffers. If a word is left over it prints
  nothing and fails with the message "odd data count". Otherwise it exits with status 0 and
  prints every word of the input exactly once; for every pair of different words the first is
  printed before the second, unless the second is the last word of a reported cycle; and every
  reported cycle is a cycle of different words in the input.
\<close>

theorem tsort_breaks_cycles:
  "if odd (length (input_names inp))
   then \<exists>s. tsort_main op inp = Some (Some ''odd data count'', s) \<and> t_out s = [] \<and> t_err s = []
   else \<exists>s cs. tsort_main op inp = Some (None, s) \<and> distinct (printed (t_out s)) \<and>
     set (printed (t_out s)) = set (input_names inp) \<and>
     (\<forall>(a, b) \<in> strict_pairs (input_names inp). before (printed (t_out s)) a b \<or> b \<in> last ` set cs) \<and>
     (\<forall>c \<in> set cs. cycle_in (strict_pairs (input_names inp)) c) \<and>
     t_err s = (if t_quiet op then [] else concat (map (\<lambda>c. ''cycle in data'' # c) cs))"
proof (cases "odd (length (input_names inp))")
  case True
  obtain s where "read_pairs (1024, 1024) None inp tstart = Some (True, s)"
    and inv: "build_inv (ends_of (input_names inp)) (set (pairs (input_names inp))) s"
    using read_input [of inp] True by auto
  then have "tsort_main op inp = Some (Some ''odd data count'', s)" by (simp add: tsort_main_def)
  moreover have "t_out s = []" "t_err s = []" using inv by (simp_all add: build_inv_def)
  ultimately show ?thesis using True by simp
next
  case False
  then have "even (length (input_names inp))" by simp
  then show ?thesis unfolding if_not_P [OF False] by (rule tsort_result [of inp op]) blast
qed

theorem tsort_breaks_cycles_witness:
  "\<exists>s cs. tsort_main \<lparr>t_debug = False, t_longest = False, t_quiet = False\<rparr> ''a b b a b c'' = Some (None, s) \<and>
     distinct (printed (t_out s)) \<and> set (printed (t_out s)) = {''a'', ''b'', ''c''} \<and>
     (before (printed (t_out s)) ''b'' ''c'' \<or> ''c'' \<in> last ` set cs) \<and>
     (\<forall>c \<in> set cs. cycle_in {(''a'', ''b''), (''b'', ''a''), (''b'', ''c'')} c)"
proof -
  have n: "input_names ''a b b a b c'' = [''a'', ''b'', ''b'', ''a'', ''b'', ''c'']" by code_simp
  have p: "strict_pairs [''a'', ''b'', ''b'', ''a'', ''b'', ''c''] = {(''a'', ''b''), (''b'', ''a''), (''b'', ''c'')}"
    by (auto simp: strict_pairs_def)
  have "\<not> odd (length [''a'', ''b'', ''b'', ''a'', ''b'', ''c''])" by simp
  from tsort_breaks_cycles [of "''a b b a b c''" "\<lparr>t_debug = False, t_longest = False, t_quiet = False\<rparr>",
      unfolded n p if_not_P [OF this]]
  obtain s cs where s: "tsort_main \<lparr>t_debug = False, t_longest = False, t_quiet = False\<rparr> ''a b b a b c'' = Some (None, s)"
    "distinct (printed (t_out s))" "set (printed (t_out s)) = set [''a'', ''b'', ''b'', ''a'', ''b'', ''c'']"
    "\<forall>(a, b) \<in> {(''a'', ''b''), (''b'', ''a''), (''b'', ''c'')}. before (printed (t_out s)) a b \<or> b \<in> last ` set cs"
    "\<forall>c \<in> set cs. cycle_in {(''a'', ''b''), (''b'', ''a''), (''b'', ''c'')} c" by blast
  have "set [''a'', ''b'', ''b'', ''a'', ''b'', ''c''] = {''a'', ''b'', ''c''}" by auto
  with s show ?thesis by (intro exI [of _ s] exI [of _ cs]) simp
qed

text \<open>
  C22. When the pairs of different words have no cycle, tsort prints every word once in an
  order in which the first word of each pair comes before the second, and reports nothing.
\<close>

theorem tsort_topological:
  assumes "even (length (input_names inp))" "acyclic (strict_pairs (input_names inp))"
  shows "\<exists>s. tsort_main op inp = Some (None, s) \<and> distinct (printed (t_out s)) \<and>
    set (printed (t_out s)) = set (input_names inp) \<and>
    (\<forall>(a, b) \<in> strict_pairs (input_names inp). before (printed (t_out s)) a b) \<and> t_err s = []"
proof -
  obtain s cs where s: "tsort_main op inp = Some (None, s)" "distinct (printed (t_out s))"
    "set (printed (t_out s)) = set (input_names inp)"
    "\<And>a b. (a, b) \<in> strict_pairs (input_names inp) \<Longrightarrow> before (printed (t_out s)) a b \<or> b \<in> last ` set cs"
    "\<And>c. c \<in> set cs \<Longrightarrow> cycle_in (strict_pairs (input_names inp)) c"
    "t_err s = (if t_quiet op then [] else concat (map (\<lambda>c. ''cycle in data'' # c) cs))"
    using tsort_result [OF assms(1)] by blast
  have "cs = []"
  proof (cases cs)
    case (Cons c cs')
    then have "(last c, last c) \<in> (strict_pairs (input_names inp))\<^sup>+" using s(5) by (intro cycle_in_trancl) simp
    with assms(2) show ?thesis by (auto simp: acyclic_def)
  qed
  with s show ?thesis by auto
qed

theorem tsort_topological_witness:
  "\<exists>s. tsort_main \<lparr>t_debug = False, t_longest = False, t_quiet = False\<rparr> ''a b b c'' = Some (None, s) \<and>
     before (printed (t_out s)) ''a'' ''b'' \<and> before (printed (t_out s)) ''b'' ''c'' \<and> t_err s = []"
proof -
  have n: "input_names ''a b b c'' = [''a'', ''b'', ''b'', ''c'']" by code_simp
  have p: "strict_pairs [''a'', ''b'', ''b'', ''c''] = {(''a'', ''b''), (''b'', ''c'')}"
    by (auto simp: strict_pairs_def)
  have "{(''a'', ''b''), (''b'', ''c'')} \<subseteq> measure (\<lambda>w. if w = ''a'' then 0 else if w = ''b'' then 1 else 2)"
    by simp
  then have "acyclic {(''a'', ''b''), (''b'', ''c'')}"
    by (rule acyclic_subset [OF wf_acyclic [OF wf_measure]])
  with tsort_topological [of "''a b b c''" "\<lparr>t_debug = False, t_longest = False, t_quiet = False\<rparr>"]
  show ?thesis unfolding n p by auto
qed

text \<open>
  With -l the search does not find the longest cycle: on these five pairs it reports the
  cycle of m and t, although the cycle of y, m and t through the same node t is longer.
\<close>

theorem longest_cycle_missed:
  "map_option (\<lambda>(msg, s). (msg, take 4 (t_err s)))
     (tsort_main \<lparr>t_debug = False, t_longest = True, t_quiet = False\<rparr> ''m y y m m t t m t y'') =
   Some (None, [''cycle in data'', ''m'', ''t'', ''cycle in data'']) \<and>
   cycle_in (strict_pairs (input_names ''m y y m m t t m t y'')) [''y'', ''m'', ''t'']"
proof
  show "map_option (\<lambda>(msg, s). (msg, take 4 (t_err s)))
     (tsort_main \<lparr>t_debug = False, t_longest = True, t_quiet = False\<rparr> ''m y y m m t t m t y'') =
   Some (None, [''cycle in data'', ''m'', ''t'', ''cycle in data''])" by code_simp
  have n: "input_names ''m y y m m t t m t y'' =
      [''m'', ''y'', ''y'', ''m'', ''m'', ''t'', ''t'', ''m'', ''t'', ''y'']" by code_simp
  show "cycle_in (strict_pairs (input_names ''m y y m m t t m t y'')) [''y'', ''m'', ''t'']"
    by (simp add: n cycle_in_def strict_pairs_def)
qed

end
