(* ===== verification/Find_Plan.thy ===== *)
theory Find_Plan
  imports Cmd_Prelude
begin

text \<open>
  The expression compiler of find: shell_cmds/find/operator.c, find_formplan of find.c and the
  evaluation of operator nodes in function.c. A plan is the linked list of its nodes; \<open>Prim\<close> is a
  node of any primary. A node of an operator has two forms, as find_create makes it, without a
  subplan (its union is not initialised then), and with the subplans that operator.c puts there.
  Reading a subplan that was never set is the error \<open>Wild\<close>.
\<close>

subsection \<open>Plans\<close>

datatype 'p plan_node =
    Prim 'p | Openparen | Closeparen | Not_op | Or_op
  | Expr "'p plan_node list" | Not "'p plan_node list" | Or "'p plan_node list" "'p plan_node list"

type_synonym 'p plan = "'p plan_node list"

datatype find_error =
    Missing_close | Empty_inner | No_beginning | Not_nothing | Not_before_or
  | Or_nothing_before | Or_nothing_after | Wild | Too_deep

fun is_not :: "'p plan_node \<Rightarrow> bool" where
  "is_not Not_op = True"
| "is_not (Not _) = True"
| "is_not _ = False"

fun is_or :: "'p plan_node \<Rightarrow> bool" where
  "is_or Or_op = True"
| "is_or (Or _ _) = True"
| "is_or _ = False"

fun is_openparen :: "'p plan_node \<Rightarrow> bool" where
  "is_openparen Openparen = True"
| "is_openparen _ = False"

fun is_closeparen :: "'p plan_node \<Rightarrow> bool" where
  "is_closeparen Closeparen = True"
| "is_closeparen _ = False"

lemma is_paren_iff [simp]:
  "is_openparen n \<longleftrightarrow> n = Openparen" "is_closeparen n \<longleftrightarrow> n = Closeparen" by (cases n; simp)+

subsection \<open>Parentheses\<close>

text \<open>
  \<open>yankexpr\<close> takes an expression off the plan, \<open>slurp\<close> is its loop behind an opening parenthesis.
  The first number bounds the calls; two of them remove at least one node.
\<close>

fun yankexpr :: "nat \<Rightarrow> 'p plan \<Rightarrow> find_error + ('p plan_node option \<times> 'p plan)"
and slurp :: "nat \<Rightarrow> 'p plan \<Rightarrow> 'p plan \<Rightarrow> find_error + ('p plan_node option \<times> 'p plan)" where
  "yankexpr k [] = Inr (None, [])"
| "yankexpr 0 (n # ns) = Inl Too_deep"
| "yankexpr (Suc k) (n # ns) =
     (if is_openparen n then slurp k [] ns else Inr (Some n, ns))"
| "slurp 0 subplan ns = Inl Too_deep"
| "slurp (Suc k) subplan ns =
     (case yankexpr k ns of
        Inl e \<Rightarrow> Inl e
      | Inr (None, _) \<Rightarrow> Inl Missing_close
      | Inr (Some next, r) \<Rightarrow>
          if is_closeparen next
          then (if subplan = [] then Inl Empty_inner else Inr (Some (Expr subplan), r))
          else slurp k (subplan @ [next]) r)"

fun paren_loop :: "nat \<Rightarrow> 'p plan \<Rightarrow> 'p plan \<Rightarrow> find_error + 'p plan" where
  "paren_loop 0 result plan = Inl Too_deep"
| "paren_loop (Suc k) result plan =
     (case yankexpr (Suc k) plan of
        Inl e \<Rightarrow> Inl e
      | Inr (None, _) \<Rightarrow> Inr result
      | Inr (Some expr, r) \<Rightarrow>
          if is_closeparen expr then Inl No_beginning
          else paren_loop k (result @ [expr]) r)"

definition paren_squish :: "'p plan \<Rightarrow> find_error + 'p plan" where
  "paren_squish plan = paren_loop (2 * length plan + 1) [] plan"

subsection \<open>Negations\<close>

lemma size_dropWhile: "size_list f (dropWhile P xs) \<le> size_list f xs"
  by (induction xs) auto

function not_squish :: "'p plan \<Rightarrow> find_error + 'p plan" where
  "not_squish [] = Inr []"
| "not_squish (next # plan) =
     (if is_not next then
        (case dropWhile is_not plan of
           [] \<Rightarrow> Inl Not_nothing
         | node # rest \<Rightarrow>
             if is_or node then Inl Not_before_or
             else bind_result (case node of
                      Expr subplan \<Rightarrow> bind_result (not_squish subplan) (\<lambda>s. Inr (Expr s))
                    | _ \<Rightarrow> Inr node)
                  (\<lambda>node'. bind_result (not_squish rest) (\<lambda>r.
                     Inr ((if (1 + length (takeWhile is_not plan)) mod 2 \<noteq> 1 then node' else Not [node']) # r))))
      else bind_result (case next of
               Expr subplan \<Rightarrow> bind_result (not_squish subplan) (\<lambda>s. Inr (Expr s))
             | _ \<Rightarrow> Inr next)
           (\<lambda>next'. bind_result (not_squish plan) (\<lambda>r. Inr (next' # r))))"
  by pat_completeness auto
termination
proof (relation "measure (size_list size)", goal_cases)
  case (2 nxt plan node rest subplan)
  with size_dropWhile [of size is_not plan] show ?case by simp
next
  case (3 nxt plan node rest n')
  with size_dropWhile [of size is_not plan] show ?case by simp
qed auto

declare not_squish.simps(2) [simp del]

subsection \<open>Alternatives\<close>

text \<open>\<open>or_squish plan\<close> is \<open>or_loop [] plan\<close>; the first list is the result collected so far.\<close>

function or_loop :: "'p plan \<Rightarrow> 'p plan \<Rightarrow> find_error + 'p plan" where
  "or_loop result [] = Inr result"
| "or_loop result (next # plan) =
     (case next of
        Or_op \<Rightarrow>
          if result = [] then Inl Or_nothing_before
          else bind_result (or_loop [] plan) (\<lambda>b.
                 if b = [] then Inl Or_nothing_after else Inr [Or result b])
      | Or _ _ \<Rightarrow>
          if result = [] then Inl Or_nothing_before
          else bind_result (or_loop [] plan) (\<lambda>b.
                 if b = [] then Inl Or_nothing_after else Inr [Or result b])
      | Expr subplan \<Rightarrow> bind_result (or_loop [] subplan) (\<lambda>s. or_loop (result @ [Expr s]) plan)
      | Not subplan \<Rightarrow> bind_result (or_loop [] subplan) (\<lambda>s. or_loop (result @ [Not s]) plan)
      | Not_op \<Rightarrow> Inl Wild
      | _ \<Rightarrow> or_loop (result @ [next]) plan)"
  by pat_completeness auto
termination
  by (relation "measure (\<lambda>(result, plan). size_list size plan)") auto

definition or_squish :: "'p plan \<Rightarrow> find_error + 'p plan" where
  "or_squish plan = or_loop [] plan"

subsection \<open>The whole plan\<close>

text \<open>
  \<open>find_formplan\<close> from the nodes that find_create made; \<open>isoutput\<close> is the global flag that a primary
  with an output was among them, and \<open>print\<close> the primary -print.
\<close>

definition squish :: "'p plan \<Rightarrow> find_error + 'p plan" where
  "squish plan = bind_result (paren_squish plan) (\<lambda>plan.
     bind_result (not_squish plan) (\<lambda>plan. or_squish plan))"

definition find_formplan :: "'p \<Rightarrow> bool \<Rightarrow> 'p plan \<Rightarrow> find_error + 'p plan" where
  "find_formplan print isoutput plan =
     squish (if isoutput then plan
             else if plan = [] then [Prim print]
             else Openparen # plan @ [Closeparen, Prim print])"

text \<open>
  The evaluation of a plan on a file. A primary is a function of the state, which holds the file
  and all effects; \<open>None\<close> is a primary that does not return. \<open>exec_list\<close> is the loop that f_expr,
  f_not, f_or and find_execute share; its value is that of the last node.
\<close>

fun f_node :: "('p \<Rightarrow> 'w \<Rightarrow> (int \<times> 'w) option) \<Rightarrow> 'p plan_node \<Rightarrow> 'w \<Rightarrow> (int \<times> 'w) option"
and exec_list :: "('p \<Rightarrow> 'w \<Rightarrow> (int \<times> 'w) option) \<Rightarrow> int \<Rightarrow> 'p plan \<Rightarrow> 'w \<Rightarrow> (int \<times> 'w) option" where
  "f_node prim (Prim p) w = prim p w"
| "f_node prim Openparen w = None"
| "f_node prim Closeparen w = None"
| "f_node prim Not_op w = None"
| "f_node prim Or_op w = None"
| "f_node prim (Expr ps) w = exec_list prim 0 ps w"
| "f_node prim (Not ps) w =
     (case exec_list prim 0 ps w of
        None \<Rightarrow> None
      | Some (state, w) \<Rightarrow> Some (if state = 0 then 1 else 0, w))"
| "f_node prim (Or ps qs) w =
     (case exec_list prim 0 ps w of
        None \<Rightarrow> None
      | Some (state, w) \<Rightarrow> if state \<noteq> 0 then Some (1, w) else exec_list prim state qs w)"
| "exec_list prim state [] w = Some (state, w)"
| "exec_list prim state (p # ps) w =
     (case f_node prim p w of
        None \<Rightarrow> None
      | Some (state, w) \<Rightarrow> if state \<noteq> 0 then exec_list prim state ps w else Some (state, w))"

end
