(* ===== verification/Find_Expr.thy ===== *)
theory Find_Expr
  imports Find_Plan
begin

text \<open>
  The grammar of find's expressions and its meaning, and the proof that the plan find_formplan
  builds is the plan of the expression, for exactly the words of the grammar. An expression is a
  list of alternatives, an alternative a list of factors, and a factor a primary or an expression
  in parentheses behind any number of negations.
\<close>

subsection \<open>Expressions\<close>

datatype 'p factor = FPrim nat 'p | FParen nat "'p factor list list"

type_synonym 'p expr = "'p factor list list"

fun join_or :: "'p plan list \<Rightarrow> 'p plan" where
  "join_or [] = []"
| "join_or [s] = s"
| "join_or (s # ss) = s @ Or_op # join_or ss"

primrec factor_toks :: "'p factor \<Rightarrow> 'p plan" where
  "factor_toks (FPrim k p) = replicate k Not_op @ [Prim p]"
| "factor_toks (FParen k e) =
     replicate k Not_op @ Openparen # join_or (map concat (map (map factor_toks) e)) @ [Closeparen]"

definition expr_toks :: "'p expr \<Rightarrow> 'p plan" where
  "expr_toks e = join_or (map (\<lambda>s. concat (map factor_toks s)) e)"

primrec wf_factor :: "'p factor \<Rightarrow> bool" where
  "wf_factor (FPrim k p) = True"
| "wf_factor (FParen k e) = (e \<noteq> [] \<and> list_all (\<lambda>s. s \<noteq> [] \<and> list_all id s) (map (map wf_factor) e))"

definition wf_expr :: "'p expr \<Rightarrow> bool" where
  "wf_expr e \<longleftrightarrow> e \<noteq> [] \<and> (\<forall>s \<in> set e. s \<noteq> [] \<and> (\<forall>f \<in> set s. wf_factor f))"

lemma wf_factor_paren [simp]: "wf_factor (FParen k e) \<longleftrightarrow> wf_expr e"
  by (auto simp: wf_expr_def list_all_iff)

declare wf_factor.simps(2) [simp del]

text \<open>The meaning: short-circuit evaluation, with the effects of the primaries in order.\<close>

definition negate :: "nat \<Rightarrow> (bool \<times> 'w) option \<Rightarrow> (bool \<times> 'w) option" where
  "negate k r = map_option (\<lambda>(b, w). (if even k then b else \<not> b, w)) r"

fun all_of :: "('w \<Rightarrow> (bool \<times> 'w) option) list \<Rightarrow> 'w \<Rightarrow> (bool \<times> 'w) option" where
  "all_of [] w = Some (True, w)"
| "all_of (f # fs) w =
     (case f w of None \<Rightarrow> None | Some (b, w) \<Rightarrow> if b then all_of fs w else Some (False, w))"

fun any_of :: "('w \<Rightarrow> (bool \<times> 'w) option) list \<Rightarrow> 'w \<Rightarrow> (bool \<times> 'w) option" where
  "any_of [] w = Some (False, w)"
| "any_of (f # fs) w =
     (case f w of None \<Rightarrow> None | Some (b, w) \<Rightarrow> if b then Some (True, w) else any_of fs w)"

definition truth :: "(int \<times> 'w) option \<Rightarrow> (bool \<times> 'w) option" where
  "truth r = map_option (\<lambda>(v, w). (v \<noteq> 0, w)) r"

primrec eval_factor :: "('p \<Rightarrow> 'w \<Rightarrow> (int \<times> 'w) option) \<Rightarrow> 'p factor \<Rightarrow> 'w \<Rightarrow> (bool \<times> 'w) option" where
  "eval_factor prim (FPrim k p) = (\<lambda>w. negate k (truth (prim p w)))"
| "eval_factor prim (FParen k e) = (\<lambda>w. negate k (any_of (map all_of (map (map (eval_factor prim)) e)) w))"

definition eval_expr :: "('p \<Rightarrow> 'w \<Rightarrow> (int \<times> 'w) option) \<Rightarrow> 'p expr \<Rightarrow> 'w \<Rightarrow> (bool \<times> 'w) option" where
  "eval_expr prim e = any_of (map (\<lambda>s. all_of (map (eval_factor prim) s)) e)"

subsection \<open>The plans after each pass\<close>

primrec paren_toks :: "'p factor \<Rightarrow> 'p plan" where
  "paren_toks (FPrim k p) = replicate k Not_op @ [Prim p]"
| "paren_toks (FParen k e) = replicate k Not_op @ [Expr (join_or (map concat (map (map paren_toks) e)))]"

definition paren_plan :: "'p expr \<Rightarrow> 'p plan" where
  "paren_plan e = join_or (map (\<lambda>s. concat (map paren_toks s)) e)"

definition neg_node :: "nat \<Rightarrow> 'p plan_node \<Rightarrow> 'p plan_node" where
  "neg_node k n = (if even k then n else Not [n])"

primrec not_node :: "'p factor \<Rightarrow> 'p plan_node" where
  "not_node (FPrim k p) = neg_node k (Prim p)"
| "not_node (FParen k e) = neg_node k (Expr (join_or (map (map not_node) e)))"

fun alternatives :: "'p plan list \<Rightarrow> 'p plan" where
  "alternatives [] = []"
| "alternatives [s] = s"
| "alternatives (s # ss) = [Or s (alternatives ss)]"

primrec or_node :: "'p factor \<Rightarrow> 'p plan_node" where
  "or_node (FPrim k p) = neg_node k (Prim p)"
| "or_node (FParen k e) = neg_node k (Expr (alternatives (map (map or_node) e)))"

definition expr_plan :: "'p expr \<Rightarrow> 'p plan" where
  "expr_plan e = alternatives (map (map or_node) e)"

lemma join_or_Cons: "join_or (s # ss) = (if ss = [] then s else s @ Or_op # join_or ss)"
  by (cases ss) auto

lemma alternatives_Cons: "alternatives (s # ss) = (if ss = [] then s else [Or s (alternatives ss)])"
  by (cases ss) auto

subsection \<open>Parentheses\<close>

primrec unparen :: "'p plan_node \<Rightarrow> 'p plan" where
  "unparen (Prim p) = [Prim p]"
| "unparen Openparen = [Openparen]"
| "unparen Closeparen = [Closeparen]"
| "unparen Not_op = [Not_op]"
| "unparen Or_op = [Or_op]"
| "unparen (Expr s) = Openparen # concat (map unparen s) @ [Closeparen]"
| "unparen (Not s) = [Not s]"
| "unparen (Or a b) = [Or a b]"

primrec plain :: "'p plan_node \<Rightarrow> bool" where
  "plain (Prim p) = True"
| "plain Openparen = False"
| "plain Closeparen = False"
| "plain Not_op = True"
| "plain Or_op = True"
| "plain (Expr s) = (s \<noteq> [] \<and> list_all id (map plain s))"
| "plain (Not s) = False"
| "plain (Or a b) = False"

lemma plain_Expr [simp]: "plain (Expr s) \<longleftrightarrow> s \<noteq> [] \<and> (\<forall>n \<in> set s. plain n)"
  by (auto simp: list_all_iff)

declare plain.simps(6) [simp del]

definition is_token :: "'p plan_node \<Rightarrow> bool" where
  "is_token n \<longleftrightarrow> (\<exists>p. n = Prim p) \<or> n = Openparen \<or> n = Closeparen \<or> n = Not_op \<or> n = Or_op"

lemma unparen_pos: "\<exists>m. length (unparen n) = Suc m"
  by (cases n) auto

lemma slurp_unparen:
  assumes "\<And>n k r. n \<in> set q \<Longrightarrow> length (unparen n) < k \<Longrightarrow> yankexpr k (unparen n @ r) = Inr (Some n, r)"
    and "\<forall>n \<in> set q. plain n" "acc @ q \<noteq> []" "length (concat (map unparen q)) + 2 \<le> k"
  shows "slurp k acc (concat (map unparen q) @ Closeparen # r) = Inr (Some (Expr (acc @ q)), r)"
  using assms
proof (induction q arbitrary: acc k)
  case Nil
  then obtain k' where "k = Suc (Suc k')" by (metis add_2_eq_Suc le_Suc_ex add.left_neutral concat.simps(1) list.size(3) map_is_Nil_conv)
  with Nil show ?case by simp
next
  case (Cons n q)
  then obtain k' where k: "k = Suc k'" by (cases k) auto
  have y: "yankexpr k' (unparen n @ concat (map unparen q) @ Closeparen # r) = Inr (Some n, concat (map unparen q) @ Closeparen # r)"
    using Cons(2) [of n k'] Cons(5) k by simp
  have "n \<noteq> Closeparen" "plain n" using Cons(3) by auto
  moreover have "slurp k' (acc @ [n]) (concat (map unparen q) @ Closeparen # r) = Inr (Some (Expr ((acc @ [n]) @ q)), r)"
    using Cons(2,3,5) k unparen_pos [of n] by (intro Cons(1)) auto
  ultimately show ?case using y k by simp
qed

lemma yankexpr_unparen: "plain n \<Longrightarrow> length (unparen n) < k \<Longrightarrow> yankexpr k (unparen n @ r) = Inr (Some n, r)"
proof (induction n arbitrary: k r)
  case (Expr s)
  then obtain k' where k: "k = Suc k'" by (cases k) auto
  have "slurp k' [] (concat (map unparen s) @ Closeparen # r) = Inr (Some (Expr ([] @ s)), r)"
    using Expr k by (intro slurp_unparen) auto
  then show ?case using k by simp
qed (case_tac [!] k, auto)

lemma paren_loop_unparen:
  "\<forall>n \<in> set q. plain n \<Longrightarrow> length (concat (map unparen q)) < k \<Longrightarrow>
   paren_loop k acc (concat (map unparen q)) = Inr (acc @ q)"
proof (induction q arbitrary: acc k)
  case Nil
  then show ?case by (cases k) auto
next
  case (Cons n q)
  then obtain k' where k: "k = Suc k'" by (cases k) auto
  have y: "yankexpr k (unparen n @ concat (map unparen q)) = Inr (Some n, concat (map unparen q))"
    using Cons(2,3) by (intro yankexpr_unparen) auto
  have "paren_loop k' (acc @ [n]) (concat (map unparen q)) = Inr ((acc @ [n]) @ q)"
    using Cons(2,3) k unparen_pos [of n] by (intro Cons(1)) auto
  with y k Cons(2) show ?case by auto
qed

lemma yankexpr_inverse:
  "yankexpr k ts = Inr (x, r) \<Longrightarrow> list_all is_token ts \<Longrightarrow>
   (case x of None \<Rightarrow> ts = [] | Some n \<Rightarrow> n = Closeparen \<and> ts = Closeparen # r \<or> plain n \<and> ts = unparen n @ r) \<and>
   list_all is_token r"
  "slurp k acc ts = Inr (x, r) \<Longrightarrow> list_all is_token ts \<Longrightarrow> \<forall>n \<in> set acc. plain n \<Longrightarrow>
   (\<exists>q. x = Some (Expr (acc @ q)) \<and> acc @ q \<noteq> [] \<and> (\<forall>n \<in> set q. plain n) \<and>
     ts = concat (map unparen q) @ Closeparen # r) \<and> list_all is_token r"
proof (induction k ts and k acc ts arbitrary: x r and x r rule: yankexpr_slurp.induct)
  case (3 k n ns)
  show ?case
  proof (cases "n = Openparen")
    case True
    then show ?thesis using 3 by force
  next
    case False
    then show ?thesis using 3(2,3) by (cases n) (auto simp: is_token_def)
  qed
next
  case (5 k acc ts)
  obtain y r1 where y: "yankexpr k ts = Inr (Some y, r1)"
    using 5(3) by (auto split: sum.splits option.splits prod.splits)
  then have ih: "y = Closeparen \<and> ts = Closeparen # r1 \<or> plain y \<and> ts = unparen y @ r1" "list_all is_token r1"
    using 5(1) [OF y] 5(4) by simp_all
  show ?case
  proof (cases "y = Closeparen")
    case True
    then show ?thesis using 5(3) y ih by (auto split: if_splits)
  next
    case False
    then have p: "plain y" "ts = unparen y @ r1" using ih by auto
    have s: "slurp k (acc @ [y]) r1 = Inr (x, r)" using 5(3) y False by simp
    have a: "\<forall>n \<in> set (acc @ [y]). plain n" using 5(5) p(1) by simp
    have nc: "\<not> is_closeparen y" using False by simp
    from 5(2) [OF y refl refl nc s ih(2) a] obtain q where q: "x = Some (Expr (acc @ y # q))" "\<forall>n \<in> set q. plain n"
      "r1 = concat (map unparen q) @ Closeparen # r" "list_all is_token r" by auto
    then show ?thesis using p by (intro conjI exI [of _ "y # q"]) auto
  qed
qed auto

lemma paren_loop_inverse:
  "paren_loop k acc ts = Inr q \<Longrightarrow> list_all is_token ts \<Longrightarrow>
   \<exists>q'. q = acc @ q' \<and> (\<forall>n \<in> set q'. plain n) \<and> ts = concat (map unparen q')"
proof (induction k acc ts arbitrary: q rule: paren_loop.induct)
  case (2 k acc ts)
  obtain x r where y: "yankexpr (Suc k) ts = Inr (x, r)" using 2(2) by (auto split: sum.splits)
  note inv = yankexpr_inverse(1) [OF y 2(3)]
  show ?case
  proof (cases x)
    case None
    then show ?thesis using 2(2) y inv by (intro exI [of _ "[]"]) simp
  next
    case (Some n)
    then have nc: "n \<noteq> Closeparen" and l: "paren_loop k (acc @ [n]) r = Inr q"
      using 2(2) y by (auto split: if_splits)
    from 2(1) [OF y refl Some _ l] nc inv obtain q' where
      "q = (acc @ [n]) @ q'" "\<forall>n \<in> set q'. plain n" "r = concat (map unparen q')" by auto
    then show ?thesis using inv Some nc by (intro exI [of _ "n # q'"]) auto
  qed
qed simp

lemma paren_squish_iff:
  assumes "list_all is_token ts"
  shows "paren_squish ts = Inr q \<longleftrightarrow> (\<forall>n \<in> set q. plain n) \<and> ts = concat (map unparen q)"
  using paren_loop_inverse [OF _ assms, of _ "[]" q] paren_loop_unparen [of q _ "[]"]
  by (auto simp: paren_squish_def simp del: paren_loop.simps)

lemma join_or_unparen: "concat (map unparen (join_or ss)) = join_or (map (\<lambda>s. concat (map unparen s)) ss)"
  by (induction ss rule: join_or.induct) auto

lemma factor_unparen: "concat (map unparen (paren_toks f)) = factor_toks f"
proof (induction f)
  case (FParen k e)
  have "concat (map unparen (concat (map paren_toks s))) = concat (map factor_toks s)" if "s \<in> set e" for s
    using FParen [OF that] by (induction s) auto
  then show ?case by (simp add: join_or_unparen comp_def cong: map_cong)
qed simp

lemma expr_unparen: "concat (map unparen (paren_plan e)) = expr_toks e"
proof -
  have "concat (map unparen (concat (map paren_toks s))) = concat (map factor_toks s)" for s :: "'a factor list"
    by (induction s) (simp_all add: factor_unparen)
  then show ?thesis by (simp add: paren_plan_def expr_toks_def join_or_unparen comp_def)
qed

lemma set_join_or: "set (join_or ss) \<subseteq> {Or_op} \<union> (\<Union>s \<in> set ss. set s)"
  by (induction ss rule: join_or.induct) auto

lemma join_or_nonempty: "ss \<noteq> [] \<Longrightarrow> [] \<notin> set ss \<Longrightarrow> join_or ss \<noteq> []"
  by (induction ss rule: join_or.induct) auto

lemma paren_toks_ne: "paren_toks f \<noteq> []"
  by (cases f) auto

lemma paren_plan_plain_if:
  assumes "wf_expr e" "\<And>s f n. s \<in> set e \<Longrightarrow> f \<in> set s \<Longrightarrow> n \<in> set (paren_toks f) \<Longrightarrow> plain n"
  shows "paren_plan e \<noteq> [] \<and> (\<forall>n \<in> set (paren_plan e). plain n)"
proof
  show "paren_plan e \<noteq> []" unfolding paren_plan_def
    using assms(1) paren_toks_ne hd_in_set by (intro join_or_nonempty) (fastforce simp: wf_expr_def)+
  show "\<forall>n \<in> set (paren_plan e). plain n"
    using set_join_or [of "map (\<lambda>s. concat (map paren_toks s)) e"] assms(2) by (fastforce simp: paren_plan_def)
qed

lemma paren_toks_plain: "wf_factor f \<Longrightarrow> n \<in> set (paren_toks f) \<Longrightarrow> plain n"
proof (induction f arbitrary: n)
  case (FParen k e)
  then have "paren_plan e \<noteq> [] \<and> (\<forall>n \<in> set (paren_plan e). plain n)"
    by (intro paren_plan_plain_if) (auto simp: wf_expr_def)
  with FParen(3) show ?case by (auto simp: paren_plan_def comp_def)
qed auto

lemma paren_plan_plain: "wf_expr e \<Longrightarrow> paren_plan e \<noteq> [] \<and> (\<forall>n \<in> set (paren_plan e). plain n)"
  using paren_plan_plain_if paren_toks_plain by (metis wf_expr_def)

subsection \<open>Negations\<close>

definition not_inner :: "'p plan_node \<Rightarrow> find_error + 'p plan_node" where
  "not_inner n = (case n of Expr s \<Rightarrow> bind_result (not_squish s) (\<lambda>s. Inr (Expr s)) | _ \<Rightarrow> Inr n)"

lemma not_squish_plain:
  "\<not> is_not n \<Longrightarrow> not_squish (n # plan) =
   bind_result (not_inner n) (\<lambda>n'. bind_result (not_squish plan) (\<lambda>r. Inr (n' # r)))"
  by (simp add: not_squish.simps(2) not_inner_def)

lemma not_squish_negs:
  assumes "\<not> is_not n" "\<not> is_or n"
  shows "not_squish (replicate k Not_op @ n # plan) =
    bind_result (not_inner n) (\<lambda>n'. bind_result (not_squish plan) (\<lambda>r. Inr (neg_node k n' # r)))"
proof (cases k)
  case 0
  then show ?thesis using assms by (simp add: not_squish_plain neg_node_def)
next
  case (Suc j)
  have d: "dropWhile is_not (replicate j Not_op @ n # plan) = n # plan" "takeWhile is_not (replicate j Not_op @ n # plan) = replicate j Not_op"
    using assms(1) by (induction j) auto
  have "(1 + j) mod 2 \<noteq> 1 \<longleftrightarrow> even k" unfolding Suc by presburger
  then show ?thesis using assms(2)
    by (simp only: Suc replicate_Suc append_Cons not_squish.simps(2) [of Not_op] is_not.simps if_True d list.case
        if_False length_replicate not_inner_def neg_node_def)
qed

lemma not_squish_segment:
  assumes "\<And>f rest. f \<in> set s \<Longrightarrow> not_squish (paren_toks f @ rest) = bind_result (not_squish rest) (\<lambda>r. Inr (not_node f # r))"
  shows "not_squish (concat (map paren_toks s) @ rest) = bind_result (not_squish rest) (\<lambda>r. Inr (map not_node s @ r))"
  using assms
proof (induction s)
  case Nil
  then show ?case by (cases "not_squish rest") auto
next
  case (Cons f s)
  then show ?case by (cases "not_squish rest") auto
qed

lemma not_squish_join:
  assumes "\<And>s f rest. s \<in> set e \<Longrightarrow> f \<in> set s \<Longrightarrow>
    not_squish (paren_toks f @ rest) = bind_result (not_squish rest) (\<lambda>r. Inr (not_node f # r))"
  shows "not_squish (paren_plan e) = Inr (join_or (map (map not_node) e))"
  using assms
proof (induction e)
  case (Cons s e)
  have ih: "not_squish (paren_plan e) = Inr (join_or (map (map not_node) e))"
    by (rule Cons(1)) (rule Cons(2), auto)
  have seg: "not_squish (concat (map paren_toks s) @ rest) = bind_result (not_squish rest) (\<lambda>r. Inr (map not_node s @ r))" for rest
    by (rule not_squish_segment) (rule Cons(2), auto)
  show ?case
    using seg [of "[]"] seg [of "Or_op # paren_plan e"] ih
    by (auto simp: paren_plan_def join_or_Cons not_squish_plain not_inner_def)
qed (simp add: paren_plan_def)

lemma not_squish_factor:
  "not_squish (paren_toks f @ rest) = bind_result (not_squish rest) (\<lambda>r. Inr (not_node f # r))"
proof (induction f arbitrary: rest)
  case (FPrim k p)
  then show ?case by (simp add: not_squish_negs not_inner_def)
next
  case (FParen k e)
  have "not_inner (Expr (paren_plan e)) = Inr (Expr (join_or (map (map not_node) e)))"
    using not_squish_join [of e] FParen by (simp add: not_inner_def)
  then show ?case
    using not_squish_negs [of "Expr (paren_plan e)" k rest] by (simp add: paren_plan_def comp_def)
qed

subsection \<open>Alternatives\<close>

lemma or_loop_node [simp]:
  "or_loop acc (Prim p # ns) = or_loop (acc @ [Prim p]) ns"
  "or_loop acc (Expr s # ns) = bind_result (or_loop [] s) (\<lambda>s. or_loop (acc @ [Expr s]) ns)"
  "or_loop acc (Not s # ns) = bind_result (or_loop [] s) (\<lambda>s. or_loop (acc @ [Not s]) ns)"
  "or_loop acc (Or_op # ns) = (if acc = [] then Inl Or_nothing_before
     else bind_result (or_loop [] ns) (\<lambda>b. if b = [] then Inl Or_nothing_after else Inr [Or acc b]))"
  by (simp_all only: or_loop.simps plan_node.case)

declare or_loop.simps(2) [simp del]

lemma or_loop_segment:
  assumes "\<And>f acc rest. f \<in> set s \<Longrightarrow> or_loop acc (not_node f # rest) = or_loop (acc @ [or_node f]) rest"
  shows "or_loop acc (map not_node s @ rest) = or_loop (acc @ map or_node s) rest"
  using assms by (induction s arbitrary: acc) auto

lemma alternatives_ne: "ss \<noteq> [] \<Longrightarrow> [] \<notin> set ss \<Longrightarrow> alternatives ss \<noteq> []"
  by (induction ss rule: alternatives.induct) auto

lemma or_loop_join:
  assumes "wf_expr e" "\<And>s f acc rest. s \<in> set e \<Longrightarrow> f \<in> set s \<Longrightarrow>
    or_loop acc (not_node f # rest) = or_loop (acc @ [or_node f]) rest"
  shows "or_loop [] (join_or (map (map not_node) e)) = Inr (expr_plan e)"
  using assms
proof (induction e)
  case (Cons s e)
  have seg: "or_loop acc (map not_node s @ rest) = or_loop (acc @ map or_node s) rest" for acc rest
    by (rule or_loop_segment) (rule Cons(3), auto)
  show ?case
  proof (cases "e = []")
    case True
    then show ?thesis using seg [of "[]" "[]"] by (simp add: expr_plan_def)
  next
    case False
    then have wf: "wf_expr e" "s \<noteq> []" using Cons(2) by (auto simp: wf_expr_def)
    have ih: "or_loop [] (join_or (map (map not_node) e)) = Inr (expr_plan e)"
      by (rule Cons(1) [OF wf(1)]) (rule Cons(3), auto)
    have "expr_plan e \<noteq> []" using wf(1) unfolding expr_plan_def by (intro alternatives_ne) (auto simp: wf_expr_def)
    then show ?thesis using seg [of "[]"] ih False wf(2)
      by (simp add: join_or_Cons expr_plan_def alternatives_Cons)
  qed
qed (simp add: wf_expr_def)

lemma or_loop_neg:
  "(\<And>acc rest. or_loop acc (n # rest) = or_loop (acc @ [n']) rest) \<Longrightarrow>
   or_loop acc (neg_node k n # rest) = or_loop (acc @ [neg_node k n']) rest"
  by (simp add: neg_node_def)

lemma or_loop_factor: "wf_factor f \<Longrightarrow> or_loop acc (not_node f # rest) = or_loop (acc @ [or_node f]) rest"
proof (induction f arbitrary: acc rest)
  case (FPrim k p)
  then show ?case by (auto intro: or_loop_neg)
next
  case (FParen k e)
  have "or_loop [] (join_or (map (map not_node) e)) = Inr (expr_plan e)"
    using FParen by (intro or_loop_join) (auto simp: wf_expr_def)
  then show ?case by (auto simp: expr_plan_def intro!: or_loop_neg)
qed

lemma squish_paren_plan:
  assumes "wf_expr e"
  shows "bind_result (not_squish (paren_plan e)) or_squish = Inr (expr_plan e)"
proof -
  have "not_squish (paren_plan e) = Inr (join_or (map (map not_node) e))"
    by (rule not_squish_join) (rule not_squish_factor)
  moreover have "or_loop [] (join_or (map (map not_node) e)) = Inr (expr_plan e)"
    using assms by (intro or_loop_join) (auto simp: wf_expr_def intro: or_loop_factor)
  ultimately show ?thesis by (simp add: or_squish_def)
qed

subsection \<open>Only expressions are accepted\<close>

text \<open>What the loop of or_squish has left when it succeeds: an alternative, or one before the others.\<close>

definition parses :: "bool \<Rightarrow> 'p plan \<Rightarrow> bool" where
  "parses started plan \<longleftrightarrow>
     (\<exists>s. (\<forall>f \<in> set s. wf_factor f) \<and> plan = concat (map paren_toks s)) \<or>
     (\<exists>s e. (\<forall>f \<in> set s. wf_factor f) \<and> wf_expr e \<and> plan = concat (map paren_toks s) @ Or_op # paren_plan e \<and>
        (started \<or> s \<noteq> []))"

lemma parses_expr: "parses False plan \<Longrightarrow> plan \<noteq> [] \<Longrightarrow> \<exists>e. wf_expr e \<and> plan = paren_plan e"
proof -
  assume "parses False plan" and ne: "plan \<noteq> []"
  then consider s where "\<forall>f \<in> set s. wf_factor f" "plan = concat (map paren_toks s)"
    | s e where "\<forall>f \<in> set s. wf_factor f" "wf_expr e" "plan = concat (map paren_toks s) @ Or_op # paren_plan e" "s \<noteq> []"
    by (auto simp: parses_def)
  then show ?thesis
  proof cases
    case 1
    then have "wf_expr [s]" "plan = paren_plan [s]" using ne by (auto simp: wf_expr_def paren_plan_def)
    then show ?thesis by blast
  next
    case 2
    then have "wf_expr (s # e)" "plan = paren_plan (s # e)"
      by (auto simp: wf_expr_def paren_plan_def join_or_Cons)
    then show ?thesis by blast
  qed
qed

lemma parses_factor:
  assumes "wf_factor f" "parses b plan" shows "parses b' (paren_toks f @ plan)"
proof -
  from assms(2) consider s where "\<forall>f \<in> set s. wf_factor f" "plan = concat (map paren_toks s)"
    | s e where "\<forall>f \<in> set s. wf_factor f" "wf_expr e" "plan = concat (map paren_toks s) @ Or_op # paren_plan e"
    by (auto simp: parses_def)
  then show ?thesis
  proof cases
    case (1 s)
    then show ?thesis unfolding parses_def using assms(1) by (intro disjI1 exI [of _ "f # s"]) auto
  next
    case (2 s e)
    then show ?thesis unfolding parses_def using assms(1) by (intro disjI2 exI [of _ "f # s"] exI [of _ e]) auto
  qed
qed

lemma split_nots:
  "\<forall>n \<in> set plan. plain n \<Longrightarrow>
   (\<exists>k. plan = replicate k Not_op) \<or> (\<exists>k n rest. plan = replicate k Not_op @ n # rest \<and> \<not> is_not n)"
proof (induction plan)
  case (Cons n plan)
  show ?case
  proof (cases "is_not n")
    case True
    then have n: "n = Not_op" using Cons(2) by (cases n) auto
    from Cons consider k where "plan = replicate k Not_op"
      | k m rest where "plan = replicate k Not_op @ m # rest" "\<not> is_not m" by auto
    then show ?thesis
    proof cases
      case (1 k)
      then show ?thesis using n by (intro disjI1 exI [of _ "Suc k"]) simp
    next
      case (2 k m rest)
      then show ?thesis using n by (intro disjI2 exI [of _ "Suc k"] exI [of _ m] exI [of _ rest]) simp
    qed
  next
    case False
    then show ?thesis by (intro disjI2 exI [of _ 0] exI [of _ n] exI [of _ plan]) simp
  qed
qed simp

lemma not_squish_only_nots: "not_squish (Not_op # replicate k Not_op) = Inl Not_nothing"
proof -
  have "dropWhile is_not (replicate k Not_op) = []" by (induction k) auto
  then show ?thesis by (simp add: not_squish.simps(2))
qed

lemma not_squish_nots_or: "not_squish (Not_op # replicate k Not_op @ Or_op # rest) = Inl Not_before_or"
proof -
  have "dropWhile is_not (replicate k Not_op @ Or_op # rest) = Or_op # rest" by (induction k) auto
  then show ?thesis by (simp add: not_squish.simps(2))
qed

lemma squish_parses:
  "\<forall>n \<in> set plan. plain n \<Longrightarrow> not_squish plan = Inr p2 \<Longrightarrow> or_loop acc p2 = Inr p3 \<Longrightarrow> parses (acc \<noteq> []) plan"
proof (induction "size_list size plan" arbitrary: plan p2 p3 acc rule: less_induct)
  case less
  from split_nots [OF less(2)] consider k where "plan = replicate k Not_op"
    | k n rest where "plan = replicate k Not_op @ n # rest" "\<not> is_not n" by blast
  then show ?case
  proof cases
    case (1 k)
    have "k = 0" using less(3) 1 by (cases k) (auto simp: not_squish_only_nots)
    then show ?thesis using 1 unfolding parses_def by (intro disjI1 exI [of _ "[]"]) simp
  next
    case (2 k n rest)
    have pl: "plain n" "\<forall>n \<in> set rest. plain n" using less(2) 2(1) by auto
    have sz: "size_list size rest < size_list size plan" "size n < size_list size plan" unfolding 2(1) by (induction k) auto
    show ?thesis
    proof (cases "n = Or_op")
      case True
      then have k: "k = 0" using less(3) 2(1) by (cases k) (auto simp: not_squish_nots_or)
      then obtain r where r: "not_squish rest = Inr r" "p2 = Or_op # r"
        using less(3) 2(1) True by (auto simp: not_squish_plain not_inner_def bind_result_Inr)
      then obtain b where b: "acc \<noteq> []" "or_loop [] r = Inr b" "b \<noteq> []"
        using less(4) by (auto simp: bind_result_Inr split: if_splits)
      have "rest \<noteq> []" using r(1) b by auto
      then obtain e where "wf_expr e" "rest = paren_plan e"
        using parses_expr less(1) [OF sz(1) pl(2) r(1) b(2)] by auto
      then show ?thesis using b(1) True k 2(1) unfolding parses_def
        by (intro disjI2 exI [of _ "[]"] exI [of _ e]) simp
    next
      case False
      then have "\<not> is_or n" using pl(1) by (cases n) auto
      from less(3) [unfolded 2(1) not_squish_negs [OF 2(2) this]]
      obtain n' r where r: "not_inner n = Inr n'" "not_squish rest = Inr r" "p2 = neg_node k n' # r"
        by (auto simp: bind_result_Inr)
      have "\<exists>f n''. wf_factor f \<and> replicate k Not_op @ [n] = paren_toks f \<and>
          (\<forall>acc rest. or_loop acc (neg_node k n' # rest) = or_loop (acc @ [neg_node k n'']) rest)"
      proof (cases n)
        case (Prim p)
        then have "n' = Prim p" using r(1) by (simp add: not_inner_def)
        then show ?thesis using Prim by (intro exI [of _ "FPrim k p"] exI [of _ "Prim p"]) (auto intro: or_loop_neg)
      next
        case (Expr sub)
        then obtain s2 where s2: "not_squish sub = Inr s2" "n' = Expr s2" using r(1) by (auto simp: not_inner_def bind_result_Inr)
        then obtain s3 where s3: "or_loop [] s2 = Inr s3"
          using less(4) r(3) by (auto simp: neg_node_def bind_result_Inr split: if_splits)
        have "size_list size sub < size_list size plan" "\<forall>n \<in> set sub. plain n" "sub \<noteq> []"
          using sz(2) pl(1) Expr by auto
        then obtain e where e: "wf_expr e" "sub = paren_plan e"
          using parses_expr less(1) [OF _ _ s2(1) s3] by auto
        have "or_loop acc (neg_node k n' # rest) = or_loop (acc @ [neg_node k (Expr s3)]) rest" for acc rest
          by (rule or_loop_neg) (simp add: s2(2) s3)
        with e Expr show ?thesis
          by (intro exI [of _ "FParen k e"] exI [of _ "Expr s3"]) (auto simp: paren_plan_def comp_def)
      qed (use pl(1) False 2(2) in auto)
      then obtain f n'' where f: "wf_factor f" "replicate k Not_op @ [n] = paren_toks f"
        "\<And>acc rest. or_loop acc (neg_node k n' # rest) = or_loop (acc @ [neg_node k n'']) rest" by auto
      have "parses True rest" using less(1) [OF sz(1) pl(2) r(2) less(4) [unfolded r(3) f(3)]] by simp
      moreover have "plan = paren_toks f @ rest" using f(2) 2(1) by (metis append.assoc append_Cons append_Nil)
      ultimately show ?thesis using parses_factor f(1) by blast
    qed
  qed
qed

lemma squish_iff:
  assumes "list_all is_token ts" "ts \<noteq> []"
  shows "squish ts = Inr plan \<longleftrightarrow> (\<exists>e. wf_expr e \<and> ts = expr_toks e \<and> plan = expr_plan e)"
proof
  assume "squish ts = Inr plan"
  then obtain q p2 where q: "paren_squish ts = Inr q" "not_squish q = Inr p2" "or_loop [] p2 = Inr plan"
    by (auto simp: squish_def bind_result_Inr or_squish_def)
  have pl: "\<forall>n \<in> set q. plain n" "ts = concat (map unparen q)" using q(1) paren_squish_iff [OF assms(1)] by auto
  have "q \<noteq> []" using pl(2) assms(2) by auto
  then obtain e where e: "wf_expr e" "q = paren_plan e" using squish_parses [OF pl(1) q(2,3)] parses_expr by auto
  then have "plan = expr_plan e" using squish_paren_plan [OF e(1)] q(2,3) by (simp add: or_squish_def)
  with e pl(2) expr_unparen [of e] show "\<exists>e. wf_expr e \<and> ts = expr_toks e \<and> plan = expr_plan e" by auto
next
  assume "\<exists>e. wf_expr e \<and> ts = expr_toks e \<and> plan = expr_plan e"
  then obtain e where e: "wf_expr e" "ts = expr_toks e" "plan = expr_plan e" by blast
  have "paren_squish ts = Inr (paren_plan e)"
    using paren_squish_iff [OF assms(1)] paren_plan_plain [OF e(1)] expr_unparen [of e] e(2) by simp
  then show "squish ts = Inr plan" using squish_paren_plan [OF e(1)] e(3) by (simp add: squish_def)
qed

subsection \<open>The meaning of a plan\<close>

lemma truth_simps [simp]: "truth None = None" "truth (Some (v, w)) = Some (v \<noteq> 0, w)"
  by (simp_all add: truth_def)

lemma truth_single: "truth (exec_list prim st [n] w) = truth (f_node prim n w)"
  by (cases "f_node prim n w") auto

lemma truth_exec_list:
  "st \<noteq> 0 \<or> ns \<noteq> [] \<Longrightarrow> truth (exec_list prim st ns w) = all_of (map (\<lambda>n w. truth (f_node prim n w)) ns) w"
proof (induction ns arbitrary: st w)
  case (Cons n ns)
  show ?case
  proof (cases "f_node prim n w")
    case (Some r)
    then show ?thesis using Cons(1) by (cases r) (auto simp: truth_def)
  qed (simp add: truth_def)
qed (simp add: truth_def)

lemma truth_neg: "truth (f_node prim (neg_node k n) w) = negate k (truth (f_node prim n w))"
  by (cases "f_node prim n w") (auto simp: neg_node_def negate_def truth_def)

lemma truth_alternatives:
  "ss \<noteq> [] \<Longrightarrow> [] \<notin> set ss \<Longrightarrow> truth (exec_list prim st (alternatives ss) w) =
   any_of (map (\<lambda>s. all_of (map (\<lambda>n w. truth (f_node prim n w)) s)) ss) w"
proof (induction ss arbitrary: st w rule: alternatives.induct)
  case (2 s)
  then show ?case by (cases "all_of (map (\<lambda>n w. truth (f_node prim n w)) s) w") (auto simp: truth_exec_list)
next
  case (3 s s2 ss)
  have s: "truth (exec_list prim 0 s w) = all_of (map (\<lambda>n w. truth (f_node prim n w)) s) w"
    using 3(3) by (intro truth_exec_list) auto
  show ?case
  proof (cases "exec_list prim 0 s w")
    case None
    then show ?thesis using s by (auto simp: truth_def)
  next
    case (Some r)
    obtain v w' where r: "r = (v, w')" by fastforce
    have a: "all_of (map (\<lambda>n w. truth (f_node prim n w)) s) w = Some (v \<noteq> 0, w')" using s Some r by (simp add: truth_def)
    have b: "truth (exec_list prim st (alternatives (s2 # ss)) w') =
        any_of (map (\<lambda>s. all_of (map (\<lambda>n w. truth (f_node prim n w)) s)) (s2 # ss)) w'" for st
      using 3(1,3) by simp
    have "truth (exec_list prim st (alternatives (s # s2 # ss)) w) = truth (f_node prim (Or s (alternatives (s2 # ss))) w)"
      by (simp only: alternatives.simps truth_single)
    then show ?thesis using a b Some r by (cases "v = 0") simp_all
  qed
qed simp

lemma truth_factor: "wf_factor f \<Longrightarrow> truth (f_node prim (or_node f) w) = eval_factor prim f w"
proof (induction f arbitrary: w)
  case (FPrim k p)
  then show ?case by (simp add: truth_neg)
next
  case (FParen k e)
  have n: "map (map or_node) e \<noteq> []" "[] \<notin> set (map (map or_node) e)" using FParen(2) by (auto simp: wf_expr_def)
  have m: "map (\<lambda>n w. truth (f_node prim n w)) (map or_node s) = map (eval_factor prim) s" if "s \<in> set e" for s
    using FParen that by (auto simp: wf_expr_def fun_eq_iff)
  have "map (\<lambda>s. all_of (map (\<lambda>n w. truth (f_node prim n w)) s)) (map (map or_node) e) = map all_of (map (map (eval_factor prim)) e)"
    unfolding map_map comp_def by (intro map_cong refl arg_cong [of _ _ all_of]) (use m in simp)
  with truth_alternatives [OF n, of prim 0 w]
  have "truth (exec_list prim 0 (alternatives (map (map or_node) e)) w) = any_of (map all_of (map (map (eval_factor prim)) e)) w"
    by (simp only:)
  then show ?case by (simp add: truth_neg)
qed

lemma truth_expr:
  assumes "wf_expr e" shows "truth (exec_list prim st (expr_plan e) w) = eval_expr prim e w"
proof -
  have n: "map (map or_node) e \<noteq> []" "[] \<notin> set (map (map or_node) e)" using assms by (auto simp: wf_expr_def)
  have "map (\<lambda>n w. truth (f_node prim n w)) (map or_node s) = map (eval_factor prim) s" if "s \<in> set e" for s
    using assms that by (auto simp: wf_expr_def fun_eq_iff truth_factor)
  then have "map (\<lambda>s. all_of (map (\<lambda>n w. truth (f_node prim n w)) s)) (map (map or_node) e) =
      map (\<lambda>s. all_of (map (eval_factor prim) s)) e"
    unfolding map_map comp_def by (intro map_cong refl arg_cong [of _ _ all_of]) simp
  with truth_alternatives [OF n, of prim st w] show ?thesis unfolding expr_plan_def eval_expr_def by (simp only:)
qed

subsection \<open>The expression language of find\<close>

lemma factor_toks_token: "n \<in> set (factor_toks f) \<Longrightarrow> is_token n"
proof (induction f arbitrary: n)
  case (FParen k e)
  then show ?case
    using set_join_or [of "map concat (map (map factor_toks) e)"] by (fastforce simp: is_token_def split: if_splits)
qed (auto simp: is_token_def split: if_splits)

lemma expr_toks_token: "list_all is_token (expr_toks e)"
  using set_join_or [of "map (\<lambda>s. concat (map factor_toks s)) e"] factor_toks_token
  by (fastforce simp: list_all_iff expr_toks_def is_token_def)

lemma expr_toks_ne: "wf_expr e \<Longrightarrow> expr_toks e \<noteq> []"
  using paren_plan_plain [of e] unparen_pos expr_unparen [of e] by (metis concat_eq_Nil_conv hd_in_set image_eqI length_0_conv nat.simps(3) set_map)

lemma squish_expr: "wf_expr e \<Longrightarrow> squish (expr_toks e) = Inr (expr_plan e)"
  using squish_iff [OF expr_toks_token expr_toks_ne] by blast

text \<open>The bound of the calls is enough, and no operator is left without its subplan.\<close>

lemma yankexpr_less:
  "yankexpr k ts = Inr (Some n, r) \<Longrightarrow> length r < length ts"
  "slurp k acc ts = Inr (Some n, r) \<Longrightarrow> length r < length ts"
proof (induction k ts and k acc ts arbitrary: n r and n r rule: yankexpr_slurp.induct)
  case (3 k n ns)
  then show ?case by (fastforce split: if_splits)
next
  case (5 k acc ts)
  obtain y r1 where y: "yankexpr k ts = Inr (Some y, r1)"
    using 5(3) by (auto split: sum.splits option.splits prod.splits)
  show ?case
  proof (cases "is_closeparen y")
    case True
    then show ?thesis using 5(1) [OF y] 5(3) y by (auto split: if_splits)
  next
    case False
    then have "slurp k (acc @ [y]) r1 = Inr (Some n, r)" using 5(3) y by simp
    from 5(2) [OF y refl refl False this] 5(1) [OF y] show ?thesis by simp
  qed
qed auto

lemma yankexpr_deep_enough:
  "2 * length ts < k \<Longrightarrow> yankexpr k ts \<noteq> Inl Too_deep"
  "2 * length ts + 1 < k \<Longrightarrow> slurp k acc ts \<noteq> Inl Too_deep"
proof (induction k ts and k acc ts rule: yankexpr_slurp.induct)
  case (5 k acc ts)
  note d = 5(1)
  show ?case
  proof (cases "yankexpr k ts")
    case (Inl e)
    then show ?thesis using d 5(3) by auto
  next
    case (Inr p)
    obtain x r where p: "p = (x, r)" by fastforce
    show ?thesis
    proof (cases x)
      case (Some y)
      have "length r < length ts" using yankexpr_less(1) Inr p Some by blast
      then show ?thesis using 5(2) [OF Inr p [symmetric] Some] 5(3) Inr p Some by auto
    qed (use Inr p in simp)
  qed
qed auto

lemma paren_loop_deep_enough: "2 * length ts < k \<Longrightarrow> paren_loop k acc ts \<noteq> Inl Too_deep"
proof (induction k acc ts rule: paren_loop.induct)
  case (2 k acc ts)
  show ?case
  proof (cases "yankexpr (Suc k) ts")
    case (Inl e)
    then show ?thesis using yankexpr_deep_enough(1) [of ts "Suc k"] 2(2) by (auto simp del: yankexpr.simps)
  next
    case (Inr p)
    obtain x r where p: "p = (x, r)" by fastforce
    show ?thesis
    proof (cases x)
      case (Some y)
      have "length r < length ts" using yankexpr_less(1) Inr p Some by blast
      then show ?thesis using 2(1) [OF Inr p [symmetric] Some] 2(2) Inr p Some by (auto simp del: yankexpr.simps)
    qed (use Inr p in \<open>simp del: yankexpr.simps\<close>)
  qed
qed simp

lemma paren_not_wild:
  "yankexpr k ts \<noteq> Inl Wild" "slurp k acc ts \<noteq> Inl Wild"
  by (induction k ts and k acc ts rule: yankexpr_slurp.induct)
    (auto split: sum.splits option.splits prod.splits if_splits)

lemma paren_loop_not_wild: "paren_loop k acc ts \<noteq> Inl Wild"
proof (induction k acc ts rule: paren_loop.induct)
  case (2 k acc ts)
  show ?case
  proof (cases "yankexpr (Suc k) ts")
    case (Inl e)
    then show ?thesis using paren_not_wild(1) [of "Suc k" ts] by (auto simp del: yankexpr.simps)
  next
    case (Inr p)
    obtain x r where p: "p = (x, r)" by fastforce
    show ?thesis
    proof (cases x)
      case (Some y)
      then show ?thesis using 2(1) [OF Inr p [symmetric] Some] Inr p by (auto simp del: yankexpr.simps)
    qed (use Inr p in \<open>simp del: yankexpr.simps\<close>)
  qed
qed simp

lemma not_squish_errors: "not_squish plan = Inl e \<Longrightarrow> e = Not_nothing \<or> e = Not_before_or"
proof (induction plan arbitrary: e rule: not_squish.induct)
  case (2 n plan)
  then show ?case by (auto simp: not_squish.simps(2) bind_result_def split: if_splits list.splits plan_node.splits sum.splits)
qed simp

primrec ready :: "'p plan_node \<Rightarrow> bool" where
  "ready (Prim p) = True"
| "ready Openparen = False"
| "ready Closeparen = False"
| "ready Not_op = False"
| "ready Or_op = True"
| "ready (Expr s) = list_all id (map ready s)"
| "ready (Not s) = list_all id (map ready s)"
| "ready (Or a b) = False"

lemma or_loop_not_wild:
  "\<forall>n \<in> set plan. ready n \<Longrightarrow> or_loop acc plan \<noteq> Inl Wild \<and> or_loop acc plan \<noteq> Inl Too_deep"
proof (induction acc plan rule: or_loop.induct)
  case (2 acc n plan)
  then show ?case
    by (cases n) (auto simp: or_loop.simps(2) [of acc n] bind_result_def list_all_iff split: sum.splits if_splits)
qed simp

lemma not_squish_ready:
  "\<forall>n \<in> set plan. plain n \<Longrightarrow> not_squish plan = Inr p2 \<Longrightarrow> \<forall>n \<in> set p2. ready n"
proof (induction "size_list size plan" arbitrary: plan p2 rule: less_induct)
  case less
  from split_nots [OF less(2)] consider k where "plan = replicate k Not_op"
    | k n rest where "plan = replicate k Not_op @ n # rest" "\<not> is_not n" by blast
  then show ?case
  proof cases
    case (1 k)
    then show ?thesis using less(3) by (cases k) (auto simp: not_squish_only_nots)
  next
    case (2 k n rest)
    have pl: "plain n" "\<forall>n \<in> set rest. plain n" using less(2) 2(1) by auto
    have sz: "size_list size rest < size_list size plan" "size n < size_list size plan" unfolding 2(1) by (induction k) auto
    have "\<exists>n' r. not_inner n = Inr n' \<and> not_squish rest = Inr r \<and> p2 = neg_node k n' # r"
    proof (cases "n = Or_op")
      case True
      then have "k = 0" using less(3) 2(1) by (cases k) (auto simp: not_squish_nots_or)
      then show ?thesis using less(3) 2 True by (auto simp: not_squish_plain bind_result_Inr neg_node_def)
    next
      case False
      then have "\<not> is_or n" using pl(1) by (cases n) auto
      from less(3) [unfolded 2(1) not_squish_negs [OF 2(2) this]] show ?thesis by (auto simp: bind_result_Inr)
    qed
    then obtain n' r where r: "not_inner n = Inr n'" "not_squish rest = Inr r" "p2 = neg_node k n' # r" by blast
    have "ready n'"
    proof (cases n)
      case (Expr sub)
      then obtain s2 where s2: "not_squish sub = Inr s2" "n' = Expr s2" using r(1) by (auto simp: not_inner_def bind_result_Inr)
      have "size_list size sub < size_list size plan" "\<forall>n \<in> set sub. plain n" using sz(2) pl(1) Expr by auto
      from less(1) [OF this s2(1)] s2(2) show ?thesis by (simp add: list_all_iff)
    qed (use r(1) pl(1) 2(2) in \<open>auto simp: not_inner_def\<close>)
    then show ?thesis using less(1) [OF sz(1) pl(2) r(2)] r(3) by (auto simp: neg_node_def)
  qed
qed

lemma squish_errors:
  assumes "list_all is_token ts" shows "squish ts \<noteq> Inl Wild \<and> squish ts \<noteq> Inl Too_deep"
proof (cases "paren_squish ts")
  case (Inl e)
  then show ?thesis
    using paren_loop_not_wild [of "2 * length ts + 1" "[]" ts] paren_loop_deep_enough [of ts "2 * length ts + 1" "[]"]
    by (auto simp: squish_def paren_squish_def simp del: paren_loop.simps)
next
  case (Inr q)
  then have pl: "\<forall>n \<in> set q. plain n" using paren_squish_iff [OF assms] by auto
  show ?thesis
  proof (cases "not_squish q")
    case Inl2: (Inl e)
    then show ?thesis using Inr not_squish_errors [OF Inl2] by (auto simp: squish_def)
  next
    case Inr2: (Inr p2)
    then show ?thesis using Inr or_loop_not_wild [OF not_squish_ready [OF pl Inr2], of "[]"]
      by (simp add: squish_def or_squish_def)
  qed
qed

text \<open>
  C23. A command line with an output primary is accepted if and only if it is a word of the
  grammar: alternatives separated by -o, each a sequence of at least one factor, a factor being
  a primary or an expression in parentheses behind any number of negations. Every other line
  ends in one of the error messages: the recursion is deep enough and no subplan is read before
  it is set.
\<close>

theorem find_accepts_grammar:
  assumes "list_all is_token ts" "ts \<noteq> []"
  shows "((\<exists>plan. find_formplan pr True ts = Inr plan) \<longleftrightarrow> (\<exists>e. wf_expr e \<and> ts = expr_toks e)) \<and>
    find_formplan pr True ts \<noteq> Inl Wild \<and> find_formplan pr True ts \<noteq> Inl Too_deep"
  using squish_iff [OF assms] squish_errors [OF assms(1)] by (auto simp: find_formplan_def)

theorem find_accepts_grammar_witness:
  "(\<exists>e. wf_expr e \<and> [Not_op, Openparen, Prim (1::nat), Or_op, Prim 2, Closeparen] = expr_toks e) \<and>
   \<not> (\<exists>e. wf_expr e \<and> [Prim (1::nat), Or_op, Not_op, Or_op, Prim 2] = expr_toks e)"
proof -
  have "\<exists>plan. find_formplan (0::nat) True [Not_op, Openparen, Prim 1, Or_op, Prim 2, Closeparen] = Inr plan"
    by (rule exI [of _ "[Not [Expr [Or [Prim 1] [Prim 2]]]]"]) code_simp
  moreover have "\<not> (\<exists>plan. find_formplan (0::nat) True [Prim 1, Or_op, Not_op, Or_op, Prim 2] = Inr plan)"
  proof -
    have "find_formplan (0::nat) True [Prim 1, Or_op, Not_op, Or_op, Prim 2] = Inl Not_before_or" by code_simp
    then show ?thesis by simp
  qed
  ultimately show ?thesis
    using find_accepts_grammar [of "[Not_op, Openparen, Prim (1::nat), Or_op, Prim 2, Closeparen]" 0]
      find_accepts_grammar [of "[Prim (1::nat), Or_op, Not_op, Or_op, Prim 2]" 0]
    by (simp add: is_token_def)
qed

text \<open>
  C5. The plan of an expression evaluates it: with an output primary on the line, the plan runs
  the primaries in the order of short-circuit evaluation, with the precedence of the grammar, and
  is true when the expression is; without one, -print is run after the expression when it is true.
\<close>

theorem find_evaluates_expression:
  assumes "wf_expr e"
  shows "\<exists>plan plan'. find_formplan pr True (expr_toks e) = Inr plan \<and>
    find_formplan pr False (expr_toks e) = Inr plan' \<and>
    (\<forall>prim w. truth (exec_list prim 0 plan w) = eval_expr prim e w \<and>
       truth (exec_list prim 0 plan' w) =
         (case eval_expr prim e w of
            Some (True, w') \<Rightarrow> truth (prim pr w')
          | r \<Rightarrow> r))"
proof -
  let ?e = "[[FParen 0 e, FPrim 0 pr]]"
  have wf: "wf_expr ?e" using assms by (simp add: wf_expr_def [of ?e])
  have t: "Openparen # expr_toks e @ [Closeparen, Prim pr] = expr_toks ?e"
    by (simp add: expr_toks_def comp_def)
  have "find_formplan pr True (expr_toks e) = Inr (expr_plan e)" using squish_expr [OF assms] by (simp add: find_formplan_def)
  moreover have "find_formplan pr False (expr_toks e) = Inr (expr_plan ?e)"
    using squish_expr [OF wf] expr_toks_ne [OF assms] by (simp add: find_formplan_def t)
  moreover have "truth (exec_list prim 0 (expr_plan e) w) = eval_expr prim e w" for prim w
    by (rule truth_expr [OF assms])
  moreover have "truth (exec_list prim 0 (expr_plan ?e) w) =
      (case eval_expr prim e w of Some (True, w') \<Rightarrow> truth (prim pr w') | r \<Rightarrow> r)" for prim w
  proof -
    have "negate 0 x = x" for x :: "(bool \<times> 'c) option" by (cases x) (auto simp: negate_def)
    then have "eval_factor prim (FParen 0 e) = eval_expr prim e" "eval_factor prim (FPrim 0 pr) = (\<lambda>v. truth (prim pr v))"
      by (simp_all add: eval_expr_def comp_def fun_eq_iff)
    then have "eval_expr prim ?e w = any_of [all_of [eval_expr prim e, \<lambda>v. truth (prim pr v)]] w"
      by (simp only: eval_expr_def [of _ ?e] list.map)
    also have "\<dots> = (case eval_expr prim e w of Some (True, w') \<Rightarrow> truth (prim pr w') | r \<Rightarrow> r)"
    proof (cases "eval_expr prim e w")
      case (Some r)
      then show ?thesis by (cases r; cases "truth (prim pr (snd r))"; cases "fst r") auto
    qed simp
    finally show ?thesis unfolding truth_expr [OF wf] .
  qed
  ultimately show ?thesis by (intro exI conjI allI) assumption+
qed

theorem find_evaluates_expression_witness:
  "\<exists>plan plan'. find_formplan (0::nat) True (expr_toks [[FPrim 1 1], [FPrim 0 2]]) = Inr plan \<and>
    find_formplan 0 False (expr_toks [[FPrim 1 1], [FPrim 0 2]]) = Inr plan' \<and>
    truth (exec_list (\<lambda>p (w::nat list). Some (1, w @ [p])) 0 plan []) = Some (True, [1, 2]) \<and>
    truth (exec_list (\<lambda>p (w::nat list). Some (1, w @ [p])) 0 plan' []) = Some (True, [1, 2, 0])"
proof -
  have wf: "wf_expr [[FPrim 1 (1::nat)], [FPrim 0 2]]" by code_simp
  have ev: "eval_expr (\<lambda>p (w::nat list). Some (1, w @ [p])) [[FPrim 1 (1::nat)], [FPrim 0 2]] [] = Some (True, [1, 2])"
    by code_simp
  from find_evaluates_expression [OF wf, of 0]
  obtain plan plan' where
    p: "find_formplan (0::nat) True (expr_toks [[FPrim 1 1], [FPrim 0 2]]) = Inr plan"
      "find_formplan (0::nat) False (expr_toks [[FPrim 1 1], [FPrim 0 2]]) = Inr plan'" and
    q: "\<forall>prim (w::nat list). truth (exec_list prim 0 plan w) = eval_expr prim [[FPrim 1 1], [FPrim 0 2]] w \<and>
       truth (exec_list prim 0 plan' w) =
         (case eval_expr prim [[FPrim 1 1], [FPrim 0 2]] w of Some (True, w') \<Rightarrow> truth (prim (0::nat) w') | r \<Rightarrow> r)"
    by (elim exE conjE)
  from q [rule_format, of "\<lambda>p w. Some (1, w @ [p])" "[]"] p
  show ?thesis by (intro exI [of _ plan] exI [of _ plan']) (simp only: ev, simp)
qed

text \<open>
  Without an output primary the line is put into parentheses before it is checked, which makes
  some lines acceptable that are not expressions.
\<close>

lemma unbalanced_accepted:
  "find_formplan pr False [Prim a, Closeparen, Openparen, Prim b] = Inr [Expr [Prim a], Expr [Prim b], Prim pr]"
  "find_formplan pr True [Prim a, Closeparen, Openparen, Prim b] = Inl No_beginning"
  by (simp_all add: find_formplan_def squish_def paren_squish_def not_squish.simps or_squish_def numeral_eq_Suc)

end
