(* ===== verification/Sh_Arith.thy ===== *)
theory Sh_Arith
  imports C_Stdio C_Number
begin

text \<open>
  The arithmetic expansion of sh: shell_cmds/sh/arith_yylex.c and arith_yacc.c. The expression is a C
  string, \<open>yylex\<close> gives the code of the next token, its value in yylval and the rest of the
  string, and the functions of arith_yacc.c are translated one by one, with the lookahead passed the
  way the code passes it. arith_t is a 64-bit integer. The variables of the shell are a map from
  names to strings, with a set of read-only names, which is how lookupvar and setvar of var.c behave. A variable that is read while evaluation is
  suppressed gives the bits of a pointer, which \<open>sh_ptr\<close> stands for. The number that comes first in the
  functions bounds the depth of the recursion.
\<close>

unbundle bit_operations_syntax

subsection \<open>Tokens\<close>

type_synonym arith_t = "64 word"

datatype yystype = YVal arith_t | YName string

abbreviation (input) ARITH_ASS :: int where "ARITH_ASS \<equiv> 1"
abbreviation (input) ARITH_OR :: int where "ARITH_OR \<equiv> 2"
abbreviation (input) ARITH_AND :: int where "ARITH_AND \<equiv> 3"
abbreviation (input) ARITH_BAD :: int where "ARITH_BAD \<equiv> 4"
abbreviation (input) ARITH_NUM :: int where "ARITH_NUM \<equiv> 5"
abbreviation (input) ARITH_VAR :: int where "ARITH_VAR \<equiv> 6"
abbreviation (input) ARITH_NOT :: int where "ARITH_NOT \<equiv> 7"
abbreviation (input) ARITH_BINOP_MIN :: int where "ARITH_BINOP_MIN \<equiv> 8"
abbreviation (input) ARITH_LE :: int where "ARITH_LE \<equiv> 8"
abbreviation (input) ARITH_GE :: int where "ARITH_GE \<equiv> 9"
abbreviation (input) ARITH_LT :: int where "ARITH_LT \<equiv> 10"
abbreviation (input) ARITH_GT :: int where "ARITH_GT \<equiv> 11"
abbreviation (input) ARITH_EQ :: int where "ARITH_EQ \<equiv> 12"
abbreviation (input) ARITH_REM :: int where "ARITH_REM \<equiv> 13"
abbreviation (input) ARITH_BAND :: int where "ARITH_BAND \<equiv> 14"
abbreviation (input) ARITH_LSHIFT :: int where "ARITH_LSHIFT \<equiv> 15"
abbreviation (input) ARITH_RSHIFT :: int where "ARITH_RSHIFT \<equiv> 16"
abbreviation (input) ARITH_MUL :: int where "ARITH_MUL \<equiv> 17"
abbreviation (input) ARITH_ADD :: int where "ARITH_ADD \<equiv> 18"
abbreviation (input) ARITH_BOR :: int where "ARITH_BOR \<equiv> 19"
abbreviation (input) ARITH_SUB :: int where "ARITH_SUB \<equiv> 20"
abbreviation (input) ARITH_BXOR :: int where "ARITH_BXOR \<equiv> 21"
abbreviation (input) ARITH_DIV :: int where "ARITH_DIV \<equiv> 22"
abbreviation (input) ARITH_NE :: int where "ARITH_NE \<equiv> 23"
abbreviation (input) ARITH_BINOP_MAX :: int where "ARITH_BINOP_MAX \<equiv> 24"
abbreviation (input) ARITH_ASS_MIN :: int where "ARITH_ASS_MIN \<equiv> 24"
abbreviation (input) ARITH_ASS_MAX :: int where "ARITH_ASS_MAX \<equiv> 34"
abbreviation (input) ARITH_LPAREN :: int where "ARITH_LPAREN \<equiv> 34"
abbreviation (input) ARITH_RPAREN :: int where "ARITH_RPAREN \<equiv> 35"
abbreviation (input) ARITH_BNOT :: int where "ARITH_BNOT \<equiv> 36"
abbreviation (input) ARITH_QMARK :: int where "ARITH_QMARK \<equiv> 37"
abbreviation (input) ARITH_COLON :: int where "ARITH_COLON \<equiv> 38"

definition is_in_name :: "char \<Rightarrow> bool" where
  "is_in_name c \<longleftrightarrow> isalnum c \<or> c = CHR ''_''"

definition at_char :: "char \<Rightarrow> string \<Rightarrow> bool" where
  "at_char c s \<longleftrightarrow> s \<noteq> [] \<and> hd s = c"

text \<open>The labels checkeq and checkeqcur: an \<open>=\<close> behind an operator makes it an assignment.\<close>

definition checkeq :: "int \<Rightarrow> string \<Rightarrow> int \<times> yystype option \<times> string" where
  "checkeq value buf = (if at_char (CHR ''='') buf then (value + 11, None, tl buf) else (value, None, buf))"

definition yylex :: "string \<Rightarrow> int \<times> yystype option \<times> string" where
  "yylex arith_buf = (case dropWhile (\<lambda>c. c = CHR '' '' \<or> c = TAB \<or> c = NL) arith_buf of
     [] \<Rightarrow> (0, None, [])
   | c # buf \<Rightarrow>
       if isdigit c then (let (v, e) = strtol0 (c # buf) in (ARITH_NUM, Some (YVal (word_of_int v)), e))
       else if isalpha c \<or> c = CHR ''_'' then
         (ARITH_VAR, Some (YName (c # takeWhile is_in_name buf)), dropWhile is_in_name buf)
       else if c = CHR ''='' then checkeq ARITH_ASS buf
       else if c = CHR ''>'' then
         (if at_char (CHR ''='') buf then (ARITH_GE, None, tl buf)
          else if at_char (CHR ''>'') buf then checkeq ARITH_RSHIFT (tl buf)
          else (ARITH_GT, None, buf))
       else if c = CHR ''<'' then
         (if at_char (CHR ''='') buf then (ARITH_LE, None, tl buf)
          else if at_char (CHR ''<'') buf then checkeq ARITH_LSHIFT (tl buf)
          else (ARITH_LT, None, buf))
       else if c = CHR ''|'' then
         (if at_char (CHR ''|'') buf then (ARITH_OR, None, tl buf) else checkeq ARITH_BOR buf)
       else if c = CHR ''&'' then
         (if at_char (CHR ''&'') buf then (ARITH_AND, None, tl buf) else checkeq ARITH_BAND buf)
       else if c = CHR ''!'' then
         (if at_char (CHR ''='') buf then (ARITH_NE, None, tl buf) else (ARITH_NOT, None, buf))
       else if c = CHR ''('' then (ARITH_LPAREN, None, buf)
       else if c = CHR '')'' then (ARITH_RPAREN, None, buf)
       else if c = CHR ''*'' then checkeq ARITH_MUL buf
       else if c = CHR ''/'' then checkeq ARITH_DIV buf
       else if c = CHR ''%'' then checkeq ARITH_REM buf
       else if c = CHR ''+'' then
         (if at_char (CHR ''+'') buf then (ARITH_BAD, None, arith_buf) else checkeq ARITH_ADD buf)
       else if c = CHR ''-'' then
         (if at_char (CHR ''-'') buf then (ARITH_BAD, None, arith_buf) else checkeq ARITH_SUB buf)
       else if c = CHR ''~'' then (ARITH_BNOT, None, buf)
       else if c = CHR ''^'' then checkeq ARITH_BXOR buf
       else if c = CHR ''?'' then (ARITH_QMARK, None, buf)
       else if c = CHR '':'' then (ARITH_COLON, None, buf)
       else (ARITH_BAD, None, arith_buf))"

subsection \<open>State and values\<close>

datatype arith_error =
    Var_not_set | Var_conversion | Division_by_zero | Divide_error | Expecting_close
  | Expecting_primary | Expecting_colon | Expecting_EOF | Read_only | Bad_union | Stack_out

record sh_env =
  sh_uflag :: bool
  sh_readonly :: "string set"
  sh_ptr :: "string \<Rightarrow> arith_t"

type_synonym sh_vars = "string \<Rightarrow> string option"

record arith_state =
  arith_buf :: string
  yylval :: yystype
  last_token :: int
  sh_vars :: sh_vars

definition next_token :: "arith_state \<Rightarrow> int \<times> arith_state" where
  "next_token s = (case yylex (arith_buf s) of (t, v, r) \<Rightarrow>
     (t, s\<lparr>arith_buf := r, yylval := (case v of None \<Rightarrow> yylval s | Some y \<Rightarrow> y)\<rparr>))"

text \<open>strtoimax sets errno when the number is outside of the range of the type.\<close>

definition strtol0_range :: "string \<Rightarrow> bool" where
  "strtol0_range s =
     (let (neg, s2) = strip_sign (dropWhile isspace s); (b, s3) = strip_base s2;
          v = fst (scan_digits b 0 s3)
      in s3 \<noteq> [] \<and> digit_val (hd s3) < b \<longrightarrow> - (2 ^ 63) \<le> (if neg then - v else v) \<and> (if neg then - v else v) < 2 ^ 63)"

definition arith_lookupvarint :: "sh_env \<Rightarrow> string \<Rightarrow> sh_vars \<Rightarrow> arith_error + arith_t" where
  "arith_lookupvarint g name vars = (case vars name of
     None \<Rightarrow> if sh_uflag g then Inl Var_not_set else Inr 0
   | Some str \<Rightarrow>
       let str = (if str = [] then ''0'' else str); (v, p) = strtol0 str in
       if \<not> strtol0_range str \<or> p \<noteq> [] then Inl Var_conversion else Inr (word_of_int v))"

definition arith_prec :: "int \<Rightarrow> int" where
  "arith_prec op =
     (if op = ARITH_MUL \<or> op = ARITH_DIV \<or> op = ARITH_REM then 0
      else if op = ARITH_ADD \<or> op = ARITH_SUB then 1
      else if op = ARITH_LSHIFT \<or> op = ARITH_RSHIFT then 2
      else if op = ARITH_LT \<or> op = ARITH_LE \<or> op = ARITH_GT \<or> op = ARITH_GE then 3
      else if op = ARITH_EQ \<or> op = ARITH_NE then 4
      else if op = ARITH_BAND then 5
      else if op = ARITH_BXOR then 6
      else if op = ARITH_BOR then 7 else 0)"

abbreviation (input) ARITH_MAX_PREC :: int where "ARITH_MAX_PREC \<equiv> 8"

definition higher_prec :: "int \<Rightarrow> int \<Rightarrow> bool" where
  "higher_prec op1 op2 \<longleftrightarrow> arith_prec op1 < arith_prec op2"

definition is_binop :: "int \<Rightarrow> bool" where
  "is_binop op \<longleftrightarrow> ARITH_BINOP_MIN \<le> op \<and> op < ARITH_BINOP_MAX"

definition of_truth :: "bool \<Rightarrow> arith_t" where
  "of_truth b = (if b then 1 else 0)"

definition do_binop :: "int \<Rightarrow> arith_t \<Rightarrow> arith_t \<Rightarrow> arith_error + arith_t" where
  "do_binop op a b =
     (if op = ARITH_MUL then Inr (a * b)
      else if op = ARITH_ADD then Inr (a + b)
      else if op = ARITH_SUB then Inr (a - b)
      else if op = ARITH_LSHIFT then Inr (push_bit (unat (b AND 63)) a)
      else if op = ARITH_RSHIFT then Inr (signed_drop_bit (unat (b AND 63)) a)
      else if op = ARITH_LT then Inr (of_truth (sint a < sint b))
      else if op = ARITH_LE then Inr (of_truth (sint a \<le> sint b))
      else if op = ARITH_GT then Inr (of_truth (sint a > sint b))
      else if op = ARITH_GE then Inr (of_truth (sint a \<ge> sint b))
      else if op = ARITH_EQ then Inr (of_truth (a = b))
      else if op = ARITH_NE then Inr (of_truth (a \<noteq> b))
      else if op = ARITH_BAND then Inr (a AND b)
      else if op = ARITH_BXOR then Inr (a XOR b)
      else if op = ARITH_BOR then Inr (a OR b)
      else if b = 0 then Inl Division_by_zero
      else if sint a = - (2 ^ 63) \<and> sint b = - 1 then Inl Divide_error
      else Inr (word_of_int (if op = ARITH_REM then sint a smod sint b else sint a sdiv sint b)))"

text \<open>What setvar of var.c does to the values of the variables.\<close>

definition store_var :: "sh_env \<Rightarrow> string \<Rightarrow> string \<Rightarrow> sh_vars \<Rightarrow> arith_error + sh_vars" where
  "store_var g name val vars = (if name \<in> sh_readonly g then Inl Read_only else Inr (vars(name \<mapsto> val)))"

definition union_val :: "sh_env \<Rightarrow> yystype \<Rightarrow> arith_t" where
  "union_val g y = (case y of YVal v \<Rightarrow> v | YName n \<Rightarrow> sh_ptr g n)"

definition union_name :: "yystype \<Rightarrow> arith_error + string" where
  "union_name y = (case y of YVal v \<Rightarrow> Inl Bad_union | YName n \<Rightarrow> Inr n)"

subsection \<open>The parser\<close>

definition is_assign :: "int \<Rightarrow> bool" where
  "is_assign op \<longleftrightarrow> op = ARITH_ASS \<or> ARITH_ASS_MIN \<le> op \<and> op < ARITH_ASS_MAX"

definition assign_var :: "sh_env \<Rightarrow> int \<Rightarrow> string \<Rightarrow> arith_t \<Rightarrow> sh_vars \<Rightarrow> arith_error + (arith_t \<times> sh_vars)" where
  "assign_var g op name result vars =
     bind_result (if op \<noteq> ARITH_ASS
        then bind_result (arith_lookupvarint g name vars) (\<lambda>a. do_binop (op - 11) a result)
        else Inr result)
     (\<lambda>result. bind_result (store_var g name (print_int (sint result)) vars)
       (\<lambda>vars. Inr (result, vars)))"

text \<open>
  The functions call each other through \<open>call\<close>, which is the parser with one level of recursion
  less. A call names the function with its arguments except noeval.
\<close>

datatype arith_call =
    Primary int yystype int | Binop2 arith_t int int | Binop int yystype int | And int yystype int
  | Or int yystype int | Cond int yystype int | Assignment int

type_synonym arith_result = "arith_error + (arith_t \<times> arith_state)"
type_synonym arith_rec = "arith_call \<Rightarrow> bool \<Rightarrow> arith_state \<Rightarrow> arith_result"

definition primary :: "sh_env \<Rightarrow> arith_rec \<Rightarrow> int \<Rightarrow> yystype \<Rightarrow> int \<Rightarrow> bool \<Rightarrow> arith_state \<Rightarrow> arith_result" where
  "primary g call token val op noeval s =
     (if token = ARITH_LPAREN then
        bind_result (call (Assignment op) noeval s) (\<lambda>(result, s).
          if last_token s \<noteq> ARITH_RPAREN then Inl Expecting_close
          else let (t, s) = next_token s in Inr (result, s\<lparr>last_token := t\<rparr>))
      else if token = ARITH_NUM then Inr (union_val g val, s\<lparr>last_token := op\<rparr>)
      else if token = ARITH_VAR then
        (if noeval then Inr (union_val g val, s\<lparr>last_token := op\<rparr>)
         else bind_result (union_name val) (\<lambda>name.
                bind_result (arith_lookupvarint g name (sh_vars s)) (\<lambda>v. Inr (v, s\<lparr>last_token := op\<rparr>))))
      else if token = ARITH_ADD then
        (let (t, s') = next_token s in call (Primary op (yylval s) t) noeval s')
      else if token = ARITH_SUB then
        (let (t, s') = next_token s in
         bind_result (call (Primary op (yylval s) t) noeval s') (\<lambda>(r, s). Inr (- r, s)))
      else if token = ARITH_NOT then
        (let (t, s') = next_token s in
         bind_result (call (Primary op (yylval s) t) noeval s') (\<lambda>(r, s). Inr (of_truth (r = 0), s)))
      else if token = ARITH_BNOT then
        (let (t, s') = next_token s in
         bind_result (call (Primary op (yylval s) t) noeval s') (\<lambda>(r, s). Inr (NOT r, s)))
      else Inl Expecting_primary)"

definition binop2 :: "arith_rec \<Rightarrow> arith_t \<Rightarrow> int \<Rightarrow> int \<Rightarrow> bool \<Rightarrow> arith_state \<Rightarrow> arith_result" where
  "binop2 call a op precedence noeval s =
     (let (token, s1) = next_token s; (t, s2) = next_token s1 in
      bind_result (call (Primary token (yylval s1) t) noeval s2) (\<lambda>(b, s).
      bind_result (if is_binop (last_token s) \<and> higher_prec (last_token s) op
                   then call (Binop2 b (last_token s) (arith_prec op)) noeval s
                   else Inr (b, s)) (\<lambda>(b, s).
      bind_result (if noeval then Inr b else do_binop op a b) (\<lambda>a.
      if \<not> is_binop (last_token s) \<or> arith_prec (last_token s) \<ge> precedence then Inr (a, s)
      else call (Binop2 a (last_token s) precedence) noeval s))))"

definition binop :: "arith_rec \<Rightarrow> int \<Rightarrow> yystype \<Rightarrow> int \<Rightarrow> bool \<Rightarrow> arith_state \<Rightarrow> arith_result" where
  "binop call token val op noeval s =
     bind_result (call (Primary token val op) noeval s) (\<lambda>(a, s).
     if \<not> is_binop (last_token s) then Inr (a, s)
     else call (Binop2 a (last_token s) ARITH_MAX_PREC) noeval s)"

definition and_expr :: "arith_rec \<Rightarrow> int \<Rightarrow> yystype \<Rightarrow> int \<Rightarrow> bool \<Rightarrow> arith_state \<Rightarrow> arith_result" where
  "and_expr call token val op noeval s =
     bind_result (call (Binop token val op) noeval s) (\<lambda>(a, s).
     if last_token s \<noteq> ARITH_AND then Inr (a, s)
     else let (token, s1) = next_token s; (t, s2) = next_token s1 in
       bind_result (call (And token (yylval s1) t) (noeval \<or> a = 0) s2) (\<lambda>(b, s).
         Inr (of_truth (a \<noteq> 0 \<and> b \<noteq> 0), s)))"

definition or_expr :: "arith_rec \<Rightarrow> int \<Rightarrow> yystype \<Rightarrow> int \<Rightarrow> bool \<Rightarrow> arith_state \<Rightarrow> arith_result" where
  "or_expr call token val op noeval s =
     bind_result (call (And token val op) noeval s) (\<lambda>(a, s).
     if last_token s \<noteq> ARITH_OR then Inr (a, s)
     else let (token, s1) = next_token s; (t, s2) = next_token s1 in
       bind_result (call (Or token (yylval s1) t) (noeval \<or> a \<noteq> 0) s2) (\<lambda>(b, s).
         Inr (of_truth (a \<noteq> 0 \<or> b \<noteq> 0), s)))"

definition cond :: "arith_rec \<Rightarrow> int \<Rightarrow> yystype \<Rightarrow> int \<Rightarrow> bool \<Rightarrow> arith_state \<Rightarrow> arith_result" where
  "cond call token val op noeval s =
     bind_result (call (Or token val op) noeval s) (\<lambda>(a, s).
     if last_token s \<noteq> ARITH_QMARK then Inr (a, s)
     else let (t, s) = next_token s in
       bind_result (call (Assignment t) (noeval \<or> a = 0) s) (\<lambda>(b, s).
       if last_token s \<noteq> ARITH_COLON then Inl Expecting_colon
       else let (token, s1) = next_token s; (t, s2) = next_token s1 in
         bind_result (call (Cond token (yylval s1) t) (noeval \<or> a \<noteq> 0) s2) (\<lambda>(c, s).
           Inr (if a \<noteq> 0 then b else c, s))))"

definition assignment :: "sh_env \<Rightarrow> arith_rec \<Rightarrow> int \<Rightarrow> bool \<Rightarrow> arith_state \<Rightarrow> arith_result" where
  "assignment g call var noeval s =
     (let val = yylval s; (op, s) = next_token s in
      if var \<noteq> ARITH_VAR then call (Cond var val op) noeval s
      else if \<not> is_assign op then call (Cond var val op) noeval s
      else let (t, s) = next_token s in
        bind_result (call (Assignment t) noeval s) (\<lambda>(result, s).
        if noeval then Inr (result, s)
        else bind_result (union_name val) (\<lambda>name.
             bind_result (assign_var g op name result (sh_vars s)) (\<lambda>(result, vars).
               Inr (result, s\<lparr>sh_vars := vars\<rparr>)))))"

primrec parse :: "sh_env \<Rightarrow> nat \<Rightarrow> arith_rec" where
  "parse g 0 c noeval s = Inl Stack_out"
| "parse g (Suc k) c noeval s = (case c of
     Primary token val op \<Rightarrow> primary g (parse g k) token val op noeval s
   | Binop2 a op precedence \<Rightarrow> binop2 (parse g k) a op precedence noeval s
   | Binop token val op \<Rightarrow> binop (parse g k) token val op noeval s
   | And token val op \<Rightarrow> and_expr (parse g k) token val op noeval s
   | Or token val op \<Rightarrow> or_expr (parse g k) token val op noeval s
   | Cond token val op \<Rightarrow> cond (parse g k) token val op noeval s
   | Assignment var \<Rightarrow> assignment g (parse g k) var noeval s)"

text \<open>
  \<open>arith\<close> on an expression, with the values of yylval and last_token from before; the expression has
  at most as many tokens as characters.
\<close>

definition arith :: "sh_env \<Rightarrow> yystype \<Rightarrow> int \<Rightarrow> string \<Rightarrow> sh_vars \<Rightarrow> arith_error + (arith_t \<times> sh_vars)" where
  "arith g y lt str vars =
     (let (t, s) = next_token \<lparr>arith_buf = str, yylval = y, last_token = lt, sh_vars = vars\<rparr> in
      bind_result (parse g (6 * length str + 12) (Assignment t) False s) (\<lambda>(result, s).
        if last_token s \<noteq> 0 then Inl Expecting_EOF else Inr (result, sh_vars s)))"

text \<open>
  The builtin let: its arguments are concatenated with a space between them, the value is
  written to standard output and the exit status is 1 for the value 0.
\<close>

definition letcmd :: "sh_env \<Rightarrow> yystype \<Rightarrow> int \<Rightarrow> string list \<Rightarrow> sh_vars \<Rightarrow> arith_error + (string \<times> bool \<times> sh_vars)" where
  "letcmd g y lt argv vars =
     (let p = (case argv of prog # a # as \<Rightarrow> foldl (\<lambda>concat ap. concat @ [CHR '' ''] @ ap) a as | _ \<Rightarrow> []) in
      bind_result (arith g y lt p vars) (\<lambda>(i, vars). Inr (print_int (sint i) @ [NL], i = 0, vars)))"

end
