(* ===== verification/Sh_Var.thy ===== *)
theory Sh_Var
  imports Sh_Arith
begin

text \<open>
  The variables of sh: shell_cmds/sh/var.c. A struct var lives at an address, the chains of vartab are lists
  of addresses, and localvars is the list of what has to be restored. The flags are sets. What the
  code does outside of the variables, the callbacks of the special variables, the environment of the
  process and the locale, is recorded as a list of events. An error keeps the state in which it was raised.
\<close>

subsection \<open>Data\<close>

datatype vflag = VEXPORT | VREADONLY | VSTRFIXED | VTEXTFIXED | VSTACK | VUNSET | VNOFUNC | VNOSET | VNOLOCAL

datatype vfunc = Sethistsize | Changepath | Setterm | Getoptsreset

record var =
  v_flags :: "vflag set"
  v_name_len :: nat
  v_text :: string
  v_func :: "vfunc option"

datatype localvar = Local_opts string | Local_var nat "vflag set" "string option"

datatype event =
    Func_called vfunc string | Env_set string string | Env_unset string | Set_locale | Check_mail | Options_changed

record vstate =
  vs_heap :: "nat \<Rightarrow> var"
  vartab :: "nat \<Rightarrow> nat list"
  vs_free :: nat
  localvars :: "localvar list"
  forcelocal :: nat
  aflag :: bool
  interactive :: bool
  optval :: string
  events :: "event list"

datatype var_error = Bad_name string | Is_read_only string | Past_end | Loop_out

type_synonym var_result = "(var_error \<times> vstate) + vstate"

abbreviation (input) VTABSIZE :: nat where "VTABSIZE \<equiv> 39"

text \<open>The addresses of the static variables; ckmalloc gives the addresses from 11 on.\<close>

abbreviation (input) vhistsize :: nat where "vhistsize \<equiv> 0"
abbreviation (input) vifs :: nat where "vifs \<equiv> 1"
abbreviation (input) vmail :: nat where "vmail \<equiv> 2"
abbreviation (input) vmpath :: nat where "vmpath \<equiv> 3"
abbreviation (input) vpath :: nat where "vpath \<equiv> 4"
abbreviation (input) vps2 :: nat where "vps2 \<equiv> 5"
abbreviation (input) vps4 :: nat where "vps4 \<equiv> 6"
abbreviation (input) vterm :: nat where "vterm \<equiv> 7"
abbreviation (input) voptind :: nat where "voptind \<equiv> 8"
abbreviation (input) vdisvfork :: nat where "vdisvfork \<equiv> 9"
abbreviation (input) vps1 :: nat where "vps1 \<equiv> 10"

abbreviation (input) EQ :: char where "EQ \<equiv> CHR ''=''"

definition name_of :: "string \<Rightarrow> string" where
  "name_of s = takeWhile (\<lambda>c. c \<noteq> EQ) s"

definition is_name :: "char \<Rightarrow> bool" where
  "is_name c \<longleftrightarrow> isalpha c \<or> c = CHR ''_''"

definition set_var :: "nat \<Rightarrow> var \<Rightarrow> vstate \<Rightarrow> vstate" where
  "set_var vp v st = st\<lparr>vs_heap := (vs_heap st)(vp := v)\<rparr>"

definition log :: "event list \<Rightarrow> vstate \<Rightarrow> vstate" where
  "log es st = st\<lparr>events := events st @ es\<rparr>"

subsection \<open>Searching\<close>

definition bucket :: "string \<Rightarrow> nat" where
  "bucket name = unat (foldl (\<lambda>hashval c. 2 * hashval + word_of_int (code c)) (0 :: 32 word) (name_of name)) mod VTABSIZE"

definition find_var :: "vstate \<Rightarrow> string \<Rightarrow> nat option" where
  "find_var st name = (let len = length (name_of name) in
     find (\<lambda>vp. v_name_len (vs_heap st vp) = len \<and> take len (v_text (vs_heap st vp)) = take len name)
       (vartab st (bucket name)))"

text \<open>The first name ends with an equals sign, so that the loop does not run past both ends.\<close>

fun varequal :: "string \<Rightarrow> string \<Rightarrow> bool" where
  "varequal (p # ps) (q # qs) = (if p = q then p = EQ \<or> varequal ps qs else False)"
| "varequal (p # ps) [] = (p = EQ)"
| "varequal [] q = False"

definition locale_names :: "string list" where
  "locale_names = [''LC_COLLATE'', ''LC_CTYPE'', ''LC_MONETARY'', ''LC_NUMERIC'', ''LC_TIME'', ''LC_MESSAGES'']"

definition localevar :: "string \<Rightarrow> bool" where
  "localevar s = (case s of [] \<Rightarrow> False
   | c # r \<Rightarrow> c = CHR ''L'' \<and> (varequal r ''ANG'' \<or>
       take 2 r = ''C_'' \<and> (varequal (drop 2 r) ''ALL'' \<or> list_ex (\<lambda>ss. varequal (drop 2 r) (drop 3 ss)) locale_names)))"

definition change_env :: "string \<Rightarrow> bool \<Rightarrow> event" where
  "change_env s b = (if b \<and> EQ \<in> set s then Env_set (name_of s) (drop (length (name_of s) + 1) s) else Env_unset (name_of s))"

definition lookupvar :: "vstate \<Rightarrow> string \<Rightarrow> string option" where
  "lookupvar st name = (case find_var st name of None \<Rightarrow> None
   | Some v \<Rightarrow> if VUNSET \<in> v_flags (vs_heap st v) then None
       else Some (drop (v_name_len (vs_heap st v) + 1) (v_text (vs_heap st v))))"

definition bltinlookup :: "string list \<Rightarrow> vstate \<Rightarrow> string \<Rightarrow> bool \<Rightarrow> string option" where
  "bltinlookup cmdenviron st name doall =
     (case filter (\<lambda>a. varequal a name) cmdenviron of
        a # as \<Rightarrow> Some (drop (length (name_of (last (a # as))) + 1) (last (a # as)))
      | [] \<Rightarrow> (case find_var st name of None \<Rightarrow> None
         | Some v \<Rightarrow> if VUNSET \<in> v_flags (vs_heap st v) \<or> \<not> doall \<and> VEXPORT \<notin> v_flags (vs_heap st v) then None
             else Some (drop (v_name_len (vs_heap st v) + 1) (v_text (vs_heap st v)))))"

definition environment :: "vstate \<Rightarrow> string list" where
  "environment st = concat (map (\<lambda>b. map (\<lambda>vp. v_text (vs_heap st vp))
     (filter (\<lambda>vp. VEXPORT \<in> v_flags (vs_heap st vp)) (vartab st b))) [0..<VTABSIZE])"

subsection \<open>Setting\<close>

definition locale_events :: "var \<Rightarrow> event list" where
  "locale_events v = (if VEXPORT \<in> v_flags v \<and> localevar (v_text v) then [change_env (v_text v) True, Set_locale] else [])"

definition set_found :: "nat \<Rightarrow> string \<Rightarrow> vflag set \<Rightarrow> vstate \<Rightarrow> vstate" where
  "set_found vp s flags st =
     (let v = vs_heap st vp;
          calls = (case v_func v of None \<Rightarrow> []
            | Some f \<Rightarrow> if VNOFUNC \<in> flags then [] else [Func_called f (drop (v_name_len v + 1) s)]);
          v' = v\<lparr>v_flags := (v_flags v - {VTEXTFIXED, VSTACK, VUNSET}) \<union> flags, v_text := s\<rparr>;
          st = set_var vp v' st;
          mpathset = (VUNSET \<notin> v_flags (vs_heap st vmpath));
          mail = (if (vp = vmpath \<or> vp = vmail \<and> \<not> mpathset) \<and> interactive st then [Check_mail] else [])
      in log (calls @ mail @ locale_events v') st)"

definition set_new :: "string \<Rightarrow> vflag set \<Rightarrow> vstate \<Rightarrow> vstate" where
  "set_new s flags st =
     (let vp = vs_free st; v = \<lparr>v_flags = flags, v_name_len = length (name_of s), v_text = s, v_func = None\<rparr>;
          b = bucket s
      in log (locale_events v) (set_var vp v
           (st\<lparr>vs_free := Suc vp, vartab := (vartab st)(b := vp # vartab st b)\<rparr>)))"

text \<open>setvareq from find_var on.\<close>

definition setvareq_found :: "string \<Rightarrow> vflag set \<Rightarrow> vstate \<Rightarrow> var_result" where
  "setvareq_found s flags st = (case find_var st s of
     Some vp \<Rightarrow>
       if VREADONLY \<in> v_flags (vs_heap st vp)
       then Inl (Is_read_only (take (v_name_len (vs_heap st vp)) (v_text (vs_heap st vp))), st)
       else if VNOSET \<in> flags then Inr st
       else Inr (set_found vp s flags st)
   | None \<Rightarrow> if VNOSET \<in> flags then Inr st else Inr (set_new s flags st))"

definition all_export :: "vflag set \<Rightarrow> vstate \<Rightarrow> vflag set" where
  "all_export flags st = (if aflag st then insert VEXPORT flags else flags)"

text \<open>setvareq as mklocal calls it, with VNOLOCAL.\<close>

definition setvareq_nolocal :: "string \<Rightarrow> vflag set \<Rightarrow> vstate \<Rightarrow> var_result" where
  "setvareq_nolocal s flags st = setvareq_found s (all_export (insert VNOLOCAL flags) st) st"

text \<open>setvar over a given setvareq. An empty name makes the loop over the name start behind its end.\<close>

definition setvar_by :: "(string \<Rightarrow> vflag set \<Rightarrow> vstate \<Rightarrow> var_result) \<Rightarrow> string \<Rightarrow> string option \<Rightarrow> vflag set \<Rightarrow> vstate \<Rightarrow> var_result" where
  "setvar_by seteq name val flags st = (case name of
     [] \<Rightarrow> Inl (Past_end, st)
   | p # ps \<Rightarrow>
       let name = p # name_of ps in
       if \<not> is_name p \<or> \<not> list_all is_in_name (name_of ps) then Inl (Bad_name name, st)
       else case val of
         None \<Rightarrow> seteq (name @ [EQ]) (insert VUNSET flags) st
       | Some v \<Rightarrow> seteq (name @ EQ # v) flags st)"

definition push_local :: "localvar \<Rightarrow> vstate \<Rightarrow> vstate" where
  "push_local lvp st = st\<lparr>localvars := lvp # localvars st\<rparr>"

definition mklocal :: "string \<Rightarrow> vstate \<Rightarrow> var_result" where
  "mklocal name st =
     (if name = ''-'' then Inr (push_local (Local_opts (optval st)) st)
      else case find_var st name of
        None \<Rightarrow>
          bind_result (if EQ \<in> set name then setvareq_nolocal name {VSTRFIXED} st
                       else setvar_by setvareq_nolocal name None {VSTRFIXED} st)
          (\<lambda>st. Inr (push_local (Local_var (hd (vartab st (bucket name))) {VUNSET} None) st))
      | Some vp \<Rightarrow>
          let v = vs_heap st vp; st = set_var vp (v\<lparr>v_flags := v_flags v \<union> {VSTRFIXED, VTEXTFIXED}\<rparr>) st in
          bind_result (if v_name_len v < length name \<and> name ! v_name_len v = EQ then setvareq_nolocal name {} st else Inr st)
          (\<lambda>st. Inr (push_local (Local_var vp (v_flags v) (Some (v_text v))) st)))"

definition setvareq :: "string \<Rightarrow> vflag set \<Rightarrow> vstate \<Rightarrow> var_result" where
  "setvareq s flags st =
     (let flags = all_export flags st in
      bind_result (if 0 < forcelocal st \<and> VNOSET \<notin> flags \<and> VNOLOCAL \<notin> flags then mklocal s st else Inr st)
        (setvareq_found s flags))"

definition setvar :: "string \<Rightarrow> string option \<Rightarrow> vflag set \<Rightarrow> vstate \<Rightarrow> var_result" where
  "setvar = setvar_by setvareq"

definition setvarsafe :: "string \<Rightarrow> string option \<Rightarrow> vflag set \<Rightarrow> vstate \<Rightarrow> bool \<times> vstate" where
  "setvarsafe name val flags st = (case setvar name val flags st of Inl (e, st) \<Rightarrow> (True, st) | Inr st \<Rightarrow> (False, st))"

fun listsetvar :: "string list \<Rightarrow> vflag set \<Rightarrow> vstate \<Rightarrow> var_result" where
  "listsetvar [] flags st = Inr st"
| "listsetvar (a # as) flags st = bind_result (setvareq a flags st) (listsetvar as flags)"

subsection \<open>Unsetting, and the end of a scope\<close>

definition unsetvar :: "string \<Rightarrow> vstate \<Rightarrow> (var_error \<times> vstate) + (bool \<times> vstate)" where
  "unsetvar s st = (case find_var st s of
     None \<Rightarrow> Inr (False, st)
   | Some vp \<Rightarrow>
       if VREADONLY \<in> v_flags (vs_heap st vp) then Inr (True, st)
       else bind_result
         (if drop (v_name_len (vs_heap st vp) + 1) (v_text (vs_heap st vp)) \<noteq> [] then setvar s (Some []) {} st else Inr st)
         (\<lambda>st. let v = vs_heap st vp;
                  st = (if VEXPORT \<in> v_flags v \<and> localevar (v_text v) then log [change_env s False, Set_locale] st else st);
                  st = set_var vp (v\<lparr>v_flags := insert VUNSET (v_flags v - {VEXPORT})\<rparr>) st
              in Inr (False, if VSTRFIXED \<in> v_flags v then st
                 else st\<lparr>vartab := (vartab st)(bucket s := removeAll vp (vartab st (bucket s)))\<rparr>)))"

text \<open>One round of the loop of poplocalvars; the text is only NULL when the variable did not exist.\<close>

definition poplocal :: "localvar \<Rightarrow> vstate \<Rightarrow> var_result" where
  "poplocal lvp st = (case lvp of
     Local_opts text \<Rightarrow> Inr (log [Options_changed] (st\<lparr>optval := text\<rparr>))
   | Local_var vp flags text \<Rightarrow>
       let v = vs_heap st vp in
       if VUNSET \<in> flags \<and> VSTRFIXED \<notin> flags then
         bind_result (unsetvar (v_text v) (set_var vp (v\<lparr>v_flags := v_flags v - {VREADONLY}\<rparr>) st)) (\<lambda>(r, st). Inr st)
       else
         (let t = (case text of Some t \<Rightarrow> t | None \<Rightarrow> []);
              islocalevar = ((VEXPORT \<in> v_flags v \<or> VEXPORT \<in> flags) \<and> localevar t);
              v' = v\<lparr>v_flags := flags, v_text := t\<rparr>;
              calls = (case v_func v of None \<Rightarrow> [] | Some f \<Rightarrow> [Func_called f (drop (v_name_len v + 1) t)]);
              env = (if islocalevar then [change_env t (VEXPORT \<in> flags \<and> VUNSET \<notin> flags), Set_locale] else [])
          in Inr (log (calls @ env) (set_var vp v' st))))"

fun pop_loop :: "nat \<Rightarrow> vstate \<Rightarrow> var_result" where
  "pop_loop 0 st = Inl (Loop_out, st)"
| "pop_loop (Suc k) st = (case localvars st of
     [] \<Rightarrow> Inr st
   | lvp # next \<Rightarrow> bind_result (poplocal lvp (st\<lparr>localvars := next\<rparr>)) (pop_loop k))"

definition poplocalvars :: "vstate \<Rightarrow> var_result" where
  "poplocalvars st = pop_loop (2 * length (localvars st) + 1) st"

subsection \<open>Commands\<close>

definition export_arg :: "vflag \<Rightarrow> string \<Rightarrow> vstate \<Rightarrow> var_result" where
  "export_arg flag name st =
     (if EQ \<in> set name then setvar name (Some (drop (length (name_of name) + 1) name)) {flag} st
      else case find_var st name of
        Some vp \<Rightarrow>
          let v = vs_heap st vp; v' = v\<lparr>v_flags := insert flag (v_flags v)\<rparr> in
          Inr (log (locale_events v') (set_var vp v' st))
      | None \<Rightarrow> setvar name None {flag} st)"

text \<open>
  What the commands in a scope do to variables: assignments, unset and local. \<open>localcmd\<close> and the
  prefix assignments of a function call make a variable local. eval.c opens and closes two kinds of
  scopes: the call of a function, and a command substitution or a here document that is expanded
  without a new process, in which every assignment is local. An error ends the scope as well; the
  call of a function raises it again.
\<close>

datatype var_op = Assign string string | Unset string | Local string

fun op_name :: "var_op \<Rightarrow> string" where
  "op_name (Assign n v) = name_of n"
| "op_name (Unset n) = name_of n"
| "op_name (Local s) = name_of s"

fun run_op :: "var_op \<Rightarrow> vstate \<Rightarrow> var_result" where
  "run_op (Assign n v) st = setvar n (Some v) {} st"
| "run_op (Unset n) st = bind_result (unsetvar n st) (\<lambda>(r, st). Inr st)"
| "run_op (Local s) st = mklocal s st"

fun run_ops :: "var_op list \<Rightarrow> vstate \<Rightarrow> var_result" where
  "run_ops [] st = Inr st"
| "run_ops (p # ps) st = bind_result (run_op p st) (run_ops ps)"

definition call_function :: "string list \<Rightarrow> var_op list \<Rightarrow> vstate \<Rightarrow> var_result" where
  "call_function varlist body st =
     (let savelocalvars = localvars st in
      case run_ops (map Local varlist @ body) (st\<lparr>localvars := []\<rparr>) of
        Inl (e, st) \<Rightarrow> bind_result (poplocalvars st) (\<lambda>st. Inl (e, st\<lparr>localvars := savelocalvars\<rparr>))
      | Inr st \<Rightarrow> bind_result (poplocalvars st) (\<lambda>st. Inr (st\<lparr>localvars := savelocalvars\<rparr>)))"

definition forced_scope :: "(vstate \<Rightarrow> var_result) \<Rightarrow> vstate \<Rightarrow> var_result" where
  "forced_scope body st =
     (let savelocalvars = localvars st;
          st = (case body (st\<lparr>localvars := [], forcelocal := forcelocal st + 1\<rparr>) of Inl (e, st) \<Rightarrow> st | Inr st \<Rightarrow> st)
      in bind_result (poplocalvars (st\<lparr>forcelocal := forcelocal st - 1\<rparr>)) (\<lambda>st. Inr (st\<lparr>localvars := savelocalvars\<rparr>)))"

text \<open>initvar: the table of the special variables, PS1, PPID and the environment. The default path comes from a system header.\<close>

definition varinit :: "string \<Rightarrow> (nat \<times> vflag set \<times> string \<times> vfunc option) list" where
  "varinit defpath = [(vhistsize, {VUNSET}, ''HISTSIZE='', Some Sethistsize), (vifs, {}, ''IFS= '' @ [TAB, NL], None),
     (vmail, {VUNSET}, ''MAIL='', None), (vmpath, {VUNSET}, ''MAILPATH='', None),
     (vpath, {}, ''PATH='' @ defpath, Some Changepath), (vps2, {}, ''PS2=> '', None), (vps4, {}, ''PS4=+ '', None),
     (vterm, {VUNSET}, ''TERM='', Some Setterm), (voptind, {}, ''OPTIND=1'', Some Getoptsreset),
     (vdisvfork, {VUNSET}, ''SH_DISABLE_VFORK='', None)]"

definition init_static :: "nat \<times> vflag set \<times> string \<times> vfunc option \<Rightarrow> vstate \<Rightarrow> vstate" where
  "init_static = (\<lambda>(vp, flags, text, func) st.
     if find_var st text \<noteq> None then st
     else set_var vp \<lparr>v_flags = flags \<union> {VSTRFIXED, VTEXTFIXED}, v_name_len = length (name_of text), v_text = text, v_func = func\<rparr>
       (st\<lparr>vartab := (vartab st)(bucket text := vp # vartab st (bucket text))\<rparr>))"

fun import_env :: "string list \<Rightarrow> vstate \<Rightarrow> var_result" where
  "import_env [] st = Inr st"
| "import_env (e # es) st =
     bind_result (if EQ \<in> set e then setvareq e {VEXPORT, VTEXTFIXED} st else Inr st) (import_env es)"

definition empty_vars :: vstate where
  "empty_vars = \<lparr>vs_heap = (\<lambda>_. \<lparr>v_flags = {}, v_name_len = 0, v_text = [], v_func = None\<rparr>), vartab = (\<lambda>_. []), vs_free = 11,
     localvars = [], forcelocal = 0, aflag = False, interactive = False, optval = [], events = []\<rparr>"

definition initvar :: "string \<Rightarrow> bool \<Rightarrow> nat \<Rightarrow> string list \<Rightarrow> var_result" where
  "initvar defpath root ppid environ =
     (let st = fold init_static (varinit defpath) empty_vars;
          st = init_static (vps1, {}, (if root then ''PS1=# '' else ''PS1=$ ''), None) st;
          st = snd (setvarsafe ''PPID'' (Some (decimal ppid)) {} st)
      in bind_result (import_env environ st) (\<lambda>st.
         bind_result (setvareq ''OPTIND=1'' {VTEXTFIXED} st) (setvareq (''IFS= '' @ [TAB, NL]) {VTEXTFIXED})))"

end
