(* ===== verification/Sh_Table.thy ===== *)
theory Sh_Table
  imports Sh_Var
begin

text \<open>
  The table of the variables of sh as a map: its invariant, what the searches find, and the effect of
  every change of the table on the values.
\<close>

subsection \<open>The invariant\<close>

definition vname :: "var \<Rightarrow> string" where "vname v = take (v_name_len v) (v_text v)"

definition vvalue :: "var \<Rightarrow> string" where "vvalue v = drop (v_name_len v + 1) (v_text v)"

definition var_ok :: "var \<Rightarrow> bool" where
  "var_ok v \<longleftrightarrow> v_name_len v < length (v_text v) \<and> v_text v ! v_name_len v = EQ \<and> EQ \<notin> set (vname v) \<and>
     (VUNSET \<in> v_flags v \<longrightarrow> vvalue v = [])"

definition var_inv :: "vstate \<Rightarrow> bool" where
  "var_inv st \<longleftrightarrow> (\<forall>b. distinct (vartab st b) \<and> inj_on (\<lambda>i. vname (vs_heap st i)) (set (vartab st b))) \<and>
     (\<forall>b. \<forall>i \<in> set (vartab st b). i < vs_free st \<and> var_ok (vs_heap st i) \<and> bucket (vname (vs_heap st i)) = b)"

definition in_table :: "vstate \<Rightarrow> nat \<Rightarrow> bool" where
  "in_table st i \<longleftrightarrow> i \<in> set (vartab st (bucket (vname (vs_heap st i))))"

lemma name_of_plain: "EQ \<notin> set n \<Longrightarrow> name_of n = n" "EQ \<notin> set n \<Longrightarrow> name_of (n @ EQ # r) = n" "EQ \<notin> set (name_of s)"
  by (auto simp: name_of_def takeWhile_append dest: set_takeWhileD)

lemma name_of_split: "EQ \<in> set s \<Longrightarrow> s = name_of s @ EQ # drop (length (name_of s) + 1) s"
proof (induction s)
  case (Cons c s)
  then show ?case by (cases "c = EQ") (auto simp: name_of_def)
qed simp

lemma bucket_name_of: "bucket (name_of s) = bucket s"
  unfolding bucket_def by (simp add: name_of_plain)

lemma var_ok_text:
  assumes "var_ok v"
  shows "v_text v = vname v @ EQ # vvalue v" "length (vname v) = v_name_len v" "name_of (v_text v) = vname v"
proof -
  show e: "v_text v = vname v @ EQ # vvalue v"
    using assms unfolding vname_def vvalue_def var_ok_def by (metis Suc_eq_plus1 id_take_nth_drop)
  show "length (vname v) = v_name_len v" using assms by (simp add: vname_def var_ok_def)
  show "name_of (v_text v) = vname v" using assms e name_of_plain(2) [of "vname v" "vvalue v"] by (simp add: var_ok_def)
qed

lemma var_okI:
  assumes "v_text v = n @ EQ # r" "v_name_len v = length n" "EQ \<notin> set n" "VUNSET \<in> v_flags v \<Longrightarrow> r = []"
  shows "var_ok v" "vname v = n" "vvalue v = r"
  using assms by (auto simp: var_ok_def vname_def vvalue_def nth_append)

lemma in_table_ok:
  assumes "var_inv st" "in_table st i"
  shows "var_ok (vs_heap st i)" "i < vs_free st"
  using assms by (auto simp: var_inv_def in_table_def)

lemma in_table_unique:
  assumes "var_inv st" "in_table st i" "in_table st j" "vname (vs_heap st i) = vname (vs_heap st j)"
  shows "i = j"
  using assms unfolding var_inv_def in_table_def by (metis (no_types, lifting) inj_onD)

lemma find_var_iff:
  assumes inv: "var_inv st"
  shows "find_var st s = Some i \<longleftrightarrow> in_table st i \<and> vname (vs_heap st i) = name_of s"
proof -
  have len: "take (length (name_of s)) s = name_of s" by (simp add: name_of_def flip: takeWhile_eq_take)
  have P: "v_name_len (vs_heap st j) = length (name_of s) \<and> take (length (name_of s)) (v_text (vs_heap st j)) = take (length (name_of s)) s
      \<longleftrightarrow> vname (vs_heap st j) = name_of s" if "j \<in> set (vartab st (bucket s))" for j
  proof -
    have "length (vname (vs_heap st j)) = v_name_len (vs_heap st j)" using that inv by (intro var_ok_text(2)) (auto simp: var_inv_def)
    then show ?thesis unfolding len by (metis vname_def)
  qed
  have t: "j \<in> set (vartab st (bucket s)) \<and> vname (vs_heap st j) = name_of s \<longleftrightarrow> in_table st j \<and> vname (vs_heap st j) = name_of s" for j
    by (auto simp: in_table_def bucket_name_of)
  have found: "j \<in> set (vartab st (bucket s)) \<and> vname (vs_heap st j) = name_of s" if "find_var st s = Some j" for j
  proof -
    have "j \<in> set (vartab st (bucket s))" using that by (auto simp: find_var_def find_Some_iff Let_def)
    moreover from P [OF this] that have "vname (vs_heap st j) = name_of s" by (auto simp: find_var_def find_Some_iff Let_def)
    ultimately show ?thesis ..
  qed
  show ?thesis
  proof
    assume "find_var st s = Some i"
    then have "i \<in> set (vartab st (bucket s))" "vname (vs_heap st i) = name_of s" using found by blast+
    then show "in_table st i \<and> vname (vs_heap st i) = name_of s" using t by blast
  next
    assume i: "in_table st i \<and> vname (vs_heap st i) = name_of s"
    then have "find_var st s \<noteq> None" using P t by (auto simp: find_var_def find_None_iff Let_def)
    then obtain j where j: "find_var st s = Some j" by blast
    then have "j \<in> set (vartab st (bucket s))" "vname (vs_heap st j) = name_of s" using found by blast+
    then have "j = i" using i t in_table_unique [OF inv, of j i] by metis
    then show "find_var st s = Some i" using j by simp
  qed
qed

lemma find_var_None: "var_inv st \<Longrightarrow> find_var st s = None \<longleftrightarrow> (\<forall>i. in_table st i \<longrightarrow> vname (vs_heap st i) \<noteq> name_of s)"
  using find_var_iff [of st s] by (metis not_None_eq)

subsection \<open>The values\<close>

definition vals :: "vstate \<Rightarrow> string \<Rightarrow> string option" where
  "vals st n = (if EQ \<in> set n then None else lookupvar st n)"

definition readonly :: "vstate \<Rightarrow> string set" where
  "readonly st = {n. \<exists>i. in_table st i \<and> vname (vs_heap st i) = n \<and> VREADONLY \<in> v_flags (vs_heap st i)}"

definition val_of :: "var \<Rightarrow> string option" where
  "val_of v = (if VUNSET \<in> v_flags v then None else Some (vvalue v))"

lemma vals_in_table:
  assumes "var_inv st" "in_table st i" "vname (vs_heap st i) = n" shows "vals st n = val_of (vs_heap st i)"
proof -
  have "EQ \<notin> set n" using in_table_ok [OF assms(1,2)] assms(3) by (simp add: var_ok_def)
  moreover have "find_var st n = Some i" using find_var_iff [OF assms(1)] assms(2,3) name_of_plain(1) [OF calculation] by simp
  ultimately show ?thesis by (simp add: vals_def lookupvar_def val_of_def vvalue_def)
qed

lemma vals_not_in_table:
  assumes "var_inv st" "\<And>i. in_table st i \<Longrightarrow> vname (vs_heap st i) \<noteq> n" shows "vals st n = None"
proof (cases "EQ \<in> set n")
  case False
  then have "find_var st n = None" using find_var_None [OF assms(1)] assms(2) name_of_plain(1) by simp
  then show ?thesis by (simp add: vals_def lookupvar_def)
qed (simp add: vals_def)

lemma vals_eqI:
  assumes "var_inv st" "\<And>i. in_table st i \<Longrightarrow> m (vname (vs_heap st i)) = val_of (vs_heap st i)"
    and "\<And>n. (\<And>i. in_table st i \<Longrightarrow> vname (vs_heap st i) \<noteq> n) \<Longrightarrow> m n = None"
  shows "vals st = m"
proof
  fix n
  show "vals st n = m n"
  proof (cases "\<exists>i. in_table st i \<and> vname (vs_heap st i) = n")
    case True
    then show ?thesis using vals_in_table [OF assms(1)] assms(2) by metis
  next
    case False
    then show ?thesis using vals_not_in_table [OF assms(1)] assms(3) by metis
  qed
qed

lemma readonly_in_table:
  assumes "var_inv st" "in_table st i"
  shows "vname (vs_heap st i) \<in> readonly st \<longleftrightarrow> VREADONLY \<in> v_flags (vs_heap st i)"
proof
  assume "vname (vs_heap st i) \<in> readonly st"
  then obtain j where "in_table st j" "vname (vs_heap st j) = vname (vs_heap st i)" "VREADONLY \<in> v_flags (vs_heap st j)"
    unfolding readonly_def by blast
  then show "VREADONLY \<in> v_flags (vs_heap st i)" using in_table_unique [OF assms(1) _ assms(2)] by metis
qed (use assms(2) in \<open>unfold readonly_def, blast\<close>)

text \<open>What the values depend on.\<close>

lemma same_table:
  assumes "vs_heap st' = vs_heap st" "vartab st' = vartab st"
  shows "vals st' = vals st" "in_table st' = in_table st" "readonly st' = readonly st" "find_var st' = find_var st"
proof -
  show f: "find_var st' = find_var st" using assms by (simp add: find_var_def fun_eq_iff)
  show t: "in_table st' = in_table st" using assms by (simp add: in_table_def fun_eq_iff)
  show "vals st' = vals st" using assms f by (simp add: vals_def lookupvar_def fun_eq_iff split: option.split)
  show "readonly st' = readonly st" using assms t by (simp add: readonly_def)
qed

lemma same_inv: "vs_heap st' = vs_heap st \<Longrightarrow> vartab st' = vartab st \<Longrightarrow> vs_free st' = vs_free st \<Longrightarrow> var_inv st' = var_inv st"
  by (simp add: var_inv_def)

lemma log_simps [simp]:
  "vs_heap (log es st) = vs_heap st" "vartab (log es st) = vartab st" "vs_free (log es st) = vs_free st"
  "localvars (log es st) = localvars st" "forcelocal (log es st) = forcelocal st" "aflag (log es st) = aflag st"
  by (simp_all add: log_def)

lemma set_var_simps [simp]:
  "vs_heap (set_var i v st) = (vs_heap st)(i := v)" "vartab (set_var i v st) = vartab st" "vs_free (set_var i v st) = vs_free st"
  "localvars (set_var i v st) = localvars st" "forcelocal (set_var i v st) = forcelocal st" "aflag (set_var i v st) = aflag st"
  by (simp_all add: set_var_def)

lemma push_local_simps [simp]:
  "vs_heap (push_local l st) = vs_heap st" "vartab (push_local l st) = vartab st" "vs_free (push_local l st) = vs_free st"
  "localvars (push_local l st) = l # localvars st" "forcelocal (push_local l st) = forcelocal st" "aflag (push_local l st) = aflag st"
  by (simp_all add: push_local_def)

lemmas log_table [simp] = same_table [OF log_simps(1,2)] same_inv [OF log_simps(1,2,3)]
lemmas push_local_table [simp] = same_table [OF push_local_simps(1,2)] same_inv [OF push_local_simps(1,2,3)]

lemma localvars_table [simp]:
  "vals (st\<lparr>localvars := l\<rparr>) = vals st" "in_table (st\<lparr>localvars := l\<rparr>) = in_table st" "var_inv (st\<lparr>localvars := l\<rparr>) = var_inv st"
  "readonly (st\<lparr>localvars := l\<rparr>) = readonly st" "find_var (st\<lparr>localvars := l\<rparr>) = find_var st"
  by (rule same_table same_inv; simp)+

lemma forcelocal_table [simp]:
  "vals (st\<lparr>forcelocal := k\<rparr>) = vals st" "in_table (st\<lparr>forcelocal := k\<rparr>) = in_table st" "var_inv (st\<lparr>forcelocal := k\<rparr>) = var_inv st"
  "readonly (st\<lparr>forcelocal := k\<rparr>) = readonly st" "find_var (st\<lparr>forcelocal := k\<rparr>) = find_var st"
  by (rule same_table same_inv; simp)+

subsection \<open>Changes of a variable\<close>

lemma set_var_table:
  assumes inv: "var_inv st" and i: "in_table st i" and v: "var_ok v" "vname v = vname (vs_heap st i)"
  shows "var_inv (set_var i v st)" "in_table (set_var i v st) j \<longleftrightarrow> in_table st j"
    "vals (set_var i v st) = (vals st)(vname v := val_of v)"
    "readonly (set_var i v st) = (if VREADONLY \<in> v_flags v then insert (vname v) (readonly st) else readonly st - {vname v})"
proof -
  have n: "vname (vs_heap (set_var i v st) j) = vname (vs_heap st j)" for j using v(2) by simp
  show inv': "var_inv (set_var i v st)" using inv v unfolding var_inv_def n by auto
  show t: "in_table (set_var i v st) j \<longleftrightarrow> in_table st j" for j by (simp add: in_table_def v(2))
  show "vals (set_var i v st) = (vals st)(vname v := val_of v)"
  proof (rule vals_eqI [OF inv'])
    fix j
    assume "in_table (set_var i v st) j"
    then have j: "in_table st j" using t by simp
    show "((vals st)(vname v := val_of v)) (vname (vs_heap (set_var i v st) j)) = val_of (vs_heap (set_var i v st) j)"
      using in_table_unique [OF inv j i] vals_in_table [OF inv j refl] v(2) by auto
  next
    fix n
    assume "\<And>j. in_table (set_var i v st) j \<Longrightarrow> vname (vs_heap (set_var i v st) j) \<noteq> n"
    then have "\<And>j. in_table st j \<Longrightarrow> vname (vs_heap st j) \<noteq> n" using t v(2) by (metis n)
    moreover from this have "n \<noteq> vname v" using i v(2) by metis
    ultimately show "((vals st)(vname v := val_of v)) n = None" using vals_not_in_table [OF inv, of n] by simp
  qed
  have r: "x \<in> readonly (set_var i v st) \<longleftrightarrow> (if x = vname v then VREADONLY \<in> v_flags v else x \<in> readonly st)" for x
  proof (cases "x = vname v")
    case True
    then show ?thesis using readonly_in_table [OF inv', of i] t i by simp
  next
    case False
    have "x \<in> readonly (set_var i v st) \<longleftrightarrow> x \<in> readonly st" unfolding readonly_def mem_Collect_eq t n
    proof (rule iff_exI)
      fix j
      have "x \<noteq> vname (vs_heap st i)" using False v(2) by metis
      then show "in_table st j \<and> vname (vs_heap st j) = x \<and> VREADONLY \<in> v_flags (vs_heap (set_var i v st) j) \<longleftrightarrow>
        in_table st j \<and> vname (vs_heap st j) = x \<and> VREADONLY \<in> v_flags (vs_heap st j)"
        by (cases "j = i") auto
    qed
    then show ?thesis using False by simp
  qed
  show "readonly (set_var i v st) = (if VREADONLY \<in> v_flags v then insert (vname v) (readonly st) else readonly st - {vname v})"
    unfolding set_eq_iff r by simp
qed

text \<open>A variable is linked in at the head of its chain.\<close>

lemma link_table:
  assumes inv: "var_inv st" and v: "var_ok v" and others: "\<forall>j. in_table st j \<longrightarrow> vname (vs_heap st j) \<noteq> vname v"
    and unused: "\<forall>b. i \<notin> set (vartab st b)"
    and h: "vs_heap st' = (vs_heap st)(i := v)" "vartab st' = (vartab st)(bucket (vname v) := i # vartab st (bucket (vname v)))"
      "i < vs_free st'" "vs_free st \<le> vs_free st'"
  shows "var_inv st'" "in_table st' j \<longleftrightarrow> j = i \<or> in_table st j" "vals st' = (vals st)(vname v := val_of v)"
    "readonly st' = (if VREADONLY \<in> v_flags v then insert (vname v) (readonly st) else readonly st)"
proof -
  have other: "\<And>j. in_table st j \<Longrightarrow> vname (vs_heap st j) \<noteq> vname v" and fresh: "\<And>j b. j \<in> set (vartab st b) \<Longrightarrow> j \<noteq> i"
    using others unused by blast+
  have ne: "j \<noteq> i" if "in_table st j" for j using fresh that by (auto simp: in_table_def)
  have old: "vname (vs_heap st' j) = vname (vs_heap st j)" "var_ok (vs_heap st' j) = var_ok (vs_heap st j)" if "j \<noteq> i" for j using that by (simp_all add: h(1))
  show t: "in_table st' j \<longleftrightarrow> j = i \<or> in_table st j" for j
    using fresh by (cases "j = i") (auto simp: in_table_def h(1,2) split: if_splits)
  have new: "vname (vs_heap st j) \<noteq> vname v" if "j \<in> set (vartab st (bucket (vname v)))" for j
    using other [of j] that inv by (auto simp: in_table_def var_inv_def)
  have dist: "distinct (vartab st' b)" for b using inv fresh by (auto simp: h(2) var_inv_def)
  have inj: "inj_on (\<lambda>j. vname (vs_heap st' j)) (set (vartab st' b))" for b
  proof (rule inj_onI)
    fix x y
    assume xy: "x \<in> set (vartab st' b)" "y \<in> set (vartab st' b)" "vname (vs_heap st' x) = vname (vs_heap st' y)"
    have "inj_on (\<lambda>j. vname (vs_heap st j)) (set (vartab st b))" using inv by (simp add: var_inv_def)
    then show "x = y" using xy new fresh by (cases "x = i"; cases "y = i") (auto simp: h(1,2) inj_on_def split: if_splits)
  qed
  have each: "j < vs_free st' \<and> var_ok (vs_heap st' j) \<and> bucket (vname (vs_heap st' j)) = c" if "j \<in> set (vartab st' c)" for c j
  proof (cases "j = i")
    case True
    then have "c = bucket (vname v)" using that fresh by (auto simp: h(2) split: if_splits)
    then show ?thesis using True v by (simp add: h(1,3))
  next
    case False
    then have "j \<in> set (vartab st c)" using that by (auto simp: h(2) split: if_splits)
    then have "j < vs_free st" "var_ok (vs_heap st j)" "bucket (vname (vs_heap st j)) = c" using inv by (auto simp: var_inv_def)
    then show ?thesis using old [OF False] h(4) by simp
  qed
  show inv': "var_inv st'" unfolding var_inv_def using dist inj each by blast
  have "x \<in> readonly st' \<longleftrightarrow> x = vname v \<and> VREADONLY \<in> v_flags v \<or> x \<in> readonly st" for x
    using t ne by (auto simp: readonly_def h(1))
  then show "readonly st' = (if VREADONLY \<in> v_flags v then insert (vname v) (readonly st) else readonly st)" by auto
  show "vals st' = (vals st)(vname v := val_of v)"
  proof (rule vals_eqI [OF inv'])
    fix j
    assume "in_table st' j"
    then consider "j = i" | "in_table st j" "j \<noteq> i" using t ne by auto
    then show "((vals st)(vname v := val_of v)) (vname (vs_heap st' j)) = val_of (vs_heap st' j)"
    proof cases
      case 1
      then show ?thesis by (simp add: h(1))
    next
      case 2
      then show ?thesis using other [OF 2(1)] vals_in_table [OF inv 2(1) refl] by (simp add: h(1))
    qed
  next
    fix m
    assume a: "\<And>j. in_table st' j \<Longrightarrow> vname (vs_heap st' j) \<noteq> m"
    then have "m \<noteq> vname v" using t [of i] h(1) by (metis fun_upd_same)
    moreover have "vname (vs_heap st j) \<noteq> m" if "in_table st j" for j
      using a [of j] t [of j] that old(1) [OF ne [OF that]] by simp
    ultimately show "((vals st)(vname v := val_of v)) m = None" using vals_not_in_table [OF inv, of m] by simp
  qed
qed

lemma set_new_table:
  assumes inv: "var_inv st" and s: "find_var st s = None" "EQ \<in> set s"
    and u: "VUNSET \<in> flags \<Longrightarrow> drop (length (name_of s) + 1) s = []"
  defines "n \<equiv> name_of s" and "st' \<equiv> set_new s flags st"
  shows "var_inv st'" "in_table st' j \<longleftrightarrow> j = vs_free st \<or> in_table st j"
    "vals st' = (vals st)(n := if VUNSET \<in> flags then None else Some (drop (length n + 1) s))"
    "vname (vs_heap st' (vs_free st)) = n" "hd (vartab st' (bucket s)) = vs_free st" "v_flags (vs_heap st' (vs_free st)) = flags"
    "j \<noteq> vs_free st \<Longrightarrow> vs_heap st' j = vs_heap st j"
    "readonly st' = (if VREADONLY \<in> flags then insert n (readonly st) else readonly st)"
proof -
  define v where "v = \<lparr>v_flags = flags, v_name_len = length n, v_text = s, v_func = None\<rparr>"
  have ok: "var_ok v" "vname v = n" "vvalue v = drop (length n + 1) s"
    using var_okI [of v n "drop (length n + 1) s"] name_of_split [OF s(2)] name_of_plain(3) [of s] u by (auto simp: v_def n_def)
  have val: "val_of v = (if VUNSET \<in> flags then None else Some (drop (length n + 1) s))" "v_flags v = flags" using ok(3) by (simp_all add: val_of_def v_def)
  have b: "bucket (vname v) = bucket s" using ok(2) by (simp add: n_def bucket_name_of)
  have h: "vs_heap st' = (vs_heap st)(vs_free st := v)" "vartab st' = (vartab st)(bucket (vname v) := vs_free st # vartab st (bucket (vname v)))"
    "vs_free st < vs_free st'" "vs_free st \<le> vs_free st'"
    unfolding b by (simp_all add: st'_def set_new_def Let_def n_def v_def)
  have other: "\<forall>j. in_table st j \<longrightarrow> vname (vs_heap st j) \<noteq> vname v" using s(1) find_var_None [OF inv] ok(2) by (simp add: n_def)
  have fresh: "\<forall>b. vs_free st \<notin> set (vartab st b)" using inv by (auto simp: var_inv_def)
  note l = link_table [OF inv ok(1) other fresh h]
  show "var_inv st'" "in_table st' j \<longleftrightarrow> j = vs_free st \<or> in_table st j" using l(1,2) by blast+
  show "vals st' = (vals st)(n := if VUNSET \<in> flags then None else Some (drop (length n + 1) s))"
    "readonly st' = (if VREADONLY \<in> flags then insert n (readonly st) else readonly st)"
    using l(3,4) unfolding ok(2) val by blast+
  show "vname (vs_heap st' (vs_free st)) = n" "v_flags (vs_heap st' (vs_free st)) = flags" "j \<noteq> vs_free st \<Longrightarrow> vs_heap st' j = vs_heap st j"
    using ok(2) val(2) by (simp_all add: h(1))
  show "hd (vartab st' (bucket s)) = vs_free st" using h(2) b by simp
qed

lemma remove_table:
  assumes inv: "var_inv st" and i: "in_table st i"
  defines "n \<equiv> vname (vs_heap st i)"
  defines "st' \<equiv> st\<lparr>vartab := (vartab st)(bucket n := removeAll i (vartab st (bucket n)))\<rparr>"
  shows "var_inv st'" "in_table st' j \<longleftrightarrow> in_table st j \<and> j \<noteq> i" "vals st' = (vals st)(n := None)"
proof -
  have h: "vs_heap st' = vs_heap st" "vs_free st' = vs_free st" by (simp_all add: st'_def)
  have sub: "set (vartab st' b) = set (vartab st b) - {i}" for b
    using inv by (cases "b = bucket n") (auto simp: st'_def var_inv_def n_def)
  have "distinct (vartab st' b)" for b using inv by (simp add: st'_def var_inv_def distinct_removeAll)
  moreover have "inj_on (\<lambda>j. vname (vs_heap st j)) (set (vartab st' b))" for b
    using inv inj_on_subset [of _ "set (vartab st b)" "set (vartab st' b)"] sub by (auto simp: var_inv_def)
  ultimately show inv': "var_inv st'" using inv sub unfolding var_inv_def h by auto
  show t: "in_table st' j \<longleftrightarrow> in_table st j \<and> j \<noteq> i" for j by (simp add: in_table_def h sub)
  show "vals st' = (vals st)(n := None)"
  proof (rule vals_eqI [OF inv'])
    fix j
    assume "in_table st' j"
    then have j: "in_table st j" "j \<noteq> i" using t by auto
    then have "vname (vs_heap st j) \<noteq> n" using in_table_unique [OF inv j(1) i] by (auto simp: n_def)
    then show "((vals st)(n := None)) (vname (vs_heap st' j)) = val_of (vs_heap st' j)"
      using vals_in_table [OF inv j(1) refl] by (simp add: h)
  next
    fix m
    assume a: "\<And>j. in_table st' j \<Longrightarrow> vname (vs_heap st' j) \<noteq> m"
    have "vals st m = None" if "m \<noteq> n"
    proof (rule vals_not_in_table [OF inv])
      fix j
      assume "in_table st j"
      then show "vname (vs_heap st j) \<noteq> m" using a [of j] t [of j] that by (cases "j = i") (auto simp: n_def h)
    qed
    then show "((vals st)(n := None)) m = None" by simp
  qed
qed

subsection \<open>setvareq and setvar\<close>

text \<open>
  What a change leaves alone: a variable that may not be freed stays where it is and keeps its
  name (\<open>keeps\<close>), and but for unsetvar every variable does (\<open>stays\<close>). \<open>sets\<close> is the effect of setvareq for the variable \<open>n\<close>.
\<close>

definition keeps :: "vstate \<Rightarrow> vstate \<Rightarrow> bool" where
  "keeps st st' \<longleftrightarrow> vs_free st \<le> vs_free st' \<and> forcelocal st' = forcelocal st \<and> aflag st' = aflag st \<and>
     (\<forall>i. in_table st i \<longrightarrow> VSTRFIXED \<in> v_flags (vs_heap st i) \<longrightarrow>
        in_table st' i \<and> VSTRFIXED \<in> v_flags (vs_heap st' i) \<and> vname (vs_heap st' i) = vname (vs_heap st i))"

lemma kept_refl [simp]: "keeps st st"
  by (simp add: keeps_def)

lemma kept_trans: "keeps st1 st2 \<Longrightarrow> keeps st2 st3 \<Longrightarrow> keeps st1 st3"
  by (auto simp: keeps_def)

definition stays :: "vstate \<Rightarrow> vstate \<Rightarrow> bool" where
  "stays st st' \<longleftrightarrow> (\<forall>i. in_table st i \<longrightarrow> in_table st' i \<and> vname (vs_heap st' i) = vname (vs_heap st i))"

lemma stays_refl [simp]: "stays st st"
  by (simp add: stays_def)

lemma stays_trans: "stays st1 st2 \<Longrightarrow> stays st2 st3 \<Longrightarrow> stays st1 st3"
  by (auto simp: stays_def)

definition sets :: "string \<Rightarrow> string option \<Rightarrow> bool \<Rightarrow> vstate \<Rightarrow> vstate \<Rightarrow> bool" where
  "sets n val ro st st' \<longleftrightarrow> var_inv st' \<and> keeps st st' \<and> stays st st' \<and> localvars st' = localvars st \<and> vals st' = (vals st)(n := val) \<and>
     readonly st' = (if ro then insert n (readonly st) else readonly st)"

definition flag_val :: "vflag set \<Rightarrow> string \<Rightarrow> string option" where
  "flag_val flags s = (if VUNSET \<in> flags then None else Some (drop (length (name_of s) + 1) s))"

lemma set_found_sets:
  assumes inv: "var_inv st" and i: "find_var st s = Some i" and s: "EQ \<in> set s" and w: "VREADONLY \<notin> v_flags (vs_heap st i)"
    and u: "VUNSET \<in> flags \<Longrightarrow> drop (length (name_of s) + 1) s = []"
  shows "sets (name_of s) (flag_val flags s) (VREADONLY \<in> flags) st (set_found i s flags st)"
    "in_table (set_found i s flags st) j \<longleftrightarrow> in_table st j" "v_flags (vs_heap (set_found i s flags st) i) = (v_flags (vs_heap st i) - {VTEXTFIXED, VSTACK, VUNSET}) \<union> flags"
    "vname (vs_heap (set_found i s flags st) i) = name_of s" "j \<noteq> i \<Longrightarrow> vs_heap (set_found i s flags st) j = vs_heap st j"
proof -
  let ?st = "set_found i s flags st"
  have t: "in_table st i" "vname (vs_heap st i) = name_of s" using find_var_iff [OF inv] i by auto
  define v where "v = (vs_heap st i)\<lparr>v_flags := (v_flags (vs_heap st i) - {VTEXTFIXED, VSTACK, VUNSET}) \<union> flags, v_text := s\<rparr>"
  obtain es where st': "?st = log es (set_var i v st)" by (simp add: set_found_def Let_def v_def)
  have len: "v_name_len v = length (name_of s)" using var_ok_text(2) [OF in_table_ok(1) [OF inv t(1)]] t(2) by (simp add: v_def)
  have v: "var_ok v" "vname v = name_of s" "vvalue v = drop (length (name_of s) + 1) s"
    using name_of_split [OF s] name_of_plain(3) [of s] len u
    by (intro var_okI [of v "name_of s" "drop (length (name_of s) + 1) s"]; simp add: v_def)+
  have vn: "vname v = vname (vs_heap st i)" using v(2) t(2) by simp
  note sv = set_var_table [OF inv t(1) v(1) vn]
  show tab: "in_table ?st j \<longleftrightarrow> in_table st j" for j using sv(2) by (simp add: st')
  show "v_flags (vs_heap ?st i) = (v_flags (vs_heap st i) - {VTEXTFIXED, VSTACK, VUNSET}) \<union> flags" "vname (vs_heap ?st i) = name_of s"
    using v(2) by (simp_all add: st', simp add: v_def)
  show "j \<noteq> i \<Longrightarrow> vs_heap ?st j = vs_heap st j" by (simp add: st')
  have "val_of v = flag_val flags s" using v(3) by (auto simp: val_of_def flag_val_def v_def)
  moreover have "keeps st ?st" "stays st ?st" unfolding keeps_def stays_def using tab vn by (auto simp: st' v_def)
  moreover have "readonly ?st = (if VREADONLY \<in> flags then insert (name_of s) (readonly st) else readonly st)"
    using sv(4) v(2) w readonly_in_table [OF inv t(1)] t(2) by (auto simp: st' v_def)
  ultimately show "sets (name_of s) (flag_val flags s) (VREADONLY \<in> flags) st ?st" using sv(1,3) v(2) by (simp add: sets_def st')
qed

lemma set_new_sets:
  assumes "var_inv st" "find_var st s = None" "EQ \<in> set s" "VUNSET \<in> flags \<Longrightarrow> drop (length (name_of s) + 1) s = []"
  shows "sets (name_of s) (flag_val flags s) (VREADONLY \<in> flags) st (set_new s flags st)"
proof -
  note n = set_new_table [OF assms]
  have f: "localvars (set_new s flags st) = localvars st" "forcelocal (set_new s flags st) = forcelocal st"
    "aflag (set_new s flags st) = aflag st" "vs_free st \<le> vs_free (set_new s flags st)"
    by (simp_all add: set_new_def Let_def)
  have "in_table (set_new s flags st) i \<and> vs_heap (set_new s flags st) i = vs_heap st i" if "in_table st i" for i
    using in_table_ok(2) [OF assms(1) that] n(2,7) [where j = i] that by auto
  then have "keeps st (set_new s flags st)" "stays st (set_new s flags st)" using f by (auto simp: keeps_def stays_def)
  then show ?thesis using n(1,3,8) f(1) by (simp add: sets_def flag_val_def)
qed

lemma setvareq_found_sets:
  assumes inv: "var_inv st" and s: "EQ \<in> set s" and u: "VUNSET \<in> flags \<Longrightarrow> drop (length (name_of s) + 1) s = []" and f: "VNOSET \<notin> flags"
  shows "if name_of s \<in> readonly st then setvareq_found s flags st = Inl (Is_read_only (name_of s), st)
    else \<exists>st'. setvareq_found s flags st = Inr st' \<and> sets (name_of s) (flag_val flags s) (VREADONLY \<in> flags) st st'"
proof (cases "find_var st s")
  case None
  then have "name_of s \<notin> readonly st" using find_var_None [OF inv] by (auto simp: readonly_def)
  then show ?thesis using set_new_sets [OF inv None s u] None f by (simp add: setvareq_found_def)
next
  case (Some i)
  then have t: "in_table st i" "vname (vs_heap st i) = name_of s" using find_var_iff [OF inv] by auto
  have "name_of s \<in> readonly st \<longleftrightarrow> VREADONLY \<in> v_flags (vs_heap st i)"
    using readonly_in_table [OF inv t(1)] t(2) by metis
  moreover have "take (v_name_len (vs_heap st i)) (v_text (vs_heap st i)) = name_of s" using t(2) by (simp only: vname_def)
  moreover have "sets (name_of s) (flag_val flags s) (VREADONLY \<in> flags) st (set_found i s flags st)"
    if "VREADONLY \<notin> v_flags (vs_heap st i)" using inv Some s that u by (rule set_found_sets(1))
  ultimately show ?thesis using f by (simp add: setvareq_found_def Some)
qed

end
