(* ===== verification/Sh_Scope.thy ===== *)
theory Sh_Scope
  imports Sh_Table
begin

text \<open>
  Local variables of sh: mklocal saves what poplocalvars restores, whatever happens in between.
\<close>

subsection \<open>What is saved\<close>

definition saved_text :: "string \<Rightarrow> vflag set \<Rightarrow> string option \<Rightarrow> bool" where
  "saved_text n fl t \<longleftrightarrow> (case t of None \<Rightarrow> VUNSET \<in> fl \<and> VSTRFIXED \<notin> fl
     | Some x \<Rightarrow> \<exists>val. x = n @ EQ # val \<and> (VUNSET \<in> fl \<longrightarrow> val = []))"

definition saved_val :: "string \<Rightarrow> vflag set \<Rightarrow> string option \<Rightarrow> string option" where
  "saved_val n fl t = (if VUNSET \<in> fl then None else map_option (drop (length n + 1)) t)"

fun saved_ids :: "localvar list \<Rightarrow> nat set" where
  "saved_ids [] = {}"
| "saved_ids (Local_opts x # r) = saved_ids r"
| "saved_ids (Local_var i fl t # r) = insert i (saved_ids r)"

text \<open>A saved variable stays in the table: it may not be freed before its last saved flags are restored.\<close>

fun saved_ok :: "vstate \<Rightarrow> localvar list \<Rightarrow> bool" where
  "saved_ok st [] = True"
| "saved_ok st (Local_opts x # r) = saved_ok st r"
| "saved_ok st (Local_var i fl t # r) =
     (in_table st i \<and> VSTRFIXED \<in> v_flags (vs_heap st i) \<and> (i \<in> saved_ids r \<longrightarrow> VSTRFIXED \<in> fl) \<and>
      saved_text (vname (vs_heap st i)) fl t \<and> saved_ok st r)"

text \<open>The values after everything saved has been restored.\<close>

fun undo :: "vstate \<Rightarrow> localvar list \<Rightarrow> (string \<Rightarrow> string option) \<Rightarrow> string \<Rightarrow> string option" where
  "undo st [] m = m"
| "undo st (Local_opts x # r) m = undo st r m"
| "undo st (Local_var i fl t # r) m = undo st r (m(vname (vs_heap st i) := saved_val (vname (vs_heap st i)) fl t))"

definition undone :: "vstate \<Rightarrow> string \<Rightarrow> string option" where
  "undone st = undo st (localvars st) (vals st)"

definition saved_names :: "vstate \<Rightarrow> localvar list \<Rightarrow> string set" where
  "saved_names st lvs = (\<lambda>i. vname (vs_heap st i)) ` saved_ids lvs"

definition scope_inv :: "vstate \<Rightarrow> bool" where
  "scope_inv st \<longleftrightarrow> var_inv st \<and> saved_ok st (localvars st)"

lemma saved_ids_table: "saved_ok st lvs \<Longrightarrow> i \<in> saved_ids lvs \<Longrightarrow> in_table st i \<and> VSTRFIXED \<in> v_flags (vs_heap st i)"
  by (induction lvs rule: saved_ids.induct) auto

lemma saved_same:
  assumes "\<And>i. i \<in> saved_ids lvs \<Longrightarrow>
    in_table st' i \<and> VSTRFIXED \<in> v_flags (vs_heap st' i) \<and> vname (vs_heap st' i) = vname (vs_heap st i)"
  shows "saved_ok st lvs \<Longrightarrow> saved_ok st' lvs \<and> undo st' lvs = undo st lvs \<and> saved_names st' lvs = saved_names st lvs"
  using assms
proof (induction lvs)
  case (Cons l r)
  show ?case
  proof (cases l)
    case (Local_var i fl t)
    have k: "in_table st' i" "VSTRFIXED \<in> v_flags (vs_heap st' i)" "vname (vs_heap st' i) = vname (vs_heap st i)"
      using Cons(3) [of i] Local_var by auto
    have IH: "saved_ok st' r" "undo st' r = undo st r" "saved_names st' r = saved_names st r" using Cons Local_var by auto
    have "undo st' (l # r) = undo st (l # r)" using k(3) IH(2) by (auto simp: Local_var fun_eq_iff)
    moreover have "saved_names st' (l # r) = saved_names st (l # r)" using k(3) IH(3) by (simp add: Local_var saved_names_def)
    ultimately show ?thesis using Cons(2) k IH(1) by (simp add: Local_var)
  qed (use Cons in \<open>auto simp: saved_names_def fun_eq_iff\<close>)
qed (simp add: saved_names_def fun_eq_iff)

lemma keeps_saved:
  assumes "keeps st st'" "saved_ok st lvs"
  shows "saved_ok st' lvs \<and> undo st' lvs = undo st lvs \<and> saved_names st' lvs = saved_names st lvs"
  using saved_ids_table [OF assms(2)] assms by (intro saved_same) (auto simp: keeps_def)

lemma undo_saved: "x \<in> saved_names st lvs \<Longrightarrow> undo st lvs m x = undo st lvs m' x"
  and undo_other: "x \<notin> saved_names st lvs \<Longrightarrow> undo st lvs m x = m x"
proof -
  have "(x \<in> saved_names st lvs \<longrightarrow> undo st lvs m x = undo st lvs m' x) \<and> (x \<notin> saved_names st lvs \<longrightarrow> undo st lvs m x = m x)" for m m'
  proof (induction lvs arbitrary: m m')
    case (Cons l r)
    show ?case
    proof (cases l)
      case (Local_var i fl t)
      let ?n = "vname (vs_heap st i)"
      have IH: "x \<in> saved_names st r \<Longrightarrow> undo st r m x = undo st r m' x" "x \<notin> saved_names st r \<Longrightarrow> undo st r m x = m x" for m m'
        using Cons by blast+
      have n: "saved_names st (l # r) = insert ?n (saved_names st r)" by (simp add: Local_var saved_names_def)
      show ?thesis
      proof (cases "x \<in> saved_names st r")
        case True
        then show ?thesis using IH(1) [OF True] by (simp add: n) (simp add: Local_var IH(1) [OF True])
      next
        case False
        have e: "undo st (l # r) m x = (if x = ?n then saved_val ?n fl t else m x)" for m
          using IH(2) [OF False, of "m(?n := saved_val ?n fl t)"] by (simp add: Local_var)
        show ?thesis unfolding n e using False by simp
      qed
    qed (use Cons in \<open>auto simp: saved_names_def\<close>)
  qed (simp add: saved_names_def)
  then show "x \<in> saved_names st lvs \<Longrightarrow> undo st lvs m x = undo st lvs m' x" "x \<notin> saved_names st lvs \<Longrightarrow> undo st lvs m x = m x" by blast+
qed

text \<open>A change of one variable is undone when the variable is saved.\<close>

lemma change_undone:
  assumes "scope_inv st" and k: "keeps st st'" "var_inv st'" "localvars st' = localvars st" "vals st' = (vals st)(n := val)"
  shows "scope_inv st'" "x \<in> saved_names st (localvars st) \<or> x \<noteq> n \<Longrightarrow> undone st' x = undone st x"
    "n \<in> saved_names st (localvars st) \<Longrightarrow> undone st' = undone st"
proof -
  note s = keeps_saved [OF k(1), of "localvars st"]
  show "scope_inv st'" using assms(1) k s by (simp add: scope_inv_def)
  show u: "undone st' x = undone st x" if "x \<in> saved_names st (localvars st) \<or> x \<noteq> n" for x
  proof (cases "x \<in> saved_names st (localvars st)")
    case True
    then show ?thesis using s assms(1) k undo_saved [OF True, of "vals st'" "vals st"] by (simp add: undone_def scope_inv_def)
  next
    case False
    have "undo st (localvars st) (vals st') x = vals st' x" "undo st (localvars st) (vals st) x = vals st x"
      by (rule undo_other [OF False])+
    then show ?thesis using that False s assms(1) k(3,4) by (simp add: undone_def scope_inv_def)
  qed
  show "undone st' = undone st" if n: "n \<in> saved_names st (localvars st)"
  proof
    fix x
    show "undone st' x = undone st x" by (rule u) (use n in blast)
  qed
qed

lemma sets_undone:
  assumes "scope_inv st" "sets n val ro st st'"
  shows "scope_inv st'" "x \<in> saved_names st (localvars st) \<or> x \<noteq> n \<Longrightarrow> undone st' x = undone st x"
    "n \<in> saved_names st (localvars st) \<Longrightarrow> undone st' = undone st"
proof -
  have k: "keeps st st'" "var_inv st'" "localvars st' = localvars st" "vals st' = (vals st)(n := val)" using assms(2) by (auto simp: sets_def)
  note c = change_undone [OF assms(1) k]
  show "scope_inv st'" "x \<in> saved_names st (localvars st) \<or> x \<noteq> n \<Longrightarrow> undone st' x = undone st x"
    "n \<in> saved_names st (localvars st) \<Longrightarrow> undone st' = undone st" using c by blast+
qed

subsection \<open>Names\<close>

definition good_name :: "string \<Rightarrow> bool" where
  "good_name n \<longleftrightarrow> n \<noteq> [] \<and> is_name (hd n) \<and> list_all is_in_name (tl n)"

lemma EQ_not_name: "\<not> is_name EQ" "\<not> is_in_name EQ"
  by code_simp+

lemma good_name_plain: "good_name n \<Longrightarrow> EQ \<notin> set n \<and> name_of n = n"
proof -
  assume "good_name n"
  then have "EQ \<notin> set n" using EQ_not_name by (cases n) (auto simp: good_name_def list_all_iff)
  then show ?thesis using name_of_plain(1) by blast
qed

lemma setvar_by_name:
  "setvar_by f s val fl st = (if good_name (name_of s) then (case val of None \<Rightarrow> f (name_of s @ [EQ]) (insert VUNSET fl) st
     | Some v \<Rightarrow> f (name_of s @ EQ # v) fl st) else setvar_by f s val fl st)"
  "\<not> good_name (name_of s) \<Longrightarrow> \<exists>e. setvar_by f s val fl st = Inl (e, st)"
proof -
  have n: "name_of (p # ps) = (if p = EQ then [] else p # name_of ps)" for p ps by (simp add: name_of_def)
  show "setvar_by f s val fl st = (if good_name (name_of s) then (case val of None \<Rightarrow> f (name_of s @ [EQ]) (insert VUNSET fl) st
     | Some v \<Rightarrow> f (name_of s @ EQ # v) fl st) else setvar_by f s val fl st)"
    by (cases s) (auto simp: setvar_by_def good_name_def n name_of_def [of "[]"] split: option.split)
  show "\<not> good_name (name_of s) \<Longrightarrow> \<exists>e. setvar_by f s val fl st = Inl (e, st)"
    using EQ_not_name(1) by (cases s) (auto simp: setvar_by_def good_name_def n Let_def split: option.split if_splits)
qed

lemma setvar_by_good:
  assumes "good_name (name_of s)"
  shows "setvar_by f s None fl st = f (name_of s @ [EQ]) (insert VUNSET fl) st" "setvar_by f s (Some v) fl st = f (name_of s @ EQ # v) fl st"
  using setvar_by_name(1) [of f s None fl st] setvar_by_name(1) [of f s "Some v" fl st] assms by simp_all

subsection \<open>mklocal\<close>

lemma push_saved:
  assumes sc: "scope_inv st" and st2: "var_inv st2" "keeps st st2" "localvars st2 = localvars st"
    and i: "in_table st2 i" "VSTRFIXED \<in> v_flags (vs_heap st2 i)" "vname (vs_heap st2 i) = n" "i \<in> saved_ids (localvars st) \<Longrightarrow> VSTRFIXED \<in> fl"
    and t: "saved_text n fl t" "saved_val n fl t = vals st n" and v: "\<And>x. x \<noteq> n \<Longrightarrow> vals st2 x = vals st x"
  defines "st3 \<equiv> push_local (Local_var i fl t) st2"
  shows "scope_inv st3" "undone st3 = undone st" "saved_names st3 (localvars st3) = insert n (saved_names st (localvars st))" "keeps st st3"
proof -
  have k3: "keeps st st3" using st2(2) by (auto simp: keeps_def st3_def)
  have so: "saved_ok st (localvars st)" using sc by (simp add: scope_inv_def)
  have s: "saved_ok st3 (localvars st)" "undo st3 (localvars st) = undo st (localvars st)" using keeps_saved [OF k3 so] by auto
  have l: "localvars st3 = Local_var i fl t # localvars st" using st2(3) by (simp add: st3_def)
  show "scope_inv st3" using s(1) st2(1) i t(1) by (simp add: scope_inv_def l) (simp add: st3_def)
  have "vals st3 = vals st2" "vname (vs_heap st3 i) = n" using i(3) by (simp_all add: st3_def)
  moreover have "(vals st2)(n := vals st n) = vals st" using v by (auto simp: fun_eq_iff)
  ultimately show "undone st3 = undone st" using s(2) t(2) by (simp add: undone_def l)
  have "vname (vs_heap st3 i) = n" using i(3) by (simp add: st3_def)
  then show "saved_names st3 (localvars st3) = insert n (saved_names st (localvars st))"
    using keeps_saved [OF k3 so] by (simp add: l saved_names_def)
  show "keeps st st3" by (rule k3)
qed

lemma all_export_flags [simp]:
  "VNOSET \<in> all_export fl st \<longleftrightarrow> VNOSET \<in> fl" "VUNSET \<in> all_export fl st \<longleftrightarrow> VUNSET \<in> fl"
  "VREADONLY \<in> all_export fl st \<longleftrightarrow> VREADONLY \<in> fl" "VSTRFIXED \<in> all_export fl st \<longleftrightarrow> VSTRFIXED \<in> fl"
  "VNOLOCAL \<in> all_export fl st \<longleftrightarrow> VNOLOCAL \<in> fl"
  by (auto simp: all_export_def)

text \<open>mklocal keeps a variable that exists from being freed.\<close>

lemma fix_flags:
  assumes inv: "var_inv st" and t: "in_table st i"
  defines "st1 \<equiv> set_var i ((vs_heap st i)\<lparr>v_flags := v_flags (vs_heap st i) \<union> {VSTRFIXED, VTEXTFIXED}\<rparr>) st"
  shows "var_inv st1" "in_table st1 = in_table st" "vals st1 = vals st" "keeps st st1" "stays st st1" "readonly st1 = readonly st"
    "vname (vs_heap st1 j) = vname (vs_heap st j)" "VSTRFIXED \<in> v_flags (vs_heap st1 i)"
proof -
  let ?v = "vs_heap st i"
  define v1 where "v1 = ?v\<lparr>v_flags := v_flags ?v \<union> {VSTRFIXED, VTEXTFIXED}\<rparr>"
  have ok: "var_ok ?v" using in_table_ok(1) [OF inv t] .
  have v1: "var_ok v1" "vname v1 = vname ?v" "val_of v1 = val_of ?v" "VREADONLY \<in> v_flags v1 \<longleftrightarrow> VREADONLY \<in> v_flags ?v"
    using ok by (simp_all add: v1_def var_ok_def vname_def vvalue_def val_of_def)
  have st1: "st1 = set_var i v1 st" by (simp add: st1_def v1_def)
  note s1 = set_var_table [OF inv t v1(1,2)]
  show "var_inv st1" "vals st1 = vals st" using s1(1,3) vals_in_table [OF inv t refl] v1(2,3) by (auto simp: st1 fun_eq_iff)
  show tab: "in_table st1 = in_table st" using s1(2) by (simp add: st1 fun_eq_iff)
  show "readonly st1 = readonly st" using s1(4) v1(2,4) readonly_in_table [OF inv t] by (auto simp: st1)
  show nm: "vname (vs_heap st1 j) = vname (vs_heap st j)" for j using v1(2) by (simp add: st1)
  show "VSTRFIXED \<in> v_flags (vs_heap st1 i)" by (simp add: st1 v1_def)
  show "keeps st st1" "stays st st1" using tab nm by (auto simp: keeps_def stays_def) (auto simp: st1 v1_def)
qed

lemma mklocal_new:
  assumes sc: "scope_inv st" and f: "find_var st s = None" and m: "mklocal s st = Inr st'" "s \<noteq> ''-''"
  shows "scope_inv st'" "undone st' = undone st" "saved_names st' (localvars st') = insert (name_of s) (saved_names st (localvars st))" "keeps st st'"
    "x \<noteq> name_of s \<Longrightarrow> vals st' x = vals st x" "stays st st'"
proof -
  have inv: "var_inv st" using sc by (simp add: scope_inv_def)
  define s' where "s' = (if EQ \<in> set s then s else s @ [EQ])"
  define fl where "fl = all_export (insert VNOLOCAL (if EQ \<in> set s then {VSTRFIXED} else {VUNSET, VSTRFIXED})) st"
  have n: "name_of s' = name_of s" "EQ \<in> set s'" "bucket s' = bucket s"
    using name_of_plain [of s] by (auto simp: s'_def name_of_plain bucket_def)
  have f': "find_var st s' = None" using f n(1) by (simp add: find_var_None [OF inv])
  have u: "VUNSET \<in> fl \<Longrightarrow> drop (length (name_of s') + 1) s' = []" using name_of_plain(1) [of s] n(1) by (auto simp: fl_def s'_def split: if_splits)
  let ?st = "set_new s' fl st"
  have "st' = push_local (Local_var (hd (vartab ?st (bucket s))) {VUNSET} None) ?st"
  proof (cases "EQ \<in> set s")
    case True
    then show ?thesis using m f by (auto simp: mklocal_def setvareq_nolocal_def setvareq_found_def s'_def fl_def)
  next
    case False
    have g: "good_name (name_of s)"
    proof (rule ccontr)
      assume "\<not> good_name (name_of s)"
      from setvar_by_name(2) [OF this, of setvareq_nolocal None "{VSTRFIXED}" st] show False using m f False by (auto simp: mklocal_def)
    qed
    have "name_of s @ [EQ] = s'" using False name_of_plain(1) [of s] by (simp add: s'_def)
    then show ?thesis using m f f' False setvar_by_good(1) [OF g, of setvareq_nolocal "{VSTRFIXED}" st]
      by (auto simp: mklocal_def setvareq_nolocal_def setvareq_found_def fl_def insert_commute)
  qed
  moreover note new = set_new_table [OF inv f' n(2) u]
  ultimately have st': "st' = push_local (Local_var (vs_free st) {VUNSET} None) ?st" using n(3) by metis
  have se: "sets (name_of s) (flag_val fl s') (VREADONLY \<in> fl) st ?st" using set_new_sets [OF inv f' n(2) u] n(1) by simp
  then have k: "var_inv ?st" "keeps st ?st" "localvars ?st = localvars st" "vals ?st = (vals st)(name_of s := flag_val fl s')" by (simp_all add: sets_def)
  have fresh: "vs_free st \<notin> saved_ids (localvars st)"
    using saved_ids_table [of st "localvars st" "vs_free st"] sc in_table_ok(2) [OF inv, of "vs_free st"] by (auto simp: scope_inv_def)
  have none: "vals st (name_of s) = None" using f vals_not_in_table [OF inv] find_var_None [OF inv] by metis
  have "VSTRFIXED \<in> fl" by (simp add: fl_def)
  then have i: "in_table ?st (vs_free st)" "VSTRFIXED \<in> v_flags (vs_heap ?st (vs_free st))" "vname (vs_heap ?st (vs_free st)) = name_of s"
    using new(2) [where j = "vs_free st"] new(4,6) n(1) by auto
  note p = push_saved [OF sc k(1,2,3) i, of "{VUNSET}" None]
  show "scope_inv st'" "undone st' = undone st" "saved_names st' (localvars st') = insert (name_of s) (saved_names st (localvars st))" "keeps st st'"
    unfolding st' using p fresh none k(4) by (simp_all add: saved_text_def saved_val_def)
  show "x \<noteq> name_of s \<Longrightarrow> vals st' x = vals st x" using k(4) by (simp add: st')
  show "stays st st'" using se by (simp add: sets_def stays_def st')
qed

lemma mklocal_found:
  assumes sc: "scope_inv st" and f: "find_var st s = Some i" and m: "mklocal s st = Inr st'" "s \<noteq> ''-''"
  shows "scope_inv st'" "undone st' = undone st" "saved_names st' (localvars st') = insert (name_of s) (saved_names st (localvars st))" "keeps st st'"
    "x \<noteq> name_of s \<Longrightarrow> vals st' x = vals st x" "stays st st'"
proof -
  have inv: "var_inv st" using sc by (simp add: scope_inv_def)
  define v where "v = vs_heap st i"
  have t: "in_table st i" "vname v = name_of s" using f find_var_iff [OF inv] by (auto simp: v_def)
  have ok: "var_ok v" using in_table_ok(1) [OF inv t(1)] by (simp add: v_def)
  define st1 where "st1 = set_var i (v\<lparr>v_flags := v_flags v \<union> {VSTRFIXED, VTEXTFIXED}\<rparr>) st"
  have n: "vals st (name_of s) = val_of v" using vals_in_table [OF inv t(1)] t(2) by (simp add: v_def)
  note fx = fix_flags [OF inv t(1), folded v_def, folded st1_def]
  have vals1: "vals st1 = vals st" and inv1: "var_inv st1" and tab1: "\<And>j. in_table st1 j = in_table st j" and k1: "keeps st st1"
    using fx(1,2,3,4) by simp_all
  have mk: "mklocal s st = bind_result (if v_name_len v < length s \<and> s ! v_name_len v = EQ then setvareq_nolocal s {} st1 else Inr st1)
      (\<lambda>st. Inr (push_local (Local_var i (v_flags v) (Some (v_text v))) st))"
    using f m(2) by (simp add: mklocal_def Let_def v_def st1_def)
  obtain st2 where st2: "(if v_name_len v < length s \<and> s ! v_name_len v = EQ then setvareq_nolocal s {} st1 else Inr st1) = Inr st2"
    "st' = push_local (Local_var i (v_flags v) (Some (v_text v))) st2"
    using m(1) unfolding mk bind_result_Inr by blast
  have two: "var_inv st2 \<and> keeps st1 st2 \<and> stays st1 st2 \<and> localvars st2 = localvars st1 \<and> (\<forall>x. x \<noteq> name_of s \<longrightarrow> vals st2 x = vals st1 x)"
  proof (cases "v_name_len v < length s \<and> s ! v_name_len v = EQ")
    case True
    then have "EQ \<in> set s" by (metis nth_mem)
    then show ?thesis
      using st2(1) True setvareq_found_sets [OF inv1 _, of s "all_export {VNOLOCAL} st1"]
      by (auto simp: setvareq_nolocal_def sets_def split: if_splits)
  qed (use st2(1) inv1 in auto)
  have i1: "in_table st1 i" "VSTRFIXED \<in> v_flags (vs_heap st1 i)" "vname (vs_heap st1 i) = name_of s"
    using tab1 t fx(7) [of i] fx(8) by (auto simp: v_def)
  then have i2: "in_table st2 i" "VSTRFIXED \<in> v_flags (vs_heap st2 i)" "vname (vs_heap st2 i) = name_of s"
    using two by (auto simp: keeps_def)
  have k2: "keeps st st2" using kept_trans [OF k1] two by blast
  have l2: "localvars st2 = localvars st" using two by (simp add: st1_def)
  have sid: "VSTRFIXED \<in> v_flags v" if "i \<in> saved_ids (localvars st)"
    using saved_ids_table [OF _ that, of st] sc by (simp add: scope_inv_def v_def)
  have tx: "saved_text (name_of s) (v_flags v) (Some (v_text v))" "saved_val (name_of s) (v_flags v) (Some (v_text v)) = vals st (name_of s)"
    using var_ok_text [OF ok] ok t(2) n by (auto simp: saved_text_def saved_val_def val_of_def var_ok_def vvalue_def)
  have vx: "\<And>x. x \<noteq> name_of s \<Longrightarrow> vals st2 x = vals st x" using two vals1 by simp
  have inv2: "var_inv st2" using two by blast
  note p = push_saved [OF sc inv2 k2 l2 i2 sid tx vx]
  show "scope_inv st'" "undone st' = undone st" "saved_names st' (localvars st') = insert (name_of s) (saved_names st (localvars st))" "keeps st st'"
    unfolding st2(2) using p by blast+
  show "x \<noteq> name_of s \<Longrightarrow> vals st' x = vals st x" using vx by (simp add: st2(2))
  show "stays st st'" using fx(5) two by (simp add: stays_def st2(2))
qed

lemma setvareq_nolocal_localvars: "setvareq_nolocal s fl st = Inr st' \<Longrightarrow> localvars st' = localvars st"
  by (auto simp: setvareq_nolocal_def setvareq_found_def set_found_def set_new_def Let_def split: option.splits if_splits)

lemma setvar_nolocal_localvars: "setvar_by setvareq_nolocal s val fl st = Inr st' \<Longrightarrow> localvars st' = localvars st"
  by (auto simp: setvar_by_def Let_def dest: setvareq_nolocal_localvars split: list.splits if_splits option.splits)

lemma mklocal_localvars: "mklocal s st = Inr st' \<Longrightarrow> \<exists>l. localvars st' = l # localvars st"
  by (auto simp: mklocal_def Let_def bind_result_Inr dest: setvareq_nolocal_localvars setvar_nolocal_localvars split: if_splits option.splits)

lemma saved_ids_Cons: "saved_ids r \<subseteq> saved_ids (l # r)"
  by (cases l) auto

lemma mklocal_scope:
  assumes sc: "scope_inv st" and m: "mklocal s st = Inr st'"
  shows "scope_inv st'" "undone st' = undone st" "keeps st st'" "stays st st'"
    "s \<noteq> ''-'' \<Longrightarrow> saved_names st' (localvars st') = insert (name_of s) (saved_names st (localvars st))" "x \<noteq> name_of s \<Longrightarrow> vals st' x = vals st x"
proof -
  have "scope_inv st' \<and> undone st' = undone st \<and> keeps st st' \<and> stays st st' \<and> (s \<noteq> ''-'' \<longrightarrow> saved_names st' (localvars st') = insert (name_of s) (saved_names st (localvars st))) \<and>
      (x \<noteq> name_of s \<longrightarrow> vals st' x = vals st x)" for x
  proof (cases "s = ''-''")
    case True
    then have st': "st' = push_local (Local_opts (optval st)) st" using m by (simp add: mklocal_def)
    have k: "keeps st st'" "stays st st'" by (auto simp: st' keeps_def stays_def)
    have "saved_ok st (localvars st)" using sc by (simp add: scope_inv_def)
    with keeps_saved [OF k(1)] have "saved_ok st' (localvars st)" "undo st' (localvars st) = undo st (localvars st)" by auto
    then show ?thesis using k sc True by (simp add: scope_inv_def undone_def) (simp add: st')
  next
    case False
    show ?thesis
    proof (cases "find_var st s")
      case None
      then show ?thesis using mklocal_new [OF sc None m False] by blast
    next
      case (Some i)
      then show ?thesis using mklocal_found [OF sc Some m False] by blast
    qed
  qed
  then show "scope_inv st'" "undone st' = undone st" "keeps st st'" "stays st st'"
    "s \<noteq> ''-'' \<Longrightarrow> saved_names st' (localvars st') = insert (name_of s) (saved_names st (localvars st))" "x \<noteq> name_of s \<Longrightarrow> vals st' x = vals st x" by blast+
qed

subsection \<open>Assignments\<close>

lemma setvareq_scope:
  assumes sc: "scope_inv st" and s: "EQ \<in> set s" and f: "VNOSET \<notin> fl" "VUNSET \<in> fl \<Longrightarrow> drop (length (name_of s) + 1) s = []"
    and e: "setvareq s fl st = Inr st'"
  shows "scope_inv st'" "keeps st st'" "stays st st'" "vals st' = (vals st)(name_of s := flag_val fl s)"
    "x \<in> saved_names st (localvars st) \<or> x \<noteq> name_of s \<Longrightarrow> undone st' x = undone st x"
    "0 < forcelocal st \<Longrightarrow> VNOLOCAL \<notin> fl \<Longrightarrow> undone st' = undone st"
    "saved_names st (localvars st) \<subseteq> saved_names st' (localvars st')"
    "saved_names st' (localvars st') \<subseteq> insert (name_of s) (saved_names st (localvars st))"
proof -
  define fl' where "fl' = all_export fl st"
  have f': "VNOSET \<notin> fl'" "VUNSET \<in> fl' \<Longrightarrow> drop (length (name_of s) + 1) s = []" "flag_val fl' s = flag_val fl s"
    using f by (simp_all add: fl'_def flag_val_def)
  have ne: "s \<noteq> ''-''" using s by auto
  obtain st1 where st1: "(if 0 < forcelocal st \<and> VNOSET \<notin> fl' \<and> VNOLOCAL \<notin> fl' then mklocal s st else Inr st) = Inr st1"
    "setvareq_found s fl' st1 = Inr st'"
    using e unfolding setvareq_def Let_def fl'_def [symmetric] bind_result_Inr by blast
  have one: "scope_inv st1 \<and> undone st1 = undone st \<and> keeps st st1 \<and> stays st st1 \<and> (\<forall>x. x \<noteq> name_of s \<longrightarrow> vals st1 x = vals st x)"
  proof (cases "0 < forcelocal st \<and> VNOSET \<notin> fl' \<and> VNOLOCAL \<notin> fl'")
    case True
    then have "mklocal s st = Inr st1" using st1(1) by simp
    from mklocal_scope [OF sc this] show ?thesis by blast
  qed (use st1(1) sc in auto)
  have inv1: "var_inv st1" using one by (simp add: scope_inv_def)
  have se: "sets (name_of s) (flag_val fl s) (VREADONLY \<in> fl') st1 st'"
    using setvareq_found_sets [OF inv1 s f'(2,1)] st1(2) f'(3) by (auto split: if_splits)
  have sc1: "scope_inv st1" using one by blast
  show "scope_inv st'" by (rule sets_undone(1) [OF sc1 se])
  show "keeps st st'" "stays st st'" using kept_trans stays_trans one se unfolding sets_def by blast+
  show "vals st' = (vals st)(name_of s := flag_val fl s)" using one se by (auto simp: sets_def fun_eq_iff)
  have l: "saved_names st (localvars st) \<subseteq> saved_names st1 (localvars st1) \<and>
      saved_names st1 (localvars st1) \<subseteq> insert (name_of s) (saved_names st (localvars st))"
  proof (cases "0 < forcelocal st \<and> VNOSET \<notin> fl' \<and> VNOLOCAL \<notin> fl'")
    case True
    then have mk: "mklocal s st = Inr st1" using st1(1) by simp
    show ?thesis using mklocal_scope(5) [OF sc mk ne] by blast
  qed (use st1(1) in auto)
  have "saved_names st' (localvars st') = saved_names st1 (localvars st1)"
    using keeps_saved [of st1 st' "localvars st1"] se sc1 by (simp add: sets_def scope_inv_def)
  then show "saved_names st (localvars st) \<subseteq> saved_names st' (localvars st')"
    "saved_names st' (localvars st') \<subseteq> insert (name_of s) (saved_names st (localvars st))" using l by simp_all
  show "undone st' x = undone st x" if "x \<in> saved_names st (localvars st) \<or> x \<noteq> name_of s"
    using sets_undone(2) [OF sc1 se, of x] that l one by auto
  show "undone st' = undone st" if "0 < forcelocal st" "VNOLOCAL \<notin> fl"
  proof -
    have mk: "mklocal s st = Inr st1" using st1(1) that f'(1) by (simp add: fl'_def)
    show ?thesis using sets_undone(3) [OF sc1 se] mklocal_scope(5) [OF sc mk ne] one by simp
  qed
qed

end
