(* ===== verification/Sh_Local.thy ===== *)
theory Sh_Local
  imports Sh_Scope
begin

text \<open>
  Scopes of sh: unsetvar and poplocalvars, and what a function call and a command substitution leave
  of the variables.
\<close>

subsection \<open>setvar and unsetvar\<close>

lemma setvar_scope:
  assumes sc: "scope_inv st" and f: "VNOSET \<notin> fl" "VUNSET \<notin> fl" and e: "setvar s (Some v) fl st = Inr st'"
  shows "scope_inv st'" "keeps st st'" "stays st st'" "vals st' = (vals st)(name_of s \<mapsto> v)"
    "x \<in> saved_names st (localvars st) \<or> x \<noteq> name_of s \<Longrightarrow> undone st' x = undone st x"
    "0 < forcelocal st \<Longrightarrow> VNOLOCAL \<notin> fl \<Longrightarrow> undone st' = undone st" "good_name (name_of s)"
    "saved_names st (localvars st) \<subseteq> saved_names st' (localvars st')"
    "saved_names st' (localvars st') \<subseteq> insert (name_of s) (saved_names st (localvars st))"
proof -
  show g: "good_name (name_of s)"
    using e setvar_by_name(2) [of s setvareq "Some v" fl st] by (fastforce simp: setvar_def)
  let ?s = "name_of s @ EQ # v"
  have n: "name_of ?s = name_of s" "EQ \<in> set ?s" "flag_val fl ?s = Some v"
    using name_of_plain(2) [OF name_of_plain(3), of s v] f(2) by (simp_all add: flag_val_def)
  have e': "setvareq ?s fl st = Inr st'" using e setvar_by_good(2) [OF g] by (simp add: setvar_def)
  note r = setvareq_scope [OF sc n(2) f(1) _ e']
  show "scope_inv st'" "keeps st st'" "stays st st'" "vals st' = (vals st)(name_of s \<mapsto> v)"
    "x \<in> saved_names st (localvars st) \<or> x \<noteq> name_of s \<Longrightarrow> undone st' x = undone st x"
    "0 < forcelocal st \<Longrightarrow> VNOLOCAL \<notin> fl \<Longrightarrow> undone st' = undone st"
    "saved_names st (localvars st) \<subseteq> saved_names st' (localvars st')"
    "saved_names st' (localvars st') \<subseteq> insert (name_of s) (saved_names st (localvars st))"
    using r f(2) n(1,3) by simp_all
qed

text \<open>The end of unsetvar: the variable is marked and, when it may be, freed.\<close>

definition unset_at :: "nat \<Rightarrow> string \<Rightarrow> vstate \<Rightarrow> vstate" where
  "unset_at vp s st =
     (let v = vs_heap st vp;
          st = (if VEXPORT \<in> v_flags v \<and> localevar (v_text v) then log [change_env s False, Set_locale] st else st);
          st = set_var vp (v\<lparr>v_flags := insert VUNSET (v_flags v - {VEXPORT})\<rparr>) st
      in if VSTRFIXED \<in> v_flags v then st
         else st\<lparr>vartab := (vartab st)(bucket s := removeAll vp (vartab st (bucket s)))\<rparr>)"

lemma unset_at_change:
  assumes inv: "var_inv st" and i: "in_table st i" "vname (vs_heap st i) = name_of s" "vvalue (vs_heap st i) = []"
  shows "var_inv (unset_at i s st)" "keeps st (unset_at i s st)" "localvars (unset_at i s st) = localvars st"
    "vals (unset_at i s st) = (vals st)(name_of s := None)"
proof -
  define v where "v = vs_heap st i"
  define st0 where "st0 = (if VEXPORT \<in> v_flags v \<and> localevar (v_text v) then log [change_env s False, Set_locale] st else st)"
  define v' where "v' = v\<lparr>v_flags := insert VUNSET (v_flags v - {VEXPORT})\<rparr>"
  define st1 where "st1 = set_var i v' st0"
  have st0: "var_inv st0" "in_table st0 = in_table st" "vals st0 = vals st" "vs_heap st0 = vs_heap st" "vs_free st0 = vs_free st"
    "localvars st0 = localvars st" "forcelocal st0 = forcelocal st" "aflag st0 = aflag st"
    using inv by (auto simp: st0_def)
  have v': "var_ok v'" "vname v' = vname v" "val_of v' = None" "vvalue v = []"
    using in_table_ok(1) [OF inv i(1)] i(3) by (simp_all add: v'_def v_def var_ok_def vname_def vvalue_def val_of_def)
  have i0: "in_table st0 i" "vname v' = vname (vs_heap st0 i)" using i(1) st0(2,4) v'(2) by (simp_all add: v_def)
  note s1 = set_var_table [OF st0(1) i0(1) v'(1) i0(2)]
  have n: "vname v' = name_of s" using v'(2) i(2) by (simp add: v_def)
  have s1': "var_inv st1" "vals st1 = (vals st)(name_of s := None)" "\<And>j. in_table st1 j = in_table st j"
    using s1(1,2,3) n v'(3) st0(2,3) by (simp_all add: st1_def)
  have h1: "vs_heap st1 i = v'" "\<And>j. j \<noteq> i \<Longrightarrow> vs_heap st1 j = vs_heap st j" "vs_free st1 = vs_free st"
    "localvars st1 = localvars st" "forcelocal st1 = forcelocal st" "aflag st1 = aflag st"
    using st0(4,5,6,7,8) by (simp_all add: st1_def)
  have nm: "vname (vs_heap st1 j) = vname (vs_heap st j)" for j using h1(1,2) v'(2) by (cases "j = i") (auto simp: v_def)
  have fx: "VSTRFIXED \<in> v_flags (vs_heap st1 j) \<longleftrightarrow> VSTRFIXED \<in> v_flags (vs_heap st j)" for j
    using h1(1,2) by (cases "j = i") (auto simp: v'_def v_def)
  let ?st = "st1\<lparr>vartab := (vartab st1)(bucket (vname (vs_heap st1 i)) := removeAll i (vartab st1 (bucket (vname (vs_heap st1 i)))))\<rparr>"
  have eq: "unset_at i s st = (if VSTRFIXED \<in> v_flags v then st1 else ?st)"
    using n h1(1) by (simp add: unset_at_def Let_def st0_def v_def v'_def st1_def bucket_name_of)
  have i1: "in_table st1 i" using s1'(3) i(1) by simp
  note rm = remove_table [OF s1'(1) i1]
  show "var_inv (unset_at i s st)" "localvars (unset_at i s st) = localvars st"
    using rm(1) s1'(1) h1(4) by (simp_all add: eq)
  show "vals (unset_at i s st) = (vals st)(name_of s := None)" using rm(3) s1'(2) n h1(1) by (simp add: eq)
  show "keeps st (unset_at i s st)"
  proof (cases "VSTRFIXED \<in> v_flags v")
    case True
    then show ?thesis using s1'(3) nm fx h1(3,5,6) by (simp add: eq keeps_def)
  next
    case False
    then have "in_table ?st j" if "in_table st j" "VSTRFIXED \<in> v_flags (vs_heap st j)" for j
      using rm(2) [of j] s1'(3) that by (auto simp: v_def)
    then show ?thesis using False nm fx h1(3,5,6) by (simp add: eq keeps_def)
  qed
qed

lemma unsetvar_unset_at:
  assumes "find_var st s = Some i" "VREADONLY \<notin> v_flags (vs_heap st i)"
  shows "unsetvar s st = bind_result (if vvalue (vs_heap st i) \<noteq> [] then setvar s (Some []) {} st else Inr st)
    (\<lambda>st. Inr (False, unset_at i s st))"
  using assms by (simp add: unsetvar_def unset_at_def Let_def vvalue_def)

lemma unsetvar_scope:
  assumes sc: "scope_inv st" and u: "unsetvar s st = Inr (r, st')"
  shows "scope_inv st'" "keeps st st'" "x \<in> saved_names st (localvars st) \<or> x \<noteq> name_of s \<Longrightarrow> undone st' x = undone st x"
    "\<not> r \<Longrightarrow> vals st' = (vals st)(name_of s := None)"
    "saved_names st (localvars st) \<subseteq> saved_names st' (localvars st')"
    "saved_names st' (localvars st') \<subseteq> insert (name_of s) (saved_names st (localvars st))"
proof -
  have inv: "var_inv st" using sc by (simp add: scope_inv_def)
  have "scope_inv st' \<and> keeps st st' \<and> saved_names st (localvars st) \<subseteq> saved_names st' (localvars st') \<and>
      saved_names st' (localvars st') \<subseteq> insert (name_of s) (saved_names st (localvars st)) \<and> (x \<in> saved_names st (localvars st) \<or> x \<noteq> name_of s \<longrightarrow> undone st' x = undone st x)
      \<and> (\<not> r \<longrightarrow> vals st' = (vals st)(name_of s := None))" for x
  proof (cases "find_var st s")
    case None
    then have "vals st (name_of s) = None" using vals_not_in_table [OF inv] find_var_None [OF inv] by metis
    then show ?thesis using None u sc by (auto simp: unsetvar_def fun_eq_iff)
  next
    case (Some i)
    then have t: "in_table st i" "vname (vs_heap st i) = name_of s" using find_var_iff [OF inv] by auto
    show ?thesis
    proof (cases "VREADONLY \<in> v_flags (vs_heap st i)")
      case True
      then show ?thesis using Some u sc by (auto simp: unsetvar_def)
    next
      case False
      note eq = unsetvar_unset_at [OF Some False]
      obtain st1 where st1: "(if vvalue (vs_heap st i) \<noteq> [] then setvar s (Some []) {} st else Inr st) = Inr st1"
        "r = False" "st' = unset_at i s st1"
        using u unfolding eq bind_result_Inr by auto
      have one: "scope_inv st1 \<and> keeps st st1 \<and> in_table st1 i \<and> vname (vs_heap st1 i) = name_of s \<and> vvalue (vs_heap st1 i) = [] \<and>
          (x \<in> saved_names st (localvars st) \<or> x \<noteq> name_of s \<longrightarrow> undone st1 x = undone st x) \<and>
          (\<forall>y. y \<noteq> name_of s \<longrightarrow> vals st1 y = vals st y) \<and> saved_names st (localvars st) \<subseteq> saved_names st1 (localvars st1) \<and>
          saved_names st1 (localvars st1) \<subseteq> insert (name_of s) (saved_names st (localvars st))" for x
      proof (cases "vvalue (vs_heap st i) = []")
        case True
        then show ?thesis using st1(1) sc t by auto
      next
        case False
        then have e: "setvar s (Some []) {} st = Inr st1" using st1(1) by simp
        note r = setvar_scope [OF sc _ _ e]
        have "in_table st1 i" "vname (vs_heap st1 i) = name_of s" using r(3) t by (simp_all add: stays_def)
        moreover have "vvalue (vs_heap st1 i) = []"
          using vals_in_table [of st1 i "name_of s"] r(1,4) calculation by (auto simp: scope_inv_def val_of_def split: if_splits)
        ultimately show ?thesis using r by auto
      qed
      have inv1: "var_inv st1" using one by (simp add: scope_inv_def)
      have i1: "in_table st1 i" "vname (vs_heap st1 i) = name_of s" "vvalue (vs_heap st1 i) = []" using one by blast+
      note c = unset_at_change [OF inv1 i1]
      have sc1: "scope_inv st1" using one by blast
      note d = change_undone [OF sc1 c(2,1,3,4)]
      have "vals st' = (vals st)(name_of s := None)" using c(4) one by (auto simp: st1(3) fun_eq_iff)
      moreover have "undone st' x = undone st x" if "x \<in> saved_names st (localvars st) \<or> x \<noteq> name_of s"
        using d(2) [of x] one that by (auto simp: st1(3))
      moreover have "keeps st st'" using kept_trans [OF _ c(2)] one by (simp add: st1(3))
      moreover have "saved_names st' (localvars st') = saved_names st1 (localvars st1)"
        using keeps_saved [OF c(2), of "localvars st1"] sc1 c(3) by (simp add: st1(3) scope_inv_def)
      ultimately show ?thesis using d(1) st1(2,3) one by simp
    qed
  qed
  then show "scope_inv st'" "keeps st st'" "x \<in> saved_names st (localvars st) \<or> x \<noteq> name_of s \<Longrightarrow> undone st' x = undone st x"
    "\<not> r \<Longrightarrow> vals st' = (vals st)(name_of s := None)"
    "saved_names st (localvars st) \<subseteq> saved_names st' (localvars st')"
    "saved_names st' (localvars st') \<subseteq> insert (name_of s) (saved_names st (localvars st))" by blast+
qed

subsection \<open>poplocalvars\<close>

lemma saved_same_table:
  assumes "vs_heap st' = vs_heap st" "in_table st' = in_table st"
  shows "saved_ok st' lvs = saved_ok st lvs" "undo st' lvs m = undo st lvs m" "saved_names st' lvs = saved_names st lvs"
proof -
  show "saved_ok st' lvs = saved_ok st lvs" using assms by (induction lvs rule: saved_ids.induct) simp_all
  show "undo st' lvs m = undo st lvs m" using assms by (induction lvs arbitrary: m rule: saved_ids.induct) simp_all
  show "saved_names st' lvs = saved_names st lvs" using assms by (simp add: saved_names_def)
qed

lemma setvar_global:
  assumes "var_inv st" "forcelocal st = 0" "good_name (name_of s)" "name_of s \<notin> readonly st"
  obtains st' where "setvar s (Some v) {} st = Inr st'" "sets (name_of s) (Some v) False st st'"
proof -
  let ?s = "name_of s @ EQ # v"
  have n: "name_of ?s = name_of s" "EQ \<in> set ?s" "flag_val (all_export {} st) ?s = Some v"
    using name_of_plain(2) [OF name_of_plain(3), of s v] by (simp_all add: flag_val_def)
  have e: "setvar s (Some v) {} st = setvareq_found ?s (all_export {} st) st"
    using assms(2) setvar_by_good(2) [OF assms(3)] by (simp add: setvar_def setvareq_def)
  show ?thesis
    using setvareq_found_sets [OF assms(1) n(2), of "all_export {} st"] assms(4) that unfolding e n(1,3) by auto
qed

text \<open>A variable that was unset when it was made local is unset again.\<close>

lemma pop_unset:
  assumes sc: "scope_inv st" and f: "forcelocal st = 0" and i: "in_table st i" "VSTRFIXED \<in> v_flags (vs_heap st i)"
    and g: "good_name (vname (vs_heap st i))" and fl: "VUNSET \<in> fl" "VSTRFIXED \<notin> fl"
  obtains st' where "poplocal (Local_var i fl t) st = Inr st'" "var_inv st'" "keeps st st'" "localvars st' = localvars st"
    "vals st' = (vals st)(vname (vs_heap st i) := None)"
proof -
  have inv: "var_inv st" using sc by (simp add: scope_inv_def)
  define v where "v = vs_heap st i"
  define n where "n = vname v"
  define v1 where "v1 = v\<lparr>v_flags := v_flags v - {VREADONLY}\<rparr>"
  define st1 where "st1 = set_var i v1 st"
  have ok: "var_ok v" using in_table_ok(1) [OF inv i(1)] by (simp add: v_def)
  have v1: "var_ok v1" "vname v1 = n" "val_of v1 = val_of v" "vvalue v1 = vvalue v"
    using ok by (simp_all add: v1_def var_ok_def vname_def vvalue_def val_of_def n_def)
  have v1': "vname v1 = vname (vs_heap st i)" using v1(2) by (simp add: n_def v_def)
  note s1 = set_var_table [OF inv i(1) v1(1) v1']
  have vals1: "vals st1 = vals st" using s1(3) vals_in_table [OF inv i(1) refl] v1(2,3) by (auto simp: st1_def n_def v_def fun_eq_iff)
  have inv1: "var_inv st1" "\<And>j. in_table st1 j = in_table st j" "n \<notin> readonly st1"
    using s1(1,2,4) v1(2) by (simp_all add: st1_def v1_def)
  have k1: "keeps st st1" using inv1(2) v1' i(2) by (auto simp: keeps_def st1_def v1_def v_def)
  have nm: "name_of (v_text v) = n" using var_ok_text(3) [OF ok] by (simp add: n_def)
  have i1: "find_var st1 (v_text v) = Some i" using find_var_iff [OF inv1(1)] inv1(2) i(1) nm v1(2) by (simp add: st1_def)
  have ro: "VREADONLY \<notin> v_flags (vs_heap st1 i)" "vvalue (vs_heap st1 i) = vvalue v" using v1(4) by (simp_all add: st1_def, simp add: v1_def)
  obtain st2 where st2: "(if vvalue (vs_heap st1 i) \<noteq> [] then setvar (v_text v) (Some []) {} st1 else Inr st1) = Inr st2"
    "var_inv st2" "keeps st1 st2" "localvars st2 = localvars st" "\<And>x. x \<noteq> n \<Longrightarrow> vals st2 x = vals st x"
    "in_table st2 i" "vname (vs_heap st2 i) = n" "vvalue (vs_heap st2 i) = []"
  proof (cases "vvalue v = []")
    case True
    then show ?thesis using that [of st1] inv1 vals1 i(1) v1(2) ro(2) by (simp add: st1_def)
  next
    case False
    obtain st2 where e: "setvar (v_text v) (Some []) {} st1 = Inr st2" "sets n (Some []) False st1 st2"
      using setvar_global [OF inv1(1), of "v_text v"] f g inv1(3) nm by (auto simp: st1_def n_def v_def)
    then have s: "var_inv st2" "keeps st1 st2" "stays st1 st2" "localvars st2 = localvars st" "vals st2 = (vals st)(n \<mapsto> [])"
      using vals1 by (simp_all add: sets_def st1_def)
    have t: "in_table st2 i" "vname (vs_heap st2 i) = n" using s(3) inv1(2) i(1) v1(2) by (simp_all add: stays_def st1_def)
    have "vvalue (vs_heap st2 i) = []" using vals_in_table [OF s(1) t] s(5) by (auto simp: val_of_def split: if_splits)
    then show ?thesis using that [of st2] e(1) s t False ro(2) by simp
  qed
  have i2: "vname (vs_heap st2 i) = name_of (v_text v)" using st2(7) nm by simp
  note c = unset_at_change [OF st2(2,6) i2 st2(8)]
  have "unsetvar (v_text v) st1 = Inr (False, unset_at i (v_text v) st2)" using st2(1) by (simp add: unsetvar_unset_at [OF i1 ro(1)])
  then have "poplocal (Local_var i fl t) st = Inr (unset_at i (v_text v) st2)"
    using fl by (simp add: poplocal_def Let_def v_def v1_def st1_def)
  moreover have "keeps st (unset_at i (v_text v) st2)" using kept_trans [OF kept_trans [OF k1 st2(3)] c(2)] .
  moreover have "vals (unset_at i (v_text v) st2) = (vals st)(n := None)" using c(4) st2(5) nm by (auto simp: fun_eq_iff)
  ultimately show ?thesis using that c(1,3) st2(4) by (simp add: n_def v_def)
qed

text \<open>Any other variable gets its text and its flags back.\<close>

lemma pop_text:
  assumes inv: "var_inv st" and i: "in_table st i" and t: "saved_text (vname (vs_heap st i)) fl t" and fl: "\<not> (VUNSET \<in> fl \<and> VSTRFIXED \<notin> fl)"
  obtains st' where "poplocal (Local_var i fl t) st = Inr st'" "var_inv st'" "localvars st' = localvars st" "forcelocal st' = forcelocal st"
    "vals st' = (vals st)(vname (vs_heap st i) := saved_val (vname (vs_heap st i)) fl t)" "\<And>j. in_table st' j = in_table st j"
    "\<And>j. vname (vs_heap st' j) = vname (vs_heap st j)" "\<And>j. j \<noteq> i \<Longrightarrow> vs_heap st' j = vs_heap st j" "v_flags (vs_heap st' i) = fl"
proof -
  let ?n = "vname (vs_heap st i)"
  obtain x val where x: "t = Some x" "x = ?n @ EQ # val" "VUNSET \<in> fl \<Longrightarrow> val = []" using t fl by (auto simp: saved_text_def split: option.splits)
  define v where "v = (vs_heap st i)\<lparr>v_flags := fl, v_text := x\<rparr>"
  have ok: "var_ok (vs_heap st i)" using in_table_ok(1) [OF inv i] .
  have v: "var_ok v" "vname v = ?n" "vvalue v = val"
    using var_okI [of v ?n val] var_ok_text(2) [OF ok] ok x(2,3) by (auto simp: v_def var_ok_def)
  obtain es where e: "poplocal (Local_var i fl t) st = Inr (log es (set_var i v st))"
    using fl x(1) by (simp add: poplocal_def Let_def v_def)
  note s = set_var_table [OF inv i v(1,2)]
  have "val_of v = saved_val ?n fl t" using v(3) x(1,2) by (simp add: val_of_def saved_val_def v_def)
  then show ?thesis using that [OF e] s(1,2,3) v(2) by (simp add: v_def)
qed

lemma poplocal_scope:
  assumes sc: "scope_inv st" and f: "forcelocal st = 0" and l: "localvars st = l # r" and g: "\<forall>n \<in> saved_names st (localvars st). good_name n"
  obtains st' where "poplocal l (st\<lparr>localvars := r\<rparr>) = Inr st'" "scope_inv st'" "localvars st' = r" "forcelocal st' = 0"
    "undone st' = undone st" "saved_names st' r = saved_names st r"
proof -
  let ?st = "st\<lparr>localvars := r\<rparr>"
  have c: "saved_ok ?st lvs = saved_ok st lvs" "undo ?st lvs m = undo st lvs m" "saved_names ?st lvs = saved_names st lvs" for lvs m
    by (rule saved_same_table; simp)+
  show ?thesis
  proof (cases l)
    case (Local_opts x)
    let ?st' = "log [Options_changed] (?st\<lparr>optval := x\<rparr>)"
    have "vs_heap ?st' = vs_heap st" "in_table ?st' = in_table st" "vals ?st' = vals st" "var_inv ?st' = var_inv st"
      by (auto simp: same_table [of "st\<lparr>localvars := r, optval := x\<rparr>" st] same_inv [of "st\<lparr>localvars := r, optval := x\<rparr>" st])
    moreover from this saved_same_table [of ?st' st] have "saved_ok ?st' r = saved_ok st r" "undo ?st' r m = undo st r m" "saved_names ?st' r = saved_names st r" for m by auto
    ultimately show ?thesis using that [of ?st'] sc f l Local_opts by (simp add: poplocal_def scope_inv_def undone_def)
  next
    case (Local_var i fl t)
    let ?n = "vname (vs_heap st i)"
    have o: "in_table st i" "VSTRFIXED \<in> v_flags (vs_heap st i)" "i \<in> saved_ids r \<longrightarrow> VSTRFIXED \<in> fl" "saved_text ?n fl t" "saved_ok st r" "var_inv st"
      using sc l Local_var by (simp_all add: scope_inv_def)
    have un: "undone st = undo st r ((vals st)(?n := saved_val ?n fl t))" using l Local_var by (simp add: undone_def)
    have sc0: "scope_inv ?st" using o c(1) by (simp add: scope_inv_def)
    show ?thesis
    proof (cases "VUNSET \<in> fl \<and> VSTRFIXED \<notin> fl")
      case True
      have "good_name ?n" using g l Local_var by (simp add: saved_names_def)
      then obtain st' where p: "poplocal l ?st = Inr st'" "var_inv st'" "keeps ?st st'" "localvars st' = r" "vals st' = (vals st)(?n := None)"
        using pop_unset [OF sc0, of i fl t] f o(1,2) True Local_var by auto
      have "saved_ok ?st r" using o(5) c(1) by simp
      from keeps_saved [OF p(3) this] have k: "saved_ok st' r" "undo st' r = undo st r" "saved_names st' r = saved_names st r" using c(2,3) by auto
      show ?thesis using that [OF p(1)] p k f un True by (simp add: scope_inv_def undone_def saved_val_def keeps_def)
    next
      case False
      obtain st' where p: "poplocal l ?st = Inr st'" "var_inv st'" "localvars st' = r" "forcelocal st' = 0"
        "vals st' = (vals st)(?n := saved_val ?n fl t)" "\<And>j. in_table st' j = in_table st j"
        "\<And>j. vname (vs_heap st' j) = vname (vs_heap st j)" "\<And>j. j \<noteq> i \<Longrightarrow> vs_heap st' j = vs_heap st j" "v_flags (vs_heap st' i) = fl"
        using pop_text [of ?st i fl t] o(1,4,6) f False Local_var by auto
      have "in_table st' j \<and> VSTRFIXED \<in> v_flags (vs_heap st' j) \<and> vname (vs_heap st' j) = vname (vs_heap st j)" if "j \<in> saved_ids r" for j
        using saved_ids_table [OF o(5) that] p(6,7,8,9) o(3) that by (cases "j = i") auto
      from saved_same [OF this o(5)] have k: "saved_ok st' r" "undo st' r = undo st r" "saved_names st' r = saved_names st r" by auto
      show ?thesis using that [OF p(1)] p(2,3,4,5) k un by (simp add: scope_inv_def undone_def)
    qed
  qed
qed

lemma pop_loop_scope:
  "scope_inv st \<Longrightarrow> forcelocal st = 0 \<Longrightarrow> \<forall>n \<in> saved_names st (localvars st). good_name n \<Longrightarrow> length (localvars st) < k \<Longrightarrow>
   \<exists>st'. pop_loop k st = Inr st' \<and> var_inv st' \<and> localvars st' = [] \<and> forcelocal st' = 0 \<and> vals st' = undone st"
proof (induction k arbitrary: st)
  case (Suc k)
  show ?case
  proof (cases "localvars st")
    case Nil
    then show ?thesis using Suc(2,3) by (simp add: undone_def scope_inv_def)
  next
    case (Cons l r)
    obtain st1 where p: "poplocal l (st\<lparr>localvars := r\<rparr>) = Inr st1" "scope_inv st1" "localvars st1 = r" "forcelocal st1 = 0"
      "undone st1 = undone st" "saved_names st1 r = saved_names st r"
      using poplocal_scope [OF Suc(2,3) Cons Suc(4)] .
    have "saved_names st r \<subseteq> saved_names st (localvars st)" using saved_ids_Cons [of r l] by (auto simp: Cons saved_names_def)
    then have "\<forall>n \<in> saved_names st1 (localvars st1). good_name n" using Suc(4) p(3,6) by auto
    from Suc(1) [OF p(2,4) this] show ?thesis using p(1,3,5) Cons Suc(5) by auto
  qed
qed simp

lemma poplocalvars_scope:
  assumes "scope_inv st" "forcelocal st = 0" "\<forall>n \<in> saved_names st (localvars st). good_name n"
  obtains st' where "poplocalvars st = Inr st'" "var_inv st'" "localvars st' = []" "forcelocal st' = 0" "vals st' = undone st"
  using pop_loop_scope [OF assms, of "2 * length (localvars st) + 1"] by (auto simp: poplocalvars_def)

end
