(* ===== verification/Sh_Call.thy ===== *)
theory Sh_Call
  imports Sh_Local
begin

text \<open>
  What function calls and command substitutions of sh leave of the variables.
\<close>

subsection \<open>Errors\<close>

lemma setvareq_found_error: "setvareq_found s fl st = Inl (e, st') \<Longrightarrow> st' = st"
  by (auto simp: setvareq_found_def split: option.splits if_splits)

lemma setvar_nolocal_error: "setvar_by setvareq_nolocal s val fl st = Inl (e, st') \<Longrightarrow> st' = st"
  by (auto simp: setvar_by_def Let_def setvareq_nolocal_def dest: setvareq_found_error split: list.splits if_splits option.splits)

text \<open>What every operation leaves, whether it succeeds or raises an error.\<close>

definition left :: "string \<Rightarrow> vstate \<Rightarrow> vstate \<Rightarrow> bool" where
  "left n st st' \<longleftrightarrow> scope_inv st' \<and> keeps st st' \<and> saved_names st (localvars st) \<subseteq> saved_names st' (localvars st') \<and>
     saved_names st' (localvars st') \<subseteq> insert n (saved_names st (localvars st)) \<and>
     (\<forall>x. x \<in> saved_names st (localvars st) \<or> x \<noteq> n \<longrightarrow> undone st' x = undone st x)"

lemma left_refl: "scope_inv st \<Longrightarrow> left n st st"
  by (auto simp: left_def)

lemma mklocal_error:
  assumes sc: "scope_inv st" and m: "mklocal s st = Inl (e, st')"
  shows "left n st st'" "undone st' = undone st"
proof -
  have inv: "var_inv st" using sc by (simp add: scope_inv_def)
  have "left n st st' \<and> undone st' = undone st"
  proof (cases "find_var st s")
    case None
    then have "st' = st" using m by (auto simp: mklocal_def setvareq_nolocal_def bind_result_def dest: setvareq_found_error setvar_nolocal_error split: if_splits sum.splits)
    then show ?thesis using sc left_refl by blast
  next
    case (Some i)
    then have t: "in_table st i" using find_var_iff [OF inv] by auto
    let ?st = "set_var i ((vs_heap st i)\<lparr>v_flags := v_flags (vs_heap st i) \<union> {VSTRFIXED, VTEXTFIXED}\<rparr>) st"
    have "st' = ?st" using m Some
      by (auto simp: mklocal_def Let_def setvareq_nolocal_def bind_result_def dest: setvareq_found_error split: if_splits sum.splits)
    with fix_flags [OF inv t] have f: "var_inv st'" "vals st' = vals st" "keeps st st'" "localvars st' = localvars st" by simp_all
    have v: "vals st' = (vals st)(x := vals st x)" for x using f(2) by simp
    note c = change_undone [OF sc f(3,1,4) v]
    have "undone st' = undone st"
    proof
      fix x
      have "x \<noteq> CHR ''a'' # x" by simp
      then show "undone st' x = undone st x" using c(2) by blast
    qed
    moreover have "saved_names st' (localvars st') = saved_names st (localvars st)"
      using keeps_saved [OF f(3), of "localvars st"] sc f(4) by (simp add: scope_inv_def)
    ultimately show ?thesis using c(1) f(3) by (auto simp: left_def)
  qed
  then show "left n st st'" "undone st' = undone st" by blast+
qed

lemma mklocal_left:
  assumes sc: "scope_inv st" and m: "mklocal s st = Inr st'"
  shows "left (name_of s) st st'"
proof (cases "s = ''-''")
  case True
  then have "st' = push_local (Local_opts (optval st)) st" using m by (simp add: mklocal_def)
  then have "saved_names st' (localvars st') = saved_names st (localvars st)" by (simp add: saved_names_def)
  then show ?thesis using mklocal_scope [OF sc m] by (auto simp: left_def)
next
  case False
  then show ?thesis using mklocal_scope [OF sc m] by (auto simp: left_def)
qed

lemma setvareq_error:
  assumes sc: "scope_inv st" and e: "setvareq s fl st = Inl (e, st')"
  shows "left (name_of s) st st'" "undone st' = undone st"
proof -
  have "left (name_of s) st st' \<and> undone st' = undone st"
  proof (cases "0 < forcelocal st \<and> VNOSET \<notin> fl \<and> VNOLOCAL \<notin> fl")
    case True
    show ?thesis
    proof (cases "mklocal s st")
      case (Inl p)
      then show ?thesis using e True mklocal_error [OF sc, of s] by (cases p) (auto simp: setvareq_def Let_def)
    next
      case (Inr st1)
      then have "st' = st1" using e True by (auto simp: setvareq_def Let_def dest: setvareq_found_error)
      then show ?thesis using mklocal_left [OF sc Inr] mklocal_scope(2) [OF sc Inr] by simp
    qed
  next
    case False
    then have "st' = st" using e by (auto simp: setvareq_def Let_def dest: setvareq_found_error)
    then show ?thesis using sc left_refl by blast
  qed
  then show "left (name_of s) st st'" "undone st' = undone st" by blast+
qed

lemma setvar_error:
  assumes sc: "scope_inv st" and e: "setvar s (Some v) fl st = Inl (e, st')"
  shows "left (name_of s) st st'" "undone st' = undone st"
proof -
  have "left (name_of s) st st' \<and> undone st' = undone st"
  proof (cases "good_name (name_of s)")
    case True
    have n: "name_of (name_of s @ EQ # v) = name_of s" using name_of_plain(2) [OF name_of_plain(3)] .
    have "setvareq (name_of s @ EQ # v) fl st = Inl (e, st')" using e setvar_by_good(2) [OF True] by (simp add: setvar_def)
    from setvareq_error [OF sc this] n show ?thesis by simp
  next
    case False
    then have "st' = st" using e setvar_by_name(2) [of s setvareq "Some v" fl st] by (auto simp: setvar_def)
    then show ?thesis using sc left_refl by blast
  qed
  then show "left (name_of s) st st'" "undone st' = undone st" by blast+
qed

lemma unsetvar_error:
  assumes sc: "scope_inv st" and u: "unsetvar s st = Inl (e, st')"
  shows "left (name_of s) st st'"
proof -
  obtain i where i: "find_var st s = Some i" "VREADONLY \<notin> v_flags (vs_heap st i)"
    using u by (auto simp: unsetvar_def split: option.splits if_splits)
  have "setvar s (Some []) {} st = Inl (e, st')"
    using u unfolding unsetvar_unset_at [OF i] by (cases "setvar s (Some []) {} st") (auto split: if_splits)
  then show ?thesis by (rule setvar_error(1) [OF sc])
qed

subsection \<open>Operations\<close>

definition state_of :: "var_result \<Rightarrow> vstate" where
  "state_of r = (case r of Inl (e, st) \<Rightarrow> st | Inr st \<Rightarrow> st)"

lemma state_of_simps [simp]: "state_of (Inl (e, st)) = st" "state_of (Inr st) = st"
  by (simp_all add: state_of_def)

lemma good_name_dash: "\<not> good_name ''-''"
  by code_simp

lemma run_op_left:
  assumes sc: "scope_inv st"
  shows "left (op_name p) st (state_of (run_op p st))"
proof (cases p)
  case (Assign n v)
  show ?thesis
  proof (cases "setvar n (Some v) {} st")
    case (Inl x)
    then show ?thesis using setvar_error(1) [OF sc] by (cases x) (simp add: Assign)
  next
    case (Inr st')
    then show ?thesis using setvar_scope [OF sc _ _ Inr] by (auto simp: Assign left_def)
  qed
next
  case (Unset n)
  show ?thesis
  proof (cases "unsetvar n st")
    case (Inl x)
    then show ?thesis using unsetvar_error [OF sc] by (cases x) (simp add: Unset)
  next
    case (Inr x)
    then obtain r st' where u: "unsetvar n st = Inr (r, st')" by fastforce
    then show ?thesis using unsetvar_scope [OF sc u] by (auto simp: Unset left_def)
  qed
next
  case (Local s)
  show ?thesis
  proof (cases "mklocal s st")
    case (Inl x)
    then show ?thesis using mklocal_error(1) [OF sc, of s] by (cases x) (simp add: Local)
  next
    case (Inr st')
    then show ?thesis using mklocal_left [OF sc Inr] Local by simp
  qed
qed

lemma run_op_local_undone:
  assumes "scope_inv st" shows "undone (state_of (run_op (Local s) st)) = undone st"
proof (cases "mklocal s st")
  case (Inl x)
  then show ?thesis using mklocal_error(2) [OF assms, of s] by (cases x) simp
next
  case (Inr st')
  then show ?thesis using mklocal_scope(2) [OF assms Inr] by simp
qed

lemma run_ops_state: "run_ops (p # ps) st = (case run_op p st of Inl x \<Rightarrow> Inl x | Inr st' \<Rightarrow> run_ops ps st')"
  by (simp add: bind_result_def)

lemma no_loop_out:
  "setvareq_found s fl st \<noteq> Inl (Loop_out, st')" "setvar_by setvareq_nolocal s val fl st \<noteq> Inl (Loop_out, st')"
  "mklocal s st \<noteq> Inl (Loop_out, st')" "setvareq s fl st \<noteq> Inl (Loop_out, st')" "setvar s val fl st \<noteq> Inl (Loop_out, st')"
proof -
  show 1: "setvareq_found s fl st \<noteq> Inl (Loop_out, st')" for s fl st st' by (auto simp: setvareq_found_def split: option.splits)
  show 2: "setvar_by setvareq_nolocal s val fl st \<noteq> Inl (Loop_out, st')" for s val fl st st'
    using 1 by (auto simp: setvar_by_def Let_def setvareq_nolocal_def split: list.splits option.splits)
  show 3: "mklocal s st \<noteq> Inl (Loop_out, st')" for s st st'
    by (simp add: mklocal_def Let_def setvareq_nolocal_def bind_result_Inl 1 2 split: option.split)
  show 4: "setvareq s fl st \<noteq> Inl (Loop_out, st')" for s fl st st' by (simp add: setvareq_def Let_def bind_result_Inl 1 3)
  show "setvar s val fl st \<noteq> Inl (Loop_out, st')"
    using 4 by (auto simp: setvar_def setvar_by_def Let_def split: list.splits option.splits)
qed

lemma run_ops_loop: "run_ops ps st \<noteq> Inl (Loop_out, st')"
proof (induction ps arbitrary: st)
  case (Cons p ps)
  have "unsetvar n st \<noteq> Inl (Loop_out, st')" for n
    by (simp add: unsetvar_def Let_def bind_result_Inl no_loop_out(5) split: option.split)
  then have "run_op p st \<noteq> Inl (Loop_out, st')" by (cases p) (simp_all add: bind_result_Inl no_loop_out(3,5) split_def)
  then show ?case using Cons by (simp add: bind_result_Inl)
qed simp

text \<open>Outside of command substitutions only the command local saves variables.\<close>

fun local_names :: "var_op list \<Rightarrow> string set" where
  "local_names [] = {}"
| "local_names (Local s # ps) = insert (name_of s) (local_names ps)"
| "local_names (p # ps) = local_names ps"

lemma setvareq_localvars:
  assumes "forcelocal st = 0"
  shows "localvars (state_of (setvareq s fl st)) = localvars st"
  using assms by (auto simp: setvareq_def Let_def setvareq_found_def set_found_def set_new_def split: option.splits)

lemma setvar_localvars:
  assumes "forcelocal st = 0"
  shows "localvars (state_of (setvar s val fl st)) = localvars st"
  using setvareq_localvars [OF assms] by (simp add: setvar_def setvar_by_def Let_def split: list.split option.split)

lemma unset_localvars:
  assumes "forcelocal st = 0"
  shows "localvars (state_of (run_op (Unset n) st)) = localvars st"
proof (cases "find_var st n")
  case (Some i)
  note e = setvar_localvars [OF assms, of n "Some []" "{}"]
  show ?thesis
  proof (cases "VREADONLY \<in> v_flags (vs_heap st i)")
    case False
    have u: "localvars (unset_at i n st') = localvars st'" for st' by (simp add: unset_at_def Let_def)
    show ?thesis using e by (auto simp: unsetvar_unset_at [OF Some False] u bind_result_def split: sum.splits)
  qed (simp add: unsetvar_def Some)
qed (simp add: unsetvar_def)

lemma run_op_saved:
  fixes p :: var_op
  assumes sc: "scope_inv st" and f: "forcelocal st = 0"
  defines "st' \<equiv> state_of (run_op p st)"
  shows "saved_names st' (localvars st') \<subseteq> local_names [p] \<union> saved_names st (localvars st)"
proof -
  have l: "left (op_name p) st st'" unfolding st'_def by (rule run_op_left [OF sc])
  have "saved_names st' (localvars st') = saved_names st (localvars st)" if "localvars st' = localvars st"
    using keeps_saved [of st st' "localvars st"] l sc that by (auto simp: left_def scope_inv_def)
  then show ?thesis using l setvar_localvars [OF f] unset_localvars [OF f] by (cases p) (auto simp: left_def st'_def)
qed

text \<open>A saved variable is restored, and a variable that is not touched keeps its value.\<close>

lemma run_ops_saved:
  assumes "scope_inv st" "forcelocal st = 0"
  defines "st' \<equiv> \<lambda>ps. state_of (run_ops ps st)"
  shows "scope_inv (st' ps) \<and> forcelocal (st' ps) = 0 \<and>
    saved_names (st' ps) (localvars (st' ps)) \<subseteq> local_names ps \<union> saved_names st (localvars st) \<and>
    (x \<in> saved_names st (localvars st) \<or> x \<notin> op_name ` set ps \<longrightarrow> undone (st' ps) x = undone st x)"
  unfolding st'_def using assms(1,2)
proof (induction ps arbitrary: st)
  case (Cons p ps)
  define st1 where "st1 = state_of (run_op p st)"
  have l: "left (op_name p) st st1" unfolding st1_def by (rule run_op_left [OF Cons(2)])
  have s1: "scope_inv st1" "forcelocal st1 = 0" using l Cons(3) by (auto simp: left_def keeps_def)
  have n: "saved_names st1 (localvars st1) \<subseteq> local_names [p] \<union> saved_names st (localvars st)"
    unfolding st1_def by (rule run_op_saved [OF Cons(2,3)])
  have ln: "local_names (p # ps) = local_names [p] \<union> local_names ps" by (cases p) simp_all
  show ?case
  proof (cases "run_op p st")
    case (Inl y)
    then have "state_of (run_ops (p # ps) st) = st1" by (simp add: run_ops_state st1_def)
    then show ?thesis using s1 n l ln by (auto simp: left_def)
  next
    case (Inr st2)
    then have e: "run_ops (p # ps) st = run_ops ps st1" by (simp add: run_ops_state st1_def)
    show ?thesis unfolding e ln using Cons(1) [OF s1] n l by (auto simp: left_def)
  qed
qed auto

lemma run_ops_append: "run_ops (ps @ qs) st = bind_result (run_ops ps st) (run_ops qs)"
  by (induction ps arbitrary: st) (simp_all add: bind_result_def split: sum.split)

lemma scope_start:
  assumes "var_inv st"
  shows "scope_inv (st\<lparr>localvars := []\<rparr>)" "undone (st\<lparr>localvars := []\<rparr>) = vals st" "saved_names (st\<lparr>localvars := []\<rparr>) [] = {}"
    "scope_inv (st\<lparr>localvars := [], forcelocal := k\<rparr>)" "undone (st\<lparr>localvars := [], forcelocal := k\<rparr>) = vals st"
  using assms by (simp_all add: scope_inv_def undone_def saved_names_def)

text \<open>From the command local on, the value that the variable had at that moment is what the scope restores.\<close>

lemma local_undone:
  assumes sc: "scope_inv st" and f: "forcelocal st = 0" and s: "s \<noteq> ''-''" "name_of s \<notin> saved_names st (localvars st)"
  shows "undone (state_of (run_ops (Local s # rs) st)) (name_of s) = vals st (name_of s)"
proof -
  have v: "undone st (name_of s) = vals st (name_of s)" using undo_other [OF s(2)] by (simp add: undone_def)
  show ?thesis
  proof (cases "mklocal s st")
    case (Inl y)
    then have "state_of (run_ops (Local s # rs) st) = state_of (run_op (Local s) st)" by simp
    then show ?thesis using run_op_local_undone [OF sc] v by simp
  next
    case (Inr st1)
    have "scope_inv st1" "forcelocal st1 = 0" "name_of s \<in> saved_names st1 (localvars st1)" "undone st1 = undone st"
      using mklocal_scope(1,2,3,5) [OF sc Inr] f s(1) by (auto simp: keeps_def)
    then show ?thesis using run_ops_saved [of st1 rs "name_of s"] v Inr by simp
  qed
qed

lemma local_names_set: "n \<in> local_names ps \<longleftrightarrow> (\<exists>s. Local s \<in> set ps \<and> name_of s = n)"
  by (induction ps rule: local_names.induct) auto

lemma call_function_pops:
  assumes inv: "var_inv st" and f: "forcelocal st = 0" and g: "\<forall>s. Local s \<in> set (map Local varlist @ body) \<longrightarrow> good_name (name_of s)"
  shows "\<exists>st'. (call_function varlist body st = Inr st' \<or> (\<exists>e. call_function varlist body st = Inl (e, st') \<and> e \<noteq> Loop_out)) \<and>
    vals st' = undone (state_of (run_ops (map Local varlist @ body) (st\<lparr>localvars := []\<rparr>))) \<and> localvars st' = localvars st"
proof -
  let ?r = "run_ops (map Local varlist @ body) (st\<lparr>localvars := []\<rparr>)"
  have r: "scope_inv (state_of ?r)" "forcelocal (state_of ?r) = 0"
    "saved_names (state_of ?r) (localvars (state_of ?r)) \<subseteq> local_names (map Local varlist @ body)"
    using run_ops_saved [OF scope_start(1) [OF inv], of "map Local varlist @ body"] f scope_start(3) [OF inv] by auto
  then have "\<forall>n \<in> saved_names (state_of ?r) (localvars (state_of ?r)). good_name n" using g by (metis local_names_set subsetD)
  then obtain st' where p: "poplocalvars (state_of ?r) = Inr st'" "vals st' = undone (state_of ?r)" using poplocalvars_scope [OF r(1,2)] by metis
  show ?thesis
  proof (cases ?r)
    case (Inl x)
    then obtain e st1 where x: "?r = Inl (e, st1)" by (cases x) auto
    then have "e \<noteq> Loop_out" using run_ops_loop by blast
    then show ?thesis using x p by (intro exI [of _ "st'\<lparr>localvars := localvars st\<rparr>"]) (simp add: call_function_def Let_def)
  next
    case (Inr st1)
    then show ?thesis using p by (intro exI [of _ "st'\<lparr>localvars := localvars st\<rparr>"]) (simp add: call_function_def Let_def)
  qed
qed

text \<open>
  C11. A function gives its local variables back. Take the call of a function outside of a command substitution that the
  shell expands itself, in which every name given to the command local is a proper one. A variable that is made local, by a prefix assignment
  or by the command local, has after the call the value it had at the moment it was first made local in this
  call, or is unset again, whatever the function assigns, unsets or makes local after that, and also when the function is
  left with an error. When nothing has touched the variable before, this is the value before the
  call; an assignment before the first local is to the variable of the caller and stays. The end of the scope does not fail.
\<close>

theorem function_restores_locals:
  assumes "var_inv st" "forcelocal st = 0" "\<forall>s. Local s \<in> set (map Local varlist @ body) \<longrightarrow> good_name (name_of s)"
    and "map Local varlist @ body = qs @ Local s # rs" "\<forall>t. Local t \<in> set qs \<longrightarrow> name_of t \<noteq> name_of s"
    and "run_ops qs (st\<lparr>localvars := []\<rparr>) = Inr st1"
  shows "\<exists>st'. (call_function varlist body st = Inr st' \<or> (\<exists>e. call_function varlist body st = Inl (e, st') \<and> e \<noteq> Loop_out)) \<and>
    vals st' (name_of s) = vals st1 (name_of s) \<and>
    (name_of s \<notin> op_name ` set qs \<longrightarrow> vals st' (name_of s) = vals st (name_of s)) \<and> localvars st' = localvars st"
proof -
  let ?st = "st\<lparr>localvars := []\<rparr>" and ?x = "name_of s"
  have "good_name ?x" using assms(3,4) by (metis in_set_conv_decomp)
  then have dash: "s \<noteq> ''-''" using good_name_dash by (auto simp: name_of_def)
  note q = run_ops_saved [OF scope_start(1) [OF assms(1)], of qs ?x]
  have s1: "scope_inv st1" "forcelocal st1 = 0" "?x \<notin> saved_names st1 (localvars st1)"
    using q assms(2,5,6) scope_start(3) [OF assms(1)] local_names_set by fastforce+
  have "vals st1 ?x = vals st ?x" if "?x \<notin> op_name ` set qs"
    using q assms(2,6) that scope_start(2) [OF assms(1)] undo_other [OF s1(3)] by (simp add: undone_def)
  moreover have "run_ops (map Local varlist @ body) ?st = run_ops (Local s # rs) st1" unfolding assms(4) run_ops_append assms(6) by simp
  ultimately show ?thesis using call_function_pops [OF assms(1,2,3)] local_undone [OF s1(1,2) dash s1(3), of rs] by auto
qed

lemma local_example: "isl (run_ops [Local ''y=1'', Assign ''x'' ''5''] (empty_vars\<lparr>localvars := []\<rparr>)) = False"
  by code_simp

theorem function_restores_locals_witness:
  "\<exists>st'. (call_function [''y=1''] [Assign ''x'' ''5'', Local ''x=1'', Assign ''x'' ''2'', Unset ''x'', Assign ''y'' ''3''] empty_vars = Inr st' \<or>
     (\<exists>e. call_function [''y=1''] [Assign ''x'' ''5'', Local ''x=1'', Assign ''x'' ''2'', Unset ''x'', Assign ''y'' ''3''] empty_vars = Inl (e, st') \<and> e \<noteq> Loop_out)) \<and>
   vals st' (name_of ''x=1'') = vals (state_of (run_ops [Local ''y=1'', Assign ''x'' ''5''] (empty_vars\<lparr>localvars := []\<rparr>))) (name_of ''x=1'') \<and>
   (name_of ''x=1'' \<notin> op_name ` set [Local ''y=1'', Assign ''x'' ''5''] \<longrightarrow> vals st' (name_of ''x=1'') = vals empty_vars (name_of ''x=1'')) \<and>
   localvars st' = localvars empty_vars"
proof (rule function_restores_locals [where rs = "[Assign ''x'' ''2'', Unset ''x'', Assign ''y'' ''3'']"])
  show "var_inv empty_vars" by (simp add: empty_vars_def var_inv_def)
  have "good_name ''x''" "good_name ''y''" by code_simp+
  then show "\<forall>s. Local s \<in> set (map Local [''y=1''] @ [Assign ''x'' ''5'', Local ''x=1'', Assign ''x'' ''2'', Unset ''x'', Assign ''y'' ''3'']) \<longrightarrow> good_name (name_of s)"
    by (auto simp: name_of_def)
  show "run_ops [Local ''y=1'', Assign ''x'' ''5''] (empty_vars\<lparr>localvars := []\<rparr>) =
      Inr (state_of (run_ops [Local ''y=1'', Assign ''x'' ''5''] (empty_vars\<lparr>localvars := []\<rparr>)))"
    using local_example by (auto simp: state_of_def split: sum.splits)
qed (simp_all add: empty_vars_def name_of_def)

subsection \<open>Command substitution\<close>

lemma forcelocal_scope [simp]:
  "scope_inv (st\<lparr>forcelocal := k\<rparr>) = scope_inv st" "undone (st\<lparr>forcelocal := k\<rparr>) = undone st"
  "saved_names (st\<lparr>forcelocal := k\<rparr>) lvs = saved_names st lvs"
  using saved_same_table [of "st\<lparr>forcelocal := k\<rparr>" st] by (simp_all add: scope_inv_def undone_def)

lemma run_assign_forced:
  fixes n v :: string
  assumes sc: "scope_inv st" and f: "0 < forcelocal st" and g: "\<forall>n \<in> saved_names st (localvars st). good_name n"
  defines "st' \<equiv> state_of (run_op (Assign n v) st)"
  shows "scope_inv st'" "undone st' = undone st" "forcelocal st' = forcelocal st" "\<forall>n \<in> saved_names st' (localvars st'). good_name n"
proof -
  have l: "left (name_of n) st st'" unfolding st'_def using run_op_left [OF sc, of "Assign n v"] by simp
  show "scope_inv st'" "forcelocal st' = forcelocal st" using l by (auto simp: left_def keeps_def)
  show "undone st' = undone st"
  proof (cases "setvar n (Some v) {} st")
    case (Inl x)
    then show ?thesis using setvar_error(2) [OF sc, of n v "{}"] by (cases x) (simp add: st'_def)
  next
    case (Inr st1)
    then show ?thesis using setvar_scope(6) [OF sc _ _ Inr] f by (simp add: st'_def)
  qed
  show "\<forall>n \<in> saved_names st' (localvars st'). good_name n"
  proof (cases "good_name (name_of n)")
    case True
    then show ?thesis using l g by (auto simp: left_def)
  next
    case False
    then have "st' = st" using setvar_by_name(2) [of n setvareq "Some v" "{}" st] by (auto simp: st'_def setvar_def)
    then show ?thesis using g by simp
  qed
qed

lemma run_assigns_forced:
  "scope_inv st \<Longrightarrow> 0 < forcelocal st \<Longrightarrow> \<forall>n \<in> saved_names st (localvars st). good_name n \<Longrightarrow>
   scope_inv (state_of (run_ops (map (\<lambda>(n, v). Assign n v) as) st)) \<and> undone (state_of (run_ops (map (\<lambda>(n, v). Assign n v) as) st)) = undone st \<and>
   forcelocal (state_of (run_ops (map (\<lambda>(n, v). Assign n v) as) st)) = forcelocal st \<and>
   (\<forall>n \<in> saved_names (state_of (run_ops (map (\<lambda>(n, v). Assign n v) as) st)) (localvars (state_of (run_ops (map (\<lambda>(n, v). Assign n v) as) st))). good_name n)"
proof (induction as arbitrary: st)
  case (Cons a as)
  obtain n v where a: "a = (n, v)" by fastforce
  define st1 where "st1 = state_of (run_op (Assign n v) st)"
  note r = run_assign_forced [OF Cons(2,3,4), of n v, folded st1_def]
  show ?case
  proof (cases "run_op (Assign n v) st")
    case (Inl x)
    then have "run_ops (map (\<lambda>(n, v). Assign n v) (a # as)) st = Inl x" "state_of (Inl x) = st1" by (simp_all add: a st1_def)
    then show ?thesis using r by simp
  next
    case (Inr st')
    then have "run_ops (map (\<lambda>(n, v). Assign n v) (a # as)) st = run_ops (map (\<lambda>(n, v). Assign n v) as) st1" by (simp add: a st1_def)
    then show ?thesis using Cons(1) [OF r(1) _ r(4)] r Cons(3) by simp
  qed
qed simp

text \<open>
  C10. A command substitution leaves no trace in the variables. When a command substitution or a here
  document is expanded in the shell itself, outside of another one, every variable has afterwards the value it had before,
  whatever assignments the expansion has made and whether or not one of them was an error; the end of
  the scope itself does not fail.
\<close>

theorem substitution_restores:
  assumes "var_inv st" "forcelocal st = 0"
  shows "\<exists>st'. forced_scope (run_ops (map (\<lambda>(n, v). Assign n v) as)) st = Inr st' \<and> vals st' = vals st \<and> var_inv st' \<and>
    localvars st' = localvars st \<and> forcelocal st' = 0"
proof -
  let ?st = "st\<lparr>localvars := [], forcelocal := forcelocal st + 1\<rparr>"
  define st1 where "st1 = state_of (run_ops (map (\<lambda>(n, v). Assign n v) as) ?st)"
  have s: "scope_inv ?st" "undone ?st = vals st" using scope_start(4,5) [OF assms(1)] by blast+
  have r: "scope_inv st1" "undone st1 = vals st" "forcelocal st1 = 1" "\<forall>n \<in> saved_names st1 (localvars st1). good_name n"
    using run_assigns_forced [OF s(1), of as] s(2) assms(2) by (simp_all add: st1_def saved_names_def)
  obtain st2 where p: "poplocalvars (st1\<lparr>forcelocal := forcelocal st1 - 1\<rparr>) = Inr st2" "var_inv st2" "forcelocal st2 = 0" "vals st2 = undone st1"
    using poplocalvars_scope [of "st1\<lparr>forcelocal := 0\<rparr>"] r by auto
  have e: "(case run_ops (map (\<lambda>(n, v). Assign n v) as) ?st of Inl (e, st) \<Rightarrow> st | Inr st \<Rightarrow> st) = st1" by (simp add: st1_def state_of_def)
  have "forced_scope (run_ops (map (\<lambda>(n, v). Assign n v) as)) st = Inr (st2\<lparr>localvars := localvars st\<rparr>)"
    unfolding forced_scope_def Let_def e p(1) by simp
  then show ?thesis using p r(2) by simp
qed

theorem substitution_restores_witness:
  "\<exists>st'. forced_scope (run_ops (map (\<lambda>(n, v). Assign n v) [(''x'', ''5''), (''1'', []), (''y'', [])])) empty_vars = Inr st' \<and>
    vals st' = vals empty_vars \<and> var_inv st' \<and> localvars st' = localvars empty_vars \<and> forcelocal st' = 0"
  by (rule substitution_restores) (simp_all add: empty_vars_def var_inv_def)

text \<open>A variable whose name is the first one of its chain, as the assignments of a substitution leave it.\<close>

definition has_text :: "string \<Rightarrow> nat \<Rightarrow> string \<Rightarrow> vstate \<Rightarrow> bool" where
  "has_text x i w st \<longleftrightarrow> (\<exists>r. vartab st (bucket x) = i # r) \<and> v_text (vs_heap st i) = x @ EQ # w \<and> v_name_len (vs_heap st i) = length x \<and>
     VREADONLY \<notin> v_flags (vs_heap st i) \<and> VUNSET \<notin> v_flags (vs_heap st i)"

lemma assign_not_dash: "x @ EQ # w \<noteq> ''-''"
  by (cases x) simp_all

lemma has_text_found:
  assumes "has_text x i w st" "name_of s = x"
  shows "find_var st s = Some i"
proof -
  obtain r where r: "vartab st (bucket x) = i # r" using assms(1) by (auto simp: has_text_def)
  have "bucket s = bucket x" using bucket_name_of [of s] assms(2) by simp
  moreover have "take (length x) s = x" unfolding assms(2) [symmetric] name_of_def by (metis takeWhile_eq_take)
  ultimately show ?thesis using assms r by (auto simp: find_var_def Let_def has_text_def)
qed

lemma has_text_lookup: "has_text x i w st \<Longrightarrow> name_of x = x \<Longrightarrow> lookupvar st x = Some w"
  using has_text_found [of x i w st x] by (simp add: lookupvar_def has_text_def)

lemma has_text_sets:
  assumes h: "has_text x i w st" and x: "EQ \<notin> set x" and fl: "VNOSET \<notin> fl" "VREADONLY \<notin> fl" "VUNSET \<notin> fl"
  obtains st' where "setvareq_found (x @ EQ # w') fl st = Inr st'" "has_text x i w' st'" "localvars st' = localvars st" "forcelocal st' = forcelocal st"
    "VSTRFIXED \<in> v_flags (vs_heap st i) \<Longrightarrow> VSTRFIXED \<in> v_flags (vs_heap st' i)" "aflag st' = aflag st"
proof (rule that [of "set_found i (x @ EQ # w') fl st"])
  have "find_var st (x @ EQ # w') = Some i" by (rule has_text_found [OF h]) (rule name_of_plain(2) [OF x])
  then show "setvareq_found (x @ EQ # w') fl st = Inr (set_found i (x @ EQ # w') fl st)" using h fl by (simp add: setvareq_found_def has_text_def)
qed (use h fl in \<open>simp_all add: set_found_def Let_def has_text_def\<close>)

text \<open>An assignment to such a variable saves it first.\<close>

lemma has_text_forced:
  assumes h: "has_text x i w st" and x: "EQ \<notin> set x" and f: "0 < forcelocal st"
  obtains st' where "setvareq (x @ EQ # w') {} st = Inr st'" "has_text x i w' st'" "forcelocal st' = forcelocal st"
    "VSTRFIXED \<in> v_flags (vs_heap st' i)" "localvars st' = Local_var i (v_flags (vs_heap st i)) (Some (x @ EQ # w)) # localvars st"
proof -
  let ?s = "x @ EQ # w'" and ?v = "vs_heap st i"
  let ?st = "set_var i (?v\<lparr>v_flags := v_flags ?v \<union> {VSTRFIXED, VTEXTFIXED}\<rparr>) st"
  have fv: "find_var st ?s = Some i" by (rule has_text_found [OF h]) (rule name_of_plain(2) [OF x])
  have h1: "has_text x i w ?st" using h by (simp add: has_text_def)
  obtain st1 where 1: "setvareq_nolocal ?s {} ?st = Inr st1" "has_text x i w' st1" "localvars st1 = localvars st" "forcelocal st1 = forcelocal st"
      "VSTRFIXED \<in> v_flags (vs_heap st1 i)" "aflag st1 = aflag st"
    using has_text_sets [OF h1 x, of "all_export {VNOLOCAL} ?st" w'] by (auto simp: setvareq_nolocal_def)
  let ?st2 = "push_local (Local_var i (v_flags ?v) (Some (x @ EQ # w))) st1"
  have m: "mklocal ?s st = Inr ?st2"
    using fv 1(1) h x by (simp add: mklocal_def Let_def has_text_def assign_not_dash)
  have h2: "has_text x i w' ?st2" using 1(2) by (simp add: has_text_def)
  obtain st3 where 3: "setvareq_found ?s (all_export {} st) ?st2 = Inr st3" "has_text x i w' st3" "localvars st3 = localvars ?st2"
      "forcelocal st3 = forcelocal ?st2" "VSTRFIXED \<in> v_flags (vs_heap st3 i)"
    using has_text_sets [OF h2 x, of "all_export {} st" w'] 1(5) by auto
  show ?thesis
    by (rule that [of st3]) (use 1 3 m f in \<open>simp_all add: setvareq_def Let_def\<close>)
qed

lemma new_forced:
  assumes n: "find_var st x = None" and x: "EQ \<notin> set x" and f: "0 < forcelocal st"
  obtains st' i where "setvareq (x @ EQ # w) {} st = Inr st'" "has_text x i w st'" "forcelocal st' = forcelocal st"
    "VSTRFIXED \<in> v_flags (vs_heap st' i)" "localvars st' = Local_var i {VUNSET} None # localvars st"
proof -
  let ?s = "x @ EQ # w"
  let ?st1 = "set_new ?s (all_export {VNOLOCAL, VSTRFIXED} st) st"
  let ?st2 = "push_local (Local_var (vs_free st) {VUNSET} None) ?st1"
  have ns: "name_of ?s = x" "bucket ?s = bucket x" using name_of_plain(2) [OF x] bucket_name_of [of ?s] by simp_all
  have fv: "find_var st ?s = None"
  proof -
    have "find_var st ?s = find_var st x" using ns name_of_plain(1) [OF x] by (simp add: find_var_def Let_def)
    then show ?thesis using n by simp
  qed
  have m: "mklocal ?s st = Inr ?st2"
    using fv by (simp add: assign_not_dash mklocal_def setvareq_nolocal_def setvareq_found_def set_new_def Let_def)
  have h: "has_text x (vs_free st) w ?st2" using ns by (simp add: has_text_def set_new_def Let_def)
  obtain st3 where 3: "setvareq_found ?s (all_export {} st) ?st2 = Inr st3" "has_text x (vs_free st) w st3" "localvars st3 = localvars ?st2"
      "forcelocal st3 = forcelocal ?st2" "VSTRFIXED \<in> v_flags (vs_heap st3 (vs_free st))"
    using has_text_sets [OF h x, of "all_export {} st" w] by (auto simp: set_new_def Let_def)
  show ?thesis
    by (rule that [of st3]) (use 3 m f in \<open>simp_all add: setvareq_def Let_def set_new_def\<close>)
qed

text \<open>The end of an inner substitution: unsetting the new variable saves it once more, and the loop restores what was saved.\<close>

lemma pop_new_forced:
  assumes h: "has_text x i w st" "VSTRFIXED \<in> v_flags (vs_heap st i)" and x: "good_name x" "w \<noteq> []"
    and f: "0 < forcelocal st" and l: "localvars st = [Local_var i {VUNSET} None]"
  obtains st' where "poplocalvars st = Inr st'" "has_text x i w st'" "localvars st' = []" "forcelocal st' = forcelocal st"
proof -
  have eq: "EQ \<notin> set x" "name_of (x @ EQ # w) = x" using good_name_plain [OF x(1)] name_of_plain(2) by auto
  let ?v = "vs_heap st i"
  let ?st1 = "set_var i (?v\<lparr>v_flags := v_flags ?v - {VREADONLY}\<rparr>) (st\<lparr>localvars := []\<rparr>)"
  have h1: "has_text x i w ?st1" using h(1) by (simp add: has_text_def)
  have fv: "find_var ?st1 (x @ EQ # w) = Some i" by (rule has_text_found [OF h1 eq(2)])
  obtain st2 where 2: "setvareq (x @ [EQ]) {} ?st1 = Inr st2" "has_text x i [] st2" "forcelocal st2 = forcelocal st"
      "VSTRFIXED \<in> v_flags (vs_heap st2 i)" "localvars st2 = [Local_var i (v_flags ?v - {VREADONLY}) (Some (x @ EQ # w))]"
    using has_text_forced [OF h1 eq(1), of "[]"] f by auto
  let ?st3 = "unset_at i (x @ EQ # w) st2"
  have st3: "vartab ?st3 = vartab st2" "localvars ?st3 = localvars st2" "forcelocal ?st3 = forcelocal st2" "v_name_len (vs_heap ?st3 i) = length x"
    using 2(2,4) by (simp_all add: unset_at_def Let_def has_text_def)
  have u: "unsetvar (x @ EQ # w) ?st1 = Inr (False, ?st3)"
    using h1 x(2) 2(1) setvar_by_good(2) [of "x @ EQ # w" setvareq] x(1) eq(2)
    by (subst unsetvar_unset_at [OF fv]) (simp_all add: has_text_def vvalue_def setvar_def)
  obtain st4 where 4: "poplocal (Local_var i (v_flags ?v - {VREADONLY}) (Some (x @ EQ # w))) (?st3\<lparr>localvars := []\<rparr>) = Inr st4"
      "has_text x i w st4" "localvars st4 = []" "forcelocal st4 = forcelocal st"
    using h(1) 2(2,3) st3 by (simp add: poplocal_def Let_def has_text_def)
  have "v_text ?v = x @ EQ # w" using h(1) by (simp add: has_text_def)
  then have "poplocal (Local_var i {VUNSET} None) (st\<lparr>localvars := []\<rparr>) = Inr ?st3" using u by (simp add: poplocal_def Let_def)
  then have "poplocalvars st = Inr st4" using l st3(2) 2(5) 4 by (simp add: poplocalvars_def numeral_3_eq_3)
  then show ?thesis using that 4 by blast
qed

lemma forced_scopeI:
  assumes "body (st\<lparr>localvars := [], forcelocal := forcelocal st + 1\<rparr>) = Inr st1" "poplocalvars (st1\<lparr>forcelocal := forcelocal st1 - 1\<rparr>) = Inr st2"
  shows "forced_scope body st = Inr (st2\<lparr>localvars := localvars st\<rparr>)"
  using assms by (simp add: forced_scope_def Let_def)

text \<open>
  C36. A command substitution inside another one does leave a trace. When the inner substitution ends, poplocalvars unsets a
  variable that did not exist before with an assignment, which the outer substitution makes local once more, and this local value, the one to be
  removed, is restored at once. So for every variable x with a proper name that is not in the table and every
  value v that is not empty, after echo $(echo $(echo ${x:=v})) the variable x has the value v in the shell.
\<close>

theorem nested_substitution_leaks:
  assumes "find_var st x = None" "good_name x" "v \<noteq> []"
  shows "\<exists>st'. forced_scope (forced_scope (run_ops [Assign x v])) st = Inr st' \<and> lookupvar st x = None \<and> lookupvar st' x = Some v"
proof -
  have eq: "EQ \<notin> set x" "name_of x = x" using good_name_plain [OF assms(2)] by auto
  define sta where "sta = st\<lparr>localvars := [], forcelocal := forcelocal st + 1\<rparr>"
  define stb where "stb = sta\<lparr>localvars := [], forcelocal := forcelocal sta + 1\<rparr>"
  have fv: "find_var stb x = None" using assms(1) by (simp add: find_var_def stb_def sta_def)
  obtain st1 i where 1: "setvareq (x @ EQ # v) {} stb = Inr st1" "has_text x i v st1" "forcelocal st1 = forcelocal st + 2"
      "VSTRFIXED \<in> v_flags (vs_heap st1 i)" "localvars st1 = [Local_var i {VUNSET} None]"
    using new_forced [OF fv eq(1), of v] by (auto simp: stb_def sta_def)
  have r: "run_ops [Assign x v] stb = Inr st1" using 1(1) setvar_by_good(2) [of x setvareq] assms(2) eq(2) by (simp add: setvar_def)
  obtain st2 where 2: "poplocalvars (st1\<lparr>forcelocal := forcelocal st1 - 1\<rparr>) = Inr st2" "has_text x i v st2" "localvars st2 = []" "forcelocal st2 = forcelocal st + 1"
    using pop_new_forced [of x i v "st1\<lparr>forcelocal := forcelocal st1 - 1\<rparr>"] 1 assms(2,3) by (auto simp: has_text_def)
  have "forced_scope (run_ops [Assign x v]) sta = Inr (st2\<lparr>localvars := []\<rparr>)"
    using forced_scopeI [of "run_ops [Assign x v]" sta, OF r [unfolded stb_def] 2(1)] by (simp add: sta_def)
  then have "forced_scope (forced_scope (run_ops [Assign x v])) st = Inr (st2\<lparr>localvars := localvars st, forcelocal := forcelocal st\<rparr>)"
    using forced_scopeI [of "forced_scope (run_ops [Assign x v])" st "st2\<lparr>localvars := []\<rparr>" "st2\<lparr>localvars := [], forcelocal := forcelocal st\<rparr>"] 2(3,4)
    by (simp add: sta_def poplocalvars_def)
  moreover have "has_text x i v (st2\<lparr>localvars := localvars st, forcelocal := forcelocal st\<rparr>)" using 2(2) by (simp add: has_text_def)
  moreover have "lookupvar st x = None" using assms(1) by (simp add: lookupvar_def)
  ultimately show ?thesis using has_text_lookup [OF _ eq(2)] by blast
qed

theorem nested_substitution_leaks_witness:
  "\<exists>st'. forced_scope (forced_scope (run_ops [Assign ''x'' ''5''])) empty_vars = Inr st' \<and> lookupvar empty_vars ''x'' = None \<and> lookupvar st' ''x'' = Some ''5''"
proof (rule nested_substitution_leaks)
  show "find_var empty_vars ''x'' = None" by (simp add: empty_vars_def find_var_def)
  show "good_name ''x''" by code_simp
qed simp

text \<open>A local variable with an improper name is accepted, and the end of the scope fails on it.\<close>

lemma improper_local_fails:
  "case call_function [] [Local ''a.b=1''] empty_vars of Inl (e, st) \<Rightarrow> e = Bad_name ''a.b'' | Inr st \<Rightarrow> False"
  by code_simp

end
