(* ===== verification/Sh_Expr.thy ===== *)
theory Sh_Expr
  imports Sh_Arith
begin

text \<open>
  The arithmetic of sh against its grammar: expressions with the precedence of C, their tokens, their
  value, and the proof that the parser computes the value of every expression and evaluates
  nothing that must not be evaluated.
\<close>

subsection \<open>Expressions\<close>

datatype aexp =
    ANum arith_t | AVar string | APar aexp | AUn int aexp | ABin int aexp aexp
  | AAnd aexp aexp | AOr aexp aexp | ACond aexp aexp aexp | AAssign int string aexp

type_synonym tok = "int \<times> yystype option"

fun toks :: "aexp \<Rightarrow> tok list" where
  "toks (ANum v) = [(ARITH_NUM, Some (YVal v))]"
| "toks (AVar x) = [(ARITH_VAR, Some (YName x))]"
| "toks (APar e) = (ARITH_LPAREN, None) # toks e @ [(ARITH_RPAREN, None)]"
| "toks (AUn op e) = (op, None) # toks e"
| "toks (ABin op a b) = toks a @ (op, None) # toks b"
| "toks (AAnd a b) = toks a @ (ARITH_AND, None) # toks b"
| "toks (AOr a b) = toks a @ (ARITH_OR, None) # toks b"
| "toks (ACond a b c) = toks a @ (ARITH_QMARK, None) # toks b @ (ARITH_COLON, None) # toks c"
| "toks (AAssign op x e) = (ARITH_VAR, Some (YName x)) # (op, None) # toks e"

text \<open>The level of the grammar an expression belongs to, and the expressions of the grammar.\<close>

fun level :: "aexp \<Rightarrow> int" where
  "level (ABin op a b) = arith_prec op + 1"
| "level (AAnd a b) = 9"
| "level (AOr a b) = 10"
| "level (ACond a b c) = 11"
| "level (AAssign op x e) = 12"
| "level _ = 0"

definition is_unary :: "int \<Rightarrow> bool" where
  "is_unary op \<longleftrightarrow> op = ARITH_ADD \<or> op = ARITH_SUB \<or> op = ARITH_NOT \<or> op = ARITH_BNOT"

fun wf_aexp :: "aexp \<Rightarrow> bool" where
  "wf_aexp (ANum v) = True"
| "wf_aexp (AVar x) = True"
| "wf_aexp (APar e) = wf_aexp e"
| "wf_aexp (AUn op e) = (is_unary op \<and> wf_aexp e \<and> level e = 0)"
| "wf_aexp (ABin op a b) =
     (is_binop op \<and> wf_aexp a \<and> wf_aexp b \<and> level a \<le> arith_prec op + 1 \<and> level b \<le> arith_prec op)"
| "wf_aexp (AAnd a b) = (wf_aexp a \<and> wf_aexp b \<and> level a \<le> 8 \<and> level b \<le> 9)"
| "wf_aexp (AOr a b) = (wf_aexp a \<and> wf_aexp b \<and> level a \<le> 9 \<and> level b \<le> 10)"
| "wf_aexp (ACond a b c) = (wf_aexp a \<and> wf_aexp b \<and> wf_aexp c \<and> level a \<le> 10 \<and> level c \<le> 11)"
| "wf_aexp (AAssign op x e) = (is_assign op \<and> wf_aexp e)"

fun unary_value :: "int \<Rightarrow> arith_t \<Rightarrow> arith_t" where
  "unary_value op v =
     (if op = ARITH_ADD then v else if op = ARITH_SUB then - v
      else if op = ARITH_NOT then of_truth (v = 0) else NOT v)"

fun value_of :: "sh_env \<Rightarrow> aexp \<Rightarrow> sh_vars \<Rightarrow> arith_error + (arith_t \<times> sh_vars)" where
  "value_of g (ANum v) vars = Inr (v, vars)"
| "value_of g (AVar x) vars = bind_result (arith_lookupvarint g x vars) (\<lambda>v. Inr (v, vars))"
| "value_of g (APar e) vars = value_of g e vars"
| "value_of g (AUn op e) vars = bind_result (value_of g e vars) (\<lambda>(v, vars). Inr (unary_value op v, vars))"
| "value_of g (ABin op a b) vars =
     bind_result (value_of g a vars) (\<lambda>(v, vars).
     bind_result (value_of g b vars) (\<lambda>(w, vars).
     bind_result (do_binop op v w) (\<lambda>r. Inr (r, vars))))"
| "value_of g (AAnd a b) vars =
     bind_result (value_of g a vars) (\<lambda>(v, vars).
     if v = 0 then Inr (0, vars)
     else bind_result (value_of g b vars) (\<lambda>(w, vars). Inr (of_truth (w \<noteq> 0), vars)))"
| "value_of g (AOr a b) vars =
     bind_result (value_of g a vars) (\<lambda>(v, vars).
     if v \<noteq> 0 then Inr (1, vars)
     else bind_result (value_of g b vars) (\<lambda>(w, vars). Inr (of_truth (w \<noteq> 0), vars)))"
| "value_of g (ACond a b c) vars =
     bind_result (value_of g a vars) (\<lambda>(v, vars).
     if v \<noteq> 0 then value_of g b vars else value_of g c vars)"
| "value_of g (AAssign op x e) vars =
     bind_result (value_of g e vars) (\<lambda>(v, vars). assign_var g op x v vars)"

subsection \<open>The token stream\<close>

fun lexes :: "string \<Rightarrow> tok list \<Rightarrow> bool" where
  "lexes buf [] = (yylex buf = (0, None, []))"
| "lexes buf (t # ts) = (case yylex buf of (c, v, r) \<Rightarrow> (c, v) = t \<and> lexes r ts)"

definition hcode :: "tok list \<Rightarrow> int" where
  "hcode ts = (case ts of [] \<Rightarrow> 0 | t # _ \<Rightarrow> fst t)"

definition hval :: "tok list \<Rightarrow> yystype \<Rightarrow> bool" where
  "hval ts y \<longleftrightarrow> (case ts of [] \<Rightarrow> True | t # _ \<Rightarrow> (\<forall>v. snd t = Some v \<longrightarrow> y = v))"

lemma hcode_Cons [simp]: "hcode (t # ts) = fst t" "hcode [] = 0" "hcode ((c, v) # ts) = c"
  by (simp_all add: hcode_def)

lemma hval_Cons [simp]: "hval ((c, Some v) # ts) y \<longleftrightarrow> y = v" "hval ((c, None) # ts) y" "hval [] y"
  by (auto simp: hval_def)

lemma yylex_end: "yylex [] = (0, None, [])"
  by (simp add: yylex_def)

lemma next_token_lexes:
  assumes "lexes (arith_buf s) ts"
  obtains s' where "next_token s = (hcode ts, s')" "lexes (arith_buf s') (tl ts)" "hval ts (yylval s')"
    "sh_vars s' = sh_vars s" "last_token s' = last_token s"
proof (cases ts)
  case Nil
  then have "yylex (arith_buf s) = (0, None, [])" using assms by simp
  then show ?thesis using that [of "s\<lparr>arith_buf := []\<rparr>"] Nil by (simp add: next_token_def yylex_end)
next
  case (Cons t ts')
  obtain c v r where y: "yylex (arith_buf s) = (c, v, r)" by (cases "yylex (arith_buf s)")
  then have "t = (c, v)" "lexes r ts'" using assms Cons by auto
  then show ?thesis
    using that [of "s\<lparr>arith_buf := r, yylval := (case v of None \<Rightarrow> yylval s | Some y \<Rightarrow> y)\<rparr>"] Cons y
    by (auto simp: next_token_def hval_def)
qed

text \<open>
  The state after a token was read ahead, and the results: \<open>at r s\<close> says that the tokens \<open>r\<close> are left,
  of which the first is the last token; \<open>gives\<close> that a result is the value of the expression with
  \<open>r\<close> left, or, when evaluation is suppressed, any value with no effect.
\<close>

definition at :: "tok list \<Rightarrow> arith_state \<Rightarrow> bool" where
  "at r s \<longleftrightarrow> last_token s = hcode r \<and> lexes (arith_buf s) (tl r)"

definition gives :: "bool \<Rightarrow> arith_error + (arith_t \<times> sh_vars) \<Rightarrow> tok list \<Rightarrow> sh_vars \<Rightarrow> arith_result \<Rightarrow> bool" where
  "gives noeval val r vars res \<longleftrightarrow>
     (if noeval then \<exists>v s. res = Inr (v, s) \<and> at r s \<and> sh_vars s = vars
      else case val of
        Inl e \<Rightarrow> res = Inl e
      | Inr (v, vars') \<Rightarrow> \<exists>s. res = Inr (v, s) \<and> at r s \<and> sh_vars s = vars')"

text \<open>Two tokens of lookahead, as primary, binop and the others are called, and one, for assignment.\<close>

definition ahead2 :: "tok list \<Rightarrow> int \<Rightarrow> yystype \<Rightarrow> int \<Rightarrow> arith_state \<Rightarrow> bool" where
  "ahead2 ts token val op s \<longleftrightarrow> token = hcode ts \<and> hval ts val \<and> op = hcode (tl ts) \<and>
     hval (tl ts) (yylval s) \<and> lexes (arith_buf s) (tl (tl ts))"

definition ahead1 :: "tok list \<Rightarrow> int \<Rightarrow> arith_state \<Rightarrow> bool" where
  "ahead1 ts var s \<longleftrightarrow> var = hcode ts \<and> hval ts (yylval s) \<and> lexes (arith_buf s) (tl ts)"

lemma next_ahead1:
  assumes "lexes (arith_buf s) ts"
  obtains t s' where "next_token s = (t, s')" "ahead1 ts t s'" "sh_vars s' = sh_vars s" "last_token s' = last_token s"
proof -
  obtain s' where "next_token s = (hcode ts, s')" "lexes (arith_buf s') (tl ts)" "hval ts (yylval s')"
    "sh_vars s' = sh_vars s" "last_token s' = last_token s" using next_token_lexes [OF assms] .
  with that [of "hcode ts" s'] show ?thesis by (simp add: ahead1_def)
qed

lemma ahead1_ahead2:
  assumes "ahead1 ts t s"
  obtains op s' where "next_token s = (op, s')" "ahead2 ts t (yylval s) op s'" "sh_vars s' = sh_vars s"
    "last_token s' = last_token s"
proof -
  obtain s' where "next_token s = (hcode (tl ts), s')" "lexes (arith_buf s') (tl (tl ts))" "hval (tl ts) (yylval s')"
    "sh_vars s' = sh_vars s" "last_token s' = last_token s"
    using next_token_lexes [of s "tl ts"] assms by (auto simp: ahead1_def)
  with that [of "hcode (tl ts)" s'] assms show ?thesis by (simp add: ahead1_def ahead2_def)
qed

lemma next_ahead2:
  assumes "lexes (arith_buf s) ts"
  obtains t s1 op s2 where "next_token s = (t, s1)" "next_token s1 = (op, s2)" "ahead2 ts t (yylval s1) op s2"
    "sh_vars s2 = sh_vars s"
proof -
  obtain t s1 where 1: "next_token s = (t, s1)" "ahead1 ts t s1" "sh_vars s1 = sh_vars s" using next_ahead1 [OF assms] .
  obtain op s2 where "next_token s1 = (op, s2)" "ahead2 ts t (yylval s1) op s2" "sh_vars s2 = sh_vars s1"
    using ahead1_ahead2 [OF 1(2)] .
  with that 1 show ?thesis by simp
qed

subsection \<open>Sequencing\<close>

lemma gives_bind:
  assumes "gives noeval va r1 vars res1"
    and "\<And>e. \<not> noeval \<Longrightarrow> va = Inl e \<Longrightarrow> val = Inl e"
    and "\<And>v s1. at r1 s1 \<Longrightarrow> noeval \<Longrightarrow> sh_vars s1 = vars \<Longrightarrow> gives True val r vars (f (v, s1))"
    and "\<And>v s1. at r1 s1 \<Longrightarrow> \<not> noeval \<Longrightarrow> va = Inr (v, sh_vars s1) \<Longrightarrow> gives False val r vars (f (v, s1))"
  shows "gives noeval val r vars (bind_result res1 f)"
proof (cases noeval)
  case True
  then obtain v s1 where "res1 = Inr (v, s1)" "at r1 s1" "sh_vars s1 = vars" using assms(1) by (auto simp: gives_def)
  then show ?thesis using assms(3) True by simp
next
  case False
  show ?thesis
  proof (cases va)
    case (Inl e)
    then show ?thesis using assms(1) assms(2) [OF False Inl] False by (simp add: gives_def)
  next
    case (Inr p)
    obtain v vars' where p: "p = (v, vars')" by fastforce
    then obtain s1 where "res1 = Inr (v, s1)" "at r1 s1" "sh_vars s1 = vars'"
      using assms(1) False Inr by (auto simp: gives_def)
    then show ?thesis using assms(4) [of s1 v] False Inr p by simp
  qed
qed

lemma gives_return: "at r s \<Longrightarrow> (if noeval then sh_vars s = vars else val = Inr (v, sh_vars s)) \<Longrightarrow> gives noeval val r vars (Inr (v, s))"
  by (auto simp: gives_def)

lemma gives_map:
  assumes "gives noeval va r vars res1"
    and "\<not> noeval \<Longrightarrow> val = bind_result va (\<lambda>(v, w). Inr (h v, w))"
  shows "gives noeval val r vars (bind_result res1 (\<lambda>(v, s). Inr (h v, s)))"
  using assms(2) by (intro gives_bind [OF assms(1)]) (auto intro!: gives_return)

definition parses2 :: "sh_env \<Rightarrow> (int \<Rightarrow> yystype \<Rightarrow> int \<Rightarrow> arith_call) \<Rightarrow> nat \<Rightarrow> (int \<Rightarrow> bool) \<Rightarrow> aexp \<Rightarrow> bool" where
  "parses2 g F c stop e \<longleftrightarrow> (\<forall>k r token val op noeval s. ahead2 (toks e @ r) token val op s \<longrightarrow>
     6 * length (toks e @ r) + c \<le> k \<longrightarrow> stop (hcode r) \<longrightarrow>
     gives noeval (value_of g e (sh_vars s)) r (sh_vars s) (parse g k (F token val op) noeval s))"

lemma parses2D:
  "parses2 g F c stop e \<Longrightarrow> ahead2 (toks e @ r) token val op s \<Longrightarrow> 6 * length (toks e @ r) + c \<le> k \<Longrightarrow>
   stop (hcode r) \<Longrightarrow> gives noeval (value_of g e (sh_vars s)) r (sh_vars s) (parse g k (F token val op) noeval s)"
  by (simp add: parses2_def)

definition parses1 :: "sh_env \<Rightarrow> aexp \<Rightarrow> bool" where
  "parses1 g e \<longleftrightarrow> (\<forall>k r var noeval s. ahead1 (toks e @ r) var s \<longrightarrow>
     6 * length (toks e @ r) + 6 \<le> k \<longrightarrow> hcode r \<in> {0, ARITH_RPAREN, ARITH_COLON} \<longrightarrow>
     gives noeval (value_of g e (sh_vars s)) r (sh_vars s) (parse g k (Assignment var) noeval s))"

lemma parses1D:
  "parses1 g e \<Longrightarrow> ahead1 (toks e @ r) var s \<Longrightarrow> 6 * length (toks e @ r) + 6 \<le> k \<Longrightarrow>
   hcode r \<in> {0, ARITH_RPAREN, ARITH_COLON} \<Longrightarrow>
   gives noeval (value_of g e (sh_vars s)) r (sh_vars s) (parse g k (Assignment var) noeval s)"
  unfolding parses1_def by blast

definition stop_bin :: "int \<Rightarrow> int \<Rightarrow> bool" where
  "stop_bin p h \<longleftrightarrow> \<not> (is_binop h \<and> arith_prec h < p)"

definition stop_and :: "int \<Rightarrow> bool" where "stop_and h \<longleftrightarrow> \<not> is_binop h \<and> h \<noteq> ARITH_AND"
definition stop_or :: "int \<Rightarrow> bool" where "stop_or h \<longleftrightarrow> stop_and h \<and> h \<noteq> ARITH_OR"
definition stop_cond :: "int \<Rightarrow> bool" where "stop_cond h \<longleftrightarrow> stop_or h \<and> h \<noteq> ARITH_QMARK"

lemma arith_prec_range [simp]: "0 \<le> arith_prec op" "arith_prec op < 8" "arith_prec op < 12"
  by (simp_all add: arith_prec_def)

lemma toks_ne: "toks e \<noteq> []"
  by (cases e) auto

lemma level_range: "wf_aexp e \<Longrightarrow> 0 \<le> level e \<and> level e \<le> 12"
  by (cases e) (auto simp: add1_zle_eq)

subsection \<open>Primaries\<close>

lemma at_next: "at ((c, v) # r) s \<Longrightarrow> last_token s = c \<and> lexes (arith_buf s) r"
  by (simp add: at_def)

lemma primary_paren:
  assumes "parses1 g e" shows "parses2 g Primary 1 (\<lambda>_. True) (APar e)"
  unfolding parses2_def
proof (intro allI impI)
  fix k r token val op noeval s
  assume a: "ahead2 (toks (APar e) @ r) token val op s" and k: "6 * length (toks (APar e) @ r) + 1 \<le> k"
  let ?r1 = "(ARITH_RPAREN, None) # r"
  obtain k' where k': "k = Suc k'" "6 * length (toks e @ ?r1) + 6 \<le> k'" using k by (cases k) auto
  have t: "token = ARITH_LPAREN" and a1: "ahead1 (toks e @ ?r1) op s" using a by (simp_all add: ahead2_def ahead1_def)
  have g1: "gives noeval (value_of g e (sh_vars s)) ?r1 (sh_vars s) (parse g k' (Assignment op) noeval s)"
    by (rule parses1D [OF assms a1 k'(2)]) simp
  have close: "\<exists>s2. (case next_token s1 of (t, s) \<Rightarrow> Inr (v, s\<lparr>last_token := t\<rparr>)) = (Inr (v, s2) :: arith_result) \<and> at r s2 \<and> sh_vars s2 = sh_vars s1"
    if at: "at ?r1 s1" for v s1
  proof -
    obtain s2 where "next_token s1 = (hcode r, s2)" "lexes (arith_buf s2) (tl r)" "sh_vars s2 = sh_vars s1"
      using next_token_lexes [of s1 r] at_next [OF at] by metis
    then show ?thesis by (simp add: at_def)
  qed
  have eq: "parse g k (Primary token val op) noeval s =
      bind_result (parse g k' (Assignment op) noeval s) (\<lambda>(result, s).
        if last_token s \<noteq> ARITH_RPAREN then Inl Expecting_close
        else let (t, s) = next_token s in Inr (result, s\<lparr>last_token := t\<rparr>))"
    by (simp add: k'(1) t primary_def)
  show "gives noeval (value_of g (APar e) (sh_vars s)) r (sh_vars s) (parse g k (Primary token val op) noeval s)"
    unfolding eq
  proof (rule gives_bind [OF g1], goal_cases)
    case (2 v s1)
    then show ?case using close [OF 2(1), of v] at_next [OF 2(1)] by (auto simp: Let_def gives_def)
  next
    case (3 v s1)
    then show ?case using close [OF 3(1), of v] at_next [OF 3(1)] by (auto simp: Let_def gives_def)
  qed simp
qed

lemma primary_unary:
  assumes "parses2 g Primary 1 (\<lambda>_. True) e" "is_unary u"
  shows "parses2 g Primary 1 (\<lambda>_. True) (AUn u e)"
  unfolding parses2_def
proof (intro allI impI)
  fix k r token val op noeval s
  assume a: "ahead2 (toks (AUn u e) @ r) token val op s" and k: "6 * length (toks (AUn u e) @ r) + 1 \<le> k"
  obtain k' where k': "k = Suc k'" "6 * length (toks e @ r) + 1 \<le> k'" using k by (cases k) auto
  have t: "token = u" and a1: "ahead1 (toks e @ r) op s" using a by (simp_all add: ahead2_def ahead1_def)
  obtain op' s' where s': "next_token s = (op', s')" "ahead2 (toks e @ r) op (yylval s) op' s'" "sh_vars s' = sh_vars s"
    using ahead1_ahead2 [OF a1] .
  have g1: "gives noeval (value_of g e (sh_vars s)) r (sh_vars s) (parse g k' (Primary op (yylval s) op') noeval s')"
    using parses2D [OF assms(1) s'(2) k'(2)] s'(3) by simp
  have e: "parse g k (Primary token val op) noeval s =
      bind_result (parse g k' (Primary op (yylval s) op') noeval s') (\<lambda>(v, s). Inr (unary_value u v, s))"
    using assms(2) s'(1)
    by (cases "parse g k' (Primary op (yylval s) op') noeval s'") (auto simp: k'(1) t primary_def is_unary_def)
  show "gives noeval (value_of g (AUn u e) (sh_vars s)) r (sh_vars s) (parse g k (Primary token val op) noeval s)"
    unfolding e by (rule gives_map [OF g1]) simp
qed

lemma primary_leaf:
  "parses2 g Primary 1 (\<lambda>_. True) (ANum v)" "parses2 g Primary 1 (\<lambda>_. True) (AVar x)"
proof -
  have k: "6 * length (ts @ r) + 1 \<le> k \<Longrightarrow> \<exists>k'. k = Suc k'" for k ts and r :: "tok list" by (cases k) auto
  show "parses2 g Primary 1 (\<lambda>_. True) (ANum v)"
    unfolding parses2_def
  proof (intro allI impI)
    fix k r token val op noeval s
    assume a: "ahead2 (toks (ANum v) @ r) token val op s" and "6 * length (toks (ANum v) @ r) + 1 \<le> k"
    then obtain k' where k': "k = Suc k'" using k by blast
    have "at r (s\<lparr>last_token := op\<rparr>)" "token = ARITH_NUM" "val = YVal v" using a by (simp_all add: ahead2_def at_def)
    then show "gives noeval (value_of g (ANum v) (sh_vars s)) r (sh_vars s) (parse g k (Primary token val op) noeval s)"
      by (simp add: k' primary_def union_val_def gives_def)
  qed
  show "parses2 g Primary 1 (\<lambda>_. True) (AVar x)"
    unfolding parses2_def
  proof (intro allI impI)
    fix k r token val op noeval s
    assume a: "ahead2 (toks (AVar x) @ r) token val op s" and "6 * length (toks (AVar x) @ r) + 1 \<le> k"
    then obtain k' where k': "k = Suc k'" using k by blast
    have "at r (s\<lparr>last_token := op\<rparr>)" "token = ARITH_VAR" "val = YName x" using a by (simp_all add: ahead2_def at_def)
    then show "gives noeval (value_of g (AVar x) (sh_vars s)) r (sh_vars s) (parse g k (Primary token val op) noeval s)"
      by (cases "arith_lookupvarint g x (sh_vars s)") (simp_all add: k' primary_def union_name_def gives_def)
  qed
qed

subsection \<open>Binary operators\<close>

text \<open>
  The operand of an operator with precedence \<open>p\<close>: a primary, followed by the operators that bind
  more tightly. This is the middle of binop2, and all of binop for the highest number.
\<close>

definition continue :: "arith_rec \<Rightarrow> int \<Rightarrow> bool \<Rightarrow> arith_t \<times> arith_state \<Rightarrow> arith_result" where
  "continue call p noeval = (\<lambda>(b, s). if is_binop (last_token s) \<and> arith_prec (last_token s) < p
     then call (Binop2 b (last_token s) p) noeval s else Inr (b, s))"

definition climb :: "arith_rec \<Rightarrow> int \<Rightarrow> int \<Rightarrow> yystype \<Rightarrow> int \<Rightarrow> bool \<Rightarrow> arith_state \<Rightarrow> arith_result" where
  "climb call p token val op noeval s =
     bind_result (call (Primary token val op) noeval s) (continue call p noeval)"

lemma binop_climb: "binop call token val op noeval s = climb call 8 token val op noeval s"
  by (auto simp: binop_def climb_def continue_def bind_result_def split: sum.split)

lemma binop2_climb:
  assumes "next_token s = (token, s1)" "next_token s1 = (t, s2)"
  shows "binop2 call a op p noeval s =
    bind_result (climb call (arith_prec op) token (yylval s1) t noeval s2) (\<lambda>(b, s).
    bind_result (if noeval then Inr b else do_binop op a b) (\<lambda>a. continue call p noeval (a, s)))"
proof -
  have 1: "(if is_binop l \<and> higher_prec l op then x else y) = (if is_binop l \<and> arith_prec l < arith_prec op then x else y)"
    for l and x y :: arith_result by (simp add: higher_prec_def)
  have 2: "(if \<not> is_binop l \<or> p \<le> arith_prec l then x else y) = (if is_binop l \<and> arith_prec l < p then y else x)"
    for l and x y :: arith_result by auto
  have 3: "bind_result (bind_result x f) h = bind_result x (\<lambda>a. bind_result (f a) h)"
    for x :: arith_result and f and h :: "arith_t \<times> arith_state \<Rightarrow> arith_result" by (cases x) auto
  show ?thesis
    unfolding binop2_def assms Let_def prod.case climb_def 3
    by (intro arg_cong [of _ _ "bind_result _"]) (auto simp: fun_eq_iff continue_def 1 2 intro!: arg_cong [of _ _ "bind_result _"])
qed

text \<open>An expression is read before an operator that does not bind more tightly than its own.\<close>

definition reads :: "sh_env \<Rightarrow> aexp \<Rightarrow> bool" where
  "reads g e \<longleftrightarrow> (\<forall>p k r token val op noeval s. level e \<le> p \<longrightarrow> ahead2 (toks e @ r) token val op s \<longrightarrow>
     6 * length (toks e @ r) + 1 \<le> k \<longrightarrow> (is_binop (hcode r) \<longrightarrow> level e - 1 \<le> arith_prec (hcode r)) \<longrightarrow>
     (\<exists>res k'. 6 * length r \<le> k' \<and> gives noeval (value_of g e (sh_vars s)) r (sh_vars s) res \<and>
        climb (parse g k) p token val op noeval s = bind_result res (continue (parse g k') p noeval)))"

lemma reads_climb:
  assumes "reads g e" "level e \<le> p" "ahead2 (toks e @ r) token val op s" "6 * length (toks e @ r) + 1 \<le> k"
    and stop: "stop_bin p (hcode r)"
  shows "gives noeval (value_of g e (sh_vars s)) r (sh_vars s) (climb (parse g k) p token val op noeval s)"
proof -
  have "is_binop (hcode r) \<longrightarrow> level e - 1 \<le> arith_prec (hcode r)" using stop assms(2) by (auto simp: stop_bin_def)
  with assms(1-4) obtain res k' where res: "gives noeval (value_of g e (sh_vars s)) r (sh_vars s) res"
    and eq: "climb (parse g k) p token val op noeval s = bind_result res (continue (parse g k') p noeval)"
    unfolding reads_def by blast
  show ?thesis unfolding eq
  proof (rule gives_bind [OF res], goal_cases)
    case (2 v s1)
    then show ?case using stop by (auto simp: continue_def at_def stop_bin_def intro!: gives_return)
  next
    case (3 v s1)
    then show ?case using stop by (auto simp: continue_def at_def stop_bin_def intro!: gives_return)
  qed
qed

lemma reads_primary:
  assumes "parses2 g Primary 1 (\<lambda>_. True) e" shows "reads g e"
  unfolding reads_def
proof (intro allI impI)
  fix p k r token val op noeval s
  assume a: "ahead2 (toks e @ r) token val op s" and k: "6 * length (toks e @ r) + 1 \<le> k"
  have "gives noeval (value_of g e (sh_vars s)) r (sh_vars s) (parse g k (Primary token val op) noeval s)"
    by (rule parses2D [OF assms a k]) simp
  then show "\<exists>res k'. 6 * length r \<le> k' \<and> gives noeval (value_of g e (sh_vars s)) r (sh_vars s) res \<and>
      climb (parse g k) p token val op noeval s = bind_result res (continue (parse g k') p noeval)"
    using k by (intro exI [of _ "parse g k (Primary token val op) noeval s"] exI [of _ k]) (simp add: climb_def)
qed

lemma gives_cases:
  assumes "gives noeval val r vars res"
  obtains (err) e where "\<not> noeval" "val = Inl e" "res = Inl e"
  | (ok) v s where "res = Inr (v, s)" "at r s" "noeval \<Longrightarrow> sh_vars s = vars" "\<not> noeval \<Longrightarrow> val = Inr (v, sh_vars s)"
  using assms by (cases noeval; cases val) (auto simp: gives_def)

lemma gives_eval: "gives False val r vars res = gives False val r vars' res"
  by (simp add: gives_def)

lemma bind_result_assoc: "bind_result (bind_result x f) h = bind_result x (\<lambda>a. bind_result (f a) h)"
  by (cases x) auto

lemma reads_bin_step:
  assumes b: "reads g b" "level b \<le> arith_prec o'"
    and s1: "at ((o', None) # toks b @ r) s1" and k1: "6 * length ((o', None :: yystype option) # toks b @ r) \<le> k1"
    and stop: "is_binop (hcode r) \<longrightarrow> arith_prec o' \<le> arith_prec (hcode r)"
  obtains res k2 where "6 * length r \<le> k2"
    "parse g k1 (Binop2 v o' p) noeval s1 = bind_result res (continue (parse g k2) p noeval)"
    "gives noeval (bind_result (value_of g b (sh_vars s1)) (\<lambda>(w, vars).
       bind_result (do_binop o' v w) (\<lambda>x. Inr (x, vars)))) r (sh_vars s1) res"
proof -
  obtain k2 where k2: "k1 = Suc k2" "6 * length (toks b @ r) + 1 \<le> k2" using k1 by (cases k1) auto
  have "lexes (arith_buf s1) (toks b @ r)" using s1 by (simp add: at_def)
  then obtain t s2 op s3 where n: "next_token s1 = (t, s2)" "next_token s2 = (op, s3)"
    "ahead2 (toks b @ r) t (yylval s2) op s3" "sh_vars s3 = sh_vars s1" using next_ahead2 by metis
  let ?c = "climb (parse g k2) (arith_prec o') t (yylval s2) op noeval s3"
  let ?h = "\<lambda>(b, s). bind_result (if noeval then Inr b else do_binop o' v b) (\<lambda>a. Inr (a, s))"
  have "stop_bin (arith_prec o') (hcode r)" using stop by (auto simp: stop_bin_def)
  then have g1: "gives noeval (value_of g b (sh_vars s1)) r (sh_vars s1) ?c"
    using reads_climb [OF b(1,2) n(3) k2(2)] n(4) by simp
  have "parse g k1 (Binop2 v o' p) noeval s1 = bind_result (bind_result ?c ?h) (continue (parse g k2) p noeval)"
    by (simp add: k2(1) binop2_climb [OF n(1,2)] bind_result_assoc split_def)
  moreover have "gives noeval (bind_result (value_of g b (sh_vars s1)) (\<lambda>(w, vars).
      bind_result (do_binop o' v w) (\<lambda>x. Inr (x, vars)))) r (sh_vars s1) (bind_result ?c ?h)"
  proof (rule gives_bind [OF g1], goal_cases)
    case (3 w s4)
    then show ?case by (cases "do_binop o' v w") (auto simp: gives_def)
  qed (auto intro: gives_return)
  moreover have "6 * length r \<le> k2" using k2(2) by simp
  ultimately show ?thesis using that by blast
qed

lemma reads_bin:
  assumes a: "reads g a" and b: "reads g b" and wf: "wf_aexp (ABin o' a b)"
  shows "reads g (ABin o' a b)"
  unfolding reads_def
proof (intro allI impI)
  fix p k r token val op noeval s
  assume p: "level (ABin o' a b) \<le> p" and ah: "ahead2 (toks (ABin o' a b) @ r) token val op s"
    and k: "6 * length (toks (ABin o' a b) @ r) + 1 \<le> k"
    and stop: "is_binop (hcode r) \<longrightarrow> level (ABin o' a b) - 1 \<le> arith_prec (hcode r)"
  let ?r = "(o', None) # toks b @ r"
  have w: "is_binop o'" "level a \<le> arith_prec o' + 1" "level b \<le> arith_prec o'" using wf by auto
  have pr: "level a \<le> p" "arith_prec o' < p" using p w(2) by auto
  have "\<exists>res k'. 6 * length ?r \<le> k' \<and> gives noeval (value_of g a (sh_vars s)) ?r (sh_vars s) res \<and>
      climb (parse g k) p token val op noeval s = bind_result res (continue (parse g k') p noeval)"
    using a [unfolded reads_def, rule_format, OF pr(1), of ?r token val op s k noeval] ah k w(2) by simp
  then obtain ra k1 where k1: "6 * length ?r \<le> k1" and ga: "gives noeval (value_of g a (sh_vars s)) ?r (sh_vars s) ra"
    and eq: "climb (parse g k) p token val op noeval s = bind_result ra (continue (parse g k1) p noeval)" by blast
  from ga show "\<exists>res k'. 6 * length r \<le> k' \<and> gives noeval (value_of g (ABin o' a b) (sh_vars s)) r (sh_vars s) res \<and>
      climb (parse g k) p token val op noeval s = bind_result res (continue (parse g k') p noeval)"
  proof (cases rule: gives_cases)
    case (err e)
    then show ?thesis unfolding eq
      by (intro exI [of _ "Inl e"] exI [of _ "6 * length r"]) (simp add: gives_def)
  next
    case (ok v s1)
    have st: "is_binop (hcode r) \<longrightarrow> arith_prec o' \<le> arith_prec (hcode r)" using stop by simp
    obtain res k2 where r: "6 * length r \<le> k2"
      "parse g k1 (Binop2 v o' p) noeval s1 = bind_result res (continue (parse g k2) p noeval)"
      "gives noeval (bind_result (value_of g b (sh_vars s1)) (\<lambda>(w, vars).
         bind_result (do_binop o' v w) (\<lambda>x. Inr (x, vars)))) r (sh_vars s1) res"
      using reads_bin_step [OF b w(3) ok(2) k1 st] .
    have "continue (parse g k1) p noeval (v, s1) = parse g k1 (Binop2 v o' p) noeval s1"
      using ok(2) w(1) pr(2) by (simp add: continue_def at_def)
    moreover have "gives noeval (value_of g (ABin o' a b) (sh_vars s)) r (sh_vars s) res"
      using r(3) ok(3,4) gives_eval by (cases noeval) (auto simp: gives_def)
    ultimately show ?thesis unfolding eq ok(1) using r(1,2) by auto
  qed
qed

lemma binop_reads:
  assumes "reads g e" "level e \<le> 8" shows "parses2 g Binop 2 (\<lambda>h. \<not> is_binop h) e"
  unfolding parses2_def
proof (intro allI impI)
  fix k r token val op noeval s
  assume a: "ahead2 (toks e @ r) token val op s" and k: "6 * length (toks e @ r) + 2 \<le> k" and st: "\<not> is_binop (hcode r)"
  obtain k' where k': "k = Suc k'" "6 * length (toks e @ r) + 1 \<le> k'" using k by (cases k) auto
  have "stop_bin 8 (hcode r)" using st by (simp add: stop_bin_def)
  from reads_climb [OF assms a k'(2) this]
  show "gives noeval (value_of g e (sh_vars s)) r (sh_vars s) (parse g k (Binop token val op) noeval s)"
    by (simp add: k'(1) binop_climb)
qed

subsection \<open>Logical operators\<close>

lemma and_low:
  assumes "parses2 g Binop 2 (\<lambda>h. \<not> is_binop h) e" shows "parses2 g And 3 stop_and e"
  unfolding parses2_def
proof (intro allI impI)
  fix k r token val op noeval s
  assume a: "ahead2 (toks e @ r) token val op s" and k: "6 * length (toks e @ r) + 3 \<le> k" and st: "stop_and (hcode r)"
  obtain k' where k': "k = Suc k'" "6 * length (toks e @ r) + 2 \<le> k'" using k by (cases k) auto
  have "gives noeval (value_of g e (sh_vars s)) r (sh_vars s) (parse g k' (Binop token val op) noeval s)"
    using parses2D [OF assms a k'(2)] st by (simp add: stop_and_def)
  then show "gives noeval (value_of g e (sh_vars s)) r (sh_vars s) (parse g k (And token val op) noeval s)"
    by (cases rule: gives_cases) (use st in \<open>auto simp: k'(1) and_expr_def at_def stop_and_def gives_def\<close>)
qed

lemma or_low:
  assumes "parses2 g And 3 stop_and e" shows "parses2 g Or 4 stop_or e"
  unfolding parses2_def
proof (intro allI impI)
  fix k r token val op noeval s
  assume a: "ahead2 (toks e @ r) token val op s" and k: "6 * length (toks e @ r) + 4 \<le> k" and st: "stop_or (hcode r)"
  obtain k' where k': "k = Suc k'" "6 * length (toks e @ r) + 3 \<le> k'" using k by (cases k) auto
  have "gives noeval (value_of g e (sh_vars s)) r (sh_vars s) (parse g k' (And token val op) noeval s)"
    using parses2D [OF assms a k'(2)] st by (simp add: stop_or_def)
  then show "gives noeval (value_of g e (sh_vars s)) r (sh_vars s) (parse g k (Or token val op) noeval s)"
    by (cases rule: gives_cases) (use st in \<open>auto simp: k'(1) or_expr_def at_def stop_or_def gives_def\<close>)
qed

lemma cond_low:
  assumes "parses2 g Or 4 stop_or e" shows "parses2 g Cond 5 stop_cond e"
  unfolding parses2_def
proof (intro allI impI)
  fix k r token val op noeval s
  assume a: "ahead2 (toks e @ r) token val op s" and k: "6 * length (toks e @ r) + 5 \<le> k" and st: "stop_cond (hcode r)"
  obtain k' where k': "k = Suc k'" "6 * length (toks e @ r) + 4 \<le> k'" using k by (cases k) auto
  have "gives noeval (value_of g e (sh_vars s)) r (sh_vars s) (parse g k' (Or token val op) noeval s)"
    using parses2D [OF assms a k'(2)] st by (simp add: stop_cond_def)
  then show "gives noeval (value_of g e (sh_vars s)) r (sh_vars s) (parse g k (Cond token val op) noeval s)"
    by (cases rule: gives_cases) (use st in \<open>auto simp: k'(1) cond_def at_def stop_cond_def gives_def\<close>)
qed

lemma and_and:
  assumes A: "parses2 g Binop 2 (\<lambda>h. \<not> is_binop h) a" and B: "parses2 g And 3 stop_and b"
  shows "parses2 g And 3 stop_and (AAnd a b)"
  unfolding parses2_def
proof (intro allI impI)
  fix k r token val op noeval s
  assume ah: "ahead2 (toks (AAnd a b) @ r) token val op s" and k: "6 * length (toks (AAnd a b) @ r) + 3 \<le> k"
    and st: "stop_and (hcode r)"
  let ?r = "(ARITH_AND, None) # toks b @ r"
  obtain k' where k': "k = Suc k'" "6 * length (toks a @ ?r) + 2 \<le> k'" "6 * length (toks b @ r) + 3 \<le> k'"
    using k by (cases k) auto
  have ga: "gives noeval (value_of g a (sh_vars s)) ?r (sh_vars s) (parse g k' (Binop token val op) noeval s)"
    using ah by (intro parses2D [OF A _ k'(2)]) (simp_all add: is_binop_def)
  from ga show "gives noeval (value_of g (AAnd a b) (sh_vars s)) r (sh_vars s) (parse g k (And token val op) noeval s)"
  proof (cases rule: gives_cases)
    case (err e)
    then show ?thesis by (simp add: k'(1) and_expr_def gives_def)
  next
    case (ok v s1)
    have l: "last_token s1 = ARITH_AND" "lexes (arith_buf s1) (toks b @ r)" using ok(2) by (simp_all add: at_def)
    obtain t s2 op' s3 where n: "next_token s1 = (t, s2)" "next_token s2 = (op', s3)"
      "ahead2 (toks b @ r) t (yylval s2) op' s3" "sh_vars s3 = sh_vars s1" using next_ahead2 [OF l(2)] .
    let ?res = "parse g k' (And t (yylval s2) op') (noeval \<or> v = 0) s3"
    have gb: "gives (noeval \<or> v = 0) (value_of g b (sh_vars s1)) r (sh_vars s1) ?res"
      using parses2D [OF B n(3) k'(3) st] n(4) by simp
    have eq: "parse g k (And token val op) noeval s = bind_result ?res (\<lambda>(w, s). Inr (of_truth (v \<noteq> 0 \<and> w \<noteq> 0), s))"
      by (simp add: k'(1) and_expr_def ok(1) l(1) n(1,2))
    show ?thesis
    proof (cases noeval)
      case True
      with gb ok(3) show ?thesis unfolding eq by (auto simp: gives_def)
    next
      case False
      note va = ok(4) [OF False]
      show ?thesis unfolding eq
      proof (cases "v = 0")
        case True
        with gb False va show "gives noeval (value_of g (AAnd a b) (sh_vars s)) r (sh_vars s)
            (bind_result ?res (\<lambda>(w, s). Inr (of_truth (v \<noteq> 0 \<and> w \<noteq> 0), s)))" by (auto simp: gives_def of_truth_def)
      next
        case v: False
        have "gives False (value_of g b (sh_vars s1)) r (sh_vars s1) ?res" using gb False v by simp
        then show "gives noeval (value_of g (AAnd a b) (sh_vars s)) r (sh_vars s)
            (bind_result ?res (\<lambda>(w, s). Inr (of_truth (v \<noteq> 0 \<and> w \<noteq> 0), s)))"
          by (cases rule: gives_cases) (use False va v in \<open>auto simp: gives_def\<close>)
      qed
    qed
  qed
qed

lemma or_or:
  assumes A: "parses2 g And 3 stop_and a" and B: "parses2 g Or 4 stop_or b"
  shows "parses2 g Or 4 stop_or (AOr a b)"
  unfolding parses2_def
proof (intro allI impI)
  fix k r token val op noeval s
  assume ah: "ahead2 (toks (AOr a b) @ r) token val op s" and k: "6 * length (toks (AOr a b) @ r) + 4 \<le> k"
    and st: "stop_or (hcode r)"
  let ?r = "(ARITH_OR, None) # toks b @ r"
  obtain k' where k': "k = Suc k'" "6 * length (toks a @ ?r) + 3 \<le> k'" "6 * length (toks b @ r) + 4 \<le> k'"
    using k by (cases k) auto
  have ga: "gives noeval (value_of g a (sh_vars s)) ?r (sh_vars s) (parse g k' (And token val op) noeval s)"
    using ah by (intro parses2D [OF A _ k'(2)]) (simp_all add: is_binop_def stop_and_def)
  from ga show "gives noeval (value_of g (AOr a b) (sh_vars s)) r (sh_vars s) (parse g k (Or token val op) noeval s)"
  proof (cases rule: gives_cases)
    case (err e)
    then show ?thesis by (simp add: k'(1) or_expr_def gives_def)
  next
    case (ok v s1)
    have l: "last_token s1 = ARITH_OR" "lexes (arith_buf s1) (toks b @ r)" using ok(2) by (simp_all add: at_def)
    obtain t s2 op' s3 where n: "next_token s1 = (t, s2)" "next_token s2 = (op', s3)"
      "ahead2 (toks b @ r) t (yylval s2) op' s3" "sh_vars s3 = sh_vars s1" using next_ahead2 [OF l(2)] .
    let ?res = "parse g k' (Or t (yylval s2) op') (noeval \<or> v \<noteq> 0) s3"
    have gb: "gives (noeval \<or> v \<noteq> 0) (value_of g b (sh_vars s1)) r (sh_vars s1) ?res"
      using parses2D [OF B n(3) k'(3) st] n(4) by simp
    have eq: "parse g k (Or token val op) noeval s = bind_result ?res (\<lambda>(w, s). Inr (of_truth (v \<noteq> 0 \<or> w \<noteq> 0), s))"
      by (simp add: k'(1) or_expr_def ok(1) l(1) n(1,2))
    show ?thesis
    proof (cases noeval)
      case True
      with gb ok(3) show ?thesis unfolding eq by (auto simp: gives_def)
    next
      case False
      note va = ok(4) [OF False]
      show ?thesis unfolding eq
      proof (cases "v = 0")
        case v: False
        with gb False va show "gives noeval (value_of g (AOr a b) (sh_vars s)) r (sh_vars s)
            (bind_result ?res (\<lambda>(w, s). Inr (of_truth (v \<noteq> 0 \<or> w \<noteq> 0), s)))" by (auto simp: gives_def of_truth_def)
      next
        case v: True
        have "gives False (value_of g b (sh_vars s1)) r (sh_vars s1) ?res" using gb False v by simp
        then show "gives noeval (value_of g (AOr a b) (sh_vars s)) r (sh_vars s)
            (bind_result ?res (\<lambda>(w, s). Inr (of_truth (v \<noteq> 0 \<or> w \<noteq> 0), s)))"
          by (cases rule: gives_cases) (use False va v in \<open>auto simp: gives_def\<close>)
      qed
    qed
  qed
qed

subsection \<open>Conditionals and assignments\<close>

lemma cond_cond:
  assumes A: "parses2 g Or 4 stop_or a" and B: "parses1 g b" and C: "parses2 g Cond 5 stop_cond c"
  shows "parses2 g Cond 5 stop_cond (ACond a b c)"
  unfolding parses2_def
proof (intro allI impI)
  fix k r token val op noeval s
  assume ah: "ahead2 (toks (ACond a b c) @ r) token val op s" and k: "6 * length (toks (ACond a b c) @ r) + 5 \<le> k"
    and st: "stop_cond (hcode r)"
  let ?rc = "(ARITH_COLON, None) # toks c @ r"
  let ?rb = "(ARITH_QMARK, None) # toks b @ ?rc"
  obtain k' where k': "k = Suc k'" "6 * length (toks a @ ?rb) + 4 \<le> k'" "6 * length (toks b @ ?rc) + 6 \<le> k'"
    "6 * length (toks c @ r) + 5 \<le> k'" using k by (cases k) auto
  have ga: "gives noeval (value_of g a (sh_vars s)) ?rb (sh_vars s) (parse g k' (Or token val op) noeval s)"
    using ah by (intro parses2D [OF A _ k'(2)]) (simp_all add: is_binop_def stop_or_def stop_and_def)
  let ?G = "\<lambda>res. gives noeval (value_of g (ACond a b c) (sh_vars s)) r (sh_vars s) res"
  from ga show "?G (parse g k (Cond token val op) noeval s)"
  proof (cases rule: gives_cases)
    case (err e)
    then show ?thesis by (simp add: k'(1) cond_def gives_def)
  next
    case (ok v s1)
    have l1: "last_token s1 = ARITH_QMARK" "lexes (arith_buf s1) (toks b @ ?rc)" using ok(2) by (simp_all add: at_def)
    obtain t s2 where n1: "next_token s1 = (t, s2)" "ahead1 (toks b @ ?rc) t s2" "sh_vars s2 = sh_vars s1"
      using next_ahead1 [OF l1(2)] .
    have gb: "gives (noeval \<or> v = 0) (value_of g b (sh_vars s1)) ?rc (sh_vars s1) (parse g k' (Assignment t) (noeval \<or> v = 0) s2)"
      using parses1D [OF B n1(2) k'(3)] n1(3) by simp
    from gb show ?thesis
    proof (cases rule: gives_cases)
      case (err e)
      then show ?thesis using ok by (simp add: k'(1) cond_def l1(1) n1(1) gives_def)
    next
      case b: (ok w s3)
      have l3: "last_token s3 = ARITH_COLON" "lexes (arith_buf s3) (toks c @ r)" using b(2) by (simp_all add: at_def)
      obtain t' s4 op' s5 where n3: "next_token s3 = (t', s4)" "next_token s4 = (op', s5)"
        "ahead2 (toks c @ r) t' (yylval s4) op' s5" "sh_vars s5 = sh_vars s3" using next_ahead2 [OF l3(2)] .
      let ?res = "parse g k' (Cond t' (yylval s4) op') (noeval \<or> v \<noteq> 0) s5"
      have eq: "parse g k (Cond token val op) noeval s = bind_result ?res (\<lambda>(x, s). Inr (if v \<noteq> 0 then w else x, s))"
        by (simp add: k'(1) cond_def ok(1) l1(1) n1(1) b(1) l3(1) n3(1,2))
      have "gives (noeval \<or> v \<noteq> 0) (value_of g c (sh_vars s3)) r (sh_vars s3) ?res"
        using parses2D [OF C n3(3) k'(4) st] n3(4) by simp
      then show ?thesis unfolding eq
        by (cases rule: gives_cases; cases noeval; cases "v = 0") (use ok(3,4) b(3,4) in \<open>auto simp: gives_def\<close>)
    qed
  qed
qed

lemma not_assign_after_var:
  "wf_aexp e \<Longrightarrow> level e \<le> 11 \<Longrightarrow> \<not> is_assign (hcode r) \<Longrightarrow> hcode (toks e) = ARITH_VAR \<Longrightarrow>
   \<not> is_assign (hcode (tl (toks e @ r)))"
proof (induction e arbitrary: r)
  case (ABin op a b)
  have "\<not> is_assign op" "level a \<le> 11" using ABin(3) order_trans [of "level a" "arith_prec op + 1" 11] arith_prec_range(2) [of op]
    by (simp_all add: is_assign_def is_binop_def, linarith+)
  then show ?case using ABin(1) [of "(op, None) # toks b @ r"] ABin(3,6) toks_ne [of a] by (cases "toks a") auto
next
  case (AAnd a b)
  then show ?case using AAnd(1) [of "(ARITH_AND, None) # toks b @ r"] toks_ne [of a] by (cases "toks a") (auto simp: is_assign_def)
next
  case (AOr a b)
  then show ?case using AOr(1) [of "(ARITH_OR, None) # toks b @ r"] toks_ne [of a] by (cases "toks a") (auto simp: is_assign_def)
next
  case (ACond a b c)
  then show ?case using ACond(1) [of "(ARITH_QMARK, None) # toks b @ (ARITH_COLON, None) # toks c @ r"] toks_ne [of a]
    by (cases "toks a") (auto simp: is_assign_def)
qed (auto simp: is_unary_def)

lemma assignment_low:
  assumes C: "parses2 g Cond 5 stop_cond e" and wf: "wf_aexp e" "level e \<le> 11"
  shows "parses1 g e"
  unfolding parses1_def
proof (intro allI impI)
  fix k r var noeval s
  assume a: "ahead1 (toks e @ r) var s" and k: "6 * length (toks e @ r) + 6 \<le> k" and st: "hcode r \<in> {0, ARITH_RPAREN, ARITH_COLON}"
  obtain k' where k': "k = Suc k'" "6 * length (toks e @ r) + 5 \<le> k'" using k by (cases k) auto
  obtain op s' where n: "next_token s = (op, s')" "ahead2 (toks e @ r) var (yylval s) op s'" "sh_vars s' = sh_vars s"
    using ahead1_ahead2 [OF a] .
  have "stop_cond (hcode r)" using st by (auto simp: stop_cond_def stop_or_def stop_and_def is_binop_def)
  from parses2D [OF C n(2) k'(2) this]
  have gc: "gives noeval (value_of g e (sh_vars s)) r (sh_vars s) (parse g k' (Cond var (yylval s) op) noeval s')" using n(3) by simp
  have h: "var = hcode (toks e)" "op = hcode (tl (toks e @ r))" using n(2) toks_ne [of e] by (auto simp: ahead2_def hcode_def split: list.splits)
  have "\<not> is_assign (hcode r)" using st by (auto simp: is_assign_def)
  then have "var = ARITH_VAR \<Longrightarrow> \<not> is_assign op" using not_assign_after_var [OF wf] h by metis
  then have "parse g k (Assignment var) noeval s = parse g k' (Cond var (yylval s) op) noeval s'"
    by (auto simp: k'(1) assignment_def n(1) Let_def)
  with gc show "gives noeval (value_of g e (sh_vars s)) r (sh_vars s) (parse g k (Assignment var) noeval s)" by simp
qed

lemma assignment_assign:
  assumes E: "parses1 g e" and op: "is_assign o'"
  shows "parses1 g (AAssign o' x e)"
  unfolding parses1_def
proof (intro allI impI)
  fix k r var noeval s
  assume a: "ahead1 (toks (AAssign o' x e) @ r) var s" and k: "6 * length (toks (AAssign o' x e) @ r) + 6 \<le> k"
    and st: "hcode r \<in> {0, ARITH_RPAREN, ARITH_COLON}"
  obtain k' where k': "k = Suc k'" "6 * length (toks e @ r) + 6 \<le> k'" using k by (cases k) auto
  obtain op s1 where n: "next_token s = (op, s1)" "ahead2 (toks (AAssign o' x e) @ r) var (yylval s) op s1" "sh_vars s1 = sh_vars s"
    using ahead1_ahead2 [OF a] .
  have v: "var = ARITH_VAR" "yylval s = YName x" "op = o'" "lexes (arith_buf s1) (toks e @ r)" using n(2) by (simp_all add: ahead2_def)
  obtain t s2 where n2: "next_token s1 = (t, s2)" "ahead1 (toks e @ r) t s2" "sh_vars s2 = sh_vars s1" using next_ahead1 [OF v(4)] .
  have ge: "gives noeval (value_of g e (sh_vars s)) r (sh_vars s) (parse g k' (Assignment t) noeval s2)"
    using parses1D [OF E n2(2) k'(2) st] n(3) n2(3) by simp
  have eq: "parse g k (Assignment var) noeval s =
      bind_result (parse g k' (Assignment t) noeval s2) (\<lambda>(result, s).
        if noeval then Inr (result, s)
        else bind_result (assign_var g o' x result (sh_vars s)) (\<lambda>(result, vars). Inr (result, s\<lparr>sh_vars := vars\<rparr>)))"
    using op by (cases "parse g k' (Assignment t) noeval s2") (auto simp: k'(1) assignment_def n(1) v(1,2,3) n2(1) union_name_def)
  show "gives noeval (value_of g (AAssign o' x e) (sh_vars s)) r (sh_vars s) (parse g k (Assignment var) noeval s)"
    unfolding eq
  proof (rule gives_bind [OF ge], goal_cases)
    case (3 v s3)
    then show ?case by (cases "assign_var g o' x v (sh_vars s3)") (auto simp: gives_def at_def)
  qed (auto intro: gives_return)
qed

subsection \<open>The parser computes the value\<close>

definition parsed :: "sh_env \<Rightarrow> aexp \<Rightarrow> bool" where
  "parsed g e \<longleftrightarrow> (level e = 0 \<longrightarrow> parses2 g Primary 1 (\<lambda>_. True) e) \<and> (level e \<le> 8 \<longrightarrow> reads g e) \<and>
     (level e \<le> 8 \<longrightarrow> parses2 g Binop 2 (\<lambda>h. \<not> is_binop h) e) \<and> (level e \<le> 9 \<longrightarrow> parses2 g And 3 stop_and e) \<and>
     (level e \<le> 10 \<longrightarrow> parses2 g Or 4 stop_or e) \<and> (level e \<le> 11 \<longrightarrow> parses2 g Cond 5 stop_cond e) \<and> parses1 g e"

lemma parsed_from_reads:
  assumes "wf_aexp e" "level e \<le> 8" "reads g e" "level e = 0 \<Longrightarrow> parses2 g Primary 1 (\<lambda>_. True) e"
  shows "parsed g e"
  using assms binop_reads [OF assms(3,2)] and_low or_low cond_low assignment_low unfolding parsed_def by simp

lemma parsed_all: "wf_aexp e \<Longrightarrow> parsed g e"
proof (induction e)
  case (ANum v)
  show ?case by (intro parsed_from_reads reads_primary primary_leaf) simp_all
next
  case (AVar x)
  show ?case by (intro parsed_from_reads reads_primary primary_leaf) simp_all
next
  case (APar e)
  then have "parses2 g Primary 1 (\<lambda>_. True) (APar e)" by (intro primary_paren) (simp add: parsed_def)
  then show ?case using APar(2) by (intro parsed_from_reads reads_primary) simp_all
next
  case (AUn u e)
  then have "parses2 g Primary 1 (\<lambda>_. True) (AUn u e)" by (intro primary_unary) (simp_all add: parsed_def)
  then show ?case using AUn(2) by (intro parsed_from_reads reads_primary) simp_all
next
  case (ABin op a b)
  have p: "0 \<le> arith_prec op" "arith_prec op < 8" by simp_all
  have l: "level a \<le> arith_prec op + 1" "level b \<le> arith_prec op" using ABin(3) by simp_all
  have "level a \<le> 8" "level b \<le> 8" using p l by linarith+
  then have "reads g (ABin op a b)" using ABin by (intro reads_bin) (simp_all add: parsed_def)
  moreover have "level (ABin op a b) \<le> 8" "level (ABin op a b) \<noteq> 0" unfolding level.simps using p by linarith+
  ultimately show ?case using ABin(3) by (intro parsed_from_reads) blast+
next
  case (AAnd a b)
  then have "parses2 g And 3 stop_and (AAnd a b)" by (intro and_and) (simp_all add: parsed_def)
  then show ?case using AAnd(3) or_low cond_low assignment_low by (simp add: parsed_def)
next
  case (AOr a b)
  then have "parses2 g Or 4 stop_or (AOr a b)" by (intro or_or) (simp_all add: parsed_def)
  then show ?case using AOr(3) cond_low assignment_low by (simp add: parsed_def)
next
  case (ACond a b c)
  then have "parses2 g Cond 5 stop_cond (ACond a b c)" by (intro cond_cond) (simp_all add: parsed_def)
  then show ?case using ACond(4) assignment_low by (simp add: parsed_def)
next
  case (AAssign op x e)
  then show ?case using assignment_assign by (simp add: parsed_def)
qed

end
