(* ===== verification/Sh_Ends.thy ===== *)
theory Sh_Ends
  imports Sh_Arith
begin

text \<open>
  The parser of the arithmetic ends on every string: the depth of its recursion is bounded by six
  times the number of tokens that are left, and every call that returns has taken a token. On the
  way, a name is only looked up where the lexer stored one.
\<close>

subsection \<open>Every token takes a character\<close>

lemma checkeq_length: "checkeq c buf = (c', v, r) \<Longrightarrow> length r \<le> length buf"
  by (auto simp: checkeq_def split: if_splits)

lemma checkeq_tl: "checkeq c (tl buf) = (c', v, r) \<Longrightarrow> length r \<le> length buf"
  by (drule checkeq_length) simp

lemma yylex_digit_less:
  "isdigit c \<Longrightarrow> (case strtol0 (c # buf) of (v, e) \<Rightarrow> (ARITH_NUM, Some (YVal (word_of_int v)), e)) = (t, y, r) \<Longrightarrow> length r \<le> length buf"
  using strtol0_digit_less [of c buf] by (auto split: prod.splits)

lemma yylex_less:
  assumes "yylex buf = (c, v, r)" "c \<noteq> 0" "c \<noteq> ARITH_BAD" shows "length r < length buf"
proof (cases "dropWhile (\<lambda>c. c = CHR '' '' \<or> c = TAB \<or> c = NL) buf")
  case Nil
  show ?thesis using assms unfolding yylex_def Nil by simp
next
  case (Cons x xs)
  have "length r \<le> length xs"
    using assms length_dropWhile_le [of is_in_name xs] unfolding yylex_def Cons list.case Let_def
    by (auto simp del: One_nat_def dest!: checkeq_length checkeq_tl yylex_digit_less split: if_splits)
  moreover have "length (x # xs) \<le> length buf" using length_dropWhile_le [of _ buf] Cons by metis
  ultimately show ?thesis by simp
qed

lemma checkeq_code: "checkeq c buf = (c', v, r) \<Longrightarrow> c' = c \<or> c' = c + 11"
  by (auto simp: checkeq_def split: if_splits)

lemma yylex_value:
  assumes "yylex buf = (c, v, r)"
  shows "if c = ARITH_VAR then \<exists>n. v = Some (YName n) else if c = ARITH_NUM then \<exists>n. v = Some (YVal n) else v = None"
proof (cases "dropWhile (\<lambda>c. c = CHR '' '' \<or> c = TAB \<or> c = NL) buf")
  case Nil
  show ?thesis using assms unfolding yylex_def Nil by auto
next
  case (Cons x xs)
  show ?thesis
    using assms unfolding yylex_def Cons list.case Let_def
    by (auto simp: checkeq_def split: if_splits prod.splits)
qed

lemma yylex_stuck:
  assumes "yylex buf = (c, v, r)" "c = 0 \<or> c = ARITH_BAD" shows "(if c = 0 then r = [] else r = buf)"
proof (cases "dropWhile (\<lambda>c. c = CHR '' '' \<or> c = TAB \<or> c = NL) buf")
  case Nil
  show ?thesis using assms unfolding yylex_def Nil by simp
next
  case (Cons x xs)
  show ?thesis
    using assms unfolding yylex_def Cons list.case Let_def
    by (auto dest!: checkeq_code split: if_splits prod.splits)
qed

subsection \<open>Weights\<close>

definition tok_size :: "int \<Rightarrow> nat" where
  "tok_size t = (if t = 0 \<or> t = ARITH_BAD then 0 else 1)"

text \<open>yylval holds a name behind a variable and a value behind a number.\<close>

definition named :: "int \<Rightarrow> yystype \<Rightarrow> bool" where
  "named t y \<longleftrightarrow> (t = ARITH_VAR \<longrightarrow> (\<exists>n. y = YName n)) \<and> (t = ARITH_NUM \<longrightarrow> (\<exists>v. y = YVal v))"

lemma next_token_real:
  assumes "next_token s = (t, s')"
  shows "tok_size t + length (arith_buf s') \<le> length (arith_buf s)" "named t (yylval s')" "sh_vars s' = sh_vars s"
proof -
  obtain c v r where y: "yylex (arith_buf s) = (c, v, r)" by (cases "yylex (arith_buf s)")
  then have e: "t = c" "s' = s\<lparr>arith_buf := r, yylval := (case v of None \<Rightarrow> yylval s | Some y \<Rightarrow> y)\<rparr>"
    using assms by (auto simp: next_token_def)
  show "tok_size t + length (arith_buf s') \<le> length (arith_buf s)"
    using yylex_less [OF y] yylex_stuck [OF y] by (auto simp: e tok_size_def split: if_splits)
  show "named t (yylval s')" using yylex_value [OF y] by (auto simp: e named_def)
  show "sh_vars s' = sh_vars s" by (simp add: e)
qed

fun weight :: "arith_call \<Rightarrow> arith_state \<Rightarrow> nat" where
  "weight (Primary token val op) s = tok_size token + tok_size op + length (arith_buf s)"
| "weight (Binop2 a op p) s = Suc (length (arith_buf s))"
| "weight (Binop token val op) s = tok_size token + tok_size op + length (arith_buf s)"
| "weight (And token val op) s = tok_size token + tok_size op + length (arith_buf s)"
| "weight (Or token val op) s = tok_size token + tok_size op + length (arith_buf s)"
| "weight (Cond token val op) s = tok_size token + tok_size op + length (arith_buf s)"
| "weight (Assignment var) s = tok_size var + length (arith_buf s)"

fun offset :: "arith_call \<Rightarrow> nat" where
  "offset (Binop2 a op p) = 0"
| "offset (Primary token val op) = 1"
| "offset (Binop token val op) = 2"
| "offset (And token val op) = 3"
| "offset (Or token val op) = 4"
| "offset (Cond token val op) = 5"
| "offset (Assignment var) = 6"

fun names :: "arith_call \<Rightarrow> arith_state \<Rightarrow> bool" where
  "names (Primary token val op) s = (named token val \<and> named op (yylval s))"
| "names (Binop2 a op p) s = True"
| "names (Binop token val op) s = (named token val \<and> named op (yylval s))"
| "names (And token val op) s = (named token val \<and> named op (yylval s))"
| "names (Or token val op) s = (named token val \<and> named op (yylval s))"
| "names (Cond token val op) s = (named token val \<and> named op (yylval s))"
| "names (Assignment var) s = named var (yylval s)"

definition ends :: "nat \<Rightarrow> arith_result \<Rightarrow> bool" where
  "ends w res \<longleftrightarrow> (case res of Inl e \<Rightarrow> e \<noteq> Stack_out \<and> e \<noteq> Bad_union
     | Inr (v, s) \<Rightarrow> tok_size (last_token s) + length (arith_buf s) < w)"

lemma ends_simps [simp]: "ends w (Inl e) \<longleftrightarrow> e \<noteq> Stack_out \<and> e \<noteq> Bad_union"
  "ends w (Inr (v, s)) \<longleftrightarrow> tok_size (last_token s) + length (arith_buf s) < w"
  by (simp_all add: ends_def)

lemma ends_bind:
  assumes "ends w1 res" "\<And>v s. tok_size (last_token s) + length (arith_buf s) < w1 \<Longrightarrow> ends w (f (v, s))"
  shows "ends w (bind_result res f)"
  using assms by (cases res) auto

lemma ends_pure:
  assumes "res \<noteq> Inl Stack_out" "res \<noteq> Inl Bad_union" "\<And>a. ends w (f a)"
  shows "ends w (bind_result res f)"
  using assms by (cases res) auto

lemma pure_errors:
  "arith_lookupvarint g x vars \<noteq> Inl Stack_out" "arith_lookupvarint g x vars \<noteq> Inl Bad_union"
  "do_binop op a b \<noteq> Inl Stack_out" "do_binop op a b \<noteq> Inl Bad_union"
  by (auto simp: arith_lookupvarint_def do_binop_def Let_def split: option.splits prod.splits)

lemma assign_errors: "assign_var g op x v vars \<noteq> Inl Stack_out" "assign_var g op x v vars \<noteq> Inl Bad_union"
  using pure_errors
  by (auto simp: assign_var_def store_var_def bind_result_def split: sum.splits)

subsection \<open>Every call ends\<close>

definition call_ends :: "arith_rec \<Rightarrow> nat \<Rightarrow> bool" where
  "call_ends call k \<longleftrightarrow> (\<forall>c noeval s. 6 * weight c s + offset c \<le> k \<longrightarrow> names c s \<longrightarrow> ends (weight c s) (call c noeval s))"

lemma call_endsD:
  "call_ends call k \<Longrightarrow> 6 * weight c s + offset c \<le> k \<Longrightarrow> names c s \<Longrightarrow> weight c s \<le> w \<Longrightarrow> ends w (call c noeval s)"
  unfolding call_ends_def ends_def by (fastforce split: sum.splits)

lemma unary_ends:
  assumes k: "call_ends call k" and w: "6 * weight (Primary token val op) s \<le> k" and n: "names (Primary token val op) s"
    and t: "next_token s = (t, s')" "tok_size token = 1"
  shows "ends (weight (Primary token val op) s) (call (Primary op (yylval s) t) noeval s')"
  using w n next_token_real [OF t(1)] t(2) by (intro call_endsD [OF k]) auto

lemma primary_ends:
  assumes k: "call_ends call k" and w: "6 * weight (Primary token val op) s \<le> k" and n: "names (Primary token val op) s"
  shows "ends (weight (Primary token val op) s) (primary g call token val op noeval s)"
proof -
  let ?w = "weight (Primary token val op) s"
  obtain t s' where t: "next_token s = (t, s')" by fastforce
  note u = unary_ends [OF k w n t]
  have map: "ends ?w (bind_result (call (Primary op (yylval s) t) noeval s') (\<lambda>(r, s). Inr (h r, s)))"
    if "tok_size token = 1" for h
    using u [OF that] by (rule ends_bind) simp
  consider (paren) "token = ARITH_LPAREN" | (num) "token = ARITH_NUM" | (var) "token = ARITH_VAR"
    | (un) "token \<in> {ARITH_ADD, ARITH_SUB, ARITH_NOT, ARITH_BNOT}"
    | (other) "token \<notin> {ARITH_LPAREN, ARITH_NUM, ARITH_VAR, ARITH_ADD, ARITH_SUB, ARITH_NOT, ARITH_BNOT}" by blast
  then show ?thesis
  proof cases
    case paren
    have "ends ?w (call (Assignment op) noeval s)" using w n paren by (intro call_endsD [OF k]) (auto simp: tok_size_def)
    moreover have "ends ?w (case next_token s1 of (t, s) \<Rightarrow> Inr (v, s\<lparr>last_token := t\<rparr>))"
      if "tok_size (last_token s1) + length (arith_buf s1) < ?w" for s1 and v :: arith_t
      using that next_token_real(1) [of s1] by (cases "next_token s1") fastforce
    ultimately show ?thesis unfolding primary_def using paren by (auto simp: Let_def intro!: ends_bind)
  next
    case num
    then show ?thesis by (simp add: primary_def tok_size_def)
  next
    case var
    then obtain x where "val = YName x" using n by (auto simp: named_def)
    then show ?thesis using var by (auto simp: primary_def tok_size_def union_name_def pure_errors intro!: ends_pure)
  next
    case un
    then have "tok_size token = 1" by (auto simp: tok_size_def)
    then show ?thesis using un u map by (auto simp: primary_def t)
  next
    case other
    then show ?thesis by (simp add: primary_def)
  qed
qed

lemma next2_weight:
  assumes "next_token s = (token, s1)" "next_token s1 = (t, s2)"
  shows "tok_size token + tok_size t + length (arith_buf s2) \<le> length (arith_buf s)" "named token (yylval s1)" "named t (yylval s2)"
  using next_token_real(1,2) [OF assms(1)] next_token_real(1,2) [OF assms(2)] by auto

lemma is_binop_real: "is_binop t \<Longrightarrow> tok_size t = 1"
  by (auto simp: is_binop_def tok_size_def)

lemma binop2_ends:
  assumes k: "call_ends call k" and w: "6 * length (arith_buf s) + 5 \<le> k"
  shows "ends (Suc (length (arith_buf s))) (binop2 call a op p noeval s)"
proof -
  let ?n = "length (arith_buf s)"
  obtain token s1 t s2 where t: "next_token s = (token, s1)" "next_token s1 = (t, s2)" by (metis surj_pair)
  note r = next2_weight [OF t]
  have 1: "ends ?n (call (Primary token (yylval s1) t) noeval s2)" using r w by (intro call_endsD [OF k]) auto
  have 2: "ends ?n (call (Binop2 b (last_token s') p') noeval s')"
    if "tok_size (last_token s') + length (arith_buf s') < ?n" "is_binop (last_token s')" for b s' p'
    using that is_binop_real [OF that(2)] w by (intro call_endsD [OF k]) auto
  have 3: "ends (Suc ?n) (call (Binop2 b (last_token s') p') noeval s')"
    if "tok_size (last_token s') + length (arith_buf s') < ?n" "is_binop (last_token s')" for b s' p'
    using that is_binop_real [OF that(2)] w by (intro call_endsD [OF k]) auto
  have 4: "ends ?n (if is_binop (last_token s') \<and> higher_prec (last_token s') op
      then call (Binop2 b (last_token s') (arith_prec op)) noeval s' else Inr (b, s'))"
    if "tok_size (last_token s') + length (arith_buf s') < ?n" for b s'
    using that 2 by simp
  have 5: "ends (Suc ?n) (bind_result (if noeval then Inr b else do_binop op a b) (\<lambda>a.
      if \<not> is_binop (last_token s') \<or> arith_prec (last_token s') \<ge> p then Inr (a, s')
      else call (Binop2 a (last_token s') p) noeval s'))"
    if "tok_size (last_token s') + length (arith_buf s') < ?n" for b s'
    using that 3 pure_errors(3,4) [of op a b] by (intro ends_pure) auto
  show ?thesis unfolding binop2_def t Let_def prod.case
    by (rule ends_bind [OF 1], unfold prod.case, rule ends_bind [OF 4], assumption, unfold prod.case, rule 5)
qed

lemma binop_ends:
  assumes k: "call_ends call k" and w: "6 * weight (Binop token val op) s + 1 \<le> k" and n: "names (Binop token val op) s"
  shows "ends (weight (Binop token val op) s) (binop call token val op noeval s)"
proof -
  let ?w = "weight (Binop token val op) s"
  have 1: "ends ?w (call (Primary token val op) noeval s)" using w n by (intro call_endsD [OF k]) auto
  have 2: "ends ?w (call (Binop2 a (last_token s') 8) noeval s')"
    if "tok_size (last_token s') + length (arith_buf s') < ?w" "is_binop (last_token s')" for a s'
    using that is_binop_real [OF that(2)] w by (intro call_endsD [OF k]) auto
  show ?thesis unfolding binop_def by (rule ends_bind [OF 1]) (use 2 in auto)
qed

text \<open>The levels of the logical operators: an operand, and behind the operator two tokens of lookahead.\<close>

lemma level_ends:
  assumes 1: "ends w (call (F token val op) noeval s)"
    and 2: "\<And>a s' t s1 t' s2. tok_size (last_token s') + length (arith_buf s') < w \<Longrightarrow> last_token s' = tok \<Longrightarrow>
      next_token s' = (t, s1) \<Longrightarrow> next_token s1 = (t', s2) \<Longrightarrow> ends w (call (G t (yylval s1) t') (ne a) s2)"
  shows "ends w (bind_result (call (F token val op) noeval s) (\<lambda>(a, s).
     if last_token s \<noteq> tok then Inr (a, s)
     else let (token, s1) = next_token s; (t, s2) = next_token s1 in
       bind_result (call (G token (yylval s1) t) (ne a) s2) (\<lambda>(b, s). Inr (h a b, s))))"
proof (rule ends_bind [OF 1], unfold prod.case)
  fix v and s' :: arith_state
  assume s': "tok_size (last_token s') + length (arith_buf s') < w"
  obtain t s1 t' s2 where t: "next_token s' = (t, s1)" "next_token s1 = (t', s2)" by (metis surj_pair)
  show "ends w (if last_token s' \<noteq> tok then Inr (v, s')
     else let (token, s1) = next_token s'; (t, s2) = next_token s1 in
       bind_result (call (G token (yylval s1) t) (ne v) s2) (\<lambda>(b, s). Inr (h v b, s)))"
  proof (cases "last_token s' = tok")
    case True
    have "ends w (bind_result (call (G t (yylval s1) t') (ne v) s2) (\<lambda>(b, s). Inr (h v b, s)))"
      by (rule ends_bind [OF 2 [OF s' True t]]) simp
    then show ?thesis using True by (simp add: t)
  qed (use s' in simp)
qed

lemma and_ends:
  assumes k: "call_ends call k" and w: "6 * weight (And token val op) s + 2 \<le> k" and n: "names (And token val op) s"
  shows "ends (weight (And token val op) s) (and_expr call token val op noeval s)"
  unfolding and_expr_def
proof (rule level_ends, goal_cases)
  case 1
  show ?case using w n by (intro call_endsD [OF k]) auto
next
  case (2 a s' t s1 t' s2)
  then show ?case using w next2_weight [OF 2(3,4)] by (intro call_endsD [OF k]) (auto simp: tok_size_def)
qed

lemma or_ends:
  assumes k: "call_ends call k" and w: "6 * weight (Or token val op) s + 3 \<le> k" and n: "names (Or token val op) s"
  shows "ends (weight (Or token val op) s) (or_expr call token val op noeval s)"
  unfolding or_expr_def
proof (rule level_ends, goal_cases)
  case 1
  show ?case using w n by (intro call_endsD [OF k]) auto
next
  case (2 a s' t s1 t' s2)
  then show ?case using w next2_weight [OF 2(3,4)] by (intro call_endsD [OF k]) (auto simp: tok_size_def)
qed

lemma cond_ends:
  assumes k: "call_ends call k" and w: "6 * weight (Cond token val op) s + 4 \<le> k" and n: "names (Cond token val op) s"
  shows "ends (weight (Cond token val op) s) (cond call token val op noeval s)"
  unfolding cond_def
proof (rule ends_bind [where ?w1.0 = "weight (Cond token val op) s"], goal_cases)
  case 1
  show ?case using w n by (intro call_endsD [OF k]) auto
next
  case (2 a s1)
  let ?w = "weight (Cond token val op) s"
  obtain t s2 where t: "next_token s1 = (t, s2)" by fastforce
  note r = next_token_real [OF t]
  show ?case
  proof (cases "last_token s1 = ARITH_QMARK")
    case True
    have b: "ends ?w (call (Assignment t) (noeval \<or> a = 0) s2)"
      using 2 w r True by (intro call_endsD [OF k]) (auto simp: tok_size_def)
    have "ends ?w (case next_token s3 of (token, s1) \<Rightarrow> case next_token s1 of (t, s2) \<Rightarrow>
        bind_result (call (Cond token (yylval s1) t) (noeval \<or> a \<noteq> 0) s2) (\<lambda>(c, s). Inr (if a \<noteq> 0 then b else c, s)))"
      if s3: "tok_size (last_token s3) + length (arith_buf s3) < ?w" "last_token s3 = ARITH_COLON" for b s3
    proof -
      obtain t s4 t' s5 where t: "next_token s3 = (t, s4)" "next_token s4 = (t', s5)" by (metis surj_pair)
      have "ends ?w (call (Cond t (yylval s4) t') (noeval \<or> a \<noteq> 0) s5)"
        using s3 w next2_weight [OF t] by (intro call_endsD [OF k]) (auto simp: tok_size_def)
      then show ?thesis unfolding t prod.case by (rule ends_bind) simp
    qed
    then show ?thesis using True b by (auto simp: t Let_def intro!: ends_bind)
  qed (use 2 in simp)
qed

lemma assignment_ends:
  assumes k: "call_ends call k" and w: "6 * weight (Assignment var) s + 5 \<le> k" and n: "names (Assignment var) s"
  shows "ends (weight (Assignment var) s) (assignment g call var noeval s)"
proof -
  let ?w = "weight (Assignment var) s"
  obtain op s1 where t: "next_token s = (op, s1)" by fastforce
  note r = next_token_real [OF t]
  have c: "ends ?w (call (Cond var (yylval s) op) noeval s1)" using w n r by (intro call_endsD [OF k]) auto
  show ?thesis
  proof (cases "var = ARITH_VAR \<and> is_assign op")
    case True
    obtain x where x: "yylval s = YName x" using n True by (auto simp: named_def)
    obtain u s2 where t2: "next_token s1 = (u, s2)" by fastforce
    have "tok_size op = 1" using True by (auto simp: is_assign_def tok_size_def)
    then have a: "ends ?w (call (Assignment u) noeval s2)"
      using w r next_token_real [OF t2] by (intro call_endsD [OF k]) auto
    have "ends ?w (bind_result (assign_var g op x v (sh_vars s3)) (\<lambda>(r, vars). Inr (r, s3\<lparr>sh_vars := vars\<rparr>)))"
      if "tok_size (last_token s3) + length (arith_buf s3) < ?w" for v s3
      using that assign_errors [of g op x v "sh_vars s3"] by (intro ends_pure) auto
    then show ?thesis using a True by (auto simp: assignment_def t t2 Let_def x union_name_def intro!: ends_bind)
  next
    case False
    then show ?thesis using c by (auto simp: assignment_def t Let_def)
  qed
qed

lemma parse_ends: "call_ends (parse g k) k"
proof (induction k)
  case 0
  show ?case unfolding call_ends_def
  proof (intro allI impI)
    fix c noeval s
    assume "6 * weight c s + offset c \<le> 0"
    then show "ends (weight c s) (parse g 0 c noeval s)" by (cases c) auto
  qed
next
  case (Suc k)
  show ?case unfolding call_ends_def
  proof (intro allI impI)
    fix c noeval s
    assume a: "6 * weight c s + offset c \<le> Suc k" "names c s"
    then show "ends (weight c s) (parse g (Suc k) c noeval s)"
      using primary_ends [OF Suc] binop2_ends [OF Suc] binop_ends [OF Suc] and_ends [OF Suc] or_ends [OF Suc]
        cond_ends [OF Suc] assignment_ends [OF Suc]
      by (cases c) auto
  qed
qed

text \<open>
  C14. arith ends on every string. The model of the parser has a bound on the depth of its recursion, six
  times the length of the string and twelve, and no string reaches it: arith returns a value or one
  of the errors of the code. Nor does it read a name from yylval where the lexer stored none.
\<close>

theorem arith_ends:
  "(\<exists>v vars'. arith g y lt str vars = Inr (v, vars')) \<or>
   (\<exists>e. arith g y lt str vars = Inl e \<and> e \<noteq> Stack_out \<and> e \<noteq> Bad_union)"
proof -
  obtain t s where t: "next_token \<lparr>arith_buf = str, yylval = y, last_token = lt, sh_vars = vars\<rparr> = (t, s)" by fastforce
  note r = next_token_real [OF t]
  have "ends (Suc (length str)) (parse g (6 * length str + 12) (Assignment t) False s)"
    using r by (intro call_endsD [OF parse_ends]) auto
  then show ?thesis
    by (cases "parse g (6 * length str + 12) (Assignment t) False s") (auto simp: arith_def t split: if_splits)
qed

end
