(* ===== verification/Sh_Value.thy ===== *)
theory Sh_Value
  imports Sh_Expr Sh_Ends
begin

text \<open>
  The result of \<open>arith\<close> on every expression of the grammar, however it is spelled, and the values
  that go through the variables of the shell.
\<close>

subsection \<open>The length of an expression\<close>

lemma toks_code: "wf_aexp e \<Longrightarrow> t \<in> set (toks e) \<Longrightarrow> fst t \<noteq> 0 \<and> fst t \<noteq> ARITH_BAD"
  by (induction e) (auto simp: is_unary_def is_binop_def is_assign_def)

lemma lexes_length:
  "lexes buf ts \<Longrightarrow> \<forall>t \<in> set ts. fst t \<noteq> 0 \<and> fst t \<noteq> ARITH_BAD \<Longrightarrow> length ts \<le> length buf"
proof (induction ts arbitrary: buf)
  case (Cons t ts)
  obtain c v r where y: "yylex buf = (c, v, r)" by (cases "yylex buf")
  then have "length r < length buf" using yylex_less [OF y] Cons(2,3) by auto
  moreover have "length ts \<le> length r" using Cons y by auto
  ultimately show ?case by simp
qed simp

subsection \<open>arith\<close>

lemma arith_expression:
  assumes "wf_aexp e" "lexes str (toks e)"
  shows "arith g y lt str vars = value_of g e vars"
proof -
  let ?s = "\<lparr>arith_buf = str, yylval = y, last_token = lt, sh_vars = vars\<rparr>"
  have l: "lexes (arith_buf ?s) (toks e @ [])" using assms(2) by simp
  obtain t s where s: "next_token ?s = (t, s)" "ahead1 (toks e @ []) t s" "sh_vars s = sh_vars ?s"
    using next_ahead1 [OF l] .
  have "length (toks e) \<le> length str" using lexes_length [OF assms(2)] toks_code [OF assms(1)] by blast
  then have k: "6 * length (toks e @ []) + 6 \<le> 6 * length str + 12" by simp
  have "parses1 g e" using parsed_all [OF assms(1)] by (simp add: parsed_def)
  from parses1D [OF this s(2) k, of False]
  have "gives False (value_of g e vars) [] vars (parse g (6 * length str + 12) (Assignment t) False s)" using s(3) by simp
  then show ?thesis
    by (cases rule: gives_cases) (simp_all add: arith_def s(1) at_def)
qed

text \<open>
  C8. arith gives every expression its value under the rules of C: for a string that lexes into the
  tokens of an expression of the grammar, with any spelling and white space, the result of arith is the value of the expression,
  or the error of its evaluation, and the variables are the ones the evaluated assignments leave.
  The branches of &&, || and ?: that are not taken are read and have no effect, whatever their
  variables hold.
\<close>

theorem arith_value:
  assumes "wf_aexp e" "lexes str (toks e)"
  shows "arith g y lt str vars = value_of g e vars"
  using assms by (rule arith_expression)

text \<open>The assignment to y is not evaluated when x is zero.\<close>

theorem arith_value_witness:
  "arith \<lparr>sh_uflag = False, sh_readonly = {}, sh_ptr = (\<lambda>_. 7)\<rparr> (YVal 0) 0 ''x?y=3:x+2*4''
     [''x'' \<mapsto> ''0''] = Inr (8, [''x'' \<mapsto> ''0''])"
proof -
  let ?e = "ACond (AVar ''x'') (AAssign ARITH_ASS ''y'' (ANum 3))
    (ABin ARITH_ADD (AVar ''x'') (ABin ARITH_MUL (ANum 2) (ANum 4)))"
  have "wf_aexp ?e" by code_simp
  moreover have "lexes ''x?y=3:x+2*4'' (toks ?e)" by code_simp
  ultimately have "arith g y lt ''x?y=3:x+2*4'' vars = value_of g ?e vars" for g y lt vars
    by (rule arith_value)
  moreover have "arith_lookupvarint \<lparr>sh_uflag = False, sh_readonly = {}, sh_ptr = (\<lambda>_. 7)\<rparr> ''x'' [''x'' \<mapsto> ''0''] = Inr 0"
    unfolding arith_lookupvarint_def by simp code_simp
  ultimately show ?thesis by (simp add: do_binop_def)
qed

subsection \<open>Values in variables\<close>

lemma strtol0_range_print_int: "- (2 ^ 63) \<le> i \<Longrightarrow> i < 2 ^ 63 \<Longrightarrow> strtol0_range (print_int i)"
proof -
  assume i: "- (2 ^ 63) \<le> i" "i < 2 ^ 63"
  have a: "after_number []" by (simp add: after_number_def)
  obtain b where b: "strip_base (decimal (nat \<bar>i\<bar>) @ []) = (b, decimal (nat \<bar>i\<bar>) @ [])"
    "scan_digits b 0 (decimal (nat \<bar>i\<bar>) @ []) = (int (nat \<bar>i\<bar>), [])" using decimal_base [OF a] .
  then show ?thesis using print_int_sign [of i "[]"] i by (simp add: strtol0_range_def)
qed

lemma sint_range: "- (2 ^ 63) \<le> sint (v :: arith_t)" "sint (v :: arith_t) < 2 ^ 63"
  using sint_ge [of v] sint_less [of v] by simp_all

lemma lookup_stored: "arith_lookupvarint g x (vars(x \<mapsto> print_int (sint v))) = Inr v"
proof -
  have n: "print_int (sint v) \<noteq> []" using decimal_nonempty by (simp add: print_int_def)
  have "strtol0 (print_int (sint v)) = (sint v, [])"
    using strtol0_print_int [of "[]" "sint v"] sint_range [of v] by (simp add: after_number_def)
  then show ?thesis using n strtol0_range_print_int [OF sint_range] by (simp add: arith_lookupvarint_def)
qed

lemma assign_stored:
  assumes "assign_var g op x v vars = Inr (r, vars')"
  shows "arith_lookupvarint g x vars' = Inr r" "z \<noteq> x \<Longrightarrow> vars' z = vars z"
  using assms lookup_stored [of g x vars r] by (auto simp: assign_var_def store_var_def bind_result_Inr split: if_splits)

text \<open>
  C34. What an assignment stores is read back. When arith has evaluated an assignment to x, plain or with
  an operator, then evaluating x gives the value the assignment had, for every 64-bit value, the negative
  ones included; the number was printed in decimal and is read by strtoimax.
\<close>

theorem arith_assign_read:
  assumes "wf_aexp (AAssign op x e)" "lexes str (toks (AAssign op x e))" "lexes str' (toks (AVar x))"
    and "arith g y lt str vars = Inr (v, vars')"
  shows "arith g y' lt' str' vars' = Inr (v, vars')"
proof -
  have "value_of g (AAssign op x e) vars = Inr (v, vars')" using assms(4) arith_expression [OF assms(1,2)] by simp
  then obtain w vars1 where "assign_var g op x w vars1 = Inr (v, vars')" by (auto simp: bind_result_Inr)
  then have "arith_lookupvarint g x vars' = Inr v" by (rule assign_stored(1))
  moreover have "arith g y' lt' str' vars' = value_of g (AVar x) vars'" by (rule arith_expression [OF _ assms(3)]) simp
  ultimately show ?thesis by simp
qed

theorem arith_assign_read_witness:
  "arith \<lparr>sh_uflag = True, sh_readonly = {}, sh_ptr = (\<lambda>_. 0)\<rparr> (YVal 0) 0 '' x ''
     [''x'' \<mapsto> ''-3''] = Inr (- 3, [''x'' \<mapsto> ''-3''])"
proof -
  let ?g = "\<lparr>sh_uflag = True, sh_readonly = {}, sh_ptr = (\<lambda>_. 0)\<rparr>"
  let ?e = "AAssign ARITH_ASS ''x'' (ABin ARITH_SUB (ANum 4) (ANum 7))"
  have wf: "wf_aexp ?e" by code_simp
  have lex: "lexes ''x=4-7'' (toks ?e)" by code_simp
  have lex': "lexes '' x '' (toks (AVar ''x''))" by code_simp
  have "print_int (- 3) = ''-3''" by code_simp
  then have "value_of ?g ?e Map.empty = Inr (- 3, [''x'' \<mapsto> ''-3''])"
    by (simp add: do_binop_def assign_var_def store_var_def)
  then have "arith ?g (YVal 0) 0 ''x=4-7'' Map.empty = Inr (- 3, [''x'' \<mapsto> ''-3''])"
    using arith_expression [OF wf lex] by metis
  from arith_assign_read [OF wf lex lex' this] show ?thesis .
qed

end
