(* ===== verification/Sh_Sound.thy ===== *)
theory Sh_Sound
  imports Sh_Value
begin

text \<open>
  What the parser of the arithmetic accepts: a call that returns has read the tokens of an
  expression of its level of the grammar. With the value of expressions this says exactly which strings arith
  gives a value.
\<close>

subsection \<open>Tokens that were read\<close>

text \<open>
  \<open>streams ts t y s\<close>: the tokens \<open>ts\<close> are the token \<open>t\<close>, which was read last and left \<open>y\<close> in yylval,
  and the tokens that are still in the buffer.
\<close>

definition tok_of :: "int \<Rightarrow> yystype \<Rightarrow> tok" where
  "tok_of t y = (t, if t = ARITH_NUM \<or> t = ARITH_VAR then Some y else None)"

definition streams :: "tok list \<Rightarrow> int \<Rightarrow> yystype \<Rightarrow> arith_state \<Rightarrow> bool" where
  "streams ts t y s \<longleftrightarrow> (case ts of [] \<Rightarrow> t = 0 | a # ts' \<Rightarrow> t \<noteq> 0 \<and> a = tok_of t y \<and> lexes (arith_buf s) ts')"

abbreviation behind :: "tok list \<Rightarrow> arith_state \<Rightarrow> bool" where
  "behind r s \<equiv> streams r (last_token s) (yylval s) s"

definition stream2 :: "tok list \<Rightarrow> int \<Rightarrow> yystype \<Rightarrow> int \<Rightarrow> arith_state \<Rightarrow> bool" where
  "stream2 ts token val op s \<longleftrightarrow> token \<noteq> 0 \<and> ts \<noteq> [] \<and> hd ts = tok_of token val \<and> streams (tl ts) op (yylval s) s"

lemma streams_Cons [simp]: "streams (a # ts) t y s \<longleftrightarrow> t \<noteq> 0 \<and> a = tok_of t y \<and> lexes (arith_buf s) ts"
  and streams_Nil [simp]: "streams [] t y s \<longleftrightarrow> t = 0"
  by (simp_all add: streams_def)

lemma stream2_Cons [simp]: "stream2 (a # ts) token val op s \<longleftrightarrow> token \<noteq> 0 \<and> a = tok_of token val \<and> streams ts op (yylval s) s"
  and stream2_Nil [simp]: "\<not> stream2 [] token val op s"
  by (auto simp: stream2_def)

lemma streams_lexes:
  assumes "next_token s = (t, s')" "streams ts t (yylval s') s'" shows "lexes (arith_buf s) ts"
proof -
  obtain c v r where y: "yylex (arith_buf s) = (c, v, r)" by (cases "yylex (arith_buf s)")
  then have e: "t = c" "s' = s\<lparr>arith_buf := r, yylval := (case v of None \<Rightarrow> yylval s | Some y \<Rightarrow> y)\<rparr>"
    using assms(1) by (auto simp: next_token_def)
  show ?thesis
    using assms(2) yylex_value [OF y] yylex_stuck [OF y] y
    by (cases ts) (auto simp: e tok_of_def split: if_splits)
qed

lemma stream2_streams:
  assumes "next_token s = (op, s')" "stream2 ts t (yylval s) op s'" shows "streams ts t (yylval s) s"
  using assms streams_lexes [OF assms(1), of "tl ts"] by (cases ts) auto

lemma stream2_lexes:
  assumes "next_token s = (t, s1)" "next_token s1 = (op, s2)" "stream2 ts t (yylval s1) op s2"
  shows "lexes (arith_buf s) ts"
  using streams_lexes [OF assms(1) stream2_streams [OF assms(2,3)]] .

subsection \<open>What a call has read\<close>

definition read2 :: "int \<Rightarrow> int \<Rightarrow> yystype \<Rightarrow> int \<Rightarrow> arith_state \<Rightarrow> arith_state \<Rightarrow> bool" where
  "read2 l token val op s s' \<longleftrightarrow> (\<exists>e. wf_aexp e \<and> level e \<le> l \<and> (\<forall>r. behind r s' \<longrightarrow> stream2 (toks e @ r) token val op s))"

definition read1 :: "int \<Rightarrow> arith_state \<Rightarrow> arith_state \<Rightarrow> bool" where
  "read1 var s s' \<longleftrightarrow> (\<exists>e. wf_aexp e \<and> (\<forall>r. behind r s' \<longrightarrow> streams (toks e @ r) var (yylval s) s))"

text \<open>binop2 has read an expression that starts with the left operand and the operator it was called with.\<close>

definition read_binop2 :: "int \<Rightarrow> int \<Rightarrow> arith_state \<Rightarrow> arith_state \<Rightarrow> bool" where
  "read_binop2 op p s s' \<longleftrightarrow> (is_binop (last_token s') \<longrightarrow> p \<le> arith_prec (last_token s')) \<and>
     (\<forall>a. wf_aexp a \<longrightarrow> level a \<le> arith_prec op + 1 \<longrightarrow> (\<exists>e ts. wf_aexp e \<and> level e \<le> p \<and>
        toks e = toks a @ (op, None) # ts \<and> (\<forall>r. behind r s' \<longrightarrow> lexes (arith_buf s) (ts @ r))))"

fun has_read :: "arith_call \<Rightarrow> arith_state \<Rightarrow> arith_state \<Rightarrow> bool" where
  "has_read (Primary token val op) s s' = read2 0 token val op s s'"
| "has_read (Binop2 a op p) s s' = (is_binop op \<longrightarrow> arith_prec op < p \<longrightarrow> read_binop2 op p s s')"
| "has_read (Binop token val op) s s' = read2 8 token val op s s'"
| "has_read (And token val op) s s' = read2 9 token val op s s'"
| "has_read (Or token val op) s s' = read2 10 token val op s s'"
| "has_read (Cond token val op) s s' = read2 11 token val op s s'"
| "has_read (Assignment var) s s' = read1 var s s'"

definition call_reads :: "arith_rec \<Rightarrow> bool" where
  "call_reads call \<longleftrightarrow> (\<forall>c noeval s v s'. call c noeval s = Inr (v, s') \<longrightarrow> names c s \<longrightarrow> has_read c s s')"

lemma call_readsD: "call_reads call \<Longrightarrow> call c noeval s = Inr (v, s') \<Longrightarrow> names c s \<Longrightarrow> has_read c s s'"
  by (simp add: call_reads_def)

lemma read2_mono: "read2 l token val op s s' \<Longrightarrow> l \<le> l' \<Longrightarrow> read2 l' token val op s s'"
  unfolding read2_def by force

lemma read2I:
  "wf_aexp e \<Longrightarrow> level e \<le> l \<Longrightarrow> (\<And>r. behind r s' \<Longrightarrow> stream2 (toks e @ r) token val op s) \<Longrightarrow> read2 l token val op s s'"
  unfolding read2_def by blast

lemma behind_op:
  "last_token s = t \<Longrightarrow> t \<notin> {0, ARITH_NUM, ARITH_VAR} \<Longrightarrow> lexes (arith_buf s) ts \<Longrightarrow> behind ((t, None) # ts) s"
  by (simp add: tok_of_def)

subsection \<open>Primaries\<close>

lemma unary_reads:
  assumes call: "call_reads call" and t: "next_token s = (t, s1)" and c: "call (Primary op (yylval s) t) noeval s1 = Inr (v, s')"
    and n: "named op (yylval s)" and u: "is_unary token"
  shows "read2 0 token val op s s'"
proof -
  have "names (Primary op (yylval s) t) s1" using n next_token_real(2) [OF t] by simp
  then obtain e where e: "wf_aexp e" "level e \<le> 0" "\<And>r. behind r s' \<Longrightarrow> stream2 (toks e @ r) op (yylval s) t s1"
    using call_readsD [OF call c] by (auto simp: read2_def)
  show ?thesis
  proof (rule read2I [of "AUn token e"])
    show "wf_aexp (AUn token e)" using e(1,2) level_range [OF e(1)] u by simp
    show "stream2 (toks (AUn token e) @ r) token val op s" if "behind r s'" for r
      using stream2_streams [OF t e(3) [OF that]] u by (auto simp: is_unary_def tok_of_def)
  qed simp
qed

lemma primary_reads:
  assumes call: "call_reads call" and p: "primary g call token val op noeval s = Inr (v, s')"
    and n: "names (Primary token val op) s"
  shows "read2 0 token val op s s'"
proof -
  obtain t s1 where t: "next_token s = (t, s1)" by fastforce
  consider (paren) "token = ARITH_LPAREN" | (num) "token = ARITH_NUM" | (var) "token = ARITH_VAR"
    | (un) "is_unary token" | (other) "token \<notin> {ARITH_LPAREN, ARITH_NUM, ARITH_VAR} \<and> \<not> is_unary token" by blast
  then show ?thesis
  proof cases
    case paren
    obtain w s2 where c: "call (Assignment op) noeval s = Inr (w, s2)" "last_token s2 = ARITH_RPAREN"
      "(case next_token s2 of (t, s) \<Rightarrow> Inr (w, s\<lparr>last_token := t\<rparr>)) = (Inr (v, s') :: arith_result)"
      using p paren by (auto simp: primary_def bind_result_Inr split: if_splits)
    obtain u s3 where u: "next_token s2 = (u, s3)" by fastforce
    have s': "s' = s3\<lparr>last_token := u\<rparr>" using c(3) u by simp
    obtain e where e: "wf_aexp e" "\<And>r. behind r s2 \<Longrightarrow> streams (toks e @ r) op (yylval s) s"
      using call_readsD [OF call c(1)] n by (auto simp: read1_def)
    show ?thesis
    proof (rule read2I [of "APar e"])
      show "stream2 (toks (APar e) @ r) token val op s" if "behind r s'" for r
      proof -
        have "streams r u (yylval s3) s3" using that unfolding s' by (auto simp: streams_def split: list.splits)
        then have "lexes (arith_buf s2) r" by (rule streams_lexes [OF u])
        then have "streams (toks e @ (ARITH_RPAREN, None) # r) op (yylval s) s" using c(2) by (intro e(2) behind_op) auto
        then show ?thesis using paren by (simp add: tok_of_def)
      qed
    qed (use e(1) in simp_all)
  next
    case num
    then have "s' = s\<lparr>last_token := op\<rparr>" using p by (simp add: primary_def)
    moreover obtain x where "val = YVal x" using n num by (auto simp: named_def)
    ultimately show ?thesis using num
      by (intro read2I [of "ANum x"]) (auto simp: tok_of_def streams_def split: list.splits)
  next
    case var
    then have "s' = s\<lparr>last_token := op\<rparr>" using p by (auto simp: primary_def bind_result_Inr split: if_splits)
    moreover obtain x where "val = YName x" using n var by (auto simp: named_def)
    ultimately show ?thesis using var
      by (intro read2I [of "AVar x"]) (auto simp: tok_of_def streams_def split: list.splits)
  next
    case un
    then obtain w where "call (Primary op (yylval s) t) noeval s1 = Inr (w, s')"
      using p by (auto simp: primary_def t is_unary_def bind_result_Inr)
    then show ?thesis using unary_reads [OF call t _ _ un] n by simp
  next
    case other
    then show ?thesis using p by (simp add: primary_def is_unary_def)
  qed
qed

subsection \<open>Binary operators\<close>

lemma is_binop_token: "is_binop t \<Longrightarrow> t \<notin> {0, ARITH_NUM, ARITH_VAR}"
  by (auto simp: is_binop_def)

text \<open>The right operand of binop2, with the operators behind it that bind more tightly.\<close>

lemma operand_reads:
  assumes call: "call_reads call" and c: "call (Primary token val t) noeval s2 = Inr (b, s3)" and n: "names (Primary token val t) s2"
    and d: "(if is_binop (last_token s3) \<and> higher_prec (last_token s3) op
        then call (Binop2 b (last_token s3) (arith_prec op)) noeval s3 else Inr (b, s3)) = Inr (b', s4)"
  obtains e where "wf_aexp e" "level e \<le> arith_prec op" "\<And>r. behind r s4 \<Longrightarrow> stream2 (toks e @ r) token val t s2"
    "is_binop (last_token s4) \<Longrightarrow> arith_prec op \<le> arith_prec (last_token s4)"
proof -
  obtain e where e: "wf_aexp e" "level e \<le> 0" "\<And>r. behind r s3 \<Longrightarrow> stream2 (toks e @ r) token val t s2"
    using call_readsD [OF call c n] by (auto simp: read2_def)
  let ?o = "last_token s3"
  have le: "level e \<le> arith_prec op" "level e \<le> arith_prec ?o + 1" using e(2) arith_prec_range(1) [of op] arith_prec_range(1) [of ?o] by linarith+
  show ?thesis
  proof (cases "is_binop ?o \<and> higher_prec ?o op")
    case True
    then have "read_binop2 ?o (arith_prec op) s3 s4"
      using d call_readsD [OF call, of "Binop2 b ?o (arith_prec op)" noeval s3 b' s4] by (simp add: higher_prec_def)
    then obtain f ts where f: "wf_aexp f" "level f \<le> arith_prec op" "toks f = toks e @ (?o, None) # ts"
      "\<And>r. behind r s4 \<Longrightarrow> lexes (arith_buf s3) (ts @ r)"
      and last: "is_binop (last_token s4) \<longrightarrow> arith_prec op \<le> arith_prec (last_token s4)"
      using e(1) le(2) unfolding read_binop2_def by blast
    have "stream2 (toks f @ r) token val t s2" if "behind r s4" for r
      using e(3) [OF behind_op [OF refl is_binop_token f(4) [OF that]]] True f(3) by simp
    then show ?thesis using that [of f] f(1,2) last by blast
  next
    case False
    then show ?thesis using that [of e] d e(1,3) le(1) by (auto simp: higher_prec_def)
  qed
qed

lemma binop2_reads:
  assumes call: "call_reads call" and b: "binop2 call a op p noeval s = Inr (v, s')" and op: "is_binop op" "arith_prec op < p"
  shows "read_binop2 op p s s'"
proof -
  obtain token s1 t s2 where t: "next_token s = (token, s1)" "next_token s1 = (t, s2)" by (metis surj_pair)
  have n: "names (Primary token (yylval s1) t) s2" using next2_weight [OF t] by simp
  obtain b0 s3 b1 s4 a1 where c: "call (Primary token (yylval s1) t) noeval s2 = Inr (b0, s3)"
    and d: "(if is_binop (last_token s3) \<and> higher_prec (last_token s3) op
        then call (Binop2 b0 (last_token s3) (arith_prec op)) noeval s3 else Inr (b0, s3)) = Inr (b1, s4)"
    and f: "(if \<not> is_binop (last_token s4) \<or> p \<le> arith_prec (last_token s4) then Inr (a1, s4)
        else call (Binop2 a1 (last_token s4) p) noeval s4) = Inr (v, s')"
    using b by (auto simp: binop2_def t bind_result_Inr)
  obtain e where e: "wf_aexp e" "level e \<le> arith_prec op" "\<And>r. behind r s4 \<Longrightarrow> stream2 (toks e @ r) token (yylval s1) t s2"
    and last: "is_binop (last_token s4) \<Longrightarrow> arith_prec op \<le> arith_prec (last_token s4)"
    using operand_reads [OF call c n d] by blast
  have lex: "lexes (arith_buf s) (toks e @ r)" if "behind r s4" for r using stream2_lexes [OF t e(3) [OF that]] .
  have bin: "wf_aexp (ABin op x e)" if "wf_aexp x" "level x \<le> arith_prec op + 1" for x using that e op by simp
  let ?o = "last_token s4"
  show ?thesis
  proof (cases "\<not> is_binop ?o \<or> p \<le> arith_prec ?o")
    case True
    then have s': "s' = s4" using f by simp
    have "\<exists>f ts. wf_aexp f \<and> level f \<le> p \<and> toks f = toks x @ (op, None) # ts \<and> (\<forall>r. behind r s4 \<longrightarrow> lexes (arith_buf s) (ts @ r))"
      if "wf_aexp x" "level x \<le> arith_prec op + 1" for x
      using bin [OF that] lex op(2) by (intro exI [of _ "ABin op x e"] exI [of _ "toks e"]) simp
    then show ?thesis unfolding read_binop2_def s' using True by blast
  next
    case False
    then have r: "read_binop2 ?o p s4 s'"
      using f call_readsD [OF call, of "Binop2 a1 ?o p" noeval s4 v s'] by simp
    have "\<exists>f ts. wf_aexp f \<and> level f \<le> p \<and> toks f = toks x @ (op, None) # ts \<and> (\<forall>r. behind r s' \<longrightarrow> lexes (arith_buf s) (ts @ r))"
      if x: "wf_aexp x" "level x \<le> arith_prec op + 1" for x
    proof -
      have "level (ABin op x e) \<le> arith_prec ?o + 1" using last False by simp
      then obtain f ts where f: "wf_aexp f" "level f \<le> p" "toks f = toks (ABin op x e) @ (?o, None) # ts"
        "\<And>r. behind r s' \<Longrightarrow> lexes (arith_buf s4) (ts @ r)"
        using r bin [OF x] unfolding read_binop2_def by blast
      have "lexes (arith_buf s) (toks e @ (?o, None) # ts @ r)" if "behind r s'" for r
        using lex [OF behind_op [OF refl is_binop_token f(4) [OF that]]] False by simp
      then show ?thesis using f(1,2,3) by (intro exI [of _ f] exI [of _ "toks e @ (?o, None) # ts"]) simp
    qed
    then show ?thesis using r unfolding read_binop2_def by blast
  qed
qed

lemma binop_reads_back:
  assumes call: "call_reads call" and b: "binop call token val op noeval s = Inr (v, s')" and n: "names (Binop token val op) s"
  shows "read2 8 token val op s s'"
proof -
  obtain a s1 where c: "call (Primary token val op) noeval s = Inr (a, s1)"
    and d: "(if \<not> is_binop (last_token s1) then Inr (a, s1) else call (Binop2 a (last_token s1) 8) noeval s1) = Inr (v, s')"
    using b by (auto simp: binop_def bind_result_Inr)
  let ?o = "last_token s1"
  obtain e where e: "wf_aexp e" "level e \<le> 0" "\<And>r. behind r s1 \<Longrightarrow> stream2 (toks e @ r) token val op s"
    using call_readsD [OF call c] n by (auto simp: read2_def)
  show ?thesis
  proof (cases "is_binop ?o")
    case True
    then have r: "read_binop2 ?o 8 s1 s'" using d call_readsD [OF call, of "Binop2 a ?o 8" noeval s1 v s'] by simp
    have "level e \<le> arith_prec ?o + 1" using e(2) arith_prec_range(1) [of ?o] by linarith
    then obtain f ts where f: "wf_aexp f" "level f \<le> 8" "toks f = toks e @ (?o, None) # ts"
      "\<And>r. behind r s' \<Longrightarrow> lexes (arith_buf s1) (ts @ r)" using r e(1) unfolding read_binop2_def by blast
    have "stream2 (toks f @ r) token val op s" if "behind r s'" for r
      using e(3) [OF behind_op [OF refl is_binop_token f(4) [OF that]]] True f(3) by simp
    then show ?thesis using f(1,2) by (blast intro: read2I)
  next
    case False
    then show ?thesis using d e by (auto intro: read2I)
  qed
qed

subsection \<open>Logical operators, conditionals and assignments\<close>

text \<open>The shape that and, or and the end of cond share: an operand, the token, two tokens of lookahead and another call.\<close>

lemma behind_call:
  assumes call: "call_reads call" and l: "last_token s1 = tok" "tok \<notin> {0, ARITH_NUM, ARITH_VAR}"
    and t: "next_token s1 = (t, s2)" "next_token s2 = (t', s3)"
    and c: "call c ne s3 = Inr (b, s')" "names c s3" "has_read c s3 s' \<Longrightarrow> read2 L t (yylval s2) t' s3 s'"
  obtains e where "wf_aexp e" "level e \<le> L" "\<And>r. behind r s' \<Longrightarrow> behind ((tok, None) # toks e @ r) s1"
proof -
  obtain e where e: "wf_aexp e" "level e \<le> L" "\<And>r. behind r s' \<Longrightarrow> stream2 (toks e @ r) t (yylval s2) t' s3"
    using c(3) [OF call_readsD [OF call c(1,2)]] by (auto simp: read2_def)
  have "behind ((tok, None) # toks e @ r) s1" if "behind r s'" for r
    using behind_op [OF l stream2_lexes [OF t e(3) [OF that]]] .
  then show ?thesis using that [OF e(1,2)] by blast
qed

lemma and_reads:
  assumes call: "call_reads call" and a: "and_expr call token val op noeval s = Inr (v, s')" and n: "names (And token val op) s"
  shows "read2 9 token val op s s'"
proof -
  obtain w s1 where c: "call (Binop token val op) noeval s = Inr (w, s1)" using a by (auto simp: and_expr_def bind_result_Inr)
  obtain t s2 t' s3 where t: "next_token s1 = (t, s2)" "next_token s2 = (t', s3)" by (metis surj_pair)
  have r: "read2 8 token val op s s1" using call_readsD [OF call c] n by simp
  then obtain e where e: "wf_aexp e" "level e \<le> 8" "\<And>r. behind r s1 \<Longrightarrow> stream2 (toks e @ r) token val op s"
    by (auto simp: read2_def)
  show ?thesis
  proof (cases "last_token s1 = ARITH_AND")
    case True
    obtain b where d: "call (And t (yylval s2) t') (noeval \<or> w = 0) s3 = Inr (b, s')"
      using a c True by (auto simp: and_expr_def t bind_result_Inr)
    obtain f where f: "wf_aexp f" "level f \<le> 9" "\<And>r. behind r s' \<Longrightarrow> behind ((ARITH_AND, None) # toks f @ r) s1"
      by (rule behind_call [OF call True _ t d, of 9]) (use next2_weight [OF t] in auto)
    show ?thesis using e f by (intro read2I [of "AAnd e f"]) auto
  next
    case False
    then show ?thesis using a c read2_mono [OF r] by (simp add: and_expr_def)
  qed
qed

lemma or_reads:
  assumes call: "call_reads call" and a: "or_expr call token val op noeval s = Inr (v, s')" and n: "names (Or token val op) s"
  shows "read2 10 token val op s s'"
proof -
  obtain w s1 where c: "call (And token val op) noeval s = Inr (w, s1)" using a by (auto simp: or_expr_def bind_result_Inr)
  obtain t s2 t' s3 where t: "next_token s1 = (t, s2)" "next_token s2 = (t', s3)" by (metis surj_pair)
  have r: "read2 9 token val op s s1" using call_readsD [OF call c] n by simp
  then obtain e where e: "wf_aexp e" "level e \<le> 9" "\<And>r. behind r s1 \<Longrightarrow> stream2 (toks e @ r) token val op s"
    by (auto simp: read2_def)
  show ?thesis
  proof (cases "last_token s1 = ARITH_OR")
    case True
    obtain b where d: "call (Or t (yylval s2) t') (noeval \<or> w \<noteq> 0) s3 = Inr (b, s')"
      using a c True by (auto simp: or_expr_def t bind_result_Inr)
    obtain f where f: "wf_aexp f" "level f \<le> 10" "\<And>r. behind r s' \<Longrightarrow> behind ((ARITH_OR, None) # toks f @ r) s1"
      by (rule behind_call [OF call True _ t d, of 10]) (use next2_weight [OF t] in auto)
    show ?thesis using e f by (intro read2I [of "AOr e f"]) auto
  next
    case False
    then show ?thesis using a c read2_mono [OF r] by (simp add: or_expr_def)
  qed
qed

lemma cond_reads:
  assumes call: "call_reads call" and a: "cond call token val op noeval s = Inr (v, s')" and n: "names (Cond token val op) s"
  shows "read2 11 token val op s s'"
proof -
  obtain w s1 where c: "call (Or token val op) noeval s = Inr (w, s1)" using a by (auto simp: cond_def bind_result_Inr)
  obtain u s2 where u: "next_token s1 = (u, s2)" by fastforce
  have r: "read2 10 token val op s s1" using call_readsD [OF call c] n by simp
  then obtain e where e: "wf_aexp e" "level e \<le> 10" "\<And>r. behind r s1 \<Longrightarrow> stream2 (toks e @ r) token val op s"
    by (auto simp: read2_def)
  show ?thesis
  proof (cases "last_token s1 = ARITH_QMARK")
    case True
    obtain x s3 where b: "call (Assignment u) (noeval \<or> w = 0) s2 = Inr (x, s3)" "last_token s3 = ARITH_COLON"
      using a c True by (auto simp: cond_def u bind_result_Inr split: if_splits)
    obtain t s4 t' s5 where t: "next_token s3 = (t, s4)" "next_token s4 = (t', s5)" by (metis surj_pair)
    obtain z where d: "call (Cond t (yylval s4) t') (noeval \<or> w \<noteq> 0) s5 = Inr (z, s')"
      using a c True b by (auto simp: cond_def u t bind_result_Inr)
    obtain f where f: "wf_aexp f" "\<And>r. behind r s3 \<Longrightarrow> streams (toks f @ r) u (yylval s2) s2"
      using call_readsD [OF call b(1)] next_token_real(2) [OF u] by (auto simp: read1_def)
    obtain h where h: "wf_aexp h" "level h \<le> 11" "\<And>r. behind r s' \<Longrightarrow> behind ((ARITH_COLON, None) # toks h @ r) s3"
      by (rule behind_call [OF call b(2) _ t d, of 11]) (use next2_weight [OF t] in auto)
    have "stream2 (toks (ACond e f h) @ r) token val op s" if "behind r s'" for r
    proof -
      have "behind ((ARITH_QMARK, None) # toks f @ (ARITH_COLON, None) # toks h @ r) s1"
        using True by (intro behind_op streams_lexes [OF u f(2) [OF h(3) [OF that]]]) auto
      from e(3) [OF this] show ?thesis by simp
    qed
    then show ?thesis using e f h by (intro read2I [of "ACond e f h"]) auto
  next
    case False
    then show ?thesis using a c read2_mono [OF r] by (simp add: cond_def)
  qed
qed

lemma assignment_reads:
  assumes call: "call_reads call" and a: "assignment g call var noeval s = Inr (v, s')" and n: "names (Assignment var) s"
  shows "read1 var s s'"
proof -
  obtain op s1 where t: "next_token s = (op, s1)" by fastforce
  show ?thesis
  proof (cases "var = ARITH_VAR \<and> is_assign op")
    case True
    obtain u s2 where u: "next_token s1 = (u, s2)" by fastforce
    obtain w s3 where c: "call (Assignment u) noeval s2 = Inr (w, s3)" "arith_buf s' = arith_buf s3"
      "last_token s' = last_token s3" "yylval s' = yylval s3"
      using a True by (auto simp: assignment_def t u Let_def bind_result_Inr split: if_splits)
    obtain e where e: "wf_aexp e" "\<And>r. behind r s3 \<Longrightarrow> streams (toks e @ r) u (yylval s2) s2"
      using call_readsD [OF call c(1)] next_token_real(2) [OF u] by (auto simp: read1_def)
    obtain x where x: "yylval s = YName x" using n True by (auto simp: named_def)
    have "streams (toks (AAssign op x e) @ r) var (yylval s) s" if "behind r s'" for r
    proof -
      have "behind r s3" using that c(2,3,4) by (auto simp: streams_def split: list.splits)
      from streams_lexes [OF u e(2) [OF this]] have "streams ((op, None) # toks e @ r) op (yylval s1) s1"
        using True by (auto simp: tok_of_def is_assign_def)
      from streams_lexes [OF t this] show ?thesis using True x by (simp add: tok_of_def)
    qed
    then show ?thesis using e(1) True unfolding read1_def by (intro exI [of _ "AAssign op x e"]) simp
  next
    case False
    then have c: "call (Cond var (yylval s) op) noeval s1 = Inr (v, s')" using a by (auto simp: assignment_def t Let_def split: if_splits)
    have "names (Cond var (yylval s) op) s1" using n next_token_real(2) [OF t] by simp
    then obtain e where "wf_aexp e" "\<And>r. behind r s' \<Longrightarrow> stream2 (toks e @ r) var (yylval s) op s1"
      using call_readsD [OF call c] by (auto simp: read2_def)
    then show ?thesis unfolding read1_def using stream2_streams [OF t] by blast
  qed
qed

lemma parse_reads: "call_reads (parse g k)"
proof (induction k)
  case 0
  show ?case by (simp add: call_reads_def)
next
  case (Suc k)
  show ?case unfolding call_reads_def
  proof (intro allI impI)
    fix c noeval s v s'
    assume a: "parse g (Suc k) c noeval s = Inr (v, s')" "names c s"
    then show "has_read c s s'"
      using primary_reads [OF Suc] binop2_reads [OF Suc] binop_reads_back [OF Suc] and_reads [OF Suc] or_reads [OF Suc]
        cond_reads [OF Suc] assignment_reads [OF Suc]
      by (cases c) auto
  qed
qed

lemma arith_reads:
  assumes "arith g y lt str vars = Inr (v, vars')"
  obtains e where "wf_aexp e" "lexes str (toks e)"
proof -
  obtain t s where t: "next_token \<lparr>arith_buf = str, yylval = y, last_token = lt, sh_vars = vars\<rparr> = (t, s)" by fastforce
  obtain s' where p: "parse g (6 * length str + 12) (Assignment t) False s = Inr (v, s')" "last_token s' = 0"
    using assms by (auto simp: arith_def t bind_result_Inr split: if_splits)
  obtain e where e: "wf_aexp e" "\<And>r. behind r s' \<Longrightarrow> streams (toks e @ r) t (yylval s) s"
    using call_readsD [OF parse_reads p(1)] next_token_real(2) [OF t] by (auto simp: read1_def)
  have "streams (toks e) t (yylval s) s" using e(2) [of "[]"] p(2) by simp
  from that [OF e(1)] streams_lexes [OF t this] show ?thesis by simp
qed

text \<open>
  C6. arith gives a value to the expressions of the grammar and to nothing else: it returns a
  value and new variables exactly when the string lexes into the tokens of an expression, with the precedence and associativity of
  C, whose evaluation gives that value and these variables. Every other string is an error.
\<close>

theorem arith_accepts:
  "arith g y lt str vars = Inr (v, vars') \<longleftrightarrow>
   (\<exists>e. wf_aexp e \<and> lexes str (toks e) \<and> value_of g e vars = Inr (v, vars'))"
proof
  assume a: "arith g y lt str vars = Inr (v, vars')"
  then obtain e where e: "wf_aexp e" "lexes str (toks e)" using arith_reads by blast
  then show "\<exists>e. wf_aexp e \<and> lexes str (toks e) \<and> value_of g e vars = Inr (v, vars')"
    using a arith_expression [OF e, of g y lt vars] by auto
next
  assume "\<exists>e. wf_aexp e \<and> lexes str (toks e) \<and> value_of g e vars = Inr (v, vars')"
  then show "arith g y lt str vars = Inr (v, vars')" using arith_expression by auto
qed

end
