(* ===== verification/Sh_Store.thy ===== *)
theory Sh_Store
  imports Sh_Call Sh_Sound
begin

text \<open>
  The variables of sh as the store of its arithmetic: setvar and lookupvar keep the contract that
  \<open>store_var\<close> states, and the state the shell starts with satisfies the invariant.
\<close>

subsection \<open>The contract\<close>

text \<open>
  A store of values: what is put under a name is looked up there, and elsewhere nothing changes, except that
  a name may be fixed, when nothing is put.
\<close>

locale value_store =
  fixes good :: "'s \<Rightarrow> bool" and look :: "'s \<Rightarrow> 'k \<Rightarrow> 'v option" and fixed :: "'s \<Rightarrow> 'k \<Rightarrow> bool"
    and put :: "'k \<Rightarrow> 'v \<Rightarrow> 's \<Rightarrow> 's option"
  assumes put_fixed: "good st \<Longrightarrow> fixed st k \<Longrightarrow> put k v st = None"
    and put_look: "good st \<Longrightarrow> \<not> fixed st k \<Longrightarrow>
      \<exists>st'. put k v st = Some st' \<and> good st' \<and> look st' = (look st)(k \<mapsto> v) \<and> fixed st' = fixed st"
begin

primrec puts :: "('k \<times> 'v) list \<Rightarrow> 's \<Rightarrow> 's option" where
  "puts [] st = Some st"
| "puts (p # ps) st = (case put (fst p) (snd p) st of None \<Rightarrow> None | Some st' \<Rightarrow> puts ps st')"

lemma puts_look:
  "good st \<Longrightarrow> \<forall>(k, v) \<in> set ps. \<not> fixed st k \<Longrightarrow>
   \<exists>st'. puts ps st = Some st' \<and> good st' \<and> look st' = look st ++ map_of (rev ps) \<and> fixed st' = fixed st"
proof (induction ps arbitrary: st)
  case (Cons p ps)
  obtain k v where p: "p = (k, v)" by fastforce
  obtain st1 where st1: "put k v st = Some st1" "good st1" "look st1 = (look st)(k \<mapsto> v)" "fixed st1 = fixed st"
    using put_look [OF Cons(2), of k v] Cons(3) p by auto
  from Cons(1) [OF st1(2)] Cons(3) st1(4) obtain st' where "puts ps st1 = Some st'" "good st'"
    "look st' = look st1 ++ map_of (rev ps)" "fixed st' = fixed st1" by auto
  then show ?case using st1 by (simp add: p map_add_def fun_eq_iff map_of_append split: option.split)
qed simp

lemma puts_fixed:
  assumes "good st" "\<forall>(k, v) \<in> set ps. \<not> fixed st k" "fixed st k"
  shows "puts (ps @ (k, v) # qs) st = None"
  using assms
proof (induction ps arbitrary: st)
  case Nil
  then show ?case using put_fixed by simp
next
  case (Cons p ps)
  then show ?case using put_look [OF Cons(2), of "fst p" "snd p"] by (cases p) auto
qed

end

subsection \<open>setvar keeps it\<close>

lemma mklocal_assign:
  assumes sc: "scope_inv st" and s: "EQ \<in> set s"
  shows "if name_of s \<in> readonly st then \<exists>st'. mklocal s st = Inl (Is_read_only (name_of s), st') \<and> vals st' = vals st \<and> readonly st' = readonly st
    else \<exists>st'. mklocal s st = Inr st' \<and> readonly st' = readonly st"
proof -
  have inv: "var_inv st" using sc by (simp add: scope_inv_def)
  have ne: "s \<noteq> ''-''" using s by auto
  show ?thesis
  proof (cases "find_var st s")
    case None
    then have r: "name_of s \<notin> readonly st" using find_var_None [OF inv] by (auto simp: readonly_def)
    have f: "VNOSET \<notin> all_export {VNOLOCAL, VSTRFIXED} st" by simp
    obtain st1 where "setvareq_found s (all_export {VNOLOCAL, VSTRFIXED} st) st = Inr st1" "readonly st1 = readonly st"
      using setvareq_found_sets [OF inv s, of "all_export {VNOLOCAL, VSTRFIXED} st"] r by (auto simp: sets_def)
    then show ?thesis using r None ne s by (simp add: mklocal_def setvareq_nolocal_def)
  next
    case (Some i)
    then have t: "in_table st i" "vname (vs_heap st i) = name_of s" using find_var_iff [OF inv] by auto
    let ?st = "set_var i ((vs_heap st i)\<lparr>v_flags := v_flags (vs_heap st i) \<union> {VSTRFIXED, VTEXTFIXED}\<rparr>) st"
    note fx = fix_flags [OF inv t(1)]
    have "v_name_len (vs_heap st i) = length (name_of s)" using var_ok_text(2) [OF in_table_ok(1) [OF inv t(1)]] t(2) by simp
    moreover have "length (name_of s) < length s" "s ! length (name_of s) = EQ"
      using name_of_split [OF s] by (metis length_append length_Cons less_add_Suc1 add_Suc_right, metis nth_append_length)
    ultimately have e: "mklocal s st = bind_result (setvareq_found s (all_export {VNOLOCAL} ?st) ?st)
        (\<lambda>st'. Inr (push_local (Local_var i (v_flags (vs_heap st i)) (Some (v_text (vs_heap st i)))) st'))"
      using Some ne by (simp add: mklocal_def Let_def setvareq_nolocal_def)
    show ?thesis
      using setvareq_found_sets [OF fx(1) s, of "all_export {VNOLOCAL} ?st"] fx(3,6) unfolding e by (auto simp: sets_def split: if_splits)
  qed
qed

lemma setvar_contract:
  assumes sc: "scope_inv st" and g: "good_name n"
  shows "if n \<in> readonly st then \<exists>st'. setvar n (Some v) {} st = Inl (Is_read_only n, st') \<and> vals st' = vals st \<and> readonly st' = readonly st
    else \<exists>st'. setvar n (Some v) {} st = Inr st' \<and> scope_inv st' \<and> vals st' = (vals st)(n \<mapsto> v) \<and> readonly st' = readonly st"
proof -
  let ?s = "n @ EQ # v"
  have n: "name_of n = n" "name_of ?s = n" "EQ \<in> set ?s" using good_name_plain [OF g] name_of_plain(2) by auto
  have eq: "setvar n (Some v) {} st = setvareq ?s {} st" using setvar_by_good(2) [of n] g n(1) by (simp add: setvar_def)
  have inv: "var_inv st" using sc by (simp add: scope_inv_def)
  have f: "if n \<in> readonly st1 then setvareq_found ?s (all_export {} st) st1 = Inl (Is_read_only n, st1)
      else \<exists>st'. setvareq_found ?s (all_export {} st) st1 = Inr st' \<and> readonly st' = readonly st1" if "var_inv st1" for st1
    using setvareq_found_sets [OF that n(3), of "all_export {} st"] n(2) by (auto simp: sets_def)
  have two: "if n \<in> readonly st then \<exists>st'. setvar n (Some v) {} st = Inl (Is_read_only n, st') \<and> vals st' = vals st \<and> readonly st' = readonly st
      else \<exists>st'. setvar n (Some v) {} st = Inr st' \<and> readonly st' = readonly st"
  proof (cases "0 < forcelocal st")
    case True
    then have e: "setvareq ?s {} st = bind_result (mklocal ?s st) (setvareq_found ?s (all_export {} st))" by (simp add: setvareq_def Let_def)
    show ?thesis
    proof (cases "n \<in> readonly st")
      case True
      then show ?thesis using mklocal_assign [OF sc n(3)] n(2) unfolding eq e by auto
    next
      case False
      then obtain st1 where m: "mklocal ?s st = Inr st1" "readonly st1 = readonly st" using mklocal_assign [OF sc n(3)] n(2) by auto
      have "var_inv st1" using mklocal_scope(1) [OF sc m(1)] by (simp add: scope_inv_def)
      then show ?thesis using f [of st1] False m unfolding eq e by auto
    qed
  next
    case False
    then have "setvareq ?s {} st = setvareq_found ?s (all_export {} st) st" by (simp add: setvareq_def Let_def)
    then show ?thesis using f [OF inv] unfolding eq by auto
  qed
  show ?thesis
  proof (cases "n \<in> readonly st")
    case False
    then obtain st' where st': "setvar n (Some v) {} st = Inr st'" "readonly st' = readonly st" using two by auto
    then show ?thesis using setvar_scope(1,4) [OF sc _ _ st'(1)] n(1) False by simp
  qed (use two in auto)
qed

definition setvar_value :: "string \<Rightarrow> string \<Rightarrow> vstate \<Rightarrow> vstate option" where
  "setvar_value n v st = (if good_name n then (case setvar n (Some v) {} st of Inl x \<Rightarrow> None | Inr st' \<Rightarrow> Some st') else None)"

interpretation sh_store: value_store scope_inv vals "\<lambda>st n. \<not> good_name n \<or> n \<in> readonly st" setvar_value
proof unfold_locales
  fix st n v
  assume sc: "scope_inv st"
  show "setvar_value n v st = None" if "\<not> good_name n \<or> n \<in> readonly st"
    using setvar_contract [OF sc, of n v] that by (auto simp: setvar_value_def)
  assume a: "\<not> (\<not> good_name n \<or> n \<in> readonly st)"
  then obtain st' where "setvar n (Some v) {} st = Inr st'" "scope_inv st'" "vals st' = (vals st)(n \<mapsto> v)" "readonly st' = readonly st"
    using setvar_contract [OF sc, of n v] by auto
  then show "\<exists>st'. setvar_value n v st = Some st' \<and> scope_inv st' \<and> vals st' = (vals st)(n \<mapsto> v) \<and>
      (\<lambda>n. \<not> good_name n \<or> n \<in> readonly st') = (\<lambda>n. \<not> good_name n \<or> n \<in> readonly st)"
    using a by (intro exI [of _ st']) (simp add: setvar_value_def)
qed

lemma setvar_value_Some: "setvar_value n v st = Some st' \<Longrightarrow> setvar n (Some v) {} st = Inr st'"
  by (auto simp: setvar_value_def split: if_splits sum.splits)

lemma run_assigns:
  assumes "scope_inv st" "\<forall>(n, v) \<in> set ps. good_name n \<and> n \<notin> readonly st"
  obtains st' where "run_ops (map (\<lambda>(n, v). Assign n v) ps) st = Inr st'" "scope_inv st'" "vals st' = vals st ++ map_of (rev ps)" "readonly st' \<inter> Collect good_name = readonly st \<inter> Collect good_name"
proof -
  have run: "sh_store.puts ps st = Some st' \<Longrightarrow> run_ops (map (\<lambda>(n, v). Assign n v) ps) st = Inr st'" for st'
  proof (induction ps arbitrary: st)
    case (Cons p ps)
    then show ?case by (cases p) (auto dest!: setvar_value_Some split: option.splits)
  qed simp
  obtain st' where "sh_store.puts ps st = Some st'" "scope_inv st'" "vals st' = vals st ++ map_of (rev ps)"
    "(\<lambda>n. \<not> good_name n \<or> n \<in> readonly st') = (\<lambda>n. \<not> good_name n \<or> n \<in> readonly st)"
    using sh_store.puts_look [OF assms(1), of ps] assms(2) by auto
  then show ?thesis using that [OF run] by (auto simp: fun_eq_iff)
qed

subsection \<open>Arithmetic on the table\<close>

fun assigned :: "aexp \<Rightarrow> string set" where
  "assigned (ANum v) = {}"
| "assigned (AVar x) = {}"
| "assigned (APar e) = assigned e"
| "assigned (AUn op e) = assigned e"
| "assigned (ABin op a b) = assigned a \<union> assigned b"
| "assigned (AAnd a b) = assigned a \<union> assigned b"
| "assigned (AOr a b) = assigned a \<union> assigned b"
| "assigned (ACond a b c) = assigned a \<union> assigned b \<union> assigned c"
| "assigned (AAssign op x e) = insert x (assigned e)"

lemma assigned_toks: "x \<in> assigned e \<Longrightarrow> (ARITH_VAR, Some (YName x)) \<in> set (toks e)"
  by (induction e) auto

lemma yylex_name: "yylex buf = (t, Some (YName x), r) \<Longrightarrow> good_name x"
proof (cases "dropWhile (\<lambda>c. c = CHR '' '' \<or> c = TAB \<or> c = NL) buf")
  case Nil
  assume "yylex buf = (t, Some (YName x), r)"
  then show ?thesis unfolding yylex_def Nil by simp
next
  case (Cons c cs)
  assume "yylex buf = (t, Some (YName x), r)"
  then show ?thesis unfolding yylex_def Cons list.case Let_def
    by (auto simp: checkeq_def good_name_def is_name_def list_all_iff dest: set_takeWhileD split: if_splits prod.splits)
qed

lemma lexes_name: "lexes buf ts \<Longrightarrow> (t, Some (YName x)) \<in> set ts \<Longrightarrow> good_name x"
proof (induction ts arbitrary: buf)
  case (Cons a ts)
  obtain c v r where y: "yylex buf = (c, v, r)" by (cases "yylex buf")
  then show ?case using Cons yylex_name [of buf t x r] by auto
qed simp

text \<open>What an evaluation does to the variables is a list of assignments.\<close>

definition writes :: "sh_env \<Rightarrow> string set \<Rightarrow> sh_vars \<Rightarrow> sh_vars \<Rightarrow> bool" where
  "writes g xs vars vars' \<longleftrightarrow> (\<exists>ps. vars' = vars ++ map_of (rev ps) \<and> (\<forall>(n, v) \<in> set ps. n \<in> xs \<and> n \<notin> sh_readonly g))"

lemma writes_refl: "writes g xs vars vars"
  unfolding writes_def by (intro exI [of _ "[]"]) simp

lemma writes_trans: "writes g xs a b \<Longrightarrow> writes g ys b c \<Longrightarrow> writes g (xs \<union> ys) a c"
proof -
  assume "writes g xs a b" "writes g ys b c"
  then obtain ps qs where "b = a ++ map_of (rev ps)" "\<forall>(n, v) \<in> set ps. n \<in> xs \<and> n \<notin> sh_readonly g"
    "c = b ++ map_of (rev qs)" "\<forall>(n, v) \<in> set qs. n \<in> ys \<and> n \<notin> sh_readonly g" unfolding writes_def by blast
  then show ?thesis unfolding writes_def by (intro exI [of _ "ps @ qs"]) (auto simp: map_add_assoc map_of_append)
qed

lemma writes_mono: "writes g xs a b \<Longrightarrow> xs \<subseteq> ys \<Longrightarrow> writes g ys a b"
  unfolding writes_def by fastforce

lemma assign_writes: "assign_var g op x w vars = Inr (v, vars') \<Longrightarrow> writes g {x} vars vars'"
proof -
  assume "assign_var g op x w vars = Inr (v, vars')"
  then have "x \<notin> sh_readonly g" "vars' = vars(x \<mapsto> print_int (sint v))"
    by (auto simp: assign_var_def store_var_def bind_result_Inr split: if_splits)
  then show ?thesis unfolding writes_def by (intro exI [of _ "[(x, print_int (sint v))]"]) (simp add: map_add_def fun_eq_iff)
qed

lemma value_writes: "value_of g e vars = Inr (v, vars') \<Longrightarrow> writes g (assigned e) vars vars'"
proof (induction e arbitrary: vars v vars')
  case (ABin op a b)
  then obtain u va w vb where "value_of g a vars = Inr (u, va)" "value_of g b va = Inr (w, vars')" by (auto simp: bind_result_Inr)
  then show ?case using ABin(1,2) writes_trans by fastforce
next
  case (AAnd a b)
  then obtain u va where a: "value_of g a vars = Inr (u, va)" "vars' = va \<or> (\<exists>w. value_of g b va = Inr (w, vars'))"
    by (auto simp: bind_result_Inr split: if_splits)
  then show ?case using AAnd(1,2) writes_trans writes_mono by (metis assigned.simps(6) sup_ge1)
next
  case (AOr a b)
  then obtain u va where a: "value_of g a vars = Inr (u, va)" "vars' = va \<or> (\<exists>w. value_of g b va = Inr (w, vars'))"
    by (auto simp: bind_result_Inr split: if_splits)
  then show ?case using AOr(1,2) writes_trans writes_mono by (metis assigned.simps(7) sup_ge1)
next
  case (ACond a b c)
  then obtain u va where a: "value_of g a vars = Inr (u, va)" "value_of g b va = Inr (v, vars') \<or> value_of g c va = Inr (v, vars')"
    by (auto simp: bind_result_Inr split: if_splits)
  then have "writes g (assigned a \<union> assigned b) vars vars' \<or> writes g (assigned a \<union> assigned c) vars vars'"
    using ACond(1,2,3) writes_trans by blast
  then show ?case by (auto elim!: writes_mono)
next
  case (AAssign op x e)
  then obtain w va where "value_of g e vars = Inr (w, va)" "assign_var g op x w va = Inr (v, vars')" by (auto simp: bind_result_Inr)
  then show ?case using writes_trans [OF AAssign(1) assign_writes] by (metis assigned.simps(9) insert_is_Un sup_commute)
qed (auto simp: bind_result_Inr writes_refl)

text \<open>
  C20. Arithmetic works on the table of var.c. When arith returns a value for the values the variables
  have in the table, there is a sequence of assignments to the variables the expression names, none of them read-only,
  that setvar carries out without an error on the table, and then the table has exactly the values that arith
  computed; it still satisfies its invariant.
\<close>

theorem arith_on_table:
  assumes "scope_inv st" "sh_readonly g = readonly st" "arith g y lt str (vals st) = Inr (v, vars')"
  shows "\<exists>ps st'. run_ops (map (\<lambda>(n, v). Assign n v) ps) st = Inr st' \<and> vals st' = vars' \<and> scope_inv st' \<and>
    (\<forall>(n, v) \<in> set ps. good_name n \<and> n \<notin> readonly st)"
proof -
  obtain e where e: "wf_aexp e" "lexes str (toks e)" using arith_reads [OF assms(3)] by blast
  have "value_of g e (vals st) = Inr (v, vars')" using arith_expression [OF e] assms(3) by metis
  then obtain ps where ps: "vars' = vals st ++ map_of (rev ps)" "\<forall>(n, v) \<in> set ps. n \<in> assigned e \<and> n \<notin> sh_readonly g"
    using value_writes unfolding writes_def by blast
  have g: "\<forall>(n, v) \<in> set ps. good_name n \<and> n \<notin> readonly st" using ps(2) lexes_name [OF e(2) assigned_toks] assms(2) by fastforce
  obtain st' where "run_ops (map (\<lambda>(n, v). Assign n v) ps) st = Inr st'" "scope_inv st'" "vals st' = vals st ++ map_of (rev ps)"
    using run_assigns [OF assms(1) g] by metis
  then show ?thesis using g ps(1) by auto
qed

theorem arith_on_table_witness:
  "\<exists>ps st'. run_ops (map (\<lambda>(n, v). Assign n v) ps) empty_vars = Inr st' \<and> vals st' = (vals empty_vars)(''x'' \<mapsto> ''-3'') \<and> scope_inv st' \<and>
    (\<forall>(n, v) \<in> set ps. good_name n \<and> n \<notin> readonly empty_vars)"
proof -
  let ?g = "\<lparr>sh_uflag = True, sh_readonly = {}, sh_ptr = (\<lambda>_. 0)\<rparr>"
  let ?e = "AAssign ARITH_ASS ''x'' (ABin ARITH_SUB (ANum 4) (ANum 7))"
  have wf: "wf_aexp ?e" by code_simp
  have lex: "lexes ''x=4-7'' (toks ?e)" by code_simp
  have "print_int (- 3) = ''-3''" by code_simp
  then have "value_of ?g ?e (vals empty_vars) = Inr (- 3, (vals empty_vars)(''x'' \<mapsto> ''-3''))"
    by (simp add: do_binop_def assign_var_def store_var_def)
  then have a: "arith ?g (YVal 0) 0 ''x=4-7'' (vals empty_vars) = Inr (- 3, (vals empty_vars)(''x'' \<mapsto> ''-3''))"
    using arith_expression [OF wf lex] by metis
  have s: "scope_inv empty_vars" by (simp add: scope_inv_def empty_vars_def var_inv_def)
  have r: "sh_readonly ?g = readonly empty_vars" by (simp add: empty_vars_def readonly_def in_table_def)
  show ?thesis by (rule arith_on_table [OF s r a])
qed

subsection \<open>The environment of commands\<close>

lemma bucket_less: "bucket s < VTABSIZE"
  by (simp add: bucket_def)

text \<open>A program is given exactly the exported variables.\<close>

lemma environment_exported:
  assumes "var_inv st"
  shows "set (environment st) = {v_text (vs_heap st i) |i. in_table st i \<and> VEXPORT \<in> v_flags (vs_heap st i)}"
proof -
  have "in_table st i \<longleftrightarrow> (\<exists>b<VTABSIZE. i \<in> set (vartab st b))" for i
    using assms bucket_less by (auto simp: in_table_def var_inv_def)
  then show ?thesis by (fastforce simp: environment_def)
qed

lemma export_marks:
  assumes inv: "var_inv st" and f: "find_var st n = Some i" "EQ \<notin> set n"
  obtains st' where "export_arg fl n st = Inr st'" "fl \<in> v_flags (vs_heap st' i)" "fl \<noteq> VUNSET \<Longrightarrow> vals st' = vals st \<and> var_inv st'"
proof -
  let ?v = "vs_heap st i"
  define v where "v = ?v\<lparr>v_flags := insert fl (v_flags ?v)\<rparr>"
  have t: "in_table st i" "vname ?v = name_of n" using find_var_iff [OF inv] f(1) by auto
  have e: "export_arg fl n st = Inr (log (locale_events v) (set_var i v st))" using f by (simp add: export_arg_def v_def Let_def)
  have "vals (set_var i v st) = vals st \<and> var_inv (set_var i v st)" if "fl \<noteq> VUNSET"
  proof -
    have v: "var_ok v" "vname v = vname ?v" "val_of v = val_of ?v"
      using in_table_ok(1) [OF inv t(1)] that by (simp_all add: v_def var_ok_def vname_def vvalue_def val_of_def)
    show ?thesis using set_var_table(1,3) [OF inv t(1) v(1,2)] v(2,3) vals_in_table [OF inv t(1) refl] by (auto simp: fun_eq_iff)
  qed
  then show ?thesis using that [OF e] by (simp add: v_def)
qed

subsection \<open>The start of the shell\<close>

definition init_ok :: "nat set \<Rightarrow> vstate \<Rightarrow> bool" where
  "init_ok A st \<longleftrightarrow> var_inv st \<and> readonly st = {} \<and> (\<forall>b. set (vartab st b) \<subseteq> A) \<and> vs_free st = 11 \<and> forcelocal st = 0 \<and> localvars st = []"

definition static_ok :: "nat \<times> vflag set \<times> string \<times> vfunc option \<Rightarrow> bool" where
  "static_ok x \<longleftrightarrow> (case x of (vp, fl, t, f) \<Rightarrow> vp < 11 \<and> EQ \<in> set t \<and> VREADONLY \<notin> fl \<and> (VUNSET \<in> fl \<longrightarrow> drop (length (name_of t) + 1) t = []))"

lemma init_static_ok:
  assumes ok: "init_ok A st" "static_ok x" "fst x \<notin> A" shows "init_ok (insert (fst x) A) (init_static x st)"
proof -
  obtain vp fl t f where x: "x = (vp, fl, t, f)" by (cases x)
  have s: "vp < 11" "EQ \<in> set t" "VREADONLY \<notin> fl" "VUNSET \<in> fl \<Longrightarrow> drop (length (name_of t) + 1) t = []" using ok(2) by (auto simp: x static_ok_def)
  have inv: "var_inv st" "readonly st = {}" "\<And>b. set (vartab st b) \<subseteq> A" "vs_free st = 11" "forcelocal st = 0" "localvars st = []" using ok(1) by (auto simp: init_ok_def)
  show ?thesis
  proof (cases "find_var st t")
    case (Some i)
    then show ?thesis using ok(1) by (auto simp: x init_static_def init_ok_def)
  next
    case None
    define v where "v = \<lparr>v_flags = fl \<union> {VSTRFIXED, VTEXTFIXED}, v_name_len = length (name_of t), v_text = t, v_func = f\<rparr>"
    have v: "var_ok v" "vname v = name_of t" using var_okI [of v "name_of t" "drop (length (name_of t) + 1) t"] name_of_split [OF s(2)] name_of_plain(3) [of t] s(4)
      by (auto simp: v_def)
    let ?st = "init_static x st"
    have h: "vs_heap ?st = (vs_heap st)(vp := v)" "vartab ?st = (vartab st)(bucket (vname v) := vp # vartab st (bucket (vname v)))"
      "vs_free ?st = 11" "forcelocal ?st = 0" "localvars ?st = []"
      using None inv v(2) by (simp_all add: x init_static_def v_def bucket_name_of)
    have o: "\<forall>j. in_table st j \<longrightarrow> vname (vs_heap st j) \<noteq> vname v" using None find_var_None [OF inv(1)] v(2) by simp
    have u: "\<forall>b. vp \<notin> set (vartab st b)" using inv(3) ok(3) x by auto
    have lt: "vp < vs_free ?st" "vs_free st \<le> vs_free ?st" using h(3) inv(4) s(1) by simp_all
    note l = link_table [OF inv(1) v(1) o u h(1,2) lt]
    have "readonly ?st = {}" using l(4) inv(2) s(3) by (simp add: v_def)
    moreover have "set (vartab ?st b) \<subseteq> insert vp A" for b using inv(3) [of b] by (auto simp: h(2))
    ultimately show ?thesis using l(1) h(3,4,5) by (simp add: init_ok_def x)
  qed
qed

lemma init_statics_ok:
  "init_ok A st \<Longrightarrow> list_all static_ok xs \<Longrightarrow> distinct (map fst xs) \<Longrightarrow> fst ` set xs \<inter> A = {} \<Longrightarrow>
   init_ok (A \<union> fst ` set xs) (fold init_static xs st)"
proof (induction xs arbitrary: A st)
  case (Cons x xs)
  have "init_ok (insert (fst x) A) (init_static x st)" using Cons by (intro init_static_ok) auto
  moreover have "fst ` set xs \<inter> insert (fst x) A = {}" using Cons(4,5) by auto
  ultimately show ?case using Cons(1) [of "insert (fst x) A" "init_static x st"] Cons(3,4) by simp
qed simp

definition started :: "vstate \<Rightarrow> bool" where
  "started st \<longleftrightarrow> var_inv st \<and> readonly st = {} \<and> forcelocal st = 0 \<and> localvars st = []"

lemma started_set:
  assumes "started st" "EQ \<in> set s" "VUNSET \<notin> fl" "VNOSET \<notin> fl" "VREADONLY \<notin> fl"
  obtains st' where "setvareq s fl st = Inr st'" "started st'" "vals st' = (vals st)(name_of s \<mapsto> drop (length (name_of s) + 1) s)"
proof -
  have e: "setvareq s fl st = setvareq_found s (all_export fl st) st" using assms(1) by (simp add: setvareq_def started_def)
  have "\<exists>st'. setvareq_found s (all_export fl st) st = Inr st' \<and> sets (name_of s) (flag_val (all_export fl st) s) (VREADONLY \<in> all_export fl st) st st'"
    using setvareq_found_sets [of st s "all_export fl st"] assms by (simp add: started_def)
  then show ?thesis using that assms unfolding e by (auto simp: started_def sets_def keeps_def flag_val_def)
qed

lemma import_env_started: "started st \<Longrightarrow> \<exists>st'. import_env es st = Inr st' \<and> started st'"
proof (induction es arbitrary: st)
  case (Cons e es)
  show ?case
  proof (cases "EQ \<in> set e")
    case True
    then obtain st1 where "setvareq e {VEXPORT, VTEXTFIXED} st = Inr st1" "started st1" using started_set [OF Cons(2), of e "{VEXPORT, VTEXTFIXED}"] by auto
    then show ?thesis using Cons(1) True by simp
  qed (use Cons in simp)
qed simp

text \<open>
  C35. The shell starts with a good table. initvar succeeds for every environment, also one with entries that
  are no assignments or have improper names, and gives a table that satisfies the invariant, in which nothing is
  read-only or local and which has IFS and OPTIND at their standard values, whatever the environment says of them.
\<close>

theorem initvar_starts:
  "\<exists>st. initvar defpath root ppid environ = Inr st \<and> var_inv st \<and> readonly st = {} \<and> localvars st = [] \<and> forcelocal st = 0 \<and>
     vals st ''IFS'' = Some ('' '' @ [TAB, NL]) \<and> vals st ''OPTIND'' = Some ''1''"
proof -
  have 0: "init_ok {} empty_vars" by (simp add: init_ok_def empty_vars_def var_inv_def readonly_def in_table_def)
  have path: "static_ok (vpath, {}, ''PATH='' @ defpath, Some Changepath)" by (simp add: static_ok_def)
  have "list_all static_ok (varinit [])" by code_simp
  then have 1: "list_all static_ok (varinit defpath)" using path by (simp add: varinit_def)
  have 2: "distinct (map fst (varinit defpath))" "fst ` set (varinit defpath) = {0..<10}" by (auto simp: varinit_def)
  have 3: "init_ok {0..<10} (fold init_static (varinit defpath) empty_vars)" using init_statics_ok [OF 0 1 2(1)] 2(2) by simp
  let ?p = "(vps1, {}, (if root then ''PS1=# '' else ''PS1=$ ''), None)"
  have "static_ok ?p" by (simp add: static_ok_def)
  from init_static_ok [OF 3 this] have s1: "started (init_static ?p (fold init_static (varinit defpath) empty_vars))" by (auto simp: init_ok_def started_def)
  define st1 where "st1 = init_static ?p (fold init_static (varinit defpath) empty_vars)"
  have n: "name_of ''PPID'' = ''PPID''" "good_name ''PPID''" by code_simp+
  have s1': "var_inv st1" "forcelocal st1 = 0" "good_name (name_of ''PPID'')" "name_of ''PPID'' \<notin> readonly st1" "readonly st1 = {}" "localvars st1 = []"
    using s1 n by (simp_all add: st1_def [symmetric] started_def)
  obtain st2 where ss: "setvar ''PPID'' (Some (decimal ppid)) {} st1 = Inr st2" "sets (name_of ''PPID'') (Some (decimal ppid)) False st1 st2"
    using setvar_global [OF s1'(1,2,3,4)] .
  have "started st2" using ss(2) s1' by (simp add: started_def sets_def keeps_def)
  then have ppid: "started (snd (setvarsafe ''PPID'' (Some (decimal ppid)) {} st1))" using ss(1) by (simp add: setvarsafe_def)
  then obtain st3 where st3: "import_env environ (snd (setvarsafe ''PPID'' (Some (decimal ppid)) {} st1)) = Inr st3" "started st3"
    using import_env_started by blast
  have o: "EQ \<in> set ''OPTIND=1''" "name_of ''OPTIND=1'' = ''OPTIND''" "drop (length ''OPTIND'' + 1) ''OPTIND=1'' = ''1''" by code_simp+
  obtain st4 where st4: "setvareq ''OPTIND=1'' {VTEXTFIXED} st3 = Inr st4" "started st4" "vals st4 = (vals st3)(''OPTIND'' \<mapsto> ''1'')"
    using started_set [OF st3(2) o(1), of "{VTEXTFIXED}"] unfolding o(2,3) by auto
  let ?i = "''IFS= '' @ [TAB, NL]"
  have i: "EQ \<in> set ?i" "name_of ?i = ''IFS''" "drop (length ''IFS'' + 1) ?i = '' '' @ [TAB, NL]" by code_simp+
  obtain st5 where st5: "setvareq ?i {VTEXTFIXED} st4 = Inr st5" "started st5" "vals st5 = (vals st4)(''IFS'' \<mapsto> '' '' @ [TAB, NL])"
    using started_set [OF st4(2) i(1), of "{VTEXTFIXED}"] unfolding i(2,3) by auto
  have "initvar defpath root ppid environ = Inr st5"
    unfolding initvar_def Let_def st1_def [symmetric] st3(1) using st4(1) st5(1) by simp
  then show ?thesis using st5(2,3) st4(3) by (simp add: started_def)
qed

end
