(* ===== verification/Test_Cmd.thy ===== *)
theory Test_Cmd
  imports C_Number
begin

text \<open>
  The command test: shell_cmds/test/test.c. The arguments are a list with a NULL behind it, \<open>t_wp\<close> is an
  index into it, and every read outside of them is an error of the model. What the command asks of the system, the
  status and the permissions of files, terminals and the user, is a parameter. The calls of the parser go through \<open>call\<close>, which
  is the parser with one level of recursion less.
\<close>

subsection \<open>Tokens\<close>

datatype token_types = NONE | UNOP | BINOP | BUNOP | BBINOP | PAREN

datatype token =
    EOI | OPERAND | FILRD | FILWR | FILEX | FILEXIST | FILREG | FILDIR | FILCDEV | FILBDEV | FILFIFO | FILSOCK | FILSYM
  | FILGZ | FILTT | FILSUID | FILSGID | FILSTCK | STREZ | STRNZ | FILUID | FILGID
  | FILNT | FILOT | FILEQ | STREQ | STRNE | STRLT | STRGT | INTEQ | INTNE | INTGE | INTGT | INTLE | INTLT
  | UNOT | BAND | BOR | LPAREN | RPAREN

definition token_type :: "token \<Rightarrow> token_types" where
  "token_type t = (case t of
     EOI \<Rightarrow> NONE | OPERAND \<Rightarrow> NONE | UNOT \<Rightarrow> BUNOP | BAND \<Rightarrow> BBINOP | BOR \<Rightarrow> BBINOP | LPAREN \<Rightarrow> PAREN | RPAREN \<Rightarrow> PAREN
   | FILNT \<Rightarrow> BINOP | FILOT \<Rightarrow> BINOP | FILEQ \<Rightarrow> BINOP | STREQ \<Rightarrow> BINOP | STRNE \<Rightarrow> BINOP | STRLT \<Rightarrow> BINOP | STRGT \<Rightarrow> BINOP
   | INTEQ \<Rightarrow> BINOP | INTNE \<Rightarrow> BINOP | INTGE \<Rightarrow> BINOP | INTGT \<Rightarrow> BINOP | INTLE \<Rightarrow> BINOP | INTLT \<Rightarrow> BINOP
   | _ \<Rightarrow> UNOP)"

definition ops :: "(string \<times> token) list" where
  "ops = [(''-r'', FILRD), (''-w'', FILWR), (''-x'', FILEX), (''-e'', FILEXIST), (''-f'', FILREG), (''-d'', FILDIR),
     (''-c'', FILCDEV), (''-b'', FILBDEV), (''-p'', FILFIFO), (''-u'', FILSUID), (''-g'', FILSGID), (''-k'', FILSTCK),
     (''-s'', FILGZ), (''-t'', FILTT), (''-z'', STREZ), (''-n'', STRNZ), (''-h'', FILSYM), (''-O'', FILUID),
     (''-G'', FILGID), (''-L'', FILSYM), (''-S'', FILSOCK), (''='', STREQ), (''=='', STREQ), (''!='', STRNE),
     (''<'', STRLT), (''>'', STRGT), (''-eq'', INTEQ), (''-ne'', INTNE), (''-ge'', INTGE), (''-gt'', INTGT),
     (''-le'', INTLE), (''-lt'', INTLT), (''-nt'', FILNT), (''-ot'', FILOT), (''-ef'', FILEQ), (''!'', UNOT),
     (''-a'', BAND), (''-o'', BOR), (''('', LPAREN), ('')'', RPAREN)]"

datatype test_error =
    Missing_bracket | Unexpected_operator string | Closing_paren | Argument_expected string | Bad_number string
  | Out_of_range string | Past_end | Null_string | Depth_out | Aborted

text \<open>The status of a file, as stat gives it.\<close>

datatype file_type = S_REG | S_DIR | S_CHR | S_BLK | S_FIFO | S_SOCK | S_LNK | S_OTHER

record fstat =
  st_type :: file_type
  st_isuid :: bool
  st_isgid :: bool
  st_isvtx :: bool
  st_anyx :: bool
  st_size :: int
  st_uid :: int
  st_gid :: int
  st_mtime :: "int \<times> int"
  st_dev :: int
  st_ino :: int

datatype access = R_OK | W_OK | X_OK | F_OK

record system =
  sys_stat :: "string \<Rightarrow> fstat option"
  sys_lstat :: "string \<Rightarrow> fstat option"
  sys_eaccess :: "string \<Rightarrow> access \<Rightarrow> bool"
  sys_isatty :: "int \<Rightarrow> bool"
  sys_geteuid :: int
  sys_getegid :: int

record test_state =
  t_args :: "string list"
  t_wp :: int
  nargc :: int
  parenlevel :: int

subsection \<open>Numbers and files\<close>

text \<open>strtol with base 10, without the saturation: no number, or a value and the rest.\<close>

definition strtol10 :: "string \<Rightarrow> (int \<times> string) option" where
  "strtol10 s =
     (let (neg, s2) = strip_sign (dropWhile isspace s) in
      if s2 \<noteq> [] \<and> digit_val (hd s2) < 10 then
        (let (v, r) = scan_digits 10 0 s2 in Some (if neg then - v else v, r))
      else None)"

definition getq :: "string \<Rightarrow> test_error + int" where
  "getq s = (case strtol10 s of
     None \<Rightarrow> Inl (Bad_number s)
   | Some (r, p) \<Rightarrow>
       if r < - (2 ^ 63) \<or> 2 ^ 63 \<le> r then Inl (Out_of_range s)
       else if dropWhile isspace p \<noteq> [] then Inl (Bad_number s)
       else Inr r)"

definition getn :: "string \<Rightarrow> test_error + int" where
  "getn s = bind_result (getq s) (\<lambda>r. Inr (c_int r))"

definition intcmp :: "string \<Rightarrow> string \<Rightarrow> test_error + int" where
  "intcmp s1 s2 = bind_result (getq s1) (\<lambda>q1. bind_result (getq s2) (\<lambda>q2.
     Inr (if q1 > q2 then 1 else if q1 < q2 then - 1 else 0)))"

fun strcmp :: "string \<Rightarrow> string \<Rightarrow> int" where
  "strcmp [] [] = 0"
| "strcmp [] (b # bs) = - 1"
| "strcmp (a # as) [] = 1"
| "strcmp (a # as) (b # bs) = (if a = b then strcmp as bs else code a - code b)"

definition newerf :: "system \<Rightarrow> string \<Rightarrow> string \<Rightarrow> bool" where
  "newerf sys f1 f2 = (case (sys_stat sys f1, sys_stat sys f2) of
     (Some b1, Some b2) \<Rightarrow>
       if fst (st_mtime b1) > fst (st_mtime b2) then True
       else if fst (st_mtime b1) < fst (st_mtime b2) then False
       else snd (st_mtime b1) > snd (st_mtime b2)
   | _ \<Rightarrow> False)"

definition olderf :: "system \<Rightarrow> string \<Rightarrow> string \<Rightarrow> bool" where
  "olderf sys f1 f2 = newerf sys f2 f1"

definition equalf :: "system \<Rightarrow> string \<Rightarrow> string \<Rightarrow> bool" where
  "equalf sys f1 f2 = (case (sys_stat sys f1, sys_stat sys f2) of
     (Some b1, Some b2) \<Rightarrow> st_dev b1 = st_dev b2 \<and> st_ino b1 = st_ino b2 | _ \<Rightarrow> False)"

definition filstat :: "system \<Rightarrow> string \<Rightarrow> token \<Rightarrow> bool" where
  "filstat sys nm mode = (case (if mode = FILSYM then sys_lstat sys nm else sys_stat sys nm) of
     None \<Rightarrow> False
   | Some s \<Rightarrow> (case mode of
       FILRD \<Rightarrow> sys_eaccess sys nm R_OK
     | FILWR \<Rightarrow> sys_eaccess sys nm W_OK
     | FILEX \<Rightarrow> sys_eaccess sys nm X_OK \<and> (st_type s = S_DIR \<or> sys_geteuid sys \<noteq> 0 \<or> st_anyx s)
     | FILEXIST \<Rightarrow> sys_eaccess sys nm F_OK
     | FILREG \<Rightarrow> st_type s = S_REG
     | FILDIR \<Rightarrow> st_type s = S_DIR
     | FILCDEV \<Rightarrow> st_type s = S_CHR
     | FILBDEV \<Rightarrow> st_type s = S_BLK
     | FILFIFO \<Rightarrow> st_type s = S_FIFO
     | FILSOCK \<Rightarrow> st_type s = S_SOCK
     | FILSYM \<Rightarrow> st_type s = S_LNK
     | FILSUID \<Rightarrow> st_isuid s
     | FILSGID \<Rightarrow> st_isgid s
     | FILSTCK \<Rightarrow> st_isvtx s
     | FILGZ \<Rightarrow> st_size s > 0
     | FILUID \<Rightarrow> st_uid s = sys_geteuid sys
     | FILGID \<Rightarrow> st_gid s = sys_getegid sys
     | _ \<Rightarrow> True))"

subsection \<open>The lexer\<close>

definition arg :: "test_state \<Rightarrow> int \<Rightarrow> test_error + string option" where
  "arg st i = (if 0 \<le> i \<and> i < int (length (t_args st)) then Inr (Some (t_args st ! nat i))
     else if i = int (length (t_args st)) then Inr None else Inl Past_end)"

definition arg_string :: "test_state \<Rightarrow> int \<Rightarrow> test_error + string" where
  "arg_string st i = bind_result (arg st i) (\<lambda>s. case s of None \<Rightarrow> Inl Null_string | Some s \<Rightarrow> Inr s)"

definition is_binop_text :: "string \<Rightarrow> bool" where
  "is_binop_text s \<longleftrightarrow> (case map_of ops s of None \<Rightarrow> False | Some t \<Rightarrow> token_type t = BINOP)"

definition isunopoperand :: "test_state \<Rightarrow> test_error + bool" where
  "isunopoperand st =
     (if nargc st = 1 then Inr True
      else bind_result (arg_string st (t_wp st + 1)) (\<lambda>s.
        if nargc st = 2 then Inr (parenlevel st = 1 \<and> s = '')'')
        else bind_result (arg_string st (t_wp st + 2)) (\<lambda>t.
          Inr (is_binop_text s \<and> (parenlevel st = 0 \<or> t \<noteq> '')'')))))"

definition islparenoperand :: "test_state \<Rightarrow> test_error + bool" where
  "islparenoperand st =
     (if nargc st = 1 then Inr True
      else bind_result (arg_string st (t_wp st + 1)) (\<lambda>s.
        if nargc st = 2 then Inr (parenlevel st = 1 \<and> s = '')'')
        else if nargc st \<noteq> 3 then Inr False
        else Inr (is_binop_text s)))"

definition isrparenoperand :: "test_state \<Rightarrow> test_error + bool" where
  "isrparenoperand st =
     (if nargc st = 1 then Inr False
      else bind_result (arg_string st (t_wp st + 1)) (\<lambda>s.
        if nargc st = 2 then Inr (parenlevel st = 1 \<and> s = '')'') else Inr False))"

definition t_lex :: "test_state \<Rightarrow> string option \<Rightarrow> test_error + token" where
  "t_lex st s = (case s of
     None \<Rightarrow> Inr EOI
   | Some s \<Rightarrow> (case map_of ops s of
       None \<Rightarrow> Inr OPERAND
     | Some t \<Rightarrow>
         bind_result (if token_type t = UNOP \<or> token_type t = BUNOP then isunopoperand st
                      else if t = LPAREN then islparenoperand st
                      else if t = RPAREN then isrparenoperand st else Inr False)
         (\<lambda>operand. Inr (if operand then OPERAND else t))))"

text \<open>nargc > 0 ? (--nargc, *++t_wp) : NULL, and the lexer on it.\<close>

definition advance :: "test_state \<Rightarrow> test_error + (string option \<times> test_state)" where
  "advance st = (if nargc st > 0 then
       bind_result (arg st (t_wp st + 1)) (\<lambda>s. Inr (s, st\<lparr>nargc := nargc st - 1, t_wp := t_wp st + 1\<rparr>))
     else Inr (None, st))"

definition lex_next :: "test_state \<Rightarrow> test_error + (token \<times> test_state)" where
  "lex_next st = bind_result (advance st) (\<lambda>(s, st). bind_result (t_lex st s) (\<lambda>t. Inr (t, st)))"

definition step_back :: "test_state \<Rightarrow> test_state" where
  "step_back st = st\<lparr>t_wp := t_wp st - 1, nargc := nargc st + 1\<rparr>"

subsection \<open>The parser\<close>

datatype test_call = Oexpr token | Aexpr token | Nexpr token | Prim token

type_synonym test_result = "test_error + (bool \<times> test_state)"
type_synonym test_rec = "test_call \<Rightarrow> test_state \<Rightarrow> test_result"

text \<open>The switches of binop and of primary on the operator.\<close>

definition binop_value :: "system \<Rightarrow> token \<Rightarrow> string \<Rightarrow> string \<Rightarrow> test_error + bool" where
  "binop_value sys n opnd1 opnd2 = (case n of
     STREQ \<Rightarrow> Inr (strcmp opnd1 opnd2 = 0)
   | STRNE \<Rightarrow> Inr (strcmp opnd1 opnd2 \<noteq> 0)
   | STRLT \<Rightarrow> Inr (strcmp opnd1 opnd2 < 0)
   | STRGT \<Rightarrow> Inr (strcmp opnd1 opnd2 > 0)
   | INTEQ \<Rightarrow> bind_result (intcmp opnd1 opnd2) (\<lambda>c. Inr (c = 0))
   | INTNE \<Rightarrow> bind_result (intcmp opnd1 opnd2) (\<lambda>c. Inr (c \<noteq> 0))
   | INTGE \<Rightarrow> bind_result (intcmp opnd1 opnd2) (\<lambda>c. Inr (c \<ge> 0))
   | INTGT \<Rightarrow> bind_result (intcmp opnd1 opnd2) (\<lambda>c. Inr (c > 0))
   | INTLE \<Rightarrow> bind_result (intcmp opnd1 opnd2) (\<lambda>c. Inr (c \<le> 0))
   | INTLT \<Rightarrow> bind_result (intcmp opnd1 opnd2) (\<lambda>c. Inr (c < 0))
   | FILNT \<Rightarrow> Inr (newerf sys opnd1 opnd2)
   | FILOT \<Rightarrow> Inr (olderf sys opnd1 opnd2)
   | FILEQ \<Rightarrow> Inr (equalf sys opnd1 opnd2)
   | _ \<Rightarrow> Inl Aborted)"

definition unop_value :: "system \<Rightarrow> token \<Rightarrow> string \<Rightarrow> test_error + bool" where
  "unop_value sys n s = (case n of
     STREZ \<Rightarrow> Inr (s = [])
   | STRNZ \<Rightarrow> Inr (s \<noteq> [])
   | FILTT \<Rightarrow> bind_result (getn s) (\<lambda>fd. Inr (sys_isatty sys fd))
   | _ \<Rightarrow> Inr (filstat sys s n))"

definition test_binop :: "system \<Rightarrow> token \<Rightarrow> test_state \<Rightarrow> test_result" where
  "test_binop sys n st =
     bind_result (arg_string st (t_wp st)) (\<lambda>opnd1.
     bind_result (advance st) (\<lambda>(op, st).
     bind_result (advance st) (\<lambda>(opnd2, st).
       case opnd2 of
         None \<Rightarrow> Inl (Argument_expected (case op of None \<Rightarrow> [] | Some s \<Rightarrow> s))
       | Some opnd2 \<Rightarrow> bind_result (binop_value sys n opnd1 opnd2) (\<lambda>r. Inr (r, st)))))"

definition prim_unop :: "system \<Rightarrow> token \<Rightarrow> test_state \<Rightarrow> test_result" where
  "prim_unop sys n st =
     (let st = st\<lparr>nargc := nargc st - 1\<rparr> in
      if nargc st = 0 then Inl (Argument_expected [])
      else bind_result (arg_string st (t_wp st + 1)) (\<lambda>s.
        let st = st\<lparr>t_wp := t_wp st + 1\<rparr> in
        bind_result (unop_value sys n s) (\<lambda>r. Inr (r, st))))"

definition prim :: "system \<Rightarrow> test_rec \<Rightarrow> token \<Rightarrow> test_state \<Rightarrow> test_result" where
  "prim sys call n st =
     (if n = EOI then Inr (False, st)
      else if n = LPAREN then
        bind_result (lex_next (st\<lparr>parenlevel := parenlevel st + 1\<rparr>)) (\<lambda>(nn, st).
          if nn = RPAREN then Inr (False, st\<lparr>parenlevel := parenlevel st - 1\<rparr>)
          else bind_result (call (Oexpr nn) st) (\<lambda>(res, st).
               bind_result (lex_next st) (\<lambda>(t, st).
                 if t \<noteq> RPAREN then Inl Closing_paren
                 else Inr (res, st\<lparr>parenlevel := parenlevel st - 1\<rparr>))))
      else if token_type n = UNOP then prim_unop sys n st
      else
        bind_result (if nargc st > 0 then arg st (t_wp st + 1) else Inr None) (\<lambda>s.
        bind_result (t_lex st s) (\<lambda>nn.
          if token_type nn = BINOP then test_binop sys nn st
          else bind_result (arg_string st (t_wp st)) (\<lambda>s. Inr (s \<noteq> [], st)))))"

definition nexpr :: "test_rec \<Rightarrow> token \<Rightarrow> test_state \<Rightarrow> test_result" where
  "nexpr call n st =
     (if n = UNOT then bind_result (lex_next st) (\<lambda>(n, st). bind_result (call (Nexpr n) st) (\<lambda>(r, st). Inr (\<not> r, st)))
      else call (Prim n) st)"

definition aexpr :: "test_rec \<Rightarrow> token \<Rightarrow> test_state \<Rightarrow> test_result" where
  "aexpr call n st =
     bind_result (call (Nexpr n) st) (\<lambda>(res, st).
     bind_result (lex_next st) (\<lambda>(t, st).
       if t = BAND then bind_result (lex_next st) (\<lambda>(n, st). bind_result (call (Aexpr n) st) (\<lambda>(r, st). Inr (r \<and> res, st)))
       else Inr (res, step_back st)))"

definition oexpr :: "test_rec \<Rightarrow> token \<Rightarrow> test_state \<Rightarrow> test_result" where
  "oexpr call n st =
     bind_result (call (Aexpr n) st) (\<lambda>(res, st).
     bind_result (lex_next st) (\<lambda>(t, st).
       if t = BOR then bind_result (lex_next st) (\<lambda>(n, st). bind_result (call (Oexpr n) st) (\<lambda>(r, st). Inr (r \<or> res, st)))
       else Inr (res, step_back st)))"

primrec test_parse :: "system \<Rightarrow> nat \<Rightarrow> test_rec" where
  "test_parse sys 0 c st = Inl Depth_out"
| "test_parse sys (Suc k) c st = (case c of
     Oexpr n \<Rightarrow> oexpr (test_parse sys k) n st
   | Aexpr n \<Rightarrow> aexpr (test_parse sys k) n st
   | Nexpr n \<Rightarrow> nexpr (test_parse sys k) n st
   | Prim n \<Rightarrow> prim sys (test_parse sys k) n st)"

subsection \<open>The command\<close>

definition test_oexpr :: "system \<Rightarrow> test_state \<Rightarrow> test_result" where
  "test_oexpr sys st =
     bind_result (arg st (t_wp st)) (\<lambda>s. bind_result (t_lex st s) (\<lambda>n.
       test_parse sys (4 * length (t_args st) + 8) (Oexpr n) st))"

text \<open>The exit status on the arguments behind the name of the command and without a closing bracket.\<close>

definition test_args :: "system \<Rightarrow> string list \<Rightarrow> test_error + nat" where
  "test_args sys args =
     (if args = [] then Inr 1
      else
        let st = \<lparr>t_args = args, t_wp = 0, nargc = int (length args), parenlevel = 0\<rparr> in
        bind_result (if length args = 4 \<and> hd args = ''!''
           then bind_result (test_oexpr sys (st\<lparr>nargc := 3, t_wp := 1\<rparr>)) (\<lambda>(res, st). Inr (res, st))
           else bind_result (test_oexpr sys st) (\<lambda>(res, st). Inr (\<not> res, st)))
        (\<lambda>(res, st).
          if nargc st - 1 > 0 then
            bind_result (arg st (t_wp st)) (\<lambda>op. Inl (Unexpected_operator (case op of None \<Rightarrow> [] | Some s \<Rightarrow> s)))
          else Inr (if res then 1 else 0)))"

definition test_main :: "system \<Rightarrow> string list \<Rightarrow> test_error + nat" where
  "test_main sys argv =
     (if argv = [] then Inr 1
      else
        let p = rev (takeWhile (\<lambda>c. c \<noteq> CHR ''/'') (rev (hd argv))) in
        if p = ''['' then (if last argv \<noteq> '']'' then Inl Missing_bracket else test_args sys (tl (butlast argv)))
        else test_args sys (tl argv))"

end
