(* ===== verification/Test_Ends.thy ===== *)
theory Test_Ends
  imports Test_Cmd
begin

text \<open>
  The parser of test ends on every list of arguments, never reads an argument outside of the list, and
  never looks at the text of the NULL behind it: \<open>nargc\<close> is the number of arguments from \<open>t_wp\<close> on at
  every call, and a token that needs an operand is only made where one follows.
\<close>

subsection \<open>Outcomes\<close>

text \<open>The errors that are messages of the program. The unary operator without an operand, which the source calls
  impossible, would be the one with an empty text.\<close>

definition proper :: "test_error \<Rightarrow> bool" where
  "proper e \<longleftrightarrow> e \<notin> {Past_end, Null_string, Depth_out, Aborted, Argument_expected []}"

lemma proper_simps [simp]:
  "proper Missing_bracket" "proper Closing_paren" "proper (Unexpected_operator s)" "proper (Bad_number s)"
  "proper (Out_of_range s)" "proper (Argument_expected s) \<longleftrightarrow> s \<noteq> []"
  by (simp_all add: proper_def)

definition yields :: "('a \<Rightarrow> bool) \<Rightarrow> test_error + 'a \<Rightarrow> bool" where
  "yields P r \<longleftrightarrow> (case r of Inl e \<Rightarrow> proper e | Inr a \<Rightarrow> P a)"

lemma yields_simps [simp]: "yields P (Inl e) \<longleftrightarrow> proper e" "yields P (Inr a) \<longleftrightarrow> P a"
  by (simp_all add: yields_def)

lemma yields_bind: "yields Q r \<Longrightarrow> (\<And>a. Q a \<Longrightarrow> yields P (f a)) \<Longrightarrow> yields P (bind_result r f)"
  by (cases r) auto

lemma yields_mono: "yields Q r \<Longrightarrow> (\<And>a. Q a \<Longrightarrow> P a) \<Longrightarrow> yields P r"
  by (cases r) auto

lemma getq_yields: "yields (\<lambda>r. True) (getq s)"
  by (simp add: getq_def split: option.split)

lemma getn_yields: "yields (\<lambda>r. True) (getn s)"
  unfolding getn_def by (rule yields_bind [OF getq_yields]) simp

lemma intcmp_yields: "yields (\<lambda>r. True) (intcmp s t)"
  unfolding intcmp_def by (intro yields_bind [OF getq_yields]) simp

subsection \<open>Positions\<close>

definition in_step :: "test_state \<Rightarrow> bool" where
  "in_step st \<longleftrightarrow> t_args st \<noteq> [] \<and> 0 \<le> t_wp st \<and> 0 \<le> nargc st \<and> nargc st + t_wp st = int (length (t_args st))"

definition ready :: "token \<Rightarrow> test_state \<Rightarrow> bool" where
  "ready n st \<longleftrightarrow> in_step st \<and> (n = EOI \<longleftrightarrow> nargc st = 0)
     \<and> (token_type n = UNOP \<or> token_type n = BUNOP \<or> n = LPAREN \<longrightarrow> 2 \<le> nargc st)"

lemma arg_in_step:
  assumes "in_step st" "0 \<le> i" "i \<le> nargc st"
  shows "arg st (t_wp st + i) = Inr (if i < nargc st then Some (t_args st ! nat (t_wp st + i)) else None)"
  using assms by (auto simp: in_step_def arg_def)

lemma arg_string_in_step:
  assumes "in_step st" "0 \<le> i" "i < nargc st"
  shows "arg_string st (t_wp st + i) = Inr (t_args st ! nat (t_wp st + i))"
  using arg_in_step [OF assms(1,2)] assms(3) by (simp add: arg_string_def)

lemma ops_not_eoi: "map_of ops s = Some t \<Longrightarrow> t \<noteq> EOI \<and> t \<noteq> OPERAND \<and> s \<noteq> []"
  unfolding ops_def by (auto split: if_splits)

lemma operand_tests:
  assumes "in_step st" "0 < nargc st"
  shows "yields (\<lambda>b. nargc st = 1 \<longrightarrow> b) (isunopoperand st)"
    "yields (\<lambda>b. nargc st = 1 \<longrightarrow> b) (islparenoperand st)" "yields (\<lambda>b. True) (isrparenoperand st)"
  using assms arg_string_in_step [OF assms(1), of 1] arg_string_in_step [OF assms(1), of 2]
  by (auto simp: isunopoperand_def islparenoperand_def isrparenoperand_def)

text \<open>A text is looked up with the arguments from \<open>t_wp\<close> on behind it, also when it is the one behind.\<close>

lemma t_lex_yields:
  assumes "in_step st" "s \<noteq> None \<Longrightarrow> 0 < nargc st"
  shows "yields (\<lambda>n. (n = EOI \<longleftrightarrow> s = None) \<and> (token_type n = BINOP \<longrightarrow> s \<noteq> Some [])
     \<and> (nargc st = 1 \<longrightarrow> \<not> (token_type n = UNOP \<or> token_type n = BUNOP \<or> n = LPAREN))) (t_lex st s)"
proof (cases s)
  case None
  then show ?thesis by (simp add: t_lex_def token_type_def)
next
  case (Some x)
  show ?thesis
  proof (cases "map_of ops x")
    case None
    then show ?thesis by (simp add: Some t_lex_def token_type_def)
  next
    case (Some t)
    note t = operand_tests [OF assms(1) assms(2), unfolded \<open>s = Some x\<close>, simplified] ops_not_eoi [OF Some]
    show ?thesis unfolding t_lex_def \<open>s = Some x\<close> option.case Some
      by (rule yields_bind [where Q = "\<lambda>b. nargc st = 1 \<and> (token_type t = UNOP \<or> token_type t = BUNOP \<or> t = LPAREN) \<longrightarrow> b"])
        (use t in \<open>auto simp: token_type_def elim!: yields_mono\<close>)
  qed
qed

lemma advance_in_step:
  assumes "in_step st"
  shows "advance st = Inr (if 1 < nargc st then Some (t_args st ! nat (t_wp st + 1)) else None,
     if 0 < nargc st then st\<lparr>nargc := nargc st - 1, t_wp := t_wp st + 1\<rparr> else st)"
  using arg_in_step [OF assms, of 1] by (auto simp: advance_def)

lemma lex_next_yields:
  assumes "in_step st"
  shows "yields (\<lambda>(n, st'). ready n st' \<and> t_args st' = t_args st \<and> nargc st' = max 0 (nargc st - 1)) (lex_next st)"
proof -
  define st' where "st' = (if 0 < nargc st then st\<lparr>nargc := nargc st - 1, t_wp := t_wp st + 1\<rparr> else st)"
  have 1: "in_step st'" "t_args st' = t_args st" "nargc st' = max 0 (nargc st - 1)"
    using assms by (auto simp: st'_def in_step_def)
  show ?thesis unfolding lex_next_def advance_in_step [OF assms] st'_def [symmetric] bind_result_simps prod.case
    by (rule yields_bind, rule t_lex_yields [OF 1(1)]) (use 1 in \<open>auto simp: ready_def token_type_def split: if_splits\<close>)
qed

subsection \<open>The calls of the parser\<close>

fun rank :: "test_call \<Rightarrow> int" where
  "rank (Prim n) = 1" | "rank (Nexpr n) = 2" | "rank (Aexpr n) = 3" | "rank (Oexpr n) = 4"

fun call_token :: "test_call \<Rightarrow> token" where
  "call_token (Prim n) = n" | "call_token (Nexpr n) = n" | "call_token (Aexpr n) = n" | "call_token (Oexpr n) = n"

definition goes_on :: "test_state \<Rightarrow> bool \<times> test_state \<Rightarrow> bool" where
  "goes_on st r \<longleftrightarrow> in_step (snd r) \<and> t_args (snd r) = t_args st \<and> nargc (snd r) \<le> max 1 (nargc st)"

definition parses :: "test_rec \<Rightarrow> int \<Rightarrow> bool" where
  "parses call k \<longleftrightarrow> (\<forall>c st. 4 * nargc st + rank c \<le> k \<longrightarrow> ready (call_token c) st \<longrightarrow> yields (goes_on st) (call c st))"

lemma parsesD:
  "parses call k \<Longrightarrow> ready (call_token c) st \<Longrightarrow> 4 * nargc st + rank c \<le> k \<Longrightarrow> yields (goes_on st) (call c st)"
  by (simp add: parses_def)

lemma in_step_back: "in_step st \<Longrightarrow> nargc st < int (length (t_args st)) \<Longrightarrow> in_step (step_back st)"
  by (simp add: in_step_def step_back_def)

lemma lex_next_bind:
  assumes "in_step st"
    and "\<And>n st'. ready n st' \<Longrightarrow> t_args st' = t_args st \<Longrightarrow> nargc st' = max 0 (nargc st - 1) \<Longrightarrow> yields P (f (n, st'))"
  shows "yields P (bind_result (lex_next st) f)"
  by (rule yields_bind [OF lex_next_yields [OF assms(1)]]) (auto intro: assms(2))

lemma call_bind:
  assumes "parses call k" "ready (call_token c) st" "4 * nargc st + rank c \<le> k"
    and "\<And>r st'. in_step st' \<Longrightarrow> t_args st' = t_args st \<Longrightarrow> nargc st' \<le> max 1 (nargc st) \<Longrightarrow> yields P (f (r, st'))"
  shows "yields P (bind_result (call c st) f)"
  by (rule yields_bind [OF parsesD [OF assms(1-3)]]) (use assms(4) in \<open>auto simp: goes_on_def\<close>)

text \<open>The tail of aexpr and of oexpr: a connective and another operand, or a step back.\<close>

lemma connective_yields:
  assumes "parses call k" "ready n st" "in_step st1" "t_args st1 = t_args st" "nargc st1 \<le> max 1 (nargc st)"
    and "t \<noteq> EOI" "\<And>n. call_token (c n) = n" "\<And>n. rank (c n) = r" "4 * nargc st + r \<le> k + 1"
  shows "yields (goes_on st) (bind_result (lex_next st1) (\<lambda>(t', st2).
     if t' = t then bind_result (lex_next st2) (\<lambda>(n, st3). bind_result (call (c n) st3) (\<lambda>(x, st4). Inr (g x, st4)))
     else Inr (res, step_back st2)))"
proof (rule lex_next_bind [OF assms(3)], simp only: prod.case, rule iffD2 [OF if_split], intro conjI impI)
  fix t' st2
  assume 2: "ready t' st2" "t_args st2 = t_args st1" "nargc st2 = max 0 (nargc st1 - 1)"
  have "in_step st2" "nargc st2 < int (length (t_args st2))"
    using 2 assms(3) by (auto simp: ready_def in_step_def)
  then have "in_step (step_back st2)" by (rule in_step_back)
  moreover have "nargc st2 + 1 \<le> max 1 (nargc st)" using 2(3) assms(5) by linarith
  ultimately show "yields (goes_on st) (Inr (res, step_back st2))"
    using 2(2) assms(4) by (simp add: goes_on_def) (simp add: step_back_def)
  assume "t' = t"
  then have "0 < nargc st2" using 2 assms(6) by (auto simp: ready_def in_step_def)
  then have q: "in_step st2" "nargc st2 = nargc st1 - 1" "nargc st1 \<le> nargc st"
    using 2 assms(5) by (auto simp: ready_def)
  have "yields (goes_on st) (bind_result (call (c n) st3) (\<lambda>(x, st4). Inr (g x, st4)))"
    if 3: "ready n st3" "t_args st3 = t_args st2" "nargc st3 = max 0 (nargc st2 - 1)" for n st3
    by (rule call_bind [OF assms(1)])
      (use 2(2) 3 q \<open>0 < nargc st2\<close> assms(4,7,8,9) in \<open>simp_all add: goes_on_def\<close>)
  then show "yields (goes_on st) (bind_result (lex_next st2) (\<lambda>(n, st3). bind_result (call (c n) st3) (\<lambda>(x, st4). Inr (g x, st4))))"
    by (intro lex_next_bind [OF q(1)]) simp
qed

lemma aexpr_yields:
  assumes "parses call k" "ready n st" "4 * nargc st + 2 \<le> k" shows "yields (goes_on st) (aexpr call n st)"
  unfolding aexpr_def
  by (rule call_bind [OF assms(1)])
    (use assms in \<open>auto intro!: connective_yields [where r = 3 and c = Aexpr]\<close>)

lemma oexpr_yields:
  assumes "parses call k" "ready n st" "4 * nargc st + 3 \<le> k" shows "yields (goes_on st) (oexpr call n st)"
  unfolding oexpr_def
  by (rule call_bind [OF assms(1)])
    (use assms in \<open>auto intro!: connective_yields [where r = 4 and c = Oexpr]\<close>)

lemma nexpr_yields:
  assumes "parses call k" "ready n st" "4 * nargc st + 1 \<le> k" shows "yields (goes_on st) (nexpr call n st)"
proof (cases "n = UNOT")
  case True
  then have "2 \<le> nargc st" "in_step st" using assms(2) by (auto simp: ready_def token_type_def)
  with True show ?thesis unfolding nexpr_def
    by (auto intro!: lex_next_bind call_bind [OF assms(1)] simp: goes_on_def) (use assms(3) in linarith)+
next
  case False
  then show ?thesis unfolding nexpr_def using parsesD [OF assms(1), of "Prim n" st] assms(2,3) by simp
qed

lemma binop_value_yields:
  assumes "token_type n = BINOP" shows "yields (\<lambda>r. True) (binop_value sys n a b)"
proof -
  have "yields (\<lambda>r. True) (bind_result (intcmp a b) (\<lambda>c. Inr (f c)))" for f :: "int \<Rightarrow> bool"
    by (rule yields_bind [OF intcmp_yields]) simp
  with assms show ?thesis unfolding binop_value_def by (cases n) (simp_all add: token_type_def)
qed

lemma unop_value_yields: "yields (\<lambda>r. True) (unop_value sys n s)"
proof -
  have "yields (\<lambda>r. True) (bind_result (getn s) (\<lambda>fd. Inr (sys_isatty sys fd)))"
    by (rule yields_bind [OF getn_yields]) simp
  then show ?thesis unfolding unop_value_def by (cases n) simp_all
qed

lemma test_binop_yields:
  assumes "in_step st" "1 < nargc st" "t_args st ! nat (t_wp st + 1) \<noteq> []" "token_type n = BINOP"
  shows "yields (goes_on st) (test_binop sys n st)"
proof (cases "nargc st = 2")
  case True
  have "in_step (st\<lparr>nargc := 1, t_wp := t_wp st + 1\<rparr>)" using assms(1) True by (simp add: in_step_def)
  with True show ?thesis
    using assms(1,3) arg_string_in_step [OF assms(1), of 0] by (simp add: test_binop_def advance_in_step)
next
  case False
  define st2 where "st2 = st\<lparr>nargc := nargc st - 1, t_wp := t_wp st + 1\<rparr>"
  have 2: "in_step st2" "1 < nargc st2" using False assms(1,2) by (auto simp: st2_def in_step_def)
  define st3 where "st3 = st2\<lparr>nargc := nargc st2 - 1, t_wp := t_wp st2 + 1\<rparr>"
  have 3: "goes_on st (r, st3)" for r
    using 2 by (auto simp: goes_on_def st3_def in_step_def) (simp_all add: st2_def)
  have "advance st = Inr (Some (t_args st ! nat (t_wp st + 1)), st2)"
    "advance st2 = Inr (Some (t_args st2 ! nat (t_wp st2 + 1)), st3)"
    using assms(1,2) 2 by (simp_all add: advance_in_step st2_def st3_def)
  then show ?thesis
    unfolding test_binop_def using assms(2) arg_string_in_step [OF assms(1), of 0]
    by simp (rule yields_bind [OF binop_value_yields [OF assms(4)]], simp add: 3)
qed

lemma prim_unop_yields:
  assumes "ready n st" "token_type n = UNOP" shows "yields (goes_on st) (prim_unop sys n st)"
proof -
  define st1 where "st1 = st\<lparr>nargc := nargc st - 1\<rparr>"
  define st2 where "st2 = st1\<lparr>t_wp := t_wp st1 + 1\<rparr>"
  have 1: "in_step st" "2 \<le> nargc st" using assms by (auto simp: ready_def)
  have 2: "goes_on st (r, st2)" for r using 1 by (auto simp: goes_on_def st2_def st1_def in_step_def)
  have 3: "arg_string st1 (t_wp st1 + 1) = Inr (t_args st ! nat (t_wp st + 1))"
    using 1 by (simp add: st1_def arg_string_def arg_def in_step_def)
  have 4: "nargc st1 \<noteq> 0" using 1 by (simp add: st1_def)
  show ?thesis unfolding prim_unop_def Let_def st1_def [symmetric] st2_def [symmetric] 3 bind_result_simps
    using 2 4 by (auto intro: yields_bind [OF unop_value_yields])
qed

lemma paren_yields:
  assumes "parses call k" "ready LPAREN st" "4 * nargc st \<le> k"
  shows "yields (goes_on st) (prim sys call LPAREN st)"
proof -
  define st0 where "st0 = st\<lparr>parenlevel := parenlevel st + 1\<rparr>"
  have 0: "in_step st0" "t_args st0 = t_args st" "nargc st0 = nargc st" "2 \<le> nargc st"
    using assms(2) by (auto simp: ready_def in_step_def st0_def)
  have "yields (goes_on st) (if nn = RPAREN then Inr (False, st1\<lparr>parenlevel := parenlevel st1 - 1\<rparr>)
      else bind_result (call (Oexpr nn) st1) (\<lambda>(res, st). bind_result (lex_next st) (\<lambda>(t, st).
        if t \<noteq> RPAREN then Inl Closing_paren else Inr (res, st\<lparr>parenlevel := parenlevel st - 1\<rparr>))))"
    if 1: "ready nn st1" "t_args st1 = t_args st0" "nargc st1 = max 0 (nargc st0 - 1)" for nn st1
  proof (cases "nn = RPAREN")
    case True
    then show ?thesis using 0 1 by (simp add: goes_on_def ready_def in_step_def)
  next
    case False
    have "yields (goes_on st) (bind_result (lex_next st2) (\<lambda>(t, st).
        if t \<noteq> RPAREN then Inl Closing_paren else Inr (res, st\<lparr>parenlevel := parenlevel st - 1\<rparr>)))"
      if "in_step st2" "t_args st2 = t_args st1" "nargc st2 \<le> max 1 (nargc st1)" for res st2
      by (rule lex_next_bind [OF that(1)])
        (use 0 1 that in \<open>simp add: goes_on_def ready_def in_step_def\<close>)
    then show ?thesis using False 0 1 assms(3)
      by simp (rule call_bind [OF assms(1)], simp_all)
  qed
  moreover have "LPAREN \<noteq> EOI" by simp
  ultimately show ?thesis unfolding prim_def st0_def [symmetric] if_not_P [OF \<open>LPAREN \<noteq> EOI\<close>] if_P [OF refl]
    by (intro lex_next_bind [OF 0(1)]) simp
qed

lemma prim_operand_yields:
  assumes "ready n st" "n \<noteq> EOI" "n \<noteq> LPAREN" "token_type n \<noteq> UNOP"
  shows "yields (goes_on st) (prim sys call n st)"
proof -
  have 1: "in_step st" "0 < nargc st" using assms(1,2) by (auto simp: ready_def in_step_def)
  have 2: "(if nargc st > 0 then arg st (t_wp st + 1) else Inr None) =
      Inr (if 1 < nargc st then Some (t_args st ! nat (t_wp st + 1)) else None)"
    using 1 arg_in_step [OF 1(1), of 1] by simp
  have 3: "arg_string st (t_wp st) = Inr (t_args st ! nat (t_wp st))"
    using arg_string_in_step [OF 1(1), of 0] 1(2) by simp
  have 4: "goes_on st (r, st)" for r using 1 by (simp add: goes_on_def)
  show ?thesis unfolding prim_def 2 3 if_not_P [OF assms(2)] if_not_P [OF assms(3)] if_not_P [OF assms(4)] bind_result_simps
  proof (rule yields_bind [OF t_lex_yields [OF 1(1)]])
    fix nn
    assume nn: "(nn = EOI \<longleftrightarrow> (if 1 < nargc st then Some (t_args st ! nat (t_wp st + 1)) else None) = None)
      \<and> (token_type nn = BINOP \<longrightarrow> (if 1 < nargc st then Some (t_args st ! nat (t_wp st + 1)) else None) \<noteq> Some [])
      \<and> (nargc st = 1 \<longrightarrow> \<not> (token_type nn = UNOP \<or> token_type nn = BUNOP \<or> nn = LPAREN))"
    show "yields (goes_on st) (if token_type nn = BINOP then test_binop sys nn st else Inr (t_args st ! nat (t_wp st) \<noteq> [], st))"
    proof (cases "token_type nn = BINOP")
      case True
      then have "nn \<noteq> EOI" by (auto simp: token_type_def)
      then show ?thesis using True nn test_binop_yields [OF 1(1)] by (simp split: if_splits)
    qed (simp add: 4)
  qed (rule 1(2))
qed

lemma prim_yields:
  assumes "parses call k" "ready n st" "4 * nargc st \<le> k" shows "yields (goes_on st) (prim sys call n st)"
proof -
  consider "n = EOI" | "n = LPAREN" | "token_type n = UNOP" | "n \<noteq> EOI" "n \<noteq> LPAREN" "token_type n \<noteq> UNOP" by blast
  then show ?thesis
  proof cases
    case 1
    then show ?thesis using assms(2) by (simp add: prim_def goes_on_def ready_def)
  next
    case 2
    then show ?thesis using paren_yields [OF assms(1)] assms(2,3) by simp
  next
    case 3
    then show ?thesis using prim_unop_yields [OF assms(2)] by (auto simp: prim_def token_type_def)
  next
    case 4
    then show ?thesis by (rule prim_operand_yields [OF assms(2)])
  qed
qed

lemma test_parse_parses: "parses (test_parse sys k) (int k)"
proof (induction k)
  case 0
  have "0 < rank c" for c by (cases c) auto
  then have "\<not> 4 * nargc st + rank c \<le> 0" if "0 \<le> nargc st" for c st using that by (metis add_nonneg_pos mult_nonneg_nonneg not_le zero_le_numeral)
  then show ?case by (auto simp: parses_def ready_def in_step_def)
next
  case (Suc k)
  show ?case unfolding parses_def
  proof (intro allI impI)
    fix c st
    assume "4 * nargc st + rank c \<le> int (Suc k)" "ready (call_token c) st"
    then show "yields (goes_on st) (test_parse sys (Suc k) c st)"
      by (cases c) (simp_all add: oexpr_yields [OF Suc] aexpr_yields [OF Suc] nexpr_yields [OF Suc] prim_yields [OF Suc])
  qed
qed

subsection \<open>The command\<close>

lemma test_oexpr_yields:
  assumes "in_step st" "0 < nargc st" shows "yields (goes_on st) (test_oexpr sys st)"
proof -
  have a: "arg st (t_wp st) = Inr (Some (t_args st ! nat (t_wp st)))" using arg_in_step [OF assms(1), of 0] assms(2) by simp
  show ?thesis unfolding test_oexpr_def a bind_result_simps
    by (rule yields_bind [OF t_lex_yields [OF assms(1)]], rule assms(2), rule parsesD [OF test_parse_parses])
      (use assms in \<open>auto simp: ready_def in_step_def\<close>)
qed

lemma test_oexpr_then:
  assumes "in_step st" "0 < nargc st"
  shows "yields (\<lambda>r. in_step (snd r)) (bind_result (test_oexpr sys st) (\<lambda>(res, st). Inr (f res, st)))"
  by (rule yields_bind [OF test_oexpr_yields [OF assms]]) (auto simp: goes_on_def)

lemma test_args_yields: "yields (\<lambda>r. r \<le> 1) (test_args sys args)"
proof (cases "args = []")
  case False
  define st where "st = \<lparr>t_args = args, t_wp = 0, nargc = int (length args), parenlevel = 0\<rparr>"
  have st: "in_step st" "0 < nargc st" using False by (simp_all add: st_def in_step_def)
  have st1: "in_step (st\<lparr>nargc := 3, t_wp := 1\<rparr>)" if "length args = 4" using that by (auto simp: st_def in_step_def)
  have "yields (\<lambda>r. in_step (snd r)) (if length args = 4 \<and> hd args = ''!''
      then bind_result (test_oexpr sys (st\<lparr>nargc := 3, t_wp := 1\<rparr>)) (\<lambda>(res, st). Inr (res, st))
      else bind_result (test_oexpr sys st) (\<lambda>(res, st). Inr (\<not> res, st)))"
    using test_oexpr_then [OF st, of sys Not] test_oexpr_then [OF st1, of sys "\<lambda>b. b"] by simp
  then show ?thesis unfolding test_args_def st_def [symmetric] Let_def if_not_P [OF False]
  proof (rule yields_bind)
    fix r :: "bool \<times> test_state"
    assume "in_step (snd r)"
    then show "yields (\<lambda>r. r \<le> (1::nat)) (case r of (res, st) \<Rightarrow> if nargc st - 1 > 0
        then bind_result (arg st (t_wp st)) (\<lambda>op. Inl (Unexpected_operator (case op of None \<Rightarrow> [] | Some s \<Rightarrow> s)))
        else Inr (if res then 1 else 0))"
      using arg_in_step [of "snd r" 0] by (auto simp: split_beta)
  qed
qed (simp add: test_args_def)

text \<open>
  C16. The command test ends on every list of arguments, with status 0 or 1 or with one of its messages: the recursion of
  its parser is never deeper than four times the number of arguments and eight, no argument outside of the list
  is read, the NULL behind the last one is never taken for a string, the switch over the binary
  operators never reaches abort, and the missing operand of a unary operator, which a comment calls impossible, does not occur.
\<close>

theorem test_ends:
  "(\<exists>r. test_main sys argv = Inr r \<and> r \<le> 1)
   \<or> (\<exists>e. test_main sys argv = Inl e \<and> e \<notin> {Past_end, Null_string, Depth_out, Aborted, Argument_expected []})"
proof -
  have "yields (\<lambda>r. r \<le> 1) (test_main sys argv)"
    using test_args_yields by (simp add: test_main_def Let_def)
  then show ?thesis by (cases "test_main sys argv") (auto simp: proper_def)
qed

end
