(* ===== verification/Test_Grammar.thy ===== *)
theory Test_Grammar
  imports Test_Ends
begin

text \<open>
  The grammar in the comment of shell_cmds/test/test.c as datatypes, the arguments an expression is
  written as, and its value. The parser gives the value on the arguments of every expression of the grammar.
\<close>

subsection \<open>The grammar\<close>

datatype g_oexpr = OAnd g_aexpr | OOr g_aexpr g_oexpr
  and g_aexpr = ANot g_nexpr | AAnd g_nexpr g_aexpr
  and g_nexpr = NPrim g_prim | NNot g_nexpr
  and g_prim = PUn string string | PBin string string string | POperand string | PParen g_oexpr

primrec print_o :: "g_oexpr \<Rightarrow> string list" and print_a :: "g_aexpr \<Rightarrow> string list"
  and print_n :: "g_nexpr \<Rightarrow> string list" and print_p :: "g_prim \<Rightarrow> string list" where
  "print_o (OAnd a) = print_a a"
| "print_o (OOr a e) = print_a a @ ''-o'' # print_o e"
| "print_a (ANot n) = print_n n"
| "print_a (AAnd n a) = print_n n @ ''-a'' # print_a a"
| "print_n (NPrim q) = print_p q"
| "print_n (NNot n) = ''!'' # print_n n"
| "print_p (PUn o1 x) = [o1, x]"
| "print_p (PBin x o2 y) = [x, o2, y]"
| "print_p (POperand x) = [x]"
| "print_p (PParen e) = ''('' # print_o e @ ['')'']"

text \<open>Every operand is evaluated, from the left.\<close>

primrec val_o :: "system \<Rightarrow> g_oexpr \<Rightarrow> test_error + bool" and val_a :: "system \<Rightarrow> g_aexpr \<Rightarrow> test_error + bool"
  and val_n :: "system \<Rightarrow> g_nexpr \<Rightarrow> test_error + bool" and val_p :: "system \<Rightarrow> g_prim \<Rightarrow> test_error + bool" where
  "val_o sys (OAnd a) = val_a sys a"
| "val_o sys (OOr a e) = bind_result (val_a sys a) (\<lambda>x. bind_result (val_o sys e) (\<lambda>y. Inr (x \<or> y)))"
| "val_a sys (ANot n) = val_n sys n"
| "val_a sys (AAnd n a) = bind_result (val_n sys n) (\<lambda>x. bind_result (val_a sys a) (\<lambda>y. Inr (x \<and> y)))"
| "val_n sys (NPrim q) = val_p sys q"
| "val_n sys (NNot n) = bind_result (val_n sys n) (\<lambda>x. Inr (\<not> x))"
| "val_p sys (PUn o1 x) = unop_value sys (the (map_of ops o1)) x"
| "val_p sys (PBin x o2 y) = binop_value sys (the (map_of ops o2)) x y"
| "val_p sys (POperand x) = Inr (x \<noteq> [])"
| "val_p sys (PParen e) = val_o sys e"

text \<open>Operands that the lexer cannot take for an operator. The right operand of a binary operator is free, the
  operand of a unary one may be everything but a binary operator and a closing parenthesis.\<close>

definition plain :: "string \<Rightarrow> bool" where
  "plain x \<longleftrightarrow> map_of ops x = None"

definition is_unop_text :: "string \<Rightarrow> bool" where
  "is_unop_text s \<longleftrightarrow> (case map_of ops s of None \<Rightarrow> False | Some t \<Rightarrow> token_type t = UNOP)"

primrec wf_o :: "g_oexpr \<Rightarrow> bool" and wf_a :: "g_aexpr \<Rightarrow> bool"
  and wf_n :: "g_nexpr \<Rightarrow> bool" and wf_p :: "g_prim \<Rightarrow> bool" where
  "wf_o (OAnd a) = wf_a a"
| "wf_o (OOr a e) = (wf_a a \<and> wf_o e)"
| "wf_a (ANot n) = wf_n n"
| "wf_a (AAnd n a) = (wf_n n \<and> wf_a a)"
| "wf_n (NPrim q) = wf_p q"
| "wf_n (NNot n) = wf_n n"
| "wf_p (PUn o1 x) = (is_unop_text o1 \<and> \<not> is_binop_text x \<and> x \<noteq> '')'')"
| "wf_p (PBin x o2 y) = (plain x \<and> is_binop_text o2)"
| "wf_p (POperand x) = plain x"
| "wf_p (PParen e) = wf_o e"

subsection \<open>States in front of an expression\<close>

definition before :: "string list \<Rightarrow> string list \<Rightarrow> int \<Rightarrow> test_state" where
  "before pre rest p = \<lparr>t_args = pre @ rest, t_wp = int (length pre), nargc = int (length rest), parenlevel = p\<rparr>"

text \<open>The parser leaves \<open>t_wp\<close> on the last argument of what it has read.\<close>

definition behind :: "string list \<Rightarrow> string list \<Rightarrow> string list \<Rightarrow> int \<Rightarrow> test_state" where
  "behind pre w post p = before (pre @ butlast w) (last w # post) p"

lemma before_simps [simp]:
  "nargc (before pre rest p) = int (length rest)" "parenlevel (before pre rest p) = p"
  "t_wp (before pre rest p) = int (length pre)" "t_args (before pre rest p) = pre @ rest"
  "(before pre rest p)\<lparr>parenlevel := q\<rparr> = before pre rest q"
  by (simp_all add: before_def)

lemma arg_before:
  "i < length rest \<Longrightarrow> arg (before pre rest p) (int (length pre) + int i) = Inr (Some (rest ! i))"
  "arg (before pre rest p) (int (length pre) + int (length rest)) = Inr None"
  by (auto simp: arg_def nth_append nat_add_distrib)

lemma arg_before_cases [simp]:
  "arg (before pre (x # rest) p) (int (length pre)) = Inr (Some x)"
  "arg (before pre (x # y # rest) p) (int (length pre) + 1) = Inr (Some y)"
  "arg (before pre [x] p) (int (length pre) + 1) = Inr None"
  "arg (before pre (x # y # z # rest) p) (int (length pre) + 2) = Inr (Some z)"
  using arg_before(1) [of 0 "x # rest"] arg_before(1) [of 1 "x # y # rest"] arg_before(2) [of pre "[x]"]
    arg_before(1) [of 2 "x # y # z # rest"] by (simp_all add: algebra_simps)

lemma arg_string_before [simp]:
  "arg_string (before pre (x # rest) p) (int (length pre)) = Inr x"
  "arg_string (before pre (x # y # rest) p) (int (length pre) + 1) = Inr y"
  "arg_string (before pre (x # y # z # rest) p) (int (length pre) + 2) = Inr z"
  by (simp_all add: arg_string_def)

lemma before_next:
  "(before pre (x # rest) p)\<lparr>nargc := int (length rest), t_wp := int (length pre) + 1\<rparr> = before (pre @ [x]) rest p"
  by (simp add: before_def)

lemma advance_before:
  "advance (before pre (x # y # rest) p) = Inr (Some y, before (pre @ [x]) (y # rest) p)"
  "advance (before pre [x] p) = Inr (None, before (pre @ [x]) [] p)"
  using before_next [where pre = pre and x = x and p = p and rest = "y # rest"]
    before_next [where pre = pre and x = x and p = p and rest = "[]"] by (simp_all add: advance_def)

lemma step_back_before: "step_back (before (pre @ [x]) rest p) = before pre (x # rest) p"
  by (simp add: step_back_def before_def)

lemma behind_step:
  assumes "w \<noteq> []"
  shows "step_back (before (pre @ w) post p) = behind pre w post p"
    "advance (behind pre w (y # rest) p) = Inr (Some y, before (pre @ w) (y # rest) p)"
    "advance (behind pre w [] p) = Inr (None, before (pre @ w) [] p)"
  using step_back_before [of "pre @ butlast w" "last w" post p] assms
  by (simp_all add: behind_def advance_before)

lemma behind_append: "w \<noteq> [] \<Longrightarrow> behind (pre @ v) w post p = behind pre (v @ w) post p"
  by (simp add: behind_def butlast_append)

lemma behind_single: "behind pre [x] post p = before pre (x # post) p"
  by (simp add: behind_def)

subsection \<open>The first token\<close>

primrec tok_p :: "g_prim \<Rightarrow> token" where
  "tok_p (PUn o1 x) = the (map_of ops o1)"
| "tok_p (PBin x o2 y) = OPERAND"
| "tok_p (POperand x) = OPERAND"
| "tok_p (PParen e) = LPAREN"

primrec tok_n :: "g_nexpr \<Rightarrow> token" where
  "tok_n (NPrim q) = tok_p q"
| "tok_n (NNot n) = UNOT"

primrec tok_a :: "g_aexpr \<Rightarrow> token" where
  "tok_a (ANot n) = tok_n n"
| "tok_a (AAnd n a) = tok_n n"

primrec tok_o :: "g_oexpr \<Rightarrow> token" where
  "tok_o (OAnd a) = tok_a a"
| "tok_o (OOr a e) = tok_a a"

definition opens :: "string list \<Rightarrow> bool" where
  "opens w \<longleftrightarrow> w \<noteq> [] \<and> hd w \<noteq> '')'' \<and> \<not> is_binop_text (hd w)"

lemma opens_append [simp]: "opens w \<Longrightarrow> opens (w @ v)"
  by (auto simp: opens_def hd_append)

lemma ops_punct:
  "map_of ops ''!'' = Some UNOT" "map_of ops ''('' = Some LPAREN" "map_of ops '')'' = Some RPAREN"
  "map_of ops ''-a'' = Some BAND" "map_of ops ''-o'' = Some BOR"
  by (simp_all add: ops_def)

lemma punct_types:
  "token_type UNOT = BUNOP" "token_type LPAREN = PAREN" "token_type RPAREN = PAREN" "token_type BAND = BBINOP"
  "token_type BOR = BBINOP" "token_type OPERAND = NONE" "token_type EOI = NONE"
  by (simp_all add: token_type_def)

lemmas lex_simps = ops_punct punct_types is_binop_text_def is_unop_text_def plain_def

lemma unop_text_opens: "is_unop_text o1 \<Longrightarrow> opens (o1 # w)"
  by (auto simp: opens_def lex_simps split: option.splits)

lemma print_opens:
  shows "wf_o e \<Longrightarrow> opens (print_o e)" and "wf_a a \<Longrightarrow> opens (print_a a)"
    and "wf_n n \<Longrightarrow> opens (print_n n)" and "wf_p q \<Longrightarrow> opens (print_p q)"
proof (induction e and a and n and q)
  case (PUn o1 x)
  then show ?case by (simp add: unop_text_opens)
qed (auto simp: opens_def lex_simps)

lemma lex_operator:
  assumes "map_of ops x = Some t" "token_type t = UNOP \<or> token_type t = BUNOP \<or> t = LPAREN" "opens w"
  shows "t_lex (before pre (x # w @ post) p) (Some x) = Inr t"
proof -
  obtain y r where w: "w = y # r" "y \<noteq> '')''" "\<not> is_binop_text y" using assms(3) by (cases w) (auto simp: opens_def)
  have u: "isunopoperand (before pre (x # w @ post) p) = Inr False"
    by (cases "r @ post") (use w in \<open>simp_all add: isunopoperand_def\<close>)
  have l: "islparenoperand (before pre (x # w @ post) p) = Inr False"
    by (cases "r @ post") (use w in \<open>simp_all add: islparenoperand_def\<close>)
  show ?thesis using assms(1,2) by (auto simp: t_lex_def u l)
qed

lemma lex_plain: "plain x \<Longrightarrow> t_lex st (Some x) = Inr OPERAND"
  by (simp add: t_lex_def plain_def)

lemma lex_first_p: "wf_p q \<Longrightarrow> t_lex (before pre (print_p q @ post) p) (Some (hd (print_p q))) = Inr (tok_p q)"
proof (cases q)
  case (PUn o1 x)
  assume "wf_p q"
  then show ?thesis using lex_operator [of o1 "the (map_of ops o1)" "[x]"]
    by (auto simp: PUn is_unop_text_def opens_def split: option.splits)
next
  case (PParen e)
  assume "wf_p q"
  then have "opens (print_o e)" using print_opens(1) by (simp add: PParen)
  then show ?thesis using lex_operator [OF ops_punct(2), where post = "'')'' # post"] by (simp add: PParen)
qed (simp_all add: lex_plain)

lemma lex_first_n: "wf_n n \<Longrightarrow> t_lex (before pre (print_n n @ post) p) (Some (hd (print_n n))) = Inr (tok_n n)"
proof (cases n)
  case (NNot m)
  assume "wf_n n"
  then show ?thesis using lex_operator [OF ops_punct(1) _ print_opens(3)] by (simp add: NNot punct_types)
qed (simp add: lex_first_p)

lemma lex_first_a: "wf_a a \<Longrightarrow> t_lex (before pre (print_a a @ post) p) (Some (hd (print_a a))) = Inr (tok_a a)"
  using print_opens(3) by (cases a) (auto simp: lex_first_n opens_def)

lemma lex_first_o: "wf_o e \<Longrightarrow> t_lex (before pre (print_o e @ post) p) (Some (hd (print_o e))) = Inr (tok_o e)"
  using print_opens(2) by (cases e) (auto simp: lex_first_a opens_def)

subsection \<open>What may follow\<close>

text \<open>A closing parenthesis behind an expression belongs to an open one.\<close>

definition follows :: "string list \<Rightarrow> int \<Rightarrow> string list \<Rightarrow> bool" where
  "follows ends p post \<longleftrightarrow> 0 \<le> p \<and> (post = [] \<or> hd post \<in> set ends \<and> (hd post = '')'' \<longrightarrow> 0 < p))"

abbreviation follows_p :: "int \<Rightarrow> string list \<Rightarrow> bool" where
  "follows_p \<equiv> follows [''-a'', ''-o'', '')'']"

abbreviation follows_a :: "int \<Rightarrow> string list \<Rightarrow> bool" where
  "follows_a \<equiv> follows [''-o'', '')'']"

abbreviation follows_o :: "int \<Rightarrow> string list \<Rightarrow> bool" where
  "follows_o \<equiv> follows ['')'']"

lemma follows_less: "follows_o p post \<Longrightarrow> follows_a p post" "follows_a p post \<Longrightarrow> follows_p p post"
  by (auto simp: follows_def)

lemma follows_op: "0 \<le> p \<Longrightarrow> follows_p p (''-a'' # r)" "0 \<le> p \<Longrightarrow> follows_a p (''-o'' # r)"
  "0 \<le> p \<Longrightarrow> follows_o (p + 1) ('')'' # r)"
  by (simp_all add: follows_def)

lemma follows_level: "follows es p post \<Longrightarrow> 0 \<le> p"
  by (simp add: follows_def)

lemma lex_connective:
  "t_lex st (Some ''-a'') = Inr BAND" "t_lex st (Some ''-o'') = Inr BOR" "t_lex st None = Inr EOI"
  by (simp_all add: t_lex_def lex_simps)

lemma lex_close: "follows es p post \<Longrightarrow> t_lex (before pre ('')'' # post) (p + 1)) (Some '')'') = Inr RPAREN"
  by (cases post; cases "tl post") (auto simp: t_lex_def lex_simps isrparenoperand_def follows_def)

lemma lex_close_any: "\<exists>t \<in> {OPERAND, RPAREN}. t_lex (before pre (x # rest) p) (Some '')'') = Inr t"
proof -
  have "isrparenoperand (before pre (x # rest) p) = Inr b \<Longrightarrow> ?thesis" for b
    by (simp add: t_lex_def lex_simps)
  moreover have "\<exists>b. isrparenoperand (before pre (x # rest) p) = Inr b"
    by (cases rest) (auto simp: isrparenoperand_def)
  ultimately show ?thesis by blast
qed

text \<open>The token behind an expression, and the step back when it is none of the connectives \<open>t\<close>.\<close>

lemma lex_next_behind:
  assumes "w \<noteq> []" "follows es p post" "set es \<subseteq> {''-o'', '')''}" "t = BAND \<or> t = BOR \<and> ''-o'' \<notin> set es"
  shows "\<exists>t' st. lex_next (behind pre w post p) = Inr (t', st) \<and> t' \<noteq> t \<and> step_back st = behind pre w post p"
proof (cases post)
  case Nil
  then show ?thesis using assms(1,4) by (auto simp: lex_next_def behind_step t_lex_def)
next
  case (Cons x rest)
  then have "x = ''-o'' \<and> t = BAND \<or> x = '')''" using assms(2-4) by (auto simp: follows_def)
  then show ?thesis
    using assms(1,4) lex_close_any [of "pre @ w" x rest p]
    by (auto simp: Cons lex_next_def behind_step lex_connective)
qed

subsection \<open>Primaries\<close>

lemma unop_token:
  "is_unop_text o1 \<Longrightarrow> token_type (the (map_of ops o1)) = UNOP \<and> the (map_of ops o1) \<notin> {EOI, LPAREN, RPAREN, UNOT}"
  by (auto simp: is_unop_text_def punct_types split: option.splits)

lemma prim_PUn:
  assumes "is_unop_text o1"
  shows "prim sys call (the (map_of ops o1)) (before pre (o1 # x # post) p)
    = bind_result (unop_value sys (the (map_of ops o1)) x) (\<lambda>r. Inr (r, behind pre [o1, x] post p))"
  using unop_token [OF assms]
  by (simp add: prim_def prim_unop_def arg_string_def arg_def nth_append nat_add_distrib behind_def Let_def)
    (simp add: before_def add.commute)

lemma lex_binop: "is_binop_text o2 \<Longrightarrow> t_lex st (Some o2) = Inr (the (map_of ops o2))"
  by (auto simp: is_binop_text_def t_lex_def punct_types split: option.splits)

lemma prim_PBin:
  assumes "is_binop_text o2"
  shows "prim sys call OPERAND (before pre (x # o2 # y # post) p)
    = bind_result (binop_value sys (the (map_of ops o2)) x y) (\<lambda>r. Inr (r, behind pre [x, o2, y] post p))"
proof -
  have "token_type (the (map_of ops o2)) = BINOP" using assms by (auto simp: is_binop_text_def split: option.splits)
  then show ?thesis
    by (simp add: prim_def lex_binop [OF assms] test_binop_def advance_before behind_def punct_types)
qed

lemma prim_POperand:
  assumes "follows_p p post"
  shows "prim sys call OPERAND (before pre (x # post) p) = Inr (x \<noteq> [], behind pre [x] post p)"
proof -
  have "\<exists>t. t_lex (before pre (x # post) p) (if post = [] then None else Some (hd post)) = Inr t \<and> token_type t \<noteq> BINOP"
    using assms lex_close_any [of pre x post p] by (auto simp: follows_def lex_connective punct_types)
  then show ?thesis by (cases post) (auto simp: prim_def punct_types behind_def)
qed

subsection \<open>The parser gives the value\<close>

abbreviation spent :: "system \<Rightarrow> nat \<Rightarrow> test_call \<Rightarrow> string list \<Rightarrow> string list \<Rightarrow> string list \<Rightarrow> int \<Rightarrow> test_error + bool \<Rightarrow> bool" where
  "spent sys k c pre w post p v \<equiv>
     test_parse sys k c (before pre (w @ post) p) = bind_result v (\<lambda>b. Inr (b, behind pre w post p))"

lemma lex_next_op:
  assumes "w \<noteq> []" "t_lex (before (pre @ w) (x # rest) p) (Some x) = Inr t"
  shows "lex_next (behind pre w (x # rest) p) = Inr (t, before (pre @ w) (x # rest) p)"
  using assms by (simp add: lex_next_def behind_step)

lemma lex_next_before:
  assumes "w \<noteq> []" "t_lex (before (pre @ [x]) (w @ post) p) (Some (hd w)) = Inr t"
  shows "lex_next (before pre (x # w @ post) p) = Inr (t, before (pre @ [x]) (w @ post) p)"
  using assms by (cases w) (simp_all add: lex_next_def advance_before)

lemma spent_last_a:
  assumes "spent sys k (Nexpr n) pre w post p v" "w \<noteq> []" "follows_a p post"
  shows "spent sys (Suc k) (Aexpr n) pre w post p v"
proof -
  obtain t st where "lex_next (behind pre w post p) = Inr (t, st)" "t \<noteq> BAND" "step_back st = behind pre w post p"
    using lex_next_behind [OF assms(2,3), of BAND pre] by auto
  then show ?thesis using assms(1) by (cases v) (simp_all add: aexpr_def)
qed

lemma spent_last_o:
  assumes "spent sys k (Aexpr n) pre w post p v" "w \<noteq> []" "follows_o p post"
  shows "spent sys (Suc k) (Oexpr n) pre w post p v"
proof -
  obtain t st where "lex_next (behind pre w post p) = Inr (t, st)" "t \<noteq> BOR" "step_back st = behind pre w post p"
    using lex_next_behind [OF assms(2,3), of BOR pre] by auto
  then show ?thesis using assms(1) by (cases v) (simp_all add: oexpr_def)
qed

lemma spent_connective_a:
  assumes "spent sys k (Nexpr n) pre w (''-a'' # w' @ post) p v" "w \<noteq> []" "w' \<noteq> []"
    and "t_lex (before (pre @ w @ [''-a'']) (w' @ post) p) (Some (hd w')) = Inr n'"
    and "spent sys k (Aexpr n') (pre @ w @ [''-a'']) w' post p v'"
  shows "spent sys (Suc k) (Aexpr n) pre (w @ ''-a'' # w') post p (bind_result v (\<lambda>x. bind_result v' (\<lambda>y. Inr (x \<and> y))))"
proof -
  note l = lex_next_op [OF assms(2) lex_connective(1)] lex_next_before [OF assms(3), of "pre @ w" "''-a''", simplified, OF assms(4)]
  have b: "behind (pre @ w @ [''-a'']) w' post p = behind pre (w @ ''-a'' # w') post p"
    using behind_append [OF assms(3), of pre "w @ [''-a'']"] by simp
  show ?thesis using assms(1,5) l b by (cases v; cases v') (auto simp: aexpr_def)
qed

lemma spent_connective_o:
  assumes "spent sys k (Aexpr n) pre w (''-o'' # w' @ post) p v" "w \<noteq> []" "w' \<noteq> []"
    and "t_lex (before (pre @ w @ [''-o'']) (w' @ post) p) (Some (hd w')) = Inr n'"
    and "spent sys k (Oexpr n') (pre @ w @ [''-o'']) w' post p v'"
  shows "spent sys (Suc k) (Oexpr n) pre (w @ ''-o'' # w') post p (bind_result v (\<lambda>x. bind_result v' (\<lambda>y. Inr (x \<or> y))))"
proof -
  note l = lex_next_op [OF assms(2) lex_connective(2)] lex_next_before [OF assms(3), of "pre @ w" "''-o''", simplified, OF assms(4)]
  have b: "behind (pre @ w @ [''-o'']) w' post p = behind pre (w @ ''-o'' # w') post p"
    using behind_append [OF assms(3), of pre "w @ [''-o'']"] by simp
  show ?thesis using assms(1,5) l b by (cases v; cases v') (auto simp: oexpr_def)
qed

lemma spent_not:
  assumes "w \<noteq> []" "t_lex (before (pre @ [''!'']) (w @ post) p) (Some (hd w)) = Inr n"
    and "spent sys k (Nexpr n) (pre @ [''!'']) w post p v"
  shows "spent sys (Suc k) (Nexpr UNOT) pre (''!'' # w) post p (bind_result v (\<lambda>x. Inr (\<not> x)))"
  using assms lex_next_before [OF assms(1,2)] behind_append [OF assms(1), of pre "[''!'']" post p]
  by (cases v) (simp_all add: nexpr_def)

lemma spent_paren:
  assumes "w \<noteq> []" "n \<noteq> RPAREN" "follows_p p post"
    and "t_lex (before (pre @ [''('']) (w @ '')'' # post) (p + 1)) (Some (hd w)) = Inr n"
    and "spent sys k (Oexpr n) (pre @ [''('']) w ('')'' # post) (p + 1) v"
  shows "spent sys (Suc k) (Prim LPAREN) pre (''('' # w @ ['')'']) post p v"
proof -
  note l = lex_next_before [OF assms(1,4)] lex_next_op [OF assms(1) lex_close [OF assms(3)], of "pre @ [''('']"]
  have b: "before (pre @ ''('' # w) ('')'' # post) p = behind pre (''('' # w @ ['')'']) post p"
    by (simp add: behind_def butlast_append)
  show ?thesis using assms(2,5) l b by (cases v) (simp_all add: prim_def)
qed

lemma first_not_close:
  shows "wf_p q \<Longrightarrow> tok_p q \<noteq> RPAREN" "wf_n n \<Longrightarrow> tok_n n \<noteq> RPAREN" "wf_a a \<Longrightarrow> tok_a a \<noteq> RPAREN" "wf_o e \<Longrightarrow> tok_o e \<noteq> RPAREN"
proof -
  show p: "wf_p q \<Longrightarrow> tok_p q \<noteq> RPAREN" for q using unop_token by (cases q) (auto simp: punct_types)
  show n: "wf_n n \<Longrightarrow> tok_n n \<noteq> RPAREN" for n using p by (cases n) auto
  show a: "wf_a a \<Longrightarrow> tok_a a \<noteq> RPAREN" for a using n by (cases a) auto
  show "wf_o e \<Longrightarrow> tok_o e \<noteq> RPAREN" using a by (cases e) auto
qed

lemma print_nonempty [simp]:
  "wf_o e \<Longrightarrow> print_o e \<noteq> []" "wf_a a \<Longrightarrow> print_a a \<noteq> []" "wf_n n \<Longrightarrow> print_n n \<noteq> []" "wf_p q \<Longrightarrow> print_p q \<noteq> []"
  using print_opens by (auto simp: opens_def)

lemma parse_print:
  shows "wf_o e \<Longrightarrow> 4 * length (print_o e) + 4 \<le> k \<Longrightarrow> follows_o p post \<Longrightarrow> spent sys k (Oexpr (tok_o e)) pre (print_o e) post p (val_o sys e)"
    and "wf_a a \<Longrightarrow> 4 * length (print_a a) + 3 \<le> k \<Longrightarrow> follows_a p post \<Longrightarrow> spent sys k (Aexpr (tok_a a)) pre (print_a a) post p (val_a sys a)"
    and "wf_n n \<Longrightarrow> 4 * length (print_n n) + 2 \<le> k \<Longrightarrow> follows_p p post \<Longrightarrow> spent sys k (Nexpr (tok_n n)) pre (print_n n) post p (val_n sys n)"
    and "wf_p q \<Longrightarrow> 4 * length (print_p q) + 1 \<le> k \<Longrightarrow> follows_p p post \<Longrightarrow> spent sys k (Prim (tok_p q)) pre (print_p q) post p (val_p sys q)"
proof (induction e and a and n and q arbitrary: k p post pre and k p post pre and k p post pre and k p post pre)
  case (OAnd a)
  then obtain j where "k = Suc j" "4 * length (print_a a) + 3 \<le> j" by (cases k) auto
  then show ?case using OAnd spent_last_o by (simp add: follows_less)
next
  case (OOr a e)
  then obtain j where j: "k = Suc j" "4 * length (print_o (OOr a e)) + 3 \<le> j" by (cases k) auto
  have "spent sys (Suc j) (Oexpr (tok_a a)) pre (print_a a @ ''-o'' # print_o e) post p
      (bind_result (val_a sys a) (\<lambda>x. bind_result (val_o sys e) (\<lambda>y. Inr (x \<or> y))))"
    by (rule spent_connective_o [where n' = "tok_o e"])
      (use OOr j in \<open>simp_all add: follows_op follows_level lex_first_o [where pre = "pre @ print_a a @ [''-o'']", simplified]\<close>)
  then show ?case by (simp add: j(1))
next
  case (ANot n)
  then obtain j where "k = Suc j" "4 * length (print_n n) + 2 \<le> j" by (cases k) auto
  then show ?case using ANot spent_last_a by (simp add: follows_less)
next
  case (AAnd n a)
  then obtain j where j: "k = Suc j" "4 * length (print_a (AAnd n a)) + 2 \<le> j" by (cases k) auto
  have "spent sys (Suc j) (Aexpr (tok_n n)) pre (print_n n @ ''-a'' # print_a a) post p
      (bind_result (val_n sys n) (\<lambda>x. bind_result (val_a sys a) (\<lambda>y. Inr (x \<and> y))))"
    by (rule spent_connective_a [where n' = "tok_a a"])
      (use AAnd j in \<open>simp_all add: follows_op follows_level lex_first_a [where pre = "pre @ print_n n @ [''-a'']", simplified]\<close>)
  then show ?case by (simp add: j(1))
next
  case (NPrim q)
  then obtain j where "k = Suc j" "4 * length (print_p q) + 1 \<le> j" by (cases k) auto
  moreover have "tok_p q \<noteq> UNOT" using NPrim(2) unop_token by (cases q) (auto simp: punct_types)
  ultimately show ?case using NPrim by (simp add: nexpr_def)
next
  case (NNot n)
  then obtain j where j: "k = Suc j" "4 * length (print_n n) + 2 \<le> j" by (cases k) auto
  have "spent sys (Suc j) (Nexpr UNOT) pre (''!'' # print_n n) post p (bind_result (val_n sys n) (\<lambda>x. Inr (\<not> x)))"
    by (rule spent_not [where n = "tok_n n"]) (use NNot j in \<open>simp_all add: lex_first_n\<close>)
  then show ?case by (simp add: j(1))
next
  case (PUn o1 x)
  then obtain j where "k = Suc j" by (cases k) auto
  then show ?case using PUn by (simp add: prim_PUn)
next
  case (PBin x o2 y)
  then obtain j where "k = Suc j" by (cases k) auto
  then show ?case using PBin by (simp add: prim_PBin)
next
  case (POperand x)
  then obtain j where "k = Suc j" by (cases k) auto
  then show ?case using POperand by (simp add: prim_POperand)
next
  case (PParen e)
  then obtain j where j: "k = Suc j" "4 * length (print_o e) + 4 \<le> j" by (cases k) auto
  have "spent sys (Suc j) (Prim LPAREN) pre (''('' # print_o e @ ['')'']) post p (val_o sys e)"
    by (rule spent_paren [where n = "tok_o e"])
      (use PParen j in \<open>simp_all add: lex_first_o first_not_close follows_op follows_level\<close>)
  then show ?case by (simp add: j(1))
qed

lemma test_oexpr_print:
  assumes "wf_o e"
  shows "test_oexpr sys (before pre (print_o e) 0) = bind_result (val_o sys e) (\<lambda>b. Inr (b, behind pre (print_o e) [] 0))"
proof -
  have a: "arg (before pre (print_o e) 0) (t_wp (before pre (print_o e) 0)) = Inr (Some (hd (print_o e)))"
    using print_nonempty(1) [OF assms] by (cases "print_o e") simp_all
  have l: "t_lex (before pre (print_o e) 0) (Some (hd (print_o e))) = Inr (tok_o e)"
    using lex_first_o [OF assms, of pre "[]"] by simp
  show ?thesis
    using parse_print(1) [OF assms, of "4 * length (pre @ print_o e) + 8" 0 "[]" sys pre]
    unfolding test_oexpr_def a l bind_result_simps by (simp add: follows_def)
qed

lemma test_args_print:
  assumes "wf_o e"
  shows "\<not> (length (print_o e) = 4 \<and> hd (print_o e) = ''!'') \<Longrightarrow>
      test_args sys (print_o e) = bind_result (val_o sys e) (\<lambda>b. Inr (if b then 0 else 1))"
    and "length (print_o e) = 3 \<Longrightarrow> test_args sys (''!'' # print_o e) = bind_result (val_o sys e) (\<lambda>b. Inr (if b then 1 else 0))"
proof -
  have n: "nargc (behind pre (print_o e) [] 0) = 1" for pre by (simp add: behind_def)
  show "test_args sys (print_o e) = bind_result (val_o sys e) (\<lambda>b. Inr (if b then 0 else 1))"
    if "\<not> (length (print_o e) = 4 \<and> hd (print_o e) = ''!'')"
    using that test_oexpr_print [OF assms, of sys "[]"] print_nonempty(1) [OF assms] n [of "[]"]
    by (cases "val_o sys e") (auto simp: test_args_def before_def)
  show "test_args sys (''!'' # print_o e) = bind_result (val_o sys e) (\<lambda>b. Inr (if b then 1 else 0))"
    if "length (print_o e) = 3"
    using that test_oexpr_print [OF assms, of sys "[''!'']"] n [of "[''!'']"]
    by (cases "val_o sys e") (auto simp: test_args_def before_def)
qed

text \<open>
  C15. The command test computes the value of every expression of its grammar, with any number of ! before a primary, as long as no left operand is an
  operator and no operand of a unary operator is a binary one or a closing parenthesis: -o binds weaker than -a, -a weaker than !,
  all operands are evaluated from the left and the first error is the outcome. The one exception is a list of four arguments that starts with !:
  the ! then negates the value of the other three, whatever they are.
\<close>

theorem test_grammar:
  assumes "wf_o e"
  shows "(length (print_o e) = 4 \<and> hd (print_o e) = ''!'' \<or>
      test_main sys (''test'' # print_o e) = bind_result (val_o sys e) (\<lambda>b. Inr (if b then 0 else 1)))
    \<and> (length (print_o e) \<noteq> 3 \<or>
      test_main sys (''test'' # ''!'' # print_o e) = bind_result (val_o sys e) (\<lambda>b. Inr (if b then 1 else 0)))"
  using test_args_print [OF assms] by (auto simp: test_main_def Let_def)

definition sample_system :: system where
  "sample_system = \<lparr>sys_stat = (\<lambda>f. None), sys_lstat = (\<lambda>f. None), sys_eaccess = (\<lambda>f m. False), sys_isatty = (\<lambda>fd. False),
     sys_geteuid = 501, sys_getegid = 20\<rparr>"

text \<open>The expression -z a -o ! ( -n b -a 3 -gt 12 ), and a -o b behind a !.\<close>

theorem test_grammar_witness:
  "test_main sample_system [''test'', ''-z'', ''a'', ''-o'', ''!'', ''('', ''-n'', ''b'', ''-a'', ''3'', ''-gt'', ''12'', '')''] = Inr 0
   \<and> test_main sample_system [''test'', ''!'', ''a'', ''-o'', ''b''] = Inr 1"
proof -
  have 1: "wf_o (OOr (ANot (NPrim (PUn ''-z'' ''a''))) (OAnd (ANot (NNot (NPrim (PParen
      (OAnd (AAnd (NPrim (PUn ''-n'' ''b'')) (ANot (NPrim (PBin ''3'' ''-gt'' ''12''))))))))))) = True"
    "val_o sample_system (OOr (ANot (NPrim (PUn ''-z'' ''a''))) (OAnd (ANot (NNot (NPrim (PParen
      (OAnd (AAnd (NPrim (PUn ''-n'' ''b'')) (ANot (NPrim (PBin ''3'' ''-gt'' ''12''))))))))))) = Inr True"
    by code_simp+
  have 2: "wf_o (OOr (ANot (NPrim (POperand ''a''))) (OAnd (ANot (NPrim (POperand ''b''))))) = True"
    "val_o sample_system (OOr (ANot (NPrim (POperand ''a''))) (OAnd (ANot (NPrim (POperand ''b''))))) = Inr True"
    by code_simp+
  show ?thesis
    using test_grammar [OF eqTrueE [OF 1(1)], of sample_system] test_grammar [OF eqTrueE [OF 2(1)], of sample_system] 1(2) 2(2)
    by simp
qed

end
