(* ===== verification/Test_Posix.thy ===== *)
theory Test_Posix
  imports Test_Grammar
begin

text \<open>
  The rules of POSIX for the command test with up to four arguments, which say what an argument is by the number of
  arguments alone, so that operands may look like operators. The parser follows them in
  every case they specify. The rules for the obsolescent connectives -a and -o are those of the grammar and not repeated.
\<close>

subsection \<open>The rules\<close>

definition posix_one :: "string \<Rightarrow> test_error + bool" where
  "posix_one a = Inr (a \<noteq> [])"

definition negated :: "test_error + bool \<Rightarrow> test_error + bool" where
  "negated v = bind_result v (\<lambda>b. Inr (\<not> b))"

definition posix_two :: "system \<Rightarrow> string \<Rightarrow> string \<Rightarrow> (test_error + bool) option" where
  "posix_two sys a b =
     (if a = ''!'' then Some (negated (posix_one b))
      else if is_unop_text a then Some (unop_value sys (the (map_of ops a)) b) else None)"

definition posix_three :: "system \<Rightarrow> string \<Rightarrow> string \<Rightarrow> string \<Rightarrow> (test_error + bool) option" where
  "posix_three sys a b c =
     (if is_binop_text b then Some (binop_value sys (the (map_of ops b)) a c)
      else if a = ''!'' then map_option negated (posix_two sys b c)
      else if a = ''('' \<and> c = '')'' then Some (posix_one b) else None)"

definition posix_four :: "system \<Rightarrow> string \<Rightarrow> string \<Rightarrow> string \<Rightarrow> string \<Rightarrow> (test_error + bool) option" where
  "posix_four sys a b c d =
     (if a = ''!'' then map_option negated (posix_three sys b c d)
      else if a = ''('' \<and> d = '')'' then posix_two sys b c else None)"

fun posix_test :: "system \<Rightarrow> string list \<Rightarrow> (test_error + bool) option" where
  "posix_test sys [] = Some (Inr False)"
| "posix_test sys [a] = Some (posix_one a)"
| "posix_test sys [a, b] = posix_two sys a b"
| "posix_test sys [a, b, c] = posix_three sys a b c"
| "posix_test sys [a, b, c, d] = posix_four sys a b c d"
| "posix_test sys (a # b # c # d # e # rest) = None"

subsection \<open>Arguments that the number of arguments makes operands\<close>

definition operandlike :: "token \<Rightarrow> bool" where
  "operandlike n \<longleftrightarrow> n \<notin> {EOI, LPAREN, UNOT} \<and> token_type n \<noteq> UNOP"

text \<open>The whole list, or all of it between two parentheses.\<close>

definition closed :: "int \<Rightarrow> string list \<Rightarrow> bool" where
  "closed p post \<longleftrightarrow> p = 0 \<and> post = [] \<or> p = 1 \<and> post = ['')'']"

lemma closed_follows: "closed p post \<Longrightarrow> follows_o p post \<and> follows_a p post \<and> follows_p p post"
  by (auto simp: closed_def follows_def)

lemma bunop_token: "map_of ops a = Some t \<Longrightarrow> token_type t = BUNOP \<longleftrightarrow> t = UNOT"
  by (cases t) (simp_all add: token_type_def)

lemma lex_operandlike:
  assumes "closed p post"
  shows "\<exists>n. t_lex (before pre (a # post) p) (Some a) = Inr n \<and> operandlike n \<and> (p = 1 \<longrightarrow> n \<noteq> RPAREN)"
proof (cases "map_of ops a")
  case None
  then show ?thesis by (simp add: t_lex_def operandlike_def punct_types)
next
  case (Some t)
  then show ?thesis using assms bunop_token [OF Some] ops_not_eoi [OF Some]
    by (auto simp: t_lex_def closed_def operandlike_def isunopoperand_def islparenoperand_def isrparenoperand_def punct_types)
qed

lemma lex_left_operand:
  assumes "is_binop_text b"
  shows "\<exists>n. t_lex (before pre [a, b, c] 0) (Some a) = Inr n \<and> operandlike n"
proof (cases "map_of ops a")
  case None
  then show ?thesis by (simp add: t_lex_def operandlike_def punct_types)
next
  case (Some t)
  then show ?thesis using assms bunop_token [OF Some] ops_not_eoi [OF Some]
    by (auto simp: t_lex_def operandlike_def isunopoperand_def islparenoperand_def isrparenoperand_def punct_types)
qed

lemma prim_operandlike:
  "operandlike n \<Longrightarrow> prim sys call n st = prim sys call OPERAND st"
  by (auto simp: prim_def operandlike_def punct_types)

subsection \<open>From a primary to the whole expression\<close>

lemma spent_not_bang: "n \<noteq> UNOT \<Longrightarrow> spent sys k (Prim n) pre w post p v \<Longrightarrow> spent sys (Suc k) (Nexpr n) pre w post p v"
  by (simp add: nexpr_def)

lemma spent_whole:
  assumes "spent sys k (Nexpr n) pre w post p v" "w \<noteq> []" "closed p post"
  shows "spent sys (Suc (Suc k)) (Oexpr n) pre w post p v"
  using assms closed_follows by (intro spent_last_o spent_last_a) simp_all

lemma spent_one:
  assumes "operandlike n" "closed p post"
  shows "spent sys (Suc (Suc k)) (Nexpr n) pre [a] post p (posix_one a)"
proof (rule spent_not_bang)
  show "n \<noteq> UNOT" using assms(1) by (simp add: operandlike_def)
  show "spent sys (Suc k) (Prim n) pre [a] post p (posix_one a)"
    using prim_POperand [of p post] closed_follows [OF assms(2)] by (simp add: prim_operandlike [OF assms(1)] posix_one_def)
qed

lemma spent_two:
  assumes "posix_two sys a b = Some v" "closed p post"
  shows "\<exists>n. t_lex (before pre (a # b # post) p) (Some a) = Inr n \<and> n \<noteq> RPAREN \<and> spent sys (Suc (Suc (Suc k))) (Nexpr n) pre [a, b] post p v"
proof (cases "a = ''!''")
  case True
  obtain n where n: "t_lex (before (pre @ [''!'']) ([b] @ post) p) (Some (hd [b])) = Inr n" "operandlike n"
    using lex_operandlike [OF assms(2), of "pre @ [''!'']" b] by auto
  have "spent sys (Suc (Suc (Suc k))) (Nexpr UNOT) pre (''!'' # [b]) post p (bind_result (posix_one b) (\<lambda>x. Inr (\<not> x)))"
    by (rule spent_not [OF _ n(1) spent_one [OF n(2) assms(2)]]) simp
  moreover have "t_lex (before pre (a # b # post) p) (Some a) = Inr UNOT"
    using assms(2) by (auto simp: True t_lex_def ops_punct punct_types isunopoperand_def closed_def)
  ultimately show ?thesis using assms(1) True by (auto simp: posix_two_def negated_def)
next
  case False
  then have u: "is_unop_text a" "v = unop_value sys (the (map_of ops a)) b"
    using assms(1) by (auto simp: posix_two_def split: if_splits)
  have "t_lex (before pre (a # b # post) p) (Some a) = Inr (the (map_of ops a))"
    using assms(2) u(1) by (auto simp: t_lex_def is_unop_text_def isunopoperand_def closed_def split: option.splits)
  moreover have "spent sys (Suc (Suc (Suc k))) (Nexpr (the (map_of ops a))) pre [a, b] post p v"
    by (rule spent_not_bang) (use unop_token [OF u(1)] prim_PUn [OF u(1)] u(2) in simp_all)
  ultimately show ?thesis using unop_token [OF u(1)] by auto
qed

text \<open>An expression between parentheses that end the list.\<close>

lemma lex_open: "\<not> is_binop_text b \<or> post \<noteq> [] \<Longrightarrow> t_lex (before pre (''('' # b # c # post) 0) (Some ''('') = Inr LPAREN"
  by (cases post) (auto simp: t_lex_def ops_punct punct_types islparenoperand_def)

lemma spent_in_parens:
  assumes "w \<noteq> []" "t_lex (before (pre @ [''('']) (w @ ['')'']) 1) (Some (hd w)) = Inr n" "n \<noteq> RPAREN"
    and "spent sys k (Nexpr n) (pre @ [''('']) w ['')''] 1 v"
  shows "spent sys (Suc (Suc (Suc (Suc k)))) (Nexpr LPAREN) pre (''('' # w @ ['')'']) [] 0 v"
proof (rule spent_not_bang)
  have "spent sys (Suc (Suc k)) (Oexpr n) (pre @ [''('']) w ['')''] 1 v"
    using assms(1,4) by (intro spent_whole) (simp_all add: closed_def)
  then show "spent sys (Suc (Suc (Suc k))) (Prim LPAREN) pre (''('' # w @ ['')'']) [] 0 v"
    using assms(1-3) by (intro spent_paren) (simp_all add: follows_def)
qed simp

lemma spent_three:
  assumes "posix_three sys a b c = Some v"
  shows "\<exists>n. t_lex (before pre [a, b, c] 0) (Some a) = Inr n \<and> spent sys (Suc (Suc (Suc (Suc (Suc (Suc k)))))) (Nexpr n) pre [a, b, c] [] 0 v"
proof -
  consider "is_binop_text b" | "\<not> is_binop_text b" "a = ''!''" | "\<not> is_binop_text b" "a = ''(''" "c = '')''"
    using assms by (auto simp: posix_three_def split: if_splits)
  then show ?thesis
  proof cases
    case 1
    obtain n where n: "t_lex (before pre [a, b, c] 0) (Some a) = Inr n" "operandlike n"
      using lex_left_operand [OF 1] by blast
    have "spent sys (Suc (Suc k)) (Nexpr n) pre [a, b, c] [] 0 v" for k
      by (rule spent_not_bang)
        (use n(2) 1 assms prim_PBin [OF 1] in \<open>auto simp: prim_operandlike operandlike_def posix_three_def\<close>)
    then show ?thesis using n(1) by blast
  next
    case 2
    then obtain w where w: "posix_two sys b c = Some w" "v = negated w" using assms by (auto simp: posix_three_def)
    obtain n where n: "t_lex (before (pre @ [''!'']) (b # c # []) 0) (Some b) = Inr n"
        "spent sys (Suc (Suc (Suc (Suc (Suc k))))) (Nexpr n) (pre @ [''!'']) [b, c] [] 0 w"
      using spent_two [OF w(1), of 0 "[]" "pre @ [''!'']" "Suc (Suc k)"] by (auto simp: closed_def)
    have "spent sys (Suc (Suc (Suc (Suc (Suc (Suc k)))))) (Nexpr UNOT) pre (''!'' # [b, c]) [] 0 (bind_result w (\<lambda>x. Inr (\<not> x)))"
      by (rule spent_not [OF _ _ n(2)]) (use n(1) in simp_all)
    moreover have "t_lex (before pre [a, b, c] 0) (Some a) = Inr UNOT"
      using 2 by (simp add: t_lex_def ops_punct punct_types isunopoperand_def)
    ultimately show ?thesis using 2(2) w(2) by (auto simp: negated_def)
  next
    case 3
    obtain n where n: "t_lex (before (pre @ [''('']) ([b] @ ['')'']) 1) (Some (hd [b])) = Inr n" "operandlike n" "n \<noteq> RPAREN"
      using lex_operandlike [of 1 "['')'']" "pre @ [''('']" b] by (auto simp: closed_def)
    have "spent sys (Suc (Suc (Suc (Suc (Suc (Suc k)))))) (Nexpr LPAREN) pre (''('' # [b] @ ['')'']) [] 0 (posix_one b)"
      by (rule spent_in_parens [OF _ n(1,3) spent_one [OF n(2)]]) (simp_all add: closed_def)
    moreover have "v = posix_one b" using 3 assms by (simp add: posix_three_def)
    ultimately show ?thesis using 3 lex_open [of b "[]" pre c] by auto
  qed
qed

lemma spent_four:
  assumes "posix_two sys b c = Some v"
  shows "t_lex (before pre [''('', b, c, '')''] 0) (Some ''('') = Inr LPAREN
     \<and> spent sys (Suc (Suc (Suc (Suc (Suc (Suc (Suc k))))))) (Nexpr LPAREN) pre [''('', b, c, '')''] [] 0 v"
proof -
  obtain n where n: "t_lex (before (pre @ [''('']) ([b, c] @ ['')'']) 1) (Some (hd [b, c])) = Inr n" "n \<noteq> RPAREN"
      "spent sys (Suc (Suc (Suc k))) (Nexpr n) (pre @ [''('']) [b, c] ['')''] 1 v"
    using spent_two [OF assms, of 1 "['')'']" "pre @ [''('']" k] by (auto simp: closed_def)
  show ?thesis using spent_in_parens [OF _ n] lex_open by simp
qed

subsection \<open>The command\<close>

lemma test_oexpr_spent:
  assumes "t_lex (before pre (a # w) 0) (Some a) = Inr n" "\<And>k. spent sys (m + k) (Nexpr n) pre (a # w) [] 0 v"
    and "m + 2 \<le> 4 * length (pre @ a # w) + 8"
  shows "test_oexpr sys (before pre (a # w) 0) = bind_result v (\<lambda>b. Inr (b, behind pre (a # w) [] 0))"
proof -
  define k where "k = 4 * length (pre @ a # w) + 6 - m"
  have f: "4 * length (t_args (before pre (a # w) 0)) + 8 = Suc (Suc (m + k))" using assms(3) by (simp add: k_def)
  have "spent sys (Suc (Suc (m + k))) (Oexpr n) pre (a # w) [] 0 v"
    by (rule spent_whole [OF assms(2)]) (simp_all add: closed_def)
  then show ?thesis using assms(1) unfolding test_oexpr_def f by (simp del: test_parse.simps)
qed

lemma test_args_spent:
  assumes "test_oexpr sys (before [] (a # w) 0) = bind_result v (\<lambda>b. Inr (b, behind [] (a # w) [] 0))"
    and "\<not> (length w = 3 \<and> a = ''!'')"
  shows "test_args sys (a # w) = bind_result v (\<lambda>b. Inr (if b then 0 else 1))"
  using assms by (cases v) (auto simp: test_args_def before_def behind_def)

lemma test_args_bang:
  assumes "test_oexpr sys (before [''!''] [a, b, c] 0) = bind_result v (\<lambda>r. Inr (r, behind [''!''] [a, b, c] [] 0))"
  shows "test_args sys [''!'', a, b, c] = bind_result v (\<lambda>b. Inr (if b then 1 else 0))"
  using assms by (cases v) (auto simp: test_args_def before_def behind_def)

lemma posix_args:
  assumes "posix_test sys args = Some v"
  shows "test_args sys args = bind_result v (\<lambda>b. Inr (if b then 0 else 1))"
  using assms
proof (cases "(sys, args)" rule: posix_test.cases)
  case 1
  then show ?thesis using assms by (auto simp: test_args_def)
next
  case (2 s a)
  obtain n where n: "t_lex (before [] [a] 0) (Some a) = Inr n" "operandlike n"
    using lex_operandlike [of 0 "[]" "[]" a] by (auto simp: closed_def)
  have "test_oexpr sys (before [] [a] 0) = bind_result (posix_one a) (\<lambda>b. Inr (b, behind [] [a] [] 0))"
    by (rule test_oexpr_spent [OF n(1), where m = 2]) (use spent_one [OF n(2)] in \<open>simp_all add: closed_def\<close>)
  then show ?thesis using 2 assms test_args_spent by auto
next
  case (3 s a b)
  then have two: "posix_two sys a b = Some v" using assms by simp
  obtain n where n: "t_lex (before [] [a, b] 0) (Some a) = Inr n"
    using spent_two [OF two, of 0 "[]" "[]"] by (auto simp: closed_def)
  have "test_oexpr sys (before [] [a, b] 0) = bind_result v (\<lambda>b'. Inr (b', behind [] [a, b] [] 0))"
    by (rule test_oexpr_spent [OF n, where m = 3]) (use spent_two [OF two, of 0 "[]" "[]"] n in \<open>auto simp: closed_def eval_nat_numeral\<close>)
  then show ?thesis using 3 test_args_spent by auto
next
  case (4 s a b c)
  then have three: "posix_three sys a b c = Some v" using assms by simp
  obtain n where n: "t_lex (before [] [a, b, c] 0) (Some a) = Inr n" using spent_three [OF three] by blast
  have "test_oexpr sys (before [] [a, b, c] 0) = bind_result v (\<lambda>b'. Inr (b', behind [] [a, b, c] [] 0))"
    by (rule test_oexpr_spent [OF n, where m = 6]) (use spent_three [OF three, of "[]"] n in \<open>auto simp: eval_nat_numeral\<close>)
  then show ?thesis using 4 test_args_spent by auto
next
  case (5 s a b c d)
  show ?thesis
  proof (cases "a = ''!''")
    case True
    then obtain w where w: "posix_three sys b c d = Some w" "v = negated w" using 5 assms by (auto simp: posix_four_def)
    obtain n where n: "t_lex (before [''!''] [b, c, d] 0) (Some b) = Inr n" using spent_three [OF w(1)] by blast
    have "test_oexpr sys (before [''!''] [b, c, d] 0) = bind_result w (\<lambda>r. Inr (r, behind [''!''] [b, c, d] [] 0))"
      by (rule test_oexpr_spent [OF n, where m = 6]) (use spent_three [OF w(1), of "[''!'']"] n in \<open>auto simp: eval_nat_numeral\<close>)
    then show ?thesis using 5 True w(2) test_args_bang [of sys b c d w] by (cases w) (auto simp: negated_def)
  next
    case False
    then have two: "a = ''(''" "d = '')''" "posix_two sys b c = Some v"
      using 5 assms by (auto simp: posix_four_def split: if_splits)
    have "test_oexpr sys (before [] [a, b, c, d] 0) = bind_result v (\<lambda>r. Inr (r, behind [] [a, b, c, d] [] 0))"
      by (rule test_oexpr_spent [where n = LPAREN and m = 7]) (use two spent_four [OF two(3), of "[]"] in \<open>auto simp: eval_nat_numeral\<close>)
    then show ?thesis using 5 two(1) test_args_spent by auto
  qed
qed simp

text \<open>
  C9. With up to four arguments the command test follows POSIX, under both of its names: what the arguments
  are is decided by their number and not by their texts, so that every string, also one that looks like an operator, can be an
  operand of a unary or a binary primary, stand alone, be negated with ! or be enclosed in parentheses.
\<close>

theorem test_posix:
  assumes "posix_test sys args = Some v"
  shows "test_main sys (''test'' # args) = bind_result v (\<lambda>b. Inr (if b then 0 else 1))
    \<and> test_main sys (''['' # args @ ['']'']) = bind_result v (\<lambda>b. Inr (if b then 0 else 1))"
  using posix_args [OF assms] by (simp add: test_main_def Let_def)

text \<open>The arguments ! ( = ), where the parentheses are operands.\<close>

theorem test_posix_witness:
  "test_main sample_system [''test'', ''!'', ''('', ''='', '')''] = Inr 0 \<and> test_main sample_system [''['', ''-f'', '']''] = Inr 0"
proof -
  have "posix_test sample_system [''!'', ''('', ''='', '')''] = Some (Inr True)" "posix_test sample_system [''-f''] = Some (Inr True)"
    by code_simp+
  then show ?thesis
    using test_posix [of sample_system "[''!'', ''('', ''='', '')'']"] test_posix [of sample_system "[''-f'']"] by simp
qed

end
